(* ===== verification/K8_Prelude.thy ===== *)
theory K8_Prelude
  imports Main "HOL-Library.Word" "HOL-Library.Multiset" "HOL-Library.Sublist"
    "HOL-Library.List_Lexorder" "HOL-Library.Char_ord"
begin

text \<open>
  Shared vocabulary of the development.  A Go string and a Go byte slice are both a
  \<open>string\<close> here (a list of bytes, \<open>char\<close> being exactly a byte); Go's \<open>int\<close> and
  \<open>int64\<close> values are \<open>int\<close>, counted lengths are \<open>nat\<close>, and the places where a 64-bit
  wrap-around can be reached write it out.  An error return is the left injection of a sum.

  The theory holds the pieces of Go's standard library the modelled sources use: UTF-8
  decoding, \<open>strings.ToLower\<close>, \<open>EqualFold\<close>, \<open>TrimSpace\<close>, \<open>Fields\<close>, \<open>Contains\<close>,
  \<open>Split\<close>, \<open>Join\<close>, \<open>strconv.Itoa\<close>, \<open>Atoi\<close>, IEEE-754 comparison, and reads from a
  \<open>bufio.Reader\<close> over the bytes a connection delivers before its end.  The parts of that
  library that are data tables or engines of their own (Unicode case tables, decimal to
  binary floating point conversion, RE2, IP address syntax) are the fields of the record
  \<open>golib\<close>, a parameter of every definition that uses them.
\<close>

named_theorems reader_simps \<open>how the reading primitives act on a given stream\<close>
named_theorems inv_intros \<open>preservation of the component invariants\<close>

type_synonym bytes = string
type_synonym f64 = "64 word"
type_synonym rune = nat

subsection \<open>Bytes and numbers\<close>

abbreviation byte :: "char \<Rightarrow> nat" where
  "byte c \<equiv> of_char c"

definition be16 :: "bytes \<Rightarrow> nat" where
  "be16 b = fold (\<lambda>c n. 256 * n + byte c) (take 2 b) 0"

definition be32 :: "bytes \<Rightarrow> nat" where
  "be32 b = fold (\<lambda>c n. 256 * n + byte c) (take 4 b) 0"

fun digits_rev :: "nat \<Rightarrow> nat \<Rightarrow> nat list" where
  "digits_rev b n = (if b \<le> 1 \<or> n < b then [n] else (n mod b) # digits_rev b (n div b))"

declare digits_rev.simps [simp del]

definition digit_char :: "nat \<Rightarrow> char" where
  "digit_char d = (if d < 10 then char_of (48 + d) else char_of (87 + d))"

definition format_nat :: "nat \<Rightarrow> nat \<Rightarrow> string" where
  "format_nat b n = map digit_char (rev (digits_rev b n))"

definition itoa :: "int \<Rightarrow> string" where
  "itoa n = (if n < 0 then CHR ''-'' # format_nat 10 (nat (- n)) else format_nat 10 (nat n))"

definition is_digit :: "char \<Rightarrow> bool" where
  "is_digit c \<longleftrightarrow> 48 \<le> byte c \<and> byte c \<le> 57"

definition digits_value :: "string \<Rightarrow> nat" where
  "digits_value s = fold (\<lambda>c n. 10 * n + (byte c - 48)) s 0"

text \<open>\<open>strconv.Atoi\<close> on a 64-bit platform: an optional sign, at least one decimal digit,
  nothing else, and a range check.\<close>

definition decimal :: "string \<Rightarrow> int option" where
  "decimal s =
     (let neg = (case s of c # _ \<Rightarrow> c = CHR ''-'' | [] \<Rightarrow> False);
          ds = (case s of c # r \<Rightarrow> if c = CHR ''-'' \<or> c = CHR ''+'' then r else s | [] \<Rightarrow> s)
      in if ds = [] \<or> \<not> list_all is_digit ds then None
         else Some (if neg then - int (digits_value ds) else int (digits_value ds)))"

definition atoi :: "string \<Rightarrow> int option" where
  "atoi s = (case decimal s of None \<Rightarrow> None
     | Some v \<Rightarrow> if v < - (2 ^ 63) \<or> v > 2 ^ 63 - 1 then None else Some v)"

text \<open>Two's-complement wrap-around of a 64-bit signed integer.\<close>

definition wrap64 :: "int \<Rightarrow> int" where
  "wrap64 n = (n + 2 ^ 63) mod 2 ^ 64 - 2 ^ 63"

text \<open>IEEE-754 double comparison on the bit pattern: no order holds with a NaN, and the two
  zeros are equal.\<close>

definition f_mag :: "f64 \<Rightarrow> int" where
  "f_mag x = uint x mod 2 ^ 63"

definition f_nan :: "f64 \<Rightarrow> bool" where
  "f_nan x \<longleftrightarrow> f_mag x > 2047 * 2 ^ 52"

definition f_key :: "f64 \<Rightarrow> int" where
  "f_key x = (if uint x \<ge> 2 ^ 63 then - f_mag x else f_mag x)"

definition f_less :: "f64 \<Rightarrow> f64 \<Rightarrow> bool" where
  "f_less x y \<longleftrightarrow> \<not> f_nan x \<and> \<not> f_nan y \<and> f_key x < f_key y"

definition f_le :: "f64 \<Rightarrow> f64 \<Rightarrow> bool" where
  "f_le x y \<longleftrightarrow> \<not> f_nan x \<and> \<not> f_nan y \<and> f_key x \<le> f_key y"

fun bit_length :: "nat \<Rightarrow> nat" where
  "bit_length n = (if n = 0 then 0 else Suc (bit_length (n div 2)))"

declare bit_length.simps [simp del]

text \<open>\<open>float64(n)\<close> for an integer \<open>n\<close>: round to nearest, ties to even.\<close>

definition f64_of_int :: "int \<Rightarrow> f64" where
  "f64_of_int n =
     (if n = 0 then 0
      else let m = nat \<bar>n\<bar>;
               e = bit_length m - 1;
               q = (if e \<le> 52 then m * 2 ^ (52 - e)
                    else let d = 2 ^ (e - 52); h = m div d; r = m mod d
                         in if 2 * r > d \<or> (2 * r = d \<and> odd h) then h + 1 else h);
               mant = (if q = 2 ^ 53 then 2 ^ 52 else q);
               ex = (if q = 2 ^ 53 then e + 1 else e)
           in word_of_nat ((if n < 0 then 2 ^ 63 else 0) + (ex + 1023) * 2 ^ 52 + (mant - 2 ^ 52)))"

subsection \<open>The library parameters\<close>

text \<open>
  \<^item> \<open>lower_rune\<close> is \<open>unicode.ToLower\<close>; \<open>upper_rune\<close> is \<open>unicode.ToUpper\<close>;
  \<^item> \<open>same_fold\<close> relates two runes, not both ASCII, of one \<open>unicode.SimpleFold\<close> orbit;
  \<^item> \<open>parse_float\<close> is \<open>strconv.ParseFloat(s, 64)\<close>, \<open>None\<close> for an error;
  \<^item> \<open>format_float\<close> is \<open>strconv.FormatFloat(x, 'f', -1, 64)\<close>;
  \<^item> \<open>compile_regexp\<close> is \<open>regexp.Compile\<close>, giving \<open>MatchString\<close>;
  \<^item> \<open>parse_ip\<close> is \<open>net.ParseIP\<close> and \<open>parse_cidr\<close> is \<open>net.ParseCIDR\<close>, giving the
    network's \<open>Contains\<close>.
\<close>

record golib =
  lower_rune :: "rune \<Rightarrow> rune"
  upper_rune :: "rune \<Rightarrow> rune"
  same_fold :: "rune \<Rightarrow> rune \<Rightarrow> bool"
  parse_float :: "string \<Rightarrow> f64 option"
  format_float :: "f64 \<Rightarrow> string"
  compile_regexp :: "string \<Rightarrow> (string \<Rightarrow> bool) option"
  parse_ip :: "string \<Rightarrow> bytes option"
  parse_cidr :: "string \<Rightarrow> (bytes \<Rightarrow> bool) option"

subsection \<open>UTF-8\<close>

definition rune_error :: rune where
  "rune_error = 65533"

definition cont_byte :: "nat \<Rightarrow> nat \<Rightarrow> nat \<Rightarrow> bool" where
  "cont_byte lo hi n \<longleftrightarrow> lo \<le> n \<and> n \<le> hi"

definition lo2 :: "nat \<Rightarrow> nat" where
  "lo2 b = (if b = 224 then 160 else if b = 240 then 144 else 128)"

definition hi2 :: "nat \<Rightarrow> nat" where
  "hi2 b = (if b = 237 then 159 else if b = 244 then 143 else 191)"

text \<open>\<open>utf8.DecodeRuneInString\<close>: the rune and its width; an ill-formed sequence is
  \<open>RuneError\<close> of width 1.\<close>

definition decode_rune :: "string \<Rightarrow> rune \<times> nat" where
  "decode_rune s =
    (case s of [] \<Rightarrow> (rune_error, 0)
     | c0 # t \<Rightarrow>
        (let b0 = byte c0 in
         if b0 < 128 then (b0, 1)
         else if 194 \<le> b0 \<and> b0 \<le> 223 then
           (case t of c1 # _ \<Rightarrow>
                if cont_byte 128 191 (byte c1)
                then ((b0 - 192) * 64 + (byte c1 - 128), 2) else (rune_error, 1)
            | [] \<Rightarrow> (rune_error, 1))
         else if 224 \<le> b0 \<and> b0 \<le> 239 then
           (case t of c1 # c2 # _ \<Rightarrow>
                if cont_byte (lo2 b0) (hi2 b0) (byte c1) \<and> cont_byte 128 191 (byte c2)
                then ((b0 - 224) * 4096 + (byte c1 - 128) * 64 + (byte c2 - 128), 3)
                else (rune_error, 1)
            | _ \<Rightarrow> (rune_error, 1))
         else if 240 \<le> b0 \<and> b0 \<le> 244 then
           (case t of c1 # c2 # c3 # _ \<Rightarrow>
                if cont_byte (lo2 b0) (hi2 b0) (byte c1) \<and> cont_byte 128 191 (byte c2)
                   \<and> cont_byte 128 191 (byte c3)
                then ((b0 - 240) * 262144 + (byte c1 - 128) * 4096 + (byte c2 - 128) * 64
                      + (byte c3 - 128), 4)
                else (rune_error, 1)
            | _ \<Rightarrow> (rune_error, 1))
         else (rune_error, 1)))"

lemma decode_rune_width: "s \<noteq> [] \<Longrightarrow> 0 < snd (decode_rune s)"
  by (cases s) (auto simp: decode_rune_def Let_def split: list.splits)

text \<open>The runes of a string with the bytes each came from, in order.\<close>

function rune_chunks :: "string \<Rightarrow> (rune \<times> string) list" where
  "rune_chunks s = (if s = [] then []
     else (fst (decode_rune s), take (snd (decode_rune s)) s)
            # rune_chunks (drop (snd (decode_rune s)) s))"
  by pat_completeness auto
termination
  by (relation "measure length") (simp_all add: decode_rune_width)

declare rune_chunks.simps [simp del]

definition runes :: "string \<Rightarrow> rune list" where
  "runes s = map fst (rune_chunks s)"

definition encode_rune :: "rune \<Rightarrow> string" where
  "encode_rune r0 =
    (let r = (if r0 > 1114111 \<or> (55296 \<le> r0 \<and> r0 \<le> 57343) then rune_error else r0) in
     if r < 128 then [char_of r]
     else if r < 2048 then [char_of (192 + r div 64), char_of (128 + r mod 64)]
     else if r < 65536 then
       [char_of (224 + r div 4096), char_of (128 + r div 64 mod 64), char_of (128 + r mod 64)]
     else [char_of (240 + r div 262144), char_of (128 + r div 4096 mod 64),
           char_of (128 + r div 64 mod 64), char_of (128 + r mod 64)])"

definition valid_utf8 :: "string \<Rightarrow> bool" where
  "valid_utf8 s \<longleftrightarrow> list_all (\<lambda>(r, b). r \<noteq> rune_error \<or> length b = 3) (rune_chunks s)"

text \<open>The ellipsis the sources append to cut text, U+2026 in UTF-8.\<close>

definition ellipsis :: string where
  "ellipsis = [char_of (226::nat), char_of (128::nat), char_of (166::nat)]"

subsection \<open>Package strings\<close>

definition is_ascii :: "char \<Rightarrow> bool" where
  "is_ascii c \<longleftrightarrow> byte c < 128"

definition lower_byte :: "char \<Rightarrow> char" where
  "lower_byte c = (if 65 \<le> byte c \<and> byte c \<le> 90 then char_of (byte c + 32) else c)"

definition upper_byte :: "char \<Rightarrow> char" where
  "upper_byte c = (if 97 \<le> byte c \<and> byte c \<le> 122 then char_of (byte c - 32) else c)"

definition to_lower :: "golib \<Rightarrow> string \<Rightarrow> string" where
  "to_lower L s = (if list_all is_ascii s then map lower_byte s
                   else concat (map (encode_rune \<circ> lower_rune L) (runes s)))"

definition to_upper :: "golib \<Rightarrow> string \<Rightarrow> string" where
  "to_upper L s = (if list_all is_ascii s then map upper_byte s
                   else concat (map (encode_rune \<circ> upper_rune L) (runes s)))"

definition fold_rune_eq :: "golib \<Rightarrow> rune \<Rightarrow> rune \<Rightarrow> bool" where
  "fold_rune_eq L a b \<longleftrightarrow>
     a = b \<or> (if a < 128 \<and> b < 128
              then lower_byte (char_of a) = lower_byte (char_of b)
              else same_fold L a b)"

definition equal_fold :: "golib \<Rightarrow> string \<Rightarrow> string \<Rightarrow> bool" where
  "equal_fold L s t \<longleftrightarrow> list_all2 (fold_rune_eq L) (runes s) (runes t)"

text \<open>\<open>unicode.IsSpace\<close> and \<open>unicode.IsControl\<close>.\<close>

definition is_space_rune :: "rune \<Rightarrow> bool" where
  "is_space_rune r \<longleftrightarrow> (9 \<le> r \<and> r \<le> 13) \<or> r = 32 \<or> r = 133 \<or> r = 160 \<or> r = 5760
     \<or> (8192 \<le> r \<and> r \<le> 8202) \<or> r = 8232 \<or> r = 8233 \<or> r = 8239 \<or> r = 8287 \<or> r = 12288"

definition is_control_rune :: "rune \<Rightarrow> bool" where
  "is_control_rune r \<longleftrightarrow> r < 32 \<or> (127 \<le> r \<and> r < 160)"

definition trim_space :: "string \<Rightarrow> string" where
  "trim_space s =
     (let left = dropWhile (is_space_rune \<circ> fst) (rune_chunks s);
          both = rev (dropWhile (is_space_rune \<circ> fst) (rev left))
      in concat (map snd both))"

fun split_chunks :: "(rune \<times> string) list \<Rightarrow> string \<Rightarrow> string list" where
  "split_chunks [] acc = (if acc = [] then [] else [acc])"
| "split_chunks ((r, b) # cs) acc =
     (if is_space_rune r then (if acc = [] then split_chunks cs [] else acc # split_chunks cs [])
      else split_chunks cs (acc @ b))"

definition fields :: "string \<Rightarrow> string list" where
  "fields s = split_chunks (rune_chunks s) []"

fun join :: "string \<Rightarrow> string list \<Rightarrow> string" where
  "join sep [] = []"
| "join sep [x] = x"
| "join sep (x # y # ys) = x @ sep @ join sep (y # ys)"

fun split_on :: "char \<Rightarrow> string \<Rightarrow> string list" where
  "split_on c [] = [[]]"
| "split_on c (x # xs) =
     (if x = c then [] # split_on c xs
      else (case split_on c xs of [] \<Rightarrow> [[x]] | y # ys \<Rightarrow> (x # y) # ys))"

definition contains_str :: "string \<Rightarrow> string \<Rightarrow> bool" where
  "contains_str s sub \<longleftrightarrow> list_ex (prefix sub) (suffixes s)"

definition is_crlf :: "char \<Rightarrow> bool" where
  "is_crlf c \<longleftrightarrow> c = char_of (13::nat) \<or> c = char_of (10::nat)"

definition trim_right_crlf :: "string \<Rightarrow> string" where
  "trim_right_crlf s = rev (dropWhile is_crlf (rev s))"

subsection \<open>Reading from a connection\<close>

text \<open>
  A \<open>bufio.Reader\<close> over one direction of a connection is the list of the bytes that
  direction still delivers before its end of file; every read returns what is left.  The
  only error such a reader reports is the end of the stream.
\<close>

definition read_byte :: "bytes \<Rightarrow> (char \<times> bytes) option" where
  "read_byte s = (case s of [] \<Rightarrow> None | c # r \<Rightarrow> Some (c, r))"

definition read_full :: "nat \<Rightarrow> bytes \<Rightarrow> (bytes \<times> bytes) option" where
  "read_full n s = (if length s < n then None else Some (take n s, drop n s))"

definition discard_n :: "nat \<Rightarrow> bytes \<Rightarrow> bytes option" where
  "discard_n n s = (if length s < n then None else Some (drop n s))"

text \<open>\<open>ReadString('\n')\<close>: everything up to and including the first newline.\<close>

definition read_line :: "bytes \<Rightarrow> (string \<times> bytes) option" where
  "read_line s = (case dropWhile (\<lambda>c. c \<noteq> char_of (10::nat)) s of
       [] \<Rightarrow> None
     | nl # r \<Rightarrow> Some (takeWhile (\<lambda>c. c \<noteq> char_of (10::nat)) s @ [nl], r))"

subsection \<open>Lemmas on runes and case folding\<close>

lemma byte_char_of [simp]: "n < 256 \<Longrightarrow> byte (char_of n) = n"
  by (simp add: of_char_of)

lemma byte_less [simp]: "byte c < 256"
  by (metis nat_of_char_less_256)

lemma decode_rune_ascii: "byte c < 128 \<Longrightarrow> decode_rune (c # t) = (byte c, 1)"
  by (simp add: decode_rune_def)

lemma rune_chunks_Nil [simp]: "rune_chunks [] = []"
  by (simp add: rune_chunks.simps)

lemma rune_chunks_Cons:
  "rune_chunks (c # s) = (fst (decode_rune (c # s)), take (snd (decode_rune (c # s))) (c # s))
     # rune_chunks (drop (snd (decode_rune (c # s))) (c # s))"
  by (simp add: rune_chunks.simps [of "c # s"])

lemma rune_chunks_ascii: "byte c < 128 \<Longrightarrow> rune_chunks (c # s) = (byte c, [c]) # rune_chunks s"
  by (simp add: rune_chunks_Cons decode_rune_ascii)

lemma concat_rune_chunks: "concat (map snd (rune_chunks s)) = s"
proof (induction s rule: rune_chunks.induct)
  case (1 s)
  then show ?case by (cases s) (simp_all add: rune_chunks_Cons)
qed

lemma decode_rune_width_le: "snd (decode_rune s) \<le> length s"
  by (cases s) (auto simp: decode_rune_def Let_def split: list.splits)

lemma decode_rune_append_ascii:
  assumes "byte c < 128" "a \<noteq> []"
  shows "decode_rune (a @ c # b) = decode_rune a"
proof -
  obtain x t where a: "a = x # t" using assms(2) by (cases a) auto
  have no: "\<not> cont_byte 128 191 (byte c)" "\<And>k. \<not> cont_byte (lo2 k) (hi2 k) (byte c)"
    using assms(1) by (auto simp: cont_byte_def lo2_def)
  consider "t = []" | t1 where "t = [t1]" | t1 t2 where "t = [t1, t2]"
    | t1 t2 t3 r where "t = t1 # t2 # t3 # r"
    by (metis list.exhaust)
  then show ?thesis
    by cases (simp_all add: a decode_rune_def Let_def no split: list.splits)
qed

lemma rune_chunks_append_ascii:
  assumes "byte c < 128"
  shows "rune_chunks (a @ c # b) = rune_chunks a @ rune_chunks (c # b)"
proof (induction a rule: rune_chunks.induct)
  case (1 a)
  show ?case
  proof (cases "a = []")
    case False
    let ?w = "snd (decode_rune a)"
    have w: "?w \<le> length a" by (rule decode_rune_width_le)
    have "rune_chunks (a @ c # b) =
        (fst (decode_rune a), take ?w a) # rune_chunks (drop ?w a @ c # b)"
      using False w by (subst rune_chunks.simps) (simp add: decode_rune_append_ascii assms)
    also have "\<dots> = rune_chunks a @ rune_chunks (c # b)"
      using False 1 by (subst (2) rune_chunks.simps) simp
    finally show ?thesis .
  qed simp
qed

text \<open>What the code relies on of \<open>unicode.ToLower\<close>: on ASCII it is the byte-wise fold.\<close>

definition lower_ascii :: "golib \<Rightarrow> bool" where
  "lower_ascii L \<longleftrightarrow> (\<forall>c. byte c < 128 \<longrightarrow> lower_rune L (byte c) = byte (lower_byte c))"

lemma lower_byte_ascii: "byte c < 128 \<Longrightarrow> byte (lower_byte c) < 128"
  by (auto simp: lower_byte_def)

lemma encode_rune_ascii: "r < 128 \<Longrightarrow> encode_rune r = [char_of r]"
  by (simp add: encode_rune_def)

lemma runes_ascii: "list_all is_ascii s \<Longrightarrow> runes s = map byte s"
  by (induction s) (simp_all add: runes_def rune_chunks_ascii is_ascii_def)

lemma to_lower_runes:
  assumes "lower_ascii L"
  shows "to_lower L s = concat (map (encode_rune \<circ> lower_rune L) (runes s))"
proof (cases "list_all is_ascii s")
  case True
  have "concat (map (encode_rune \<circ> lower_rune L) (map byte s)) = map lower_byte s"
    using True assms
    by (induction s) (simp_all add: is_ascii_def lower_ascii_def encode_rune_ascii lower_byte_ascii)
  then show ?thesis using True by (simp add: to_lower_def runes_ascii)
qed (simp add: to_lower_def)

lemma to_lower_Nil [simp]: "to_lower L [] = []"
  by (simp add: to_lower_def)

lemma to_lower_append_ascii:
  "lower_ascii L \<Longrightarrow> byte c < 128 \<Longrightarrow> to_lower L (a @ c # b) = to_lower L a @ lower_byte c # to_lower L b"
  by (simp add: to_lower_runes runes_def rune_chunks_append_ascii rune_chunks_ascii
      lower_ascii_def encode_rune_ascii lower_byte_ascii)

subsection \<open>Decimal numbers\<close>

lemma digits_rev_less: "b > 1 \<Longrightarrow> d \<in> set (digits_rev b n) \<Longrightarrow> d < b"
proof (induction b n rule: digits_rev.induct)
  case (1 b n)
  then show ?case by (subst (asm) (2) digits_rev.simps) (auto split: if_splits)
qed

lemma digits_rev_nonempty: "digits_rev b n \<noteq> []"
  by (subst digits_rev.simps) simp

lemma digits_rev_value: "b > 1 \<Longrightarrow> foldr (\<lambda>d acc. b * acc + d) (digits_rev b n) 0 = n"
proof (induction b n rule: digits_rev.induct)
  case (1 b n)
  then show ?case by (subst digits_rev.simps) auto
qed

lemma digit_char_10: "d < 10 \<Longrightarrow> is_digit (digit_char d) \<and> byte (digit_char d) - 48 = d"
  by (simp add: digit_char_def is_digit_def)

lemma format_nat_digits: "list_all is_digit (format_nat 10 n)"
  using digits_rev_less [of 10 _ n] by (auto simp: format_nat_def list_all_iff digit_char_10)

lemma format_nat_nonempty: "format_nat b n \<noteq> []"
  by (simp add: format_nat_def digits_rev_nonempty)

lemma foldr_digit_chars:
  "\<forall>d \<in> set ds. d < 10 \<Longrightarrow> foldr ((\<lambda>c n. 10 * n + (byte c - 48)) \<circ> digit_char) ds 0
     = foldr (\<lambda>d acc. 10 * acc + d) ds 0"
  by (induction ds) (simp_all add: digit_char_10)

lemma digits_value_format: "digits_value (format_nat 10 n) = n"
proof -
  have "\<forall>d \<in> set (digits_rev 10 n). d < 10" using digits_rev_less [of 10] by simp
  then show ?thesis
    using digits_rev_value [of 10 n] foldr_digit_chars
    by (simp add: digits_value_def format_nat_def fold_map foldr_conv_fold)
qed

lemma format_nat_hd: "format_nat 10 n = c # cs \<Longrightarrow> is_digit c"
  using format_nat_digits [of n] by simp

lemma decimal_itoa: "decimal (itoa n) = Some n"
  using format_nat_digits [of "nat n"] format_nat_digits [of "nat (- n)"] format_nat_nonempty [of 10]
    digits_value_format [of "nat n"] digits_value_format [of "nat (- n)"]
  by (auto simp: decimal_def itoa_def Let_def is_digit_def dest: format_nat_hd split: list.splits)

lemma itoa_inj: "itoa m = itoa n \<Longrightarrow> m = n"
  by (metis decimal_itoa option.inject)

lemma atoi_itoa: "- (2 ^ 63) \<le> n \<Longrightarrow> n < 2 ^ 63 \<Longrightarrow> atoi (itoa n) = Some n"
  by (simp add: atoi_def decimal_itoa)

subsection \<open>A concrete library\<close>

text \<open>An instance of the library parameters to evaluate examples with: case folding is ASCII
  only, and a double prints its bit pattern, marked.\<close>

definition ascii_lib :: golib where
  "ascii_lib =
     \<lparr>lower_rune = (\<lambda>r. if 65 \<le> r \<and> r \<le> 90 then r + 32 else r),
      upper_rune = (\<lambda>r. if 97 \<le> r \<and> r \<le> 122 then r - 32 else r),
      same_fold = (=),
      parse_float = (\<lambda>s. case s of [] \<Rightarrow> None
        | c # r \<Rightarrow> if c = CHR ''x'' then map_option word_of_int (decimal r)
                    else map_option f64_of_int (decimal s)),
      format_float = (\<lambda>x. CHR ''x'' # itoa (uint x)),
      compile_regexp = (\<lambda>p. Some (\<lambda>s. contains_str s p)),
      parse_ip = (\<lambda>_. None), parse_cidr = (\<lambda>_. None)\<rparr>"

lemma lower_ascii_ascii_lib: "lower_ascii ascii_lib"
  by (auto simp: lower_ascii_def ascii_lib_def lower_byte_def)

lemma itoa_hd: "itoa n = c # r \<Longrightarrow> c = CHR ''-'' \<or> is_digit c"
  by (auto simp: itoa_def dest: format_nat_hd split: if_splits)

lemma itoa_nonempty: "itoa n \<noteq> []"
  by (simp add: itoa_def format_nat_nonempty)

lemma parse_float_ascii_lib:
  "parse_float ascii_lib (itoa n) = Some (f64_of_int n)"
  "parse_float ascii_lib (format_float ascii_lib x) = Some x"
proof -
  obtain c r where s: "itoa n = c # r" using itoa_nonempty by (metis list.exhaust)
  moreover have "c \<noteq> CHR ''x''" using itoa_hd [OF s] by (auto simp: is_digit_def)
  ultimately show "parse_float ascii_lib (itoa n) = Some (f64_of_int n)"
    using decimal_itoa [of n] by (simp add: ascii_lib_def)
qed (simp add: ascii_lib_def decimal_itoa)

end
