(* ===== verification/Api_Types.thy ===== *)
theory Api_Types
  imports K8_Prelude Complex_Main
begin

text \<open>
  The wire contract of \<open>pkg/api/types.go\<close>: every struct as a record with the source's
  fields in the source's order, prefixed by the struct they belong to.  A nil-able
  pointer is an \<open>option\<close>; a \<open>map[string]string\<close> is an association list with distinct
  keys (its order stands for one iteration order of the Go map); a \<open>time.Time\<close> is its
  distance in nanoseconds from the Unix epoch; \<open>uint32\<close> and \<open>float64\<close> values keep their
  width.
\<close>

type_synonym time = int
type_synonym strmap = "(string \<times> string) list"

definition ProtocolHTTP :: string where "ProtocolHTTP = ''http''"
definition ProtocolDNS :: string where "ProtocolDNS = ''dns''"
definition ProtocolRedis :: string where "ProtocolRedis = ''redis''"
definition ProtocolValkey :: string where "ProtocolValkey = ''valkey''"
definition ProtocolPostgres :: string where "ProtocolPostgres = ''postgres''"
definition ProtocolMySQL :: string where "ProtocolMySQL = ''mysql''"
definition ProtocolMongo :: string where "ProtocolMongo = ''mongodb''"
definition ProtocolKafka :: string where "ProtocolKafka = ''kafka''"
definition ProtocolAMQP :: string where "ProtocolAMQP = ''amqp''"
definition ProtocolWS :: string where "ProtocolWS = ''ws''"
definition ProtocolTCP :: string where "ProtocolTCP = ''tcp''"
definition ProtocolUDP :: string where "ProtocolUDP = ''udp''"
definition ProtocolICMP :: string where "ProtocolICMP = ''icmp''"

record Endpoint =
  ep_IP :: string
  ep_Port :: int
  ep_Name :: string
  ep_Namespace :: string
  ep_Workload :: string

record TLSInfo =
  tls_SNI :: string
  tls_ALPN :: string
  tls_Version :: string
  tls_Cipher :: string

record L4Info =
  l4_SrcMAC :: string
  l4_DstMAC :: string
  l4_IPVersion :: int
  l4_TTL :: int
  l4_IPFlags :: string
  l4_ClientTCPFlags :: string
  l4_ServerTCPFlags :: string
  l4_SeqStart :: "32 word"
  l4_AckStart :: "32 word"
  l4_Window :: int
  l4_MSS :: int
  l4_Retransmits :: int
  l4_RTTMs :: f64
  l4_DurationMs :: int
  l4_ClientBytes :: int
  l4_ServerBytes :: int
  l4_ClientPackets :: int
  l4_ServerPackets :: int
  l4_HeaderHex :: string
  l4_TLS :: "TLSInfo option"

record RawView =
  rv_Data :: bytes
  rv_Hex :: string
  rv_Bytes :: int
  rv_Truncated :: bool

record HTTPDetail =
  http_Version :: string
  http_Query :: strmap
  http_ContentType :: string
  http_TTFBMs :: int

record DNSQuestion =
  dq_Name :: string
  dq_Type :: string
  dq_Class :: string

record DNSRecord =
  dr_Name :: string
  dr_Type :: string
  dr_TTL :: "32 word"
  dr_Data :: string

record DNSDetail =
  dns_ID :: int
  dns_Questions :: "DNSQuestion list"
  dns_Answers :: "DNSRecord list"
  dns_Authority :: "DNSRecord list"
  dns_Additional :: "DNSRecord list"
  dns_Rcode :: string
  dns_Authoritative :: bool
  dns_RecursionAvl :: bool

record RedisDetail =
  redis_Args :: "string list"
  redis_Reply :: string
  redis_ReplyType :: string
  redis_DBIndex :: int
  redis_PipelineDepth :: int
  redis_Attributes :: strmap

record PGColumn =
  pgc_Name :: string
  pgc_TypeOID :: int
  pgc_Type :: string

record PGError =
  pge_Severity :: string
  pge_Code :: string
  pge_Message :: string
  pge_Detail :: string
  pge_Hint :: string
  pge_Where :: string

record PGDetail =
  pg_StatementName :: string
  pg_Portal :: string
  pg_Params :: "string list"
  pg_Columns :: "PGColumn list"
  pg_Tag :: string
  pg_Error :: "PGError option"
  pg_TxStatus :: string

record MySQLDetail =
  mysql_Command :: string
  mysql_ErrorCode :: int
  mysql_ErrorMessage :: string

record MongoDetail =
  mongo_Command :: string
  mongo_Collection :: string
  mongo_Database :: string
  mongo_OK :: bool
  mongo_ErrMsg :: string

record KafkaDetail =
  kafka_APIKey :: string
  kafka_APIVersion :: int
  kafka_Topic :: string
  kafka_ClientID :: string
  kafka_ErrorCode :: int
  kafka_CorrelationID :: int

record Payload =
  pl_Summary :: string
  pl_Headers :: strmap
  pl_Body :: string
  pl_Size :: int
  pl_Method :: string
  pl_Path :: string
  pl_Host :: string
  pl_StatusCode :: int
  pl_Question :: string
  pl_Answer :: string
  pl_Command :: string
  pl_Query :: string
  pl_RowCount :: int
  pl_Exchange :: string
  pl_RoutingKey :: string
  pl_Queue :: string
  pl_DeliveryTag :: "64 word"
  pl_Class :: string
  pl_CorrelationID :: string
  pl_ReplyTo :: string
  pl_MessageID :: string
  pl_Packets :: int
  pl_Bytes :: int
  pl_Flags :: string
  pl_WSOpcode :: string
  pl_ContentType :: string
  pl_Truncated :: bool
  pl_Raw :: "RawView option"
  pl_HTTP :: "HTTPDetail option"
  pl_DNS :: "DNSDetail option"
  pl_Redis :: "RedisDetail option"
  pl_Postgres :: "PGDetail option"
  pl_MySQL :: "MySQLDetail option"
  pl_Mongo :: "MongoDetail option"
  pl_Kafka :: "KafkaDetail option"

record Entry =
  e_ID :: string
  e_Protocol :: string
  e_Timestamp :: time
  e_ElapsedMs :: int
  e_Node :: string
  e_NodeIP :: string
  e_Source :: Endpoint
  e_Destination :: Endpoint
  e_Request :: Payload
  e_Response :: Payload
  e_Status :: string
  e_StatusCode :: int
  e_L4 :: "L4Info option"
  e_Seq :: int
  e_TraceID :: string

record WorkerStats =
  ws_Node :: string
  ws_EntriesSent :: nat
  ws_Dropped :: nat
  ws_CaptureLive :: bool
  ws_CaptureTLS :: bool
  ws_CapturePaused :: bool
  ws_RingPackets :: nat
  ws_RingDrops :: nat
  ws_FlowsEvicted :: nat
  ws_TLSLagDrops :: nat
  ws_TLSBudgetDrops :: nat
  ws_TCPLossEvents :: nat

text \<open>The \<open>EntriesPerSec\<close> rates are the exact quotients; the code's \<open>float64\<close> division rounds
  them to the nearest double.\<close>

record WindowStats =
  win_Entries :: int
  win_Errors :: int
  win_Warnings :: int
  win_EntriesPerSec :: rat

record Stats =
  st_TotalEntries :: int
  st_EntriesPerSec :: rat
  st_Workers :: int
  st_ByProtocol :: "string \<Rightarrow> int option"
  st_ByStatus :: "string \<Rightarrow> int option"
  st_BroadcastDropped :: int
  st_Last1m :: "WindowStats option"
  st_Last5m :: "WindowStats option"

text \<open>Go's zero values: the empty string, 0, false and nil in every field.\<close>

definition zero_Endpoint :: Endpoint where
  "zero_Endpoint = \<lparr>ep_IP = [], ep_Port = 0, ep_Name = [], ep_Namespace = [], ep_Workload = []\<rparr>"

definition zero_RedisDetail :: RedisDetail where
  "zero_RedisDetail = \<lparr>redis_Args = [], redis_Reply = [], redis_ReplyType = [], redis_DBIndex = 0,
     redis_PipelineDepth = 0, redis_Attributes = []\<rparr>"

definition zero_PGDetail :: PGDetail where
  "zero_PGDetail = \<lparr>pg_StatementName = [], pg_Portal = [], pg_Params = [], pg_Columns = [],
     pg_Tag = [], pg_Error = None, pg_TxStatus = []\<rparr>"

definition zero_PGError :: PGError where
  "zero_PGError = \<lparr>pge_Severity = [], pge_Code = [], pge_Message = [], pge_Detail = [],
     pge_Hint = [], pge_Where = []\<rparr>"

definition zero_Payload :: Payload where
  "zero_Payload = \<lparr>pl_Summary = [], pl_Headers = [], pl_Body = [], pl_Size = 0, pl_Method = [],
     pl_Path = [], pl_Host = [], pl_StatusCode = 0, pl_Question = [], pl_Answer = [],
     pl_Command = [], pl_Query = [], pl_RowCount = 0, pl_Exchange = [], pl_RoutingKey = [],
     pl_Queue = [], pl_DeliveryTag = 0, pl_Class = [], pl_CorrelationID = [], pl_ReplyTo = [],
     pl_MessageID = [], pl_Packets = 0, pl_Bytes = 0, pl_Flags = [], pl_WSOpcode = [],
     pl_ContentType = [], pl_Truncated = False, pl_Raw = None, pl_HTTP = None, pl_DNS = None,
     pl_Redis = None, pl_Postgres = None, pl_MySQL = None, pl_Mongo = None, pl_Kafka = None\<rparr>"

definition zero_Entry :: Entry where
  "zero_Entry = \<lparr>e_ID = [], e_Protocol = [], e_Timestamp = 0, e_ElapsedMs = 0, e_Node = [],
     e_NodeIP = [], e_Source = zero_Endpoint, e_Destination = zero_Endpoint,
     e_Request = zero_Payload, e_Response = zero_Payload, e_Status = [], e_StatusCode = 0,
     e_L4 = None, e_Seq = 0, e_TraceID = []\<rparr>"

definition zero_L4Info :: L4Info where
  "zero_L4Info = \<lparr>l4_SrcMAC = [], l4_DstMAC = [], l4_IPVersion = 0, l4_TTL = 0, l4_IPFlags = [],
     l4_ClientTCPFlags = [], l4_ServerTCPFlags = [], l4_SeqStart = 0, l4_AckStart = 0,
     l4_Window = 0, l4_MSS = 0, l4_Retransmits = 0, l4_RTTMs = 0, l4_DurationMs = 0,
     l4_ClientBytes = 0, l4_ServerBytes = 0, l4_ClientPackets = 0, l4_ServerPackets = 0,
     l4_HeaderHex = [], l4_TLS = None\<rparr>"

text \<open>Reading a missing key of a Go map gives the zero value.\<close>

definition map_get :: "strmap \<Rightarrow> string \<Rightarrow> string" where
  "map_get m k = (case map_of m k of None \<Rightarrow> [] | Some v \<Rightarrow> v)"

end
