(* ===== verification/Hub_Fields.thy ===== *)
theory Hub_Fields
  imports Api_Types
begin

text \<open>
  The field accessors of the filter language (\<open>internal/hub/filter.go\<close>): \<open>fieldGetter\<close>,
  \<open>numericFieldGetter\<close>, \<open>fulltext\<close> and \<open>writeLower\<close>.  A Go \<open>switch\<close> over field names is a
  table of rows (the names of one \<open>case\<close>, its accessor), searched from the top; the big
  switches are kept in the source's order, one table per section of the source.

  The theorems: \<open>writeLower\<close> and \<open>fulltext\<close> produce exactly what lower-casing at the end
  would, and the typed numeric accessors agree with the string accessors they bypass.
\<close>

fun switch :: "(string list \<times> 'a) list \<Rightarrow> string \<Rightarrow> 'a option" where
  "switch [] s = None"
| "switch ((names, v) # rows) s = (if List.member names s then Some v else switch rows s)"

definition cut_prefix :: "string \<Rightarrow> string \<Rightarrow> string option" where
  "cut_prefix p s = (if prefix p s then Some (drop (length p) s) else None)"

definition format_bool :: "bool \<Rightarrow> string" where
  "format_bool b = (if b then ''true'' else ''false'')"

definition format_uint :: "'a::len word \<Rightarrow> string" where
  "format_uint w = itoa (uint w)"

definition l4Int :: "Entry \<Rightarrow> (L4Info \<Rightarrow> int) \<Rightarrow> string" where
  "l4Int e get = (case e_L4 e of None \<Rightarrow> [] | Some l \<Rightarrow> itoa (get l))"

definition l4Str :: "Entry \<Rightarrow> (L4Info \<Rightarrow> string) \<Rightarrow> string" where
  "l4Str e get = (case e_L4 e of None \<Rightarrow> [] | Some l \<Rightarrow> get l)"

definition opt_str :: "'a option \<Rightarrow> ('a \<Rightarrow> string) \<Rightarrow> string" where
  "opt_str x get = (case x of None \<Rightarrow> [] | Some d \<Rightarrow> get d)"

type_synonym getter = "Entry \<Rightarrow> string"
type_synonym getter_table = "(string list \<times> getter) list"

definition getters_base :: getter_table where
  "getters_base =
   [([''namespace'', ''ns''], \<lambda>e. if ep_Namespace (e_Source e) \<noteq> [] then ep_Namespace (e_Source e)
                                  else ep_Namespace (e_Destination e)),
    ([''protocol''], \<lambda>e. e_Protocol e),
    ([''node''], \<lambda>e. e_Node e),
    ([''status''], \<lambda>e. e_Status e),
    ([''elapsedms'', ''elapsed'', ''latency''], \<lambda>e. itoa (e_ElapsedMs e)),
    ([''src.ip''], \<lambda>e. ep_IP (e_Source e)),
    ([''src.port''], \<lambda>e. itoa (ep_Port (e_Source e))),
    ([''src.name''], \<lambda>e. ep_Name (e_Source e)),
    ([''src.namespace'', ''src.ns''], \<lambda>e. ep_Namespace (e_Source e)),
    ([''src.workload''], \<lambda>e. ep_Workload (e_Source e)),
    ([''dst.ip''], \<lambda>e. ep_IP (e_Destination e)),
    ([''dst.port''], \<lambda>e. itoa (ep_Port (e_Destination e))),
    ([''dst.name''], \<lambda>e. ep_Name (e_Destination e)),
    ([''dst.namespace'', ''dst.ns''], \<lambda>e. ep_Namespace (e_Destination e)),
    ([''dst.workload''], \<lambda>e. ep_Workload (e_Destination e)),
    ([''http.method'', ''request.method'', ''method''], \<lambda>e. pl_Method (e_Request e)),
    ([''http.path'', ''request.path'', ''path''], \<lambda>e. pl_Path (e_Request e)),
    ([''http.host'', ''request.host'', ''host''], \<lambda>e. pl_Host (e_Request e)),
    ([''http.status'', ''response.status'', ''status.code'', ''statuscode''],
       \<lambda>e. itoa (e_StatusCode e)),
    ([''request.body''], \<lambda>e. pl_Body (e_Request e)),
    ([''response.body''], \<lambda>e. pl_Body (e_Response e)),
    ([''dns.question'', ''question''], \<lambda>e. pl_Question (e_Request e)),
    ([''dns.answer'', ''answer''], \<lambda>e. pl_Answer (e_Response e)),
    ([''redis.command'', ''command''], \<lambda>e. pl_Command (e_Request e)),
    ([''postgres.query'', ''query'', ''sql''], \<lambda>e. pl_Query (e_Request e)),
    ([''bytes''], \<lambda>e. itoa (pl_Bytes (e_Request e))),
    ([''packets''], \<lambda>e. itoa (pl_Packets (e_Request e))),
    ([''flags''], \<lambda>e. pl_Flags (e_Request e)),
    ([''summary''], \<lambda>e. pl_Summary (e_Request e) @ '' '' @ pl_Summary (e_Response e)),
    ([''trace.id'', ''traceid''], \<lambda>e. e_TraceID e)]"

definition getters_rich :: getter_table where
  "getters_rich =
   [([''http.version''], \<lambda>e. opt_str (pl_HTTP (e_Request e)) http_Version),
    ([''response.contenttype'', ''content-type'', ''contenttype''],
       \<lambda>e. if pl_ContentType (e_Response e) \<noteq> [] then pl_ContentType (e_Response e)
           else pl_ContentType (e_Request e)),
    ([''dns.rcode''], \<lambda>e. opt_str (pl_DNS (e_Response e)) dns_Rcode),
    ([''dns.type''], \<lambda>e. opt_str (pl_DNS (e_Request e))
       (\<lambda>d. case dns_Questions d of [] \<Rightarrow> [] | q # _ \<Rightarrow> dq_Type q)),
    ([''redis.db''], \<lambda>e. opt_str (pl_Redis (e_Request e)) (\<lambda>d. itoa (redis_DBIndex d))),
    ([''redis.reply''], \<lambda>e. opt_str (pl_Redis (e_Response e)) redis_Reply),
    ([''postgres.error'', ''pg.code''], \<lambda>e. opt_str (pl_Postgres (e_Response e))
       (\<lambda>d. opt_str (pg_Error d) pge_Code)),
    ([''postgres.statement''], \<lambda>e. opt_str (pl_Postgres (e_Request e)) pg_StatementName),
    ([''postgres.txstatus''], \<lambda>e. opt_str (pl_Postgres (e_Response e)) pg_TxStatus)]"

definition getters_db :: getter_table where
  "getters_db =
   [([''mysql.command''], \<lambda>e. opt_str (pl_MySQL (e_Request e)) mysql_Command),
    ([''mysql.error''], \<lambda>e. opt_str (pl_MySQL (e_Response e))
       (\<lambda>d. if mysql_ErrorCode d \<noteq> 0 then itoa (mysql_ErrorCode d) else [])),
    ([''mongo.collection''], \<lambda>e. opt_str (pl_Mongo (e_Request e)) mongo_Collection),
    ([''mongo.command''], \<lambda>e. opt_str (pl_Mongo (e_Request e)) mongo_Command),
    ([''kafka.topic''], \<lambda>e. opt_str (pl_Kafka (e_Request e)) kafka_Topic),
    ([''kafka.apikey''], \<lambda>e. opt_str (pl_Kafka (e_Request e)) kafka_APIKey)]"

definition getters_l4 :: "golib \<Rightarrow> getter_table" where
  "getters_l4 L =
   [([''l4.ttl''], \<lambda>e. l4Int e l4_TTL),
    ([''l4.retransmits''], \<lambda>e. l4Int e l4_Retransmits),
    ([''l4.window''], \<lambda>e. l4Int e l4_Window),
    ([''l4.mss''], \<lambda>e. l4Int e l4_MSS),
    ([''l4.rttms''], \<lambda>e. opt_str (e_L4 e) (\<lambda>l. format_float L (l4_RTTMs l))),
    ([''l4.durationms''], \<lambda>e. opt_str (e_L4 e) (\<lambda>l. itoa (l4_DurationMs l))),
    ([''l4.clientbytes''], \<lambda>e. opt_str (e_L4 e) (\<lambda>l. itoa (l4_ClientBytes l))),
    ([''l4.serverbytes''], \<lambda>e. opt_str (e_L4 e) (\<lambda>l. itoa (l4_ServerBytes l))),
    ([''tls.sni''], \<lambda>e. opt_str (e_L4 e) (\<lambda>l. opt_str (l4_TLS l) tls_SNI))]"

definition getters_amqp :: getter_table where
  "getters_amqp =
   [([''amqp.exchange'', ''exchange''], \<lambda>e. pl_Exchange (e_Request e)),
    ([''amqp.routingkey'', ''amqp.routing-key'', ''routingkey'', ''routing-key''],
       \<lambda>e. pl_RoutingKey (e_Request e)),
    ([''amqp.queue'', ''queue''], \<lambda>e. pl_Queue (e_Request e)),
    ([''amqp.deliverytag'', ''deliverytag''], \<lambda>e. format_uint (pl_DeliveryTag (e_Request e))),
    ([''amqp.correlationid'', ''amqp.correlation-id''], \<lambda>e. pl_CorrelationID (e_Request e)),
    ([''amqp.replyto'', ''amqp.reply-to''], \<lambda>e. pl_ReplyTo (e_Request e)),
    ([''amqp.class''], \<lambda>e. pl_Class (e_Request e)),
    ([''ws.opcode''], \<lambda>e. pl_WSOpcode (e_Request e)),
    ([''amqp.method''], \<lambda>e. if e_Protocol e = ProtocolAMQP then pl_Method (e_Request e) else [])]"

definition getters_display :: getter_table where
  "getters_display =
   [([''redis.pipelinedepth''],
       \<lambda>e. opt_str (pl_Redis (e_Request e)) (\<lambda>d. itoa (redis_PipelineDepth d))),
    ([''postgres.portal''], \<lambda>e. opt_str (pl_Postgres (e_Request e)) pg_Portal),
    ([''dns.authoritative''],
       \<lambda>e. opt_str (pl_DNS (e_Response e)) (\<lambda>d. format_bool (dns_Authoritative d))),
    ([''dns.recursionavailable'', ''dns.recursionavl''],
       \<lambda>e. opt_str (pl_DNS (e_Response e)) (\<lambda>d. format_bool (dns_RecursionAvl d))),
    ([''request.size''], \<lambda>e. itoa (pl_Size (e_Request e))),
    ([''response.size'', ''size''], \<lambda>e. itoa (pl_Size (e_Response e))),
    ([''postgres.rowcount'', ''rowcount''], \<lambda>e. itoa (pl_RowCount (e_Response e))),
    ([''http.ttfbms''], \<lambda>e. opt_str (pl_HTTP (e_Response e)) (\<lambda>d. itoa (http_TTFBMs d)))]"

definition getters_l4_rest :: getter_table where
  "getters_l4_rest =
   [([''l4.srcmac''], \<lambda>e. l4Str e l4_SrcMAC),
    ([''l4.dstmac''], \<lambda>e. l4Str e l4_DstMAC),
    ([''l4.ipversion''], \<lambda>e. l4Int e l4_IPVersion),
    ([''l4.ipflags''], \<lambda>e. l4Str e l4_IPFlags),
    ([''l4.clienttcpflags''], \<lambda>e. l4Str e l4_ClientTCPFlags),
    ([''l4.servertcpflags''], \<lambda>e. l4Str e l4_ServerTCPFlags),
    ([''l4.seqstart''], \<lambda>e. opt_str (e_L4 e) (\<lambda>l. format_uint (l4_SeqStart l))),
    ([''l4.ackstart''], \<lambda>e. opt_str (e_L4 e) (\<lambda>l. format_uint (l4_AckStart l))),
    ([''l4.clientpackets''], \<lambda>e. opt_str (e_L4 e) (\<lambda>l. itoa (l4_ClientPackets l))),
    ([''l4.serverpackets''], \<lambda>e. opt_str (e_L4 e) (\<lambda>l. itoa (l4_ServerPackets l)))]"

definition getter_switch :: "golib \<Rightarrow> getter_table" where
  "getter_switch L = getters_base @ getters_rich @ getters_db @ getters_l4 L @ getters_amqp
     @ getters_display @ getters_l4_rest"

definition fieldGetter :: "golib \<Rightarrow> string \<Rightarrow> getter option" where
  "fieldGetter L field =
    (let lower = to_lower L field in
     case cut_prefix ''request.header.'' lower of
       Some (c # cs) \<Rightarrow> Some (\<lambda>e. map_get (pl_Headers (e_Request e)) (c # cs))
     | _ \<Rightarrow>
       (case cut_prefix ''response.header.'' lower of
          Some (c # cs) \<Rightarrow> Some (\<lambda>e. map_get (pl_Headers (e_Response e)) (c # cs))
        | _ \<Rightarrow> switch (getter_switch L) lower))"

subsection \<open>Typed numeric accessors\<close>

type_synonym numgetter = "Entry \<Rightarrow> f64 option"
type_synonym numgetter_table = "(string list \<times> numgetter) list"

definition l4Num :: "(L4Info \<Rightarrow> int) \<Rightarrow> numgetter" where
  "l4Num get e = (case e_L4 e of None \<Rightarrow> None | Some l \<Rightarrow> Some (f64_of_int (get l)))"

definition numgetters_base :: numgetter_table where
  "numgetters_base =
   [([''elapsedms'', ''elapsed'', ''latency''], \<lambda>e. Some (f64_of_int (e_ElapsedMs e))),
    ([''src.port''], \<lambda>e. Some (f64_of_int (ep_Port (e_Source e)))),
    ([''dst.port''], \<lambda>e. Some (f64_of_int (ep_Port (e_Destination e)))),
    ([''response.status'', ''http.status'', ''status.code'', ''statuscode''],
       \<lambda>e. Some (f64_of_int (e_StatusCode e))),
    ([''bytes''], \<lambda>e. Some (f64_of_int (pl_Bytes (e_Request e)))),
    ([''packets''], \<lambda>e. Some (f64_of_int (pl_Packets (e_Request e)))),
    ([''request.size''], \<lambda>e. Some (f64_of_int (pl_Size (e_Request e)))),
    ([''response.size'', ''size''], \<lambda>e. Some (f64_of_int (pl_Size (e_Response e)))),
    ([''redis.db''], \<lambda>e. case pl_Redis (e_Request e) of None \<Rightarrow> None
       | Some d \<Rightarrow> Some (f64_of_int (redis_DBIndex d))),
    ([''redis.pipelinedepth''], \<lambda>e. case pl_Redis (e_Request e) of None \<Rightarrow> None
       | Some d \<Rightarrow> Some (f64_of_int (redis_PipelineDepth d))),
    ([''mysql.error''], \<lambda>e. case pl_MySQL (e_Response e) of None \<Rightarrow> None
       | Some d \<Rightarrow> if mysql_ErrorCode d = 0 then None
                   else Some (f64_of_int (mysql_ErrorCode d)))]"

definition numgetters_l4 :: numgetter_table where
  "numgetters_l4 =
   [([''l4.ttl''], l4Num l4_TTL),
    ([''l4.retransmits''], l4Num l4_Retransmits),
    ([''l4.window''], l4Num l4_Window),
    ([''l4.mss''], l4Num l4_MSS),
    ([''l4.rttms''], \<lambda>e. case e_L4 e of None \<Rightarrow> None | Some l \<Rightarrow> Some (l4_RTTMs l)),
    ([''l4.durationms''], l4Num l4_DurationMs),
    ([''l4.clientbytes''], l4Num l4_ClientBytes),
    ([''l4.serverbytes''], l4Num l4_ServerBytes)]"

definition numgetters_rest :: numgetter_table where
  "numgetters_rest =
   [([''amqp.deliverytag'', ''deliverytag''],
       \<lambda>e. Some (f64_of_int (uint (pl_DeliveryTag (e_Request e))))),
    ([''postgres.rowcount'', ''rowcount''], \<lambda>e. Some (f64_of_int (pl_RowCount (e_Response e)))),
    ([''http.ttfbms''], \<lambda>e. case pl_HTTP (e_Response e) of None \<Rightarrow> None
       | Some d \<Rightarrow> Some (f64_of_int (http_TTFBMs d))),
    ([''l4.ipversion''], l4Num l4_IPVersion),
    ([''l4.seqstart''], l4Num (\<lambda>l. uint (l4_SeqStart l))),
    ([''l4.ackstart''], l4Num (\<lambda>l. uint (l4_AckStart l))),
    ([''l4.clientpackets''], l4Num l4_ClientPackets),
    ([''l4.serverpackets''], l4Num l4_ServerPackets)]"

definition numericFieldGetter :: "golib \<Rightarrow> string \<Rightarrow> numgetter option" where
  "numericFieldGetter L field =
     switch (numgetters_base @ numgetters_l4 @ numgetters_rest) (to_lower L field)"

subsection \<open>Full text\<close>

text \<open>The loop of \<open>writeLower\<close>: \<open>start\<close> is where the pending run of unchanged bytes begins,
  \<open>i\<close> the byte looked at, \<open>sb\<close> what the builder holds.\<close>

function writeLower_loop :: "golib \<Rightarrow> string \<Rightarrow> nat \<Rightarrow> nat \<Rightarrow> string \<Rightarrow> string" where
  "writeLower_loop L s start i sb =
     (if i < length s then
        (let c = s ! i in
         if byte c \<ge> 128 then sb @ take (i - start) (drop start s) @ to_lower L (drop i s)
         else if 65 \<le> byte c \<and> byte c \<le> 90 then
           writeLower_loop L s (i + 1) (i + 1)
             (sb @ take (i - start) (drop start s) @ [char_of (byte c + 32)])
         else writeLower_loop L s start (i + 1) sb)
      else sb @ drop start s)"
  by pat_completeness auto
termination
  by (relation "measure (\<lambda>(L, s, start, i, sb). length s - i)") auto

declare writeLower_loop.simps [simp del]

definition writeLower :: "golib \<Rightarrow> string \<Rightarrow> string \<Rightarrow> string" where
  "writeLower L sb s = writeLower_loop L s 0 0 sb"

text \<open>The parts of an entry the full-text haystack is built from, in order.\<close>

definition fulltext_head :: "Entry \<Rightarrow> string list" where
  "fulltext_head e =
     [e_Node e, ep_IP (e_Source e), ep_Name (e_Source e), ep_IP (e_Destination e),
      ep_Name (e_Destination e), pl_Summary (e_Request e), pl_Method (e_Request e),
      pl_Path (e_Request e), pl_Host (e_Request e), pl_Question (e_Request e),
      pl_Command (e_Request e), pl_Query (e_Request e), pl_Summary (e_Response e)]"

definition fulltext_rich :: "Entry \<Rightarrow> string list" where
  "fulltext_rich e =
     (case pl_HTTP (e_Request e) of Some h \<Rightarrow> if http_ContentType h \<noteq> [] then [http_ContentType h] else []
       | None \<Rightarrow> [])
     @ (case pl_DNS (e_Response e) of Some d \<Rightarrow> map dr_Data (dns_Answers d) | None \<Rightarrow> [])
     @ (case pl_Postgres (e_Request e) of
          Some p \<Rightarrow> if pg_StatementName p \<noteq> [] then [pg_StatementName p] else [] | None \<Rightarrow> [])
     @ (let r = e_Request e in
        if pl_Exchange r \<noteq> [] \<or> pl_RoutingKey r \<noteq> [] \<or> pl_Queue r \<noteq> []
        then [pl_Exchange r, pl_RoutingKey r, pl_Queue r] else [])
     @ (case e_L4 e of
          Some l \<Rightarrow> (case l4_TLS l of Some t \<Rightarrow> if tls_SNI t \<noteq> [] then [tls_SNI t] else [] | None \<Rightarrow> [])
        | None \<Rightarrow> [])
     @ (case pl_Kafka (e_Request e) of
          Some k \<Rightarrow> if kafka_Topic k \<noteq> [] then [kafka_Topic k] else [] | None \<Rightarrow> [])"

definition fulltext :: "golib \<Rightarrow> Entry \<Rightarrow> string" where
  "fulltext L e =
     fold (\<lambda>s sb. writeLower L (sb @ '' '') s) (fulltext_head e @ fulltext_rich e)
       (writeLower L [] (e_Protocol e))"

subsection \<open>Lower-casing while writing\<close>

lemma take_Suc_drop: "start \<le> i \<Longrightarrow> i < length s \<Longrightarrow>
    take (Suc i - start) (drop start s) = take (i - start) (drop start s) @ [s ! i]"
  by (simp add: Suc_diff_le take_Suc_conv_app_nth)

lemma writeLower_loop_eq:
  assumes "lower_ascii L" "start \<le> i" "i \<le> length s"
    and "\<forall>k \<in> set (take (i - start) (drop start s)). byte k < 128 \<and> lower_byte k = k"
  shows "writeLower_loop L s start i sb = sb @ take (i - start) (drop start s) @ to_lower L (drop i s)"
  using assms
proof (induction L s start i sb rule: writeLower_loop.induct)
  case (1 L s start i sb)
  let ?run = "take (i - start) (drop start s)" and ?c = "s ! i"
  show ?case
  proof (cases "i < length s")
    case False
    with "1.prems" have "i = length s" by simp
    then show ?thesis by (subst writeLower_loop.simps) simp
  next
    case True
    then have rest: "drop i s = ?c # drop (Suc i) s" by (simp add: Cons_nth_drop_Suc)
    have lo: "to_lower L (drop i s) = lower_byte ?c # to_lower L (drop (Suc i) s)" if "byte ?c < 128"
      using to_lower_append_ascii [OF "1.prems"(1) that, of "[]" "drop (Suc i) s"] rest by simp
    consider (hi) "byte ?c \<ge> 128" | (up) "byte ?c < 128" "65 \<le> byte ?c \<and> byte ?c \<le> 90"
      | (plain) "byte ?c < 128" "\<not> (65 \<le> byte ?c \<and> byte ?c \<le> 90)" by linarith
    then show ?thesis
    proof cases
      case hi
      then show ?thesis using True by (subst writeLower_loop.simps) simp
    next
      case up
      have "writeLower_loop L s start i sb
          = writeLower_loop L s (i + 1) (i + 1) (sb @ ?run @ [char_of (byte ?c + 32)])"
        using True up by (subst writeLower_loop.simps) (simp add: Let_def)
      also have "\<dots> = (sb @ ?run @ [char_of (byte ?c + 32)]) @ [] @ to_lower L (drop (i + 1) s)"
        using "1.IH"(1) [OF True refl] up True "1.prems"(1) by simp
      finally show ?thesis using lo up by (simp add: lower_byte_def)
    next
      case plain
      have run': "take (Suc i - start) (drop start s) = ?run @ [?c]"
        using "1.prems"(2) True by (rule take_Suc_drop)
      have "writeLower_loop L s start i sb = writeLower_loop L s start (i + 1) sb"
        using True plain by (subst writeLower_loop.simps) (auto simp: Let_def)
      also have "\<dots> = sb @ (?run @ [?c]) @ to_lower L (drop (i + 1) s)"
        using "1.IH"(2) [OF True refl] plain True "1.prems" run' by (auto simp: lower_byte_def)
      finally show ?thesis using lo plain by (simp add: lower_byte_def)
    qed
  qed
qed

lemma writeLower_eq: "lower_ascii L \<Longrightarrow> writeLower L sb s = sb @ to_lower L s"
  by (simp add: writeLower_def writeLower_loop_eq)

text \<open>The haystack assembled first and folded afterwards, the form \<open>fulltext\<close> replaced.\<close>

definition fulltext_assembled :: "Entry \<Rightarrow> string" where
  "fulltext_assembled e = join '' '' (e_Protocol e # fulltext_head e @ fulltext_rich e)"

lemma to_lower_space: "lower_ascii L \<Longrightarrow> to_lower L (a @ '' '' @ b) = to_lower L a @ '' '' @ to_lower L b"
  using to_lower_append_ascii [of L "CHR '' ''" a b] by (simp add: lower_byte_def)

lemma fold_writeLower:
  "lower_ascii L \<Longrightarrow> fold (\<lambda>s sb. writeLower L (sb @ '' '') s) ps (to_lower L acc)
     = to_lower L (join '' '' (acc # ps))"
proof (induction ps arbitrary: acc)
  case (Cons p ps)
  have step: "writeLower L (to_lower L acc @ '' '') p = to_lower L (acc @ '' '' @ p)"
    using to_lower_space [OF Cons.prems, of acc p] by (simp add: writeLower_eq Cons.prems)
  have "join '' '' ((acc @ '' '' @ p) # ps) = join '' '' (acc # p # ps)"
    by (cases ps) simp_all
  then show ?case using Cons.IH [OF Cons.prems, of "acc @ '' '' @ p"] step by simp
qed simp

text \<open>The full-text haystack, lower-cased part by part while it is written, is byte for byte
  the haystack assembled first and passed to \<open>strings.ToLower\<close> as a whole, for every entry,
  ill-formed UTF-8 included.\<close>

theorem fulltext_is_lowercased:
  assumes "lower_ascii L"
  shows "fulltext L e = to_lower L (fulltext_assembled e)"
  using fold_writeLower [OF assms, of "fulltext_head e @ fulltext_rich e" "e_Protocol e"]
  by (simp add: fulltext_def fulltext_assembled_def writeLower_eq assms)

theorem fulltext_is_lowercased_witness:
  "fulltext ascii_lib (zero_Entry\<lparr>e_Node := ''Node-A''\<rparr>)
     = to_lower ascii_lib (fulltext_assembled (zero_Entry\<lparr>e_Node := ''Node-A''\<rparr>))"
  using fulltext_is_lowercased [OF lower_ascii_ascii_lib] by simp

subsection \<open>Numeric accessors against string accessors\<close>

text \<open>What the code relies on of \<open>strconv\<close>: the empty string is no number, a decimal integer of
  64 bits, signed or not, parses to the nearest double, and \<open>FormatFloat\<close> with precision
  \<open>-1\<close> prints a text that parses back to a value in the same order relation to every other.\<close>

definition float_text :: "golib \<Rightarrow> bool" where
  "float_text L \<longleftrightarrow> parse_float L [] = None
     \<and> (\<forall>n. - (2 ^ 63) \<le> n \<and> n < 2 ^ 64 \<longrightarrow> parse_float L (itoa n) = Some (f64_of_int n))
     \<and> (\<forall>x. \<exists>y. parse_float L (format_float L x) = Some y
           \<and> (\<forall>w. f_less y w = f_less x w \<and> f_less w y = f_less w x
                \<and> f_le y w = f_le x w \<and> f_le w y = f_le w x))"

lemma float_text_ascii_lib: "float_text ascii_lib"
  by (simp add: float_text_def parse_float_ascii_lib) (simp add: ascii_lib_def)

text \<open>The signed integers of an entry a filter can compare are 64-bit values, as their Go types
  make them.\<close>

definition int64 :: "int \<Rightarrow> bool" where
  "int64 n \<longleftrightarrow> - (2 ^ 63) \<le> n \<and> n < 2 ^ 63"

definition go_ints :: "Entry \<Rightarrow> bool" where
  "go_ints e \<longleftrightarrow>
     list_all int64 [e_ElapsedMs e, ep_Port (e_Source e), ep_Port (e_Destination e), e_StatusCode e,
       pl_Bytes (e_Request e), pl_Packets (e_Request e), pl_Size (e_Request e),
       pl_Size (e_Response e), pl_RowCount (e_Response e)]
     \<and> pred_option (\<lambda>d. int64 (redis_DBIndex d) \<and> int64 (redis_PipelineDepth d)) (pl_Redis (e_Request e))
     \<and> pred_option (\<lambda>d. int64 (mysql_ErrorCode d)) (pl_MySQL (e_Response e))
     \<and> pred_option (\<lambda>d. int64 (http_TTFBMs d)) (pl_HTTP (e_Response e))
     \<and> pred_option (\<lambda>l. list_all int64 [l4_TTL l, l4_Retransmits l, l4_Window l, l4_MSS l,
          l4_DurationMs l, l4_ClientBytes l, l4_ServerBytes l, l4_IPVersion l,
          l4_ClientPackets l, l4_ServerPackets l]) (e_L4 e)"

text \<open>A typed accessor and a string accessor describe the same value: both absent, or the
  string is the text of the number.\<close>

definition numeric_agrees :: "golib \<Rightarrow> numgetter \<Rightarrow> getter \<Rightarrow> bool" where
  "numeric_agrees L ng g \<longleftrightarrow> (\<forall>e. go_ints e \<longrightarrow> (case ng e of None \<Rightarrow> g e = []
     | Some x \<Rightarrow> (\<exists>n. - (2 ^ 63) \<le> n \<and> n < 2 ^ 64 \<and> x = f64_of_int n \<and> g e = itoa n)
                 \<or> g e = format_float L x))"

lemma int64_range: "int64 n \<Longrightarrow> - (2 ^ 63) \<le> n \<and> n < 2 ^ 64"
  by (simp add: int64_def)

lemma uint_range: "- (2 ^ 63) \<le> uint w \<and> uint w < 2 ^ 64" for w :: "64 word"
  using uint_lt2p [of w] by (simp add: order_trans [OF _ uint_ge_0])

lemma uint32_range: "- (2 ^ 63) \<le> uint w \<and> uint w < 2 ^ 64" for w :: "32 word"
  using uint_lt2p [of w] by (simp add: order_trans [OF _ uint_ge_0])

lemma agrees_int:
  "- (2 ^ 63) \<le> n \<and> n < 2 ^ 64 \<Longrightarrow> \<exists>m. - (2 ^ 63) \<le> m \<and> m < 2 ^ 64 \<and> f64_of_int n = f64_of_int m \<and> itoa n = itoa m"
  by blast

lemma switch_SomeD: "switch rows s = Some v \<Longrightarrow> \<exists>names. (names, v) \<in> set rows \<and> s \<in> set names"
  by (induction rows s rule: switch.induct) (auto split: if_splits)

lemma switch_here: "s \<in> set names \<Longrightarrow> switch ((names, v) # rows) s = Some v"
  by simp

lemma switch_there: "s \<notin> set names \<Longrightarrow> switch rows s = Some v \<Longrightarrow> switch ((names, w) # rows) s = Some v"
  by simp

lemmas getter_switch_rows = getter_switch_def [unfolded getters_base_def getters_rich_def getters_db_def
  getters_l4_def getters_amqp_def getters_display_def getters_l4_rest_def append_Cons append_Nil]

lemma numeric_rowI:
  "getter_switch L = rows \<Longrightarrow> switch rows s = Some g \<Longrightarrow> numeric_agrees L ng g
     \<Longrightarrow> \<exists>g. switch (getter_switch L) s = Some g \<and> numeric_agrees L ng g"
  by blast

lemma numeric_rows:
  "\<forall>(names, ng) \<in> set (numgetters_base @ numgetters_l4 @ numgetters_rest). \<forall>s \<in> set names.
     \<exists>g. switch (getter_switch L) s = Some g \<and> numeric_agrees L ng g"
  unfolding numgetters_base_def numgetters_l4_def numgetters_rest_def append_Cons append_Nil
    list.set ball_simps prod.case
  by (intro conjI TrueI)
     (rule numeric_rowI [OF getter_switch_rows],
      ((rule switch_there, (simp; fail))+)?, rule switch_here, (simp; fail),
      (auto simp: numeric_agrees_def opt_str_def l4Int_def l4Num_def format_uint_def go_ints_def
         simp del: power_numeral intro!: agrees_int int64_range uint_range uint32_range
         split: option.splits)[1])+

lemma numeric_names_no_header:
  "\<forall>(names, ng) \<in> set (numgetters_base @ numgetters_l4 @ numgetters_rest). \<forall>s \<in> set names.
     \<not> prefix ''request.header.'' s \<and> \<not> prefix ''response.header.'' s"
  by (simp add: numgetters_base_def numgetters_l4_def numgetters_rest_def)

lemma numericFieldGetter_agrees:
  assumes "numericFieldGetter L field = Some ng"
  shows "\<exists>g. fieldGetter L field = Some g \<and> numeric_agrees L ng g"
proof -
  let ?s = "to_lower L field"
  from assms obtain names where row: "(names, ng) \<in> set (numgetters_base @ numgetters_l4 @ numgetters_rest)"
    and s: "?s \<in> set names"
    unfolding numericFieldGetter_def by (blast dest: switch_SomeD)
  have "\<not> prefix ''request.header.'' ?s \<and> \<not> prefix ''response.header.'' ?s"
    using numeric_names_no_header row s by blast
  moreover have "\<exists>g. switch (getter_switch L) ?s = Some g \<and> numeric_agrees L ng g"
    using numeric_rows row s by blast
  ultimately show ?thesis by (simp add: fieldGetter_def cut_prefix_def Let_def)
qed

text \<open>\<open>fieldGetter\<close> on a name that the switch lists.\<close>

lemma fieldGetter_switch:
  "\<not> prefix ''request.header.'' (to_lower L f) \<Longrightarrow> \<not> prefix ''response.header.'' (to_lower L f)
     \<Longrightarrow> fieldGetter L f = switch (getter_switch L) (to_lower L f)"
  by (simp add: fieldGetter_def cut_prefix_def Let_def)

lemma to_lower_ascii: "list_all is_ascii s \<Longrightarrow> to_lower L s = map lower_byte s"
  by (simp add: to_lower_def)

end
