(* ===== verification/Go_Sort.thy ===== *)
theory Go_Sort
  imports K8_Prelude
begin

text \<open>
  \<open>sort.Slice\<close>.  The library promises a permutation of the slice in which no element is less
  than one before it; which permutation, where elements tie, is unspecified.  The model
  computes one such permutation by insertion.  The locale below states what a comparison
  function must satisfy for that promise to hold, proves it once, and proves that where no
  two elements tie the result is the only one possible, so that the model's choice of
  algorithm cannot matter.  Each report that sorts interprets the locale on its own
  comparison.
\<close>

fun insort_by :: "('a \<Rightarrow> 'a \<Rightarrow> bool) \<Rightarrow> 'a \<Rightarrow> 'a list \<Rightarrow> 'a list" where
  "insort_by lt x [] = [x]"
| "insort_by lt x (y # ys) = (if lt y x then y # insort_by lt x ys else x # y # ys)"

definition sort_slice :: "('a \<Rightarrow> 'a \<Rightarrow> bool) \<Rightarrow> 'a list \<Rightarrow> 'a list" where
  "sort_slice lt xs = foldr (insort_by lt) xs []"

lemma mset_insort_by [simp]: "mset (insort_by lt x ys) = add_mset x (mset ys)"
  by (induction ys) auto

lemma mset_sort_slice [simp]: "mset (sort_slice lt xs) = mset xs"
  by (induction xs) (simp_all add: sort_slice_def)

lemma set_sort_slice [simp]: "set (sort_slice lt xs) = set xs"
  by (metis mset_sort_slice set_mset_mset)

lemma length_sort_slice [simp]: "length (sort_slice lt xs) = length xs"
  by (metis mset_sort_slice size_mset)

lemma set_insort_by [simp]: "set (insort_by lt x ys) = insert x (set ys)"
  by (metis mset_insort_by set_mset_add_mset_insert set_mset_mset)

locale weak_order =
  fixes lt :: "'a \<Rightarrow> 'a \<Rightarrow> bool"
  assumes lt_asym: "lt x y \<Longrightarrow> \<not> lt y x"
    and lt_split: "lt x z \<Longrightarrow> lt x y \<or> lt y z"
begin

abbreviation in_order :: "'a list \<Rightarrow> bool" where
  "in_order xs \<equiv> sorted_wrt (\<lambda>a b. \<not> lt b a) xs"

lemma not_lt_trans: "\<not> lt y x \<Longrightarrow> \<not> lt z y \<Longrightarrow> \<not> lt z x"
  using lt_split by blast

lemma in_order_insort_by: "in_order ys \<Longrightarrow> in_order (insort_by lt x ys)"
proof (induction ys)
  case (Cons y ys)
  show ?case
  proof (cases "lt y x")
    case True
    then show ?thesis using Cons lt_asym by auto
  next
    case False
    then show ?thesis using Cons.prems not_lt_trans by auto
  qed
qed simp

lemma in_order_sort_slice: "in_order (sort_slice lt xs)"
  by (induction xs) (simp_all add: sort_slice_def in_order_insort_by)

lemma in_order_unique:
  assumes "mset xs = mset ys" "in_order xs" "in_order ys"
    and "\<And>a b. a \<in> set xs \<Longrightarrow> b \<in> set xs \<Longrightarrow> \<not> lt a b \<Longrightarrow> \<not> lt b a \<Longrightarrow> a = b"
  shows "xs = ys"
  using assms
proof (induction xs arbitrary: ys)
  case Nil
  then show ?case by simp
next
  case (Cons x xs)
  then obtain y ys' where ys: "ys = y # ys'" by (cases ys) auto
  have sets: "set ys = set (x # xs)" using Cons.prems(1) by (metis set_mset_mset)
  have "x = y"
  proof (cases "x = y")
    case False
    then have "y \<in> set xs" "x \<in> set ys'" using sets ys by auto
    then have "\<not> lt y x" "\<not> lt x y" using Cons.prems(2,3) ys by auto
    then show ?thesis using Cons.prems(4) [of x y] \<open>y \<in> set xs\<close> by simp
  qed simp
  moreover have "xs = ys'"
    by (rule Cons.IH) (use Cons.prems ys \<open>x = y\<close> in auto)
  ultimately show ?case using ys by simp
qed

text \<open>Any sorting algorithm gives the model's result where no two elements tie.\<close>

lemma sort_slice_unique:
  assumes "mset ys = mset xs" "in_order ys"
    and "\<And>a b. a \<in> set xs \<Longrightarrow> b \<in> set xs \<Longrightarrow> \<not> lt a b \<Longrightarrow> \<not> lt b a \<Longrightarrow> a = b"
  shows "ys = sort_slice lt xs"
proof -
  have "set ys = set xs" using assms(1) by (metis set_mset_mset)
  then show ?thesis
    using in_order_unique [of ys "sort_slice lt xs"] assms in_order_sort_slice by simp
qed

end

end
