(* ===== verification/Hub_Facets.thy ===== *)
theory Hub_Facets
  imports Hub_Fields Go_Sort
begin

text \<open>
  The autocomplete facet index of \<open>internal/hub/facets.go\<close>: the field catalog, bounded value
  counters, and the ingest path \<open>observe\<close> with its sub-object gates.  A counter reached
  through several Go pointers (the \<open>fields\<close> map, \<open>ungated\<close>, a gate group) is one entry of
  \<open>fx_fields\<close>, and the other views hold its name.  Ranging over a Go map visits its entries
  in an unspecified order: that order is the parameter \<open>iter\<close>, of which only that it is a
  permutation is ever used.

  The theorems: no counter ever tracks more than \<open>facetTrackCap\<close> values; below that cap the
  counts are exact; and the gates never change what is counted.
\<close>

datatype FieldType = FieldTypeEnum | FieldTypeNumber | FieldTypeString | FieldTypeFreetext

record FieldValue =
  fv_Value :: string
  fv_Count :: int

record FieldSpec =
  fs_Name :: string
  fs_Type :: FieldType
  fs_Operators :: "string list"
  fs_TrackValues :: bool
  fs_EnumValues :: "string list"

definition opsEnum :: "string list" where
  "opsEnum = [''=='', ''!='', ''in'']"

definition opsString :: "string list" where
  "opsString = [''=='', ''!='', ''contains'', ''matches'', ''startswith'', ''in'']"

definition opsNumber :: "string list" where
  "opsNumber = [''=='', ''!='', ''>'', ''<'', ''>='', ''<='', ''in'']"

definition opsText :: "string list" where
  "opsText = [''=='', ''!='', ''contains'', ''matches'', ''startswith'']"

abbreviation FieldSpecOf :: "string \<Rightarrow> FieldType \<Rightarrow> string list \<Rightarrow> bool \<Rightarrow> string list \<Rightarrow> FieldSpec" where
  "FieldSpecOf n t ops tr ev \<equiv>
     \<lparr>fs_Name = n, fs_Type = t, fs_Operators = ops, fs_TrackValues = tr, fs_EnumValues = ev\<rparr>"

definition fieldCatalog :: "FieldSpec list" where
  "fieldCatalog =
   [
    FieldSpecOf ''protocol'' FieldTypeEnum opsEnum True [''http'', ''dns'', ''redis'', ''valkey'', ''postgres'', ''mysql'', ''mongodb'', ''kafka'', ''tcp'', ''udp'', ''icmp'', ''amqp'', ''ws''],
    FieldSpecOf ''status'' FieldTypeEnum opsEnum True [''success'', ''warning'', ''error''],
    FieldSpecOf ''node'' FieldTypeString opsString True [],
    FieldSpecOf ''elapsedMs'' FieldTypeNumber opsNumber False [],
    FieldSpecOf ''namespace'' FieldTypeString opsString True [],
    FieldSpecOf ''src.name'' FieldTypeString opsString True [],
    FieldSpecOf ''src.namespace'' FieldTypeString opsString True [],
    FieldSpecOf ''src.workload'' FieldTypeString opsString True [],
    FieldSpecOf ''dst.name'' FieldTypeString opsString True [],
    FieldSpecOf ''dst.namespace'' FieldTypeString opsString True [],
    FieldSpecOf ''dst.workload'' FieldTypeString opsString True [],
    FieldSpecOf ''src.ip'' FieldTypeString opsString True [],
    FieldSpecOf ''dst.ip'' FieldTypeString opsString True [],
    FieldSpecOf ''src.port'' FieldTypeNumber opsNumber False [],
    FieldSpecOf ''dst.port'' FieldTypeNumber opsNumber True [],
    FieldSpecOf ''http.method'' FieldTypeEnum opsEnum True [],
    FieldSpecOf ''response.status'' FieldTypeNumber opsNumber True [],
    FieldSpecOf ''request.host'' FieldTypeString opsString True [],
    FieldSpecOf ''request.path'' FieldTypeFreetext opsText False [],
    FieldSpecOf ''dns.question'' FieldTypeFreetext opsText False [],
    FieldSpecOf ''dns.answer'' FieldTypeFreetext opsText False [],
    FieldSpecOf ''redis.command'' FieldTypeEnum opsEnum True [],
    FieldSpecOf ''postgres.query'' FieldTypeFreetext opsText False [],
    FieldSpecOf ''request.body'' FieldTypeFreetext opsText False [],
    FieldSpecOf ''response.body'' FieldTypeFreetext opsText False [],
    FieldSpecOf ''bytes'' FieldTypeNumber opsNumber False [],
    FieldSpecOf ''packets'' FieldTypeNumber opsNumber False [],
    FieldSpecOf ''flags'' FieldTypeString opsString True [],
    FieldSpecOf ''summary'' FieldTypeFreetext opsText False [],
    FieldSpecOf ''trace.id'' FieldTypeFreetext opsText False [],
    FieldSpecOf ''http.version'' FieldTypeEnum opsEnum True [],
    FieldSpecOf ''response.contenttype'' FieldTypeString opsString True [],
    FieldSpecOf ''dns.rcode'' FieldTypeEnum opsEnum True [],
    FieldSpecOf ''dns.type'' FieldTypeEnum opsEnum True [],
    FieldSpecOf ''redis.db'' FieldTypeNumber opsNumber True [],
    FieldSpecOf ''redis.reply'' FieldTypeFreetext opsText False [],
    FieldSpecOf ''postgres.error'' FieldTypeString opsString True [],
    FieldSpecOf ''postgres.statement'' FieldTypeString opsString True [],
    FieldSpecOf ''postgres.txstatus'' FieldTypeEnum opsEnum True [''I'', ''T'', ''E''],
    FieldSpecOf ''mysql.command'' FieldTypeEnum opsEnum True [],
    FieldSpecOf ''mysql.error'' FieldTypeNumber opsNumber True [],
    FieldSpecOf ''mongo.collection'' FieldTypeString opsString True [],
    FieldSpecOf ''mongo.command'' FieldTypeEnum opsEnum True [],
    FieldSpecOf ''kafka.topic'' FieldTypeString opsString True [],
    FieldSpecOf ''kafka.apikey'' FieldTypeEnum opsEnum True [],
    FieldSpecOf ''l4.ttl'' FieldTypeNumber opsNumber True [],
    FieldSpecOf ''l4.retransmits'' FieldTypeNumber opsNumber False [],
    FieldSpecOf ''l4.window'' FieldTypeNumber opsNumber False [],
    FieldSpecOf ''l4.mss'' FieldTypeNumber opsNumber True [],
    FieldSpecOf ''l4.rttms'' FieldTypeNumber opsNumber False [],
    FieldSpecOf ''l4.durationms'' FieldTypeNumber opsNumber False [],
    FieldSpecOf ''l4.clientbytes'' FieldTypeNumber opsNumber False [],
    FieldSpecOf ''l4.serverbytes'' FieldTypeNumber opsNumber False [],
    FieldSpecOf ''tls.sni'' FieldTypeString opsString True [],
    FieldSpecOf ''amqp.class'' FieldTypeEnum opsEnum True [''Connection'', ''Channel'', ''Exchange'', ''Queue'', ''Basic''],
    FieldSpecOf ''amqp.method'' FieldTypeEnum opsEnum True [],
    FieldSpecOf ''amqp.exchange'' FieldTypeString opsString True [],
    FieldSpecOf ''amqp.routingkey'' FieldTypeString opsString True [],
    FieldSpecOf ''amqp.queue'' FieldTypeString opsString True [],
    FieldSpecOf ''amqp.deliverytag'' FieldTypeNumber opsNumber False [],
    FieldSpecOf ''amqp.correlationid'' FieldTypeFreetext opsText False [],
    FieldSpecOf ''amqp.replyto'' FieldTypeString opsString True [],
    FieldSpecOf ''ws.opcode'' FieldTypeEnum opsEnum True [''text'', ''binary'', ''close'', ''ping'', ''pong'', ''continuation''],
    FieldSpecOf ''redis.pipelinedepth'' FieldTypeNumber opsNumber True [],
    FieldSpecOf ''postgres.portal'' FieldTypeString opsString True [],
    FieldSpecOf ''dns.authoritative'' FieldTypeEnum opsEnum True [''true'', ''false''],
    FieldSpecOf ''dns.recursionavailable'' FieldTypeEnum opsEnum True [''true'', ''false''],
    FieldSpecOf ''request.size'' FieldTypeNumber opsNumber False [],
    FieldSpecOf ''response.size'' FieldTypeNumber opsNumber False [],
    FieldSpecOf ''postgres.rowcount'' FieldTypeNumber opsNumber False [],
    FieldSpecOf ''http.ttfbms'' FieldTypeNumber opsNumber False [],
    FieldSpecOf ''l4.srcmac'' FieldTypeString opsString False [],
    FieldSpecOf ''l4.dstmac'' FieldTypeString opsString False [],
    FieldSpecOf ''l4.ipversion'' FieldTypeEnum opsEnum True [''4'', ''6''],
    FieldSpecOf ''l4.ipflags'' FieldTypeString opsString True [],
    FieldSpecOf ''l4.clienttcpflags'' FieldTypeString opsString True [],
    FieldSpecOf ''l4.servertcpflags'' FieldTypeString opsString True [],
    FieldSpecOf ''l4.seqstart'' FieldTypeNumber opsNumber False [],
    FieldSpecOf ''l4.ackstart'' FieldTypeNumber opsNumber False [],
    FieldSpecOf ''l4.clientpackets'' FieldTypeNumber opsNumber False [],
    FieldSpecOf ''l4.serverpackets'' FieldTypeNumber opsNumber False []]"

text \<open>\<open>fieldSpecByName\<close>, built by \<open>init\<close>: a later catalog entry of the same name would win.\<close>

definition fieldSpecByName :: "string \<Rightarrow> FieldSpec option" where
  "fieldSpecByName name = map_of (rev (map (\<lambda>s. (fs_Name s, s)) fieldCatalog)) name"

definition facetTrackCap :: nat where "facetTrackCap = 200"
definition facetTopN :: nat where "facetTopN = 50"
definition facetEvictSample :: nat where "facetEvictSample = 8"

subsection \<open>Counters\<close>

type_synonym counts = "(string \<times> int) list"

record fieldCounter =
  fc_get :: getter
  fc_counts :: counts

text \<open>The scan over the first \<open>facetEvictSample\<close> keys: the least count seen, the earliest key on
  a tie.\<close>

fun evict_scan :: "(string \<times> int) option \<Rightarrow> counts \<Rightarrow> (string \<times> int) option" where
  "evict_scan best [] = best"
| "evict_scan None (p # ps) = evict_scan (Some p) ps"
| "evict_scan (Some b) (p # ps) = evict_scan (Some (if snd p < snd b then p else b)) ps"

definition evict_candidate :: "counts \<Rightarrow> (string \<times> int) option" where
  "evict_candidate sample = evict_scan None sample"

definition bump :: "string \<Rightarrow> counts \<Rightarrow> counts" where
  "bump v cs = (case map_of cs v of
       None \<Rightarrow> cs @ [(v, 1)]
     | Some _ \<Rightarrow> map (\<lambda>(k, c). if k = v then (k, c + 1) else (k, c)) cs)"

definition increment :: "(counts \<Rightarrow> counts) \<Rightarrow> string \<Rightarrow> counts \<Rightarrow> counts" where
  "increment iter v cs =
     (if map_of cs v = None \<and> length cs \<ge> facetTrackCap
      then (case evict_candidate (take facetEvictSample (iter cs)) of
              None \<Rightarrow> bump v cs
            | Some (k, _) \<Rightarrow> bump v (filter (\<lambda>p. fst p \<noteq> k) cs))
      else bump v cs)"

subsection \<open>The index\<close>

type_synonym facetGate = "(Entry \<Rightarrow> bool) \<times> string list"

definition facetGates :: "facetGate list" where
  "facetGates =
   [(\<lambda>e. pl_HTTP (e_Request e) \<noteq> None, [''http.version'']),
    (\<lambda>e. pl_DNS (e_Request e) \<noteq> None, [''dns.type'']),
    (\<lambda>e. pl_DNS (e_Response e) \<noteq> None,
       [''dns.rcode'', ''dns.authoritative'', ''dns.recursionavailable'']),
    (\<lambda>e. pl_Redis (e_Request e) \<noteq> None, [''redis.db'', ''redis.pipelinedepth'']),
    (\<lambda>e. pl_Postgres (e_Request e) \<noteq> None, [''postgres.statement'', ''postgres.portal'']),
    (\<lambda>e. pl_Postgres (e_Response e) \<noteq> None, [''postgres.error'', ''postgres.txstatus'']),
    (\<lambda>e. pl_MySQL (e_Request e) \<noteq> None, [''mysql.command'']),
    (\<lambda>e. pl_MySQL (e_Response e) \<noteq> None, [''mysql.error'']),
    (\<lambda>e. pl_Mongo (e_Request e) \<noteq> None, [''mongo.collection'', ''mongo.command'']),
    (\<lambda>e. pl_Kafka (e_Request e) \<noteq> None, [''kafka.topic'', ''kafka.apikey'']),
    (\<lambda>e. e_L4 e \<noteq> None,
       [''l4.ttl'', ''l4.mss'', ''l4.ipversion'', ''l4.ipflags'', ''l4.clienttcpflags'',
        ''l4.servertcpflags'', ''tls.sni''])]"

record facetIndex =
  fx_fields :: "(string \<times> fieldCounter) list"
  fx_ungated :: "string list"
  fx_groups :: "facetGate list"
  fx_requestHeaderNames :: counts
  fx_responseHeaderNames :: counts

definition tracked_fields :: "golib \<Rightarrow> (string \<times> fieldCounter) list" where
  "tracked_fields L =
     concat (map (\<lambda>spec. if \<not> fs_TrackValues spec then []
                         else (case fieldGetter L (fs_Name spec) of
                                 None \<Rightarrow> []
                               | Some g \<Rightarrow> [(fs_Name spec, \<lparr>fc_get = g, fc_counts = []\<rparr>)]))
              fieldCatalog)"

definition newFacetIndex :: "golib \<Rightarrow> facetIndex" where
  "newFacetIndex L =
     (let fs = tracked_fields L;
          names = map fst fs;
          gated = filter (\<lambda>n. n \<in> set names) (concat (map snd facetGates));
          groups = filter (\<lambda>g. snd g \<noteq> [])
                     (map (\<lambda>(p, ns). (p, filter (\<lambda>n. n \<in> set names) ns)) facetGates)
      in \<lparr>fx_fields = fs,
          fx_ungated = filter (\<lambda>n. n \<in> set names \<and> n \<notin> set gated) (map fs_Name fieldCatalog),
          fx_groups = groups,
          fx_requestHeaderNames = [], fx_responseHeaderNames = []\<rparr>)"

text \<open>One counter's share of \<open>observe\<close>: an empty value is skipped.\<close>

definition observe_counter :: "(counts \<Rightarrow> counts) \<Rightarrow> Entry \<Rightarrow> fieldCounter \<Rightarrow> fieldCounter" where
  "observe_counter iter e fc =
     (if fc_get fc e = [] then fc
      else fc\<lparr>fc_counts := increment iter (fc_get fc e) (fc_counts fc)\<rparr>)"

definition update_field ::
  "string \<Rightarrow> (fieldCounter \<Rightarrow> fieldCounter) \<Rightarrow> (string \<times> fieldCounter) list \<Rightarrow> (string \<times> fieldCounter) list" where
  "update_field name f fs = map (\<lambda>(n, fc). if n = name then (n, f fc) else (n, fc)) fs"

definition observe :: "(counts \<Rightarrow> counts) \<Rightarrow> Entry \<Rightarrow> facetIndex \<Rightarrow> facetIndex" where
  "observe iter e f =
     (let obs = (\<lambda>name fs. update_field name (observe_counter iter e) fs);
          fs1 = fold obs (fx_ungated f) (fx_fields f);
          fs2 = fold (\<lambda>(present, names) fs. if present e then fold obs names fs else fs)
                  (fx_groups f) fs1
      in f\<lparr>fx_fields := fs2,
           fx_requestHeaderNames :=
             fold (\<lambda>(name, _) cs. increment iter name cs) (pl_Headers (e_Request e))
               (fx_requestHeaderNames f),
           fx_responseHeaderNames :=
             fold (\<lambda>(name, _) cs. increment iter name cs) (pl_Headers (e_Response e))
               (fx_responseHeaderNames f)\<rparr>)"

subsection \<open>Reading the index\<close>

definition countsToFieldValues :: "counts \<Rightarrow> FieldValue list" where
  "countsToFieldValues cs = map (\<lambda>(v, c). \<lparr>fv_Value = v, fv_Count = c\<rparr>) cs"

definition fieldValueNames :: "FieldValue list \<Rightarrow> string list" where
  "fieldValueNames vals = map fv_Value vals"

definition fieldValue_less :: "FieldValue \<Rightarrow> FieldValue \<Rightarrow> bool" where
  "fieldValue_less a b \<longleftrightarrow>
     (if fv_Count a \<noteq> fv_Count b then fv_Count a > fv_Count b else fv_Value a < fv_Value b)"

definition sortFieldValues :: "FieldValue list \<Rightarrow> FieldValue list" where
  "sortFieldValues vals = sort_slice fieldValue_less vals"

definition headerFieldNames :: "facetIndex \<Rightarrow> string list \<times> string list" where
  "headerFieldNames f =
     (fieldValueNames (sortFieldValues (countsToFieldValues (fx_requestHeaderNames f))),
      fieldValueNames (sortFieldValues (countsToFieldValues (fx_responseHeaderNames f))))"

definition facet_values :: "golib \<Rightarrow> facetIndex \<Rightarrow> string \<Rightarrow> string \<Rightarrow> int \<Rightarrow> FieldValue list option" where
  "facet_values L f field pre limit =
     (case map_of (fx_fields f) field of
        None \<Rightarrow> None
      | Some fc \<Rightarrow>
         (let lowerPrefix = to_lower L pre;
              out = filter (\<lambda>v. pre = [] \<or> prefix lowerPrefix (to_lower L (fv_Value v)))
                      (countsToFieldValues (fc_counts fc));
              out = sortFieldValues out
          in Some (if limit > 0 \<and> int (length out) > limit then take (nat limit) out else out)))"

definition facet_snapshot :: "facetIndex \<Rightarrow> (string \<times> FieldValue list) list" where
  "facet_snapshot f =
     map (\<lambda>(name, fc). (name, take facetTopN (sortFieldValues (countsToFieldValues (fc_counts fc)))))
       (fx_fields f)"

subsection \<open>The counters stay bounded\<close>

definition counts_ok :: "counts \<Rightarrow> bool" where
  "counts_ok cs \<longleftrightarrow> distinct (map fst cs) \<and> length cs \<le> facetTrackCap \<and> (\<forall>p \<in> set cs. 1 \<le> snd p)"

definition map_order :: "(counts \<Rightarrow> counts) \<Rightarrow> bool" where
  "map_order iter \<longleftrightarrow> (\<forall>cs. mset (iter cs) = mset cs)"

lemma map_fst_bump:
  "map fst (bump v cs) = (if v \<in> fst ` set cs then map fst cs else map fst cs @ [v])"
  by (auto simp: bump_def map_of_eq_None_iff case_prod_unfold comp_def split: option.splits
      dest: map_of_SomeD)
   (metis fst_conv image_eqI map_of_SomeD)?

lemma length_bump: "length (bump v cs) = (if v \<in> fst ` set cs then length cs else Suc (length cs))"
  by (metis length_append_singleton length_map map_fst_bump)

lemma bump_pos: "\<forall>p \<in> set cs. 1 \<le> snd p \<Longrightarrow> \<forall>p \<in> set (bump v cs). 1 \<le> snd p"
  by (cases "map_of cs v") (auto simp: bump_def)

lemma evict_scan_least:
  "evict_scan (Some b) ps = Some q \<Longrightarrow> q \<in> insert b (set ps) \<and> (\<forall>p \<in> insert b (set ps). snd q \<le> snd p)"
proof (induction ps arbitrary: b)
  case (Cons p ps)
  from Cons.IH [of "if snd p < snd b then p else b"] Cons.prems show ?case
    by (auto split: if_splits)
qed simp

lemma evict_scan_Some: "evict_scan (Some b) ps \<noteq> None"
  by (induction ps arbitrary: b) auto

lemma evict_candidate_least:
  "evict_candidate sample = Some q \<Longrightarrow> q \<in> set sample \<and> (\<forall>p \<in> set sample. snd q \<le> snd p)"
  using evict_scan_least by (cases sample) (auto simp: evict_candidate_def)

lemma evict_candidate_None: "evict_candidate sample = None \<Longrightarrow> sample = []"
  using evict_scan_Some by (cases sample) (auto simp: evict_candidate_def)

lemma set_iter: "map_order iter \<Longrightarrow> set (iter cs) = set cs"
  unfolding map_order_def by (metis set_mset_mset)

lemma increment_cases:
  assumes "map_order iter"
  obtains (plain) "increment iter v cs = bump v cs" "v \<in> fst ` set cs \<or> length cs < facetTrackCap"
  | (evict) k c where "increment iter v cs = bump v (filter (\<lambda>p. fst p \<noteq> k) cs)"
      "(k, c) \<in> set cs" "v \<notin> fst ` set cs" "length cs \<ge> facetTrackCap"
proof (cases "map_of cs v = None \<and> length cs \<ge> facetTrackCap")
  case False
  then have "increment iter v cs = bump v cs" unfolding increment_def by (rule if_not_P)
  moreover have "v \<in> fst ` set cs \<or> length cs < facetTrackCap"
    using False by (simp add: map_of_eq_None_iff not_le disj_commute imp_conv_disj)
  ultimately show ?thesis by (rule plain)
next
  case True
  let ?sample = "take facetEvictSample (iter cs)"
  have "length (iter cs) = length cs" using assms unfolding map_order_def by (metis size_mset)
  then have "?sample \<noteq> []" using True by (auto simp: facetTrackCap_def facetEvictSample_def)
  then obtain k c where kc: "evict_candidate ?sample = Some (k, c)"
    using evict_candidate_None by (metis not_None_eq surj_pair)
  then have "(k, c) \<in> set cs"
    using evict_candidate_least [OF kc] set_iter [OF assms] in_set_takeD by fastforce
  then show ?thesis using evict [of k c] kc True by (simp add: increment_def map_of_eq_None_iff)
qed

lemma counts_ok_bump:
  assumes "counts_ok cs" "v \<in> fst ` set cs \<or> length cs < facetTrackCap"
  shows "counts_ok (bump v cs)"
proof -
  have "distinct (map fst (bump v cs))" using assms(1) by (simp add: counts_ok_def map_fst_bump)
  moreover have "length (bump v cs) \<le> facetTrackCap"
    using assms by (auto simp: counts_ok_def length_bump simp del: set_map)
  moreover have "\<forall>p \<in> set (bump v cs). 1 \<le> snd p"
    using assms(1) by (intro bump_pos) (simp add: counts_ok_def)
  ultimately show ?thesis by (simp add: counts_ok_def)
qed

lemma counts_ok_increment [inv_intros]:
  assumes "map_order iter" "counts_ok cs"
  shows "counts_ok (increment iter v cs)"
  using assms(1)
proof (cases rule: increment_cases [of iter v cs])
  case plain
  then show ?thesis using assms(2) by (simp add: counts_ok_bump)
next
  case (evict k c)
  let ?cs = "filter (\<lambda>p. fst p \<noteq> k) cs"
  have lt: "length ?cs < length cs" using evict(2) by (intro length_filter_less) auto
  then have "counts_ok ?cs" using assms(2) by (auto simp: counts_ok_def distinct_map_filter)
  moreover have "length ?cs < facetTrackCap" using lt assms(2) by (simp add: counts_ok_def)
  ultimately show ?thesis using evict(1) by (simp add: counts_ok_bump)
qed

text \<open>exactness\<close>

definition count_of :: "counts \<Rightarrow> string \<Rightarrow> int" where
  "count_of cs v = (case map_of cs v of None \<Rightarrow> 0 | Some n \<Rightarrow> n)"

lemma map_of_map_snd: "map_of (map (\<lambda>(k, c). if k = v then (k, c + 1) else (k, c)) cs) w
    = (if w = v then map_option (\<lambda>c. c + 1) (map_of cs w) else map_of cs w)" for cs :: counts
  by (induction cs) auto

lemma count_of_bump: "count_of (bump v cs) w = count_of cs w + (if w = v then 1 else 0)"
proof (cases "map_of cs v")
  case None
  then show ?thesis by (cases "map_of cs w") (auto simp: count_of_def bump_def map_add_def)
next
  case (Some n)
  then show ?thesis
    by (cases "map_of cs w") (auto simp: count_of_def bump_def map_of_map_snd)
qed

lemma increments_exact:
  assumes "map_order iter" "card (set vs) \<le> facetTrackCap"
  shows "fst ` set (fold (increment iter) vs []) = set vs
     \<and> (\<forall>w. count_of (fold (increment iter) vs []) w = int (count_list vs w))"
  using assms(2)
proof (induction vs rule: rev_induct)
  case Nil
  then show ?case by (simp add: count_of_def)
next
  case (snoc v vs)
  let ?cs = "fold (increment iter) vs []"
  have "card (set vs) \<le> facetTrackCap" using snoc.prems card_mono [of "set (vs @ [v])" "set vs"] by (simp add: subset_insertI)
  note IH = snoc.IH [OF this]
  have ok: "counts_ok ?cs"
    by (induction vs rule: rev_induct) (simp_all add: counts_ok_def [of "[]"] counts_ok_increment assms(1))
  then have len: "length ?cs = card (set vs)"
    using IH unfolding counts_ok_def by (metis distinct_card length_map set_map)
  have "increment iter v ?cs = bump v ?cs"
    using assms(1)
  proof (cases rule: increment_cases [of iter v ?cs])
    case (evict k c)
    then have "card (set (vs @ [v])) = Suc (card (set vs))" using IH by simp
    then show ?thesis using evict len snoc.prems by simp
  qed simp
  then show ?case using IH
    by (simp add: count_of_bump flip: set_map) (auto simp: map_fst_bump)
qed

lemma catalog_names_distinct: "distinct (map fs_Name fieldCatalog)"
  by code_simp

lemma gate_names_distinct: "distinct (concat (map snd facetGates))"
  by (simp add: facetGates_def)

definition gate_sound :: "golib \<Rightarrow> (Entry \<Rightarrow> bool) \<Rightarrow> string \<Rightarrow> bool" where
  "gate_sound L p n \<longleftrightarrow> (\<forall>g e. fieldGetter L n = Some g \<longrightarrow> \<not> p e \<longrightarrow> g e = [])"

lemma gate_rowI:
  assumes "getter_switch L = rows" "list_all is_ascii n" "map lower_byte n = n"
    "\<not> prefix ''request.header.'' n" "\<not> prefix ''response.header.'' n"
    and "switch rows n = Some g" "\<And>e. \<not> p e \<Longrightarrow> g e = []"
  shows "gate_sound L p n"
  using assms by (simp add: gate_sound_def fieldGetter_switch to_lower_ascii)

lemma gates_sound: "\<forall>(p, names) \<in> set facetGates. \<forall>n \<in> set names. gate_sound L p n"
  unfolding facetGates_def list.set ball_simps prod.case
  by (intro conjI TrueI)
     (rule gate_rowI [OF getter_switch_rows],
      (simp add: is_ascii_def; fail), (simp add: lower_byte_def; fail), (simp; fail), (simp; fail),
      ((rule switch_there, (simp; fail))+)?, rule switch_here, (simp; fail),
      (simp add: opt_str_def l4Int_def l4Str_def; fail))+

lemma update_field_funpow:
  "fold (\<lambda>name fs. update_field name f fs) names fs
     = map (\<lambda>(n, fc). (n, (f ^^ count_list names n) fc)) fs"
proof (induction names arbitrary: fs)
  case (Cons a names)
  have "fold (\<lambda>name fs. update_field name f fs) (a # names) fs
      = map (\<lambda>(n, fc). (n, (f ^^ count_list names n) fc)) (update_field a f fs)"
    using Cons.IH [of "update_field a f fs"] by simp
  also have "\<dots> = map (\<lambda>(n, fc). (n, (f ^^ count_list (a # names) n) fc)) fs"
    by (auto simp: update_field_def funpow_swap1)
  finally show ?case .
qed simp

lemma fold_groups:
  "fold (\<lambda>(present, names) fs. if present e then fold obs names fs else fs) gs fs
     = fold obs (concat (map (\<lambda>(present, names). if present e then names else []) gs)) fs"
  by (induction gs arbitrary: fs) auto

lemma count_list_distinct: "distinct xs \<Longrightarrow> count_list xs x = (if x \<in> set xs then 1 else 0)"
  by (induction xs) (auto simp: count_list_0_iff)

lemma observe_all_counters:
  assumes dist: "distinct (U @ concat (map snd G))"
    and cover: "\<And>n fc. (n, fc) \<in> set F \<Longrightarrow> n \<in> set U \<or> n \<in> set (concat (map snd G))"
    and sound: "\<And>p ns n fc. (p, ns) \<in> set G \<Longrightarrow> n \<in> set ns \<Longrightarrow> (n, fc) \<in> set F \<Longrightarrow> \<not> p e \<Longrightarrow> fc_get fc e = []"
    and f: "fx_fields f = F" "fx_ungated f = U" "fx_groups f = G"
  shows "fx_fields (observe iter e f) = map (\<lambda>(n, fc). (n, observe_counter iter e fc)) F"
proof -
  let ?P = "concat (map (\<lambda>(p, ns). if p e then ns else []) G)"
  have sub: "set ?P \<subseteq> set (concat (map snd G))" by (auto split: if_splits)
  have dG: "distinct ?P" using dist by (induction G) (auto split: if_splits, fastforce)
  then have dP: "distinct (U @ ?P)" using dist sub by auto
  have "(observe_counter iter e ^^ count_list (U @ ?P) n) fc = observe_counter iter e fc"
    if "(n, fc) \<in> set F" for n fc
  proof (cases "n \<in> set (U @ ?P)")
    case True
    have "count_list (U @ ?P) n = 1" by (simp only: count_list_distinct [OF dP] True if_True)
    then show ?thesis by simp
  next
    case False
    have z: "count_list (U @ ?P) n = 0" by (simp only: count_list_distinct [OF dP] False if_False)
    have nU: "n \<notin> set U" and nP: "n \<notin> set ?P" using False unfolding set_append by blast+
    from nU cover [OF that] have "n \<in> set (concat (map snd G))" by blast
    then obtain p ns where "(p, ns) \<in> set G" "n \<in> set ns" unfolding set_concat set_map by fastforce
    moreover have "\<not> p e"
    proof
      assume "p e"
      then have "(p, ns) \<in> set G \<and> ns = (if p e then ns else [])" using calculation by simp
      then have "n \<in> set ?P" using calculation \<open>p e\<close> by (auto intro!: bexI [of _ "(p, ns)"])
      then show False using nP by blast
    qed
    ultimately have "fc_get fc e = []" using sound that by blast
    then show ?thesis using z by (simp add: observe_counter_def)
  qed
  then have once: "map (\<lambda>(n, fc). (n, (observe_counter iter e ^^ count_list (U @ ?P) n) fc)) F
      = map (\<lambda>(n, fc). (n, observe_counter iter e fc)) F"
    by (intro map_cong refl) (simp only: case_prod_unfold prod.collapse)
  let ?obs = "\<lambda>name fs. update_field name (observe_counter iter e) fs"
  have "fx_fields (observe iter e f) = fold ?obs (U @ ?P) F"
    unfolding observe_def Let_def f fold_groups fold_append comp_apply by simp
  then show ?thesis unfolding update_field_funpow once .
qed

lemma tracked_fields_get:
  "(n, fc) \<in> set (tracked_fields L) \<Longrightarrow> fieldGetter L n = Some (fc_get fc) \<and> n \<in> set (map fs_Name fieldCatalog)"
  by (auto simp: tracked_fields_def split: if_splits option.splits)

definition index_ok :: "golib \<Rightarrow> facetIndex \<Rightarrow> bool" where
  "index_ok L f \<longleftrightarrow> map fst (fx_fields f) = map fst (tracked_fields L)
     \<and> (\<forall>(n, fc) \<in> set (fx_fields f). fieldGetter L n = Some (fc_get fc))
     \<and> fx_ungated f = fx_ungated (newFacetIndex L) \<and> fx_groups f = fx_groups (newFacetIndex L)"

lemma index_ok_new: "index_ok L (newFacetIndex L)"
  using tracked_fields_get by (fastforce simp: index_ok_def newFacetIndex_def Let_def)

lemma concat_filter_nonempty: "concat (filter (\<lambda>xs. xs \<noteq> []) xss) = concat xss"
  by (induction xss) auto

lemma new_groups_names:
  "concat (map snd (fx_groups (newFacetIndex L)))
     = filter (\<lambda>n. n \<in> set (map fst (tracked_fields L))) (concat (map snd facetGates))"
proof -
  have "concat (map snd (filter (\<lambda>g. snd g \<noteq> []) (map (\<lambda>(p, ns). (p, filter Q ns)) gs)))
      = filter Q (concat (map snd gs))" for Q :: "string \<Rightarrow> bool" and gs :: "facetGate list"
    by (induction gs) auto
  then show ?thesis by (simp add: newFacetIndex_def Let_def)
qed

lemma observe_index:
  assumes "index_ok L f"
  shows "fx_fields (observe iter e f) = map (\<lambda>(n, fc). (n, observe_counter iter e fc)) (fx_fields f)"
proof (rule observe_all_counters [OF _ _ _ refl refl refl])
  let ?N = "set (map fst (tracked_fields L))"
  have U: "fx_ungated f = filter (\<lambda>n. n \<in> ?N \<and> n \<notin> set (concat (map snd (fx_groups f)))) (map fs_Name fieldCatalog)"
    and G: "concat (map snd (fx_groups f)) = filter (\<lambda>n. n \<in> ?N) (concat (map snd facetGates))"
    using assms new_groups_names [of L] by (auto simp: index_ok_def newFacetIndex_def Let_def)
  show "distinct (fx_ungated f @ concat (map snd (fx_groups f)))"
    using gate_names_distinct catalog_names_distinct by (auto simp: U G)
  fix n fc assume "(n, fc) \<in> set (fx_fields f)"
  then have "n \<in> ?N" using assms unfolding index_ok_def by (metis image_eqI fst_conv set_map)
  moreover then have "n \<in> set (map fs_Name fieldCatalog)" using tracked_fields_get by fastforce
  ultimately show "n \<in> set (fx_ungated f) \<or> n \<in> set (concat (map snd (fx_groups f)))"
    unfolding U by auto
next
  fix p ns n fc
  assume a: "(p, ns) \<in> set (fx_groups f)" "n \<in> set ns" "(n, fc) \<in> set (fx_fields f)" "\<not> p e"
  have "\<exists>ns'. (p, ns') \<in> set facetGates \<and> n \<in> set ns'"
    using a(1,2) assms by (auto simp: index_ok_def newFacetIndex_def Let_def)
  then have "gate_sound L p n" using gates_sound by blast
  moreover have "fieldGetter L n = Some (fc_get fc)" using assms a(3) by (auto simp: index_ok_def)
  ultimately show "fc_get fc e = []" using a(4) by (simp add: gate_sound_def)
qed

lemma index_ok_observe: "index_ok L f \<Longrightarrow> index_ok L (observe iter e f)"
proof -
  assume f: "index_ok L f"
  have "fc_get (observe_counter iter e fc) = fc_get fc" for fc by (simp add: observe_counter_def)
  moreover have "fx_ungated (observe iter e f) = fx_ungated f" "fx_groups (observe iter e f) = fx_groups f"
    by (simp_all add: observe_def Let_def)
  ultimately show ?thesis using f observe_index [OF f, of iter e]
    by (auto simp: index_ok_def comp_def case_prod_unfold)
qed

lemma index_ok_run: "index_ok L (fold (observe iter) es (newFacetIndex L))"
  by (induction es rule: rev_induct) (simp_all add: index_ok_new index_ok_observe)

lemma observe_run:
  "fx_fields (fold (observe iter) es (newFacetIndex L))
     = map (\<lambda>(n, fc). (n, fold (observe_counter iter) es fc)) (tracked_fields L)"
proof (induction es rule: rev_induct)
  case Nil
  then show ?case by (simp add: newFacetIndex_def Let_def)
next
  case (snoc e es)
  have "fx_fields (observe iter e (fold (observe iter) es (newFacetIndex L)))
      = map (\<lambda>(n, fc). (n, observe_counter iter e fc)) (fx_fields (fold (observe iter) es (newFacetIndex L)))"
    by (rule observe_index [OF index_ok_run])
  then show ?case using snoc by (simp add: case_prod_unfold comp_def)
qed

lemma observe_counter_run:
  "fc_counts (fold (observe_counter iter) es fc)
     = fold (increment iter) (filter (\<lambda>v. v \<noteq> []) (map (fc_get fc) es)) (fc_counts fc)"
  by (induction es arbitrary: fc) (auto simp: observe_counter_def)

text \<open>Whatever entries have been ingested, through the sub-object gates, and in whatever order
  the maps were ranged over, a tracked field that has shown at most \<open>facetTrackCap\<close> distinct
  values counts each of them exactly.\<close>

theorem facet_counts_exact:
  assumes "map_order iter" and "(n, fc) \<in> set (tracked_fields L)"
    and "card (set (map (fc_get fc) es) - {[]}) \<le> facetTrackCap"
  shows "\<exists>fc'. (n, fc') \<in> set (fx_fields (fold (observe iter) es (newFacetIndex L)))
    \<and> (\<forall>v. v \<noteq> [] \<longrightarrow> count_of (fc_counts fc') v = int (length (filter (\<lambda>e. fc_get fc e = v) es)))"
proof (intro exI conjI allI impI)
  let ?vs = "filter (\<lambda>v. v \<noteq> []) (map (fc_get fc) es)"
  show "(n, fold (observe_counter iter) es fc) \<in> set (fx_fields (fold (observe iter) es (newFacetIndex L)))"
    using assms(2) by (force simp: observe_run)
  have empty: "fc_counts fc = []" using assms(2) by (auto simp: tracked_fields_def split: if_splits option.splits)
  have "card (set ?vs) \<le> facetTrackCap" using assms(3) by (simp add: set_filter set_diff_eq)
  then have ex: "count_of (fold (increment iter) ?vs []) v = int (count_list ?vs v)" for v
    using increments_exact [OF assms(1)] by blast
  fix v :: string assume "v \<noteq> []"
  then have "count_list ?vs v = length (filter (\<lambda>e. fc_get fc e = v) es)"
    by (induction es) auto
  then show "count_of (fc_counts (fold (observe_counter iter) es fc)) v = int (length (filter (\<lambda>e. fc_get fc e = v) es))"
    using ex [of v] by (simp add: observe_counter_run empty)
qed

lemma counts_ok_increments: "map_order iter \<Longrightarrow> counts_ok cs \<Longrightarrow> counts_ok (fold (increment iter) vs cs)"
  by (induction vs arbitrary: cs) (auto intro: inv_intros)

text \<open>After any sequence of ingested entries every counter of the index, the header-name
  counters included, holds at most \<open>facetTrackCap\<close> distinct values, each counted at least once.\<close>

theorem facets_bounded:
  assumes "map_order iter" and "f = fold (observe iter) es (newFacetIndex L)"
  shows "(\<forall>(n, fc) \<in> set (fx_fields f). counts_ok (fc_counts fc))
     \<and> counts_ok (fx_requestHeaderNames f) \<and> counts_ok (fx_responseHeaderNames f)"
proof -
  have nil: "counts_ok []" by (simp add: counts_ok_def)
  have "counts_ok (fc_counts (fold (observe_counter iter) es fc))" if "(n, fc) \<in> set (tracked_fields L)" for n fc
  proof -
    have "fc_counts fc = []" using that by (auto simp: tracked_fields_def split: if_splits option.splits)
    then show ?thesis using counts_ok_increments [OF assms(1) nil] by (simp add: observe_counter_run)
  qed
  then have "\<forall>(n, fc) \<in> set (fx_fields f). counts_ok (fc_counts fc)"
    by (auto simp: assms(2) observe_run)
  moreover have "counts_ok (fold (\<lambda>(name, _) cs. increment iter name cs) hs cs)" if "counts_ok cs" for hs :: strmap and cs
    using that by (induction hs arbitrary: cs) (auto intro: counts_ok_increment assms(1))
  then have "counts_ok (fx_requestHeaderNames f) \<and> counts_ok (fx_responseHeaderNames f)"
    unfolding assms(2) by (induction es rule: rev_induct) (auto simp: observe_def Let_def newFacetIndex_def nil)
  ultimately show ?thesis by blast
qed

subsection \<open>Reading the index back\<close>

interpretation fieldValue_order: weak_order fieldValue_less
  by unfold_locales (auto simp: fieldValue_less_def split: if_splits)

lemma fieldValue_less_total: "a \<noteq> b \<Longrightarrow> fieldValue_less a b \<or> fieldValue_less b a"
  by (cases a, cases b) (auto simp: fieldValue_less_def)

lemma strictly_ranked:
  "sorted_wrt (\<lambda>a b. \<not> fieldValue_less b a) vs \<Longrightarrow> distinct vs \<Longrightarrow> sorted_wrt fieldValue_less vs"
  by (induction vs) (auto, metis fieldValue_less_total)

lemma ranked_take:
  assumes "distinct vs" "out = take k (sortFieldValues vs)"
  shows "sorted_wrt fieldValue_less out" "\<And>v w. v \<in> set out \<Longrightarrow> w \<in> set vs \<Longrightarrow> w \<notin> set out \<Longrightarrow> fieldValue_less v w"
proof -
  let ?s = "sortFieldValues vs"
  have d: "distinct ?s" using assms(1) unfolding sortFieldValues_def
    by (metis mset_sort_slice mset_eq_imp_distinct_iff)
  have "sorted_wrt (\<lambda>a b. \<not> fieldValue_less b a) ?s"
    unfolding sortFieldValues_def by (rule fieldValue_order.in_order_sort_slice)
  then have s: "sorted_wrt fieldValue_less ?s" using d by (rule strictly_ranked)
  then show "sorted_wrt fieldValue_less out" using assms(2) by (simp add: sorted_wrt_take)
  fix v w assume "v \<in> set out" "w \<in> set vs" "w \<notin> set out"
  moreover have "w \<in> set (drop k ?s)"
    using calculation assms(2) by (metis Un_iff append_take_drop_id set_append set_sort_slice sortFieldValues_def)
  moreover have "sorted_wrt fieldValue_less (take k ?s @ drop k ?s)" using s by simp
  ultimately show "fieldValue_less v w" using assms(2) by (simp add: sorted_wrt_append del: append_take_drop_id)
qed

lemma distinct_countsToFieldValues: "counts_ok cs \<Longrightarrow> distinct (countsToFieldValues cs)"
proof -
  assume "counts_ok cs"
  then have "distinct (map fv_Value (countsToFieldValues cs))"
    by (simp add: counts_ok_def countsToFieldValues_def case_prod_unfold comp_def)
  then show ?thesis by (simp add: distinct_map)
qed

text \<open>What \<open>facetIndex.values\<close> returns for a tracked field is the best-ranked part of the
  tracked values that match the prefix whatever the letter case: sorted by count, ties broken by value,
  at most \<open>limit\<close> of them, and every match left out ranks after every one returned.\<close>

theorem facet_values_ranked:
  assumes "map_of (fx_fields f) field = Some fc" and "counts_ok (fc_counts fc)" and "0 < limit"
    and "hits = filter (\<lambda>v. pre = [] \<or> prefix (to_lower L pre) (to_lower L (fv_Value v)))
                  (countsToFieldValues (fc_counts fc))"
  shows "\<exists>out. facet_values L f field pre limit = Some out
    \<and> sorted_wrt fieldValue_less out \<and> set out \<subseteq> set hits
    \<and> length out = min (nat limit) (length hits)
    \<and> (\<forall>v \<in> set out. \<forall>w \<in> set hits - set out. fieldValue_less v w)"
proof -
  let ?out = "take (nat limit) (sortFieldValues hits)"
  have len: "length (sortFieldValues hits) = length hits" and st: "set (sortFieldValues hits) = set hits"
    by (simp_all add: sortFieldValues_def)
  have "facet_values L f field pre limit = Some ?out"
    using assms(1,3) len by (auto simp: facet_values_def Let_def assms(4))
  moreover have "distinct hits" using assms(2,4) distinct_countsToFieldValues by simp
  note ranked_take [OF this, where k = "nat limit", OF refl]
  ultimately show ?thesis using st len by (auto dest: in_set_takeD)
qed

lemma fieldGetter_rowI:
  assumes "getter_switch L = rows" "list_all is_ascii n" "map lower_byte n = m"
    "\<not> prefix ''request.header.'' m" "\<not> prefix ''response.header.'' m" "switch rows m = Some g"
  shows "\<exists>g. fieldGetter L n = Some g"
  using assms by (simp add: fieldGetter_switch to_lower_ascii)

lemma numericFieldGetter_rowI:
  assumes "list_all is_ascii n" "map lower_byte n = m"
    "m \<in> set (concat (map fst (numgetters_base @ numgetters_l4 @ numgetters_rest)))"
  shows "\<exists>ng. numericFieldGetter L n = Some ng"
proof -
  have "\<exists>v. switch rows s = Some v" if "s \<in> set (concat (map fst rows))" for rows :: numgetter_table and s
    using that by (induction rows s rule: switch.induct) auto
  from this [OF assms(3)] show ?thesis using assms(1,2) by (simp add: numericFieldGetter_def to_lower_ascii)
qed

lemma lower_byte_M: "lower_byte (CHR ''M'') = CHR ''m''"
  by code_simp

lemma lower_byte_other: "\<not> (65 \<le> byte c \<and> byte c \<le> 90) \<Longrightarrow> lower_byte c = c"
  by (auto simp: lower_byte_def)

lemma catalog_getters: "\<forall>n \<in> set (map fs_Name fieldCatalog). \<exists>g. fieldGetter L n = Some g"
  unfolding fieldCatalog_def list.map FieldSpec.simps list.set ball_simps
  by (intro conjI TrueI)
     (rule fieldGetter_rowI [OF getter_switch_rows],
      (simp add: is_ascii_def; fail), (simp add: lower_byte_M lower_byte_other; fail), (simp; fail), (simp; fail),
      ((rule switch_there, (simp; fail))+)?, rule switch_here, (simp; fail))+

lemma number_fields:
  "map fs_Name (filter (\<lambda>spec. fs_Type spec = FieldTypeNumber) fieldCatalog)
   = [''elapsedMs'', ''src.port'', ''dst.port'', ''response.status'', ''bytes'',
      ''packets'', ''redis.db'', ''mysql.error'', ''l4.ttl'', ''l4.retransmits'',
      ''l4.window'', ''l4.mss'', ''l4.rttms'', ''l4.durationms'', ''l4.clientbytes'',
      ''l4.serverbytes'', ''amqp.deliverytag'', ''redis.pipelinedepth'', ''request.size'', ''response.size'',
      ''postgres.rowcount'', ''http.ttfbms'', ''l4.seqstart'', ''l4.ackstart'', ''l4.clientpackets'',
      ''l4.serverpackets'']"
  by code_simp

lemma catalog_numbers:
  "\<forall>n \<in> set (map fs_Name (filter (\<lambda>spec. fs_Type spec = FieldTypeNumber) fieldCatalog)).
     \<exists>ng. numericFieldGetter L n = Some ng"
  unfolding number_fields list.set ball_simps
  by (intro conjI TrueI)
     (rule numericFieldGetter_rowI, (simp add: is_ascii_def; fail), (simp add: lower_byte_M lower_byte_other; fail),
      (simp add: numgetters_base_def numgetters_l4_def numgetters_rest_def; fail))+

text \<open>Every field the catalog advertises to autocomplete is a field the filter language
  resolves, and every field advertised as a number has a typed accessor, so that a relational
  comparison on it never falls back to parsing text.\<close>

theorem catalog_fields_resolve:
  "\<forall>spec \<in> set fieldCatalog. (\<exists>g. fieldGetter L (fs_Name spec) = Some g)
     \<and> (fs_Type spec = FieldTypeNumber \<longrightarrow> (\<exists>ng. numericFieldGetter L (fs_Name spec) = Some ng))"
  using catalog_getters [of L] catalog_numbers [of L] by auto

subsection \<open>Examples\<close>

lemma tracked_fieldsI:
  "spec \<in> set fieldCatalog \<Longrightarrow> fs_TrackValues spec \<Longrightarrow> fieldGetter L (fs_Name spec) = Some g
     \<Longrightarrow> (fs_Name spec, \<lparr>fc_get = g, fc_counts = []\<rparr>) \<in> set (tracked_fields L)"
  by (force simp: tracked_fields_def)

definition example_entry :: Entry where
  "example_entry = zero_Entry\<lparr>e_Protocol := ''http'', e_Status := ''error''\<rparr>"

lemma protocol_getter: "fieldGetter L ''protocol'' = Some e_Protocol"
  by (simp add: fieldGetter_switch to_lower_ascii is_ascii_def lower_byte_other)
     (simp add: getter_switch_rows)

lemma protocol_tracked: "(''protocol'', \<lparr>fc_get = e_Protocol, fc_counts = []\<rparr>) \<in> set (tracked_fields L)"
  using tracked_fieldsI [of "hd fieldCatalog" L e_Protocol] protocol_getter
  by (simp add: fieldCatalog_def)

lemma map_order_id: "map_order id"
  by (simp add: map_order_def)

theorem facet_counts_exact_witness:
  "\<exists>fc'. (''protocol'', fc') \<in> set (fx_fields (fold (observe id) [example_entry, example_entry] (newFacetIndex ascii_lib)))
     \<and> count_of (fc_counts fc') ''http'' = 2"
  using facet_counts_exact [OF map_order_id protocol_tracked [of ascii_lib], of "[example_entry, example_entry]"]
  by (force simp: example_entry_def facetTrackCap_def)

theorem facets_bounded_witness:
  "counts_ok (fx_requestHeaderNames (fold (observe id) [example_entry] (newFacetIndex ascii_lib)))"
  using facets_bounded [OF map_order_id, of _ "[example_entry]" ascii_lib] by blast

definition example_counter :: fieldCounter where
  "example_counter = \<lparr>fc_get = e_Protocol, fc_counts = [(''http'', 3), (''dns'', 5), (''HTTP2'', 4)]\<rparr>"

definition example_index :: facetIndex where
  "example_index = \<lparr>fx_fields = [(''protocol'', example_counter)], fx_ungated = [], fx_groups = [],
     fx_requestHeaderNames = [], fx_responseHeaderNames = []\<rparr>"

theorem facet_values_ranked_witness:
  "\<exists>out. facet_values ascii_lib example_index ''protocol'' [] 2 = Some out \<and> length out = 2
     \<and> sorted_wrt fieldValue_less out"
  using facet_values_ranked [of example_index "''protocol''" example_counter 2 _ "[]" ascii_lib, OF _ _ _ refl]
  by (force simp: example_index_def example_counter_def counts_ok_def facetTrackCap_def countsToFieldValues_def)

theorem catalog_fields_resolve_witness:
  "hd fieldCatalog \<in> set fieldCatalog \<and> (\<exists>g. fieldGetter ascii_lib (fs_Name (hd fieldCatalog)) = Some g)"
  using catalog_fields_resolve [of ascii_lib] by (simp add: fieldCatalog_def)

end
