(* ===== verification/Hub_Store.thy ===== *)
theory Hub_Store
  imports Hub_Facets
begin

text \<open>
  The hub's entry store, \<open>internal/hub/store.go\<close>: a ring buffer of the most recent entries
  with their JSON, an id index, a byte budget, lifetime counters and per-second rate buckets.

  \<open>add\<close> runs in three parts that other goroutines can interleave with: \<open>add_begin\<close> (the
  atomic sequence number and the marshalling), \<open>add_commit\<close> (everything under the lock) and
  \<open>add_observe\<close> (the facet index, under its own lock); \<open>store_add\<close> is their composition.
  The code compares entry pointers; the model compares the sequence numbers, which no two
  entries share.  \<open>json.Marshal\<close> is the parameter \<open>marshal\<close>, \<open>None\<close> for its failure.  Times are in
  nanoseconds; the lengths the code counts in \<open>int\<close> are \<open>nat\<close>.
\<close>

record rateBucket =
  rb_sec :: int
  rb_entries :: int
  rb_errors :: int
  rb_warnings :: int

definition rateWindowSeconds :: nat where "rateWindowSeconds = 300"
definition liveRateSeconds :: nat where "liveRateSeconds = 5"

record store =
  s_buf :: "Entry option list"
  s_capacity :: nat
  s_next :: nat
  s_live :: nat
  s_byteBudget :: int
  s_retainedBytes :: int
  s_raw :: "bytes option list"
  s_byID :: "string \<Rightarrow> Entry option"
  s_total :: int
  s_byProtocol :: "string \<Rightarrow> int option"
  s_byStatus :: "string \<Rightarrow> int option"
  s_rate :: "rateBucket list"
  s_facets :: facetIndex

definition zero_rateBucket :: rateBucket where
  "zero_rateBucket = \<lparr>rb_sec = 0, rb_entries = 0, rb_errors = 0, rb_warnings = 0\<rparr>"

definition newStore :: "golib \<Rightarrow> nat \<Rightarrow> int list \<Rightarrow> store" where
  "newStore L capacity budgets =
     \<lparr>s_buf = replicate capacity None, s_capacity = capacity, s_next = 0, s_live = 0,
      s_byteBudget = (case budgets of b # _ \<Rightarrow> if b > 0 then b else 64 * 2 ^ 20 | [] \<Rightarrow> 64 * 2 ^ 20),
      s_retainedBytes = 0, s_raw = replicate capacity None,
      s_byID = Map.empty, s_total = 0, s_byProtocol = Map.empty, s_byStatus = Map.empty,
      s_rate = replicate rateWindowSeconds zero_rateBucket, s_facets = newFacetIndex L\<rparr>"

subsection \<open>Adding an entry\<close>

definition raw_len :: "bytes option \<Rightarrow> int" where
  "raw_len r = (case r of None \<Rightarrow> 0 | Some b \<Rightarrow> int (length b))"

definition incr :: "string \<Rightarrow> (string \<Rightarrow> int option) \<Rightarrow> string \<Rightarrow> int option" where
  "incr k m = m(k \<mapsto> (case m k of None \<Rightarrow> 0 | Some n \<Rightarrow> n) + 1)"

definition unix_sec :: "time \<Rightarrow> int" where
  "unix_sec t = t div 10 ^ 9"

definition add_begin :: "(Entry \<Rightarrow> bytes option) \<Rightarrow> Entry \<Rightarrow> store \<Rightarrow> (Entry \<times> bytes option) \<times> store" where
  "add_begin marshal e s =
     (let e' = e\<lparr>e_Seq := s_total s + 1\<rparr>
      in ((e', marshal e'), s\<lparr>s_total := s_total s + 1\<rparr>))"

text \<open>\<open>delete(s.byID, old.ID)\<close> unless a later entry took the id over.\<close>

definition forget :: "Entry \<Rightarrow> (string \<Rightarrow> Entry option) \<Rightarrow> string \<Rightarrow> Entry option" where
  "forget old m = (if map_option e_Seq (m (e_ID old)) = Some (e_Seq old) then m(e_ID old := None) else m)"

definition bump_bucket :: "Entry \<Rightarrow> rateBucket \<Rightarrow> rateBucket" where
  "bump_bucket e b =
     (let b' = b\<lparr>rb_entries := rb_entries b + 1\<rparr>
      in if e_Status e = ''error'' then b'\<lparr>rb_errors := rb_errors b' + 1\<rparr>
         else if e_Status e = ''warning'' then b'\<lparr>rb_warnings := rb_warnings b' + 1\<rparr>
         else b')"

definition observeRate :: "Entry \<Rightarrow> time \<Rightarrow> store \<Rightarrow> store" where
  "observeRate e now s =
     (let nowSec = unix_sec now;
          sec = (if unix_sec (e_Timestamp e) > nowSec then nowSec else unix_sec (e_Timestamp e))
      in if nowSec - sec \<ge> int rateWindowSeconds then s
         else let i = nat (sec mod int rateWindowSeconds);
                  b = s_rate s ! i;
                  b' = (if rb_sec b \<noteq> sec then zero_rateBucket\<lparr>rb_sec := sec\<rparr> else b)
              in s\<lparr>s_rate := (s_rate s)[i := bump_bucket e b']\<rparr>)"

definition tally :: "Entry \<Rightarrow> time \<Rightarrow> store \<Rightarrow> store" where
  "tally e now s =
     observeRate e now
       (s\<lparr>s_byProtocol := incr (e_Protocol e) (s_byProtocol s),
          s_byStatus := (if e_Status e \<noteq> [] then incr (e_Status e) (s_byStatus s) else s_byStatus s)\<rparr>)"

definition write_slot :: "Entry \<Rightarrow> bytes option \<Rightarrow> store \<Rightarrow> store" where
  "write_slot e raw s =
     (let n = s_next s;
          s1 = (case s_buf s ! n of
                  Some old \<Rightarrow> s\<lparr>s_byID := forget old (s_byID s),
                                s_retainedBytes := s_retainedBytes s - raw_len (s_raw s ! n)\<rparr>
                | None \<Rightarrow> s\<lparr>s_live := s_live s + 1\<rparr>)
      in s1\<lparr>s_buf := (s_buf s1)[n := Some e], s_raw := (s_raw s1)[n := raw],
            s_retainedBytes := s_retainedBytes s1 + raw_len raw,
            s_byID := (s_byID s1)(e_ID e \<mapsto> e),
            s_next := (n + 1) mod s_capacity s1\<rparr>)"

definition evict_oldest :: "store \<Rightarrow> store" where
  "evict_oldest s =
     (let oldest = (s_next s + s_capacity s - s_live s) mod s_capacity s
      in s\<lparr>s_byID := (case s_buf s ! oldest of None \<Rightarrow> s_byID s | Some old \<Rightarrow> forget old (s_byID s)),
           s_retainedBytes := s_retainedBytes s - raw_len (s_raw s ! oldest),
           s_buf := (s_buf s)[oldest := None], s_raw := (s_raw s)[oldest := None],
           s_live := s_live s - 1\<rparr>)"

function evict_loop :: "store \<Rightarrow> store" where
  "evict_loop s =
     (if s_retainedBytes s > s_byteBudget s \<and> s_live s > 0 then evict_loop (evict_oldest s) else s)"
  by pat_completeness auto
termination
  by (relation "measure s_live") (simp_all add: evict_oldest_def Let_def)

declare evict_loop.simps [simp del]

definition add_commit :: "Entry \<Rightarrow> bytes option \<Rightarrow> time \<Rightarrow> store \<Rightarrow> store" where
  "add_commit e raw now s =
     (if raw_len raw > s_byteBudget s then tally e now s
      else tally e now (evict_loop (write_slot e raw s)))"

definition add_observe :: "(counts \<Rightarrow> counts) \<Rightarrow> Entry \<Rightarrow> store \<Rightarrow> store" where
  "add_observe iter e s = s\<lparr>s_facets := observe iter e (s_facets s)\<rparr>"

definition store_add ::
  "(Entry \<Rightarrow> bytes option) \<Rightarrow> (counts \<Rightarrow> counts) \<Rightarrow> time \<Rightarrow> Entry \<Rightarrow> store \<Rightarrow> bytes option \<times> store" where
  "store_add marshal iter now e s =
     (let ((e', raw), s1) = add_begin marshal e s
      in (raw, add_observe iter e' (add_commit e' raw now s1)))"

subsection \<open>Reading the ring\<close>

definition slot :: "store \<Rightarrow> nat \<Rightarrow> nat" where
  "slot s i = (s_next s + s_capacity s - 1 - i) mod s_capacity s"

definition snapshotEntries :: "store \<Rightarrow> int \<Rightarrow> Entry list" where
  "snapshotEntries s depth =
     (let n = nat (min depth (int (s_live s)))
      in List.map_filter (\<lambda>i. s_buf s ! slot s i) [0..<n])"

definition snapshotRaw :: "store \<Rightarrow> int \<Rightarrow> Entry list \<times> bytes list" where
  "snapshotRaw s depth =
     (let n = nat (min depth (int (s_live s)));
          pairs = List.map_filter (\<lambda>i. case (s_buf s ! slot s i, s_raw s ! slot s i) of
                       (Some e, Some r) \<Rightarrow> Some (e, r) | _ \<Rightarrow> None) [0..<n]
      in (map fst pairs, map snd pairs))"

type_synonym predicate = "(Entry \<Rightarrow> bool) option"

definition scanDepth :: "store \<Rightarrow> int \<Rightarrow> predicate \<Rightarrow> int" where
  "scanDepth s limit match = (case match of None \<Rightarrow> limit | Some _ \<Rightarrow> int (s_capacity s))"

text \<open>The loop of \<open>page\<close>: \<open>i\<close> is the index of the first entry left, \<open>out\<close> the indices found.\<close>

fun page_loop :: "Entry list \<Rightarrow> nat \<Rightarrow> bool \<Rightarrow> string \<Rightarrow> bool \<Rightarrow> int \<Rightarrow> int \<Rightarrow> predicate \<Rightarrow> nat list \<Rightarrow> nat list" where
  "page_loop [] i skipping anchorID useSeq beforeSeq limit match out = out"
| "page_loop (e # es) i skipping anchorID useSeq beforeSeq limit match out =
     (if skipping then page_loop es (i + 1) (e_ID e \<noteq> anchorID) anchorID useSeq beforeSeq limit match out
      else if useSeq \<and> e_Seq e \<ge> beforeSeq then
        page_loop es (i + 1) False anchorID useSeq beforeSeq limit match out
      else if (case match of None \<Rightarrow> False | Some p \<Rightarrow> \<not> p e) then
        page_loop es (i + 1) False anchorID useSeq beforeSeq limit match out
      else let out' = out @ [i] in
        if int (length out') \<ge> limit then out'
        else page_loop es (i + 1) False anchorID useSeq beforeSeq limit match out')"

definition page :: "Entry list \<Rightarrow> bool \<Rightarrow> string \<Rightarrow> bool \<Rightarrow> int \<Rightarrow> int \<Rightarrow> predicate \<Rightarrow> nat list" where
  "page entries useAnchor anchorID useSeq beforeSeq limit match =
     page_loop entries 0 useAnchor anchorID useSeq beforeSeq limit match []"

definition pick :: "'a list \<Rightarrow> nat list \<Rightarrow> 'a list" where
  "pick entries idx = map (\<lambda>j. entries ! j) idx"

definition recent :: "store \<Rightarrow> int \<Rightarrow> predicate \<Rightarrow> Entry list" where
  "recent s limit match =
     (let cand = snapshotEntries s (scanDepth s limit match)
      in if match = None then cand else pick cand (page cand False [] False 0 limit match))"

definition recentRaw :: "store \<Rightarrow> int \<Rightarrow> predicate \<Rightarrow> bytes list" where
  "recentRaw s limit match =
     (let (entries, raws) = snapshotRaw s (scanDepth s limit match)
      in if match = None then raws else pick raws (page entries False [] False 0 limit match))"

definition recentBefore :: "store \<Rightarrow> string \<Rightarrow> int \<Rightarrow> predicate \<Rightarrow> Entry list" where
  "recentBefore s beforeID limit match =
     (let cand = snapshotEntries s (int (s_capacity s))
      in pick cand (page cand True beforeID False 0 limit match))"

definition recentBeforeRaw :: "store \<Rightarrow> string \<Rightarrow> int \<Rightarrow> predicate \<Rightarrow> bytes list" where
  "recentBeforeRaw s beforeID limit match =
     (let (entries, raws) = snapshotRaw s (int (s_capacity s))
      in pick raws (page entries True beforeID False 0 limit match))"

definition recentBeforeSeq :: "store \<Rightarrow> int \<Rightarrow> int \<Rightarrow> predicate \<Rightarrow> Entry list" where
  "recentBeforeSeq s beforeSeq limit match =
     (let cand = snapshotEntries s (int (s_capacity s))
      in pick cand (page cand False [] True beforeSeq limit match))"

definition recentBeforeSeqRaw :: "store \<Rightarrow> int \<Rightarrow> int \<Rightarrow> predicate \<Rightarrow> bytes list" where
  "recentBeforeSeqRaw s beforeSeq limit match =
     (let (entries, raws) = snapshotRaw s (int (s_capacity s))
      in pick raws (page entries False [] True beforeSeq limit match))"

definition store_get :: "store \<Rightarrow> string \<Rightarrow> Entry option" where
  "store_get s entryID = s_byID s entryID"

definition store_size :: "store \<Rightarrow> nat" where
  "store_size s = s_live s"

subsection \<open>Aggregates\<close>

definition window_add :: "rateBucket \<Rightarrow> WindowStats \<Rightarrow> WindowStats" where
  "window_add b w = w\<lparr>win_Entries := win_Entries w + rb_entries b,
     win_Errors := win_Errors w + rb_errors b, win_Warnings := win_Warnings w + rb_warnings b\<rparr>"

definition zero_WindowStats :: WindowStats where
  "zero_WindowStats = \<lparr>win_Entries = 0, win_Errors = 0, win_Warnings = 0, win_EntriesPerSec = 0\<rparr>"

definition windows_step :: "int \<Rightarrow> rateBucket \<Rightarrow> int \<times> WindowStats \<times> WindowStats \<Rightarrow> int \<times> WindowStats \<times> WindowStats" where
  "windows_step nowSec b acc =
     (let (live, w1, w5) = acc; age = nowSec - rb_sec b
      in if age < 0 \<or> age \<ge> int rateWindowSeconds then acc
         else (if age < int liveRateSeconds then live + rb_entries b else live,
               if age < 60 then window_add b w1 else w1, window_add b w5))"

definition windows :: "store \<Rightarrow> time \<Rightarrow> rat \<times> WindowStats \<times> WindowStats" where
  "windows s now =
     (let (live, w1, w5) = fold (windows_step (unix_sec now)) (s_rate s) (0, zero_WindowStats, zero_WindowStats)
      in (of_int live / of_nat liveRateSeconds,
          w1\<lparr>win_EntriesPerSec := of_int (win_Entries w1) / 60\<rparr>,
          w5\<lparr>win_EntriesPerSec := of_int (win_Entries w5) / of_nat rateWindowSeconds\<rparr>))"

definition store_stats :: "store \<Rightarrow> time \<Rightarrow> int \<Rightarrow> Stats" where
  "store_stats s now workers =
     (let (perSec, w1, w5) = windows s now
      in \<lparr>st_TotalEntries = s_total s, st_EntriesPerSec = perSec, st_Workers = workers,
          st_ByProtocol = s_byProtocol s, st_ByStatus = s_byStatus s, st_BroadcastDropped = 0,
          st_Last1m = Some w1, st_Last5m = Some w5\<rparr>)"

subsection \<open>The ring and the history it holds\<close>

definition history :: "store \<Rightarrow> (Entry \<times> bytes option) list" where
  "history s = map (\<lambda>i. (the (s_buf s ! slot s i), s_raw s ! slot s i)) [0..<s_live s]"

abbreviation entries_of :: "store \<Rightarrow> Entry list" where
  "entries_of s \<equiv> map fst (history s)"

definition size_of :: "(Entry \<times> bytes option) list \<Rightarrow> int" where
  "size_of h = sum_list (map (raw_len \<circ> snd) h)"

definition newest_with :: "Entry list \<Rightarrow> string \<Rightarrow> Entry option" where
  "newest_with es i = find (\<lambda>e. e_ID e = i) es"

definition ring_ok :: "store \<Rightarrow> bool" where
  "ring_ok s \<longleftrightarrow> 0 < s_capacity s \<and> length (s_buf s) = s_capacity s
     \<and> length (s_raw s) = s_capacity s \<and> s_next s < s_capacity s \<and> s_live s \<le> s_capacity s
     \<and> (\<forall>i < s_capacity s. s_buf s ! slot s i = None \<longleftrightarrow> s_live s \<le> i)
     \<and> (\<forall>i < s_capacity s. s_live s \<le> i \<longrightarrow> s_raw s ! slot s i = None)
     \<and> s_retainedBytes s = size_of (history s)
     \<and> s_byID s = newest_with (entries_of s)
     \<and> distinct (map e_Seq (entries_of s))"

lemma slot_eq:
  assumes "s_next s < s_capacity s" "i < s_capacity s"
  shows "slot s i = (if i < s_next s then s_next s - 1 - i else s_next s + s_capacity s - 1 - i)"
proof (cases "i < s_next s")
  case True
  have "s_next s + s_capacity s - 1 - i = (s_next s - 1 - i) + s_capacity s" using True by simp
  then have "slot s i = (s_next s - 1 - i) mod s_capacity s" unfolding slot_def by simp
  then show ?thesis using True assms by simp
next
  case False
  then show ?thesis using assms by (simp add: slot_def)
qed

lemma slot_less: "s_next s < s_capacity s \<Longrightarrow> i < s_capacity s \<Longrightarrow> slot s i < s_capacity s"
  by (simp add: slot_def)

lemma slot_inj:
  "s_next s < s_capacity s \<Longrightarrow> i < s_capacity s \<Longrightarrow> j < s_capacity s \<Longrightarrow> slot s i = slot s j \<Longrightarrow> i = j"
  by (auto simp: slot_eq split: if_splits)

lemma slot_last: "s_next s < s_capacity s \<Longrightarrow> slot s (s_capacity s - 1) = s_next s"
  by (auto simp: slot_eq)

lemma slot_oldest:
  "s_next s < s_capacity s \<Longrightarrow> 0 < s_live s \<Longrightarrow> s_live s \<le> s_capacity s \<Longrightarrow>
   (s_next s + s_capacity s - s_live s) mod s_capacity s = slot s (s_live s - 1)"
  by (simp add: slot_def)

lemma slot_advance:
  assumes "s_next s < s_capacity s" "s_next t = (s_next s + 1) mod s_capacity s" "s_capacity t = s_capacity s"
  shows "slot t 0 = s_next s" "Suc i < s_capacity s \<Longrightarrow> slot t (Suc i) = slot s i"
proof -
  have nt: "s_next t < s_capacity t" "s_next t = (if s_next s + 1 = s_capacity s then 0 else s_next s + 1)"
    using assms by (auto simp: mod_less)
  note nt' = assms(1,3) nt
  show "slot t 0 = s_next s" using nt' by (cases "s_next s + 1 = s_capacity s") (simp_all add: slot_eq)
  assume "Suc i < s_capacity s"
  then show "slot t (Suc i) = slot s i"
    using nt' by (cases "s_next s + 1 = s_capacity s") (auto simp: slot_eq)
qed

lemma length_history [simp]: "length (history s) = s_live s"
  by (simp add: history_def)

lemma nth_history: "i < s_live s \<Longrightarrow> history s ! i = (the (s_buf s ! slot s i), s_raw s ! slot s i)"
  by (simp add: history_def)

lemma size_of_nonneg: "0 \<le> size_of h"
  by (auto simp: size_of_def raw_len_def intro!: sum_list_nonneg split: option.splits)

lemma size_of_simps [simp]:
  "size_of [] = 0" "size_of (x # h) = raw_len (snd x) + size_of h" "size_of (h @ g) = size_of h + size_of g"
  by (simp_all add: size_of_def)

lemma newest_with_append: "newest_with (xs @ ys) i =
    (case newest_with xs i of None \<Rightarrow> newest_with ys i | Some e \<Rightarrow> Some e)"
  by (induction xs) (auto simp: newest_with_def)

lemma newest_with_Cons: "newest_with (e # es) = (newest_with es)(e_ID e \<mapsto> e)"
  by (auto simp: newest_with_def fun_eq_iff)

lemma newest_with_snoc: "newest_with (es @ [old]) i =
    (case newest_with es i of None \<Rightarrow> if e_ID old = i then Some old else None | Some e \<Rightarrow> Some e)"
  by (simp add: newest_with_append newest_with_def [of "[old]"] split: option.split)

text \<open>Dropping the oldest entry from the id index.\<close>

lemma forget_oldest:
  assumes "distinct (map e_Seq (es @ [old]))"
  shows "forget old (newest_with (es @ [old])) = newest_with es"
proof (cases "newest_with es (e_ID old)")
  case None
  then show ?thesis by (auto simp: forget_def newest_with_snoc fun_eq_iff split: option.splits)
next
  case (Some e)
  then have "e \<in> set es" unfolding newest_with_def by (auto simp: find_Some_iff)
  then have "e_Seq e \<noteq> e_Seq old" using assms by (auto simp: image_iff)
  moreover have "newest_with (es @ [old]) = newest_with es"
    using Some by (auto simp: newest_with_snoc fun_eq_iff split: option.splits)
  ultimately show ?thesis using Some by (simp add: forget_def)
qed

lemma history_snoc:
  assumes "ring_ok s" "0 < s_live s"
  obtains old where "s_buf s ! slot s (s_live s - 1) = Some old"
    "history s = butlast (history s) @ [(old, s_raw s ! slot s (s_live s - 1))]"
proof -
  let ?o = "slot s (s_live s - 1)"
  have "s_live s - 1 < s_capacity s" using assms by (auto simp: ring_ok_def)
  then obtain old where old: "s_buf s ! ?o = Some old" using assms unfolding ring_ok_def by fastforce
  have ne: "history s \<noteq> []" using assms(2) by (metis length_history length_greater_0_conv)
  then have "last (history s) = (old, s_raw s ! ?o)"
    using assms(2) old by (simp add: last_conv_nth nth_history)
  then show ?thesis using that old append_butlast_last_id [OF ne] by metis
qed

lemma evict_oldest_ok:
  assumes "ring_ok s" "0 < s_live s"
  shows "ring_ok (evict_oldest s)" "history (evict_oldest s) = butlast (history s)"
proof -
  let ?o = "slot s (s_live s - 1)" and ?t = "evict_oldest s"
  note ok = assms(1) [unfolded ring_ok_def]
  have o: "(s_next s + s_capacity s - s_live s) mod s_capacity s = ?o"
    using ok assms(2) by (intro slot_oldest) auto
  have lt: "s_live s - 1 < s_capacity s" "?o < s_capacity s"
    using ok assms(2) slot_less by auto
  have same: "s_next ?t = s_next s" "s_capacity ?t = s_capacity s" "s_live ?t = s_live s - 1"
    by (simp_all add: evict_oldest_def Let_def)
  then have slots: "slot ?t i = slot s i" for i by (simp add: slot_def)
  have bufs: "s_buf ?t = (s_buf s)[?o := None]" "s_raw ?t = (s_raw s)[?o := None]"
    by (simp_all add: evict_oldest_def Let_def o)
  have other: "slot s i \<noteq> ?o" if "i < s_capacity s" "i \<noteq> s_live s - 1" for i
    using that slot_inj ok lt(1) by blast
  obtain old where old: "s_buf s ! ?o = Some old"
    and h: "history s = butlast (history s) @ [(old, s_raw s ! ?o)]"
    using history_snoc [OF assms] .
  show hist: "history ?t = butlast (history s)"
  proof (rule nth_equalityI)
    fix i assume "i < length (history ?t)"
    then have i: "i < s_live s - 1" by (simp add: same)
    then have "slot s i \<noteq> ?o" using other [of i] lt(1) by simp
    then show "history ?t ! i = butlast (history s) ! i"
      using i by (simp add: nth_history same slots bufs nth_butlast)
  qed (simp add: same)
  have es: "entries_of s = entries_of ?t @ [old]" unfolding hist by (subst h) simp
  have dist: "distinct (map e_Seq (entries_of ?t @ [old]))" using ok unfolding es by blast
  have byid: "s_byID ?t = newest_with (entries_of ?t)"
  proof -
    have "s_byID ?t = forget old (newest_with (entries_of s))"
      using old ok by (simp add: evict_oldest_def Let_def o)
    then show ?thesis using forget_oldest [OF dist] es by simp
  qed
  have ret: "s_retainedBytes ?t = size_of (history ?t)"
  proof -
    have "s_retainedBytes ?t = size_of (history s) - raw_len (s_raw s ! ?o)"
      using ok by (simp add: evict_oldest_def Let_def o)
    then show ?thesis by (subst (asm) h) (simp add: hist)
  qed
  have nb: "s_buf ?t ! slot s i = None \<longleftrightarrow> s_live s - 1 \<le> i" if "i < s_capacity s" for i
    using that ok other [OF that] lt by (cases "i = s_live s - 1") (auto simp: bufs nth_list_update)
  have nr: "s_live s - 1 \<le> i \<Longrightarrow> s_raw ?t ! slot s i = None" if "i < s_capacity s" for i
    using that ok other [OF that] lt by (cases "i = s_live s - 1") (auto simp: bufs nth_list_update)
  show "ring_ok ?t"
    unfolding ring_ok_def slots same using ok byid ret dist nb nr
    by (auto simp: bufs)
qed

lemma write_slot_ok:
  assumes "ring_ok s" "e_Seq e \<notin> e_Seq ` set (entries_of s)"
  shows "ring_ok (write_slot e raw s)"
    "history (write_slot e raw s) = take (s_capacity s) ((e, raw) # history s)"
proof -
  let ?t = "write_slot e raw s" and ?n = "s_next s" and ?c = "s_capacity s"
  note ok = assms(1) [unfolded ring_ok_def]
  have last: "slot s (?c - 1) = ?n" using ok by (intro slot_last) simp
  have full: "s_buf s ! ?n = None \<longleftrightarrow> s_live s < ?c"
  proof -
    have "0 < ?c" "s_buf s ! slot s (?c - 1) = None \<longleftrightarrow> s_live s \<le> ?c - 1" using ok by simp_all
    then show ?thesis unfolding last by linarith
  qed
  have same: "s_next ?t = (?n + 1) mod ?c" "s_capacity ?t = ?c"
    "s_buf ?t = (s_buf s)[?n := Some e]" "s_raw ?t = (s_raw s)[?n := raw]"
    by (simp_all add: write_slot_def Let_def split: option.splits)
  have live: "s_live ?t = min ?c (Suc (s_live s))"
    using full ok by (auto simp: write_slot_def Let_def split: option.splits)
  have adv: "slot ?t 0 = ?n" "\<And>i. Suc i < ?c \<Longrightarrow> slot ?t (Suc i) = slot s i"
    using slot_advance [of s ?t] same ok by auto
  have other: "?n \<noteq> slot s i" if "Suc i < ?c" for i
    using slot_inj [of s i "?c - 1"] that last ok by auto
  show hist: "history ?t = take ?c ((e, raw) # history s)"
  proof (rule nth_equalityI)
    fix i assume "i < length (history ?t)"
    then have i: "i < ?c" "i < Suc (s_live s)" by (simp_all add: live)
    then show "history ?t ! i = take ?c ((e, raw) # history s) ! i"
      using ok adv other live by (cases i) (auto simp: nth_history same)
  qed (simp add: live)
  have nb: "s_buf ?t ! slot ?t i = None \<longleftrightarrow> s_live ?t \<le> i" if "i < ?c" for i
    using that ok adv other by (cases i) (auto simp: same live)
  have nr: "s_live ?t \<le> i \<Longrightarrow> s_raw ?t ! slot ?t i = None" if "i < ?c" for i
    using that ok adv other by (cases i) (auto simp: same live)
  have idx: "s_retainedBytes ?t = size_of (history ?t) \<and> s_byID ?t = newest_with (entries_of ?t)
      \<and> distinct (map e_Seq (entries_of ?t))"
  proof (cases "s_live s < ?c")
    case True
    then have "history ?t = (e, raw) # history s" by (simp add: hist)
    then show ?thesis using True full ok assms(2)
      by (auto simp: write_slot_def Let_def newest_with_Cons split: option.splits)
  next
    case False
    then have lc: "s_live s = ?c" "0 < s_live s" using ok by auto
    obtain old where old: "s_buf s ! ?n = Some old"
      and h: "history s = butlast (history s) @ [(old, s_raw s ! ?n)]"
      using history_snoc [OF assms(1) lc(2)] last lc(1) by metis
    have ht: "history ?t = (e, raw) # butlast (history s)"
      using hist lc by (simp add: butlast_conv_take take_Cons')
    have "entries_of s = map fst (butlast (history s)) @ [old]" by (subst h) simp
    moreover note forget_oldest [of "map fst (butlast (history s))" old]
    moreover have "size_of (history s) = size_of (butlast (history s)) + raw_len (s_raw s ! ?n)"
      by (subst h) simp
    ultimately show ?thesis using old ok assms(2) ht
      by (simp add: write_slot_def Let_def newest_with_Cons image_image)
  qed
  show "ring_ok ?t"
    unfolding ring_ok_def using ok nb nr idx live by (simp add: same)
qed

subsection \<open>The byte budget\<close>

text \<open>The longest part of a newest-first history, from its newest end, that fits a budget.\<close>

fun fitting :: "int \<Rightarrow> (Entry \<times> bytes option) list \<Rightarrow> (Entry \<times> bytes option) list" where
  "fitting b [] = []"
| "fitting b (x # h) = (if raw_len (snd x) > b then [] else x # fitting (b - raw_len (snd x)) h)"

lemma fitting_all: "size_of h \<le> b \<Longrightarrow> fitting b h = h"
proof (induction h arbitrary: b)
  case (Cons x h)
  then show ?case using size_of_nonneg [of h] by simp
qed simp

lemma fitting_butlast: "size_of h > b \<Longrightarrow> h \<noteq> [] \<Longrightarrow> fitting b (butlast h) = fitting b h"
proof (induction h arbitrary: b)
  case (Cons x h)
  then show ?case by (cases "h = []") auto
qed simp

lemma size_fitting: "0 \<le> b \<Longrightarrow> size_of (fitting b h) \<le> b"
proof (induction h arbitrary: b)
  case (Cons x h)
  have "raw_len (snd x) \<le> b \<Longrightarrow> size_of (fitting (b - raw_len (snd x)) h) \<le> b - raw_len (snd x)"
    by (rule Cons.IH) simp
  then show ?case using Cons.prems by (cases "raw_len (snd x) > b") simp_all
qed simp

lemma fitting_prefix: "prefix (fitting b h) h"
  by (induction b h rule: fitting.induct) auto

lemma evict_loop_ok:
  "ring_ok s \<Longrightarrow> ring_ok (evict_loop s) \<and> history (evict_loop s) = fitting (s_byteBudget s) (history s)"
proof (induction s rule: evict_loop.induct)
  case (1 s)
  show ?case
  proof (cases "s_retainedBytes s > s_byteBudget s \<and> s_live s > 0")
    case True
    note ev = evict_oldest_ok [OF "1.prems"] True
    have "s_byteBudget (evict_oldest s) = s_byteBudget s" by (simp add: evict_oldest_def Let_def)
    moreover have "history s \<noteq> []" using True by (metis length_history length_greater_0_conv)
    moreover have "size_of (history s) > s_byteBudget s" using True "1.prems" by (simp add: ring_ok_def)
    ultimately show ?thesis
      using "1.IH" True ev by (simp add: evict_loop.simps [of s] fitting_butlast)
  next
    case False
    then have "size_of (history s) \<le> s_byteBudget s \<or> history s = []"
      using "1.prems" by (auto simp: ring_ok_def simp flip: length_0_conv)
    then show ?thesis using "1.prems" False
      by (subst (1 2) evict_loop.simps) (auto simp: fitting_all)
  qed
qed

lemma evict_loop_frame:
  "s_capacity (evict_loop s) = s_capacity s \<and> s_byteBudget (evict_loop s) = s_byteBudget s
   \<and> s_total (evict_loop s) = s_total s \<and> s_byProtocol (evict_loop s) = s_byProtocol s
   \<and> s_byStatus (evict_loop s) = s_byStatus s \<and> s_rate (evict_loop s) = s_rate s
   \<and> s_facets (evict_loop s) = s_facets s"
proof (induction s rule: evict_loop.induct)
  case (1 s)
  then show ?case by (subst (1 2 3 4 5 6 7) evict_loop.simps) (simp add: evict_oldest_def Let_def)
qed

lemma write_slot_frame:
  "s_capacity (write_slot e raw s) = s_capacity s" "s_byteBudget (write_slot e raw s) = s_byteBudget s"
  "s_total (write_slot e raw s) = s_total s" "s_byProtocol (write_slot e raw s) = s_byProtocol s"
  "s_byStatus (write_slot e raw s) = s_byStatus s" "s_rate (write_slot e raw s) = s_rate s"
  "s_facets (write_slot e raw s) = s_facets s"
  by (simp_all add: write_slot_def Let_def split: option.splits)

lemma observeRate_frame:
  "s_buf (observeRate e now s) = s_buf s" "s_raw (observeRate e now s) = s_raw s"
  "s_capacity (observeRate e now s) = s_capacity s" "s_next (observeRate e now s) = s_next s"
  "s_live (observeRate e now s) = s_live s" "s_byteBudget (observeRate e now s) = s_byteBudget s"
  "s_retainedBytes (observeRate e now s) = s_retainedBytes s" "s_byID (observeRate e now s) = s_byID s"
  "s_total (observeRate e now s) = s_total s" "s_byProtocol (observeRate e now s) = s_byProtocol s"
  "s_byStatus (observeRate e now s) = s_byStatus s" "s_facets (observeRate e now s) = s_facets s"
  by (simp_all add: observeRate_def Let_def)

lemma ring_frame:
  assumes "s_buf t = s_buf s" "s_raw t = s_raw s" "s_capacity t = s_capacity s" "s_next t = s_next s"
    "s_live t = s_live s" "s_retainedBytes t = s_retainedBytes s" "s_byID t = s_byID s"
  shows "ring_ok t = ring_ok s" "history t = history s"
proof -
  have "slot t = slot s" by (simp add: fun_eq_iff slot_def assms)
  moreover then show "history t = history s" by (simp add: history_def assms)
  ultimately show "ring_ok t = ring_ok s" by (simp add: ring_ok_def assms)
qed

lemma tally_ring: "ring_ok (tally e now s) = ring_ok s" "history (tally e now s) = history s"
  by (rule ring_frame; simp add: tally_def observeRate_frame)+

lemma tally_frame:
  "s_capacity (tally e now s) = s_capacity s" "s_byteBudget (tally e now s) = s_byteBudget s"
  "s_total (tally e now s) = s_total s" "s_facets (tally e now s) = s_facets s"
  by (simp_all add: tally_def observeRate_frame)

text \<open>What \<open>add\<close> promises: the history grows at its newest end, is cut to the capacity and
  to the byte budget at its oldest end, and an entry over the whole budget is not retained.\<close>

definition remember :: "nat \<Rightarrow> int \<Rightarrow> Entry \<Rightarrow> bytes option \<Rightarrow> (Entry \<times> bytes option) list \<Rightarrow> (Entry \<times> bytes option) list" where
  "remember cap budget e raw h =
     (if raw_len raw > budget then h else fitting budget (take cap ((e, raw) # h)))"

lemma add_commit_ok:
  assumes "ring_ok s" "e_Seq e \<notin> e_Seq ` set (entries_of s)"
  shows "ring_ok (add_commit e raw now s)"
    "history (add_commit e raw now s) = remember (s_capacity s) (s_byteBudget s) e raw (history s)"
  using write_slot_ok [OF assms, of raw] evict_loop_ok [of "write_slot e raw s"] assms(1)
  by (auto simp: add_commit_def remember_def tally_ring write_slot_frame)

lemma add_commit_frame:
  "s_capacity (add_commit e raw now s) = s_capacity s"
  "s_byteBudget (add_commit e raw now s) = s_byteBudget s"
  "s_total (add_commit e raw now s) = s_total s" "s_facets (add_commit e raw now s) = s_facets s"
  by (simp_all add: add_commit_def tally_frame write_slot_frame evict_loop_frame)

subsection \<open>Queries over the history\<close>

lemma map_filter_all: "(\<And>x. x \<in> set xs \<Longrightarrow> f x = Some (g x)) \<Longrightarrow> List.map_filter f xs = map g xs"
  by (induction xs) (simp_all add: List.map_filter_simps)

lemma slot_live: "ring_ok s \<Longrightarrow> i < s_live s \<Longrightarrow> s_buf s ! slot s i = Some (fst (history s ! i)) \<and> s_raw s ! slot s i = snd (history s ! i)"
proof -
  assume a: "ring_ok s" "i < s_live s"
  then have "s_buf s ! slot s i \<noteq> None" by (auto simp: ring_ok_def)
  then show ?thesis using a by (auto simp: nth_history)
qed

lemma snapshotEntries_eq:
  assumes "ring_ok s"
  shows "snapshotEntries s depth = take (nat depth) (entries_of s)"
proof -
  let ?n = "nat (min depth (int (s_live s)))"
  have "snapshotEntries s depth = map (\<lambda>i. fst (history s ! i)) [0..<?n]"
    unfolding snapshotEntries_def Let_def by (rule map_filter_all) (use assms slot_live in auto)
  also have "\<dots> = take ?n (entries_of s)"
    by (rule nth_equalityI) auto
  also have "\<dots> = take (nat depth) (entries_of s)"
    by (cases "depth \<le> int (s_live s)") (auto simp: min_def)
  finally show ?thesis .
qed

lemma map_filter_cong: "(\<And>x. x \<in> set xs \<Longrightarrow> f x = g x) \<Longrightarrow> List.map_filter f xs = List.map_filter g xs"
  by (induction xs) (simp_all add: List.map_filter_simps split: option.split)

text \<open>The entries that have their JSON, as \<open>snapshotRaw\<close> pairs them.\<close>

definition with_raw :: "(Entry \<times> bytes option) list \<Rightarrow> (Entry \<times> bytes) list" where
  "with_raw h = List.map_filter (\<lambda>(e, r). map_option (Pair e) r) h"

lemma snapshotRaw_eq:
  assumes "ring_ok s"
  shows "snapshotRaw s depth = (let p = with_raw (take (nat depth) (history s)) in (map fst p, map snd p))"
proof -
  let ?n = "nat (min depth (int (s_live s)))"
  let ?f = "\<lambda>(e, r). map_option (Pair e) r"
  have hist: "(case (s_buf s ! slot s i, s_raw s ! slot s i) of (Some e, Some r) \<Rightarrow> Some (e, r) | _ \<Rightarrow> None)
      = ?f (history s ! i)" if "i \<in> set [0..<?n]" for i
    using that slot_live [OF assms, of i] by (auto simp: case_prod_unfold split: option.splits)
  have "List.map_filter (\<lambda>i. case (s_buf s ! slot s i, s_raw s ! slot s i) of
          (Some e, Some r) \<Rightarrow> Some (e, r) | _ \<Rightarrow> None) [0..<?n]
      = List.map_filter (?f \<circ> (!) (history s)) [0..<?n]"
    by (rule map_filter_cong) (use hist in auto)
  also have "\<dots> = with_raw (map ((!) (history s)) [0..<?n])"
    by (simp add: with_raw_def List.map_filter_def filter_map comp_def)
  also have "map ((!) (history s)) [0..<?n] = take (nat depth) (history s)"
    by (rule nth_equalityI) (auto simp: min_def split: if_splits)
  finally show ?thesis by (simp add: snapshotRaw_def Let_def)
qed

text \<open>What a page holds: the first \<open>limit\<close> elements, behind the anchor where there is one, that
  are older than the sequence cursor where there is one and satisfy the predicate.\<close>

definition wanted :: "bool \<Rightarrow> int \<Rightarrow> predicate \<Rightarrow> Entry \<Rightarrow> bool" where
  "wanted useSeq beforeSeq match e \<longleftrightarrow>
     (useSeq \<longrightarrow> e_Seq e < beforeSeq) \<and> (case match of None \<Rightarrow> True | Some p \<Rightarrow> p e)"

definition behind :: "('x \<Rightarrow> Entry) \<Rightarrow> bool \<Rightarrow> string \<Rightarrow> 'x list \<Rightarrow> 'x list" where
  "behind g useAnchor anchorID xs =
     (if useAnchor then tl (dropWhile (\<lambda>x. e_ID (g x) \<noteq> anchorID) xs) else xs)"

lemma behind_Cons: "behind g sk a (x # xs) = (if sk then behind g (e_ID (g x) \<noteq> a) a xs else x # xs)"
  by (simp add: behind_def)

lemma pick_page_loop:
  "int (length out) < limit \<Longrightarrow>
   pick (pre @ xs) (page_loop (map g xs) (length pre) sk a us bs limit match out)
     = pick (pre @ xs) out
       @ take (nat limit - length out) (filter (wanted us bs match \<circ> g) (behind g sk a xs))"
proof (induction xs arbitrary: pre sk out)
  case Nil
  then show ?case by (simp add: behind_def)
next
  case (Cons x xs)
  note IH = Cons.IH [of _ "pre @ [x]", simplified]
  show ?case
  proof (cases sk)
    case True
    then show ?thesis using IH [OF Cons.prems] by (simp add: behind_Cons)
  next
    case False
    have b: "behind g False a ys = ys" for ys by (simp add: behind_def)
    show ?thesis
    proof (cases "wanted us bs match (g x)")
      case w: True
      then have nw: "\<not> (us \<and> bs \<le> e_Seq (g x))" "\<not> (case match of None \<Rightarrow> False | Some p \<Rightarrow> \<not> p (g x))"
        by (auto simp: wanted_def split: option.splits)
      show ?thesis
      proof (cases "int (length (out @ [length pre])) \<ge> limit")
        case True
        then have "nat limit - length out = 1" using Cons.prems by simp
        then show ?thesis using False w nw True by (auto simp: b pick_def)
      next
        case more: False
        then obtain k where k: "nat limit - length out = Suc k" "k = nat limit - Suc (length out)"
          using Cons.prems by (metis Suc_diff_Suc zless_nat_eq_int_zless)
        then show ?thesis using False w nw more IH [of "out @ [length pre]" False]
          by (auto simp: b pick_def)
      qed
    next
      case nw: False
      then have "(us \<and> bs \<le> e_Seq (g x)) \<or> (case match of None \<Rightarrow> False | Some p \<Rightarrow> \<not> p (g x))"
        by (auto simp: wanted_def split: option.splits)
      then show ?thesis using False nw IH [OF Cons.prems, of False] by (auto simp: b)
    qed
  qed
qed

lemma pick_page:
  "0 < limit \<Longrightarrow> pick xs (page (map g xs) ua a us bs limit match)
     = take (nat limit) (filter (wanted us bs match \<circ> g) (behind g ua a xs))"
  using pick_page_loop [of "[]" limit "[]" xs g ua a us bs match] by (simp add: page_def pick_def)

lemma page_loop_less:
  "j \<in> set (page_loop es i sk a us bs limit match out) \<Longrightarrow> j < i + length es \<or> j \<in> set out"
proof (induction es i sk a us bs limit match out rule: page_loop.induct)
  case (2 e es i sk a us bs limit match out)
  then show ?case by (auto simp: Let_def split: if_splits)
qed simp

lemma pick_page_map:
  assumes "0 < limit"
  shows "pick (map f xs) (page (map g xs) ua a us bs limit match)
     = map f (take (nat limit) (filter (wanted us bs match \<circ> g) (behind g ua a xs)))"
proof -
  have "\<forall>j \<in> set (page (map g xs) ua a us bs limit match). j < length xs"
    using page_loop_less [of _ "map g xs" 0 ua a us bs limit match "[]"] by (auto simp: page_def)
  then have "pick (map f xs) (page (map g xs) ua a us bs limit match)
      = map f (pick xs (page (map g xs) ua a us bs limit match))" by (simp add: pick_def)
  then show ?thesis by (simp add: pick_page [OF assms])
qed

lemma live_le_capacity: "ring_ok s \<Longrightarrow> length (history s) \<le> s_capacity s"
  by (simp add: ring_ok_def)

lemma recentBeforeSeq_eq:
  "ring_ok s \<Longrightarrow> 0 < limit \<Longrightarrow> recentBeforeSeq s q limit match
     = take (nat limit) (filter (wanted True q match) (entries_of s))"
  using pick_page [of limit "entries_of s" id False "[]" True q match] live_le_capacity [of s]
  by (simp add: recentBeforeSeq_def snapshotEntries_eq behind_def Let_def)

lemma recentBeforeSeqRaw_eq:
  "ring_ok s \<Longrightarrow> 0 < limit \<Longrightarrow> recentBeforeSeqRaw s q limit match
     = map snd (take (nat limit) (filter (wanted True q match \<circ> fst) (with_raw (history s))))"
  using pick_page_map [of limit snd "with_raw (history s)" fst False "[]" True q match] live_le_capacity [of s]
  by (simp add: recentBeforeSeqRaw_def snapshotRaw_eq behind_def Let_def)

lemma recentBefore_eq:
  "ring_ok s \<Longrightarrow> 0 < limit \<Longrightarrow> recentBefore s i limit match
     = take (nat limit) (filter (wanted False 0 match) (behind id True i (entries_of s)))"
  using pick_page [of limit "entries_of s" id True i False 0 match] live_le_capacity [of s]
  by (simp add: recentBefore_def snapshotEntries_eq Let_def)

lemma recentBeforeRaw_eq:
  "ring_ok s \<Longrightarrow> 0 < limit \<Longrightarrow> recentBeforeRaw s i limit match
     = map snd (take (nat limit) (filter (wanted False 0 match \<circ> fst) (behind fst True i (with_raw (history s)))))"
  using pick_page_map [of limit snd "with_raw (history s)" fst True i False 0 match] live_le_capacity [of s]
  by (simp add: recentBeforeRaw_def snapshotRaw_eq Let_def)

lemma wanted_any: "wanted False 0 None = (\<lambda>_. True)"
  by (simp add: wanted_def fun_eq_iff)

lemma recent_eq:
  assumes "ring_ok s" "0 < limit"
  shows "recent s limit match = take (nat limit) (filter (wanted False 0 match) (entries_of s))"
proof (cases match)
  case None
  then show ?thesis using assms by (simp add: recent_def scanDepth_def snapshotEntries_eq wanted_any)
next
  case (Some p)
  then show ?thesis
    using pick_page [of limit "entries_of s" id False "[]" False 0 match] live_le_capacity [of s] assms
    by (simp add: recent_def scanDepth_def snapshotEntries_eq behind_def Let_def)
qed

subsection \<open>Concurrent ingest\<close>

text \<open>The store with the adds under way: those that have their sequence number and JSON but not
  yet the lock, each with the time it sampled, and those that left the lock but have not yet
  updated the facet index.  Any of them may take its next step at any time.\<close>

record ingest =
  in_store :: store
  in_marshalled :: "(Entry \<times> bytes option \<times> time) list"
  in_committed :: "Entry list"

inductive ingest_step :: "(Entry \<Rightarrow> bytes option) \<Rightarrow> (counts \<Rightarrow> counts) \<Rightarrow> ingest \<Rightarrow> ingest \<Rightarrow> bool"
  for marshal :: "Entry \<Rightarrow> bytes option" and iter :: "counts \<Rightarrow> counts" where
  begin_step: "add_begin marshal e (in_store h) = ((e', raw), s') \<Longrightarrow>
     ingest_step marshal iter h
       (h\<lparr>in_store := s', in_marshalled := in_marshalled h @ [(e', raw, now)]\<rparr>)"
| commit_step: "in_marshalled h = xs @ (e, raw, now) # ys \<Longrightarrow>
     ingest_step marshal iter h
       (h\<lparr>in_store := add_commit e raw now (in_store h), in_marshalled := xs @ ys,
          in_committed := in_committed h @ [e]\<rparr>)"
| observe_step: "in_committed h = xs @ e # ys \<Longrightarrow>
     ingest_step marshal iter h
       (h\<lparr>in_store := add_observe iter e (in_store h), in_committed := xs @ ys\<rparr>)"

inductive_cases ingest_stepE: "ingest_step marshal iter h h'"

definition ingest_start :: "golib \<Rightarrow> nat \<Rightarrow> int list \<Rightarrow> ingest" where
  "ingest_start L capacity budgets =
     \<lparr>in_store = newStore L capacity budgets, in_marshalled = [], in_committed = []\<rparr>"

inductive reachable :: "golib \<Rightarrow> nat \<Rightarrow> int list \<Rightarrow> (Entry \<Rightarrow> bytes option) \<Rightarrow> (counts \<Rightarrow> counts) \<Rightarrow> ingest \<Rightarrow> bool"
  for L :: golib and capacity :: nat and budgets :: "int list"
    and marshal :: "Entry \<Rightarrow> bytes option" and iter :: "counts \<Rightarrow> counts" where
  reach_start: "reachable L capacity budgets marshal iter (ingest_start L capacity budgets)"
| reach_step: "reachable L capacity budgets marshal iter h \<Longrightarrow> ingest_step marshal iter h h' \<Longrightarrow>
     reachable L capacity budgets marshal iter h'"

definition map_sum :: "(string \<Rightarrow> int option) \<Rightarrow> int" where
  "map_sum m = (\<Sum>k \<in> dom m. the (m k))"

definition store_ok :: "store \<Rightarrow> bool" where
  "store_ok s \<longleftrightarrow> ring_ok s \<and> 0 < s_byteBudget s \<and> s_retainedBytes s \<le> s_byteBudget s
     \<and> length (s_rate s) = rateWindowSeconds"

definition ingest_ok :: "ingest \<Rightarrow> bool" where
  "ingest_ok h \<longleftrightarrow>
     (let s = in_store h; waiting = map fst (in_marshalled h) in
      store_ok s \<and> distinct (map e_Seq (entries_of s @ waiting))
      \<and> (\<forall>e \<in> set (entries_of s @ waiting). 1 \<le> e_Seq e \<and> e_Seq e \<le> s_total s)
      \<and> 0 \<le> s_total s \<and> finite (dom (s_byProtocol s))
      \<and> map_sum (s_byProtocol s) + int (length (in_marshalled h)) = s_total s)"

lemma map_sum_incr:
  assumes "finite (dom m)"
  shows "finite (dom (incr k m)) \<and> map_sum (incr k m) = map_sum m + 1"
proof -
  have rest: "(\<Sum>j \<in> dom m - {k}. the (incr k m j)) = (\<Sum>j \<in> dom m - {k}. the (m j))"
    by (rule sum.cong) (auto simp: incr_def)
  have "map_sum (incr k m) = the (incr k m k) + (\<Sum>j \<in> dom m - {k}. the (incr k m j))"
    unfolding map_sum_def using assms by (subst sum.insert_remove [symmetric]) (auto simp: incr_def)
  also have "\<dots> = map_sum m + 1"
    unfolding rest using assms
    by (cases "m k") (auto simp: incr_def map_sum_def sum.remove [of "dom m" k] domIff)
  finally show ?thesis using assms by (simp add: incr_def)
qed

lemma history_newStore: "history (newStore L c b) = []"
  by (simp add: history_def newStore_def)

lemma ring_ok_newStore: "0 < c \<Longrightarrow> ring_ok (newStore L c b)"
  by (auto simp: ring_ok_def history_newStore newest_with_def fun_eq_iff)
     (auto simp: newStore_def slot_def)

lemma store_ok_newStore [inv_intros]: "0 < c \<Longrightarrow> store_ok (newStore L c b)"
  by (auto simp: store_ok_def ring_ok_newStore) (auto simp: newStore_def split: list.splits)

lemma ingest_ok_start [inv_intros]: "0 < c \<Longrightarrow> ingest_ok (ingest_start L c b)"
  by (auto simp: ingest_ok_def Let_def ingest_start_def history_newStore intro: inv_intros)
     (auto simp: newStore_def map_sum_def)

lemma remember_subset: "set (remember c b e raw h) \<subseteq> insert (e, raw) (set h)"
proof (cases "raw_len raw > b")
  case False
  have "set (fitting b (take c ((e, raw) # h))) \<subseteq> set (take c ((e, raw) # h))"
    using fitting_prefix by (rule set_mono_prefix)
  also have "\<dots> \<subseteq> insert (e, raw) (set h)" using set_take_subset [of c "(e, raw) # h"] by simp
  finally show ?thesis using False by (simp add: remember_def)
qed (auto simp: remember_def)

lemma distinct_remember:
  assumes "distinct (map f (e # map fst h @ ys))"
  shows "distinct (map f (map fst (remember c b e raw h) @ ys))"
proof -
  obtain zs where "take c ((e, raw) # h) = fitting b (take c ((e, raw) # h)) @ zs"
    using fitting_prefix by (metis prefixE)
  then obtain ws where split: "(e, raw) # h = fitting b (take c ((e, raw) # h)) @ ws"
    by (metis append.assoc append_take_drop_id)
  have "distinct (map f (map fst ((e, raw) # h) @ ys))" using assms by simp
  then have "distinct (map f (map fst (fitting b (take c ((e, raw) # h))) @ ys))"
    by (subst (asm) split) auto
  then show ?thesis using assms by (auto simp: remember_def)
qed

lemma store_ok_commit [inv_intros]:
  assumes "store_ok s" "e_Seq e \<notin> e_Seq ` set (entries_of s)"
  shows "store_ok (add_commit e raw now s)"
proof -
  have ok: "ring_ok s" "0 < s_byteBudget s" "size_of (history s) \<le> s_byteBudget s"
    using assms(1) by (auto simp: store_ok_def ring_ok_def)
  note c = add_commit_ok [OF ok(1) assms(2), of raw now]
  have "size_of (history (add_commit e raw now s)) \<le> s_byteBudget s"
    unfolding c(2) remember_def using ok size_fitting by simp
  moreover have "length (s_rate (add_commit e raw now s)) = length (s_rate s)"
    by (simp add: add_commit_def tally_def observeRate_def Let_def write_slot_frame evict_loop_frame)
  ultimately show ?thesis using assms(1) c(1) by (simp add: store_ok_def ring_ok_def add_commit_frame)
qed

lemma tally_counts: "s_byProtocol (add_commit e raw now s) = incr (e_Protocol e) (s_byProtocol s)"
  by (simp add: add_commit_def tally_def observeRate_frame evict_loop_frame write_slot_frame)

lemma add_observe_frame: "ring_ok (add_observe iter e s) = ring_ok s" "history (add_observe iter e s) = history s"
  by (rule ring_frame; simp add: add_observe_def)+

lemma add_observe_rest:
  "s_total (add_observe iter e s) = s_total s" "s_byteBudget (add_observe iter e s) = s_byteBudget s"
  "s_retainedBytes (add_observe iter e s) = s_retainedBytes s" "s_rate (add_observe iter e s) = s_rate s"
  "s_byProtocol (add_observe iter e s) = s_byProtocol s"
  by (simp_all add: add_observe_def)

lemma add_begin_frame:
  "ring_ok (s\<lparr>s_total := n\<rparr>) = ring_ok s" "history (s\<lparr>s_total := n\<rparr>) = history s"
  by (rule ring_frame; simp)+

lemma ingest_ok_step [inv_intros]:
  assumes "ingest_step marshal iter h h'" "ingest_ok h"
  shows "ingest_ok h'"
  using assms(1)
proof (cases rule: ingest_step.cases)
  case (begin_step e e' raw s' now)
  then have s': "s' = (in_store h)\<lparr>s_total := s_total (in_store h) + 1\<rparr>"
    and seq: "e_Seq e' = s_total (in_store h) + 1"
    by (auto simp: add_begin_def Let_def)
  let ?es = "entries_of (in_store h) @ map fst (in_marshalled h)"
  have old: "\<forall>x \<in> set ?es. 1 \<le> e_Seq x \<and> e_Seq x \<le> s_total (in_store h)" "distinct (map e_Seq ?es)"
    using assms(2) by (auto simp: ingest_ok_def Let_def)
  have pos: "0 \<le> s_total (in_store h)" using assms(2) by (simp add: ingest_ok_def Let_def)
  have "\<forall>x \<in> set (?es @ [e']). 1 \<le> e_Seq x \<and> e_Seq x \<le> s_total s'"
  proof
    fix x assume "x \<in> set (?es @ [e'])"
    then have "x \<in> set ?es \<or> x = e'" by auto
    then show "1 \<le> e_Seq x \<and> e_Seq x \<le> s_total s'" using old(1) seq pos s' by fastforce
  qed
  moreover have "e_Seq e' \<notin> e_Seq ` set ?es" using old(1) seq by force
  then have "distinct (map e_Seq (?es @ [e']))" using old(2) by (simp add: image_Un image_image)
  ultimately show ?thesis using assms(2) begin_step(1)
    by (simp add: ingest_ok_def Let_def store_ok_def add_begin_frame s')
next
  case (commit_step xs e raw now ys)
  let ?s = "in_store h"
  have ok: "store_ok ?s" using assms(2) by (simp add: ingest_ok_def Let_def)
  have "mset (map e_Seq (e # entries_of ?s @ map fst (xs @ ys)))
      = mset (map e_Seq (entries_of ?s @ map fst (in_marshalled h)))"
    by (simp add: commit_step(2))
  then have dist: "distinct (map e_Seq (e # entries_of ?s @ map fst (xs @ ys)))"
    using assms(2) mset_eq_imp_distinct_iff unfolding ingest_ok_def Let_def by blast
  have ring: "ring_ok ?s" using ok by (simp add: store_ok_def)
  have fresh: "e_Seq e \<notin> e_Seq ` set (entries_of ?s)" using dist by (simp add: image_Un image_image)
  note c = add_commit_ok [OF ring fresh, of raw now]
  have "distinct (map e_Seq (entries_of (add_commit e raw now ?s) @ map fst (xs @ ys)))"
    unfolding c(2) by (rule distinct_remember [OF dist])
  moreover have "\<forall>x \<in> set (entries_of (add_commit e raw now ?s)). 1 \<le> e_Seq x \<and> e_Seq x \<le> s_total ?s"
  proof -
    have "fst ` set (history (add_commit e raw now ?s)) \<subseteq> fst ` insert (e, raw) (set (history ?s))"
      unfolding c(2) by (rule image_mono [OF remember_subset])
    then have "set (entries_of (add_commit e raw now ?s)) \<subseteq> set (entries_of ?s @ map fst (in_marshalled h))"
      by (auto simp: commit_step(2))
    then show ?thesis using assms(2) unfolding ingest_ok_def Let_def by blast
  qed
  ultimately show ?thesis
    using assms(2) commit_step map_sum_incr store_ok_commit [OF ok fresh]
    by (auto simp: ingest_ok_def Let_def add_commit_frame tally_counts)
next
  case (observe_step xs e ys)
  then show ?thesis using assms(2)
    by (simp add: ingest_ok_def Let_def store_ok_def add_observe_frame add_observe_rest)
qed

lemma reachable_ok: "reachable L c b marshal iter h \<Longrightarrow> 0 < c \<Longrightarrow> ingest_ok h"
  by (induction rule: reachable.induct) (auto intro: inv_intros)

subsection \<open>Paging\<close>

text \<open>How a client reads the whole log: it asks for the page before a cursor and continues from
  the last entry of the page, until a page comes back empty.\<close>

fun walk :: "nat \<Rightarrow> (int \<Rightarrow> Entry list) \<Rightarrow> int \<Rightarrow> Entry list" where
  "walk 0 older q = []"
| "walk (Suc n) older q =
     (case older q of [] \<Rightarrow> [] | p # ps \<Rightarrow> (p # ps) @ walk n older (e_Seq (last (p # ps))))"

locale seq_log =
  fixes log :: "'s \<Rightarrow> Entry list" and ok :: "'s \<Rightarrow> bool" and older :: "'s \<Rightarrow> int \<Rightarrow> int \<Rightarrow> Entry list"
  assumes older_page: "ok s \<Longrightarrow> 0 < limit \<Longrightarrow> older s q limit = take (nat limit) (filter (\<lambda>e. e_Seq e < q) (log s))"
    and newest_first: "ok s \<Longrightarrow> sorted_wrt (\<lambda>a b. e_Seq b < e_Seq a) (log s)"
begin

lemma filter_after_page:
  assumes "sorted_wrt (\<lambda>a b. e_Seq b < e_Seq a) es" "0 < k" "es \<noteq> []"
  shows "filter (\<lambda>e. e_Seq e < e_Seq (last (take k es))) es = drop k es"
proof -
  let ?t = "take k es"
  have ne: "?t \<noteq> []" using assms(2,3) by simp
  have s: "sorted_wrt (\<lambda>a b. e_Seq b < e_Seq a) (?t @ drop k es)" using assms(1) by simp
  have "\<not> e_Seq x < e_Seq (last ?t)" if "x \<in> set ?t" for x
  proof -
    have "sorted_wrt (\<lambda>a b. e_Seq b < e_Seq a) (butlast ?t @ [last ?t])"
      using s ne by (simp add: sorted_wrt_append)
    then have "x \<in> set (butlast ?t) \<Longrightarrow> e_Seq (last ?t) < e_Seq x" by (simp add: sorted_wrt_append)
    moreover have "x \<in> set (butlast ?t) \<or> x = last ?t"
      using that ne by (metis append_butlast_last_id in_set_conv_decomp_last insertE list.set(2) Un_iff set_append empty_set empty_iff list.set(1))
    ultimately show ?thesis by auto
  qed
  moreover have "e_Seq x < e_Seq (last ?t)" if "x \<in> set (drop k es)" for x
    using s that last_in_set [OF ne] unfolding sorted_wrt_append by blast
  ultimately have "filter (\<lambda>e. e_Seq e < e_Seq (last ?t)) (?t @ drop k es) = drop k es"
    by (simp only: filter_append filter_False filter_True append_Nil)
       (simp add: filter_empty_conv)
  then show ?thesis by simp
qed

lemma walk_complete:
  assumes "ok s" "0 < limit" "length (filter (\<lambda>e. e_Seq e < q) (log s)) < n"
  shows "walk n (\<lambda>q. older s q limit) q = filter (\<lambda>e. e_Seq e < q) (log s)"
  using assms(3)
proof (induction n arbitrary: q)
  case (Suc n)
  let ?es = "filter (\<lambda>e. e_Seq e < q) (log s)" and ?k = "nat limit"
  have sorted: "sorted_wrt (\<lambda>a b. e_Seq b < e_Seq a) ?es"
    using newest_first [OF assms(1)] by (rule sorted_wrt_filter)
  show ?case
  proof (cases "?es = []")
    case True
    then show ?thesis using assms older_page by simp
  next
    case False
    let ?q = "e_Seq (last (take ?k ?es))"
    have "last (take ?k ?es) \<in> set ?es"
    proof (rule in_set_takeD, rule last_in_set)
      show "take ?k ?es \<noteq> []" using False assms(2) by (simp add: take_eq_Nil2 del: filter_empty_conv)
    qed
    then have "?q < q" by simp
    then have "filter (\<lambda>e. e_Seq e < ?q) (log s) = filter (\<lambda>e. e_Seq e < ?q) ?es"
      unfolding filter_filter by (intro filter_cong refl) linarith
    also have "\<dots> = drop ?k ?es" using sorted assms(2) False by (intro filter_after_page) auto
    finally have rest: "filter (\<lambda>e. e_Seq e < ?q) (log s) = drop ?k ?es" .
    have "0 < length ?es" "0 < ?k" using False assms(2) by (simp_all only: length_greater_0_conv zero_less_nat_eq not_False_eq_True)
    then have "length (drop ?k ?es) < n" using Suc.prems unfolding length_drop by linarith
    then have "walk n (\<lambda>q. older s q limit) ?q = drop ?k ?es" using Suc.IH [of ?q] rest by simp
    moreover have "older s q limit = take ?k ?es" using older_page assms(1,2) by blast
    moreover have "take ?k ?es \<noteq> []" using False assms(2) by (simp del: filter_empty_conv)
    then obtain p ps where "take ?k ?es = p # ps" using list.exhaust by blast
    ultimately have "walk (Suc n) (\<lambda>q. older s q limit) q = take ?k ?es @ drop ?k ?es"
      by (simp only: walk.simps list.case)
    then show ?thesis by (simp only: append_take_drop_id)
  qed
qed simp

end

definition run_adds ::
  "(Entry \<Rightarrow> bytes option) \<Rightarrow> (counts \<Rightarrow> counts) \<Rightarrow> (time \<times> Entry) list \<Rightarrow> store \<Rightarrow> store" where
  "run_adds marshal iter adds s = fold (\<lambda>(now, e) s. snd (store_add marshal iter now e s)) adds s"

definition in_seq_order :: "store \<Rightarrow> bool" where
  "in_seq_order s \<longleftrightarrow> ring_ok s \<and> sorted_wrt (\<lambda>a b. e_Seq b < e_Seq a) (entries_of s)
     \<and> (\<forall>e \<in> set (entries_of s). e_Seq e \<le> s_total s)"

interpretation store_log: seq_log entries_of in_seq_order "\<lambda>s q limit. recentBeforeSeq s q limit None"
  by unfold_locales (simp_all add: in_seq_order_def recentBeforeSeq_eq wanted_def [abs_def])

lemma remember_prefix: "raw_len raw \<le> b \<Longrightarrow> prefix (remember c b e raw h) ((e, raw) # h)"
  using prefix_order.trans [OF fitting_prefix take_is_prefix] by (simp add: remember_def)

lemma in_seq_order_add [inv_intros]:
  assumes "in_seq_order s"
  shows "in_seq_order (snd (store_add marshal iter now e s))"
proof -
  let ?e = "e\<lparr>e_Seq := s_total s + 1\<rparr>"
  let ?s1 = "s\<lparr>s_total := s_total s + 1\<rparr>" and ?raw = "marshal ?e"
  let ?t = "add_commit ?e ?raw now ?s1"
  have ok: "ring_ok ?s1" "history ?s1 = history s" using assms by (simp_all add: in_seq_order_def add_begin_frame)
  have old: "\<forall>x \<in> set (entries_of s). e_Seq x < e_Seq ?e" using assms by (auto simp: in_seq_order_def)
  have "e_Seq ?e \<notin> e_Seq ` set (entries_of ?s1)" unfolding ok(2) using old by auto
  note c = add_commit_ok [OF ok(1) this, of ?raw now]
  have sorted: "sorted_wrt (\<lambda>a b. e_Seq b < e_Seq a) (?e # entries_of s)"
    using old assms by (auto simp: in_seq_order_def)
  have "sorted_wrt (\<lambda>a b. e_Seq b < e_Seq a) (entries_of ?t) \<and> set (entries_of ?t) \<subseteq> insert ?e (set (entries_of s))"
  proof (cases "raw_len ?raw \<le> s_byteBudget s")
    case True
    have "prefix (history ?t) ((?e, ?raw) # history s)"
      unfolding c(2) ok(2) using True by (intro remember_prefix) simp
    then obtain zs where "(?e, ?raw) # history s = history ?t @ zs" by (rule prefixE)
    then have "map fst ((?e, ?raw) # history s) = entries_of ?t @ map fst zs" by simp
    then have split: "?e # entries_of s = entries_of ?t @ map fst zs" by simp
    have "sorted_wrt (\<lambda>a b. e_Seq b < e_Seq a) (entries_of ?t)"
      using sorted unfolding split sorted_wrt_append by blast
    moreover have "set (entries_of ?t) \<subseteq> set (?e # entries_of s)" unfolding split by simp
    ultimately show ?thesis by simp
  next
    case False
    then have "history ?t = history s" using c(2) ok(2) by (simp add: remember_def)
    then show ?thesis using sorted by auto
  qed
  moreover have "\<forall>x \<in> insert ?e (set (entries_of s)). e_Seq x \<le> s_total ?t"
    using old by (auto simp: add_commit_frame)
  ultimately have "in_seq_order ?t" using c(1) unfolding in_seq_order_def by blast
  then show ?thesis
    by (simp add: store_add_def add_begin_def Let_def in_seq_order_def add_observe_frame)
       (simp add: add_observe_def)
qed

lemma in_seq_order_new: "0 < c \<Longrightarrow> in_seq_order (newStore L c b)"
  by (simp add: in_seq_order_def ring_ok_newStore history_newStore)

lemma in_seq_order_run: "in_seq_order s \<Longrightarrow> in_seq_order (run_adds marshal iter adds s)"
  unfolding run_adds_def by (induction adds arbitrary: s) (auto intro: inv_intros)

subsection \<open>The rate windows\<close>

definition entry_sec :: "Entry \<Rightarrow> time \<Rightarrow> int" where
  "entry_sec e now = min (unix_sec (e_Timestamp e)) (unix_sec now)"

definition rate_step :: "Entry \<Rightarrow> time \<Rightarrow> rateBucket list \<Rightarrow> rateBucket list" where
  "rate_step e now r = s_rate (observeRate e now (undefined\<lparr>s_rate := r\<rparr>))"

lemma rate_step_eq:
  "rate_step e now r =
     (let sec = entry_sec e now; i = nat (sec mod 300); b = r ! i
      in if unix_sec now - sec \<ge> 300 then r
         else r[i := bump_bucket e (if rb_sec b \<noteq> sec then zero_rateBucket\<lparr>rb_sec := sec\<rparr> else b)])"
  by (auto simp: rate_step_def observeRate_def entry_sec_def rateWindowSeconds_def Let_def min_def)

lemma s_rate_commit: "s_rate (add_commit e raw now s) = rate_step e now (s_rate s)"
  by (simp add: add_commit_def tally_def rate_step_def observeRate_def Let_def write_slot_frame evict_loop_frame)

lemma rb_sec_bump [simp]: "rb_sec (bump_bucket e b) = rb_sec b"
  by (simp add: bump_bucket_def Let_def)

lemma mod_window_unique:
  assumes "x mod 300 = y mod 300" "T - 300 < x" "x \<le> T" "T - 300 < y" "y \<le> (T::int)"
  shows "x = y"
proof -
  obtain k where k: "x - y = 300 * k" using assms(1) by (metis dvdE mod_eq_dvd_iff)
  then have "k = 0" using assms(2-) by linarith
  then show ?thesis using k by simp
qed

text \<open>One of the three tallies of a bucket: how it is read off and what an entry adds to it.\<close>

locale bucket_tally =
  fixes field :: "rateBucket \<Rightarrow> int" and weight :: "Entry \<Rightarrow> int"
  assumes field_reset: "field (zero_rateBucket\<lparr>rb_sec := x\<rparr>) = 0"
    and field_bump: "field (bump_bucket e b) = field b + weight e"
begin

definition at_sec :: "rateBucket list \<Rightarrow> int \<Rightarrow> int" where
  "at_sec r x = (let b = r ! nat (x mod 300) in if rb_sec b = x then field b else 0)"

definition observed :: "(Entry \<times> time) list \<Rightarrow> int \<Rightarrow> int" where
  "observed cs x = (\<Sum>(e, t) \<leftarrow> filter (\<lambda>(e, t). entry_sec e t = x \<and> unix_sec t - x < 300) cs. weight e)"

definition buckets_ok :: "rateBucket list \<Rightarrow> int \<Rightarrow> (Entry \<times> time) list \<Rightarrow> bool" where
  "buckets_ok r T cs \<longleftrightarrow> length r = 300
     \<and> (\<forall>i < 300. rb_sec (r ! i) \<le> T \<and> (rb_sec (r ! i) = 0 \<or> rb_sec (r ! i) mod 300 = int i))
     \<and> (\<forall>x. 0 < x \<longrightarrow> T - x < 300 \<longrightarrow> at_sec r x = observed cs x)"

lemma nat_mod_less: "nat (x mod 300) < 300"
  by (simp add: nat_less_iff)

lemma observed_snoc:
  "observed (cs @ [(e, t)]) x
     = observed cs x + (if entry_sec e t = x \<and> unix_sec t - x < 300 then weight e else 0)"
  by (simp add: observed_def)

lemma buckets_ok_later:
  assumes "buckets_ok r T cs" "T \<le> T'"
  shows "buckets_ok r T' cs"
  using assms unfolding buckets_ok_def by (meson diff_right_mono le_less_trans order_trans)

lemma buckets_ok_step:
  assumes "buckets_ok r T cs" "T = unix_sec t" "300 \<le> T"
  shows "buckets_ok (rate_step e t r) T (cs @ [(e, t)])"
proof (cases "T - entry_sec e t \<ge> 300")
  case True
  then have "rate_step e t r = r" using assms(2) by (simp add: rate_step_eq Let_def)
  moreover have "observed (cs @ [(e, t)]) x = observed cs x" for x
    using True assms(2) by (auto simp: observed_snoc)
  ultimately show ?thesis using assms(1) by (simp add: buckets_ok_def)
next
  case False
  define sec where "sec = entry_sec e t"
  define i where "i = nat (sec mod 300)"
  define b where "b = (if rb_sec (r ! i) \<noteq> sec then zero_rateBucket\<lparr>rb_sec := sec\<rparr> else r ! i)"
  have sec: "sec \<le> T" "T - sec < 300" "0 < sec" using False assms(2,3) by (auto simp: sec_def entry_sec_def)
  have r': "rate_step e t r = r[i := bump_bucket e b]"
    using False assms(2) by (simp add: rate_step_eq Let_def sec_def i_def b_def)
  have len: "length r = 300" "i < 300" using assms(1) nat_mod_less by (auto simp: buckets_ok_def i_def)
  have bsec: "rb_sec b = sec" by (simp add: b_def)
  have fb: "field b = at_sec r sec" by (simp add: b_def at_sec_def i_def Let_def field_reset)
  have "at_sec (rate_step e t r) x = observed (cs @ [(e, t)]) x" if x: "0 < x" "T - x < 300" for x
  proof (cases "x = sec")
    case True
    have "at_sec r sec = observed cs sec" using assms(1) sec by (simp add: buckets_ok_def)
    moreover have "at_sec (rate_step e t r) sec = field b + weight e"
      using len bsec by (simp add: at_sec_def r' Let_def i_def [symmetric] field_bump)
    moreover have "observed (cs @ [(e, t)]) sec = observed cs sec + weight e"
      using sec assms(2) by (simp add: observed_snoc sec_def)
    ultimately show ?thesis using True fb by simp
  next
    case ne: False
    have obs: "observed (cs @ [(e, t)]) x = at_sec r x"
      using assms(1) x ne by (auto simp: observed_snoc sec_def buckets_ok_def)
    show ?thesis
    proof (cases "nat (x mod 300) = i")
      case True
      then have "x mod 300 = sec mod 300" by (simp add: i_def eq_nat_nat_iff)
      then have "\<not> x \<le> T" using mod_window_unique [of x sec T] x sec ne by auto
      then have "at_sec r x = 0" using assms(1) len True by (auto simp: at_sec_def Let_def buckets_ok_def)
      then show ?thesis using obs ne bsec len True by (simp add: at_sec_def r' Let_def)
    next
      case False
      then show ?thesis using obs by (simp add: at_sec_def r' Let_def)
    qed
  qed
  moreover have "rb_sec (r[i := bump_bucket e b] ! j) \<le> T \<and>
      (rb_sec (r[i := bump_bucket e b] ! j) = 0 \<or> rb_sec (r[i := bump_bucket e b] ! j) mod 300 = int j)" if "j < 300" for j
    using assms(1) that sec len bsec by (cases "j = i") (auto simp: buckets_ok_def i_def)
  ultimately show ?thesis using len by (simp add: buckets_ok_def r')
qed

lemma buckets_ok_run:
  assumes "\<forall>(e, t) \<in> set cs. 300 \<le> unix_sec t" "sorted (map (unix_sec \<circ> snd) cs)"
    and "\<forall>(e, t) \<in> set cs. unix_sec t \<le> T" "300 \<le> T"
  shows "buckets_ok (fold (\<lambda>(e, t). rate_step e t) cs (replicate 300 zero_rateBucket)) T cs"
  using assms
proof (induction cs arbitrary: T rule: rev_induct)
  case Nil
  have "field zero_rateBucket = 0" using field_reset [of 0] by (simp add: zero_rateBucket_def)
  then show ?case using Nil nat_mod_less
    by (auto simp: buckets_ok_def at_sec_def observed_def zero_rateBucket_def Let_def)
next
  case (snoc p cs)
  obtain e t where p: "p = (e, t)" by (cases p)
  let ?r = "fold (\<lambda>(e, t). rate_step e t) cs (replicate 300 zero_rateBucket)"
  have "buckets_ok ?r (unix_sec t) cs"
    by (rule snoc.IH) (use snoc.prems p in \<open>auto simp: sorted_append\<close>)
  then have "buckets_ok (rate_step e t ?r) (unix_sec t) (cs @ [(e, t)])"
    by (rule buckets_ok_step) (use snoc.prems p in auto)
  then show ?case using buckets_ok_later [of _ "unix_sec t"] snoc.prems p by auto
qed

text \<open>Summing the buckets whose second is less than \<open>w\<close> away counts what was observed there.\<close>

lemma window_sum:
  assumes ok: "buckets_ok r T cs" and w: "w \<le> 300" "0 \<le> w" and T: "300 \<le> T"
  shows "(\<Sum>b \<leftarrow> r. if 0 \<le> T - rb_sec b \<and> T - rb_sec b < w then field b else 0)
     = (\<Sum>x \<in> {T - w<..T}. observed cs x)"
proof -
  let ?f = "\<lambda>b. if 0 \<le> T - rb_sec b \<and> T - rb_sec b < w then field b else 0"
  have len: "length r = 300" using ok by (simp add: buckets_ok_def)
  have "(\<Sum>b \<leftarrow> r. ?f b) = (\<Sum>i \<in> {0..<300}. ?f (r ! i))"
    using len by (simp add: sum_list_sum_nth atLeast0LessThan)
  also have "\<dots> = (\<Sum>x \<in> {T - 300<..T}. ?f (r ! nat (x mod 300)))"
  proof (rule sum.reindex_bij_witness [of _ "\<lambda>x. nat (x mod 300)" "\<lambda>i. T - (T - int i) mod 300"])
    fix i :: nat assume i: "i \<in> {0..<300}"
    have "(T - (T - int i) mod 300) mod 300 = int i mod 300"
      by (metis add.commute diff_add_cancel mod_diff_right_eq add_diff_cancel_left' diff_diff_eq2)
    then show "nat ((T - (T - int i) mod 300) mod 300) = i" using i by simp
    show "T - (T - int i) mod 300 \<in> {T - 300<..T}" by (simp add: pos_mod_bound [of 300])
    then show "?f (r ! nat ((T - (T - int i) mod 300) mod 300)) = ?f (r ! i)"
      using \<open>nat ((T - (T - int i) mod 300) mod 300) = i\<close> by simp
  next
    fix x assume x: "x \<in> {T - 300<..T}"
    have "(T - int (nat (x mod 300))) mod 300 = (T - x) mod 300" by (simp add: mod_diff_right_eq)
    also have "\<dots> = T - x" using x by simp
    finally show "T - (T - int (nat (x mod 300))) mod 300 = x" by simp
    show "nat (x mod 300) \<in> {0..<300}" using nat_mod_less by simp
  qed
  also have "\<dots> = (\<Sum>x \<in> {T - 300<..T}. if T - x < w then observed cs x else 0)"
  proof (rule sum.cong [OF refl])
    fix x assume x: "x \<in> {T - 300<..T}"
    let ?b = "r ! nat (x mod 300)"
    have obs: "observed cs x = (if rb_sec ?b = x then field ?b else 0)"
    proof -
      have "0 < x" "T - x < 300" using x T by auto
      then have "observed cs x = at_sec r x" using ok unfolding buckets_ok_def by metis
      then show ?thesis by (simp add: at_sec_def Let_def)
    qed
    have b: "rb_sec ?b \<le> T" "rb_sec ?b = 0 \<or> rb_sec ?b mod 300 = x mod 300"
    proof -
      have "rb_sec ?b \<le> T \<and> (rb_sec ?b = 0 \<or> rb_sec ?b mod 300 = int (nat (x mod 300)))"
        using ok nat_mod_less [of x] unfolding buckets_ok_def by metis
      then show "rb_sec ?b \<le> T" "rb_sec ?b = 0 \<or> rb_sec ?b mod 300 = x mod 300" by auto
    qed
    show "?f ?b = (if T - x < w then observed cs x else 0)"
    proof (cases "T - rb_sec ?b < w")
      case True
      then have "rb_sec ?b \<noteq> 0" "T - 300 < rb_sec ?b" using w T by auto
      moreover have "T - 300 < x" "x \<le> T" using x by simp_all
      ultimately have "rb_sec ?b = x" using b by (blast intro: mod_window_unique)
      then show ?thesis using True b obs by simp
    next
      case False
      then show ?thesis using obs by auto
    qed
  qed
  also have "\<dots> = (\<Sum>x \<in> {T - w<..T}. observed cs x)"
    by (rule sum.mono_neutral_cong_right) (use w in auto)
  finally show ?thesis .
qed

lemma observed_window:
  assumes "\<forall>(e, t) \<in> set cs. unix_sec t \<le> T" "w \<le> 300"
  shows "(\<Sum>x \<in> {T - w<..T}. observed cs x)
     = (\<Sum>(e, t) \<leftarrow> filter (\<lambda>(e, t). T - entry_sec e t < w) cs. weight e)"
  using assms(1)
proof (induction cs rule: rev_induct)
  case Nil
  then show ?case by (simp add: observed_def)
next
  case (snoc p cs)
  obtain e t where p: "p = (e, t)" by (cases p)
  let ?sec = "entry_sec e t"
  have le: "?sec \<le> unix_sec t" "unix_sec t \<le> T" using snoc.prems p by (auto simp: entry_sec_def)
  have "(\<Sum>x \<in> {T - w<..T}. if ?sec = x \<and> unix_sec t - x < 300 then weight e else 0)
      = (if T - ?sec < w then weight e else 0)"
  proof -
    have "(\<Sum>x \<in> {T - w<..T}. if ?sec = x \<and> unix_sec t - x < 300 then weight e else 0)
        = (\<Sum>x \<in> {T - w<..T}. if ?sec = x then weight e else 0)"
      by (rule sum.cong) (use le assms(2) in auto)
    then show ?thesis using le by (auto simp: sum.delta')
  qed
  then show ?case using snoc by (simp add: p observed_snoc sum.distrib)
qed

end

interpretation entries_tally: bucket_tally rb_entries "\<lambda>e. 1"
  by unfold_locales (simp_all add: zero_rateBucket_def bump_bucket_def Let_def)

interpretation errors_tally: bucket_tally rb_errors "\<lambda>e. if e_Status e = ''error'' then 1 else 0"
  by unfold_locales (simp_all add: zero_rateBucket_def bump_bucket_def Let_def)

interpretation warnings_tally: bucket_tally rb_warnings "\<lambda>e. if e_Status e = ''warning'' then 1 else 0"
  by unfold_locales (auto simp: zero_rateBucket_def bump_bucket_def Let_def)

definition bucket_sum :: "int \<Rightarrow> int \<Rightarrow> (rateBucket \<Rightarrow> int) \<Rightarrow> rateBucket list \<Rightarrow> int" where
  "bucket_sum n w f rs = (\<Sum>b \<leftarrow> rs. if 0 \<le> n - rb_sec b \<and> n - rb_sec b < w then f b else 0)"

lemma windows_fold:
  "fold (windows_step n) rs (l, w1, w5) =
     (l + bucket_sum n 5 rb_entries rs,
      w1\<lparr>win_Entries := win_Entries w1 + bucket_sum n 60 rb_entries rs,
         win_Errors := win_Errors w1 + bucket_sum n 60 rb_errors rs,
         win_Warnings := win_Warnings w1 + bucket_sum n 60 rb_warnings rs\<rparr>,
      w5\<lparr>win_Entries := win_Entries w5 + bucket_sum n 300 rb_entries rs,
         win_Errors := win_Errors w5 + bucket_sum n 300 rb_errors rs,
         win_Warnings := win_Warnings w5 + bucket_sum n 300 rb_warnings rs\<rparr>)"
proof (induction rs arbitrary: l w1 w5)
  case (Cons b rs)
  have step: "fold (windows_step n) (b # rs) (l, w1, w5)
      = fold (windows_step n) rs (windows_step n b (l, w1, w5))" by simp
  show ?case unfolding step
    by (simp add: windows_step_def Let_def Cons.IH bucket_sum_def rateWindowSeconds_def
        liveRateSeconds_def window_add_def add.assoc)
qed (simp add: bucket_sum_def)

definition in_window :: "time \<Rightarrow> int \<Rightarrow> (Entry \<times> bytes option \<times> time) list \<Rightarrow> Entry list" where
  "in_window now w adds = map fst (filter (\<lambda>(e, raw, t). unix_sec now - entry_sec e t < w) adds)"

definition window_of :: "Entry list \<Rightarrow> rat \<Rightarrow> WindowStats" where
  "window_of es secs = \<lparr>win_Entries = int (length es),
     win_Errors = int (length (filter (\<lambda>e. e_Status e = ''error'') es)),
     win_Warnings = int (length (filter (\<lambda>e. e_Status e = ''warning'') es)),
     win_EntriesPerSec = of_nat (length es) / secs\<rparr>"

abbreviation commit_all :: "(Entry \<times> bytes option \<times> time) list \<Rightarrow> store \<Rightarrow> store" where
  "commit_all adds s \<equiv> fold (\<lambda>(e, raw, t). add_commit e raw t) adds s"

lemma s_rate_commit_all:
  "s_rate (commit_all adds s) = fold (\<lambda>(e, t). rate_step e t) (map (\<lambda>(e, raw, t). (e, t)) adds) (s_rate s)"
  by (induction adds arbitrary: s) (auto simp: s_rate_commit)

lemma bucket_sum_window:
  assumes "bucket_tally f wt" "\<forall>(e, raw, t) \<in> set adds. 300 \<le> unix_sec t \<and> unix_sec t \<le> unix_sec now"
    and "sorted (map (\<lambda>(e, raw, t). unix_sec t) adds)" "300 \<le> unix_sec now" "0 \<le> w" "w \<le> 300"
  shows "bucket_sum (unix_sec now) w f (s_rate (commit_all adds (newStore L c b)))
     = (\<Sum>e \<leftarrow> in_window now w adds. wt e)"
proof -
  let ?cs = "map (\<lambda>(e, raw, t). (e, t)) adds"
  let ?r = "s_rate (commit_all adds (newStore L c b))"
  have r: "?r = fold (\<lambda>(e, t). rate_step e t) ?cs (replicate 300 zero_rateBucket)"
    unfolding s_rate_commit_all by (simp add: newStore_def rateWindowSeconds_def)
  have "sorted (map (unix_sec \<circ> snd) ?cs)" using assms(3) by (simp add: comp_def case_prod_unfold)
  moreover have "\<forall>(e, t) \<in> set ?cs. 300 \<le> unix_sec t" "\<forall>(e, t) \<in> set ?cs. unix_sec t \<le> unix_sec now"
    using assms(2) by auto
  ultimately have ok: "bucket_tally.buckets_ok f wt ?r (unix_sec now) ?cs"
    unfolding r using bucket_tally.buckets_ok_run [OF assms(1)] assms(4) by blast
  have "bucket_sum (unix_sec now) w f ?r = (\<Sum>x \<in> {unix_sec now - w<..unix_sec now}. bucket_tally.observed wt ?cs x)"
    unfolding bucket_sum_def using bucket_tally.window_sum [OF assms(1) ok] assms by blast
  also have "\<dots> = (\<Sum>(e, t) \<leftarrow> filter (\<lambda>(e, t). unix_sec now - entry_sec e t < w) ?cs. wt e)"
    by (rule bucket_tally.observed_window [OF assms(1)]) (use assms in auto)
  also have "\<dots> = (\<Sum>e \<leftarrow> in_window now w adds. wt e)"
    by (simp add: in_window_def filter_map comp_def case_prod_unfold)
  finally show ?thesis .
qed

lemma sum_list_indicator: "(\<Sum>x \<leftarrow> xs. if P x then 1 else 0) = int (length (filter P xs))"
  by (induction xs) auto

text \<open>The trailing rates are exact.  For adds that reach the lock in the order of their clock
  readings, the live, one-minute and five-minute figures of \<open>stats\<close> count every add whose entry
  is dated (its own time, clamped to the clock) within the last 5, 60 and 300 seconds, whether or
  not the ring still holds it: no bucket is lost by being reused for another second.\<close>

theorem rate_windows_exact:
  assumes "\<forall>(e, raw, t) \<in> set adds. 300 \<le> unix_sec t \<and> unix_sec t \<le> unix_sec now"
    and "sorted (map (\<lambda>(e, raw, t). unix_sec t) adds)" and "300 \<le> unix_sec now"
    and "st = store_stats (commit_all adds (newStore L c b)) now k"
  shows "st_EntriesPerSec st = of_nat (length (in_window now 5 adds)) / 5
     \<and> st_Last1m st = Some (window_of (in_window now 60 adds) 60)
     \<and> st_Last5m st = Some (window_of (in_window now 300 adds) 300)"
proof -
  note sums = bucket_sum_window [OF entries_tally.bucket_tally_axioms assms(1,2,3)]
    bucket_sum_window [OF errors_tally.bucket_tally_axioms assms(1,2,3)]
    bucket_sum_window [OF warnings_tally.bucket_tally_axioms assms(1,2,3)]
  have one: "(\<Sum>x \<leftarrow> xs. 1) = int (length xs)" for xs :: "Entry list" by (induction xs) auto
  show ?thesis
    unfolding assms(4) store_stats_def windows_def windows_fold Let_def prod.case
    by (simp add: sums one sum_list_indicator window_of_def zero_WindowStats_def
        liveRateSeconds_def rateWindowSeconds_def)
qed

text \<open>C1: the store's invariant under concurrent ingest.  In every state reachable by any
  interleaving of adds the ring holds at most its capacity of entries in consecutive slots, each
  beside its own JSON; the retained bytes are their exact sum and within the budget; and the id
  index gives, for every id, the newest entry held that carries it.\<close>

theorem store_invariant:
  assumes "0 < capacity" and "reachable L capacity budgets marshal iter h" and "s = in_store h"
  shows "ring_ok s \<and> s_retainedBytes s \<le> s_byteBudget s \<and> store_size s = length (history s)
     \<and> store_size s \<le> s_capacity s
     \<and> store_get s i = find (\<lambda>e. e_ID e = i) (map fst (history s))"
  using reachable_ok [OF assms(2,1)] assms(3)
  by (auto simp: ingest_ok_def Let_def store_ok_def ring_ok_def store_size_def store_get_def newest_with_def)

text \<open>C21: what consumers of \<open>stats\<close> depend on.  In every reachable state the per-protocol counts
  sum to the lifetime total less the adds that have their number but not yet the lock, so a
  protocol's share never exceeds the whole.\<close>

theorem stats_total_covers:
  assumes "0 < capacity" and "reachable L capacity budgets marshal iter h"
  shows "map_sum (st_ByProtocol (store_stats (in_store h) now k)) + int (length (in_marshalled h))
     = st_TotalEntries (store_stats (in_store h) now k)"
  using reachable_ok [OF assms(2,1)]
  by (simp add: ingest_ok_def Let_def store_stats_def case_prod_unfold)

text \<open>C2: refinement.  The part of \<open>add\<close> under the lock, ring arithmetic, slot reuse and eviction
  loop together, does to the history exactly what the specification does: put the entry in
  front, keep the newest \<open>capacity\<close>, then the longest newest part within the byte budget; an
  entry that alone exceeds the budget leaves the history as it was.\<close>

theorem add_refines_history:
  assumes "ring_ok s" and "e_Seq e \<notin> e_Seq ` set (map fst (history s))"
  shows "history (add_commit e raw now s)
     = remember (s_capacity s) (s_byteBudget s) e raw (history s)"
  using add_commit_ok [OF assms] by simp

text \<open>C18: the three ways of paging, struct and cached-JSON variant alike, return the first
  \<open>limit\<close> entries in newest-first order that satisfy the predicate and lie behind the
  cursor: everything for \<open>recent\<close>, what is numbered below \<open>before_seq\<close>, or what is older than
  the anchor entry; an anchor no longer held gives nothing.\<close>

theorem queries_page_the_history:
  assumes "ring_ok s" and "0 < limit"
  shows "recent s limit match = take (nat limit) (filter (wanted False 0 match) (map fst (history s)))
     \<and> recentBeforeSeq s q limit match
         = take (nat limit) (filter (wanted True q match) (map fst (history s)))
     \<and> recentBefore s i limit match = take (nat limit) (filter (wanted False 0 match)
         (tl (dropWhile (\<lambda>e. e_ID e \<noteq> i) (map fst (history s)))))
     \<and> recentBeforeSeqRaw s q limit match
         = map snd (take (nat limit) (filter (wanted True q match \<circ> fst) (with_raw (history s))))"
  using recent_eq recentBeforeSeq_eq recentBefore_eq recentBeforeSeqRaw_eq assms by (simp add: behind_def)

text \<open>C20: paging is complete.  After any adds made one at a time, a client that follows the
  \<open>before_seq\<close> cursor from the newest entry, whatever page size it uses, receives every entry
  the store holds, once, in order, and then an empty page.\<close>

theorem paging_complete:
  assumes "0 < capacity" and "0 < limit"
    and "s = run_adds marshal iter adds (newStore L capacity budgets)"
  shows "walk (Suc (store_size s)) (\<lambda>q. recentBeforeSeq s q limit None) (s_total s + 1) = map fst (history s)"
proof -
  have ok: "in_seq_order s" using assms(1,3) in_seq_order_run in_seq_order_new by blast
  then have all: "filter (\<lambda>e. e_Seq e < s_total s + 1) (entries_of s) = entries_of s"
    by (auto simp: in_seq_order_def filter_id_conv)
  show ?thesis
    using store_log.walk_complete [OF ok assms(2), of "s_total s + 1" "Suc (store_size s)"]
    by (simp only: all length_map length_history store_size_def lessI)
qed

text \<open>Two adds that take their numbers in one order and the lock in the other.\<close>

definition racing_first :: Entry where "racing_first = zero_Entry\<lparr>e_ID := ''a'', e_Seq := 1\<rparr>"
definition racing_second :: Entry where "racing_second = zero_Entry\<lparr>e_ID := ''b'', e_Seq := 2\<rparr>"

definition racing_store :: store where
  "racing_store = add_commit racing_first None 0 (add_commit racing_second None 0
     ((newStore ascii_lib 8 [])\<lparr>s_total := 2\<rparr>))"

definition racing_state :: ingest where
  "racing_state = \<lparr>in_store = racing_store, in_marshalled = [], in_committed = [racing_second, racing_first]\<rparr>"

lemma racing_reachable: "reachable ascii_lib 8 [] (\<lambda>_. None) id racing_state"
proof -
  let ?R = "reachable ascii_lib 8 [] (\<lambda>_. None) id" and ?s0 = "newStore ascii_lib 8 []"
  let ?a = "(racing_first, None, 0)" and ?b = "(racing_second, None, 0)"
  have "?R (ingest_start ascii_lib 8 [])" by (rule reach_start)
  then have "?R \<lparr>in_store = ?s0\<lparr>s_total := 1\<rparr>, in_marshalled = [?a], in_committed = []\<rparr>"
    by (rule reach_step)
       (use ingest_step.begin_step [of "\<lambda>_. None" "zero_Entry\<lparr>e_ID := ''a''\<rparr>" "ingest_start ascii_lib 8 []"
          racing_first None "?s0\<lparr>s_total := 1\<rparr>" id 0] in
         \<open>simp add: ingest_start_def add_begin_def racing_first_def newStore_def\<close>)
  then have "?R \<lparr>in_store = ?s0\<lparr>s_total := 2\<rparr>, in_marshalled = [?a, ?b], in_committed = []\<rparr>"
    by (rule reach_step)
       (use ingest_step.begin_step [of "\<lambda>_. None" "zero_Entry\<lparr>e_ID := ''b''\<rparr>"
          "\<lparr>in_store = ?s0\<lparr>s_total := 1\<rparr>, in_marshalled = [?a], in_committed = []\<rparr>"
          racing_second None "?s0\<lparr>s_total := 2\<rparr>" id 0] in
         \<open>simp add: add_begin_def racing_second_def\<close>)
  then have "?R \<lparr>in_store = add_commit racing_second None 0 (?s0\<lparr>s_total := 2\<rparr>), in_marshalled = [?a], in_committed = [racing_second]\<rparr>"
    by (rule reach_step)
       (use ingest_step.commit_step [of
          "\<lparr>in_store = ?s0\<lparr>s_total := 2\<rparr>, in_marshalled = [?a, ?b], in_committed = []\<rparr>"
          "[?a]" racing_second None 0 "[]" "\<lambda>_. None" id] in simp)
  then have "?R \<lparr>in_store = racing_store, in_marshalled = [], in_committed = [racing_second, racing_first]\<rparr>"
    by (rule reach_step)
       (use ingest_step.commit_step [of
          "\<lparr>in_store = add_commit racing_second None 0 (?s0\<lparr>s_total := 2\<rparr>), in_marshalled = [?a], in_committed = [racing_second]\<rparr>"
          "[]" racing_first None 0 "[]" "\<lambda>_. None" id] in \<open>simp add: racing_store_def\<close>)
  then show ?thesis by (simp add: racing_state_def)
qed

lemma racing_history: "history racing_store = [(racing_first, None), (racing_second, None)]"
proof -
  let ?s0 = "(newStore ascii_lib 8 [])\<lparr>s_total := 2\<rparr>"
  let ?s1 = "add_commit racing_second None 0 ?s0"
  have s0: "ring_ok ?s0" "history ?s0 = []" by (simp_all add: add_begin_frame ring_ok_newStore history_newStore)
  have caps: "s_capacity ?s0 = 8" "s_byteBudget ?s0 = 67108864" by (simp_all add: newStore_def)
  have s1: "ring_ok ?s1" "history ?s1 = [(racing_second, None)]"
    using add_commit_ok [OF s0(1), of racing_second None 0] s0(2) caps by (simp_all add: remember_def raw_len_def)
  then show ?thesis
    using add_commit_ok [OF s1(1), of racing_first None 0] caps
    by (simp add: racing_store_def remember_def raw_len_def add_commit_frame racing_first_def racing_second_def)
qed

text \<open>With concurrent adds the promise above fails, contrary to what \<open>add\<close>'s comment says of
  the two orders (nothing depends on them agreeing): there is a reachable state in which an entry
  is in the ring and a client paging by \<open>before_seq\<close> from the newest entry never receives it,
  however long it goes on.  The ring is in lock order, so the last entry of a page need not have
  the least number of the page.\<close>

theorem paging_skips_racing_entry:
  "\<exists>h e. reachable ascii_lib 8 [] (\<lambda>_. None) id h \<and> e \<in> set (map fst (history (in_store h)))
     \<and> (\<forall>n. e \<notin> set (walk n (\<lambda>q. recentBeforeSeq (in_store h) q 1 None) (s_total (in_store h) + 1)))"
proof (intro exI conjI allI)
  let ?s = "in_store racing_state"
  have s: "?s = racing_store" by (simp add: racing_state_def)
  show "reachable ascii_lib 8 [] (\<lambda>_. None) id racing_state" by (rule racing_reachable)
  show "racing_second \<in> set (map fst (history ?s))" by (simp add: s racing_history)
  have ok: "ring_ok racing_store"
    using reachable_ok [OF racing_reachable] s by (simp add: ingest_ok_def Let_def store_ok_def)
  have total: "s_total racing_store = 2" by (simp add: racing_store_def add_commit_frame)
  have page: "recentBeforeSeq racing_store q 1 None
      = (if 1 < q then [racing_first] else [])" for q
    using ok by (simp add: recentBeforeSeq_eq racing_history wanted_def racing_first_def racing_second_def)
  have "walk n (\<lambda>q. recentBeforeSeq racing_store q 1 None) 1 = []" for n
    by (cases n) (simp_all add: page)
  then have w: "walk n (\<lambda>q. recentBeforeSeq racing_store q 1 None) 3 \<in> {[], [racing_first]}" for n
    by (cases n) (simp_all add: page racing_first_def)
  have "e_Seq racing_second \<noteq> e_Seq racing_first" by (simp add: racing_first_def racing_second_def)
  then have "racing_second \<noteq> racing_first" by metis
  then show "racing_second \<notin> set (walk n (\<lambda>q. recentBeforeSeq ?s q 1 None) (s_total ?s + 1))" for n
    using w [of n] by (auto simp: s total)
qed

subsection \<open>Store examples\<close>

definition example_adds :: "(Entry \<times> bytes option \<times> time) list" where
  "example_adds =
     [(zero_Entry\<lparr>e_Timestamp := 998 * 10 ^ 9, e_Status := ''error'', e_Seq := 1\<rparr>, None, 1000 * 10 ^ 9),
      (zero_Entry\<lparr>e_Timestamp := 600 * 10 ^ 9, e_Seq := 2\<rparr>, None, 1001 * 10 ^ 9),
      (zero_Entry\<lparr>e_Timestamp := 2000 * 10 ^ 9, e_Seq := 3\<rparr>, None, 1002 * 10 ^ 9)]"

theorem rate_windows_exact_witness:
  "st_EntriesPerSec (store_stats (commit_all example_adds (newStore ascii_lib 1 [])) (1003 * 10 ^ 9) 1) = 1 / 5"
  using rate_windows_exact [of example_adds "1003 * 10 ^ 9" _ ascii_lib 1 "[]" 1, OF _ _ _ refl]
  by (simp add: example_adds_def unix_sec_def in_window_def entry_sec_def)

theorem store_invariant_witness:
  "store_get (in_store racing_state) ''b'' = Some racing_second"
  using store_invariant [OF _ racing_reachable refl, of "''b''"]
  by (simp add: racing_state_def racing_history) (simp add: racing_first_def racing_second_def)

theorem stats_total_covers_witness:
  "map_sum (st_ByProtocol (store_stats (in_store racing_state) 0 0)) = 2"
  using stats_total_covers [OF _ racing_reachable, of 0 0]
  by (simp add: racing_state_def store_stats_def case_prod_unfold racing_store_def add_commit_frame Let_def)

theorem add_refines_history_witness:
  "history (add_commit (zero_Entry\<lparr>e_Seq := 3\<rparr>) (Some ''{}'') 0 racing_store)
     = [(zero_Entry\<lparr>e_Seq := 3\<rparr>, Some ''{}''), (racing_first, None), (racing_second, None)]"
proof -
  have ok: "ring_ok racing_store"
    using reachable_ok [OF racing_reachable] by (simp add: racing_state_def ingest_ok_def Let_def store_ok_def)
  have "s_capacity racing_store = 8" "s_byteBudget racing_store = 67108864"
    by (simp_all add: racing_store_def add_commit_frame newStore_def)
  then show ?thesis
    using add_refines_history [OF ok, of "zero_Entry\<lparr>e_Seq := 3\<rparr>" "Some ''{}''" 0]
    by (simp add: racing_history racing_first_def racing_second_def remember_def raw_len_def)
qed

theorem queries_page_the_history_witness:
  "recentBefore racing_store ''a'' 5 None = [racing_second] \<and> recentBefore racing_store ''gone'' 5 None = []"
proof -
  have ok: "ring_ok racing_store"
    using reachable_ok [OF racing_reachable] by (simp add: racing_state_def ingest_ok_def Let_def store_ok_def)
  show ?thesis
    using queries_page_the_history [OF ok, of 5 None 0 "''a''"] queries_page_the_history [OF ok, of 5 None 0 "''gone''"]
    by (simp add: racing_history wanted_any) (simp add: racing_first_def racing_second_def)
qed

theorem paging_complete_witness:
  "\<exists>s. s = run_adds (\<lambda>_. None) id [(0, zero_Entry), (0, zero_Entry)] (newStore ascii_lib 8 [])
     \<and> walk (Suc (store_size s)) (\<lambda>q. recentBeforeSeq s q 1 None) (s_total s + 1) = map fst (history s)"
  using paging_complete [of 8 1, OF _ _ refl, of "\<lambda>_. None" id "[(0, zero_Entry), (0, zero_Entry)]" ascii_lib "[]"] by simp

end
