(* ===== verification/Hub_Lexer.thy ===== *)
theory Hub_Lexer
  imports Hub_Fields
begin

text \<open>
  The lexer of the filter language, \<open>lex\<close> of \<open>internal/hub/filter.go\<close>, and the text a
  token list can be written as.  The theorems: writing tokens and lexing them again gives
  the tokens, and lexing distributes over text that is joined at a closing parenthesis.
\<close>

datatype tokKind = tIdent | tString | tNumber | tOp | tLParen | tRParen | tComma | tAnd | tOr | tNot

record token =
  kind :: tokKind
  val :: string

abbreviation tok :: "tokKind \<Rightarrow> string \<Rightarrow> token" where
  "tok k v \<equiv> \<lparr>kind = k, val = v\<rparr>"

datatype filter_error =
    TooLong nat
  | UnterminatedString
  | UnexpectedChar char
  | UnexpectedToken string
  | NestingTooDeep
  | ExpectedRParen
  | ExpectedValue string
  | PatternTooLong string nat
  | InvalidRegex string string
  | UnknownField string
  | NeedsNumber string string string
  | UnsupportedOperator string string
  | ExpectedLParenAfterIn
  | ExpectedListValue string
  | ListTooLong
  | ExpectedListSeparator string
  | NoProgress

abbreviation quote2 :: char where "quote2 \<equiv> CHR 0x22"
abbreviation quote1 :: char where "quote1 \<equiv> CHR 0x27"
abbreviation backslash :: char where "backslash \<equiv> CHR 0x5C"
abbreviation tab :: char where "tab \<equiv> CHR 0x09"
abbreviation newline :: char where "newline \<equiv> CHR 0x0A"

definition is_blank :: "char \<Rightarrow> bool" where
  "is_blank c \<longleftrightarrow> c = CHR '' '' \<or> c = tab \<or> c = newline"

text \<open>The bytes that end a word.\<close>

definition is_delim :: "char \<Rightarrow> bool" where
  "is_delim c \<longleftrightarrow> is_blank c \<or> c \<in> {CHR ''('', CHR '')'', CHR ''='', CHR ''!'', CHR ''<'', CHR ''>'',
     quote2, quote1, CHR '',''}"

text \<open>The body of a quoted string up to its closing quote; a backslash takes the next byte
  literally.\<close>

fun lex_string :: "char \<Rightarrow> string \<Rightarrow> string \<Rightarrow> (string \<times> string) option" where
  "lex_string q [] acc = None"
| "lex_string q (c # cs) acc =
     (if c = q then Some (acc, cs)
      else if c = backslash then
        (case cs of [] \<Rightarrow> None | d # ds \<Rightarrow> lex_string q ds (acc @ [d]))
      else lex_string q cs (acc @ [c]))"

definition word_token :: "golib \<Rightarrow> string \<Rightarrow> token" where
  "word_token L word =
     (let low = to_lower L word in
      if low = ''and'' then tok tAnd word
      else if low = ''or'' then tok tOr word
      else if low = ''not'' then tok tNot word
      else if low \<in> {''contains'', ''matches'', ''startswith'', ''in''} then tok tOp low
      else if parse_float L word \<noteq> None then tok tNumber word
      else tok tIdent word)"

lemma lex_string_shorter: "lex_string q s acc = Some (v, r) \<Longrightarrow> length r < length s"
  by (induction q s acc rule: lex_string.induct) (auto split: if_splits list.splits)

function lex_loop :: "golib \<Rightarrow> string \<Rightarrow> token list \<Rightarrow> filter_error + token list" where
  "lex_loop L [] toks = Inr toks"
| "lex_loop L (c # s) toks =
     (if is_blank c then lex_loop L s toks
      else if c = CHR ''('' then lex_loop L s (toks @ [tok tLParen ''('']) 
      else if c = CHR '')'' then lex_loop L s (toks @ [tok tRParen '')''])
      else if c = CHR '','' then lex_loop L s (toks @ [tok tComma '',''])
      else if c = quote2 \<or> c = quote1 then
        (case lex_string c s [] of
           None \<Rightarrow> Inl UnterminatedString
         | Some (v, r) \<Rightarrow> lex_loop L r (toks @ [tok tString v]))
      else if c \<in> {CHR ''='', CHR ''!'', CHR ''>'', CHR ''<''} \<and> prefix ''='' s then
        lex_loop L (drop 1 s) (toks @ [tok tOp [c, CHR ''='']])
      else if c = CHR ''>'' \<or> c = CHR ''<'' then lex_loop L s (toks @ [tok tOp [c]])
      else if is_delim c then Inl (UnexpectedChar c)
      else lex_loop L (dropWhile (\<lambda>d. \<not> is_delim d) s)
             (toks @ [word_token L (c # takeWhile (\<lambda>d. \<not> is_delim d) s)]))"
  by pat_completeness auto
termination
  by (relation "measure (\<lambda>(L, s, toks). length s)")
     (auto simp: less_Suc_eq_le length_dropWhile_le dest: lex_string_shorter)

definition lex :: "golib \<Rightarrow> string \<Rightarrow> filter_error + token list" where
  "lex L s = lex_loop L s []"

declare lex_loop.simps(2) [simp del]

subsection \<open>Joining text\<close>

lemma lex_string_append: "lex_string q s acc = Some (v, r) \<Longrightarrow> lex_string q (s @ x) acc = Some (v, r @ x)"
  by (induction q s acc rule: lex_string.induct) (auto split: if_splits list.splits)

lemma takeWhile_stop: "\<not> P d \<Longrightarrow> takeWhile P (s @ d # r) = takeWhile P s"
  by (induction s) auto

lemma dropWhile_stop: "\<not> P d \<Longrightarrow> dropWhile P (s @ d # r) = dropWhile P s @ d # r"
  by (induction s) auto

lemma lex_punctuation:
  "lex_loop L (CHR ''('' # s) acc = lex_loop L s (acc @ [tok tLParen ''(''])"
  "lex_loop L (CHR '')'' # s) acc = lex_loop L s (acc @ [tok tRParen '')''])"
  "lex_loop L (CHR '','' # s) acc = lex_loop L s (acc @ [tok tComma '',''])"
  "lex_loop L (CHR '' '' # s) acc = lex_loop L s acc"
  by (simp_all add: lex_loop.simps(2) is_blank_def)

lemma lex_loop_append:
  assumes "lex_loop L s acc = Inr ts" "is_delim d" "d \<noteq> CHR ''=''"
  shows "lex_loop L (s @ d # r) acc = lex_loop L (d # r) ts"
  using assms
proof (induction L s acc rule: lex_loop.induct)
  case (1 L toks)
  then show ?case by simp
next
  case (2 L c s toks)
  have pre: "prefix ''='' (s @ d # r) = prefix ''='' s" using "2.prems"(3) by (cases s) auto
  have del: "prefix ''='' s \<Longrightarrow> drop 1 (s @ d # r) = drop 1 s @ d # r" by (cases s) auto
  show ?case
  proof (cases "c = quote2 \<or> c = quote1")
    case True
    then have nb: "\<not> is_blank c \<and> c \<noteq> CHR ''('' \<and> c \<noteq> CHR '')'' \<and> c \<noteq> CHR '',''" by (auto simp: is_blank_def)
    obtain v t where v: "lex_string c s [] = Some (v, t)" "lex_loop L t (toks @ [tok tString v]) = Inr ts"
      using "2.prems"(1) True nb by (auto simp: lex_loop.simps(2) [of L c s] split: option.splits)
    have "lex_loop L (t @ d # r) (toks @ [tok tString v]) = lex_loop L (d # r) ts"
      using "2.IH"(5) [OF _ _ _ _ True v(1) refl] nb v(2) "2.prems"(2,3) by blast
    then show ?thesis using True nb lex_string_append [OF v(1), of "d # r"]
      by (simp add: lex_loop.simps(2) [of L c "s @ d # r"])
  next
    case nq: False
    note eqs = lex_loop.simps(2) [of L c s] lex_loop.simps(2) [of L c "s @ d # r"]
    consider (blank) "is_blank c" | (lp) "c = CHR ''(''" | (rp) "c = CHR '')''" | (comma) "c = CHR '',''"
      | (op2) "c \<in> {CHR ''='', CHR ''!'', CHR ''>'', CHR ''<''}" "prefix ''='' s"
      | (op1) "c = CHR ''>'' \<or> c = CHR ''<''" "\<not> prefix ''='' s"
      | (bad) "is_delim c" "c = CHR ''='' \<or> c = CHR ''!''" "\<not> prefix ''='' s"
      | (word) "\<not> is_delim c"
      using nq by (auto simp: is_delim_def)
    then show ?thesis
    proof cases
      case op2
      then have "\<not> is_blank c" "c \<noteq> CHR ''(''" "c \<noteq> CHR '')''" "c \<noteq> CHR '',''" by (auto simp: is_blank_def)
      then show ?thesis using "2.IH"(6) "2.prems" op2 nq pre del by (simp add: eqs)
    next
      case op1
      then have "\<not> is_blank c" "c \<noteq> CHR ''(''" "c \<noteq> CHR '')''" "c \<noteq> CHR '',''" by (auto simp: is_blank_def)
      then show ?thesis using "2.IH"(7) "2.prems" op1 nq pre by (simp add: eqs)
    next
      case bad
      then have "\<not> is_blank c" "c \<noteq> CHR ''(''" "c \<noteq> CHR '')''" "c \<noteq> CHR '',''" "c \<noteq> CHR ''>''" "c \<noteq> CHR ''<''"
        by (auto simp: is_blank_def)
      then show ?thesis using "2.prems" bad nq by (simp add: eqs)
    next
      case word
      then have "\<not> is_blank c" "c \<noteq> CHR ''(''" "c \<noteq> CHR '')''" "c \<noteq> CHR '',''" "c \<noteq> CHR ''>''" "c \<noteq> CHR ''<''"
        "c \<noteq> CHR ''=''" "c \<noteq> CHR ''!''" by (auto simp: is_delim_def)
      then show ?thesis using "2.IH"(8) "2.prems" word nq pre
        by (simp add: eqs takeWhile_stop dropWhile_stop)
    qed (use "2.IH"(1-4) "2.prems" nq in \<open>simp_all add: eqs lex_punctuation is_blank_def\<close>)
  qed
qed

subsection \<open>Writing tokens\<close>

definition escape :: "char \<Rightarrow> string" where
  "escape c = (if c = quote2 \<or> c = backslash then [backslash, c] else [c])"

definition show_tok :: "token \<Rightarrow> string" where
  "show_tok t = (if kind t = tString then quote2 # concat (map escape (val t)) @ [quote2] else val t)"

definition show_toks :: "token list \<Rightarrow> string" where
  "show_toks ts = join '' '' (map show_tok ts)"

definition is_word :: "string \<Rightarrow> bool" where
  "is_word w \<longleftrightarrow> w \<noteq> [] \<and> list_all (\<lambda>c. \<not> is_delim c) w"

definition token_ok :: "golib \<Rightarrow> token \<Rightarrow> bool" where
  "token_ok L t \<longleftrightarrow> (case kind t of tString \<Rightarrow> True
     | tLParen \<Rightarrow> val t = ''('' | tRParen \<Rightarrow> val t = '')'' | tComma \<Rightarrow> val t = '',''
     | tOp \<Rightarrow> val t \<in> {''=='', ''!='', ''>='', ''<='', ''>'', ''<''}
              \<or> (is_word (val t) \<and> word_token L (val t) = t)
     | _ \<Rightarrow> is_word (val t) \<and> word_token L (val t) = t)"

lemma lex_string_escape:
  "lex_string quote2 (concat (map escape v) @ quote2 # r) acc = Some (acc @ v, r)"
  by (induction v arbitrary: acc) (auto simp: escape_def)

lemma lex_word:
  assumes "is_word w" "r = [] \<or> is_delim (hd r)"
  shows "lex_loop L (w @ r) acc = lex_loop L r (acc @ [word_token L w])"
proof -
  obtain c cs where w: "w = c # cs" using assms(1) by (cases w) (auto simp: is_word_def)
  have nd: "\<not> is_delim c" "\<forall>x \<in> set cs. \<not> is_delim x" using assms(1) w by (auto simp: is_word_def list_all_iff)
  have tw: "takeWhile (\<lambda>d. \<not> is_delim d) (cs @ r) = cs" "dropWhile (\<lambda>d. \<not> is_delim d) (cs @ r) = r"
    using nd(2) assms(2) by (cases r; simp)+
  have "\<not> is_blank c" "c \<noteq> CHR ''(''" "c \<noteq> CHR '')''" "c \<noteq> CHR '',''" "c \<noteq> quote2" "c \<noteq> quote1"
    "c \<notin> {CHR ''='', CHR ''!'', CHR ''>'', CHR ''<''}"
    using nd(1) by (auto simp: is_delim_def)
  then show ?thesis using nd(1) tw w by (simp add: lex_loop.simps(2) [of L c])
qed

lemma lex_show_tok:
  assumes "token_ok L t" "r = [] \<or> is_blank (hd r)"
  shows "lex_loop L (show_tok t @ r) acc = lex_loop L r (acc @ [t])"
proof -
  have bl: "r = [] \<or> is_delim (hd r)" using assms(2) by (auto simp: is_delim_def)
  have ne: "\<not> prefix ''='' r" using assms(2) by (cases r) (auto simp: is_blank_def)
  have word: "is_word (val t) \<and> word_token L (val t) = t \<Longrightarrow> kind t \<noteq> tString \<Longrightarrow> ?thesis"
    using lex_word [OF _ bl, of "val t" L acc] by (simp add: show_tok_def)
  show ?thesis
  proof (cases "kind t")
    case tString
    then have "show_tok t @ r = quote2 # concat (map escape (val t)) @ quote2 # r" by (simp add: show_tok_def)
    then show ?thesis using tString lex_string_escape [of "val t" r "[]"]
      by (cases t) (simp add: lex_loop.simps(2) [of L quote2] is_blank_def)
  next
    case tOp
    then consider "is_word (val t) \<and> word_token L (val t) = t"
      | "val t \<in> {''=='', ''!='', ''>='', ''<='', ''>'', ''<''}" using assms(1) by (auto simp: token_ok_def)
    then show ?thesis
    proof cases
      case 2
      then show ?thesis using tOp ne
        by (cases t) (auto simp: show_tok_def is_blank_def lex_loop.simps(2) [of _ "CHR ''=''"]
            lex_loop.simps(2) [of _ "CHR ''!''"] lex_loop.simps(2) [of _ "CHR ''>''"] lex_loop.simps(2) [of _ "CHR ''<''"])
    qed (use word tOp in simp)
  next
    case tLParen
    then show ?thesis using assms(1)
      by (cases t) (simp add: token_ok_def show_tok_def is_blank_def lex_loop.simps(2) [of _ "CHR ''(''"])
  next
    case tRParen
    then show ?thesis using assms(1)
      by (cases t) (simp add: token_ok_def show_tok_def is_blank_def lex_loop.simps(2) [of _ "CHR '')''"])
  next
    case tComma
    then show ?thesis using assms(1)
      by (cases t) (simp add: token_ok_def show_tok_def is_blank_def lex_loop.simps(2) [of _ "CHR '',''"])
  qed (use word assms(1) in \<open>simp_all add: token_ok_def\<close>)
qed

lemma lex_show_toks:
  "list_all (token_ok L) ts \<Longrightarrow> lex_loop L (show_toks ts) acc = Inr (acc @ ts)"
proof (induction ts arbitrary: acc)
  case (Cons t ts)
  show ?case
  proof (cases ts)
    case Nil
    then show ?thesis using Cons.prems lex_show_tok [of L t "[]" acc] by (simp add: show_toks_def)
  next
    case (Cons u us)
    then have "show_toks (t # ts) = show_tok t @ CHR '' '' # show_toks ts" by (simp add: show_toks_def)
    moreover have "lex_loop L (CHR '' '' # show_toks ts) (acc @ [t]) = lex_loop L (show_toks ts) (acc @ [t])"
      by (simp add: lex_loop.simps(2) is_blank_def)
    ultimately show ?thesis using Cons.prems Cons.IH [of "acc @ [t]"] lex_show_tok [of L t "CHR '' '' # show_toks ts" acc]
      by (simp add: is_blank_def)
  qed
qed (simp add: show_toks_def)

text \<open>Lexing is the inverse of writing.  Any list of tokens of the filter language, strings
  with quotes and backslashes in them included, written out with blanks between and lexed
  again, gives the same tokens.\<close>

theorem lex_written_tokens:
  assumes "list_all (token_ok L) ts"
  shows "lex L (show_toks ts) = Inr ts"
  using lex_show_toks [OF assms, of "[]"] by (simp add: lex_def)

theorem lex_written_tokens_witness:
  "lex ascii_lib (show_toks [tok tIdent ''path'', tok tOp ''contains'', tok tString [quote2, backslash, CHR ''x'']])
     = Inr [tok tIdent ''path'', tok tOp ''contains'', tok tString [quote2, backslash, CHR ''x'']]"
proof -
  have "token_ok ascii_lib (tok tIdent ''path'')" "token_ok ascii_lib (tok tOp ''contains'')"
    by code_simp+
  then show ?thesis by (intro lex_written_tokens) (simp add: token_ok_def)
qed

end
