(* ===== verification/Hub_Filter.thy ===== *)
theory Hub_Filter
  imports Hub_Lexer
begin

text \<open>
  The filter language of \<open>internal/hub/filter.go\<close>: the value matchers, the recursive-descent
  parser that compiles an expression to a predicate as it reads it, and \<open>CompileFilter\<close>.

  The parser's state is the tokens still to read and the nesting depth; each function returns
  an error or the predicate and what is left.  The two loops (\<open>and\<close>, \<open>or\<close>) are functions of
  their own.  Each continues only on a shorter rest, so that the recursion terminates by a
  measure; the error \<open>NoProgress\<close> of the other case is proved unreachable.
\<close>

type_synonym Predicate = "Entry \<Rightarrow> bool"
type_synonym parsed = "filter_error + Predicate \<times> token list"

definition maxFilterLen :: nat where "maxFilterLen = 4096"
definition maxFilterDepth :: nat where "maxFilterDepth = 64"
definition maxInListLen :: nat where "maxInListLen = 64"
definition maxRegexLen :: nat where "maxRegexLen = 256"

subsection \<open>Value matchers\<close>

definition isRelational :: "string \<Rightarrow> bool" where
  "isRelational oper \<longleftrightarrow> oper \<in> {''>'', ''<'', ''>='', ''<=''}"

definition numericValueMatcher :: "golib \<Rightarrow> string \<Rightarrow> string \<Rightarrow> string \<Rightarrow> numgetter \<Rightarrow> filter_error + Predicate" where
  "numericValueMatcher L field oper want getter =
     (case parse_float L want of
        None \<Rightarrow> Inl (NeedsNumber field oper want)
      | Some wantF \<Rightarrow> Inr (\<lambda>e. case getter e of None \<Rightarrow> False
          | Some v \<Rightarrow> if oper = ''>'' then f_less wantF v else if oper = ''<'' then f_less v wantF
                      else if oper = ''>='' then f_le wantF v else f_le v wantF))"

definition valueMatcher :: "golib \<Rightarrow> string \<Rightarrow> string \<Rightarrow> string \<Rightarrow> filter_error + (string \<Rightarrow> bool)" where
  "valueMatcher L field oper want =
     (if oper = ''=='' \<or> oper = ''!='' then
        (case parse_cidr L want of
           Some ipnet \<Rightarrow>
             Inr (\<lambda>actual. case parse_ip L actual of
                 None \<Rightarrow> oper = ''!='' | Some ip \<Rightarrow> if oper = ''!='' then \<not> ipnet ip else ipnet ip)
         | None \<Rightarrow>
             Inr (\<lambda>actual. if oper = ''!='' then \<not> equal_fold L actual want else equal_fold L actual want))
      else if oper = ''contains'' then
        (let lowWant = to_lower L want
         in Inr (\<lambda>actual. contains_str actual lowWant \<or> contains_str (to_lower L actual) lowWant))
      else if isRelational oper then
        (case parse_float L want of
           None \<Rightarrow> Inl (NeedsNumber field oper want)
         | Some wantF \<Rightarrow> Inr (\<lambda>actual. case parse_float L actual of None \<Rightarrow> False
             | Some af \<Rightarrow> if oper = ''>'' then f_less wantF af else if oper = ''<'' then f_less af wantF
                          else if oper = ''>='' then f_le wantF af else f_le af wantF))
      else Inl (UnsupportedOperator field oper))"

definition either_side :: "golib \<Rightarrow> string \<Rightarrow> bool" where
  "either_side L field \<longleftrightarrow> to_lower L field = ''namespace'' \<or> to_lower L field = ''ns''"

definition buildFieldPredicate :: "golib \<Rightarrow> string \<Rightarrow> (string \<Rightarrow> bool) \<Rightarrow> filter_error + Predicate" where
  "buildFieldPredicate L field match =
     (if either_side L field then
        Inr (\<lambda>e. match (ep_Namespace (e_Source e)) \<or> match (ep_Namespace (e_Destination e)))
      else (case fieldGetter L field of
          None \<Rightarrow> Inl (UnknownField field)
        | Some getter \<Rightarrow> Inr (\<lambda>e. match (getter e))))"

text \<open>\<open>field op value\<close>, once its three parts have been read.\<close>

definition comparison :: "golib \<Rightarrow> string \<Rightarrow> string \<Rightarrow> string \<Rightarrow> filter_error + Predicate" where
  "comparison L field oper v =
     (if oper = ''matches'' then
        (if length v > maxRegexLen then Inl (PatternTooLong field (length v))
         else (case compile_regexp L v of
             None \<Rightarrow> Inl (InvalidRegex field v)
           | Some re \<Rightarrow> buildFieldPredicate L field re))
      else if oper = ''startswith'' then
        buildFieldPredicate L field (\<lambda>actual. length actual \<ge> length v \<and> equal_fold L (take (length v) actual) v)
      else if either_side L field then
        (case valueMatcher L field (if oper = ''!='' then ''=='' else oper) v of
           Inl err \<Rightarrow> Inl err
         | Inr match \<Rightarrow>
             if oper = ''!='' then
               Inr (\<lambda>e. \<not> match (ep_Namespace (e_Source e)) \<and> \<not> match (ep_Namespace (e_Destination e)))
             else Inr (\<lambda>e. match (ep_Namespace (e_Source e)) \<or> match (ep_Namespace (e_Destination e))))
      else (case fieldGetter L field of
          None \<Rightarrow> Inl (UnknownField field)
        | Some getter \<Rightarrow>
            (case (numericFieldGetter L field, isRelational oper) of
               (Some ng, True) \<Rightarrow> numericValueMatcher L field oper v ng
             | _ \<Rightarrow> (case valueMatcher L field oper v of
                   Inl err \<Rightarrow> Inl err
                 | Inr match \<Rightarrow> Inr (\<lambda>e. match (getter e))))))"

definition in_list :: "golib \<Rightarrow> string list \<Rightarrow> string \<Rightarrow> bool" where
  "in_list L values actual \<longleftrightarrow> list_ex (equal_fold L actual) values"

subsection \<open>The parser\<close>

text \<open>\<open>cur\<close>: past the end it is an operator with no text.\<close>

definition cur :: "token list \<Rightarrow> token" where
  "cur ts = (case ts of [] \<Rightarrow> tok tOp [] | t # _ \<Rightarrow> t)"

fun inList_loop :: "token list \<Rightarrow> string list \<Rightarrow> filter_error + string list \<times> token list" where
  "inList_loop [] values = Inl (ExpectedListValue [])"
| "inList_loop (t # ts) values =
     (if kind t \<notin> {tString, tNumber, tIdent} then Inl (ExpectedListValue (val t))
      else let values' = values @ [val t] in
        if length values' > maxInListLen then Inl ListTooLong
        else (case ts of
            [] \<Rightarrow> Inl (ExpectedListSeparator [])
          | u # us \<Rightarrow>
              if kind u = tRParen then Inr (values', us)
              else if kind u \<noteq> tComma then Inl (ExpectedListSeparator (val u))
              else inList_loop us values'))"

definition parseInList :: "token list \<Rightarrow> filter_error + string list \<times> token list" where
  "parseInList ts =
     (if kind (cur ts) \<noteq> tLParen then Inl ExpectedLParenAfterIn else inList_loop (tl ts) [])"

text \<open>\<open>parseComparison\<close>, entered with the field and operator tokens in front.\<close>

definition parseComparison :: "golib \<Rightarrow> token list \<Rightarrow> parsed" where
  "parseComparison L ts =
     (let field = val (cur ts); oper = val (cur (tl ts)); rest = tl (tl ts) in
      if oper = ''in'' then
        (case parseInList rest of
           Inl err \<Rightarrow> Inl err
         | Inr (values, ts') \<Rightarrow> map_sum id (\<lambda>p. (p, ts')) (buildFieldPredicate L field (in_list L values)))
      else (case rest of
          [] \<Rightarrow> Inl (ExpectedValue oper)
        | v # ts' \<Rightarrow> map_sum id (\<lambda>p. (p, ts')) (comparison L field oper (val v))))"

definition text_match :: "golib \<Rightarrow> string \<Rightarrow> Predicate" where
  "text_match L v = (let needle = to_lower L v in (\<lambda>e. contains_str (fulltext L e) needle))"

lemma cur_kind_nonempty: "kind (cur ts) \<noteq> tOp \<Longrightarrow> ts \<noteq> []"
  by (auto simp: cur_def)

function parseOr :: "golib \<Rightarrow> nat \<Rightarrow> token list \<Rightarrow> parsed"
  and orLoop :: "golib \<Rightarrow> nat \<Rightarrow> Predicate \<Rightarrow> token list \<Rightarrow> parsed"
  and parseAnd :: "golib \<Rightarrow> nat \<Rightarrow> token list \<Rightarrow> parsed"
  and andLoop :: "golib \<Rightarrow> nat \<Rightarrow> Predicate \<Rightarrow> token list \<Rightarrow> parsed"
  and parseUnary :: "golib \<Rightarrow> nat \<Rightarrow> token list \<Rightarrow> parsed"
  and parsePrimary :: "golib \<Rightarrow> nat \<Rightarrow> token list \<Rightarrow> parsed"
where
  "parseOr L depth ts =
     (case parseAnd L depth ts of Inl err \<Rightarrow> Inl err
      | Inr (left, ts') \<Rightarrow> if length ts' < length ts then orLoop L depth left ts' else Inl NoProgress)"
| "orLoop L depth left ts =
     (if kind (cur ts) = tOr then
        (case parseAnd L depth (tl ts) of Inl err \<Rightarrow> Inl err
         | Inr (right, ts') \<Rightarrow>
             if length ts' < length ts then orLoop L depth (\<lambda>e. left e \<or> right e) ts' else Inl NoProgress)
      else Inr (left, ts))"
| "parseAnd L depth ts =
     (case parseUnary L depth ts of Inl err \<Rightarrow> Inl err
      | Inr (left, ts') \<Rightarrow> if length ts' < length ts then andLoop L depth left ts' else Inl NoProgress)"
| "andLoop L depth left ts =
     (if kind (cur ts) = tAnd then
        (case parseUnary L depth (tl ts) of Inl err \<Rightarrow> Inl err
         | Inr (right, ts') \<Rightarrow>
             if length ts' < length ts then andLoop L depth (\<lambda>e. left e \<and> right e) ts' else Inl NoProgress)
      else Inr (left, ts))"
| "parseUnary L depth ts =
     (if kind (cur ts) = tNot then
        (if depth + 1 > maxFilterDepth then Inl NestingTooDeep
         else (case parseUnary L (depth + 1) (tl ts) of Inl err \<Rightarrow> Inl err
               | Inr (inner, ts') \<Rightarrow> Inr (\<lambda>e. \<not> inner e, ts')))
      else parsePrimary L depth ts)"
| "parsePrimary L depth ts =
     (case kind (cur ts) of
        tLParen \<Rightarrow>
          (if depth + 1 > maxFilterDepth then Inl NestingTooDeep
           else (case parseOr L (depth + 1) (tl ts) of Inl err \<Rightarrow> Inl err
                 | Inr (inner, ts') \<Rightarrow>
                     if kind (cur ts') \<noteq> tRParen then Inl ExpectedRParen else Inr (inner, tl ts')))
      | tString \<Rightarrow> Inr (text_match L (val (cur ts)), tl ts)
      | tNumber \<Rightarrow> Inr (text_match L (val (cur ts)), tl ts)
      | tIdent \<Rightarrow> (if tl ts \<noteq> [] \<and> kind (hd (tl ts)) = tOp then parseComparison L ts
                   else Inr (text_match L (val (cur ts)), tl ts))
      | _ \<Rightarrow> Inl (UnexpectedToken (val (cur ts))))"
  by pat_completeness auto

termination
  by (relation "measures [\<lambda>x. case x of Inl (Inl (L, d, ts)) \<Rightarrow> length ts
        | Inl (Inr (Inl (L, d, p, ts))) \<Rightarrow> length ts | Inl (Inr (Inr (L, d, ts))) \<Rightarrow> length ts
        | Inr (Inl (L, d, p, ts)) \<Rightarrow> length ts | Inr (Inr (Inl (L, d, ts))) \<Rightarrow> length ts
        | Inr (Inr (Inr (L, d, ts))) \<Rightarrow> length ts,
      \<lambda>x. case x of Inl (Inl _) \<Rightarrow> 4 | Inl (Inr (Inl _)) \<Rightarrow> 0 | Inl (Inr (Inr _)) \<Rightarrow> 3
        | Inr (Inl _) \<Rightarrow> 0 | Inr (Inr (Inl _)) \<Rightarrow> 2 | Inr (Inr (Inr _)) \<Rightarrow> (1::nat)]")
     (auto dest!: cur_kind_nonempty [rotated] simp: cur_def split: list.splits)

definition CompileFilter :: "golib \<Rightarrow> string \<Rightarrow> filter_error + Predicate" where
  "CompileFilter L s =
     (let expr = trim_space s in
      if expr = [] then Inr (\<lambda>_. True)
      else if length expr > maxFilterLen then Inl (TooLong (length expr))
      else (case lex L expr of Inl err \<Rightarrow> Inl err
        | Inr toks \<Rightarrow> (case parseOr L 0 toks of Inl err \<Rightarrow> Inl err
          | Inr (pred, rest) \<Rightarrow> if rest \<noteq> [] then Inl (UnexpectedToken (val (cur rest))) else Inr pred)))"

declare parseOr.simps [simp del] orLoop.simps [simp del] parseAnd.simps [simp del]
  andLoop.simps [simp del] parseUnary.simps [simp del] parsePrimary.simps [simp del]

lemmas parser_induct = parseOr_orLoop_parseAnd_andLoop_parseUnary_parsePrimary.induct
lemmas parser_simps = parseOr.simps orLoop.simps parseAnd.simps andLoop.simps parseUnary.simps parsePrimary.simps

subsection \<open>Progress\<close>

lemma cur_Cons [simp]: "cur (t # ts) = t"
  by (simp add: cur_def)

lemma cur_Nil [simp]: "cur [] = tok tOp []"
  by (simp add: cur_def)

lemma inList_loop_shorter: "inList_loop ts vs = Inr (ws, r) \<Longrightarrow> length r < length ts"
proof (induction ts vs rule: inList_loop.induct)
  case (2 t ts vs)
  then show ?case by (cases ts) (fastforce simp: Let_def split: if_splits)+
qed simp

lemma parseInList_shorter: "parseInList ts = Inr (ws, r) \<Longrightarrow> length r < length ts"
  using inList_loop_shorter [of "tl ts" "[]" ws r]
  by (cases ts) (auto simp: parseInList_def split: if_splits)

lemma map_sum_eq_Inr: "map_sum id (\<lambda>p. (p, ts')) x = Inr y \<longleftrightarrow> (\<exists>p. x = Inr p \<and> y = (p, ts'))"
  by (cases x) auto

lemma map_sum_eq_Inl: "map_sum id f x = Inl y \<longleftrightarrow> x = Inl y"
  by (cases x) auto

lemma parseComparison_shorter:
  assumes "parseComparison L ts = Inr (p, r)"
  shows "length r < length ts"
proof -
  have "length r < length (tl (tl ts))"
    using assms by (auto simp: parseComparison_def Let_def map_sum_eq_Inr simp del: length_tl
        split: sum.splits list.splits if_splits dest!: parseInList_shorter)
  then show ?thesis by (cases ts; cases "tl ts") auto
qed

lemma parser_progress:
  "parseOr L d ts = Inr (p, r) \<Longrightarrow> length r < length ts"
  "orLoop L d l ts = Inr (p, r) \<Longrightarrow> length r \<le> length ts"
  "parseAnd L d ts = Inr (p, r) \<Longrightarrow> length r < length ts"
  "andLoop L d l ts = Inr (p, r) \<Longrightarrow> length r \<le> length ts"
  "parseUnary L d ts = Inr (p, r) \<Longrightarrow> length r < length ts"
  "parsePrimary L d ts = Inr (p, r) \<Longrightarrow> length r < length ts"
proof (induction L d ts and L d l ts and L d ts and L d l ts and L d ts and L d ts
    arbitrary: p r and p r and p r and p r and p r and p r rule: parser_induct)
  case (1 L depth ts)
  then show ?case by (fastforce simp: parseOr.simps [of L depth ts] split: sum.splits if_splits)
next
  case (2 L depth left ts)
  then show ?case by (fastforce simp: orLoop.simps [of L depth left ts] split: sum.splits if_splits)
next
  case (3 L depth ts)
  then show ?case by (fastforce simp: parseAnd.simps [of L depth ts] split: sum.splits if_splits)
next
  case (4 L depth left ts)
  then show ?case by (fastforce simp: andLoop.simps [of L depth left ts] split: sum.splits if_splits)
next
  case (5 L depth ts)
  then show ?case
    by (cases ts) (force simp: parseUnary.simps [of L depth] split: sum.splits if_splits)+
next
  case (6 L depth ts)
  then show ?case
    by (cases ts) (force simp: parsePrimary.simps [of L depth] split: sum.splits if_splits tokKind.splits
        dest: parseComparison_shorter)+
qed

text \<open>The progress checks never fail: the loops are the source's.\<close>

lemma parseOr_eq: "parseOr L d ts = (case parseAnd L d ts of Inl err \<Rightarrow> Inl err | Inr (l, r) \<Rightarrow> orLoop L d l r)"
  using parser_progress(3) by (fastforce simp: parseOr.simps [of L d ts] split: sum.splits)

lemma parseAnd_eq: "parseAnd L d ts = (case parseUnary L d ts of Inl err \<Rightarrow> Inl err | Inr (l, r) \<Rightarrow> andLoop L d l r)"
  using parser_progress(5) by (fastforce simp: parseAnd.simps [of L d ts] split: sum.splits)

lemma less_tl: "length r < length (tl ts) \<Longrightarrow> length r < length ts"
  by (cases ts) auto

lemma orLoop_eq: "orLoop L d l ts = (if kind (cur ts) = tOr then
    (case parseAnd L d (tl ts) of Inl err \<Rightarrow> Inl err | Inr (p, r) \<Rightarrow> orLoop L d (\<lambda>e. l e \<or> p e) r) else Inr (l, ts))"
  using parser_progress(3) [of L d "tl ts", THEN less_tl]
  by (auto simp: orLoop.simps [of L d l ts] split: sum.splits)

lemma andLoop_eq: "andLoop L d l ts = (if kind (cur ts) = tAnd then
    (case parseUnary L d (tl ts) of Inl err \<Rightarrow> Inl err | Inr (p, r) \<Rightarrow> andLoop L d (\<lambda>e. l e \<and> p e) r) else Inr (l, ts))"
  using parser_progress(5) [of L d "tl ts", THEN less_tl]
  by (auto simp: andLoop.simps [of L d l ts] split: sum.splits)

lemma atoms_progress:
  "inList_loop ts vs \<noteq> Inl NoProgress" "parseInList ts \<noteq> Inl NoProgress"
  "buildFieldPredicate L f m \<noteq> Inl NoProgress" "valueMatcher L f oper v \<noteq> Inl NoProgress"
  "numericValueMatcher L f oper v ng \<noteq> Inl NoProgress"
proof -
  show a: "inList_loop ts vs \<noteq> Inl NoProgress" for ts vs
    by (induction ts vs rule: inList_loop.induct) (auto simp: Let_def split: list.splits)
  show "parseInList ts \<noteq> Inl NoProgress" using a by (simp add: parseInList_def)
qed (auto simp: buildFieldPredicate_def valueMatcher_def numericValueMatcher_def Let_def split: option.splits)

lemma comparison_progress: "comparison L f oper v \<noteq> Inl NoProgress"
  using atoms_progress by (auto simp: comparison_def split: option.splits sum.splits prod.splits bool.splits)

lemma parseComparison_progress: "parseComparison L ts \<noteq> Inl NoProgress"
  using atoms_progress comparison_progress
  by (auto simp: parseComparison_def Let_def map_sum_eq_Inl split: sum.splits list.splits)

text \<open>The two things a parse step is made of, sequencing and branching, keep a property of results
  such as not being stuck.\<close>

lemma seq_not_stuck:
  assumes "x \<noteq> Inl NoProgress" "\<And>l r. x = Inr (l, r) \<Longrightarrow> f l r \<noteq> Inl NoProgress"
  shows "(case x of Inl err \<Rightarrow> Inl err | Inr (l, r) \<Rightarrow> f l r) \<noteq> Inl NoProgress"
  using assms by (auto split: sum.splits)

lemma if_not_stuck:
  "(b \<Longrightarrow> x \<noteq> Inl NoProgress) \<Longrightarrow> (if b then x else Inr y) \<noteq> Inl NoProgress"
  by simp

lemma parser_never_stuck:
  "parseOr L d ts \<noteq> Inl NoProgress" "orLoop L d l ts \<noteq> Inl NoProgress" "parseAnd L d ts \<noteq> Inl NoProgress"
  "andLoop L d l ts \<noteq> Inl NoProgress" "parseUnary L d ts \<noteq> Inl NoProgress" "parsePrimary L d ts \<noteq> Inl NoProgress"
proof (induction L d ts and L d l ts and L d ts and L d l ts and L d ts and L d ts rule: parser_induct)
  case (1 L depth ts)
  show ?case unfolding parseOr_eq
    by (rule seq_not_stuck [OF 1(1)]) (use 1(2) parser_progress(3) in blast)
next
  case (2 L depth left ts)
  show ?case unfolding orLoop_eq [of L depth left ts]
    by (intro if_not_stuck seq_not_stuck [OF 2(1)])
       (use 2(2) parser_progress(3) [THEN less_tl] in blast)+
next
  case (3 L depth ts)
  show ?case unfolding parseAnd_eq
    by (rule seq_not_stuck [OF 3(1)]) (use 3(2) parser_progress(5) in blast)
next
  case (4 L depth left ts)
  show ?case unfolding andLoop_eq [of L depth left ts]
    by (intro if_not_stuck seq_not_stuck [OF 4(1)])
       (use 4(2) parser_progress(5) [THEN less_tl] in blast)+
next
  case (5 L depth ts)
  then show ?case by (auto simp: parseUnary.simps [of L depth ts] split: sum.splits)
next
  case (6 L depth ts)
  then show ?case using parseComparison_progress
    by (auto simp: parsePrimary.simps [of L depth ts] split: sum.splits tokKind.splits)
qed

subsection \<open>Nesting\<close>

text \<open>A run of \<open>not\<close> and opening parentheses, the tokens the parser recurses on.\<close>

abbreviation nests :: "token \<Rightarrow> bool" where
  "nests t \<equiv> kind t \<in> {tNot, tLParen}"

lemma deep_rejected:
  "list_all nests ns \<Longrightarrow> maxFilterDepth < d + length ns \<Longrightarrow> d \<le> maxFilterDepth \<Longrightarrow>
   parseUnary L d (ns @ ts) = Inl NestingTooDeep"
proof (induction ns arbitrary: d)
  case (Cons n ns)
  show ?case
  proof (cases "d + 1 > maxFilterDepth")
    case True
    then show ?thesis using Cons.prems by (auto simp: parseUnary.simps parsePrimary.simps)
  next
    case False
    then have "parseUnary L (d + 1) (ns @ ts) = Inl NestingTooDeep" using Cons by simp
    then show ?thesis using Cons.prems False
      by (auto simp: parseUnary.simps [of L d] parsePrimary.simps [of L d] parseOr_eq parseAnd_eq)
  qed
qed simp

subsection \<open>A parse does not depend on the depth it starts at\<close>

definition deeper :: "parsed \<Rightarrow> parsed \<Rightarrow> bool" where
  "deeper x y \<longleftrightarrow> x = Inl NestingTooDeep \<or> x = y"

lemma deeper_refl [simp, intro]: "deeper x x"
  by (simp add: deeper_def)

lemma deeper_seq:
  assumes "deeper x y" "\<And>l r. y = Inr (l, r) \<Longrightarrow> deeper (f l r) (g l r)"
  shows "deeper (case x of Inl err \<Rightarrow> Inl err | Inr (l, r) \<Rightarrow> f l r) (case y of Inl err \<Rightarrow> Inl err | Inr (l, r) \<Rightarrow> g l r)"
  using assms by (auto simp: deeper_def split: sum.splits)

lemma deeper_if:
  "(b \<Longrightarrow> deeper x y) \<Longrightarrow> (\<not> b \<Longrightarrow> deeper x' y') \<Longrightarrow> deeper (if b then x else x') (if b then y else y')"
  by simp

lemma depth_shift:
  "d \<le> d' \<Longrightarrow> deeper (parseOr L d' ts) (parseOr L d ts)"
  "d \<le> d' \<Longrightarrow> deeper (orLoop L d' l ts) (orLoop L d l ts)"
  "d \<le> d' \<Longrightarrow> deeper (parseAnd L d' ts) (parseAnd L d ts)"
  "d \<le> d' \<Longrightarrow> deeper (andLoop L d' l ts) (andLoop L d l ts)"
  "d \<le> d' \<Longrightarrow> deeper (parseUnary L d' ts) (parseUnary L d ts)"
  "d \<le> d' \<Longrightarrow> deeper (parsePrimary L d' ts) (parsePrimary L d ts)"
proof (induction L d ts and L d l ts and L d ts and L d l ts and L d ts and L d ts
    arbitrary: d' and d' and d' and d' and d' and d' rule: parser_induct)
  case (1 L depth ts)
  show ?case unfolding parseOr_eq [of L _ ts]
    by (rule deeper_seq [OF 1(1) [OF 1(3)]]) (use 1(2,3) parser_progress(3) in blast)
next
  case (2 L depth left ts)
  show ?case unfolding orLoop_eq [of L _ left ts]
    by (intro deeper_if deeper_refl deeper_seq [OF 2(1) [OF _ 2(3)]])
       (use 2(2,3) parser_progress(3) [THEN less_tl] in blast)+
next
  case (3 L depth ts)
  show ?case unfolding parseAnd_eq [of L _ ts]
    by (rule deeper_seq [OF 3(1) [OF 3(3)]]) (use 3(2,3) parser_progress(5) in blast)
next
  case (4 L depth left ts)
  show ?case unfolding andLoop_eq [of L _ left ts]
    by (intro deeper_if deeper_refl deeper_seq [OF 4(1) [OF _ 4(3)]])
       (use 4(2,3) parser_progress(5) [THEN less_tl] in blast)+
next
  case (5 L depth ts)
  have "\<not> depth + 1 > maxFilterDepth" if "\<not> d' + 1 > maxFilterDepth" using 5(3) that by simp
  then show ?case unfolding parseUnary.simps [of L _ ts]
    by (cases "d' + 1 > maxFilterDepth")
       (use 5 in \<open>auto simp: deeper_def [of "Inl NestingTooDeep"] intro!: deeper_seq\<close>)
next
  case (6 L depth ts)
  have "\<not> depth + 1 > maxFilterDepth" if "\<not> d' + 1 > maxFilterDepth" using 6(2) that by simp
  then show ?case unfolding parsePrimary.simps [of L _ ts]
    by (cases "d' + 1 > maxFilterDepth")
       (use 6 in \<open>auto simp: deeper_def [of "Inl NestingTooDeep"] intro!: deeper_seq split: tokKind.splits\<close>)
qed

subsection \<open>A parse does not look past a closing parenthesis\<close>

definition extends :: "token list \<Rightarrow> filter_error + 'a \<times> token list \<Rightarrow> filter_error + 'a \<times> token list \<Rightarrow> bool" where
  "extends z x y \<longleftrightarrow> (\<forall>p r. x = Inr (p, r) \<longrightarrow> y = Inr (p, r @ z))"

lemma extends_Inl [simp]: "extends z (Inl err) y"
  by (simp add: extends_def)

lemma extends_Inr [simp]: "extends z (Inr (p, r)) y \<longleftrightarrow> y = Inr (p, r @ z)"
  by (auto simp: extends_def)

lemma extends_seq:
  assumes "extends z x y" "\<And>l r. x = Inr (l, r) \<Longrightarrow> extends z (f l r) (g l (r @ z))"
  shows "extends z (case x of Inl err \<Rightarrow> Inl err | Inr (l, r) \<Rightarrow> f l r) (case y of Inl err \<Rightarrow> Inl err | Inr (l, r) \<Rightarrow> g l r)"
  using assms by (cases x) auto

lemma extends_if:
  "(b \<Longrightarrow> extends z x y) \<Longrightarrow> (\<not> b \<Longrightarrow> extends z x' y') \<Longrightarrow> extends z (if b then x else x') (if b then y else y')"
  by simp

lemma extends_map: "extends z (map_sum id (\<lambda>p. (p, r)) x) (map_sum id (\<lambda>p. (p, r @ z)) x)"
  by (cases x) auto

lemma inList_extends: "extends z (inList_loop ts vs) (inList_loop (ts @ z) vs)"
proof (induction ts vs rule: inList_loop.induct)
  case (2 t ts vs)
  then show ?case by (cases ts) (auto simp: Let_def)
qed simp

lemma parseInList_extends: "extends z (parseInList ts) (parseInList (ts @ z))"
  using inList_extends [of z "tl ts" "[]"] by (cases ts) (auto simp: parseInList_def)

lemma parseComparison_extends:
  assumes "length ts \<ge> 2"
  shows "extends z (parseComparison L ts) (parseComparison L (ts @ z))"
proof -
  obtain a b r where ts: "ts = a # b # r" using assms by (metis One_nat_def Suc_1 Suc_le_length_iff)
  show ?thesis
  proof (cases "val b = ''in''")
    case True
    then show ?thesis using parseInList_extends [of z r]
      by (auto simp: ts parseComparison_def Let_def extends_def map_sum_eq_Inr split: sum.splits)
  next
    case False
    then show ?thesis by (cases r) (auto simp: ts parseComparison_def Let_def extends_map)
  qed
qed

lemma parser_extends:
  assumes "kind (cur z) = tRParen"
  shows
  "extends z (parseOr L d ts) (parseOr L d (ts @ z))"
  "extends z (orLoop L d l ts) (orLoop L d l (ts @ z))"
  "extends z (parseAnd L d ts) (parseAnd L d (ts @ z))"
  "extends z (andLoop L d l ts) (andLoop L d l (ts @ z))"
  "extends z (parseUnary L d ts) (parseUnary L d (ts @ z))"
  "extends z (parsePrimary L d ts) (parsePrimary L d (ts @ z))"
proof (induction L d ts and L d l ts and L d ts and L d l ts and L d ts and L d ts rule: parser_induct)
  case (1 L depth ts)
  show ?case unfolding parseOr_eq [of L depth]
    by (rule extends_seq [OF 1(1)]) (use 1(2) parser_progress(3) in blast)
next
  case (2 L depth left ts)
  show ?case
  proof (cases ts)
    case (Cons t us)
    then have c: "cur (ts @ z) = cur ts" "tl (ts @ z) = tl ts @ z" by auto
    show ?thesis unfolding orLoop_eq [of L depth left] c
      by (rule extends_if, rule extends_seq [OF 2(1)])
         (use 2(2) parser_progress(3) [THEN less_tl] in \<open>blast | simp\<close>)+
  qed (use assms in \<open>simp add: orLoop_eq\<close>)
next
  case (3 L depth ts)
  show ?case unfolding parseAnd_eq [of L depth]
    by (rule extends_seq [OF 3(1)]) (use 3(2) parser_progress(5) in blast)
next
  case (4 L depth left ts)
  show ?case
  proof (cases ts)
    case (Cons t us)
    then have c: "cur (ts @ z) = cur ts" "tl (ts @ z) = tl ts @ z" by auto
    show ?thesis unfolding andLoop_eq [of L depth left] c
      by (rule extends_if, rule extends_seq [OF 4(1)])
         (use 4(2) parser_progress(5) [THEN less_tl] in \<open>blast | simp\<close>)+
  qed (use assms in \<open>simp add: andLoop_eq\<close>)
next
  case (5 L depth ts)
  show ?case
  proof (cases ts)
    case (Cons t us)
    then show ?thesis unfolding parseUnary.simps [of L depth] using 5 by (auto intro!: extends_seq)
  qed (simp add: parseUnary.simps [of L depth "[]"] parsePrimary.simps [of L depth "[]"])
next
  case (6 L depth ts)
  show ?case
  proof (cases ts)
    case (Cons t us)
    have close: "extends z (if kind (cur r) \<noteq> tRParen then Inl ExpectedRParen else Inr (p, tl r))
        (if kind (cur (r @ z)) \<noteq> tRParen then Inl ExpectedRParen else Inr (p, tl (r @ z)))" for r and p :: Predicate
      by (cases r) auto
    have "extends z (if tl ts \<noteq> [] \<and> kind (hd (tl ts)) = tOp then parseComparison L ts else Inr (q, tl ts))
        (if tl (ts @ z) \<noteq> [] \<and> kind (hd (tl (ts @ z))) = tOp then parseComparison L (ts @ z) else Inr (q, tl (ts @ z)))" for q
      using Cons assms parseComparison_extends [of ts z L] by (cases us; cases z) auto
    then show ?thesis unfolding parsePrimary.simps [of L depth] using 6 Cons close
      by (auto intro!: extends_seq split: tokKind.splits)
  qed (simp add: parsePrimary.simps [of L depth "[]"])
qed

subsection \<open>The language: abstract syntax, writing and meaning\<close>

datatype filter_ast =
    FOr filter_ast filter_ast
  | FAnd filter_ast filter_ast
  | FNot filter_ast
  | FText string
  | FCmp string string string
  | FIn string "string list"

primrec meaning :: "golib \<Rightarrow> filter_ast \<Rightarrow> Predicate" where
  "meaning L (FOr a b) = (\<lambda>e. meaning L a e \<or> meaning L b e)"
| "meaning L (FAnd a b) = (\<lambda>e. meaning L a e \<and> meaning L b e)"
| "meaning L (FNot a) = (\<lambda>e. \<not> meaning L a e)"
| "meaning L (FText s) = text_match L s"
| "meaning L (FCmp f oper v) = (case comparison L f oper v of Inr p \<Rightarrow> p | Inl _ \<Rightarrow> (\<lambda>_. False))"
| "meaning L (FIn f vs) = (case buildFieldPredicate L f (in_list L vs) of Inr p \<Rightarrow> p | Inl _ \<Rightarrow> (\<lambda>_. False))"

definition paren :: "bool \<Rightarrow> token list \<Rightarrow> token list" where
  "paren b ts = (if b then tok tLParen ''('' # ts @ [tok tRParen '')''] else ts)"

fun list_tokens :: "string list \<Rightarrow> token list" where
  "list_tokens [] = [tok tRParen '')'']"
| "list_tokens [v] = [tok tString v, tok tRParen '')'']"
| "list_tokens (v # w # vs) = tok tString v # tok tComma '','' # list_tokens (w # vs)"

text \<open>An expression written with the parentheses its place needs: \<open>k\<close> is 0 where an \<open>or\<close> may
  stand, 1 where an \<open>and\<close> may, 2 elsewhere.\<close>

primrec tokens :: "filter_ast \<Rightarrow> nat \<Rightarrow> token list" where
  "tokens (FOr a b) k = paren (k > 0) (tokens a 0 @ tok tOr ''or'' # tokens b 1)"
| "tokens (FAnd a b) k = paren (k > 1) (tokens a 1 @ tok tAnd ''and'' # tokens b 2)"
| "tokens (FNot a) k = tok tNot ''not'' # tokens a 2"
| "tokens (FText s) k = [tok tString s]"
| "tokens (FCmp f oper v) k = [tok tIdent f, tok tOp oper, tok tString v]"
| "tokens (FIn f vs) k = tok tIdent f # tok tOp ''in'' # tok tLParen ''('' # list_tokens vs"

primrec nesting :: "filter_ast \<Rightarrow> nat \<Rightarrow> nat" where
  "nesting (FOr a b) k = (if k > 0 then 1 else 0) + max (nesting a 0) (nesting b 1)"
| "nesting (FAnd a b) k = (if k > 1 then 1 else 0) + max (nesting a 1) (nesting b 2)"
| "nesting (FNot a) k = 1 + nesting a 2"
| "nesting (FText s) k = 0"
| "nesting (FCmp f oper v) k = 0"
| "nesting (FIn f vs) k = 0"

definition plain_word :: "golib \<Rightarrow> string \<Rightarrow> bool" where
  "plain_word L f \<longleftrightarrow> token_ok L (tok tIdent f) \<and> list_all (\<lambda>c. is_ascii c \<and> \<not> is_space_rune (byte c)) f"

text \<open>What the parser accepts of the leaves: a field name that lexes as one, an operator, and a
  comparison that compiles.\<close>

primrec filter_ok :: "golib \<Rightarrow> filter_ast \<Rightarrow> bool" where
  "filter_ok L (FOr a b) \<longleftrightarrow> filter_ok L a \<and> filter_ok L b"
| "filter_ok L (FAnd a b) \<longleftrightarrow> filter_ok L a \<and> filter_ok L b"
| "filter_ok L (FNot a) \<longleftrightarrow> filter_ok L a"
| "filter_ok L (FText s) \<longleftrightarrow> True"
| "filter_ok L (FCmp f oper v) \<longleftrightarrow> plain_word L f \<and> (\<exists>p. comparison L f oper v = Inr p)
     \<and> oper \<in> {''=='', ''!='', ''>='', ''<='', ''>'', ''<'', ''contains'', ''matches'', ''startswith''}"
| "filter_ok L (FIn f vs) \<longleftrightarrow> plain_word L f \<and> (\<exists>p. buildFieldPredicate L f (in_list L vs) = Inr p)
     \<and> vs \<noteq> [] \<and> length vs \<le> maxInListLen"

lemma inList_tokens:
  "vs \<noteq> [] \<Longrightarrow> length acc + length vs \<le> maxInListLen \<Longrightarrow> inList_loop (list_tokens vs @ r) acc = Inr (acc @ vs, r)"
  by (induction vs arbitrary: acc rule: list_tokens.induct) auto

lemma parse_text: "parseUnary L d (tokens (FText s) k @ r) = Inr (meaning L (FText s), r)"
  by (simp add: parseUnary.simps parsePrimary.simps)

lemma parse_ident:
  "kind t = tOp \<Longrightarrow> parseUnary L d (tok tIdent f # t # r) = parseComparison L (tok tIdent f # t # r)"
  by (simp add: parseUnary.simps parsePrimary.simps)

lemma parse_cmp:
  assumes "filter_ok L (FCmp f oper v)"
  shows "parseUnary L d (tokens (FCmp f oper v) k @ r) = Inr (meaning L (FCmp f oper v), r)"
proof -
  have "oper \<noteq> ''in''" using assms by auto
  moreover obtain p where "comparison L f oper v = Inr p" using assms by auto
  ultimately show ?thesis by (simp add: parse_ident parseComparison_def)
qed

lemma parse_in:
  assumes "filter_ok L (FIn f vs)"
  shows "parseUnary L d (tokens (FIn f vs) k @ r) = Inr (meaning L (FIn f vs), r)"
proof -
  have "parseInList (tok tLParen ''('' # list_tokens vs @ r) = Inr (vs, r)"
    using assms inList_tokens [of vs "[]" r] by (simp add: parseInList_def)
  moreover obtain p where "buildFieldPredicate L f (in_list L vs) = Inr p" using assms by auto
  ultimately show ?thesis by (simp add: parse_ident parseComparison_def)
qed

text \<open>The parser on written text, at each of the three places an expression can stand.\<close>

definition parses :: "golib \<Rightarrow> filter_ast \<Rightarrow> bool" where
  "parses L f \<longleftrightarrow>
     (\<forall>d r. d + nesting f 0 \<le> maxFilterDepth \<longrightarrow> kind (cur r) \<noteq> tAnd \<longrightarrow>
        parseOr L d (tokens f 0 @ r) = orLoop L d (meaning L f) r)
     \<and> (\<forall>d r. d + nesting f 1 \<le> maxFilterDepth \<longrightarrow> parseAnd L d (tokens f 1 @ r) = andLoop L d (meaning L f) r)
     \<and> (\<forall>d r. d + nesting f 2 \<le> maxFilterDepth \<longrightarrow> parseUnary L d (tokens f 2 @ r) = Inr (meaning L f, r))"

lemma andLoop_stop: "kind (cur r) \<noteq> tAnd \<Longrightarrow> andLoop L d p r = Inr (p, r)"
  by (simp add: andLoop_eq)

lemma orLoop_stop: "kind (cur r) \<noteq> tOr \<Longrightarrow> orLoop L d p r = Inr (p, r)"
  by (simp add: orLoop_eq)

lemma parses_tight:
  assumes "\<And>d r. d + nesting f 2 \<le> maxFilterDepth \<Longrightarrow> parseUnary L d (tokens f 2 @ r) = Inr (meaning L f, r)"
    and "tokens f 1 = tokens f 2" "tokens f 0 = tokens f 2" "nesting f 1 = nesting f 2" "nesting f 0 = nesting f 2"
  shows "parses L f"
  using assms by (auto simp: parses_def parseOr_eq parseAnd_eq andLoop_stop)

lemma parseUnary_paren:
  assumes "\<And>r. kind (cur r) \<noteq> tAnd \<Longrightarrow> parseOr L (d + 1) (ts @ r) = orLoop L (d + 1) p r"
    and "d + 1 \<le> maxFilterDepth"
  shows "parseUnary L d (paren True ts @ r) = Inr (p, r)"
proof -
  have "parseOr L (d + 1) (ts @ tok tRParen '')'' # r) = Inr (p, tok tRParen '')'' # r)"
    using assms(1) [of "tok tRParen '')'' # r"] by (simp add: orLoop_stop)
  then show ?thesis using assms(2) by (simp add: paren_def parseUnary.simps parsePrimary.simps)
qed

lemma parses_FOr:
  assumes "parses L a" "parses L b"
  shows "parses L (FOr a b)"
proof -
  let ?f = "FOr a b"
  have O: "parseOr L d (tokens ?f 0 @ r) = orLoop L d (meaning L ?f) r"
    if "d + nesting ?f 0 \<le> maxFilterDepth" "kind (cur r) \<noteq> tAnd" for d r
  proof -
    have "parseOr L d (tokens ?f 0 @ r) = orLoop L d (meaning L a) (tok tOr ''or'' # tokens b 1 @ r)"
      using assms(1) that by (simp add: parses_def paren_def)
    also have "\<dots> = orLoop L d (meaning L ?f) r"
      using assms(2) that by (subst orLoop_eq) (simp add: parses_def andLoop_stop)
    finally show ?thesis .
  qed
  have U: "parseUnary L d (paren True (tokens ?f 0) @ r) = Inr (meaning L ?f, r)"
    if "d + 1 + nesting ?f 0 \<le> maxFilterDepth" for d r
    using that by (intro parseUnary_paren O) simp_all
  then show ?thesis using O by (simp add: parses_def parseAnd_eq paren_def)
qed

lemma parses_FAnd:
  assumes "parses L a" "parses L b"
  shows "parses L (FAnd a b)"
proof -
  let ?f = "FAnd a b"
  have A: "parseAnd L d (tokens ?f 1 @ r) = andLoop L d (meaning L ?f) r"
    if "d + nesting ?f 1 \<le> maxFilterDepth" for d r
  proof -
    have "parseAnd L d (tokens ?f 1 @ r) = andLoop L d (meaning L a) (tok tAnd ''and'' # tokens b 2 @ r)"
      using assms(1) that by (simp add: parses_def paren_def)
    also have "\<dots> = andLoop L d (meaning L ?f) r"
      using assms(2) that by (subst andLoop_eq) (simp add: parses_def)
    finally show ?thesis .
  qed
  have O: "parseOr L d (tokens ?f 1 @ r) = orLoop L d (meaning L ?f) r"
    if "d + nesting ?f 1 \<le> maxFilterDepth" "kind (cur r) \<noteq> tAnd" for d r
    using A that by (simp add: parseOr_eq andLoop_stop)
  have U: "parseUnary L d (paren True (tokens ?f 1) @ r) = Inr (meaning L ?f, r)"
    if "d + 1 + nesting ?f 1 \<le> maxFilterDepth" for d r
    using that by (intro parseUnary_paren O) simp_all
  then show ?thesis using O A by (simp add: parses_def paren_def)
qed

lemma parses_FNot:
  assumes "parses L a"
  shows "parses L (FNot a)"
  by (rule parses_tight) (use assms in \<open>simp_all add: parses_def parseUnary.simps\<close>)

lemma filter_parses: "filter_ok L f \<Longrightarrow> parses L f"
proof (induction f)
  case (FText s)
  show ?case by (rule parses_tight [OF parse_text]) simp_all
next
  case (FCmp f oper v)
  then show ?case by (intro parses_tight parse_cmp) simp_all
next
  case (FIn f vs)
  then show ?case by (intro parses_tight parse_in) simp_all
qed (simp_all add: parses_FOr parses_FAnd parses_FNot)

subsection \<open>Reading an expression back\<close>

lemma keyword_tokens:
  "token_ok L (tok tOr ''or'')" "token_ok L (tok tAnd ''and'')" "token_ok L (tok tNot ''not'')"
  "token_ok L (tok tOp ''in'')" "token_ok L (tok tOp ''contains'')" "token_ok L (tok tOp ''matches'')"
  "token_ok L (tok tOp ''startswith'')"
  by (simp_all add: token_ok_def word_token_def to_lower_ascii is_ascii_def lower_byte_def is_word_def
      is_delim_def is_blank_def Let_def)

lemma list_tokens_ok: "list_all (token_ok L) (list_tokens vs)"
  by (induction vs rule: list_tokens.induct) (simp_all add: token_ok_def)

lemma tokens_ok: "filter_ok L f \<Longrightarrow> list_all (token_ok L) (tokens f k)"
  by (induction f arbitrary: k)
     (auto simp: paren_def plain_word_def list_tokens_ok keyword_tokens, simp_all add: token_ok_def)

definition edge :: "char \<Rightarrow> bool" where
  "edge c \<longleftrightarrow> is_ascii c \<and> \<not> is_space_rune (byte c)"

lemma trim_space_id:
  assumes "s \<noteq> []" "edge (hd s)" "edge (last s)"
  shows "trim_space s = s"
proof -
  obtain c m where s1: "s = c # m" using assms(1) by (cases s) auto
  obtain m' c' where s2: "s = m' @ [c']" using assms(1) by (metis append_butlast_last_id)
  have c1: "rune_chunks s = (byte c, [c]) # rune_chunks m" using assms(2) s1
    by (simp add: rune_chunks_ascii edge_def is_ascii_def)
  have c2: "rune_chunks s = rune_chunks m' @ [(byte c', [c'])]" using assms(3) s2
    by (simp add: rune_chunks_append_ascii rune_chunks_ascii edge_def is_ascii_def)
  have "dropWhile (is_space_rune \<circ> fst) (rune_chunks s) = rune_chunks s"
    unfolding c1 using assms(2) s1 by (simp add: edge_def)
  moreover have "dropWhile (is_space_rune \<circ> fst) (rev (rune_chunks s)) = rev (rune_chunks s)"
    unfolding c2 using assms(3) s2 by (simp add: edge_def)
  ultimately show ?thesis by (simp add: trim_space_def Let_def concat_rune_chunks)
qed

lemma show_toks_edges:
  assumes "ts \<noteq> []" "\<forall>t \<in> set ts. show_tok t \<noteq> []"
  shows "show_toks ts \<noteq> [] \<and> hd (show_toks ts) = hd (show_tok (hd ts)) \<and> last (show_toks ts) = last (show_tok (last ts))"
  using assms
proof (induction ts)
  case (Cons t ts)
  show ?case
  proof (cases ts)
    case Nil
    then show ?thesis using Cons.prems by (simp add: show_toks_def)
  next
    case (Cons u us)
    then have "show_toks (t # ts) = show_tok t @ CHR '' '' # show_toks ts" by (simp add: show_toks_def)
    moreover have "show_toks ts \<noteq> [] \<and> last (show_toks ts) = last (show_tok (last ts))"
      using Cons.IH Cons.prems Cons by simp
    ultimately show ?thesis using Cons.prems Cons by simp
  qed
qed simp

lemma token_text: "token_ok L t \<Longrightarrow> show_tok t \<noteq> []"
  by (cases "kind t") (auto simp: token_ok_def show_tok_def is_word_def)

lemma edge_chars: "edge (CHR ''('')" "edge (CHR '')'')" "edge quote2" "edge (CHR ''n'')"
  by (simp_all add: edge_def is_ascii_def is_space_rune_def)

lemma show_literals:
  "show_tok (tok tLParen ''('') = ''(''" "show_tok (tok tRParen '')'') = '')''"
  "show_tok (tok tNot ''not'') = ''not''" "hd (show_tok (tok tString s)) = quote2" "last (show_tok (tok tString s)) = quote2"
  by (simp_all add: show_tok_def)

lemma list_tokens_last: "last (list_tokens vs) = tok tRParen '')'' \<and> list_tokens vs \<noteq> []"
  by (induction vs rule: list_tokens.induct) auto

lemma tokens_edges:
  "filter_ok L f \<Longrightarrow> tokens f k \<noteq> [] \<and> edge (hd (show_tok (hd (tokens f k)))) \<and> edge (last (show_tok (last (tokens f k))))"
proof (induction f arbitrary: k)
  case (FCmp f oper v)
  then obtain c cs where "f = c # cs" "edge c"
    by (cases f) (auto simp: plain_word_def token_ok_def is_word_def edge_def)
  then show ?case by (simp add: show_tok_def edge_chars)
next
  case (FIn f vs)
  then obtain c cs where "f = c # cs" "edge c"
    by (cases f) (auto simp: plain_word_def token_ok_def is_word_def edge_def)
  then show ?case using list_tokens_last [of vs] by (simp add: show_tok_def edge_chars)
qed (auto simp: paren_def show_literals edge_chars)

text \<open>C3: the round trip through the filter language.  Every expression, written out with the
  parentheses its shape needs (\<open>not\<close> binds tighter than \<open>and\<close>, \<open>and\<close> than \<open>or\<close>, both to the
  left), strings quoted, compiles to the predicate that is its meaning, as long as its leaves
  compile, its nesting is within \<open>maxFilterDepth\<close> and its text within \<open>maxFilterLen\<close>.\<close>

theorem filter_round_trip:
  assumes "filter_ok L f" and "nesting f 0 \<le> maxFilterDepth"
    and "length (show_toks (tokens f 0)) \<le> maxFilterLen"
  shows "CompileFilter L (show_toks (tokens f 0)) = Inr (meaning L f)"
proof -
  let ?ts = "tokens f 0" and ?s = "show_toks (tokens f 0)"
  have ok: "list_all (token_ok L) ?ts" by (rule tokens_ok [OF assms(1)])
  have edges: "?s \<noteq> []" "edge (hd ?s)" "edge (last ?s)"
  proof -
    have "\<forall>t \<in> set ?ts. show_tok t \<noteq> []" using ok token_text unfolding list_all_iff by blast
    then show "?s \<noteq> []" "edge (hd ?s)" "edge (last ?s)"
      using tokens_edges [OF assms(1), of 0] show_toks_edges [of ?ts] by simp_all
  qed
  have "lex L ?s = Inr ?ts" using lex_show_toks [OF ok, of "[]"] by (simp add: lex_def)
  moreover have "parseOr L 0 (?ts @ []) = orLoop L 0 (meaning L f) []"
    using filter_parses [OF assms(1)] assms(2) by (simp add: parses_def del: append_Nil2)
  ultimately show ?thesis
    using edges assms(3) by (simp add: CompileFilter_def trim_space_id orLoop_stop)
qed

text \<open>Compiling always ends with a predicate or one of the source's errors: the two loops of
  the parser make progress on every token list, so the model's own stop never shows.\<close>

theorem compile_filter_total: "CompileFilter L s \<noteq> Inl NoProgress"
proof -
  have "lex_loop L x acc \<noteq> Inl NoProgress" for x acc
  proof (induction L x acc rule: lex_loop.induct)
    case (2 L c s toks)
    then show ?case by (auto simp: lex_loop.simps(2) [of L c s] split: option.splits)
  qed simp
  then show ?thesis
    using parser_never_stuck by (auto simp: CompileFilter_def lex_def Let_def split: sum.splits)
qed

text \<open>The stack bound.  An expression that opens with more than \<open>maxFilterDepth\<close> parentheses
  and \<open>not\<close>s, whatever follows, is refused with the nesting error: the parser has then recursed
  no deeper than that.\<close>

theorem deep_filters_rejected:
  assumes "lex L (trim_space s) = Inr (ns @ ts)" and "list_all nests ns" and "maxFilterDepth < length ns"
    and "length (trim_space s) \<le> maxFilterLen"
  shows "CompileFilter L s = Inl NestingTooDeep"
proof -
  have "trim_space s \<noteq> []" using assms(1,3) by (auto simp: lex_def)
  moreover have "parseUnary L 0 (ns @ ts) = Inl NestingTooDeep" using assms(2,3) by (intro deep_rejected) simp_all
  then have "parseOr L 0 (ns @ ts) = Inl NestingTooDeep" by (simp add: parseOr_eq parseAnd_eq)
  ultimately show ?thesis using assms(1,4) by (simp add: CompileFilter_def Let_def)
qed

subsection \<open>Comparisons\<close>

lemma numeric_not_either_side: "numericFieldGetter L field = Some ng \<Longrightarrow> \<not> either_side L field"
proof -
  have "switch (numgetters_base @ numgetters_l4 @ numgetters_rest) ''namespace'' = None"
    "switch (numgetters_base @ numgetters_l4 @ numgetters_rest) ''ns'' = None"
    by (simp_all add: numgetters_base_def numgetters_l4_def numgetters_rest_def)
  moreover assume "numericFieldGetter L field = Some ng"
  ultimately show ?thesis by (auto simp: either_side_def numericFieldGetter_def)
qed

lemma relational_ops:
  "isRelational oper \<Longrightarrow> oper \<noteq> ''matches'' \<and> oper \<noteq> ''startswith'' \<and> oper \<noteq> ''=='' \<and> oper \<noteq> ''!='' \<and> oper \<noteq> ''contains''"
  by (auto simp: isRelational_def)

text \<open>Printing the number a typed accessor gives and parsing it back keeps its place in the order.\<close>

lemma numeric_text:
  assumes "float_text L" "numeric_agrees L ng g" "go_ints e"
  shows "case ng e of None \<Rightarrow> parse_float L (g e) = None
  | Some x \<Rightarrow> \<exists>y. parse_float L (g e) = Some y
      \<and> (\<forall>w. f_less y w = f_less x w \<and> f_less w y = f_less w x \<and> f_le y w = f_le x w \<and> f_le w y = f_le w x)"
proof (cases "ng e")
  case None
  then show ?thesis using assms(2) assms(1,3) by (auto simp: numeric_agrees_def float_text_def)
next
  case (Some x)
  from assms(2) [unfolded numeric_agrees_def, rule_format, OF assms(3), unfolded Some option.case]
  show ?thesis
  proof
    assume "\<exists>n. - (2 ^ 63) \<le> n \<and> n < 2 ^ 64 \<and> x = f64_of_int n \<and> g e = itoa n"
    then obtain n where n: "- (2 ^ 63) \<le> n" "n < 2 ^ 64" "x = f64_of_int n" "g e = itoa n" by blast
    have "parse_float L (itoa n) = Some (f64_of_int n)"
      using assms(1) n(1,2) unfolding float_text_def by blast
    then have "parse_float L (g e) = Some x" by (simp only: n(3,4))
    then show ?thesis using Some by simp
  next
    assume fmt: "g e = format_float L x"
    show ?thesis unfolding Some option.case fmt using assms(1) unfolding float_text_def by blast
  qed
qed

text \<open>The typed path of a relational comparison changes nothing.  For a field with a numeric
  accessor, the comparison accepts exactly the literals the string path would, and on every
  entry decides as formatting the number and parsing it back would, absent values included.\<close>

theorem numeric_path_agrees:
  assumes "float_text L" and "isRelational oper" and "numericFieldGetter L field = Some ng" and "go_ints e"
  shows "\<exists>g. fieldGetter L field = Some g
     \<and> (case (comparison L field oper v, valueMatcher L field oper v) of
          (Inr p, Inr match) \<Rightarrow> p e = match (g e)
        | (Inl err, Inl err') \<Rightarrow> err = err'
        | _ \<Rightarrow> False)"
proof -
  obtain g where g: "fieldGetter L field = Some g" and agree: "numeric_agrees L ng g"
    using numericFieldGetter_agrees [OF assms(3)] by blast
  have cmp: "comparison L field oper v = numericValueMatcher L field oper v ng"
    using relational_ops [OF assms(2)] numeric_not_either_side [OF assms(3)] g assms(2,3)
    by (simp add: comparison_def)
  show ?thesis
  proof (cases "parse_float L v")
    case None
    then show ?thesis using g cmp relational_ops [OF assms(2)] assms(2)
      by (simp add: numericValueMatcher_def valueMatcher_def)
  next
    case (Some w)
    note val = numeric_text [OF assms(1) agree assms(4)]
    let ?R = "\<lambda>x. if oper = ''>'' then f_less w x else if oper = ''<'' then f_less x w
                 else if oper = ''>='' then f_le w x else f_le x w"
    have nm: "comparison L field oper v = Inr (\<lambda>e. case ng e of None \<Rightarrow> False | Some x \<Rightarrow> ?R x)"
      unfolding cmp numericValueMatcher_def Some option.case ..
    have vm: "valueMatcher L field oper v = Inr (\<lambda>a. case parse_float L a of None \<Rightarrow> False | Some x \<Rightarrow> ?R x)"
      using relational_ops [OF assms(2)] assms(2) by (simp add: valueMatcher_def Some)
    have "(case ng e of None \<Rightarrow> False | Some x \<Rightarrow> ?R x) = (case parse_float L (g e) of None \<Rightarrow> False | Some x \<Rightarrow> ?R x)"
    proof (cases "ng e")
      case None
      then show ?thesis using val by simp
    next
      case (Some x)
      from val [unfolded Some option.case] obtain y where y: "parse_float L (g e) = Some y"
        "f_less y w = f_less x w" "f_less w y = f_less w x" "f_le y w = f_le x w" "f_le w y = f_le w x" by blast
      show ?thesis unfolding Some y(1) option.case y(2-5) ..
    qed
    then show ?thesis using g by (simp add: nm vm)
  qed
qed

subsection \<open>Containment\<close>

lemma contains_str_iff: "contains_str s sub \<longleftrightarrow> (\<exists>a b. s = a @ sub @ b)"
  by (auto simp: contains_str_def list_ex_iff Bex_def prefix_def suffix_def)

lemma lower_byte_idem: "byte c < 128 \<Longrightarrow> lower_byte (lower_byte c) = lower_byte c"
  by (auto simp: lower_byte_def)

lemma to_lower_ascii_append:
  assumes "lower_ascii L" "list_all is_ascii w"
  shows "to_lower L (w @ b) = map lower_byte w @ to_lower L b"
  using assms(2)
proof (induction w)
  case (Cons c w)
  then show ?case using to_lower_append_ascii [OF assms(1), of c "[]" "w @ b"] by (simp add: is_ascii_def)
qed simp

lemma to_lower_ascii_infix:
  assumes "lower_ascii L" "list_all is_ascii w" "w \<noteq> []"
  shows "to_lower L (a @ w @ b) = to_lower L a @ map lower_byte w @ to_lower L b"
proof -
  obtain c v where w: "w = c # v" using assms(3) by (cases w) auto
  then show ?thesis
    using to_lower_append_ascii [OF assms(1), of c a "v @ b"] to_lower_ascii_append [OF assms(1), of v b] assms(2)
    by (simp add: is_ascii_def)
qed

text \<open>The shortcut of \<open>contains\<close> is sound.  Looking for the folded needle in the raw value
  first, and in the folded value only when that fails, decides case-insensitive containment:
  for an ASCII needle and any value, ill-formed UTF-8 included, a hit in the raw value is
  also a hit in the folded one.\<close>

theorem contains_shortcut_sound:
  assumes "lower_ascii L" and "list_all is_ascii want"
  shows "\<exists>match. valueMatcher L field ''contains'' want = Inr match
     \<and> (\<forall>actual. match actual = contains_str (to_lower L actual) (to_lower L want))"
proof -
  let ?low = "map lower_byte want"
  have low: "to_lower L want = ?low" using assms(2) by (rule to_lower_ascii)
  have asc: "list_all is_ascii ?low" "map lower_byte ?low = ?low"
    using assms(2) by (simp_all add: list_all_iff is_ascii_def lower_byte_ascii lower_byte_idem)
  have "contains_str (to_lower L actual) ?low" if "contains_str actual ?low" for actual
  proof (cases "want = []")
    case False
    from that [unfolded contains_str_iff] obtain a b where "actual = a @ ?low @ b" by blast
    then have "to_lower L actual = to_lower L a @ ?low @ to_lower L b"
      using to_lower_ascii_infix [OF assms(1) asc(1)] asc(2) False by simp
    then show ?thesis by (auto simp: contains_str_iff)
  qed (auto simp: contains_str_iff)
  then show ?thesis by (auto simp: valueMatcher_def isRelational_def Let_def low)
qed

text \<open>The pseudo-field \<open>namespace\<close> reads both ends of a connection: \<open>==\<close> and \<open>contains\<close> accept an
  entry if either end does, and \<open>!=\<close> is exactly the complement of \<open>==\<close>.\<close>

theorem namespace_exclusion:
  assumes "either_side L field" and "comparison L field ''=='' v = Inr p" and "comparison L field ''!='' v = Inr q"
  shows "q e \<longleftrightarrow> \<not> p e"
  using assms by (auto simp: comparison_def split: sum.splits)

text \<open>A mistyped field is a compile error.  Whatever the operator and however the literal
  reads, a comparison on a name that is no field is refused with the field's name, except
  that an over-long or ill-formed \<open>matches\<close> pattern is reported first.\<close>

theorem unknown_field_refused:
  assumes "fieldGetter L field = None" and "\<not> either_side L field"
  shows "comparison L field oper v \<in>
      {Inl (UnknownField field), Inl (PatternTooLong field (length v)), Inl (InvalidRegex field v)}
    \<and> (oper \<noteq> ''matches'' \<longrightarrow> comparison L field oper v = Inl (UnknownField field))"
  using assms by (auto simp: comparison_def buildFieldPredicate_def split: option.splits)

subsection \<open>Filter examples\<close>

definition example_filter :: filter_ast where
  "example_filter = FAnd (FNot (FText ''canary'')) (FOr (FCmp ''protocol'' ''=='' ''http'') (FIn ''ns'' [''a'', ''b'']))"

lemma example_filter_ok: "filter_ok ascii_lib example_filter"
proof -
  have "token_ok ascii_lib (tok tIdent ''protocol'')" "token_ok ascii_lib (tok tIdent ''ns'')" by code_simp+
  then have "plain_word ascii_lib ''protocol''" "plain_word ascii_lib ''ns''"
    by (simp_all add: plain_word_def is_ascii_def is_space_rune_def)
  moreover have "either_side ascii_lib ''ns''" by code_simp
  moreover have "\<not> either_side ascii_lib ''protocol''" by code_simp
  moreover have "parse_cidr ascii_lib v = None" for v by (simp add: ascii_lib_def)
  moreover have low: "to_lower ascii_lib ''protocol'' = ''protocol''" by code_simp
  moreover have "fieldGetter ascii_lib ''protocol'' = Some e_Protocol"
    by (simp add: fieldGetter_switch low) (simp add: getter_switch_rows)
  moreover have "numericFieldGetter ascii_lib ''protocol'' = None"
    by (simp add: numericFieldGetter_def low numgetters_base_def numgetters_l4_def numgetters_rest_def)
  ultimately show ?thesis
    by (simp add: example_filter_def comparison_def buildFieldPredicate_def valueMatcher_def maxInListLen_def)
qed

theorem filter_round_trip_witness:
  "CompileFilter ascii_lib (show_toks (tokens example_filter 0)) = Inr (meaning ascii_lib example_filter)"
proof -
  have "nesting example_filter 0 \<le> maxFilterDepth" "length (show_toks (tokens example_filter 0)) \<le> maxFilterLen"
    by code_simp+
  with example_filter_ok show ?thesis by (rule filter_round_trip)
qed

theorem deep_filters_rejected_witness:
  "CompileFilter ascii_lib (replicate 65 (CHR ''('')) = Inl NestingTooDeep"
proof -
  have lex: "lex_loop L (replicate n (CHR ''('')) acc = Inr (acc @ replicate n (tok tLParen ''(''))" for L n acc
    by (induction n arbitrary: acc) (simp_all add: lex_punctuation)
  have trim: "trim_space (replicate 65 (CHR ''('')) = replicate 65 (CHR ''('')"
    by (rule trim_space_id) (simp_all add: edge_chars)
  show ?thesis
    by (rule deep_filters_rejected [of _ _ "replicate 65 (tok tLParen ''('')" "[]"])
       (simp_all only: trim lex_def lex, simp_all add: maxFilterDepth_def maxFilterLen_def list_all_iff)
qed

lemma elapsed_numeric: "numericFieldGetter L ''elapsed'' = Some (\<lambda>e. Some (f64_of_int (e_ElapsedMs e)))"
  by (simp add: numericFieldGetter_def to_lower_ascii is_ascii_def lower_byte_def numgetters_base_def)

theorem numeric_path_agrees_witness:
  "\<exists>g. fieldGetter ascii_lib ''elapsed'' = Some g
     \<and> (case (comparison ascii_lib ''elapsed'' ''>'' ''5'', valueMatcher ascii_lib ''elapsed'' ''>'' ''5'') of
          (Inr p, Inr match) \<Rightarrow> p zero_Entry = match (g zero_Entry)
        | (Inl err, Inl err') \<Rightarrow> err = err' | _ \<Rightarrow> False)"
proof -
  have "isRelational ''>''" by (simp add: isRelational_def)
  moreover have "go_ints zero_Entry"
    by (simp add: go_ints_def zero_Entry_def zero_Endpoint_def zero_Payload_def int64_def)
  ultimately show ?thesis by (rule numeric_path_agrees [OF float_text_ascii_lib _ elapsed_numeric])
qed

theorem contains_shortcut_sound_witness:
  "\<exists>match. valueMatcher ascii_lib ''path'' ''contains'' ''AbC'' = Inr match \<and> match ''xABcx''"
proof -
  have "list_all is_ascii ''AbC''" "contains_str (to_lower ascii_lib ''xABcx'') (to_lower ascii_lib ''AbC'')"
    by code_simp+
  then show ?thesis using contains_shortcut_sound [OF lower_ascii_ascii_lib, of "''AbC''" "''path''"] by auto
qed

theorem namespace_exclusion_witness:
  "\<exists>p q. comparison ascii_lib ''ns'' ''=='' ''a'' = Inr p \<and> comparison ascii_lib ''ns'' ''!='' ''a'' = Inr q
     \<and> q zero_Entry = (\<not> p zero_Entry)"
proof -
  have e: "either_side ascii_lib ''ns''" by code_simp
  have c: "parse_cidr ascii_lib v = None" for v by (simp add: ascii_lib_def)
  obtain p q where "comparison ascii_lib ''ns'' ''=='' ''a'' = Inr p" "comparison ascii_lib ''ns'' ''!='' ''a'' = Inr q"
    using e c by (simp add: comparison_def valueMatcher_def)
  then show ?thesis using namespace_exclusion [OF e] by blast
qed

theorem unknown_field_refused_witness:
  "comparison ascii_lib ''http.status_code'' ''=='' ''500'' = Inl (UnknownField ''http.status_code'')"
proof -
  have low: "to_lower ascii_lib ''http.status_code'' = ''http.status_code''" by code_simp
  have "fieldGetter ascii_lib ''http.status_code'' = None"
    by (simp add: fieldGetter_switch low) (simp add: getter_switch_rows)
  then show ?thesis
    using unknown_field_refused [of ascii_lib "''http.status_code''" "''==''" "''500''"]
    by (simp add: either_side_def low)
qed

end
