(* ===== verification/Worker_Caps.thy ===== *)
theory Worker_Caps
  imports Api_Types
begin

text \<open>
  What the dissectors share: the retention caps of \<open>internal/worker/caps.go\<close>, \<open>truncate\<close> of
  \<open>pipeline.go\<close>, and the binary preview of \<open>dissect_redis.go\<close>.

  The theorems: the byte-slice form of the query cap is the string form; a capped query is a
  prefix of at most \<open>queryCap\<close> bytes that ends on a rune boundary, whereas \<open>truncate\<close> cuts
  bytes wherever they fall.
\<close>

definition queryCap :: nat where "queryCap = 8192"
definition redisMaxArgs :: nat where "redisMaxArgs = 64"

text \<open>\<open>utf8.RuneStart\<close>: not a continuation byte.\<close>

definition rune_start :: "char \<Rightarrow> bool" where
  "rune_start c \<longleftrightarrow> \<not> (128 \<le> byte c \<and> byte c < 192)"

fun back_off :: "string \<Rightarrow> nat \<Rightarrow> nat" where
  "back_off s 0 = 0"
| "back_off s (Suc c) = (if \<not> rune_start (s ! Suc c) then back_off s c else Suc c)"

definition capQuery :: "string \<Rightarrow> string \<times> bool" where
  "capQuery s = (if length s \<le> queryCap then (s, False)
     else (take (back_off s queryCap) s @ ellipsis, True))"

definition capQueryBytes :: "bytes \<Rightarrow> string \<times> bool" where
  "capQueryBytes b = (if length b \<le> queryCap then (b, False)
     else capQuery (take (min (length b) (queryCap + 4)) b))"

definition truncate_str :: "string \<Rightarrow> nat \<Rightarrow> string" where
  "truncate_str s n = (if length s \<le> n then s else take n s @ ellipsis)"

definition hex_digits :: "char \<Rightarrow> string" where
  "hex_digits c = [digit_char (byte c div 16), digit_char (byte c mod 16)]"

definition hex_encode :: "bytes \<Rightarrow> string" where
  "hex_encode b = concat (map hex_digits b)"

definition binaryPreview :: "string \<Rightarrow> string" where
  "binaryPreview s =
     (if length s > 32 then CHR 0x5C # ''x'' @ hex_encode (take 32 s) @ ellipsis @ '' ('' @ itoa (int (length s)) @ '' bytes)''
      else CHR 0x5C # ''x'' @ hex_encode s)"

subsection \<open>Capping query text\<close>

lemma back_off_le: "back_off s n \<le> n"
  by (induction n) auto

lemma back_off_start: "back_off s n = 0 \<or> rune_start (s ! back_off s n)"
  by (induction n) auto

lemma back_off_tight: "back_off s n < k \<Longrightarrow> k \<le> n \<Longrightarrow> \<not> rune_start (s ! k)"
  by (induction n) (auto simp: le_Suc_eq split: if_splits)

lemma back_off_cong: "(\<And>k. k \<le> n \<Longrightarrow> s ! k = t ! k) \<Longrightarrow> back_off s n = back_off t n"
  by (induction n) auto

text \<open>Capping a byte slice before it becomes a string, which copies at most
  \<open>queryCap + utf8.UTFMax\<close> bytes of it, gives exactly what capping the whole string gives.\<close>

theorem cap_bytes_is_cap_string: "capQueryBytes b = capQuery b"
proof (cases "length b \<le> queryCap")
  case False
  let ?t = "take (min (length b) (queryCap + 4)) b"
  have len: "queryCap < length ?t" using False by simp
  have nth: "k \<le> queryCap \<Longrightarrow> ?t ! k = b ! k" for k using False by simp
  then have cut: "back_off ?t queryCap = back_off b queryCap" by (rule back_off_cong)
  have "take (back_off b queryCap) ?t = take (back_off b queryCap) b"
    using back_off_le [of b queryCap] False by (simp add: min_def)
  then show ?thesis using False len by (simp add: capQueryBytes_def capQuery_def cut)
qed (simp add: capQueryBytes_def capQuery_def)

text \<open>A query is either kept whole, or marked as cut and replaced by a prefix of at most
  \<open>queryCap\<close> bytes followed by the ellipsis, where the prefix ends at the last rune
  boundary within the cap: no rune is split.\<close>

theorem cap_query_on_boundary:
  "(length s \<le> queryCap \<longrightarrow> capQuery s = (s, False))
   \<and> (queryCap < length s \<longrightarrow> (\<exists>n \<le> queryCap. capQuery s = (take n s @ ellipsis, True)
        \<and> (n = 0 \<or> rune_start (s ! n)) \<and> (\<forall>k. n < k \<and> k \<le> queryCap \<longrightarrow> \<not> rune_start (s ! k))))"
  using back_off_le [of s queryCap] back_off_start [of s queryCap] back_off_tight [of s queryCap]
  by (auto simp: capQuery_def intro!: exI [of _ "back_off s queryCap"])

theorem cap_query_on_boundary_witness:
  "capQuery ''SELECT 1'' = (''SELECT 1'', False)"
  using cap_query_on_boundary [of "''SELECT 1''"] by (simp add: queryCap_def)

text \<open>\<open>truncate\<close> is documented to keep at most \<open>n\<close> runes, and instead cuts after \<open>n\<close> bytes:
  there is a string of a single rune, so of no more than \<open>n\<close> runes, that it cuts, and what it
  makes of that well-formed text is not well-formed UTF-8.\<close>

theorem truncate_cuts_bytes:
  "\<exists>s n. valid_utf8 s \<and> length (runes s) \<le> n \<and> truncate_str s n \<noteq> s \<and> \<not> valid_utf8 (truncate_str s n)"
proof -
  let ?s = "[CHR 0xC3, CHR 0xA9]"
  have s: "rune_chunks ?s = [(233, ?s)]"
    by (simp add: rune_chunks_Cons decode_rune_def Let_def cont_byte_def)
  have t: "truncate_str ?s 1 = CHR 0xC3 # ellipsis" by (simp add: truncate_str_def)
  have "rune_chunks (CHR 0xC3 # ellipsis) = (rune_error, [CHR 0xC3]) # rune_chunks ellipsis"
    by (simp add: rune_chunks_Cons decode_rune_def Let_def cont_byte_def ellipsis_def)
  then have "\<not> valid_utf8 (truncate_str ?s 1)" unfolding t valid_utf8_def by simp
  moreover have "valid_utf8 ?s" "length (runes ?s) \<le> 1" by (simp_all add: valid_utf8_def runes_def s rune_error_def)
  moreover have "truncate_str ?s 1 \<noteq> ?s" unfolding t by (simp add: ellipsis_def)
  ultimately show ?thesis by blast
qed

end
