(* ===== verification/Worker_Hexdump.thy ===== *)
theory Worker_Hexdump
  imports Worker_Caps
begin

text \<open>
  The rendering helpers of \<open>internal/worker/hexdump.go\<close>: \<open>hexDump\<close>, whose layout is a wire contract
  with the hub's \<open>parseHexDump\<close> (\<open>Hub_Pcap\<close> proves the round trip), and the TCP flag set with its
  precomputed table of names.
\<close>

definition hexdigit :: "nat \<Rightarrow> char" where
  "hexdigit n = digit_char (n mod 16)"

text \<open>How many digits the offset is written with: eight, and more only from \<open>2 ^ 32\<close> on.\<close>

fun offset_scan :: "nat \<Rightarrow> nat list \<Rightarrow> nat" where
  "offset_scan off [] = 8"
| "offset_scan off (s # ss) = (if off div 2 ^ s mod 16 \<noteq> 0 then s div 4 + 1 else offset_scan off ss)"

definition offset_digits :: "nat \<Rightarrow> nat" where
  "offset_digits off = (if off div 2 ^ 32 \<noteq> 0 then offset_scan off [60, 56, 52, 48, 44, 40, 36, 32] else 8)"

definition hex_offset :: "nat \<Rightarrow> string" where
  "hex_offset off = map (\<lambda>i. hexdigit (off div 2 ^ (i * 4))) (rev [0..<offset_digits off])"

definition hex_column :: "bytes \<Rightarrow> nat \<Rightarrow> string" where
  "hex_column line j =
     (if j < length line then [hexdigit (byte (line ! j) div 16), hexdigit (byte (line ! j)), CHR '' ''] else ''   '')
     @ (if j = 7 then '' '' else [])"

definition ascii_char :: "char \<Rightarrow> char" where
  "ascii_char c = (if 32 \<le> byte c \<and> byte c < 127 then c else CHR ''.'')"

definition hex_line :: "nat \<Rightarrow> bytes \<Rightarrow> string" where
  "hex_line off line = hex_offset off @ ''  '' @ concat (map (hex_column line) [0..<16])
     @ '' |'' @ map ascii_char line @ ''|'' @ [CHR 0x0A]"

function hex_lines :: "nat \<Rightarrow> bytes \<Rightarrow> string" where
  "hex_lines off b = (if b = [] then [] else hex_line off (take 16 b) @ hex_lines (off + 16) (drop 16 b))"
  by pat_completeness auto
termination
  by (relation "measure (\<lambda>(off, b). length b)") (auto simp: length_greater_0_conv [symmetric] simp del: length_greater_0_conv)

declare hex_lines.simps [simp del]

definition hexDump :: "bytes \<Rightarrow> int \<Rightarrow> string" where
  "hexDump b cap = (if cap \<le> 0 \<or> b = [] then [] else hex_lines 0 (if int (length b) > cap then take (nat cap) b else b))"

subsection \<open>TCP flags\<close>

type_synonym flagSet = "8 word"

definition flagSYN :: flagSet where "flagSYN = 1"
definition flagACK :: flagSet where "flagACK = 2"
definition flagFIN :: flagSet where "flagFIN = 4"
definition flagRST :: flagSet where "flagRST = 8"
definition flagPSH :: flagSet where "flagPSH = 16"
definition flagURG :: flagSet where "flagURG = 32"

definition flagNames :: "(flagSet \<times> string) list" where
  "flagNames = [(flagSYN, ''SYN''), (flagACK, ''ACK''), (flagFIN, ''FIN''),
     (flagRST, ''RST''), (flagPSH, ''PSH''), (flagURG, ''URG'')]"

definition flag_text :: "flagSet \<Rightarrow> string" where
  "flag_text v = join '','' (map snd (filter (\<lambda>(b, n). and v b \<noteq> 0) flagNames))"

definition buildFlagStrings :: "string list" where
  "buildFlagStrings = map (flag_text \<circ> word_of_nat) [0..<64]"

definition flagSet_String :: "flagSet \<Rightarrow> string" where
  "flagSet_String f = buildFlagStrings ! unat (and f 0x3f)"

text \<open>The fields of gopacket's TCP layer that the worker reads.\<close>

record tcp_layer =
  tcp_Seq :: "32 word"
  tcp_Window :: nat
  tcp_SYN :: bool
  tcp_ACK :: bool
  tcp_FIN :: bool
  tcp_RST :: bool
  tcp_PSH :: bool
  tcp_URG :: bool
  tcp_Options :: "(nat \<times> bytes) list"
  tcp_Payload :: bytes
  tcp_Contents :: bytes

definition tcpFlagSet :: "tcp_layer \<Rightarrow> flagSet" where
  "tcpFlagSet t = or (if tcp_SYN t then flagSYN else 0) (or (if tcp_ACK t then flagACK else 0)
     (or (if tcp_FIN t then flagFIN else 0) (or (if tcp_RST t then flagRST else 0)
       (or (if tcp_PSH t then flagPSH else 0) (if tcp_URG t then flagURG else 0)))))"

lemma flag_text_mask: "flag_text (and f 0x3f) = flag_text f"
proof -
  have "and (and f 0x3f) b = and f b" if "b \<in> {1, 2, 4, 8, 16, 32}" for b :: flagSet
  proof -
    have "and (0x3f::flagSet) b = b" using that by auto
    then show ?thesis by (simp add: and.assoc)
  qed
  then show ?thesis
    by (simp add: flag_text_def flagNames_def flagSYN_def flagACK_def flagFIN_def flagRST_def flagPSH_def flagURG_def)
qed

text \<open>The lookup in the 64-entry table built at start-up renders a flag set exactly as walking the flag
  names does, undefined high bits included, and the flags of a segment render to the names of the control bits it has
  set, in the fixed order.\<close>

theorem flag_table_exact:
  "flagSet_String f = flag_text f
   \<and> flagSet_String (tcpFlagSet t) = join '','' (concat [if tcp_SYN t then [''SYN''] else [], if tcp_ACK t then [''ACK''] else [],
       if tcp_FIN t then [''FIN''] else [], if tcp_RST t then [''RST''] else [], if tcp_PSH t then [''PSH''] else [],
       if tcp_URG t then [''URG''] else []])"
proof -
  have "flagSet_String f = flag_text f" for f
  proof -
    let ?m = "and f 0x3f"
    have "?m \<le> 0x3f" by (rule word_and_le1)
    then have "unat ?m < 64" by (simp add: word_le_nat_alt)
    then have "flagSet_String f = flag_text (word_of_nat (unat ?m))" by (simp add: flagSet_String_def buildFlagStrings_def)
    then show ?thesis using flag_text_mask [of f] by simp
  qed
  then show ?thesis
    by (auto simp: tcpFlagSet_def flag_text_def flagNames_def flagSYN_def flagACK_def flagFIN_def flagRST_def
        flagPSH_def flagURG_def)
qed

end
