(* ===== verification/Hub_Pcap.thy ===== *)
theory Hub_Pcap
  imports Worker_Hexdump
begin

text \<open>
  The pcap export of the hub, \<open>internal/hub/pcap.go\<close>: recovering the bytes of a message, choosing the
  transport and the header fields of the synthesized frames, and the order in which entries are
  written.  Serializing the layers is gopacket's work: the frame is the list of header fields
  handed to it.  \<open>net.ParseMAC\<close> and \<open>net.ParseIP\<close> are parameters.

  The theorem on \<open>parseHexDump\<close> shows that it inverts the worker's \<open>hexDump\<close>.
\<close>

subsection \<open>Reading a hexdump back\<close>

definition is_hex_lower :: "char \<Rightarrow> bool" where
  "is_hex_lower c \<longleftrightarrow> (48 \<le> byte c \<and> byte c \<le> 57) \<or> (97 \<le> byte c \<and> byte c \<le> 102)"

definition hex_value :: "char \<Rightarrow> nat" where
  "hex_value c = (if byte c \<le> 57 then byte c - 48 else byte c - 87)"

text \<open>What a regular expression calls white space.\<close>

definition re_space :: "char \<Rightarrow> bool" where
  "re_space c \<longleftrightarrow> byte c \<in> {9, 10, 12, 13, 32}"

fun before_gutter :: "string \<Rightarrow> string" where
  "before_gutter [] = []"
| "before_gutter (c # s) = (if c = CHR '' '' \<and> prefix ''|'' s then [] else c # before_gutter s)"

definition drop_offset :: "string \<Rightarrow> string" where
  "drop_offset s = (if 9 \<le> length s \<and> list_all is_hex_lower (take 8 s) \<and> re_space (s ! 8)
     then dropWhile re_space (drop 8 s) else s)"

fun hex_tokens :: "string \<Rightarrow> string list" where
  "hex_tokens (a # b # s) = (if is_hex_lower a \<and> is_hex_lower b then [a, b] # hex_tokens s else hex_tokens (b # s))"
| "hex_tokens s = []"

definition token_byte :: "string \<Rightarrow> char" where
  "token_byte tok = char_of (fold (\<lambda>c n. 16 * n + hex_value c) tok 0)"

definition parse_hex_line :: "string \<Rightarrow> bytes" where
  "parse_hex_line line = (if trim_space line = [] then []
     else map token_byte (hex_tokens (drop_offset (before_gutter line))))"

definition parseHexDump :: "string \<Rightarrow> bytes" where
  "parseHexDump dump = concat (map parse_hex_line (split_on (CHR 0x0A) dump))"

subsection \<open>Payloads\<close>

definition pcapPayloadBytes :: "Payload \<Rightarrow> bytes" where
  "pcapPayloadBytes p =
     (let raw = (case pl_Raw p of None \<Rightarrow> []
                 | Some v \<Rightarrow> if rv_Data v \<noteq> [] then rv_Data v
                              else if rv_Hex v \<noteq> [] then parseHexDump (rv_Hex v) else []);
          text = (if pl_Body p = [] then pl_Summary p else pl_Body p)
      in if raw \<noteq> [] \<and> length raw \<ge> length (pl_Body p) then raw else text)"

subsection \<open>Frames\<close>

datatype transportKind = TransportTCP | TransportUDP | TransportICMP

definition pcapTransport :: "string \<Rightarrow> transportKind" where
  "pcapTransport p = (if p = ProtocolDNS \<or> p = ProtocolUDP then TransportUDP
     else if p = ProtocolICMP then TransportICMP else TransportTCP)"

definition fallbackMACClient :: bytes where
  "fallbackMACClient = map char_of [0x02, 0, 0, 0, 0, 0x01 :: nat]"

definition fallbackMACServer :: bytes where
  "fallbackMACServer = map char_of [0x02, 0, 0, 0, 0, 0x02 :: nat]"

definition parseMAC :: "(string \<Rightarrow> bytes option) \<Rightarrow> string \<Rightarrow> bytes \<Rightarrow> bytes" where
  "parseMAC net_ParseMAC s fallback =
     (if s \<noteq> [] then (case net_ParseMAC s of Some mac \<Rightarrow> if length mac = 6 then mac else fallback | None \<Rightarrow> fallback)
      else fallback)"

definition frameMACs :: "(string \<Rightarrow> bytes option) \<Rightarrow> L4Info option \<Rightarrow> bool \<Rightarrow> bytes \<times> bytes" where
  "frameMACs net_ParseMAC l4 forward =
     (let (srcRaw, dstRaw) = (case l4 of None \<Rightarrow> ([], [])
            | Some i \<Rightarrow> if forward then (l4_SrcMAC i, l4_DstMAC i) else (l4_DstMAC i, l4_SrcMAC i))
      in if forward then (parseMAC net_ParseMAC srcRaw fallbackMACClient, parseMAC net_ParseMAC dstRaw fallbackMACServer)
         else (parseMAC net_ParseMAC srcRaw fallbackMACServer, parseMAC net_ParseMAC dstRaw fallbackMACClient))"

definition tcpSeeds :: "L4Info option \<Rightarrow> 32 word \<times> 32 word \<times> 16 word" where
  "tcpSeeds l4 = (case l4 of None \<Rightarrow> (0, 0, 64240)
     | Some i \<Rightarrow> (l4_SeqStart i, l4_AckStart i, if l4_Window i > 0 then word_of_int (l4_Window i) else 64240))"

text \<open>\<open>net.ParseIP\<close> gives the 16-byte form; \<open>To4\<close> is the last four bytes of a mapped address.\<close>

definition to4 :: "bytes \<Rightarrow> bytes option" where
  "to4 ip = (if length ip = 4 then Some ip
     else if length ip = 16 \<and> take 12 ip = map char_of ([0,0,0,0,0,0,0,0,0,0,255,255]::nat list) then Some (drop 12 ip)
     else None)"

definition parseIPv4 :: "golib \<Rightarrow> string \<Rightarrow> bytes option" where
  "parseIPv4 L s = (case parse_ip L s of None \<Rightarrow> None | Some ip \<Rightarrow> to4 ip)"

datatype l4_header =
    UDPHeader "16 word" "16 word"
  | ICMPHeader nat
  | TCPHeader "16 word" "16 word" "32 word" "32 word" "16 word"

record frame =
  fr_SrcMAC :: bytes
  fr_DstMAC :: bytes
  fr_TTL :: "8 word"
  fr_Id :: "16 word"
  fr_SrcIP :: bytes
  fr_DstIP :: bytes
  fr_L4 :: l4_header
  fr_Payload :: bytes

definition buildFrame :: "golib \<Rightarrow> (string \<Rightarrow> bytes option) \<Rightarrow> Entry \<Rightarrow> bool \<Rightarrow> bytes \<Rightarrow> nat \<Rightarrow> 16 word
    \<Rightarrow> frame option \<times> 16 word" where
  "buildFrame L net_ParseMAC e forward payload reqLen ipID =
     (let from_ep = (if forward then e_Source e else e_Destination e);
          to_ep = (if forward then e_Destination e else e_Source e)
      in case (parseIPv4 L (ep_IP from_ep), parseIPv4 L (ep_IP to_ep)) of
           (Some from4, Some dst4) \<Rightarrow>
             (let (srcMAC, dstMAC) = frameMACs net_ParseMAC (e_L4 e) forward;
                  ttl = (case e_L4 e of Some i \<Rightarrow> if l4_TTL i > 0 then word_of_int (l4_TTL i) else 64 | None \<Rightarrow> 64);
                  ipID' = ipID + 1;
                  sp = word_of_int (ep_Port from_ep); dp = word_of_int (ep_Port to_ep);
                  (seqBase, ackBase, window) = tcpSeeds (e_L4 e);
                  l4 = (case pcapTransport (e_Protocol e) of
                      TransportUDP \<Rightarrow> UDPHeader sp dp
                    | TransportICMP \<Rightarrow> ICMPHeader (if forward then 8 else 0)
                    | TransportTCP \<Rightarrow>
                        if forward then TCPHeader sp dp seqBase ackBase window
                        else TCPHeader sp dp ackBase (seqBase + word_of_nat reqLen) window)
              in (Some \<lparr>fr_SrcMAC = srcMAC, fr_DstMAC = dstMAC, fr_TTL = ttl, fr_Id = ipID', fr_SrcIP = from4,
                        fr_DstIP = dst4, fr_L4 = l4, fr_Payload = payload\<rparr>, ipID'))
         | _ \<Rightarrow> (None, ipID))"

text \<open>The packets of an entry with their timestamps, and the identification counter afterwards.\<close>

definition writeEntryPackets :: "golib \<Rightarrow> (string \<Rightarrow> bytes option) \<Rightarrow> Entry \<Rightarrow> 16 word \<Rightarrow> (time \<times> frame) list \<times> 16 word" where
  "writeEntryPackets L net_ParseMAC e ipID =
     (let reqBytes = pcapPayloadBytes (e_Request e);
          (req, id1) = (if reqBytes \<noteq> [] \<or> e_Protocol e = ProtocolICMP
                        then buildFrame L net_ParseMAC e True reqBytes 0 ipID else (None, ipID));
          respBytes = pcapPayloadBytes (e_Response e);
          ts = (if e_ElapsedMs e > 0 then e_Timestamp e + e_ElapsedMs e * 1000000 else e_Timestamp e);
          (resp, id2) = (if respBytes \<noteq> [] then buildFrame L net_ParseMAC e False respBytes (length reqBytes) id1
                         else (None, id1))
      in ((case req of None \<Rightarrow> [] | Some f \<Rightarrow> [(e_Timestamp e, f)])
            @ (case resp of None \<Rightarrow> [] | Some f \<Rightarrow> [(ts, f)]), id2))"

fun write_entries :: "golib \<Rightarrow> (string \<Rightarrow> bytes option) \<Rightarrow> Entry list \<Rightarrow> 16 word \<Rightarrow> (time \<times> frame) list" where
  "write_entries L net_ParseMAC [] ipID = []"
| "write_entries L net_ParseMAC (e # es) ipID =
     (case writeEntryPackets L net_ParseMAC e ipID of (ps, id') \<Rightarrow> ps @ write_entries L net_ParseMAC es id')"

text \<open>The body of \<open>handlePcap\<close> on the entries \<open>recent\<close> returned, newest first.\<close>

definition pcap_packets :: "golib \<Rightarrow> (string \<Rightarrow> bytes option) \<Rightarrow> Entry list \<Rightarrow> (time \<times> frame) list" where
  "pcap_packets L net_ParseMAC entries = write_entries L net_ParseMAC (rev entries) 0"

subsection \<open>The hexdump round trip\<close>

lemma hexdigit_lower: "is_hex_lower (hexdigit n)"
proof -
  have "n mod 16 < 16" by simp
  then show ?thesis unfolding hexdigit_def digit_char_def is_hex_lower_def by (auto simp: of_char_of)
qed

lemma hexdigit_value: "hex_value (hexdigit n) = n mod 16"
proof -
  have "n mod 16 < 16" by simp
  then show ?thesis unfolding hexdigit_def digit_char_def hex_value_def by (auto simp: of_char_of)
qed

lemma hex_not: "is_hex_lower c \<Longrightarrow> c \<noteq> CHR '' '' \<and> c \<noteq> CHR ''|'' \<and> c \<noteq> CHR 0x0A \<and> \<not> re_space c"
  by (auto simp: is_hex_lower_def re_space_def)

lemma token_byte_hex: "token_byte [hexdigit (byte c div 16), hexdigit (byte c)] = c"
proof -
  have "16 * (byte c div 16) + byte c mod 16 = byte c" by simp
  moreover have "byte c div 16 mod 16 = byte c div 16" using byte_less [of c] by (intro mod_less) linarith
  ultimately show ?thesis by (simp add: token_byte_def hexdigit_value)
qed

lemma hex_tokens_space [simp]: "hex_tokens (CHR '' '' # s) = hex_tokens s"
  by (cases s) (auto dest: hex_not)

lemma hex_tokens_pair: "is_hex_lower a \<Longrightarrow> is_hex_lower b \<Longrightarrow> hex_tokens (a # b # s) = [a, b] # hex_tokens s"
  by simp

lemma hex_tokens_column:
  "hex_tokens (hex_column line j @ s) =
     (if j < length line then [[hexdigit (byte (line ! j) div 16), hexdigit (byte (line ! j))]] else []) @ hex_tokens s"
proof -
  have "\<not> is_hex_lower (CHR '' '')" by (simp add: is_hex_lower_def)
  then show ?thesis by (simp add: hex_column_def hexdigit_lower)
qed

lemma hex_tokens_columns:
  "hex_tokens (concat (map (hex_column line) js)) =
     map (\<lambda>j. [hexdigit (byte (line ! j) div 16), hexdigit (byte (line ! j))]) (filter (\<lambda>j. j < length line) js)"
  by (induction js) (simp_all add: hex_tokens_column)

lemma columns_chars: "x \<in> set (concat (map (hex_column line) js)) \<Longrightarrow> is_hex_lower x \<or> x = CHR '' ''"
  using hexdigit_lower by (auto simp: hex_column_def split: if_splits)

lemma before_gutter_append:
  "CHR ''|'' \<notin> set x \<Longrightarrow> before_gutter (x @ '' |'' @ y) = x"
proof (induction x)
  case (Cons c x)
  have "\<not> prefix ''|'' (x @ '' |'' @ y)" using Cons.prems by (cases x) auto
  then show ?case using Cons by simp
qed simp

lemma hex_offset_8: "off < 2 ^ 32 \<Longrightarrow> length (hex_offset off) = 8 \<and> list_all is_hex_lower (hex_offset off)"
  by (auto simp: hex_offset_def offset_digits_def list_all_iff hexdigit_lower)

lemma drop_offset_line:
  assumes "off < 2 ^ 32" "s \<noteq> []" "\<not> re_space (hd s)"
  shows "drop_offset (hex_offset off @ ''  '' @ s) = s"
proof -
  have "dropWhile re_space (''  '' @ s) = s" using assms by (cases s) (auto simp: re_space_def)
  then show ?thesis using hex_offset_8 [OF assms(1)] by (simp add: drop_offset_def nth_append re_space_def)
qed

lemma trim_space_nonempty: "byte c < 128 \<Longrightarrow> \<not> is_space_rune (byte c) \<Longrightarrow> trim_space (c # s) \<noteq> []"
  by (auto simp: trim_space_def Let_def rune_chunks_ascii dropWhile_append concat_eq_Nil_conv)

lemma filter_less_upt: "k \<le> n \<Longrightarrow> filter (\<lambda>j. j < k) [0..<n] = [0..<k]"
  by (induction n) (auto simp: le_Suc_eq)

lemma parse_hex_line_inverse:
  assumes "off < 2 ^ 32" "line \<noteq> []" "length line \<le> 16"
  shows "parse_hex_line (hex_offset off @ ''  '' @ concat (map (hex_column line) [0..<16]) @ '' |'' @ map ascii_char line @ ''|'') = line"
proof -
  let ?cols = "concat (map (hex_column line) [0..<16])"
  have h: "hex_column line 0 = [hexdigit (byte (line ! 0) div 16), hexdigit (byte (line ! 0)), CHR '' '']"
    using assms(2) by (simp add: hex_column_def)
  have cols: "?cols \<noteq> []" "\<not> re_space (hd ?cols)"
    using h hex_not [OF hexdigit_lower] by (simp_all add: upt_rec [of 0 16])
  obtain c cs where off: "hex_offset off = c # cs" "is_hex_lower c"
    using hex_offset_8 [OF assms(1)] by (cases "hex_offset off") auto
  then have "byte c < 128 \<and> \<not> is_space_rune (byte c)" by (auto simp: is_hex_lower_def is_space_rune_def)
  then have "trim_space (hex_offset off @ s) \<noteq> []" for s by (simp add: off(1) trim_space_nonempty)
  moreover have "CHR ''|'' \<notin> set (hex_offset off @ ''  '' @ ?cols)"
    using hex_offset_8 [OF assms(1)] columns_chars [of "CHR ''|''" line "[0..<16]"] hex_not [of "CHR ''|''"]
    by (auto simp: list_all_iff)
  then have "before_gutter ((hex_offset off @ ''  '' @ ?cols) @ '' |'' @ map ascii_char line @ ''|'') = hex_offset off @ ''  '' @ ?cols"
    by (rule before_gutter_append)
  moreover have "map token_byte (hex_tokens ?cols) = line"
    by (rule nth_equalityI) (simp_all add: hex_tokens_columns filter_less_upt assms(3) token_byte_hex)
  ultimately show ?thesis using drop_offset_line [OF assms(1) cols] by (simp add: parse_hex_line_def)
qed

lemma split_on_line: "c \<notin> set x \<Longrightarrow> split_on c (x @ c # y) = x # split_on c y"
  by (induction x) auto

lemma hex_line_no_newline:
  "off < 2 ^ 32 \<Longrightarrow> CHR 0x0A \<notin> set (hex_offset off @ ''  '' @ concat (map (hex_column line) [0..<16]) @ '' |'' @ map ascii_char line @ ''|'')"
  using hex_offset_8 [of off] columns_chars [of "CHR 0x0A" line "[0..<16]"] hex_not [of "CHR 0x0A"]
  by (auto simp: list_all_iff ascii_char_def)

lemma parse_hex_lines: "off + length b < 2 ^ 32 \<Longrightarrow> parseHexDump (hex_lines off b) = b"
proof (induction off b rule: hex_lines.induct)
  case (1 off b)
  show ?case
  proof (cases "b = []")
    case True
    then show ?thesis by (simp add: hex_lines.simps parseHexDump_def parse_hex_line_def trim_space_def)
  next
    case False
    have off: "off < 2 ^ 32" using "1.prems" by simp
    have rest: "parseHexDump (hex_lines (off + 16) (drop 16 b)) = drop 16 b"
    proof (cases "16 \<le> length b")
      case True
      then show ?thesis using 1 False by simp
    next
      case False
      then show ?thesis by (simp add: hex_lines.simps parseHexDump_def parse_hex_line_def trim_space_def)
    qed
    have "parseHexDump (hex_lines off b) = take 16 b @ parseHexDump (hex_lines (off + 16) (drop 16 b))"
      using False split_on_line [OF hex_line_no_newline [OF off, of "take 16 b"]]
        parse_hex_line_inverse [OF off, of "take 16 b"]
      by (simp add: hex_lines.simps [of off b] hex_line_def parseHexDump_def)
    then show ?thesis using rest by simp
  qed
qed

text \<open>The hub reads back exactly the bytes the worker dumped: for dumps of less than 4 GiB, parsing
  the rendered hexdump gives the first \<open>cap\<close> bytes, whatever they are and however much they look like hex in the
  text column.\<close>

theorem hexdump_round_trip:
  assumes "length b < 2 ^ 32"
  shows "parseHexDump (hexDump b cap) = take (nat cap) b"
proof (cases "cap \<le> 0 \<or> b = []")
  case True
  then show ?thesis by (auto simp: hexDump_def parseHexDump_def parse_hex_line_def trim_space_def)
next
  case False
  then show ?thesis using assms by (auto simp: hexDump_def parse_hex_lines nat_less_iff)
qed

theorem hexdump_round_trip_witness:
  "parseHexDump (hexDump ''GET |ab 00000010  ff'' 10) = ''GET |ab 00''"
  using hexdump_round_trip [of "''GET |ab 00000010  ff''" 10] by simp

subsection \<open>Frames of an export\<close>

lemma buildFrame_id:
  "buildFrame L M e fw pl n ipID = (r, id') \<Longrightarrow>
     (r = None \<and> id' = ipID) \<or> (\<exists>f. r = Some f \<and> id' = ipID + 1 \<and> fr_Id f = ipID + 1 \<and> fr_Payload f = pl)"
  by (auto simp: buildFrame_def Let_def split: prod.splits option.splits)

lemma entry_ids:
  "writeEntryPackets L M e ipID = (ps, id') \<Longrightarrow>
     id' = ipID + word_of_nat (length ps) \<and> map (fr_Id \<circ> snd) ps = map (\<lambda>i. ipID + word_of_nat (Suc i)) [0..<length ps]"
proof -
  assume w: "writeEntryPackets L M e ipID = (ps, id')"
  let ?rq = "pcapPayloadBytes (e_Request e)" and ?rs = "pcapPayloadBytes (e_Response e)"
  obtain r1 i1 where b1: "(if ?rq \<noteq> [] \<or> e_Protocol e = ProtocolICMP then buildFrame L M e True ?rq 0 ipID else (None, ipID)) = (r1, i1)"
    by fastforce
  obtain r2 i2 where b2: "(if ?rs \<noteq> [] then buildFrame L M e False ?rs (length ?rq) i1 else (None, i1)) = (r2, i2)"
    by fastforce
  have 1: "(r1 = None \<and> i1 = ipID) \<or> (\<exists>f. r1 = Some f \<and> i1 = ipID + 1 \<and> fr_Id f = ipID + 1)"
    using b1 by (auto split: if_splits dest: buildFrame_id)
  have 2: "(r2 = None \<and> i2 = i1) \<or> (\<exists>f. r2 = Some f \<and> i2 = i1 + 1 \<and> fr_Id f = i1 + 1)"
    using b2 by (auto split: if_splits dest: buildFrame_id)
  have "ps = (case r1 of None \<Rightarrow> [] | Some f \<Rightarrow> [(e_Timestamp e, f)])
      @ (case r2 of None \<Rightarrow> [] | Some f \<Rightarrow> [(if e_ElapsedMs e > 0 then e_Timestamp e + e_ElapsedMs e * 1000000 else e_Timestamp e, f)])"
    "id' = i2"
    using w b1 b2 by (auto simp: writeEntryPackets_def Let_def split: prod.splits)
  then show ?thesis using 1 2 by (auto simp: algebra_simps)
qed

lemma write_entries_ids:
  "map (fr_Id \<circ> snd) (write_entries L M es ipID)
     = map (\<lambda>i. ipID + word_of_nat (Suc i)) [0..<length (write_entries L M es ipID)]"
proof (induction es arbitrary: ipID)
  case (Cons e es)
  obtain ps id' where w: "writeEntryPackets L M e ipID = (ps, id')" by fastforce
  note ids = entry_ids [OF w]
  have "map (\<lambda>i. ipID + word_of_nat (Suc i)) [length ps..<length ps + k] = map (\<lambda>i. id' + word_of_nat (Suc i)) [0..<k]" for k
    using ids by (induction k) (simp_all add: algebra_simps)
  moreover have "[0..<length ps + k] = [0..<length ps] @ [length ps..<length ps + k]" for k
    by (rule upt_add_eq_append) simp
  ultimately show ?case using Cons [of id'] ids by (simp add: w comp_def)
qed simp

text \<open>The packets of an export carry consecutive IPv4 identification values, starting at 1 and wrapping
  at \<open>2 ^ 16\<close>: an entry that cannot be written (an IPv6 endpoint, a direction with no bytes) uses none up.\<close>

theorem pcap_ids_consecutive:
  "i < length (pcap_packets L M entries) \<Longrightarrow> fr_Id (snd (pcap_packets L M entries ! i)) = word_of_nat (i + 1)"
  using arg_cong [OF write_entries_ids [of L M "rev entries" 0], of "\<lambda>xs. xs ! i"]
  by (simp add: pcap_packets_def)

definition v4_lib :: golib where
  "v4_lib = ascii_lib\<lparr>parse_ip := (\<lambda>s. if s = ''v4'' then Some ''abcd'' else None)\<rparr>"

definition icmp_entry :: Entry where
  "icmp_entry = zero_Entry\<lparr>e_Protocol := ProtocolICMP, e_Source := zero_Endpoint\<lparr>ep_IP := ''v4''\<rparr>,
     e_Destination := zero_Endpoint\<lparr>ep_IP := ''v4''\<rparr>, e_Request := zero_Payload\<lparr>pl_Summary := ''ping''\<rparr>\<rparr>"

theorem pcap_ids_consecutive_witness:
  "map (fr_Id \<circ> snd) (pcap_packets v4_lib (\<lambda>_. None) [icmp_entry, zero_Entry, icmp_entry]) = [1, 2]"
proof -
  have "length (pcap_packets v4_lib (\<lambda>_. None) [icmp_entry, zero_Entry, icmp_entry]) = 2"
    by (simp add: pcap_packets_def writeEntryPackets_def pcapPayloadBytes_def buildFrame_def parseIPv4_def to4_def
        v4_lib_def icmp_entry_def zero_Entry_def zero_Payload_def zero_Endpoint_def ProtocolICMP_def Let_def
        case_prod_unfold)
  then show ?thesis
    using pcap_ids_consecutive [of 0 v4_lib "\<lambda>_. None" "[icmp_entry, zero_Entry, icmp_entry]"]
      pcap_ids_consecutive [of 1 v4_lib "\<lambda>_. None" "[icmp_entry, zero_Entry, icmp_entry]"]
    by (intro nth_equalityI) (auto simp: less_Suc_eq numeral_2_eq_2)
qed

text \<open>In the synthesized TCP exchange of an entry the two segments fit together: the response starts where
  the request's acknowledgement points and acknowledges exactly the request's bytes, modulo \<open>2 ^ 32\<close>, with addresses,
  ports and hardware addresses exchanged.\<close>

theorem pcap_exchange_fits:
  assumes "buildFrame L M e True req 0 id1 = (Some q, id2)" "buildFrame L M e False resp (length req) id2 = (Some a, id3)"
    "pcapTransport (e_Protocol e) = TransportTCP"
  shows "\<exists>sp dp seq ack w. fr_L4 q = TCPHeader sp dp seq ack w
      \<and> fr_L4 a = TCPHeader dp sp ack (seq + word_of_nat (length req)) w
      \<and> fr_SrcIP a = fr_DstIP q \<and> fr_DstIP a = fr_SrcIP q \<and> fr_SrcMAC a = fr_DstMAC q \<and> fr_DstMAC a = fr_SrcMAC q"
  using assms
  by (auto simp: buildFrame_def frameMACs_def Let_def tcpSeeds_def split: prod.splits option.splits)

theorem pcap_exchange_fits_witness:
  "\<exists>q a sp dp seq ack w. buildFrame v4_lib (\<lambda>_. None) (icmp_entry\<lparr>e_Protocol := ProtocolRedis\<rparr>) True ''PING'' 0 0 = (Some q, 1)
     \<and> buildFrame v4_lib (\<lambda>_. None) (icmp_entry\<lparr>e_Protocol := ProtocolRedis\<rparr>) False ''PONG'' 4 1 = (Some a, 2)
     \<and> fr_L4 q = TCPHeader sp dp seq ack w \<and> fr_L4 a = TCPHeader dp sp ack (seq + 4) w"
proof -
  let ?e = "icmp_entry\<lparr>e_Protocol := ProtocolRedis\<rparr>"
  have "\<exists>q. buildFrame v4_lib (\<lambda>_. None) ?e True ''PING'' 0 0 = (Some q, 1)"
    "\<exists>a. buildFrame v4_lib (\<lambda>_. None) ?e False ''PONG'' 4 1 = (Some a, 2)"
    by (simp_all add: buildFrame_def parseIPv4_def to4_def v4_lib_def icmp_entry_def zero_Endpoint_def zero_Entry_def
        Let_def case_prod_unfold)
  then obtain q a where qa: "buildFrame v4_lib (\<lambda>_. None) ?e True ''PING'' 0 0 = (Some q, 1)"
    "buildFrame v4_lib (\<lambda>_. None) ?e False ''PONG'' 4 1 = (Some a, 2)" by blast
  have "pcapTransport (e_Protocol ?e) = TransportTCP"
    by (simp add: pcapTransport_def ProtocolRedis_def ProtocolDNS_def ProtocolUDP_def ProtocolICMP_def)
  then show ?thesis using pcap_exchange_fits [OF qa(1), of "''PONG''" a 2] qa by (simp add: numeral_eq_Suc) blast
qed

end
