(* ===== verification/Hub_Summary.thy ===== *)
theory Hub_Summary
  imports Hub_Facets "HOL-Library.AList"
begin

text \<open>
  The reports of the hub over the buffered entries: \<open>internal/hub/summary.go\<close>, \<open>graph.go\<close> and \<open>sort.go\<close>.  A Go map from
  group to accumulator is an association list in the order of insertion; the rows are sorted before they leave, by an order in which no two tie.  \<open>Time.Sub\<close>
  saturates at the range of a \<open>Duration\<close>, and the division of durations truncates.
\<close>

definition zero_time :: time where "zero_time = - 62135596800000000000"

definition max_Duration :: int where "max_Duration = 9223372036854775807"

definition time_Sub :: "time \<Rightarrow> time \<Rightarrow> int" where
  "time_Sub t u = max (- max_Duration - 1) (min max_Duration (t - u))"

definition time_Truncate :: "time \<Rightarrow> int \<Rightarrow> time" where
  "time_Truncate t d = t - (t - zero_time) mod d"

definition int_quot :: "int \<Rightarrow> int \<Rightarrow> int" where
  "int_quot a b = (if a \<ge> 0 then a div b else - ((- a) div b))"

subsection \<open>Groups\<close>

definition group_add :: "('k \<Rightarrow> 'e \<Rightarrow> 'a) \<Rightarrow> ('e \<Rightarrow> 'a \<Rightarrow> 'a) \<Rightarrow> 'k \<times> 'e \<Rightarrow> ('k \<times> 'a) list \<Rightarrow> ('k \<times> 'a) list" where
  "group_add ini add ke g =
     AList.update (fst ke) (add (snd ke) (case map_of g (fst ke) of None \<Rightarrow> ini (fst ke) (snd ke) | Some a \<Rightarrow> a)) g"

definition group_all :: "('k \<Rightarrow> 'e \<Rightarrow> 'a) \<Rightarrow> ('e \<Rightarrow> 'a \<Rightarrow> 'a) \<Rightarrow> ('k \<times> 'e) list \<Rightarrow> ('k \<times> 'a) list" where
  "group_all ini add kes = fold (group_add ini add) kes []"

definition members :: "'k \<Rightarrow> ('k \<times> 'e) list \<Rightarrow> 'e list" where
  "members k kes = map snd (filter (\<lambda>ke. fst ke = k) kes)"

lemma group_all_lookup:
  "map_of (group_all ini add kes) k = (case members k kes of [] \<Rightarrow> None | e # es \<Rightarrow> Some (fold add (e # es) (ini k e)))"
  "distinct (map fst (group_all ini add kes))"
proof (induction kes rule: rev_induct)
  case (snoc ke kes)
  have s: "group_all ini add (kes @ [ke]) = group_add ini add ke (group_all ini add kes)" by (simp add: group_all_def)
  { case 1
    show ?case
    proof (cases "fst ke = k")
      case True
      then have m: "members k (kes @ [ke]) = members k kes @ [snd ke]" by (simp add: members_def)
      show ?thesis using snoc(1) True by (cases "members k kes") (simp_all add: m s group_add_def AList.update_conv')
    next
      case False
      then have "members k (kes @ [ke]) = members k kes" by (simp add: members_def)
      then show ?thesis using snoc(1) False by (simp add: s group_add_def AList.update_conv')
    qed
  next
    case 2
    show ?case using snoc(2) by (simp add: s group_add_def distinct_update)
  }
qed (simp_all add: group_all_def members_def)

text \<open>The table of groups as a multiset: one value for every key that occurs.\<close>

lemma group_all_values:
  "image_mset snd (mset (group_all ini add kes)) = image_mset (\<lambda>k. fold add (members k kes) (ini k (hd (members k kes)))) (mset_set (fst ` set kes))"
proof -
  let ?g = "group_all ini add kes" and ?f = "\<lambda>k. fold add (members k kes) (ini k (hd (members k kes)))"
  have ne: "members k kes \<noteq> [] \<longleftrightarrow> k \<in> fst ` set kes" for k by (force simp: members_def filter_empty_conv)
  have "fst ` set ?g = dom (map_of ?g)" by (simp add: dom_map_of_conv_image_fst)
  also have "\<dots> = fst ` set kes"
  proof (intro set_eqI)
    fix k show "k \<in> dom (map_of ?g) \<longleftrightarrow> k \<in> fst ` set kes"
      using ne [of k] by (cases "members k kes") (auto simp: group_all_lookup(1) domIff)
  qed
  finally have keys: "mset_set (fst ` set kes) = mset (map fst ?g)"
    using group_all_lookup(2) [of ini add kes] by (metis list.set_map mset_set_set)
  have val: "a = ?f k" if "(k, a) \<in> set ?g" for k a
  proof -
    have "map_of ?g k = Some a" using that group_all_lookup(2) [of ini add kes] by simp
    then show ?thesis by (cases "members k kes") (simp_all add: group_all_lookup(1))
  qed
  have "map snd ?g = map (?f \<circ> fst) ?g" using val by (auto simp: map_eq_conv)
  then show ?thesis unfolding keys by (metis (no_types) map_map mset_map)
qed

subsection \<open>Percentiles\<close>

definition percentile :: "int list \<Rightarrow> nat \<Rightarrow> int" where
  "percentile srt p =
     (if srt = [] then 0
      else let rank = (length srt * p + 99) div 100; rank1 = (if rank < 1 then 1 else rank);
        rank2 = (if rank1 > length srt then length srt else rank1) in
        srt ! (rank2 - 1))"

text \<open>The percentile of a sorted list is the nearest rank: at least \<open>p\<close> percent of the values are at most it and fewer than \<open>p\<close> percent are below it.\<close>

theorem percentile_nearest_rank:
  assumes "sorted xs" "xs \<noteq> []" "0 < p" "p \<le> 100"
  shows "percentile xs p \<in> set xs
    \<and> p * length xs \<le> 100 * length (filter (\<lambda>x. x \<le> percentile xs p) xs) \<and> 100 * length (filter (\<lambda>x. x < percentile xs p) xs) < p * length xs"
proof -
  let ?n = "length xs" and ?r = "(length xs * p + 99) div 100"
  have n: "0 < ?n" using assms(2) by simp
  have np: "0 < ?n * p" using n assms(3) by simp
  have r1: "1 \<le> ?r" using div_le_mono [of 100 "?n * p + 99" 100] np by linarith
  have "?n * p \<le> ?n * 100" using assms(4) by simp
  then have r2: "?r \<le> ?n" using div_le_mono [of "?n * p + 99" "?n * 100 + 99" 100] by simp
  have v: "percentile xs p = xs ! (?r - 1)" using assms(2) r1 r2 by (simp add: percentile_def Let_def)
  have lo: "100 * (?r - 1) < ?n * p" "?n * p \<le> 100 * ?r" using r1 np by linarith+
  have i: "?r - 1 < ?n" using r1 r2 by linarith
  have "{..<?r} \<subseteq> {i. i < ?n \<and> xs ! i \<le> xs ! (?r - 1)}" using assms(1) r2 i by (auto intro!: sorted_nth_mono)
  then have "?r \<le> length (filter (\<lambda>x. x \<le> xs ! (?r - 1)) xs)" using card_mono [of "{i. i < ?n \<and> xs ! i \<le> xs ! (?r - 1)}" "{..<?r}"] by (simp add: length_filter_conv_card)
  moreover have "{i. i < ?n \<and> xs ! i < xs ! (?r - 1)} \<subseteq> {..<?r - 1}"
  proof clarsimp
    fix i assume "i < ?n" "xs ! i < xs ! (?r - Suc 0)"
    then show "i < ?r - Suc 0" using assms(1) sorted_nth_mono [of xs "?r - Suc 0" i] by (meson not_le_imp_less order.strict_iff_not)
  qed
  then have "length (filter (\<lambda>x. x < xs ! (?r - 1)) xs) \<le> ?r - 1" using card_mono [of "{..<?r - 1}" "{i. i < ?n \<and> xs ! i < xs ! (?r - 1)}"] by (simp add: length_filter_conv_card)
  ultimately show ?thesis using v lo i by (simp add: mult.commute)
qed

theorem percentile_nearest_rank_witness: "percentile [10, 20, 30] 50 = 20 \<and> percentile [10, 20, 30] 50 \<in> set [10, 20, 30]"
  using percentile_nearest_rank [of "[10, 20, 30]" 50] by (simp add: percentile_def)

subsection \<open>Summary\<close>

record GroupSummary =
  gs_Key :: string
  gs_Count :: int
  gs_Errors :: int
  gs_Warnings :: int
  gs_Protocols :: "string list"
  gs_P50Ms :: int
  gs_P95Ms :: int
  gs_MaxMs :: int
  gs_FirstSeen :: time
  gs_LastSeen :: time

definition nodeLabel :: "Endpoint \<Rightarrow> string" where
  "nodeLabel ep =
     (let l0 = ep_Workload ep; l1 = (if l0 = [] then ep_Name ep else l0); l2 = (if l1 = [] then ep_IP ep else l1) in
      if l2 \<noteq> [] \<and> ep_Namespace ep \<noteq> [] then ep_Namespace ep @ ''/'' @ l2 else l2)"

definition validGroupBy :: "golib \<Rightarrow> string \<Rightarrow> bool" where
  "validGroupBy L key \<longleftrightarrow> key = ''workload'' \<or> key = ''namespace'' \<or> fieldGetter L key \<noteq> None"

definition endpointUnion :: "Entry \<Rightarrow> (Endpoint \<Rightarrow> string) \<Rightarrow> string list" where
  "endpointUnion e key =
     (let s = key (e_Source e); d = key (e_Destination e) in
      if s = [] \<and> d = [] then [] else if s = [] \<or> s = d then [d] else if d = [] then [s] else [s, d])"

definition groupKeys :: "golib \<Rightarrow> Entry \<Rightarrow> string \<Rightarrow> string list" where
  "groupKeys L e groupBy =
     (if groupBy = ''namespace'' then endpointUnion e ep_Namespace
      else if groupBy = ''workload'' then endpointUnion e nodeLabel
      else (case fieldGetter L groupBy of None \<Rightarrow> [] | Some get \<Rightarrow> if get e \<noteq> [] then [get e] else []))"

record group_acc =
  ga_row :: GroupSummary
  ga_protocols :: "string list"
  ga_elapsed :: "int list"

definition new_acc :: "string \<Rightarrow> Entry \<Rightarrow> group_acc" where
  "new_acc key e =
     \<lparr>ga_row = \<lparr>gs_Key = key, gs_Count = 0, gs_Errors = 0, gs_Warnings = 0, gs_Protocols = [], gs_P50Ms = 0, gs_P95Ms = 0, gs_MaxMs = 0,
        gs_FirstSeen = e_Timestamp e, gs_LastSeen = zero_time\<rparr>, ga_protocols = [], ga_elapsed = []\<rparr>"

definition acc_add :: "Entry \<Rightarrow> group_acc \<Rightarrow> group_acc" where
  "acc_add e a =
     (let r = ga_row a in
      a\<lparr>ga_row := r\<lparr>gs_Count := gs_Count r + 1,
          gs_Errors := (if e_Status e = ''error'' then gs_Errors r + 1 else gs_Errors r),
          gs_Warnings := (if e_Status e = ''warning'' then gs_Warnings r + 1 else gs_Warnings r),
          gs_FirstSeen := (if e_Timestamp e < gs_FirstSeen r then e_Timestamp e else gs_FirstSeen r),
          gs_LastSeen := (if e_Timestamp e > gs_LastSeen r then e_Timestamp e else gs_LastSeen r)\<rparr>,
        ga_protocols := List.insert (e_Protocol e) (ga_protocols a), ga_elapsed := ga_elapsed a @ [e_ElapsedMs e]\<rparr>)"

definition last_or_0 :: "int list \<Rightarrow> int" where
  "last_or_0 xs = (if xs \<noteq> [] then last xs else 0)"

definition acc_row :: "group_acc \<Rightarrow> GroupSummary" where
  "acc_row a =
     (let el = sort (ga_elapsed a) in
      (ga_row a)\<lparr>gs_Protocols := sort (ga_protocols a), gs_P50Ms := percentile el 50, gs_P95Ms := percentile el 95, gs_MaxMs := last_or_0 el\<rparr>)"

definition group_less :: "GroupSummary \<Rightarrow> GroupSummary \<Rightarrow> bool" where
  "group_less a b =
     (if gs_Count a \<noteq> gs_Count b then gs_Count a > gs_Count b
      else if gs_Errors a \<noteq> gs_Errors b then gs_Errors a > gs_Errors b
      else gs_Key a < gs_Key b)"

definition keyed_entries :: "golib \<Rightarrow> string \<Rightarrow> Entry list \<Rightarrow> (string \<times> Entry) list" where
  "keyed_entries L groupBy entries = concat (map (\<lambda>e. map (\<lambda>k. (k, e)) (groupKeys L e groupBy)) entries)"

definition summarize :: "golib \<Rightarrow> Entry list \<Rightarrow> string \<Rightarrow> GroupSummary list" where
  "summarize L entries groupBy =
     sort_slice group_less (map (acc_row \<circ> snd) (group_all new_acc acc_add (keyed_entries L groupBy entries)))"

subsection \<open>Service graph\<close>

record GraphEdge =
  ge_Src :: string
  ge_Dst :: string
  ge_Count :: int
  ge_Errors :: int
  ge_Warnings :: int
  ge_P50Ms :: int
  ge_P95Ms :: int
  ge_MaxMs :: int

definition focusMatches :: "Endpoint \<Rightarrow> string \<Rightarrow> bool" where
  "focusMatches ep focus \<longleftrightarrow> focus = ep_Workload ep \<or> focus = ep_Name ep \<or> focus = nodeLabel ep"

definition edge_keys :: "string \<Rightarrow> Entry \<Rightarrow> (string \<times> string) list" where
  "edge_keys focus e =
     (let s = nodeLabel (e_Source e); d = nodeLabel (e_Destination e) in
      if s = [] \<or> d = [] then []
      else if focus \<noteq> [] \<and> \<not> focusMatches (e_Source e) focus \<and> \<not> focusMatches (e_Destination e) focus then []
      else [(s, d)])"

definition new_edge :: "string \<times> string \<Rightarrow> Entry \<Rightarrow> GraphEdge \<times> int list" where
  "new_edge key e = (\<lparr>ge_Src = fst key, ge_Dst = snd key, ge_Count = 0, ge_Errors = 0, ge_Warnings = 0, ge_P50Ms = 0, ge_P95Ms = 0, ge_MaxMs = 0\<rparr>, [])"

definition edge_add :: "Entry \<Rightarrow> GraphEdge \<times> int list \<Rightarrow> GraphEdge \<times> int list" where
  "edge_add e a =
     (let r = fst a in
      (r\<lparr>ge_Count := ge_Count r + 1, ge_Errors := (if e_Status e = ''error'' then ge_Errors r + 1 else ge_Errors r),
         ge_Warnings := (if e_Status e = ''warning'' then ge_Warnings r + 1 else ge_Warnings r)\<rparr>, snd a @ [e_ElapsedMs e]))"

definition edge_row :: "GraphEdge \<times> int list \<Rightarrow> GraphEdge" where
  "edge_row a = (let el = sort (snd a) in (fst a)\<lparr>ge_P50Ms := percentile el 50, ge_P95Ms := percentile el 95, ge_MaxMs := last_or_0 el\<rparr>)"

definition edge_less :: "GraphEdge \<Rightarrow> GraphEdge \<Rightarrow> bool" where
  "edge_less a b =
     (if ge_Count a \<noteq> ge_Count b then ge_Count a > ge_Count b
      else if ge_Errors a \<noteq> ge_Errors b then ge_Errors a > ge_Errors b
      else if ge_Src a \<noteq> ge_Src b then ge_Src a < ge_Src b
      else ge_Dst a < ge_Dst b)"

definition serviceGraph :: "Entry list \<Rightarrow> string \<Rightarrow> GraphEdge list" where
  "serviceGraph entries focus =
     sort_slice edge_less (map (edge_row \<circ> snd) (group_all new_edge edge_add (concat (map (\<lambda>e. map (\<lambda>k. (k, e)) (edge_keys focus e)) entries))))"

interpretation group_order: weak_order group_less
  by unfold_locales (auto simp: group_less_def split: if_splits)

interpretation edge_order: weak_order edge_less
  by unfold_locales (auto simp: edge_less_def split: if_splits)

subsection \<open>What the rows say\<close>

definition having :: "('e \<Rightarrow> bool) \<Rightarrow> 'e list \<Rightarrow> int" where
  "having P es = int (length (filter P es))"

definition row_of :: "string \<Rightarrow> Entry list \<Rightarrow> GroupSummary" where
  "row_of k es =
     (let el = sort (map e_ElapsedMs es) in
      \<lparr>gs_Key = k, gs_Count = int (length es), gs_Errors = having (\<lambda>e. e_Status e = ''error'') es, gs_Warnings = having (\<lambda>e. e_Status e = ''warning'') es,
       gs_Protocols = sorted_list_of_set (e_Protocol ` set es), gs_P50Ms = percentile el 50, gs_P95Ms = percentile el 95, gs_MaxMs = Max (e_ElapsedMs ` set es),
       gs_FirstSeen = Min (e_Timestamp ` set es), gs_LastSeen = Max (insert zero_time (e_Timestamp ` set es))\<rparr>)"

definition edge_of :: "string \<times> string \<Rightarrow> Entry list \<Rightarrow> GraphEdge" where
  "edge_of k es =
     (let el = sort (map e_ElapsedMs es) in
      \<lparr>ge_Src = fst k, ge_Dst = snd k, ge_Count = int (length es), ge_Errors = having (\<lambda>e. e_Status e = ''error'') es,
       ge_Warnings = having (\<lambda>e. e_Status e = ''warning'') es, ge_P50Ms = percentile el 50, ge_P95Ms = percentile el 95, ge_MaxMs = Max (e_ElapsedMs ` set es)\<rparr>)"

lemma last_sort_Max: "xs \<noteq> [] \<Longrightarrow> last_or_0 (sort xs) = Max (set xs)" for xs :: "int list"
proof -
  assume ne: "xs \<noteq> []"
  have "last (sort xs) = Max (set (sort xs))"
  proof (intro Max_eqI [symmetric])
    fix y assume "y \<in> set (sort xs)"
    then obtain i where "i < length (sort xs)" "y = sort xs ! i" by (metis in_set_conv_nth)
    then show "y \<le> last (sort xs)" using sorted_nth_mono [of "sort xs" i "length xs - 1"] last_conv_nth [of "sort xs"] ne
      by (metis One_nat_def Suc_pred diff_Suc_less length_greater_0_conv length_sort less_Suc_eq_le sorted_sort)
  next
    have "sort xs \<noteq> []" using ne by (metis length_0_conv length_sort)
    then show "last (sort xs) \<in> set (sort xs)" by (rule last_in_set)
  qed simp
  moreover have "sort xs \<noteq> []" using ne by (metis length_0_conv length_sort)
  ultimately show ?thesis by (simp add: last_or_0_def)
qed

lemma acc_fold:
  fixes es :: "Entry list" and e :: Entry and k :: string
  defines "a \<equiv> fold acc_add es (new_acc k e)"
  shows "ga_row a = \<lparr>gs_Key = k, gs_Count = int (length es), gs_Errors = having (\<lambda>e. e_Status e = ''error'') es,
      gs_Warnings = having (\<lambda>e. e_Status e = ''warning'') es, gs_Protocols = [], gs_P50Ms = 0, gs_P95Ms = 0, gs_MaxMs = 0,
      gs_FirstSeen = Min (insert (e_Timestamp e) (e_Timestamp ` set es)), gs_LastSeen = Max (insert zero_time (e_Timestamp ` set es))\<rparr>
    \<and> distinct (ga_protocols a) \<and> set (ga_protocols a) = e_Protocol ` set es \<and> ga_elapsed a = map e_ElapsedMs es"
  unfolding a_def
proof (induction es rule: rev_induct)
  case (snoc x es)
  let ?T = "insert (e_Timestamp e) (e_Timestamp ` set es)" and ?U = "insert zero_time (e_Timestamp ` set es)" and ?t = "e_Timestamp x"
  have "insert (e_Timestamp e) (e_Timestamp ` set (es @ [x])) = insert ?t ?T" "insert zero_time (e_Timestamp ` set (es @ [x])) = insert ?t ?U" by auto
  moreover have "Min (insert ?t ?T) = min ?t (Min ?T)" "Max (insert ?t ?U) = max ?t (Max ?U)" by (rule Min_insert Max_insert; simp)+
  ultimately have times: "Min (insert (e_Timestamp e) (e_Timestamp ` set (es @ [x]))) = min ?t (Min ?T)"
      "Max (insert zero_time (e_Timestamp ` set (es @ [x]))) = max ?t (Max ?U)" by (simp_all only:)
  have pick: "(if t < m then t else m) = min t m" "(if m < t then t else m) = max t m" for t m :: int by auto
  let ?a = "fold acc_add es (new_acc k e)"
  have fld: "fold acc_add (es @ [x]) (new_acc k e) = acc_add x ?a" by simp
  note r = conjunct1 [OF snoc] and rest = conjunct2 [OF snoc]
  show ?case using rest unfolding times fld by (simp add: acc_add_def [of x] Let_def r pick having_def del: Min_insert Max_insert)
qed (simp add: new_acc_def having_def)

lemma acc_row_of: "es \<noteq> [] \<Longrightarrow> acc_row (fold acc_add es (new_acc k (hd es))) = row_of k es"
proof -
  assume ne: "es \<noteq> []"
  then have "insert (e_Timestamp (hd es)) (e_Timestamp ` set es) = e_Timestamp ` set es" by (simp add: insert_absorb)
  moreover have "sort ps = sorted_list_of_set (e_Protocol ` set es)" if "distinct ps" "set ps = e_Protocol ` set es" for ps :: "string list"
    using that by (metis sorted_list_of_set_sort_remdups distinct_remdups_id)
  ultimately show ?thesis using acc_fold [of es k "hd es"] ne
    by (simp add: acc_row_def row_of_def Let_def last_sort_Max)
qed

lemma edge_row_of: "es \<noteq> [] \<Longrightarrow> edge_row (fold edge_add es (new_edge k (hd es))) = edge_of k es"
proof -
  assume ne: "es \<noteq> []"
  have "fold edge_add es (new_edge k e) = ((fst (new_edge k e))\<lparr>ge_Count := int (length es), ge_Errors := having (\<lambda>e. e_Status e = ''error'') es,
      ge_Warnings := having (\<lambda>e. e_Status e = ''warning'') es\<rparr>, map e_ElapsedMs es)" for e
    by (induction es rule: rev_induct) (simp_all add: new_edge_def edge_add_def having_def Let_def)
  then show ?thesis using ne by (simp add: edge_row_def edge_of_def new_edge_def Let_def last_sort_Max)
qed

text \<open>Grouping entries by a list of keys each, none twice for an entry.\<close>

lemma grouped_rows:
  fixes keys :: "'e \<Rightarrow> 'k list"
  assumes "\<And>e. distinct (keys e)" "\<And>k es. es \<noteq> [] \<Longrightarrow> row (fold add es (ini k (hd es))) = spec k es"
  shows "mset (map (row \<circ> snd) (group_all ini add (concat (map (\<lambda>e. map (\<lambda>k. (k, e)) (keys e)) entries))))
    = image_mset (\<lambda>k. spec k (filter (\<lambda>e. k \<in> set (keys e)) entries)) (mset_set (\<Union>e \<in> set entries. set (keys e)))"
proof -
  let ?kes = "concat (map (\<lambda>e. map (\<lambda>k. (k, e)) (keys e)) entries)"
  have one: "map snd (filter (\<lambda>ke. fst ke = k) (map (\<lambda>k. (k, e)) (keys e))) = (if k \<in> set (keys e) then [e] else [])" for k e
  proof -
    have "filter (\<lambda>x. x = k) ks = (if k \<in> set ks then [k] else [])" if "distinct ks" for ks :: "'k list" using that by (induction ks) auto
    then show ?thesis using assms(1) [of e] by (simp add: filter_map comp_def)
  qed
  have mem: "members k ?kes = filter (\<lambda>e. k \<in> set (keys e)) entries" for k
    by (induction entries) (simp_all add: members_def one)
  have dom: "fst ` set ?kes = (\<Union>e \<in> set entries. set (keys e))" by (force simp: image_iff)
  have "mset (map (row \<circ> snd) (group_all ini add ?kes)) = image_mset row (image_mset snd (mset (group_all ini add ?kes)))"
    by (simp add: image_mset.compositionality comp_def)
  also have "\<dots> = image_mset (\<lambda>k. row (fold add (members k ?kes) (ini k (hd (members k ?kes))))) (mset_set (\<Union>e \<in> set entries. set (keys e)))"
    unfolding group_all_values dom by (simp add: image_mset.compositionality comp_def)
  also have "\<dots> = image_mset (\<lambda>k. spec k (filter (\<lambda>e. k \<in> set (keys e)) entries)) (mset_set (\<Union>e \<in> set entries. set (keys e)))"
    unfolding mem by (rule image_mset_cong) (auto simp: filter_empty_conv intro!: assms(2))
  finally show ?thesis .
qed

lemma summary_rows_mset:
  "mset (summarize L entries groupBy)
      = image_mset (\<lambda>k. row_of k (filter (\<lambda>e. k \<in> set (groupKeys L e groupBy)) entries)) (mset_set (\<Union>e \<in> set entries. set (groupKeys L e groupBy)))
    \<and> sorted_wrt (\<lambda>a b. \<not> group_less b a) (summarize L entries groupBy)"
proof -
  have "distinct (groupKeys L e groupBy)" for e by (simp add: groupKeys_def endpointUnion_def Let_def split: option.split)
  from grouped_rows [where keys = "\<lambda>e. groupKeys L e groupBy" and row = acc_row and spec = row_of, OF this acc_row_of] show ?thesis
    using group_order.in_order_sort_slice by (simp add: summarize_def keyed_entries_def)
qed

text \<open>The groups an entry belongs to: the namespaces or the workloads of its two ends, or the value of the field it is grouped by, if not empty.\<close>

definition belongs :: "golib \<Rightarrow> string \<Rightarrow> Entry \<Rightarrow> string \<Rightarrow> bool" where
  "belongs L groupBy e k \<longleftrightarrow> k \<noteq> [] \<and>
     (if groupBy = ''namespace'' then k \<in> {ep_Namespace (e_Source e), ep_Namespace (e_Destination e)}
      else if groupBy = ''workload'' then k \<in> {nodeLabel (e_Source e), nodeLabel (e_Destination e)}
      else \<exists>get. fieldGetter L groupBy = Some get \<and> get e = k)"

text \<open>The nearest-rank percentile: a value that at least so many percent are not above, and fewer are below.\<close>

definition nearest_rank :: "nat \<Rightarrow> int list \<Rightarrow> int \<Rightarrow> bool" where
  "nearest_rank p xs v \<longleftrightarrow> v \<in> set xs \<and> p * length xs \<le> 100 * length (filter (\<lambda>x. x \<le> v) xs) \<and> 100 * length (filter (\<lambda>x. x < v) xs) < p * length xs"

definition row_exact :: "Entry list \<Rightarrow> GroupSummary \<Rightarrow> bool" where
  "row_exact es r \<longleftrightarrow> es \<noteq> [] \<and> gs_Count r = int (length es)
     \<and> gs_Errors r = int (length (filter (\<lambda>e. e_Status e = ''error'') es)) \<and> gs_Warnings r = int (length (filter (\<lambda>e. e_Status e = ''warning'') es))
     \<and> set (gs_Protocols r) = e_Protocol ` set es \<and> sorted (gs_Protocols r) \<and> distinct (gs_Protocols r)
     \<and> nearest_rank 50 (map e_ElapsedMs es) (gs_P50Ms r) \<and> nearest_rank 95 (map e_ElapsedMs es) (gs_P95Ms r) \<and> gs_MaxMs r = Max (e_ElapsedMs ` set es)
     \<and> gs_FirstSeen r = Min (e_Timestamp ` set es) \<and> gs_LastSeen r = Max (insert zero_time (e_Timestamp ` set es))"

lemma group_keys_belong: "k \<in> set (groupKeys L e groupBy) \<longleftrightarrow> belongs L groupBy e k"
proof -
  have ends: "k \<in> set (endpointUnion e f) \<longleftrightarrow> k \<noteq> [] \<and> k \<in> {f (e_Source e), f (e_Destination e)}" for f
    by (auto simp: endpointUnion_def Let_def)
  show ?thesis by (cases "fieldGetter L groupBy") (auto simp: groupKeys_def belongs_def ends)
qed

lemma percentile_sort:
  assumes "xs \<noteq> []" "0 < p" "p \<le> 100"
  shows "nearest_rank p xs (percentile (sort xs) p)"
proof -
  have "length (filter P (sort xs)) = length (filter P xs)" for P by (metis mset_filter mset_sort size_mset)
  moreover have "sort xs \<noteq> []" using assms(1) by (metis length_0_conv length_sort)
  ultimately show ?thesis using percentile_nearest_rank [of "sort xs" p] assms by (simp add: nearest_rank_def)
qed

lemma row_of_exact: "es \<noteq> [] \<Longrightarrow> row_exact es (row_of k es)"
  by (simp add: row_exact_def row_of_def having_def Let_def percentile_sort)

lemma mset_of_set:
  assumes "mset xs = mset_set A" "finite A"
  shows "distinct xs \<and> set xs = A"
proof -
  have "set xs = A" using arg_cong [OF assms(1), of set_mset] assms(2) by simp
  moreover have "count (mset xs) a = (if a \<in> set xs then 1 else 0)" for a using assms calculation by (simp add: count_mset_set')
  ultimately show ?thesis by (simp add: distinct_count_atmost_1)
qed

text \<open>C32: The summary has one row for every group that an entry belongs to, an entry between a group and itself counted once, with the exact number, errors,
  warnings, protocols, nearest-rank percentiles, longest time and first and last timestamp of the entries of the group; the rows come by
  falling count, then falling errors, then key.\<close>

theorem summary_rows_exact:
  "distinct (map gs_Key (summarize L entries groupBy))
    \<and> (\<forall>k. k \<in> gs_Key ` set (summarize L entries groupBy) \<longleftrightarrow> (\<exists>e \<in> set entries. belongs L groupBy e k))
    \<and> (\<forall>r \<in> set (summarize L entries groupBy). row_exact (filter (\<lambda>e. belongs L groupBy e (gs_Key r)) entries) r)
    \<and> sorted_wrt (\<lambda>a b. gs_Count a > gs_Count b \<or> gs_Count a = gs_Count b \<and> (gs_Errors a > gs_Errors b \<or> gs_Errors a = gs_Errors b \<and> gs_Key a \<le> gs_Key b))
        (summarize L entries groupBy)"
proof -
  let ?R = "summarize L entries groupBy" and ?A = "\<Union>e \<in> set entries. set (groupKeys L e groupBy)"
  have rows: "mset ?R = image_mset (\<lambda>k. row_of k (filter (\<lambda>e. belongs L groupBy e k) entries)) (mset_set ?A)"
    using summary_rows_mset [of L entries groupBy] by (simp only: group_keys_belong)
  have fin: "finite ?A" by simp
  have key: "gs_Key (row_of k es) = k" for k es by (simp add: row_of_def Let_def)
  have "mset (map gs_Key ?R) = mset_set ?A" using rows by (simp add: image_mset.compositionality comp_def key)
  from mset_of_set [OF this fin] have keys: "distinct (map gs_Key ?R)" "gs_Key ` set ?R = ?A" by simp_all
  have "set ?R = (\<lambda>k. row_of k (filter (\<lambda>e. belongs L groupBy e k) entries)) ` ?A"
    using arg_cong [OF rows, of set_mset] fin by simp
  moreover have "filter (\<lambda>e. belongs L groupBy e k) entries \<noteq> []" if "k \<in> ?A" for k
    using that by (auto simp: group_keys_belong filter_empty_conv)
  ultimately have "\<forall>r \<in> set ?R. row_exact (filter (\<lambda>e. belongs L groupBy e (gs_Key r)) entries) r"
    by (auto simp: key row_of_exact)
  moreover have "\<forall>k. k \<in> gs_Key ` set ?R \<longleftrightarrow> (\<exists>e \<in> set entries. belongs L groupBy e k)" unfolding keys(2) by (simp add: group_keys_belong)
  moreover have "sorted_wrt (\<lambda>a b. gs_Count a > gs_Count b \<or> gs_Count a = gs_Count b \<and> (gs_Errors a > gs_Errors b \<or> gs_Errors a = gs_Errors b \<and> gs_Key a \<le> gs_Key b)) ?R"
    by (rule sorted_wrt_mono_rel [OF _ conjunct2 [OF summary_rows_mset]]) (auto simp: group_less_def split: if_splits)
  ultimately show ?thesis using keys(1) by blast
qed

theorem summary_rows_exact_witness:
  "\<exists>r \<in> set (summarize ascii_lib [zero_Entry\<lparr>e_Source := zero_Endpoint\<lparr>ep_Namespace := ''n''\<rparr>, e_ElapsedMs := 7\<rparr>] ''namespace'').
     gs_Key r = ''n'' \<and> gs_Count r = 1 \<and> gs_P95Ms r = 7"
proof -
  let ?e = "zero_Entry\<lparr>e_Source := zero_Endpoint\<lparr>ep_Namespace := ''n''\<rparr>, e_ElapsedMs := 7\<rparr>"
  have b: "belongs ascii_lib ''namespace'' ?e ''n''" by (simp add: belongs_def)
  note rows = summary_rows_exact [of ascii_lib "[?e]" "''namespace''"]
  have "''n'' \<in> gs_Key ` set (summarize ascii_lib [?e] ''namespace'')"
    by (rule iffD2 [OF spec [OF conjunct1 [OF conjunct2 [OF rows]]]]) (use b in simp)
  then obtain r where r: "r \<in> set (summarize ascii_lib [?e] ''namespace'')" "gs_Key r = ''n''" by force
  have "row_exact (filter (\<lambda>e. belongs ascii_lib ''namespace'' e ''n'') [?e]) r"
    using bspec [OF conjunct1 [OF conjunct2 [OF conjunct2 [OF rows]]] r(1)] unfolding r(2) .
  then have "gs_Count r = 1" "gs_P95Ms r = 7" using b by (simp_all add: row_exact_def nearest_rank_def)
  then show ?thesis using r by blast
qed

text \<open>The service graph has one edge for every pair of named ends that an entry in focus goes from and to, with the exact counts and percentiles of
  those entries, in the order of counts, errors and ends.\<close>

theorem graph_edges_exact:
  "mset (serviceGraph entries focus)
      = image_mset (\<lambda>k. edge_of k (filter (\<lambda>e. k \<in> set (edge_keys focus e)) entries)) (mset_set (\<Union>e \<in> set entries. set (edge_keys focus e)))
    \<and> sorted_wrt (\<lambda>a b. \<not> edge_less b a) (serviceGraph entries focus)"
proof -
  have "distinct (edge_keys focus e)" for e by (simp add: edge_keys_def Let_def)
  from grouped_rows [where keys = "edge_keys focus" and row = edge_row and spec = edge_of, OF this edge_row_of] show ?thesis
    using edge_order.in_order_sort_slice by (simp add: serviceGraph_def)
qed

definition some_entry :: "string \<Rightarrow> time \<Rightarrow> int \<Rightarrow> Entry" where
  "some_entry st t ms = zero_Entry\<lparr>e_Status := st, e_Timestamp := t, e_ElapsedMs := ms\<rparr>"

subsection \<open>Timeline\<close>

record TimelineBucket =
  tb_Start :: time
  tb_Entries :: int
  tb_Errors :: int
  tb_Warnings :: int

definition maxTimelineBuckets :: int where "maxTimelineBuckets = 1000"

definition bucket_count :: "Entry \<Rightarrow> TimelineBucket \<Rightarrow> TimelineBucket" where
  "bucket_count e b =
     b\<lparr>tb_Entries := tb_Entries b + 1, tb_Errors := (if e_Status e = ''error'' then tb_Errors b + 1 else tb_Errors b),
       tb_Warnings := (if e_Status e = ''warning'' then tb_Warnings b + 1 else tb_Warnings b)\<rparr>"

definition bucket_add :: "time \<Rightarrow> int \<Rightarrow> time \<Rightarrow> int \<Rightarrow> Entry \<Rightarrow> TimelineBucket list \<Rightarrow> TimelineBucket list" where
  "bucket_add start n until bucket e bs =
     (if e_Timestamp e < start \<or> e_Timestamp e > until then bs
      else let i = int_quot (time_Sub (e_Timestamp e) start) bucket in
        if i < 0 \<or> i \<ge> n then bs else bs[nat i := bucket_count e (bs ! nat i)])"

definition timeline_range :: "time \<Rightarrow> time \<Rightarrow> int \<Rightarrow> time \<times> int" where
  "timeline_range since until bucket =
     (let start = time_Truncate since bucket; n = int_quot (time_Sub until start) bucket + 1; n1 = (if n < 1 then 1 else n) in
      if n1 > maxTimelineBuckets then (start + (n1 - maxTimelineBuckets) * bucket, maxTimelineBuckets) else (start, n1))"

definition timeline :: "Entry list \<Rightarrow> time \<Rightarrow> time \<Rightarrow> int \<Rightarrow> TimelineBucket list" where
  "timeline entries since until bucket =
     (case timeline_range since until bucket of (start, n) \<Rightarrow>
        fold (bucket_add start n until bucket) entries
          (map (\<lambda>i. \<lparr>tb_Start = start + int i * bucket, tb_Entries = 0, tb_Errors = 0, tb_Warnings = 0\<rparr>) [0..<nat n]))"

definition in_bucket :: "time \<Rightarrow> time \<Rightarrow> int \<Rightarrow> Entry \<Rightarrow> bool" where
  "in_bucket start until bucket e \<longleftrightarrow> start \<le> e_Timestamp e \<and> e_Timestamp e < start + bucket \<and> e_Timestamp e \<le> until"

definition bucket_of :: "time \<Rightarrow> time \<Rightarrow> int \<Rightarrow> Entry list \<Rightarrow> TimelineBucket" where
  "bucket_of start until bucket es =
     (let here = filter (in_bucket start until bucket) es in
      \<lparr>tb_Start = start, tb_Entries = int (length here), tb_Errors = having (\<lambda>e. e_Status e = ''error'') here, tb_Warnings = having (\<lambda>e. e_Status e = ''warning'') here\<rparr>)"

lemma bucket_of_add: "bucket_of s u b (es @ [e]) = (if in_bucket s u b e then bucket_count e (bucket_of s u b es) else bucket_of s u b es)"
  by (simp add: bucket_of_def bucket_count_def having_def Let_def)

lemma div_window: "0 < b \<Longrightarrow> x div b = i \<longleftrightarrow> i * b \<le> x \<and> x < i * b + b" for b :: int
proof (intro iffI)
  assume b: "0 < b"
  show "i * b \<le> x \<and> x < i * b + b" if "x div b = i"
  proof -
    have "i * b + x mod b = x" using that div_mult_mod_eq [of x b] by simp
    then show ?thesis using pos_mod_sign [OF b, of x] pos_mod_bound [OF b, of x] by linarith
  qed
  show "x div b = i" if "i * b \<le> x \<and> x < i * b + b"
  proof -
    have "(i * b + (x - i * b)) div b = i + (x - i * b) div b" using b by (simp only: div_mult_self3)
    moreover have "(x - i * b) div b = 0" using that by (intro div_pos_pos_trivial) linarith+
    ultimately show ?thesis by simp
  qed
qed

lemma bucket_index:
  assumes "0 < bucket" "0 \<le> n" "start \<le> t" "n * bucket \<le> max_Duration"
  shows "int_quot (time_Sub t start) bucket < n \<longleftrightarrow> t < start + n * bucket"
    "t < start + n * bucket \<Longrightarrow> int_quot (time_Sub t start) bucket = (t - start) div bucket"
proof -
  have "0 \<le> n * bucket" using assms(1,2) by simp
  show eq: "int_quot (time_Sub t start) bucket = (t - start) div bucket" if "t < start + n * bucket"
    using that assms by (simp add: int_quot_def time_Sub_def max_Duration_def)
  have "n \<le> int_quot (time_Sub t start) bucket" if "t \<ge> start + n * bucket"
  proof -
    have "n * bucket \<le> time_Sub t start" using that assms(4) \<open>0 \<le> n * bucket\<close> by (simp add: time_Sub_def)
    then have "n * bucket div bucket \<le> time_Sub t start div bucket" "0 \<le> time_Sub t start"
      using zdiv_mono1 [OF _ assms(1)] \<open>0 \<le> n * bucket\<close> by (blast, linarith)
    then show ?thesis using assms(1) by (simp add: int_quot_def)
  qed
  moreover have "(t - start) div bucket < n" if "t < start + n * bucket"
  proof -
    have "(t - start) div bucket * bucket \<le> t - start" using div_window [OF assms(1), of "t - start" "(t - start) div bucket"] by simp
    then have "(t - start) div bucket * bucket < n * bucket" using that by linarith
    then show ?thesis using assms(1) by (simp add: mult_less_cancel_right)
  qed
  ultimately show "int_quot (time_Sub t start) bucket < n \<longleftrightarrow> t < start + n * bucket" using eq by fastforce
qed

lemma bucket_fold:
  assumes "0 < bucket" "0 \<le> n" "n * bucket \<le> max_Duration"
  shows "fold (bucket_add start n until bucket) es (map (\<lambda>i. \<lparr>tb_Start = start + int i * bucket, tb_Entries = 0, tb_Errors = 0, tb_Warnings = 0\<rparr>) [0..<nat n])
    = map (\<lambda>i. bucket_of (start + int i * bucket) until bucket es) [0..<nat n]"
proof (induction es rule: rev_induct)
  case (snoc e es)
  let ?bs = "\<lambda>es. map (\<lambda>i. bucket_of (start + int i * bucket) until bucket es) [0..<nat n]" and ?t = "e_Timestamp e"
  have "bucket_add start n until bucket e (?bs es) = ?bs (es @ [e])"
  proof (cases "start \<le> ?t \<and> ?t \<le> until \<and> ?t < start + n * bucket")
    case True
    let ?i = "(?t - start) div bucket"
    have i: "0 \<le> ?i" "?i < n" "int_quot (time_Sub ?t start) bucket = ?i"
      using True assms bucket_index [of bucket n start ?t] by (auto simp: pos_imp_zdiv_nonneg_iff)
    have own: "in_bucket (start + int j * bucket) until bucket e \<longleftrightarrow> int j = ?i" for j
    proof -
      have "?i = int j \<longleftrightarrow> int j * bucket \<le> ?t - start \<and> ?t - start < int j * bucket + bucket"
        by (rule div_window [OF assms(1)])
      then show ?thesis using True by (auto simp: in_bucket_def)
    qed
    show ?thesis
    proof (rule nth_equalityI)
      fix j assume "j < length (bucket_add start n until bucket e (?bs es))"
      then have "j < nat n" using True i by (simp add: bucket_add_def Let_def split: if_splits)
      then show "bucket_add start n until bucket e (?bs es) ! j = ?bs (es @ [e]) ! j"
        using True i own [of j] by (auto simp: bucket_add_def Let_def bucket_of_add nth_list_update)
    qed (use True i in \<open>simp add: bucket_add_def Let_def\<close>)
  next
    case False
    have "\<not> in_bucket (start + int j * bucket) until bucket e" if "j < nat n" for j
    proof -
      have "(int j + 1) * bucket \<le> n * bucket" using that assms(1) by (intro mult_right_mono) auto
      then have "int j * bucket + bucket \<le> n * bucket" by (simp add: distrib_right)
      moreover have "0 \<le> int j * bucket" using assms(1) by simp
      ultimately show ?thesis using False unfolding in_bucket_def by linarith
    qed
    then have "?bs (es @ [e]) = ?bs es" by (simp add: bucket_of_add)
    moreover have "bucket_add start n until bucket e (?bs es) = ?bs es"
      using False bucket_index(1) [OF assms(1,2) _ assms(3), of start ?t] by (auto simp: bucket_add_def Let_def)
    ultimately show ?thesis by simp
  qed
  then show ?case using snoc by simp
qed (simp add: bucket_of_def having_def)

lemma range_props:
  assumes "0 < bucket" "1000 * bucket \<le> max_Duration" "timeline_range since until bucket = (start, n)"
  shows "1 \<le> n" "n \<le> maxTimelineBuckets" "n * bucket \<le> max_Duration"
proof -
  show n: "1 \<le> n" "n \<le> maxTimelineBuckets" using assms(3) by (auto simp: timeline_range_def maxTimelineBuckets_def Let_def split: if_splits)
  have "n * bucket \<le> 1000 * bucket" using n assms(1) by (simp add: maxTimelineBuckets_def mult_right_mono)
  then show "n * bucket \<le> max_Duration" using assms(2) by linarith
qed

lemma timeline_buckets:
  assumes "0 < bucket" "1000 * bucket \<le> max_Duration" "timeline_range since until bucket = (start, n)"
  shows "timeline es since until bucket = map (\<lambda>i. bucket_of (start + int i * bucket) until bucket es) [0..<nat n]"
  using range_props [OF assms] bucket_fold [of bucket n start until es] assms(1,3) by (simp add: timeline_def)

text \<open>A timeline counts in each of its buckets exactly the entries of that interval, up to the end of the range; the buckets follow each other
  without a gap, the last one holds the end of the range, and the first one its beginning unless more than the allowed number is asked for, when the
  newest are kept.\<close>

theorem timeline_exact:
  assumes "0 < bucket" "1000 * bucket \<le> max_Duration" "since \<le> until" "until - time_Truncate since bucket \<le> max_Duration"
  shows "\<exists>start n. timeline es since until bucket = map (\<lambda>i. bucket_of (start + int i * bucket) until bucket es) [0..<n]
    \<and> 1 \<le> n \<and> n \<le> 1000 \<and> start + (int n - 1) * bucket \<le> until \<and> until < start + int n * bucket \<and> (n < 1000 \<longrightarrow> start \<le> since)"
proof -
  let ?s = "time_Truncate since bucket"
  have "0 \<le> (since - zero_time) mod bucket" using assms(1) by (rule pos_mod_sign)
  then have le: "?s \<le> since" by (simp add: time_Truncate_def)
  then have sub: "time_Sub until ?s = until - ?s" using assms(3,4) by (simp add: time_Sub_def max_Duration_def)
  define q where "q = (until - ?s) div bucket"
  have "0 \<le> q" unfolding q_def using le assms(1,3) by (simp add: pos_imp_zdiv_nonneg_iff)
  have n: "int_quot (time_Sub until ?s) bucket + 1 = q + 1" using le assms(3) by (simp add: sub int_quot_def q_def)
  have q: "q * bucket \<le> until - ?s" "until - ?s < q * bucket + bucket" using div_window [OF assms(1), of "until - ?s" q] by (simp_all add: q_def)
  obtain start m where r: "timeline_range since until bucket = (start, m)" by fastforce
  have m: "1 \<le> m" "m \<le> 1000" "start + m * bucket = ?s + (q + 1) * bucket" "m < 1000 \<Longrightarrow> start = ?s"
    using range_props(1,2) [OF assms(1,2) r] r n \<open>0 \<le> q\<close> by (auto simp: timeline_range_def maxTimelineBuckets_def Let_def algebra_simps split: if_splits)
  have "start + (int (nat m) - 1) * bucket \<le> until" "until < start + int (nat m) * bucket"
    using m(1,3) q by (simp_all add: algebra_simps)
  then show ?thesis using timeline_buckets [OF assms(1,2) r] m le by (intro exI [of _ start] exI [of _ "nat m"]) auto
qed

theorem timeline_exact_witness:
  "\<exists>start n. timeline [some_entry ''error'' 70 5] 0 120 60 = map (\<lambda>i. bucket_of (start + int i * 60) 120 60 [some_entry ''error'' 70 5]) [0..<n]
    \<and> 120 < start + int n * 60"
proof -
  have "timeline_range 0 120 60 = (0, 3)" by (simp add: timeline_range_def time_Truncate_def zero_time_def time_Sub_def max_Duration_def int_quot_def maxTimelineBuckets_def)
  then show ?thesis using timeline_exact [of 60 0 120 "[some_entry ''error'' 70 5]"]
    by (auto simp: max_Duration_def time_Truncate_def zero_time_def)
qed

text \<open>Over a range longer than a \<open>Duration\<close> can hold, about 292 years, the oldest buckets are kept instead of the newest: entries at the end of
  the range, which are all there are, are not counted, and every bucket is empty.\<close>

theorem long_range_shows_nothing:
  assumes "0 < bucket" "1000 * bucket \<le> max_Duration" "\<forall>e \<in> set es. since + max_Duration + bucket \<le> e_Timestamp e \<and> e_Timestamp e \<le> until" "es \<noteq> []"
  shows "\<forall>b \<in> set (timeline es since until bucket). tb_Entries b = 0"
proof -
  let ?s = "time_Truncate since bucket"
  obtain start n where r: "timeline_range since until bucket = (start, n)" by fastforce
  have "0 \<le> (since - zero_time) mod bucket" using assms(1) by (rule pos_mod_sign)
  then have le: "?s \<le> since" by (simp add: time_Truncate_def)
  obtain e where "e \<in> set es" using assms(4) by (cases es) auto
  then have "since + max_Duration + bucket \<le> until" using assms(3) by fastforce
  then have "time_Sub until ?s = max_Duration" using le assms(1) by (simp add: time_Sub_def max_Duration_def)
  then have q: "int_quot (time_Sub until ?s) bucket = max_Duration div bucket" by (simp add: int_quot_def max_Duration_def)
  have w: "max_Duration div bucket * bucket \<le> max_Duration" using div_window [OF assms(1), of max_Duration "max_Duration div bucket"] by simp
  have "0 \<le> max_Duration div bucket" using assms(1) by (simp add: pos_imp_zdiv_nonneg_iff max_Duration_def)
  then have "start + n * bucket = ?s + (max_Duration div bucket + 1) * bucket"
    using r q by (auto simp: timeline_range_def maxTimelineBuckets_def Let_def algebra_simps split: if_splits)
  then have ends: "start + n * bucket \<le> since + max_Duration + bucket" using w le by (simp add: algebra_simps)
  have "tb_Entries (bucket_of (start + int i * bucket) until bucket es) = 0" if "i < nat n" for i
  proof -
    have "(int i + 1) * bucket \<le> n * bucket" using that assms(1) by (intro mult_right_mono) auto
    then have "start + int i * bucket + bucket \<le> since + max_Duration + bucket" using ends by (simp add: algebra_simps)
    then have "\<not> in_bucket (start + int i * bucket) until bucket e" if "e \<in> set es" for e using assms(3) that by (fastforce simp: in_bucket_def)
    then show ?thesis by (simp add: bucket_of_def Let_def filter_empty_conv)
  qed
  then show ?thesis by (auto simp: timeline_buckets [OF assms(1,2) r])
qed

theorem long_range_shows_nothing_witness:
  "\<forall>b \<in> set (timeline [some_entry ''error'' 1784000000000000000 5] (- 11676096000000000000) 1784000000000000000 60000000000). tb_Entries b = 0"
  by (rule long_range_shows_nothing) (simp_all add: max_Duration_def some_entry_def)

end
