(* ===== verification/Hub_Sort.thy ===== *)
theory Hub_Sort
  imports Hub_Facets
begin

text \<open>
  Sorted queries, \<open>internal/hub/sort.go\<close>: the \<open>limit\<close> best entries by a numeric field, kept in a bounded heap.  The operations of
  \<open>container/heap\<close> are written out on the slice.  A comparison that agrees with the order of integer keys on the values that occur is the interface the
  heap is proved under; both directions of \<open>sortHeap\<close> provide it on numbers that are not NaN.
\<close>

subsection \<open>\<open>container/heap\<close>\<close>

definition swap :: "'a list \<Rightarrow> nat \<Rightarrow> nat \<Rightarrow> 'a list" where
  "swap xs i j = xs[i := xs ! j, j := xs ! i]"

definition parent :: "nat \<Rightarrow> nat" where
  "parent j = (j - 1) div 2"

lemma parent_less: "0 < j \<Longrightarrow> parent j < j"
  by (simp add: parent_def)

function heap_up :: "('a \<Rightarrow> 'a \<Rightarrow> bool) \<Rightarrow> 'a list \<Rightarrow> nat \<Rightarrow> 'a list" where
  "heap_up lt xs j = (if j = 0 then xs else if lt (xs ! j) (xs ! parent j) then heap_up lt (swap xs (parent j) j) (parent j) else xs)"
  by pat_completeness auto
termination
  by (relation "measure (\<lambda>(lt, xs, j). j)") (auto simp: parent_less)

declare heap_up.simps [simp del]

definition smaller_child :: "('a \<Rightarrow> 'a \<Rightarrow> bool) \<Rightarrow> 'a list \<Rightarrow> nat \<Rightarrow> nat \<Rightarrow> nat" where
  "smaller_child lt xs i n = (if 2 * i + 2 < n \<and> lt (xs ! (2 * i + 2)) (xs ! (2 * i + 1)) then 2 * i + 2 else 2 * i + 1)"

function heap_down :: "('a \<Rightarrow> 'a \<Rightarrow> bool) \<Rightarrow> 'a list \<Rightarrow> nat \<Rightarrow> nat \<Rightarrow> 'a list \<times> nat" where
  "heap_down lt xs i n =
     (if 2 * i + 1 \<ge> n then (xs, i)
      else let j = smaller_child lt xs i n in
        if \<not> lt (xs ! j) (xs ! i) then (xs, i) else heap_down lt (swap xs i j) j n)"
  by pat_completeness auto
termination
  by (relation "measure (\<lambda>(lt, xs, i, n). n - i)") (auto simp: smaller_child_def)

declare heap_down.simps [simp del]

definition heap_Push :: "('a \<Rightarrow> 'a \<Rightarrow> bool) \<Rightarrow> 'a list \<Rightarrow> 'a \<Rightarrow> 'a list" where
  "heap_Push lt xs x = heap_up lt (xs @ [x]) (length xs)"

definition heap_Fix :: "('a \<Rightarrow> 'a \<Rightarrow> bool) \<Rightarrow> 'a list \<Rightarrow> nat \<Rightarrow> 'a list" where
  "heap_Fix lt xs i = (case heap_down lt xs i (length xs) of (ys, i') \<Rightarrow> if i' > i then ys else heap_up lt ys i)"

definition heap_Pop :: "('a \<Rightarrow> 'a \<Rightarrow> bool) \<Rightarrow> 'a list \<Rightarrow> 'a \<times> 'a list" where
  "heap_Pop lt xs =
     (let n = length xs - 1; ys = fst (heap_down lt (swap xs 0 n) 0 n) in (last ys, butlast ys))"

subsection \<open>\<open>topNBySort\<close>\<close>

record sortedEntry =
  se_e :: Entry
  se_val :: f64

definition validSortField :: "string \<Rightarrow> bool" where
  "validSortField field = (case fieldSpecByName field of None \<Rightarrow> False | Some spec \<Rightarrow> fs_Type spec = FieldTypeNumber)"

definition sort_less :: "bool \<Rightarrow> sortedEntry \<Rightarrow> sortedEntry \<Rightarrow> bool" where
  "sort_less desc a b = (if desc then f_less (se_val a) (se_val b) else f_less (se_val b) (se_val a))"

definition topN_add :: "golib \<Rightarrow> getter \<Rightarrow> bool \<Rightarrow> nat \<Rightarrow> Entry \<Rightarrow> sortedEntry list \<Rightarrow> sortedEntry list" where
  "topN_add L get desc limit e items =
     (case parse_float L (get e) of None \<Rightarrow> items
      | Some v \<Rightarrow>
          let x = \<lparr>se_e = e, se_val = v\<rparr> in
          if length items < limit then heap_Push (sort_less desc) items x
          else if (desc \<and> f_less (se_val (items ! 0)) v) \<or> (\<not> desc \<and> f_less v (se_val (items ! 0)))
          then heap_Fix (sort_less desc) (items[0 := x]) 0
          else items)"

fun pop_all :: "('a \<Rightarrow> 'a \<Rightarrow> bool) \<Rightarrow> nat \<Rightarrow> 'a list \<Rightarrow> 'a list" where
  "pop_all lt 0 xs = []"
| "pop_all lt (Suc k) xs = (case heap_Pop lt xs of (x, ys) \<Rightarrow> pop_all lt k ys @ [x])"

definition topNBySort :: "golib \<Rightarrow> Entry list \<Rightarrow> getter \<Rightarrow> bool \<Rightarrow> nat \<Rightarrow> Entry list" where
  "topNBySort L entries get desc limit =
     (let h = fold (topN_add L get desc limit) entries [] in map se_e (pop_all (sort_less desc) (length h) h))"

subsection \<open>Heaps of integer keys\<close>

locale keyed_order =
  fixes lt :: "'a \<Rightarrow> 'a \<Rightarrow> bool" and key :: "'a \<Rightarrow> int" and ok :: "'a \<Rightarrow> bool"
  assumes lt_key: "ok x \<Longrightarrow> ok y \<Longrightarrow> lt x y \<longleftrightarrow> key x < key y"
begin

definition all_ok :: "'a list \<Rightarrow> bool" where
  "all_ok xs \<longleftrightarrow> (\<forall>x \<in> set xs. ok x)"

definition edge_ok :: "'a list \<Rightarrow> nat \<Rightarrow> bool" where
  "edge_ok xs i \<longleftrightarrow> key (xs ! parent i) \<le> key (xs ! i)"

definition is_heap :: "'a list \<Rightarrow> nat \<Rightarrow> bool" where
  "is_heap xs n \<longleftrightarrow> (\<forall>i < n. 0 < i \<longrightarrow> edge_ok xs i)"

lemma lt_nth: "all_ok xs \<Longrightarrow> i < length xs \<Longrightarrow> j < length xs \<Longrightarrow> lt (xs ! i) (xs ! j) \<longleftrightarrow> key (xs ! i) < key (xs ! j)"
  by (simp add: all_ok_def lt_key)

lemma swap_frame: "i < length xs \<Longrightarrow> j < length xs \<Longrightarrow> mset (swap xs i j) = mset xs \<and> length (swap xs i j) = length xs \<and> (all_ok (swap xs i j) = all_ok xs)"
proof -
  assume "i < length xs" "j < length xs"
  then have m: "mset (swap xs i j) = mset xs" unfolding swap_def by (rule mset_swap [OF _ , rotated])
  then have "set (swap xs i j) = set xs" by (metis set_mset_mset)
  then show ?thesis using m by (simp add: all_ok_def swap_def)
qed

lemma swap_nth: "i < length xs \<Longrightarrow> j < length xs \<Longrightarrow> k < length xs \<Longrightarrow> swap xs i j ! k = (if k = j then xs ! i else if k = i then xs ! j else xs ! k)"
  by (simp add: swap_def nth_list_update)

definition up_inv :: "'a list \<Rightarrow> nat \<Rightarrow> bool" where
  "up_inv xs j \<longleftrightarrow> (\<forall>i < length xs. 0 < i \<longrightarrow> i \<noteq> j \<longrightarrow> edge_ok xs i)
     \<and> (\<forall>i < length xs. 0 < i \<longrightarrow> 0 < j \<longrightarrow> parent i = j \<longrightarrow> key (xs ! parent j) \<le> key (xs ! i))"

lemma up_step:
  assumes "up_inv xs j" "0 < j" "j < length xs" "key (xs ! j) < key (xs ! parent j)"
  shows "up_inv (swap xs (parent j) j) (parent j)"
proof -
  let ?p = "parent j" and ?ys = "swap xs (parent j) j"
  have p: "?p < j" "?p < length xs" using parent_less [OF assms(2)] assms(3) by simp_all
  have nth: "k < length xs \<Longrightarrow> ?ys ! k = (if k = j then xs ! ?p else if k = ?p then xs ! j else xs ! k)" for k
    using swap_nth [of ?p xs j k] p assms(3) by simp
  have old: "i < length xs \<Longrightarrow> 0 < i \<Longrightarrow> i \<noteq> j \<Longrightarrow> key (xs ! parent i) \<le> key (xs ! i)" for i using assms(1) by (simp add: up_inv_def edge_ok_def)
  have kids: "i < length xs \<Longrightarrow> 0 < i \<Longrightarrow> parent i = j \<Longrightarrow> key (xs ! ?p) \<le> key (xs ! i)" for i using assms(1,2) by (simp add: up_inv_def)
  have len: "length ?ys = length xs" by (simp add: swap_def)
  have "key (?ys ! parent i) \<le> key (?ys ! i)" if "i < length xs" "0 < i" "i \<noteq> ?p" for i
    using that old [of i] kids [of i] assms(4) nth [of i] nth [of "parent i"] parent_less [of i] p by (cases "i = j"; cases "parent i = j"; cases "parent i = ?p") auto
  moreover have "key (?ys ! parent ?p) \<le> key (?ys ! i)" if "i < length xs" "0 < i" "0 < ?p" "parent i = ?p" for i
    using that old [of i] old [of ?p] nth [of i] nth [of "parent ?p"] parent_less [of ?p] p by (cases "i = j"; cases "i = ?p") auto
  ultimately show ?thesis by (simp add: up_inv_def edge_ok_def len)
qed

lemma heap_up_ok:
  assumes "up_inv xs j" "j < length xs" "all_ok xs"
  shows "is_heap (heap_up lt xs j) (length xs) \<and> mset (heap_up lt xs j) = mset xs"
  using assms
proof (induction j arbitrary: xs rule: less_induct)
  case (less j)
  show ?case
  proof (cases "0 < j \<and> lt (xs ! j) (xs ! parent j)")
    case True
    have p: "parent j < j" "parent j < length xs" using True parent_less [of j] less.prems(2) by auto
    have fr: "mset (swap xs (parent j) j) = mset xs" "length (swap xs (parent j) j) = length xs" "all_ok (swap xs (parent j) j)"
      using swap_frame [OF p(2) less.prems(2)] less.prems(3) by simp_all
    have "up_inv (swap xs (parent j) j) (parent j)" using True less.prems p by (intro up_step) (auto simp: lt_nth)
    then have "is_heap (heap_up lt (swap xs (parent j) j) (parent j)) (length xs) \<and> mset (heap_up lt (swap xs (parent j) j) (parent j)) = mset xs"
      using less.IH [OF p(1), of "swap xs (parent j) j"] fr p by simp
    then show ?thesis using True by (subst (1 2) heap_up.simps) simp
  next
    case False
    have "0 < j \<Longrightarrow> edge_ok xs j" using False less.prems(2,3) parent_less [of j] by (auto simp: edge_ok_def lt_nth)
    then have "is_heap xs (length xs)" using less.prems(1) by (auto simp: is_heap_def up_inv_def)
    then show ?thesis using False by (subst (1 2) heap_up.simps) auto
  qed
qed

definition down_inv :: "'a list \<Rightarrow> nat \<Rightarrow> nat \<Rightarrow> bool" where
  "down_inv xs i n \<longleftrightarrow> (\<forall>k < n. 0 < k \<longrightarrow> parent k \<noteq> i \<longrightarrow> edge_ok xs k)
     \<and> (\<forall>k < n. 0 < k \<longrightarrow> 0 < i \<longrightarrow> parent k = i \<longrightarrow> key (xs ! parent i) \<le> key (xs ! k))"

lemma parent_iff: "0 < k \<Longrightarrow> parent k = i \<longleftrightarrow> k = 2 * i + 1 \<or> k = 2 * i + 2"
  by (auto simp: parent_def)

lemma smaller_child_props:
  assumes "2 * i + 1 < n" "n \<le> length xs" "all_ok xs"
  shows "smaller_child lt xs i n < n" "parent (smaller_child lt xs i n) = i" "i < smaller_child lt xs i n"
    "k < n \<Longrightarrow> 0 < k \<Longrightarrow> parent k = i \<Longrightarrow> key (xs ! smaller_child lt xs i n) \<le> key (xs ! k)"
proof -
  have "2 * i + 2 < n \<Longrightarrow> lt (xs ! (2 * i + 2)) (xs ! (2 * i + 1)) \<longleftrightarrow> key (xs ! (2 * i + 2)) < key (xs ! (2 * i + 1))"
    using assms by (intro lt_nth) auto
  then show "k < n \<Longrightarrow> 0 < k \<Longrightarrow> parent k = i \<Longrightarrow> key (xs ! smaller_child lt xs i n) \<le> key (xs ! k)"
    by (auto simp: smaller_child_def parent_iff)
qed (use assms(1) in \<open>auto simp: smaller_child_def parent_def\<close>)

lemma down_step:
  assumes "down_inv xs i n" "2 * i + 1 < n" "n \<le> length xs" "all_ok xs" "key (xs ! j) < key (xs ! i)" "j = smaller_child lt xs i n"
  shows "down_inv (swap xs i j) j n"
proof -
  note j = smaller_child_props [OF assms(2-4), folded assms(6)]
  let ?ys = "swap xs i j"
  have nth: "k < n \<Longrightarrow> ?ys ! k = (if k = j then xs ! i else if k = i then xs ! j else xs ! k)" for k
    using swap_nth [of i xs j k] j assms(3) by simp
  have old: "k < n \<Longrightarrow> 0 < k \<Longrightarrow> parent k \<noteq> i \<Longrightarrow> key (xs ! parent k) \<le> key (xs ! k)" for k using assms(1) by (simp add: down_inv_def edge_ok_def)
  have up: "k < n \<Longrightarrow> 0 < k \<Longrightarrow> 0 < i \<Longrightarrow> parent k = i \<Longrightarrow> key (xs ! parent i) \<le> key (xs ! k)" for k using assms(1) by (simp add: down_inv_def)
  have lt: "key (xs ! j) < key (xs ! i)" by (rule assms(5))
  have "key (?ys ! parent k) \<le> key (?ys ! k)" if "k < n" "0 < k" "parent k \<noteq> j" for k
    using that old [of k] up [of j] j(4) [of k] lt nth [of k] nth [of "parent k"] parent_less [of k] j(1-3) by (cases "k = j"; cases "k = i"; cases "parent k = i") auto
  moreover have "key (?ys ! parent j) \<le> key (?ys ! k)" if "k < n" "0 < k" "parent k = j" for k
    using that old [of k] nth [of k] nth [of i] parent_less [of k] j(1-3) by (cases "k = i"; cases "k = j") auto
  ultimately show ?thesis by (simp add: down_inv_def edge_ok_def)
qed

lemma heap_down_unfold:
  "2 * i + 1 < n \<and> lt (xs ! smaller_child lt xs i n) (xs ! i) \<Longrightarrow> heap_down lt xs i n = heap_down lt (swap xs i (smaller_child lt xs i n)) (smaller_child lt xs i n) n"
  "\<not> (2 * i + 1 < n \<and> lt (xs ! smaller_child lt xs i n) (xs ! i)) \<Longrightarrow> heap_down lt xs i n = (xs, i)"
  by (subst heap_down.simps; simp add: Let_def)+

lemma heap_down_ok:
  assumes "down_inv xs i n" "n \<le> length xs" "all_ok xs"
  shows "is_heap (fst (heap_down lt xs i n)) n \<and> mset (fst (heap_down lt xs i n)) = mset xs
    \<and> (\<forall>k < length xs. n \<le> k \<longrightarrow> fst (heap_down lt xs i n) ! k = xs ! k) \<and> i \<le> snd (heap_down lt xs i n)"
  using assms
proof (induction "n - i" arbitrary: xs i rule: less_induct)
  case less
  let ?j = "smaller_child lt xs i n"
  show ?case
  proof (cases "2 * i + 1 < n \<and> lt (xs ! ?j) (xs ! i)")
    case True
    have j: "?j < n" "i < ?j" using smaller_child_props [of i n xs] True less.prems by auto
    have fr: "mset (swap xs i ?j) = mset xs" "length (swap xs i ?j) = length xs" "all_ok (swap xs i ?j)"
      using swap_frame [of i xs ?j] j less.prems by simp_all
    have inv: "down_inv (swap xs i ?j) ?j n" using True less.prems j by (intro down_step) (auto simp: lt_nth)
    have same: "swap xs i ?j ! k = xs ! k" if "k < length xs" "n \<le> k" for k using that j swap_nth [of i xs ?j k] by simp
    have "n - ?j < n - i" using j by simp
    from less.hyps [OF this inv] show ?thesis unfolding heap_down_unfold(1) [OF True] using fr same j less.prems(2) by simp
  next
    case False
    have "edge_ok xs k" if "k < n" "0 < k" for k
    proof (cases "parent k = i")
      case True
      then have c: "2 * i + 1 < n" using that by (auto simp: parent_iff)
      then have "\<not> key (xs ! ?j) < key (xs ! i)"
        using False less.prems smaller_child_props(1,3) [OF c less.prems(2,3)] by (simp add: lt_nth)
      then show ?thesis using smaller_child_props(4) [OF c less.prems(2,3) that True] True by (simp add: edge_ok_def)
    qed (use that less.prems(1) in \<open>auto simp: down_inv_def\<close>)
    then have "is_heap xs n" by (simp add: is_heap_def)
    then show ?thesis by (simp add: heap_down_unfold(2) [OF False])
  qed
qed

lemma heap_root: "is_heap xs n \<Longrightarrow> k < n \<Longrightarrow> key (xs ! 0) \<le> key (xs ! k)"
proof (induction k rule: less_induct)
  case (less k)
  show ?case
  proof (cases "k = 0")
    case False
    then have "key (xs ! 0) \<le> key (xs ! parent k)" "edge_ok xs k" using less parent_less [of k] by (auto simp: is_heap_def)
    then show ?thesis by (simp add: edge_ok_def)
  qed simp
qed

lemma heap_Push_ok:
  assumes "is_heap xs (length xs)" "all_ok xs" "ok x"
  shows "is_heap (heap_Push lt xs x) (Suc (length xs)) \<and> mset (heap_Push lt xs x) = add_mset x (mset xs)"
proof -
  have "key ((xs @ [x]) ! parent i) \<le> key ((xs @ [x]) ! i)" if "i < length xs" "0 < i" for i
    using that assms(1) parent_less [of i] by (simp add: is_heap_def edge_ok_def nth_append)
  moreover have "parent i \<noteq> length xs" if "i < Suc (length xs)" "0 < i" for i using that parent_less [of i] by simp
  ultimately have "up_inv (xs @ [x]) (length xs)" by (simp add: up_inv_def edge_ok_def less_Suc_eq)
  then show ?thesis using heap_up_ok [of "xs @ [x]" "length xs"] assms(2,3) by (simp add: heap_Push_def all_ok_def)
qed

lemma heap_Fix_ok:
  assumes "is_heap xs (length xs)" "all_ok xs" "ok x" "xs \<noteq> []"
  shows "is_heap (heap_Fix lt (xs[0 := x]) 0) (length xs) \<and> mset (heap_Fix lt (xs[0 := x]) 0) = add_mset x (mset (tl xs))"
proof -
  obtain y ys where xs: "xs = y # ys" using assms(4) by (cases xs) auto
  have "key (xs[0 := x] ! parent k) \<le> key (xs[0 := x] ! k)" if "k < length xs" "0 < k" "parent k \<noteq> 0" for k
    using that assms(1) parent_less [of k] by (auto simp: is_heap_def edge_ok_def)
  then have "down_inv (xs[0 := x]) 0 (length xs)" by (simp add: down_inv_def edge_ok_def)
  moreover have "all_ok (xs[0 := x])" using assms(2,3) xs by (simp add: all_ok_def)
  moreover have "heap_up lt zs 0 = zs" for zs by (subst heap_up.simps) simp
  ultimately show ?thesis using heap_down_ok [of "xs[0 := x]" 0 "length xs"] xs by (auto simp: heap_Fix_def split: prod.split)
qed

lemma heap_Pop_ok:
  assumes "is_heap xs (length xs)" "all_ok xs" "xs \<noteq> []"
  shows "fst (heap_Pop lt xs) = xs ! 0 \<and> is_heap (snd (heap_Pop lt xs)) (length xs - 1) \<and> mset xs = add_mset (xs ! 0) (mset (snd (heap_Pop lt xs)))"
proof -
  let ?n = "length xs - 1" let ?sw = "swap xs 0 ?n" let ?ys = "fst (heap_down lt ?sw 0 ?n)"
  have fr: "mset ?sw = mset xs" "length ?sw = length xs" "all_ok ?sw" using swap_frame [of 0 xs ?n] assms by simp_all
  have "key (?sw ! parent k) \<le> key (?sw ! k)" if "k < ?n" "0 < k" "parent k \<noteq> 0" for k
    using that assms(1,3) parent_less [of k] by (auto simp: is_heap_def edge_ok_def swap_nth)
  then have "down_inv ?sw 0 ?n" by (simp add: down_inv_def edge_ok_def)
  from heap_down_ok [OF this _ fr(3)] have d: "is_heap ?ys ?n" "mset ?ys = mset xs" "?ys ! ?n = ?sw ! ?n" using fr assms(3) by auto
  have len: "length ?ys = length xs" using d(2) by (metis size_mset)
  then have ne: "?ys \<noteq> []" using assms(3) by auto
  have l: "last ?ys = xs ! 0" using ne len d(3) swap_nth [of 0 xs ?n ?n] assms(3) by (simp add: last_conv_nth)
  have "key (butlast ?ys ! parent k) \<le> key (butlast ?ys ! k)" if "k < ?n" "0 < k" for k
  proof -
    have "parent k < length (butlast ?ys)" "k < length (butlast ?ys)" using that parent_less [of k] len by simp_all
    then show ?thesis using d(1) that by (simp only: nth_butlast) (simp add: is_heap_def edge_ok_def)
  qed
  then have "is_heap (butlast ?ys) ?n" by (simp add: is_heap_def edge_ok_def)
  moreover have "mset ?ys = mset (butlast ?ys @ [last ?ys])" by (simp only: append_butlast_last_id [OF ne])
  ultimately show ?thesis using l d(2) by (simp add: heap_Pop_def Let_def)
qed

lemma pop_all_ok:
  assumes "is_heap xs (length xs)" "all_ok xs"
  shows "mset (pop_all lt (length xs) xs) = mset xs \<and> sorted_wrt (\<lambda>a b. key b \<le> key a) (pop_all lt (length xs) xs)"
  using assms
proof (induction "length xs" arbitrary: xs)
  case (Suc n)
  have ne: "xs \<noteq> []" using Suc.hyps(2) by auto
  obtain x ys where pop: "heap_Pop lt xs = (x, ys)" by fastforce
  have p: "x = xs ! 0" "is_heap ys n" "mset xs = add_mset x (mset ys)" using heap_Pop_ok [OF Suc.prems ne] pop by (simp_all flip: Suc.hyps(2))
  have len: "length ys = n" using p(3) Suc.hyps(2) by (metis Suc_inject size_add_mset size_mset)
  have sub: "set ys \<subseteq> set xs" using p(3) by (metis set_mset_add_mset_insert set_mset_mset subset_insertI)
  have IH: "mset (pop_all lt n ys) = mset ys \<and> sorted_wrt (\<lambda>a b. key b \<le> key a) (pop_all lt n ys)"
    using Suc.hyps(1) [of ys] len p(2) Suc.prems(2) sub by (auto simp: all_ok_def)
  have "key x \<le> key y" if "y \<in> set ys" for y
  proof -
    obtain k where "k < length xs" "y = xs ! k" using \<open>y \<in> set ys\<close> sub by (metis in_set_conv_nth subsetD)
    then show ?thesis using heap_root [OF Suc.prems(1)] p(1) by simp
  qed
  moreover have "set (pop_all lt n ys) = set ys" using IH by (metis set_mset_mset)
  ultimately show ?case using IH p(3) pop by (simp add: sorted_wrt_append flip: Suc.hyps(2))
qed simp

end

subsection \<open>The best entries\<close>

definition se_key :: "bool \<Rightarrow> sortedEntry \<Rightarrow> int" where
  "se_key desc x = (if desc then f_key (se_val x) else - f_key (se_val x))"

interpretation sort_heap: keyed_order "sort_less desc" "se_key desc" "\<lambda>x. \<not> f_nan (se_val x)" for desc
  by unfold_locales (simp add: sort_less_def se_key_def f_less_def)

definition parsed_entries :: "golib \<Rightarrow> getter \<Rightarrow> Entry list \<Rightarrow> sortedEntry list" where
  "parsed_entries L get es = List.map_filter (\<lambda>e. map_option (\<lambda>v. \<lparr>se_e = e, se_val = v\<rparr>) (parse_float L (get e))) es"

text \<open>The heap against the values seen: the best of them, and what was left out is no better than any of it.\<close>

definition topN_inv :: "bool \<Rightarrow> nat \<Rightarrow> sortedEntry list \<Rightarrow> sortedEntry list \<Rightarrow> sortedEntry multiset \<Rightarrow> bool" where
  "topN_inv desc limit P H rest \<longleftrightarrow>
     sort_heap.all_ok H \<and> sort_heap.is_heap desc H (length H) \<and> length H = min limit (length P) \<and> mset P = mset H + rest
     \<and> (\<forall>r \<in># rest. \<forall>h \<in> set H. se_key desc r \<le> se_key desc h)"

lemma topN_inv_add:
  assumes "topN_inv desc limit P H rest" "0 < limit" "\<forall>v. parse_float L (get e) = Some v \<longrightarrow> \<not> f_nan v"
  shows "\<exists>rest'. topN_inv desc limit (P @ parsed_entries L get [e]) (topN_add L get desc limit e H) rest'"
proof (cases "parse_float L (get e)")
  case None
  then show ?thesis using assms(1) by (auto simp: topN_add_def parsed_entries_def map_filter_simps)
next
  case (Some v)
  let ?x = "\<lparr>se_e = e, se_val = v\<rparr>"
  have x: "\<not> f_nan (se_val ?x)" "parsed_entries L get [e] = [?x]" using assms(3) Some by (simp_all add: parsed_entries_def map_filter_simps)
  have inv: "sort_heap.all_ok H" "sort_heap.is_heap desc H (length H)" "length H = min limit (length P)" "mset P = mset H + rest"
      "\<forall>r \<in># rest. \<forall>h \<in> set H. se_key desc r \<le> se_key desc h" using assms(1) unfolding topN_inv_def by blast+
  show ?thesis
  proof (cases "length H < limit")
    case True
    have "size (mset P) = size (mset H) + size rest" using inv(4) by simp
    then have "rest = {#}" using True inv(3) by simp
    moreover note push = sort_heap.heap_Push_ok [OF inv(2,1) x(1)]
    moreover have "length (heap_Push (sort_less desc) H ?x) = Suc (length H)" using push by (metis size_add_mset size_mset)
    moreover have "set (heap_Push (sort_less desc) H ?x) = insert ?x (set H)" using push by (metis set_mset_add_mset_insert set_mset_mset)
    ultimately have "topN_inv desc limit (P @ [?x]) (heap_Push (sort_less desc) H ?x) {#}"
      using inv x(1) True by (simp add: topN_inv_def sort_heap.all_ok_def)
    then show ?thesis using True Some x(2) by (auto simp: topN_add_def)
  next
    case full: False
    then have ne: "H \<noteq> []" and len: "length H = limit" "limit \<le> length P" using assms(2) inv(3) by auto
    have nan: "\<not> f_nan (se_val (H ! 0))" using inv(1) ne by (simp add: sort_heap.all_ok_def)
    have root: "se_key desc (H ! 0) \<le> se_key desc h" if "h \<in> set H" for h
      using that sort_heap.heap_root [OF inv(2)] by (metis in_set_conv_nth)
    have better: "(desc \<and> f_less (se_val (H ! 0)) v) \<or> (\<not> desc \<and> f_less v (se_val (H ! 0))) \<longleftrightarrow> se_key desc (H ! 0) < se_key desc ?x"
      using nan x(1) by (auto simp: se_key_def f_less_def)
    obtain y ys where H: "H = y # ys" using ne by (cases H) auto
    show ?thesis
    proof (cases "se_key desc (H ! 0) < se_key desc ?x")
      case True
      note fx = sort_heap.heap_Fix_ok [OF inv(2,1) x(1) ne]
      let ?H = "heap_Fix (sort_less desc) (H[0 := ?x]) 0"
      have "length ?H = length H" using fx H by (metis length_Cons list.sel(3) size_add_mset size_mset)
      moreover have "set ?H = insert ?x (set ys)" using fx H by (metis list.sel(3) set_mset_add_mset_insert set_mset_mset)
      ultimately have "topN_inv desc limit (P @ [?x]) ?H (add_mset y rest)"
        using inv x(1) fx root True H len by (fastforce simp: topN_inv_def sort_heap.all_ok_def)
      moreover have "topN_add L get desc limit e H = ?H" using Some full better True by (simp add: topN_add_def Let_def)
      ultimately show ?thesis using x(2) by auto
    next
      case False
      then have "topN_inv desc limit (P @ [?x]) H (add_mset ?x rest)" using inv root len by (fastforce simp: topN_inv_def)
      moreover have "topN_add L get desc limit e H = H" using Some full better False by (auto simp: topN_add_def Let_def)
      ultimately show ?thesis using x(2) by auto
    qed
  qed
qed

lemma topN_fold:
  assumes "0 < limit" "\<forall>e \<in> set es. \<forall>v. parse_float L (get e) = Some v \<longrightarrow> \<not> f_nan v"
  shows "\<exists>rest. topN_inv desc limit (parsed_entries L get es) (fold (topN_add L get desc limit) es []) rest"
  using assms
proof (induction es rule: rev_induct)
  case Nil
  then show ?case by (intro exI [of _ "{#}"]) (simp add: topN_inv_def parsed_entries_def map_filter_simps sort_heap.all_ok_def sort_heap.is_heap_def)
next
  case (snoc e es)
  then obtain rest where "topN_inv desc limit (parsed_entries L get es) (fold (topN_add L get desc limit) es []) rest" by auto
  from topN_inv_add [OF this snoc.prems(1), of L get e] show ?case using snoc.prems
    by (simp add: parsed_entries_def List.map_filter_def)
qed

text \<open>C34: A sorted query returns the best entries by the field, as many as asked for or as have a number there: no entry left out is better than one
  returned, and the best come first, in either direction.\<close>

theorem top_entries_best:
  assumes "0 < limit" "\<forall>e \<in> set entries. \<forall>v. parse_float L (get e) = Some v \<longrightarrow> \<not> f_nan v"
  shows "\<exists>top rest. topNBySort L entries get desc limit = map se_e top \<and> mset (parsed_entries L get entries) = mset top + mset rest
    \<and> length top = min limit (length (parsed_entries L get entries)) \<and> sorted_wrt (\<lambda>a b. \<not> sort_less desc a b) top
    \<and> (\<forall>t \<in> set top. \<forall>r \<in> set rest. \<not> sort_less desc t r)"
proof -
  let ?H = "fold (topN_add L get desc limit) entries []"
  obtain restm where "topN_inv desc limit (parsed_entries L get entries) ?H restm" using topN_fold [OF assms] by blast
  then have inv: "sort_heap.all_ok ?H" "sort_heap.is_heap desc ?H (length ?H)" "length ?H = min limit (length (parsed_entries L get entries))"
      "mset (parsed_entries L get entries) = mset ?H + restm" "\<forall>r \<in># restm. \<forall>h \<in> set ?H. se_key desc r \<le> se_key desc h"
    unfolding topN_inv_def by blast+
  obtain rest where rest: "mset rest = restm" using ex_mset by blast
  let ?top = "pop_all (sort_less desc) (length ?H) ?H"
  have top: "mset ?top = mset ?H" "sorted_wrt (\<lambda>a b. se_key desc b \<le> se_key desc a) ?top" using sort_heap.pop_all_ok [OF inv(2,1)] by simp_all
  have less: "\<not> sort_less desc a b" if "se_key desc b \<le> se_key desc a" for a b using that by (auto simp: sort_less_def se_key_def f_less_def split: if_splits)
  have "set ?top = set ?H" "length ?top = length ?H" using top(1) by (metis set_mset_mset, metis size_mset)
  moreover have "sorted_wrt (\<lambda>a b. \<not> sort_less desc a b) ?top" using top(2) less by (rule sorted_wrt_mono_rel [rotated])
  moreover have "topNBySort L entries get desc limit = map se_e ?top" by (simp only: topNBySort_def Let_def)
  moreover have "\<not> sort_less desc t r" if "t \<in> set ?H" "r \<in> set rest" for t r
    using that less inv(5) rest by (metis set_mset_mset)
  ultimately show ?thesis using inv(3,4) rest top(1) by (intro exI [of _ ?top] exI [of _ rest]) simp
qed

definition some_entries :: "Entry list" where
  "some_entries = map (\<lambda>n. zero_Entry\<lparr>e_ElapsedMs := n\<rparr>) [3, 9, 5]"

definition some_getter :: getter where
  "some_getter e = format_float ascii_lib (word_of_int (e_ElapsedMs e))"

theorem top_entries_best_witness:
  "\<exists>top rest. topNBySort ascii_lib some_entries some_getter True 2 = map se_e top \<and> length top = 2
    \<and> mset (parsed_entries ascii_lib some_getter some_entries) = mset top + mset rest"
proof -
  have nan: "\<not> f_nan (3 :: f64)" "\<not> f_nan (9 :: f64)" "\<not> f_nan (5 :: f64)" by (simp_all add: f_nan_def f_mag_def)
  have p: "parse_float ascii_lib (some_getter e) = Some (word_of_int (e_ElapsedMs e))" for e
    by (simp only: some_getter_def parse_float_ascii_lib)
  have "length (parsed_entries ascii_lib some_getter some_entries) = 3"
    by (simp add: parsed_entries_def some_entries_def map_filter_simps p)
  moreover have "\<forall>e \<in> set some_entries. \<forall>v. parse_float ascii_lib (some_getter e) = Some v \<longrightarrow> \<not> f_nan v"
    using nan by (auto simp: some_entries_def p)
  ultimately show ?thesis using top_entries_best [of 2 some_entries ascii_lib some_getter True] by fastforce
qed

end
