(* ===== verification/Hub_Export.thy ===== *)
theory Hub_Export
  imports Api_Types "HOL-Library.Multiset"
begin

text \<open>
  The export sink of the hub, \<open>internal/hub/export.go\<close>: the buffer that never blocks, the rotating file and the webhook batches.  The file system is a map
  from paths to contents, and whether an operation of the system succeeds is part of the event: how many bytes of a record are written, whether the rename and the
  reopening of the live file succeed, whether a POST does.  Renaming a file that does not exist fails, and the code ignores that.
\<close>

definition exportBufferSize :: nat where "exportBufferSize = 4096"
definition defaultExportFileMaxBytes :: int where "defaultExportFileMaxBytes = 104857600"
definition exportFileRotations :: nat where "exportFileRotations = 5"
definition exportWebhookMaxBatch :: nat where "exportWebhookMaxBatch = 500"

definition newline :: bytes where "newline = [CHR 0x0A]"

record ExportOptions =
  xo_File :: string
  xo_FileMaxBytes :: int
  xo_Webhook :: string

text \<open>\<open>ex_open\<close> stands for a live \<open>*os.File\<close>; \<open>ex_posts\<close> is history: the bodies posted with their batches and whether the sink took them.\<close>

record exporter =
  ex_ch :: "bytes list"
  ex_dropped :: nat
  ex_filePath :: string
  ex_fileMaxBytes :: int
  ex_open :: bool
  ex_fileSize :: int
  ex_webhookURL :: string
  ex_batch :: "bytes list"
  ex_fs :: "string \<Rightarrow> bytes option"
  ex_posts :: "(bytes \<times> bytes list \<times> bool) list"
  ex_overflow :: "bytes list"

record io_result =
  io_written :: "nat option"
  io_rename :: bool
  io_reopen :: bool
  io_post :: bool

definition io_fine :: io_result where
  "io_fine = \<lparr>io_written = None, io_rename = True, io_reopen = True, io_post = True\<rparr>"

definition newExporter :: "ExportOptions \<Rightarrow> (string \<Rightarrow> bytes option) \<Rightarrow> exporter option" where
  "newExporter opts fs =
     (if xo_File opts = [] \<and> xo_Webhook opts = [] then None
      else Some \<lparr>ex_ch = [], ex_dropped = 0, ex_filePath = xo_File opts,
        ex_fileMaxBytes = (if xo_File opts = [] then 0 else if xo_FileMaxBytes opts \<le> 0 then defaultExportFileMaxBytes else xo_FileMaxBytes opts),
        ex_open = False, ex_fileSize = 0, ex_webhookURL = xo_Webhook opts, ex_batch = [], ex_fs = fs, ex_posts = [], ex_overflow = []\<rparr>)"

definition export :: "bytes option \<Rightarrow> exporter \<Rightarrow> exporter" where
  "export raw e =
     (case raw of None \<Rightarrow> e
      | Some r \<Rightarrow> if length (ex_ch e) < exportBufferSize then e\<lparr>ex_ch := ex_ch e @ [r]\<rparr>
          else e\<lparr>ex_dropped := ex_dropped e + 1, ex_overflow := ex_overflow e @ [r]\<rparr>)"

subsection \<open>The file\<close>

definition rotated :: "string \<Rightarrow> nat \<Rightarrow> string" where
  "rotated path i = path @ ''.'' @ itoa (int i)"

definition closeFile :: "exporter \<Rightarrow> exporter" where
  "closeFile e = e\<lparr>ex_open := False\<rparr>"

definition openFile :: "bool \<Rightarrow> exporter \<Rightarrow> exporter" where
  "openFile ok e =
     (if \<not> ok then e
      else let content = (case ex_fs e (ex_filePath e) of None \<Rightarrow> [] | Some c \<Rightarrow> c) in
        e\<lparr>ex_fs := (ex_fs e)(ex_filePath e \<mapsto> content), ex_open := True, ex_fileSize := int (length content)\<rparr>)"

definition rename :: "string \<Rightarrow> string \<Rightarrow> (string \<Rightarrow> bytes option) \<Rightarrow> string \<Rightarrow> bytes option" where
  "rename a b fs = (case fs a of None \<Rightarrow> fs | Some c \<Rightarrow> (fs(b \<mapsto> c))(a := None))"

definition shift_files :: "string \<Rightarrow> (string \<Rightarrow> bytes option) \<Rightarrow> string \<Rightarrow> bytes option" where
  "shift_files path fs =
     fold (\<lambda>i. rename (rotated path i) (rotated path (i + 1))) (rev [1..<exportFileRotations]) (fs(rotated path exportFileRotations := None))"

definition rotate_file :: "io_result \<Rightarrow> exporter \<Rightarrow> exporter" where
  "rotate_file io e =
     (let e1 = closeFile e; fs = shift_files (ex_filePath e) (ex_fs e1) in
      if \<not> io_rename io then e1\<lparr>ex_fs := fs\<rparr>
      else openFile (io_reopen io) (e1\<lparr>ex_fs := rename (ex_filePath e) (rotated (ex_filePath e) 1) fs\<rparr>))"

definition writeFile :: "io_result \<Rightarrow> bytes \<Rightarrow> exporter \<Rightarrow> exporter" where
  "writeFile io raw e =
     (if \<not> ex_open e then e
      else let line = raw @ newline; content = (case ex_fs e (ex_filePath e) of None \<Rightarrow> [] | Some c \<Rightarrow> c) in
        (case io_written io of
           Some n \<Rightarrow> closeFile (e\<lparr>ex_fs := (ex_fs e)(ex_filePath e \<mapsto> content @ take n line)\<rparr>)
         | None \<Rightarrow>
             let e1 = e\<lparr>ex_fs := (ex_fs e)(ex_filePath e \<mapsto> content @ line), ex_fileSize := ex_fileSize e + int (length line)\<rparr> in
             if ex_fileSize e1 \<ge> ex_fileMaxBytes e1 then rotate_file io e1 else e1))"

subsection \<open>The webhook\<close>

definition assembleEntryArray :: "bytes list \<Rightarrow> bytes" where
  "assembleEntryArray raws = ''['' @ join '','' raws @ '']''"

definition flushWebhook :: "bool \<Rightarrow> exporter \<Rightarrow> exporter" where
  "flushWebhook ok e =
     (if ex_webhookURL e = [] \<or> ex_batch e = [] then e
      else e\<lparr>ex_batch := [], ex_posts := ex_posts e @ [(assembleEntryArray (ex_batch e), ex_batch e, ok)],
        ex_dropped := (if ok then ex_dropped e else ex_dropped e + length (ex_batch e))\<rparr>)"

definition consume :: "io_result \<Rightarrow> bytes \<Rightarrow> exporter \<Rightarrow> exporter" where
  "consume io raw e =
     (let e1 = writeFile io raw e in
      if ex_webhookURL e1 \<noteq> [] then
        let e2 = e1\<lparr>ex_batch := ex_batch e1 @ [raw]\<rparr> in
        if length (ex_batch e2) \<ge> exportWebhookMaxBatch then flushWebhook (io_post io) e2 else e2
      else e1)"

subsection \<open>\<open>run\<close>\<close>

definition run_start :: "bool \<Rightarrow> exporter \<Rightarrow> exporter" where
  "run_start ok e = (if ex_filePath e = [] then e else if ok then openFile True e else e\<lparr>ex_filePath := []\<rparr>)"

text \<open>An event of the goroutine, or an entry offered by the ingest, whose JSON is nil when it did not marshal.\<close>

datatype export_event = Offered "bytes option" | Drained io_result | Tick bool

definition export_step :: "export_event \<Rightarrow> exporter \<Rightarrow> exporter" where
  "export_step ev e =
     (case ev of
        Offered raw \<Rightarrow> export raw e
      | Drained io \<Rightarrow> (case ex_ch e of [] \<Rightarrow> e | raw # ch \<Rightarrow> consume io raw (e\<lparr>ex_ch := ch\<rparr>))
      | Tick ok \<Rightarrow> flushWebhook ok e)"

text \<open>At shutdown: what is buffered is consumed, with one outcome for each, and the last batch posted.\<close>

definition export_shutdown :: "(nat \<Rightarrow> io_result) \<Rightarrow> bool \<Rightarrow> exporter \<Rightarrow> exporter" where
  "export_shutdown ios ok e =
     closeFile (flushWebhook ok (fold (\<lambda>(i, raw). consume (ios i) raw) (List.enumerate 0 (ex_ch e)) (e\<lparr>ex_ch := []\<rparr>)))"

definition export_run :: "export_event list \<Rightarrow> exporter \<Rightarrow> exporter" where
  "export_run evs e = fold export_step evs e"

subsection \<open>Batches\<close>

definition posted :: "exporter \<Rightarrow> bytes list" where
  "posted e = concat (map (\<lambda>(body, raws, ok). raws) (ex_posts e))"

definition refused :: "exporter \<Rightarrow> bytes list" where
  "refused e = concat (map (\<lambda>(body, raws, ok). if ok then [] else raws) (ex_posts e))"

definition post_ok :: "bytes \<times> bytes list \<times> bool \<Rightarrow> bool" where
  "post_ok p \<longleftrightarrow> (case p of (body, raws, ok) \<Rightarrow> body = assembleEntryArray raws \<and> raws \<noteq> [] \<and> length raws \<le> exportWebhookMaxBatch)"

text \<open>What was taken from the buffer, in order, is what was posted and then the pending batch.\<close>

definition export_inv :: "exporter \<Rightarrow> bytes list \<Rightarrow> bytes list \<Rightarrow> bool" where
  "export_inv e offered taken \<longleftrightarrow>
     ex_webhookURL e \<noteq> [] \<and> posted e @ ex_batch e = taken \<and> list_all post_ok (ex_posts e) \<and> length (ex_batch e) < exportWebhookMaxBatch
     \<and> ex_dropped e = length (ex_overflow e) + length (refused e) \<and> length (ex_ch e) \<le> exportBufferSize
     \<and> mset offered = mset (taken @ ex_ch e) + mset (ex_overflow e)"

lemma write_frame:
  "ex_ch (writeFile io raw e) = ex_ch e" "ex_dropped (writeFile io raw e) = ex_dropped e" "ex_webhookURL (writeFile io raw e) = ex_webhookURL e"
  "ex_batch (writeFile io raw e) = ex_batch e" "ex_posts (writeFile io raw e) = ex_posts e" "ex_overflow (writeFile io raw e) = ex_overflow e"
  by (simp_all add: writeFile_def rotate_file_def closeFile_def openFile_def Let_def split: option.split)

lemma flush_inv: "export_inv e offered taken \<Longrightarrow> export_inv (flushWebhook ok e) offered taken"
  by (auto simp: export_inv_def flushWebhook_def posted_def refused_def post_ok_def exportWebhookMaxBatch_def)

lemma consume_inv:
  assumes "export_inv e offered taken" "ex_ch e = raw # ch"
  shows "export_inv (consume io raw (e\<lparr>ex_ch := ch\<rparr>)) offered (taken @ [raw])"
proof -
  let ?e = "(writeFile io raw (e\<lparr>ex_ch := ch\<rparr>))\<lparr>ex_batch := ex_batch e @ [raw]\<rparr>"
  have r: "posted ?e = posted e" "refused ?e = refused e" by (simp_all add: posted_def refused_def write_frame)
  show ?thesis
  proof (cases "length (ex_batch ?e) \<ge> exportWebhookMaxBatch")
    case True
    then have "consume io raw (e\<lparr>ex_ch := ch\<rparr>) = flushWebhook (io_post io) ?e" using assms(1) by (simp add: consume_def Let_def write_frame export_inv_def)
    then show ?thesis using assms True r
      by (auto simp: export_inv_def flushWebhook_def write_frame posted_def refused_def post_ok_def exportWebhookMaxBatch_def)
  next
    case False
    then have "consume io raw (e\<lparr>ex_ch := ch\<rparr>) = ?e" using assms(1) by (simp add: consume_def Let_def write_frame export_inv_def)
    then show ?thesis using assms False r by (auto simp: export_inv_def write_frame)
  qed
qed

fun offered :: "export_event list \<Rightarrow> bytes list" where
  "offered [] = []"
| "offered (Offered raw # evs) = (case raw of None \<Rightarrow> [] | Some r \<Rightarrow> [r]) @ offered evs"
| "offered (_ # evs) = offered evs"

lemma step_inv:
  assumes "export_inv e offs taken"
  shows "\<exists>taken'. export_inv (export_step ev e) (offs @ offered [ev]) taken'"
proof (cases ev)
  case (Offered raw)
  then show ?thesis using assms by (auto simp: export_step_def export_def export_inv_def posted_def refused_def intro!: exI [of _ taken] split: option.splits)
next
  case (Drained io)
  show ?thesis
  proof (cases "ex_ch e")
    case Nil
    then show ?thesis using assms Drained by (auto simp: export_step_def)
  next
    case (Cons raw ch)
    then show ?thesis using consume_inv [OF assms Cons] Drained by (auto simp: export_step_def)
  qed
next
  case (Tick ok)
  then show ?thesis using flush_inv [OF assms] by (auto simp: export_step_def)
qed

lemma offered_append: "offered (xs @ ys) = offered xs @ offered ys"
  by (induction xs rule: offered.induct) auto

lemma run_inv:
  assumes "export_inv e [] []"
  shows "\<exists>taken. export_inv (export_run evs e) (offered evs) taken"
proof (induction evs rule: rev_induct)
  case (snoc ev evs)
  then show ?case using step_inv [of "export_run evs e" "offered evs" _ ev] by (auto simp: export_run_def offered_append)
qed (use assms in \<open>auto simp: export_run_def\<close>)

text \<open>With a webhook, every entry offered to the export is still buffered, in the pending batch, in exactly one posted body, or lost to a full buffer; the
  bodies are JSON arrays of at most 500 entries, and the drop counter is exact: the entries lost to the buffer and those of refused bodies.\<close>

theorem export_accounted:
  assumes "newExporter opts fs = Some e0" "xo_Webhook opts \<noteq> []"
  shows "let e = export_run evs (run_start ok e0) in
    mset (offered evs) = mset (posted e) + mset (ex_batch e) + mset (ex_ch e) + mset (ex_overflow e)
    \<and> list_all post_ok (ex_posts e) \<and> ex_dropped e = length (ex_overflow e) + length (refused e) \<and> length (ex_ch e) \<le> exportBufferSize"
proof -
  have "export_inv (run_start ok e0) [] []"
    using assms by (auto simp: newExporter_def run_start_def openFile_def Let_def export_inv_def posted_def refused_def exportWebhookMaxBatch_def split: if_splits)
  from run_inv [OF this] obtain taken where "export_inv (export_run evs (run_start ok e0)) (offered evs) taken" by blast
  then show ?thesis by (auto simp: export_inv_def Let_def)
qed

theorem export_accounted_witness:
  "let e = export_run [Offered (Some ''a''), Drained io_fine, Offered (Some ''b''), Tick False] (the (newExporter \<lparr>xo_File = [], xo_FileMaxBytes = 0, xo_Webhook = ''u''\<rparr> (\<lambda>_. None))) in
    mset [''a'', ''b''] = mset (posted e) + mset (ex_batch e) + mset (ex_ch e) + mset (ex_overflow e) \<and> ex_dropped e = 1"
proof -
  let ?o = "\<lparr>xo_File = [], xo_FileMaxBytes = 0, xo_Webhook = ''u''\<rparr>" and ?evs = "[Offered (Some ''a''), Drained io_fine, Offered (Some ''b''), Tick False]"
  let ?e0 = "the (newExporter ?o (\<lambda>_. None))"
  have n: "newExporter ?o (\<lambda>_. None) = Some ?e0" by (simp add: newExporter_def)
  have "run_start True ?e0 = ?e0" by (simp add: newExporter_def run_start_def)
  moreover have "ex_dropped (export_run ?evs ?e0) = 1"
    by (simp add: export_run_def export_step_def export_def consume_def writeFile_def flushWebhook_def newExporter_def exportBufferSize_def exportWebhookMaxBatch_def Let_def)
  ultimately show ?thesis using export_accounted [OF n, of ?evs True] by (simp add: Let_def)
qed

subsection \<open>The files hold the newest records\<close>

text \<open>The path of the live file and of the rotated ones, and the content of a group of records.\<close>

definition file_path :: "string \<Rightarrow> nat \<Rightarrow> string" where
  "file_path path i = (if i = 0 then path else rotated path i)"

definition records :: "bytes list \<Rightarrow> bytes" where
  "records rs = concat (map (\<lambda>r. r @ newline) rs)"

lemma file_path_inj: "file_path p i = file_path p j \<longleftrightarrow> i = j"
  by (auto simp: file_path_def rotated_def dest: itoa_inj split: if_splits)

definition files_hold :: "string \<Rightarrow> (string \<Rightarrow> bytes option) \<Rightarrow> bytes list list \<Rightarrow> bool" where
  "files_hold path fs groups \<longleftrightarrow> groups \<noteq> [] \<and> length groups \<le> Suc exportFileRotations
     \<and> (\<forall>i \<le> exportFileRotations. fs (file_path path i) = (if i < length groups then Some (records (groups ! i)) else None))"

lemma rename_path: "i \<noteq> j \<Longrightarrow> rename (file_path p i) (file_path p j) fs (file_path p k)
    = (if fs (file_path p i) = None then fs (file_path p k) else if k = i then None else if k = j then fs (file_path p i) else fs (file_path p k))"
  by (auto simp: rename_def file_path_inj split: option.split)

text \<open>The shift and the move of the live file, on the contents of the numbered files.\<close>

lemma shifted:
  assumes "files_hold p fs groups"
  shows "rename p (rotated p 1) (shift_files p fs) (file_path p i) =
    (if i = 0 then None else if i \<le> 5 then fs (file_path p (i - 1)) else rename p (rotated p 1) (shift_files p fs) (file_path p i))"
proof -
  have fp: "rotated p i = file_path p i" if "0 < i" for i using that by (simp add: file_path_def)
  have gap: "fs (file_path p j) = None" if "fs (file_path p i) = None" "i \<le> j" "j \<le> 5" for i j
    using assms that by (auto simp: files_hold_def exportFileRotations_def split: if_splits)
  have live: "fs (file_path p 0) \<noteq> None" using assms by (simp add: files_hold_def)
  have up: "rev [1..<exportFileRotations] = [4, 3, 2, 1]" by (simp add: exportFileRotations_def upt_rec)
  let ?f0 = "fs(file_path p 5 := None)"
  let ?f1 = "rename (file_path p 4) (file_path p 5) ?f0" let ?f2 = "rename (file_path p 3) (file_path p 4) ?f1"
  let ?f3 = "rename (file_path p 2) (file_path p 3) ?f2" let ?f4 = "rename (file_path p 1) (file_path p 2) ?f3"
  have sh: "shift_files p fs = ?f4" unfolding shift_files_def up by (simp add: fp exportFileRotations_def numeral_eq_Suc)
  have f0: "?f0 (file_path p k) = (if k = 5 then None else fs (file_path p k))" for k by (simp add: file_path_inj)
  have f1: "?f1 (file_path p k) = (if k = 5 then fs (file_path p 4) else if k = 4 then None else fs (file_path p k))" for k
    by (simp add: rename_path file_path_inj)
  have f2: "?f2 (file_path p k) = (if k = 5 then fs (file_path p 4) else if k = 4 then fs (file_path p 3) else if k = 3 then None else fs (file_path p k))" for k
    by (simp add: rename_path f1)
  have f3: "?f3 (file_path p k) = (if k = 5 then fs (file_path p 4) else if k = 4 then fs (file_path p 3) else if k = 3 then fs (file_path p 2)
      else if k = 2 then None else fs (file_path p k))" for k by (simp add: rename_path f2)
  have f4: "?f4 (file_path p k) = (if k = 5 then fs (file_path p 4) else if k = 4 then fs (file_path p 3) else if k = 3 then fs (file_path p 2)
      else if k = 2 then fs (file_path p 1) else if k = 1 then None else fs (file_path p k))" for k by (simp add: rename_path f3)
  have p0: "file_path p 0 = p" "rotated p 1 = file_path p 1" by (simp_all add: file_path_def)
  define F where "F = ?f4"
  note f4 = f4 [folded F_def] and sh = sh [folded F_def]
  have last: "rename (file_path p 0) (file_path p 1) F (file_path p k) = (if k = 0 then None else if k = 1 then fs (file_path p 0) else F (file_path p k))" for k
    using live by (subst rename_path) (simp_all add: f4)
  have "i = 0 \<or> i = 1 \<or> i = 2 \<or> i = 3 \<or> i = 4 \<or> i = 5 \<or> 5 < i" by linarith
  then show ?thesis unfolding sh p0(2) using last [of i] f4 [of i] by (auto simp: p0(1))
qed

text \<open>The file side of the exporter against the records written so far.\<close>

text \<open>A file is rotated by the record that brings it to the bound, and not before.\<close>

definition rotated_full :: "int \<Rightarrow> bytes list \<Rightarrow> bool" where
  "rotated_full bound g \<longleftrightarrow> bound \<le> int (length (records g)) \<and> int (length (records (butlast g))) < bound"

definition file_inv :: "exporter \<Rightarrow> bytes list \<Rightarrow> bool" where
  "file_inv e written \<longleftrightarrow> ex_open e \<and> ex_filePath e \<noteq> [] \<and> 0 < ex_fileMaxBytes e \<and>
     (\<exists>groups k. files_hold (ex_filePath e) (ex_fs e) groups \<and> concat (rev groups) = drop k written
       \<and> (length groups \<le> exportFileRotations \<longrightarrow> k = 0)
       \<and> ex_fileSize e = int (length (records (hd groups))) \<and> ex_fileSize e < ex_fileMaxBytes e
       \<and> (\<forall>g \<in> set (tl groups). rotated_full (ex_fileMaxBytes e) g))"

lemma write_inv:
  assumes "file_inv e written"
  shows "file_inv (writeFile io_fine raw e) (written @ [raw])"
proof -
  let ?p = "ex_filePath e"
  obtain groups k where inv: "ex_open e" "?p \<noteq> []" "0 < ex_fileMaxBytes e" "files_hold ?p (ex_fs e) groups" "concat (rev groups) = drop k written"
      "length groups \<le> exportFileRotations \<longrightarrow> k = 0" "ex_fileSize e = int (length (records (hd groups)))" "ex_fileSize e < ex_fileMaxBytes e"
      "\<forall>g \<in> set (tl groups). rotated_full (ex_fileMaxBytes e) g"
    using assms unfolding file_inv_def by blast
  obtain g gs where g: "groups = g # gs" using inv(4) by (cases groups) (auto simp: files_hold_def)
  let ?line = "raw @ newline" let ?fs = "(ex_fs e)(?p \<mapsto> records (g @ [raw]))"
  let ?e1 = "e\<lparr>ex_fs := ?fs, ex_fileSize := ex_fileSize e + int (length ?line)\<rparr>"
  have p0: "file_path ?p 0 = ?p" by (simp add: file_path_def)
  have live: "ex_fs e ?p = Some (records g)" using inv(4) g p0 by (auto simp: files_hold_def)
  have hold1: "files_hold ?p ?fs ((g @ [raw]) # gs)"
  proof -
    have "?fs (file_path ?p i) = (if i < length ((g @ [raw]) # gs) then Some (records (((g @ [raw]) # gs) ! i)) else None)" if "i \<le> exportFileRotations" for i
      using inv(4) g that file_path_inj [of ?p i 0] p0 by (cases i) (auto simp: files_hold_def)
    then show ?thesis using inv(4) g by (simp add: files_hold_def)
  qed
  have kle: "concat (rev ((g @ [raw]) # gs)) = drop (min k (length written)) (written @ [raw])"
    using inv(5) g by (cases "k \<le> length written") (simp_all add: min_def)
  have w: "writeFile io_fine raw e = (if ex_fileSize ?e1 \<ge> ex_fileMaxBytes e then rotate_file io_fine ?e1 else ?e1)"
    using inv(1) live by (simp add: writeFile_def io_fine_def records_def Let_def)
  have size1: "ex_fileSize ?e1 = int (length (records (g @ [raw])))" using inv(7) g by (simp add: records_def)
  show ?thesis
  proof (cases "ex_fileSize ?e1 \<ge> ex_fileMaxBytes e")
    case False
    then show ?thesis unfolding w file_inv_def using inv(1-3,6,9) hold1 kle size1 g
      by (intro conjI exI [of _ "(g @ [raw]) # gs"] exI [of _ "min k (length written)"]) auto
  next
    case True
    let ?moved = "rename ?p (rotated ?p 1) (shift_files ?p ?fs)"
    let ?groups = "[] # take exportFileRotations ((g @ [raw]) # gs)"
    have none: "?moved ?p = None" using shifted [OF hold1, of 0] p0 by simp
    have rot: "rotate_file io_fine ?e1 = ?e1\<lparr>ex_fs := ?moved(?p \<mapsto> []), ex_open := True, ex_fileSize := 0\<rparr>"
      using none by (simp add: rotate_file_def closeFile_def openFile_def io_fine_def Let_def)
    have hold2: "files_hold ?p (?moved(?p \<mapsto> [])) ?groups"
    proof -
      have "(?moved(?p \<mapsto> [])) (file_path ?p i) = (if i < length ?groups then Some (records (?groups ! i)) else None)" if "i \<le> exportFileRotations" for i
      proof (cases i)
        case (Suc j)
        then have "(?moved(?p \<mapsto> [])) (file_path ?p i) = ?fs (file_path ?p j)"
          using shifted [OF hold1, of i] that file_path_inj [of ?p i 0] p0 by (simp add: exportFileRotations_def)
        then show ?thesis using hold1 that Suc by (auto simp: files_hold_def)
      qed (simp add: p0 records_def)
      then show ?thesis by (simp add: files_hold_def)
    qed
    obtain k2 where k2: "concat (rev ?groups) = drop k2 (written @ [raw])" "length ?groups \<le> exportFileRotations \<longrightarrow> k2 = 0"
    proof -
      let ?G = "(g @ [raw]) # gs"
      have "concat (rev ?G) = concat (rev (drop exportFileRotations ?G)) @ concat (rev (take exportFileRotations ?G))"
        by (metis append_take_drop_id concat_append rev_append)
      then have c: "drop (min k (length written)) (written @ [raw]) = concat (rev (drop exportFileRotations ?G)) @ concat (rev ?groups)" using kle by simp
      have "concat (rev ?groups) = drop (length (concat (rev (drop exportFileRotations ?G)))) (drop (min k (length written)) (written @ [raw]))"
        unfolding c by simp
      then have "concat (rev ?groups) = drop (length (concat (rev (drop exportFileRotations ?G))) + min k (length written)) (written @ [raw])"
        by (simp only: drop_drop)
      moreover have "length ?groups \<le> exportFileRotations \<Longrightarrow> min k (length written) = 0 \<and> drop exportFileRotations ?G = []"
        using inv(6) g by auto
      ultimately show ?thesis using that by auto
    qed
    have "rotated_full (ex_fileMaxBytes e) x" if "x \<in> set (take exportFileRotations ((g @ [raw]) # gs))" for x
    proof -
      have "x = g @ [raw] \<or> x \<in> set gs" using in_set_takeD [OF that] by simp
      then show ?thesis using inv(7,8,9) g True size1 by (auto simp: rotated_full_def)
    qed
    then have full: "\<forall>x \<in> set (tl ?groups). rotated_full (ex_fileMaxBytes e) x" by simp
    show ?thesis unfolding w file_inv_def rot using True inv(2,3) hold2 k2 full
      by (simp add: rot) (intro exI [of _ ?groups] conjI exI [of _ k2]; simp add: records_def)
  qed
qed

text \<open>What the files hold after a write that failed: the live file with the part of the record that was written, the others as they were, for good.\<close>

lemma write_failed:
  fixes later raw
  assumes "ex_open e" "io_written io = Some n"
  defines "e' \<equiv> fold (\<lambda>(io, r). writeFile io r) later (writeFile io raw e)"
  shows "ex_fs e' = (ex_fs e)(ex_filePath e \<mapsto> (case ex_fs e (ex_filePath e) of None \<Rightarrow> [] | Some c \<Rightarrow> c) @ take n (raw @ newline))"
proof -
  have "fold (\<lambda>(io, r). writeFile io r) later e1 = e1" if "\<not> ex_open e1" for e1
    using that by (induction later) (auto simp: writeFile_def)
  moreover have "\<not> ex_open (writeFile io raw e)" using assms(1,2) by (simp add: writeFile_def closeFile_def Let_def)
  ultimately show ?thesis using assms(1,2) by (simp add: e'_def writeFile_def closeFile_def Let_def)
qed

text \<open>C15: From an empty directory and while the system takes every write, rename and reopen, the live file and the rotated ones hold, oldest to newest, exactly the newest of the exported
  records, each whole and in one file; nothing is missing until the oldest file is dropped, the live file stays below the bound, and each
  rotated file was ended by the record that brought it to the bound.  After the first write that fails, the live file ends with the part of that
  record that was written, the rotated files stay as they were, and nothing more is written.\<close>

theorem export_files_hold_newest:
  fixes raws opts e0
  defines "bound \<equiv> if xo_FileMaxBytes opts \<le> 0 then 104857600 else xo_FileMaxBytes opts" and "e \<equiv> fold (writeFile io_fine) raws (run_start True e0)"
  assumes "newExporter opts (\<lambda>_. None) = Some e0" "xo_File opts \<noteq> []"
  shows "\<exists>groups k. files_hold (xo_File opts) (ex_fs e) groups \<and> concat (rev groups) = drop k raws
    \<and> (length groups \<le> exportFileRotations \<longrightarrow> k = 0)
    \<and> int (length (records (hd groups))) < bound
    \<and> (\<forall>g \<in> set (tl groups). bound \<le> int (length (records g)) \<and> int (length (records (butlast g))) < bound)
    \<and> (\<forall>io n raw later. io_written io = Some n \<longrightarrow>
        ex_fs (fold (\<lambda>(io, r). writeFile io r) later (writeFile io raw e)) = (ex_fs e)(xo_File opts \<mapsto> records (hd groups) @ take n (raw @ newline)))"
proof -
  have p0: "file_path p i = p \<longleftrightarrow> i = 0" for p i using file_path_inj [of p i 0] by (simp add: file_path_def)
  have "file_inv (run_start True e0) []"
    using assms(3,4) p0 by (auto simp: newExporter_def run_start_def openFile_def Let_def file_inv_def files_hold_def records_def defaultExportFileMaxBytes_def
      intro!: exI [of _ "[[]]"])
  then have "file_inv (fold (writeFile io_fine) raws (run_start True e0)) ([] @ raws)"
  proof (induction raws rule: rev_induct)
    case (snoc r raws)
    then show ?case using write_inv [of "fold (writeFile io_fine) raws (run_start True e0)" "[] @ raws" r] by simp
  qed simp
  moreover have "ex_filePath (fold (writeFile io_fine) raws e) = ex_filePath e \<and> ex_fileMaxBytes (fold (writeFile io_fine) raws e) = ex_fileMaxBytes e" for e
    by (induction raws arbitrary: e) (simp_all add: writeFile_def rotate_file_def closeFile_def openFile_def Let_def split: option.split)
  moreover have "ex_filePath (run_start True e0) = xo_File opts" "ex_fileMaxBytes (run_start True e0) = bound"
    using assms(3,4) by (auto simp: bound_def newExporter_def run_start_def openFile_def Let_def defaultExportFileMaxBytes_def split: if_splits)
  ultimately have fin: "file_inv e raws" "ex_filePath e = xo_File opts" "ex_fileMaxBytes e = bound" by (simp_all add: e_def)
  obtain groups k where g: "files_hold (xo_File opts) (ex_fs e) groups" "concat (rev groups) = drop k raws" "length groups \<le> exportFileRotations \<longrightarrow> k = 0"
      "ex_fileSize e = int (length (records (hd groups)))" "ex_fileSize e < bound" "\<forall>g \<in> set (tl groups). rotated_full bound g" "ex_open e"
    using fin(1) unfolding file_inv_def fin(2,3) by blast
  have "ex_fs e (xo_File opts) = Some (records (hd groups))"
    using g(1) p0 [of "xo_File opts" 0] by (cases groups) (auto simp: files_hold_def dest: spec [of _ "0::nat"])
  then have failed: "ex_fs (fold (\<lambda>(io, r). writeFile io r) later (writeFile io raw e)) = (ex_fs e)(xo_File opts \<mapsto> records (hd groups) @ take n (raw @ newline))"
    if "io_written io = Some n" for io n raw later
    using write_failed [OF g(7) that, of later raw] fin(2) by simp
  show ?thesis using g failed by (intro exI [of _ groups] exI [of _ k]) (simp add: rotated_full_def)
qed

theorem export_files_hold_newest_witness:
  "\<exists>groups k. files_hold ''/x'' (ex_fs (fold (writeFile io_fine) [''a'', ''b'', ''c''] (run_start True (the (newExporter \<lparr>xo_File = ''/x'', xo_FileMaxBytes = 4, xo_Webhook = []\<rparr> (\<lambda>_. None)))))) groups
    \<and> concat (rev groups) = drop k [''a'', ''b'', ''c''] \<and> (\<forall>g \<in> set (tl groups). 4 \<le> int (length (records g)))"
proof -
  let ?o = "\<lparr>xo_File = ''/x'', xo_FileMaxBytes = 4, xo_Webhook = []\<rparr>" let ?e = "the (newExporter ?o (\<lambda>_. None))"
  have "newExporter ?o (\<lambda>_. None) = Some ?e" "xo_File ?o \<noteq> []" by (simp_all add: newExporter_def)
  from export_files_hold_newest [OF this, of "[''a'', ''b'', ''c'']"] show ?thesis by (simp del: fold_simps) blast
qed

text \<open>An entry that the file did not take is not counted: after a failed write with no webhook, every further entry is discarded and the drop counter stays.\<close>

lemma file_loss_not_counted:
  assumes "ex_webhookURL e = []" "ex_open e" "io_written io = Some n"
  shows "let e1 = consume io raw e in
    ex_dropped e1 = ex_dropped e \<and> (\<forall>ios raws. fold (\<lambda>(i, r). consume (ios i) r) (List.enumerate 0 raws) e1 = e1)"
proof -
  have shut: "fold (\<lambda>(i, r). consume (ios i) r) (List.enumerate k raws) e' = e'" if "\<not> ex_open e'" "ex_webhookURL e' = []" for ios k raws e'
    using that by (induction raws arbitrary: k) (simp_all add: consume_def writeFile_def)
  have "ex_dropped (consume io raw e) = ex_dropped e" "\<not> ex_open (consume io raw e)" "ex_webhookURL (consume io raw e) = []"
    using assms by (simp_all add: consume_def writeFile_def closeFile_def Let_def)
  then show ?thesis using shut by (simp add: Let_def)
qed

end
