(* ===== verification/Worker_Reader.thy ===== *)
theory Worker_Reader
  imports Worker_Caps
begin

text \<open>
  What the dissectors rely on of the functions that read one message off a connection, as an
  interface: a successful read consumes a non-empty prefix of the stream, and what it read does
  not depend on bytes that arrive later.  The reading loop is defined over any such function and
  its laws are proved once; every wire format of the development interprets the interface on
  its own reader.
\<close>

text \<open>The messages read off a stream until the reader fails or the stream ends, and what is left
  unread then; a reader that consumed nothing would end the loop.\<close>

definition read_one :: "(bytes \<Rightarrow> 'e + 'v \<times> bytes) \<Rightarrow> bytes \<Rightarrow> ('v \<times> bytes) option" where
  "read_one rd s = (case rd s of Inl _ \<Rightarrow> None
     | Inr (v, r) \<Rightarrow> if length r < length s then Some (v, r) else None)"

lemma read_one_less: "read_one rd s = Some (v, r) \<Longrightarrow> length r < length s"
  by (auto simp: read_one_def split: sum.splits if_splits)

function read_all :: "(bytes \<Rightarrow> 'e + 'v \<times> bytes) \<Rightarrow> bytes \<Rightarrow> 'v list \<times> bytes" where
  "read_all rd s = (case read_one rd s of None \<Rightarrow> ([], s)
     | Some (v, r) \<Rightarrow> (case read_all rd r of (vs, z) \<Rightarrow> (v # vs, z)))"
  by pat_completeness auto
termination
  by (relation "measure (\<lambda>(rd, s). length s)") (auto dest: read_one_less)

declare read_all.simps [simp del]

lemma read_all_fail: "rd s = Inl e \<Longrightarrow> read_all rd s = ([], s)"
  by (simp add: read_all.simps read_one_def)

locale framed_reader =
  fixes rd :: "bytes \<Rightarrow> 'e + 'v \<times> bytes"
  assumes consumes: "rd s = Inr (v, r) \<Longrightarrow> \<exists>p. p \<noteq> [] \<and> s = p @ r"
    and stable: "rd s = Inr (v, r) \<Longrightarrow> rd (s @ x) = Inr (v, r @ x)"
begin

lemma shorter: "rd s = Inr (v, r) \<Longrightarrow> length r < length s"
  using consumes by fastforce

lemma read_all_more:
  "rd s = Inr (v, r) \<Longrightarrow> read_all rd s = (v # fst (read_all rd r), snd (read_all rd r))"
  using shorter [of s v r] by (subst read_all.simps) (simp add: read_one_def case_prod_unfold)

lemma stream_induct [case_names fail more]:
  assumes "\<And>s e. rd s = Inl e \<Longrightarrow> P s" and "\<And>s v r. rd s = Inr (v, r) \<Longrightarrow> P r \<Longrightarrow> P s"
  shows "P s"
proof (induction "length s" arbitrary: s rule: less_induct)
  case less
  show ?case
  proof (cases "rd s")
    case (Inr q)
    then show ?thesis using assms(2) less shorter by (cases q) blast
  qed (rule assms(1))
qed

text \<open>Reading is independent of how the stream is cut into segments: the messages of a longer
  stream are those of its beginning, then those of what was left over followed by the rest.\<close>

lemma read_all_append:
  "read_all rd (s @ x) = (fst (read_all rd s) @ fst (read_all rd (snd (read_all rd s) @ x)),
     snd (read_all rd (snd (read_all rd s) @ x)))"
proof (induction s rule: stream_induct)
  case (fail s e)
  then show ?case by (simp add: read_all_fail)
next
  case (more s v r)
  then show ?case by (simp add: read_all_more [OF more(1)] read_all_more [OF stable [OF more(1)]])
qed

lemma read_all_suffix: "suffix (snd (read_all rd s)) s"
proof (induction s rule: stream_induct)
  case (more s v r)
  have "suffix r s" using consumes [OF more(1)] by (auto simp: suffix_def)
  with more(2) show ?case unfolding read_all_more [OF more(1)] snd_conv by (rule suffix_order.trans)
qed (simp add: read_all_fail)

lemma read_all_stops: "\<exists>e. rd (snd (read_all rd s)) = Inl e"
proof (induction s rule: stream_induct)
  case (more s v r)
  then show ?case by (simp add: read_all_more [OF more(1)])
qed (auto simp: read_all_fail)

end

subsection \<open>Composing readers\<close>

text \<open>
  A reader \<^emph>\<open>frames\<close> a stream when a message it returns is read off a prefix of that stream, non-empty
  when \<open>must\<close> is set, and is the same when the stream goes on.  The rules follow the shape of the code:
  sequencing with an early return on error, branching, and the primitives.
\<close>

definition frames :: "bool \<Rightarrow> (bytes \<Rightarrow> 'e + 'v \<times> bytes) \<Rightarrow> bytes \<Rightarrow> bool" where
  "frames must rd s \<longleftrightarrow> (\<forall>v r. rd s = Inr (v, r) \<longrightarrow>
     (\<exists>p. (must \<longrightarrow> p \<noteq> []) \<and> s = p @ r) \<and> (\<forall>x. rd (s @ x) = Inr (v, r @ x)))"

named_theorems frames_intros \<open>which readers frame a stream\<close>

lemma framesD:
  "frames must rd s \<Longrightarrow> rd s = Inr (v, r) \<Longrightarrow> \<exists>p. (must \<longrightarrow> p \<noteq> []) \<and> s = p @ r"
  "frames must rd s \<Longrightarrow> rd s = Inr (v, r) \<Longrightarrow> rd (s @ x) = Inr (v, r @ x)"
  by (auto simp: frames_def)

lemma frames_weaken: "frames True rd s \<Longrightarrow> frames must rd s"
  by (fastforce simp: frames_def)

lemma frames_fail [frames_intros]: "frames must (\<lambda>s. Inl e) s"
  by (simp add: frames_def)

lemma frames_return [frames_intros]: "frames False (\<lambda>s. Inr (v, s)) s"
  by (simp add: frames_def)

lemma frames_bind:
  assumes f: "frames m1 f s" and g: "\<And>v r. f s = Inr (v, r) \<Longrightarrow> frames m2 (g v) r"
  shows "frames (m1 \<or> m2) (\<lambda>s. case f s of Inl e \<Rightarrow> Inl e | Inr (v, r) \<Rightarrow> g v r) s"
  unfolding frames_def
proof (intro allI impI)
  fix v r assume a: "(case f s of Inl e \<Rightarrow> Inl e | Inr (v, r) \<Rightarrow> g v r) = Inr (v, r)"
  then obtain u t where fu: "f s = Inr (u, t)" and gu: "g u t = Inr (v, r)"
    by (auto split: sum.splits prod.splits)
  obtain p where p: "m1 \<longrightarrow> p \<noteq> []" "s = p @ t" using framesD(1) [OF f fu] by blast
  obtain q where q: "m2 \<longrightarrow> q \<noteq> []" "t = q @ r" using framesD(1) [OF g [OF fu] gu] by blast
  have "(m1 \<or> m2 \<longrightarrow> p @ q \<noteq> []) \<and> s = (p @ q) @ r" using p q by auto
  moreover have "(case f (s @ x) of Inl e \<Rightarrow> Inl e | Inr (v, r) \<Rightarrow> g v r) = Inr (v, r @ x)" for x
    using framesD(2) [OF f fu, of x] framesD(2) [OF g [OF fu] gu, of x] by simp
  ultimately show "(\<exists>p. (m1 \<or> m2 \<longrightarrow> p \<noteq> []) \<and> s = p @ r)
      \<and> (\<forall>x. (case f (s @ x) of Inl e \<Rightarrow> Inl e | Inr (v, r) \<Rightarrow> g v r) = Inr (v, r @ x))" by blast
qed

lemma frames_then [frames_intros]:
  "frames True f s \<Longrightarrow> (\<And>v r. f s = Inr (v, r) \<Longrightarrow> frames False (g v) r)
     \<Longrightarrow> frames must (\<lambda>s. case f s of Inl e \<Rightarrow> Inl e | Inr (v, r) \<Rightarrow> g v r) s"
  using frames_bind [of True f s False g] by (simp add: frames_weaken)

lemma frames_seq:
  "frames False f s \<Longrightarrow> (\<And>v r. f s = Inr (v, r) \<Longrightarrow> frames False (g v) r)
     \<Longrightarrow> frames False (\<lambda>s. case f s of Inl e \<Rightarrow> Inl e | Inr (v, r) \<Rightarrow> g v r) s"
  using frames_bind [of False f s False g] by simp

text \<open>The length test that makes a recursive reader terminate is always passed.\<close>

lemma frames_then_guarded [frames_intros]:
  assumes f: "frames True f s" and g: "\<And>v r. f s = Inr (v, r) \<Longrightarrow> length r < length s \<Longrightarrow> frames False (g v) r"
  shows "frames must (\<lambda>s. case f s of Inl e \<Rightarrow> Inl e
     | Inr (v, r) \<Rightarrow> if length r < length s then g v r else Inl e') s"
proof (cases "f s")
  case (Inr q)
  obtain v r where q: "q = (v, r)" by (cases q)
  obtain p where p: "p \<noteq> []" "s = p @ r" using framesD(1) [OF f Inr [unfolded q]] by blast
  have "frames True (\<lambda>s. case f s of Inl e \<Rightarrow> Inl e | Inr (v, r) \<Rightarrow> g v r) s"
    using f by (rule frames_then) (use g Inr q p in auto)
  then have "frames True (\<lambda>s. case f s of Inl e \<Rightarrow> Inl e
      | Inr (v, r) \<Rightarrow> if length r < length s then g v r else Inl e') s"
    using p framesD(2) [OF f Inr [unfolded q]] Inr q unfolding frames_def by auto
  then show ?thesis by (rule frames_weaken)
qed (simp add: frames_def)

lemma frames_if [frames_intros]:
  "(c \<Longrightarrow> frames must f s) \<Longrightarrow> (\<not> c \<Longrightarrow> frames must g s) \<Longrightarrow> frames must (\<lambda>s. if c then f s else g s) s"
  by (cases c) simp_all

lemma frames_case_option [frames_intros]:
  "(c = None \<Longrightarrow> frames must f s) \<Longrightarrow> (\<And>n. c = Some n \<Longrightarrow> frames must (g n) s)
     \<Longrightarrow> frames must (\<lambda>s. case c of None \<Rightarrow> f s | Some n \<Rightarrow> g n s) s"
  by (cases c) auto

lemma frames_case_sum [frames_intros]:
  "(\<And>a. c = Inl a \<Longrightarrow> frames must (f a) s) \<Longrightarrow> (\<And>b. c = Inr b \<Longrightarrow> frames must (g b) s)
     \<Longrightarrow> frames must (\<lambda>s. case c of Inl a \<Rightarrow> f a s | Inr b \<Rightarrow> g b s) s"
  by (cases c) auto

lemma frames_case_prod [frames_intros]:
  "(\<And>a b. c = (a, b) \<Longrightarrow> frames must (f a b) s) \<Longrightarrow> frames must (\<lambda>s. case c of (a, b) \<Rightarrow> f a b s) s"
  by (cases c) auto

lemma frames_Let [frames_intros]:
  "frames must (f c) s \<Longrightarrow> frames must (\<lambda>s. let n = c in f n s) s"
  by simp

subsection \<open>The primitives are stable\<close>

lemma read_byte_Some: "read_byte s = Some (c, r) \<longleftrightarrow> s = c # r"
  by (cases s) (auto simp: read_byte_def)

lemma read_full_Some: "read_full n s = Some (b, r) \<longleftrightarrow> s = b @ r \<and> length b = n"
  by (auto simp: read_full_def)

lemma discard_n_Some: "discard_n n s = Some r \<longleftrightarrow> (\<exists>b. s = b @ r \<and> length b = n)"
  by (auto simp: discard_n_def intro: exI [of _ "take n s"])

lemma read_line_Some:
  "read_line s = Some (l, r) \<longleftrightarrow> s = l @ r \<and> l \<noteq> [] \<and> last l = char_of (10::nat)
     \<and> (\<forall>c \<in> set (butlast l). c \<noteq> char_of (10::nat))"
proof
  assume "read_line s = Some (l, r)"
  then obtain nl where d: "dropWhile (\<lambda>c. c \<noteq> char_of (10::nat)) s = nl # r"
    and l: "l = takeWhile (\<lambda>c. c \<noteq> char_of (10::nat)) s @ [nl]"
    by (auto simp: read_line_def split: list.splits)
  have "nl = char_of (10::nat)" using hd_dropWhile [of "\<lambda>c. c \<noteq> char_of (10::nat)" s] d by simp
  moreover have "s = l @ r" using takeWhile_dropWhile_id [of "\<lambda>c. c \<noteq> char_of (10::nat)" s] d l by simp
  ultimately show "s = l @ r \<and> l \<noteq> [] \<and> last l = char_of (10::nat) \<and> (\<forall>c \<in> set (butlast l). c \<noteq> char_of (10::nat))"
    using l by (auto dest: set_takeWhileD)
next
  assume a: "s = l @ r \<and> l \<noteq> [] \<and> last l = char_of (10::nat) \<and> (\<forall>c \<in> set (butlast l). c \<noteq> char_of (10::nat))"
  then obtain b where l: "l = b @ [char_of (10::nat)]" by (metis append_butlast_last_id)
  have "\<forall>c \<in> set b. c \<noteq> char_of (10::nat)" using a by (simp add: l)
  then show "read_line s = Some (l, r)"
    using a by (simp add: read_line_def l dropWhile_append2 takeWhile_append2)
qed

lemma line_ends [simp]: "char_of (10::nat) = CHR 0x0A" "char_of (13::nat) = CHR 0x0D"
  by code_simp+

lemma primitives_stable [reader_simps]:
  "read_byte s = Some (c, r) \<Longrightarrow> read_byte (s @ x) = Some (c, r @ x)"
  "read_full n s = Some (b, r) \<Longrightarrow> read_full n (s @ x) = Some (b, r @ x)"
  "discard_n n s = Some r \<Longrightarrow> discard_n n (s @ x) = Some (r @ x)"
  "read_line s = Some (l, r) \<Longrightarrow> read_line (s @ x) = Some (l, r @ x)"
  unfolding read_byte_Some read_full_Some discard_n_Some read_line_Some by auto

lemma primitives_shorter:
  "read_byte s = Some (c, r) \<Longrightarrow> length r < length s"
  "read_full n s = Some (b, r) \<Longrightarrow> length r \<le> length s"
  "discard_n n s = Some r \<Longrightarrow> length r \<le> length s"
  "read_line s = Some (l, r) \<Longrightarrow> length r < length s"
  unfolding read_byte_Some read_full_Some discard_n_Some read_line_Some by auto

lemma primitives_suffix:
  "read_byte s = Some (c, r) \<Longrightarrow> suffix r s" "read_full n s = Some (b, r) \<Longrightarrow> suffix r s"
  "discard_n n s = Some r \<Longrightarrow> suffix r s" "read_line s = Some (l, r) \<Longrightarrow> suffix r s"
  unfolding read_byte_Some read_full_Some discard_n_Some read_line_Some by (auto simp: suffix_def)

subsection \<open>Framing of the primitives\<close>

lemma frames_option:
  assumes st: "\<And>v r x. f s = Some (v, r) \<Longrightarrow> f (s @ x) = Some (v, r @ x)"
    and pre: "\<And>v r. f s = Some (v, r) \<Longrightarrow> \<exists>p. (m1 \<longrightarrow> p \<noteq> []) \<and> s = p @ r"
    and g: "\<And>v r. f s = Some (v, r) \<Longrightarrow> frames False (g v) r"
  shows "frames m1 (\<lambda>s. case f s of None \<Rightarrow> Inl e | Some (v, r) \<Rightarrow> g v r) s"
proof -
  let ?f = "\<lambda>s. case f s of None \<Rightarrow> Inl e | Some q \<Rightarrow> Inr q"
  have "frames m1 ?f s" using st pre by (auto simp: frames_def split: option.splits)
  then have "frames (m1 \<or> False) (\<lambda>s. case ?f s of Inl e \<Rightarrow> Inl e | Inr (v, r) \<Rightarrow> g v r) s"
    using g by (rule frames_bind) (simp split: option.splits)
  moreover have "(\<lambda>s. case ?f s of Inl e \<Rightarrow> Inl e | Inr (v, r) \<Rightarrow> g v r)
      = (\<lambda>s. case f s of None \<Rightarrow> Inl e | Some (v, r) \<Rightarrow> g v r)"
    by (auto split: option.splits)
  ultimately show ?thesis by simp
qed

lemma frames_primitives [frames_intros]:
  "(\<And>c r. s = c # r \<Longrightarrow> frames False (g c) r)
     \<Longrightarrow> frames must (\<lambda>s. case read_byte s of None \<Rightarrow> Inl e | Some (c, r) \<Rightarrow> g c r) s"
  "(\<And>l r. read_line s = Some (l, r) \<Longrightarrow> frames False (g' l) r)
     \<Longrightarrow> frames must (\<lambda>s. case read_line s of None \<Rightarrow> Inl e | Some (l, r) \<Rightarrow> g' l r) s"
  "must \<longrightarrow> n \<noteq> 0 \<Longrightarrow> (\<And>b r. s = b @ r \<Longrightarrow> length b = n \<Longrightarrow> frames False (h b) r)
     \<Longrightarrow> frames must (\<lambda>s. case read_full n s of None \<Rightarrow> Inl e | Some (b, r) \<Rightarrow> h b r) s"
proof -
  show "(\<And>c r. s = c # r \<Longrightarrow> frames False (g c) r)
     \<Longrightarrow> frames must (\<lambda>s. case read_byte s of None \<Rightarrow> Inl e | Some (c, r) \<Rightarrow> g c r) s"
    by (rule frames_option) (auto simp: read_byte_Some)
  show "(\<And>l r. read_line s = Some (l, r) \<Longrightarrow> frames False (g' l) r)
     \<Longrightarrow> frames must (\<lambda>s. case read_line s of None \<Rightarrow> Inl e | Some (l, r) \<Rightarrow> g' l r) s"
    by (rule frames_option) (auto simp: read_line_Some)
  show "must \<longrightarrow> n \<noteq> 0 \<Longrightarrow> (\<And>b r. s = b @ r \<Longrightarrow> length b = n \<Longrightarrow> frames False (h b) r)
     \<Longrightarrow> frames must (\<lambda>s. case read_full n s of None \<Rightarrow> Inl e | Some (b, r) \<Rightarrow> h b r) s"
    by (rule frames_option) (auto simp: read_full_Some)
qed

lemma frames_discard [frames_intros]:
  assumes "\<And>r. suffix r s \<Longrightarrow> frames False h r"
  shows "frames False (\<lambda>s. case discard_n n s of None \<Rightarrow> Inl e | Some r \<Rightarrow> h r) s"
proof -
  let ?f = "\<lambda>s. case discard_n n s of None \<Rightarrow> None | Some r \<Rightarrow> Some ((), r)"
  have "frames False (\<lambda>s. case ?f s of None \<Rightarrow> Inl e | Some (u, r) \<Rightarrow> h r) s"
    by (rule frames_option)
      (auto simp: discard_n_def suffix_drop intro: assms exI [of _ "take n s"] split: if_splits)
  moreover have "(\<lambda>s. case ?f s of None \<Rightarrow> Inl e | Some (u, r) \<Rightarrow> h r)
      = (\<lambda>s. case discard_n n s of None \<Rightarrow> Inl e | Some r \<Rightarrow> h r)"
    by (auto split: option.splits)
  ultimately show ?thesis by simp
qed

lemma frames_case_list [frames_intros]:
  "(\<And>c r. s = c # r \<Longrightarrow> frames False (g c) r)
     \<Longrightarrow> frames must (\<lambda>s. case s of [] \<Rightarrow> Inl e | c # r \<Rightarrow> g c r) s"
  using frames_primitives(1) [of s g must e] by (simp add: frames_def read_byte_def split: list.splits)

lemma frames_unfold: "(\<And>s. rd s = rd' s) \<Longrightarrow> frames must rd' s \<Longrightarrow> frames must rd s"
  by (simp add: frames_def)

text \<open>An error that no step of a reader returns is not returned by the reader.\<close>

named_theorems never_intros \<open>which errors a reader never returns\<close>

lemma never_intros_shapes [never_intros]:
  "f \<noteq> Inl x \<Longrightarrow> (\<And>v r. f = Inr (v, r) \<Longrightarrow> g v r \<noteq> Inl x)
     \<Longrightarrow> (case f of Inl e \<Rightarrow> Inl e | Inr (v, r) \<Rightarrow> g v r) \<noteq> Inl x"
  "(c \<Longrightarrow> a \<noteq> Inl x) \<Longrightarrow> (\<not> c \<Longrightarrow> b \<noteq> Inl x) \<Longrightarrow> (if c then a else b) \<noteq> Inl x"
  "(ob = None \<Longrightarrow> a \<noteq> Inl x) \<Longrightarrow> (\<And>v. ob = Some v \<Longrightarrow> h v \<noteq> Inl x)
     \<Longrightarrow> (case ob of None \<Rightarrow> a | Some v \<Rightarrow> h v) \<noteq> Inl x"
  "(l = [] \<Longrightarrow> a \<noteq> Inl x) \<Longrightarrow> (\<And>y ys. l = y # ys \<Longrightarrow> k y ys \<noteq> Inl x)
     \<Longrightarrow> (case l of [] \<Rightarrow> a | y # ys \<Rightarrow> k y ys) \<noteq> Inl x"
  "e \<noteq> x \<Longrightarrow> Inl e \<noteq> Inl x" "Inr v \<noteq> Inl x"
  by (auto split: sum.splits option.splits list.splits)

text \<open>A property of every message a reader returns.\<close>

definition yields :: "('v \<Rightarrow> bool) \<Rightarrow> 'e + 'v \<times> bytes \<Rightarrow> bool" where
  "yields Q x \<longleftrightarrow> (\<forall>v r. x = Inr (v, r) \<longrightarrow> Q v)"

named_theorems yields_intros \<open>what the messages of a reader satisfy\<close>

lemma yieldsD: "yields Q x \<Longrightarrow> x = Inr (v, r) \<Longrightarrow> Q v"
  by (simp add: yields_def)

lemma yields_shapes [yields_intros]:
  "(\<And>v r. f = Inr (v, r) \<Longrightarrow> yields Q (g v r)) \<Longrightarrow> yields Q (case f of Inl e \<Rightarrow> Inl e | Inr (v, r) \<Rightarrow> g v r)"
  "(c \<Longrightarrow> yields Q a) \<Longrightarrow> (\<not> c \<Longrightarrow> yields Q b) \<Longrightarrow> yields Q (if c then a else b)"
  "(ob = None \<Longrightarrow> yields Q a) \<Longrightarrow> (\<And>v. ob = Some v \<Longrightarrow> yields Q (h v)) \<Longrightarrow> yields Q (case ob of None \<Rightarrow> a | Some v \<Rightarrow> h v)"
  "(l = [] \<Longrightarrow> yields Q a) \<Longrightarrow> (\<And>y ys. l = y # ys \<Longrightarrow> yields Q (k y ys)) \<Longrightarrow> yields Q (case l of [] \<Rightarrow> a | y # ys \<Rightarrow> k y ys)"
  "(\<And>y z. q = (y, z) \<Longrightarrow> yields Q (m y z)) \<Longrightarrow> yields Q (case q of (y, z) \<Rightarrow> m y z)"
  "yields Q (Inl e)" "Q v \<Longrightarrow> yields Q (Inr (v, r))"
  by (auto simp: yields_def split: sum.splits option.splits list.splits prod.splits)

text \<open>A function that frames every stream is a framed reader.\<close>

lemma framed_readerI: "(\<And>s. frames True rd s) \<Longrightarrow> framed_reader rd"
  unfolding framed_reader_def using framesD [of True rd] by blast

end
