(* ===== verification/Worker_Conn.thy ===== *)
theory Worker_Conn
  imports Worker_Reader
begin

text \<open>
  Connection identities, \<open>internal/worker/conn.go\<close>, and the calls a dissector makes on the pipeline.
  A dissector is modelled as the function from the bytes of one direction of a connection to the
  list of calls it makes, in order; what the calls do to the shared state is in
  \<open>Worker_Pairing\<close>.

  Shown here: the two directions of a connection have one key, and different connections have
  different keys.
\<close>

record connID =
  srcIP :: string
  dstIP :: string
  srcPort :: int
  dstPort :: int

definition ip_port :: "string \<Rightarrow> int \<Rightarrow> string" where
  "ip_port ip port = ip @ '':'' @ itoa port"

definition conn_key :: "connID \<Rightarrow> string" where
  "conn_key c = (let a = ip_port (srcIP c) (srcPort c); b = ip_port (dstIP c) (dstPort c)
     in if a < b then a @ ''|'' @ b else b @ ''|'' @ a)"

definition conn_endpoints :: "connID \<Rightarrow> Endpoint \<times> Endpoint" where
  "conn_endpoints c = (zero_Endpoint\<lparr>ep_IP := srcIP c, ep_Port := srcPort c\<rparr>,
     zero_Endpoint\<lparr>ep_IP := dstIP c, ep_Port := dstPort c\<rparr>)"

definition portOf :: "string \<Rightarrow> int" where
  "portOf s = (case atoi s of None \<Rightarrow> 0 | Some n \<Rightarrow> n)"

text \<open>The strings gopacket gives for the two ends of a network flow and of a transport flow.\<close>

record flow =
  flow_Src :: string
  flow_Dst :: string

definition connKey :: "flow \<Rightarrow> flow \<Rightarrow> string" where
  "connKey netFlow transport =
     (let a = flow_Src netFlow @ '':'' @ flow_Src transport; b = flow_Dst netFlow @ '':'' @ flow_Dst transport
      in if a < b then a @ ''|'' @ b else b @ ''|'' @ a)"

definition flowEndpoints :: "flow \<Rightarrow> flow \<Rightarrow> Endpoint \<times> Endpoint" where
  "flowEndpoints netFlow transport =
     (zero_Endpoint\<lparr>ep_IP := flow_Src netFlow, ep_Port := portOf (flow_Src transport)\<rparr>,
      zero_Endpoint\<lparr>ep_IP := flow_Dst netFlow, ep_Port := portOf (flow_Dst transport)\<rparr>)"

definition connIDFromFlows :: "flow \<Rightarrow> flow \<Rightarrow> connID" where
  "connIDFromFlows netFlow transport =
     \<lparr>srcIP = flow_Src netFlow, dstIP = flow_Dst netFlow,
      srcPort = portOf (flow_Src transport), dstPort = portOf (flow_Dst transport)\<rparr>"

datatype pipe_call =
    EnqueueRequest string string Payload Endpoint Endpoint
  | CompleteResponse string Payload int string "time option"
  | EmitPush Endpoint Endpoint string string string
  | MarkL7 string

subsection \<open>Keys identify connections\<close>

definition reverse_conn :: "connID \<Rightarrow> connID" where
  "reverse_conn c = \<lparr>srcIP = dstIP c, dstIP = srcIP c, srcPort = dstPort c, dstPort = srcPort c\<rparr>"

definition well_formed_ips :: "connID \<Rightarrow> bool" where
  "well_formed_ips c \<longleftrightarrow> CHR ''|'' \<notin> set (srcIP c) \<and> CHR ''|'' \<notin> set (dstIP c)"

lemma itoa_set: "x \<in> set (itoa n) \<Longrightarrow> x = CHR ''-'' \<or> is_digit x"
  using format_nat_digits by (auto simp: itoa_def list_all_iff split: if_splits)

lemma split_at_unique:
  "c \<notin> set x \<Longrightarrow> c \<notin> set x' \<Longrightarrow> x @ c # y = x' @ c # y' \<Longrightarrow> x = x' \<and> y = y'"
proof (induction x arbitrary: x')
  case Nil
  then show ?case by (cases x') auto
next
  case (Cons a x)
  then show ?case by (cases x') auto
qed

lemma ip_port_inj: "ip_port i p = ip_port j q \<Longrightarrow> i = j \<and> p = q"
proof -
  assume "ip_port i p = ip_port j q"
  then have "rev (itoa p) @ CHR '':'' # rev i = rev (itoa q) @ CHR '':'' # rev j"
    unfolding ip_port_def by (metis append_Cons append_Nil rev_append rev.simps(2) append.assoc)
  moreover have "CHR '':'' \<notin> set (rev (itoa n))" for n
    using itoa_set [of "CHR '':''" n] by (auto simp: is_digit_def)
  ultimately have "rev (itoa p) = rev (itoa q) \<and> rev i = rev j" by (intro split_at_unique)
  then show ?thesis by (auto dest: itoa_inj)
qed

lemma ip_port_bar: "CHR ''|'' \<notin> set i \<Longrightarrow> CHR ''|'' \<notin> set (ip_port i p)"
  using itoa_set [of "CHR ''|''" p] by (auto simp: ip_port_def is_digit_def)

lemma conn_key_reverse: "conn_key (reverse_conn c) = conn_key c"
  by (auto simp: conn_key_def reverse_conn_def Let_def not_less order.order_iff_strict)

lemma conn_key_form:
  obtains x y where "conn_key c = x @ CHR ''|'' # y"
    "x = ip_port (srcIP c) (srcPort c) \<and> y = ip_port (dstIP c) (dstPort c)
     \<or> x = ip_port (dstIP c) (dstPort c) \<and> y = ip_port (srcIP c) (srcPort c)"
  by (cases "ip_port (srcIP c) (srcPort c) < ip_port (dstIP c) (dstPort c)") (auto simp: conn_key_def)

text \<open>Two stream directions reach the same pairing state exactly when they are the two
  directions of one connection or the same direction of it: the key does not depend on the direction, and no two
  different connections share one.\<close>

theorem key_identifies_connection:
  assumes "well_formed_ips c" "well_formed_ips d"
  shows "conn_key c = conn_key d \<longleftrightarrow> d = c \<or> d = reverse_conn c"
proof
  let ?a = "ip_port (srcIP c) (srcPort c)" and ?b = "ip_port (dstIP c) (dstPort c)"
  let ?a' = "ip_port (srcIP d) (srcPort d)" and ?b' = "ip_port (dstIP d) (dstPort d)"
  assume key: "conn_key c = conn_key d"
  have bars: "CHR ''|'' \<notin> set ?a" "CHR ''|'' \<notin> set ?b" "CHR ''|'' \<notin> set ?a'" "CHR ''|'' \<notin> set ?b'"
    using assms ip_port_bar by (auto simp: well_formed_ips_def)
  obtain x y where x: "conn_key c = x @ CHR ''|'' # y" and xy: "x = ?a \<and> y = ?b \<or> x = ?b \<and> y = ?a"
    by (rule conn_key_form)
  obtain x' y' where x': "conn_key d = x' @ CHR ''|'' # y'" and xy': "x' = ?a' \<and> y' = ?b' \<or> x' = ?b' \<and> y' = ?a'"
    by (rule conn_key_form)
  have "x = x' \<and> y = y'" using key x x' xy xy' bars by (intro split_at_unique) auto
  then have "(?a = ?a' \<and> ?b = ?b') \<or> (?a = ?b' \<and> ?b = ?a')" using xy xy' by auto
  then show "d = c \<or> d = reverse_conn c"
    by (cases c; cases d) (auto simp: reverse_conn_def dest!: ip_port_inj)
qed (auto simp: conn_key_reverse)

theorem key_identifies_connection_witness:
  "let c = \<lparr>srcIP = ''10.0.0.1'', dstIP = ''10.0.0.2'', srcPort = 40000, dstPort = 6379\<rparr>;
       d = \<lparr>srcIP = ''10.0.0.2'', dstIP = ''10.0.0.1'', srcPort = 6379, dstPort = 40000\<rparr>
   in conn_key c = conn_key d"
  using key_identifies_connection
    [of "\<lparr>srcIP = ''10.0.0.1'', dstIP = ''10.0.0.2'', srcPort = 40000, dstPort = 6379\<rparr>"
        "\<lparr>srcIP = ''10.0.0.2'', dstIP = ''10.0.0.1'', srcPort = 6379, dstPort = 40000\<rparr>"]
  by (simp add: well_formed_ips_def reverse_conn_def)

text \<open>The key computed from the packet flows and the key computed from the identity made of
  them agree when the ports are written in decimal, as gopacket writes them, so both capture paths join the
  same state.\<close>

theorem flow_key_is_conn_key:
  assumes "flow_Src t = itoa p" "flow_Dst t = itoa q" "p \<in> {0..65535}" "q \<in> {0..65535}"
  shows "conn_key (connIDFromFlows n t) = connKey n t
    \<and> conn_endpoints (connIDFromFlows n t) = flowEndpoints n t"
  using assms atoi_itoa [of p] atoi_itoa [of q]
  by (simp add: conn_key_def connKey_def connIDFromFlows_def portOf_def ip_port_def conn_endpoints_def
      flowEndpoints_def)

theorem flow_key_is_conn_key_witness:
  "conn_key (connIDFromFlows \<lparr>flow_Src = ''10.0.0.1'', flow_Dst = ''10.0.0.2''\<rparr> \<lparr>flow_Src = itoa 40000, flow_Dst = itoa 80\<rparr>)
     = connKey \<lparr>flow_Src = ''10.0.0.1'', flow_Dst = ''10.0.0.2''\<rparr> \<lparr>flow_Src = itoa 40000, flow_Dst = itoa 80\<rparr>"
  using flow_key_is_conn_key
    [of "\<lparr>flow_Src = itoa 40000, flow_Dst = itoa 80\<rparr>" 40000 80 "\<lparr>flow_Src = ''10.0.0.1'', flow_Dst = ''10.0.0.2''\<rparr>"]
  by simp

end
