(* ===== verification/Worker_Resp.thy ===== *)
theory Worker_Resp
  imports Worker_Conn
begin

text \<open>
  The Redis and Valkey dissector, \<open>internal/worker/dissect_redis.go\<close>: the RESP2/RESP3 reader, the
  rendering of commands and replies, the redaction of credentials, and the two directions of
  \<open>consumeRedisID\<close> as functions from the bytes of a direction to the payloads it hands to the
  pipeline.  What \<open>rawOf\<close> returns for a message is a parameter.

  The recursive reader continues only on a shorter rest, so that it terminates by a measure; the
  error \<open>RNoProgress\<close> of the other case is proved unreachable.
\<close>

datatype resp_error = REOF | RNotANumber | RBounds | RNoProgress

datatype respVal = RespVal (rsp_typ: char) (rsp_str: string) (rsp_arr: "respVal list") (rsp_null: bool)
  (rsp_attrs: strmap)

abbreviation simpleVal :: "char \<Rightarrow> string \<Rightarrow> respVal" where
  "simpleVal t s \<equiv> RespVal t s [] False []"

abbreviation nullVal :: "char \<Rightarrow> respVal" where
  "nullVal t \<equiv> RespVal t [] [] True []"

abbreviation aggVal :: "char \<Rightarrow> respVal list \<Rightarrow> respVal" where
  "aggVal t vs \<equiv> RespVal t [] vs False []"

definition maxRESPBulk :: nat where "maxRESPBulk = 512 * 2 ^ 20"
definition maxRESPCapture :: nat where "maxRESPCapture = 2 ^ 20"
definition maxRESPElements :: nat where "maxRESPElements = 2 ^ 20"
definition maxRESPDepth :: nat where "maxRESPDepth = 64"

subsection \<open>Rendering\<close>

definition redisMaxValueDisplay :: nat where "redisMaxValueDisplay = 256"

definition isRedisPrintable :: "string \<Rightarrow> bool" where
  "isRedisPrintable s \<longleftrightarrow> valid_utf8 s
     \<and> list_all (\<lambda>r. r \<noteq> rune_error \<and> (is_control_rune r \<longrightarrow> r = 9 \<or> r = 10 \<or> r = 13)) (runes s)"

definition redisDisplay :: "string \<Rightarrow> string" where
  "redisDisplay s = (if isRedisPrintable s then truncate_str s redisMaxValueDisplay else binaryPreview s)"

fun redisScalar :: "respVal \<Rightarrow> string" where
  "redisScalar (RespVal t s arr null attrs) =
     (if null then ''(nil)''
      else if t \<in> {CHR ''*'', CHR ''~'', CHR ''%'', CHR ''>''} then ''['' @ join '' '' (map redisScalar arr) @ '']''
      else redisDisplay s)"

definition renderRedisCommand :: "respVal \<Rightarrow> string" where
  "renderRedisCommand v =
     (if rsp_typ v = CHR ''*'' \<or> rsp_typ v = CHR ''~'' then join '' '' (map redisScalar (rsp_arr v))
      else if rsp_typ v = CHR ''i'' then trim_space (rsp_str v)
      else redisScalar v)"

definition redisMoreMarker :: "nat \<Rightarrow> string" where
  "redisMoreMarker n = ellipsis @ '' ('' @ itoa (int n) @ '' more)''"

definition capRedisArgs :: "string list \<Rightarrow> string list \<times> bool" where
  "capRedisArgs args = (if length args \<le> redisMaxArgs then (args, False)
     else (take redisMaxArgs args @ [redisMoreMarker (length args - redisMaxArgs)], True))"

definition redisArgs :: "respVal \<Rightarrow> string list \<times> bool" where
  "redisArgs v =
     (if rsp_typ v = CHR ''*'' \<or> rsp_typ v = CHR ''~'' then
        (let n = min (length (rsp_arr v)) redisMaxArgs;
             out = map redisScalar (take n (rsp_arr v))
         in if length (rsp_arr v) > n then (out @ [redisMoreMarker (length (rsp_arr v) - n)], True)
            else (out, False))
      else if rsp_typ v = CHR ''i'' then capRedisArgs (K8_Prelude.fields (rsp_str v))
      else if redisScalar v \<noteq> [] then ([redisScalar v], False) else ([], False))"

definition redisCommandLine :: "respVal \<Rightarrow> string list \<Rightarrow> string" where
  "redisCommandLine v args =
     (if rsp_typ v = CHR ''*'' \<or> rsp_typ v = CHR ''~'' then join '' '' args else renderRedisCommand v)"

definition respTypeName :: "char \<Rightarrow> string" where
  "respTypeName t =
     (if t \<in> {CHR ''+'', CHR ''$'', CHR ''=''} then ''string'' else if t = CHR ''-'' then ''error''
      else if t = CHR '':'' then ''integer'' else if t = CHR '','' then ''double''
      else if t = CHR ''('' then ''bignum'' else if t = CHR ''#'' then ''boolean''
      else if t = CHR ''_'' then ''null'' else if t = CHR ''*'' then ''array''
      else if t = CHR ''~'' then ''set'' else if t = CHR ''%'' then ''map''
      else if t = CHR ''>'' then ''push'' else if t = CHR ''i'' then ''inline'' else [])"

definition map_put :: "string \<Rightarrow> string \<Rightarrow> strmap \<Rightarrow> strmap" where
  "map_put k v m = (if map_of m k = None then m @ [(k, v)]
     else map (\<lambda>(k', v'). if k' = k then (k, v) else (k', v')) m)"

fun attr_pairs :: "respVal list \<Rightarrow> strmap \<Rightarrow> strmap" where
  "attr_pairs (k # v # rest) m = attr_pairs rest (map_put (redisScalar k) (redisScalar v) m)"
| "attr_pairs _ m = m"

definition respAttrMap :: "respVal \<Rightarrow> strmap" where
  "respAttrMap attr = (if length (rsp_arr attr) < 2 then [] else attr_pairs (rsp_arr attr) [])"

definition renderRedisReply :: "respVal \<Rightarrow> string \<times> string \<times> bool" where
  "renderRedisReply v =
     (let t = rsp_typ v; s = rsp_str v; n = int (length (rsp_arr v)) in
      if t = CHR ''+'' then (s, ''+'' @ s, False)
      else if t = CHR ''-'' then (s, ''-'' @ s, True)
      else if t = CHR '':'' then (''(integer) '' @ s, '':'' @ s, False)
      else if t = CHR '','' then (''(double) '' @ s, s, False)
      else if t = CHR ''('' then (''(bignum) '' @ s, s, False)
      else if t = CHR ''#'' then
        (if s = ''t'' then (''(boolean) true'', ''true'', False) else (''(boolean) false'', ''false'', False))
      else if t = CHR ''$'' \<or> t = CHR ''='' then
        (if rsp_null v then (''(nil)'', [], False)
         else (truncate_str (redisDisplay s) 120, redisDisplay s, False))
      else if t = CHR ''_'' then (''(nil)'', [], False)
      else if t = CHR ''*'' then
        (if rsp_null v then (''(nil)'', [], False) else (''(array, '' @ itoa n @ '' elements)'', [], False))
      else if t = CHR ''~'' then (''(set, '' @ itoa n @ '' elements)'', [], False)
      else if t = CHR ''%'' then (''(map, '' @ itoa (n div 2) @ '' pairs)'', [], False)
      else if t = CHR ''>'' then (''(push, '' @ itoa n @ '' elements)'', [], False)
      else if t = CHR ''i'' then (s, s, False)
      else ([], [], False))"

definition isRedisPush :: "golib \<Rightarrow> respVal \<Rightarrow> bool" where
  "isRedisPush L v \<longleftrightarrow> rsp_typ v = CHR ''>''
     \<or> (rsp_typ v = CHR ''*'' \<and> rsp_arr v \<noteq> []
        \<and> to_lower L (rsp_str (hd (rsp_arr v))) \<in> {''message'', ''pmessage'', ''smessage''})"

definition redisPushDesc :: "respVal \<Rightarrow> string \<times> string" where
  "redisPushDesc v =
     (if rsp_arr v = [] then (''push'', [])
      else let parts = map redisScalar (rsp_arr v)
           in (join '' '' (take (min (length parts) 2) parts),
               if length parts > 2 then truncate_str (join '' '' (drop 2 parts)) 160 else []))"

subsection \<open>Redaction\<close>

definition redactedValue :: string where "redactedValue = ''[REDACTED]''"

fun redact_pairs :: "golib \<Rightarrow> string list \<Rightarrow> string list" where
  "redact_pairs L (k # v # rest) =
     k # (if equal_fold L k ''requirepass'' \<or> equal_fold L k ''masterauth'' then redactedValue else v)
       # redact_pairs L rest"
| "redact_pairs L args = args"

fun sensitive_pair :: "golib \<Rightarrow> string list \<Rightarrow> bool" where
  "sensitive_pair L (k # v # rest) \<longleftrightarrow>
     equal_fold L k ''requirepass'' \<or> equal_fold L k ''masterauth'' \<or> sensitive_pair L rest"
| "sensitive_pair L args \<longleftrightarrow> False"

text \<open>The first argument, the command name included, that reads \<open>AUTH\<close>.\<close>

fun auth_index :: "golib \<Rightarrow> string list \<Rightarrow> nat option" where
  "auth_index L [] = None"
| "auth_index L (a # as) = (if equal_fold L a ''AUTH'' then Some 0 else map_option Suc (auth_index L as))"

definition redact_range :: "nat \<Rightarrow> nat \<Rightarrow> string list \<Rightarrow> string list" where
  "redact_range lo hi args =
     map (\<lambda>(i, a). if lo \<le> i \<and> i < hi then redactedValue else a) (zip [0..<length args] args)"

definition redactSensitiveRedisArgs :: "golib \<Rightarrow> string list \<Rightarrow> string list \<times> bool" where
  "redactSensitiveRedisArgs L args =
     (if length args < 2 then (args, False)
      else let cmd = to_upper L (hd args) in
        if cmd = ''AUTH'' then (redact_range 1 (length args) args, True)
        else if cmd = ''HELLO'' then
          (case auth_index L args of None \<Rightarrow> (args, False)
           | Some i \<Rightarrow> (redact_range (i + 1) (i + 3) args, True))
        else if cmd = ''CONFIG'' then
          (if \<not> equal_fold L (args ! 1) ''SET'' then (args, False)
           else if (length args - 2) mod 2 \<noteq> 0 then (redact_range 2 (length args) args, True)
           else if sensitive_pair L (drop 2 args) then (take 2 args @ redact_pairs L (drop 2 args), True)
           else (args, False))
        else (args, False))"

subsection \<open>The reader\<close>

definition readCRLF :: "bytes \<Rightarrow> resp_error + string \<times> bytes" where
  "readCRLF br = (case read_line br of None \<Rightarrow> Inl REOF | Some (l, r) \<Rightarrow> Inr (trim_right_crlf l, r))"

definition parse_bulk :: "char \<Rightarrow> bytes \<Rightarrow> resp_error + respVal \<times> bytes" where
  "parse_bulk t br =
     (case readCRLF br of Inl e \<Rightarrow> Inl e
      | Inr (line, r) \<Rightarrow>
          (case atoi line of None \<Rightarrow> Inl RNotANumber
           | Some n \<Rightarrow>
               if n < 0 then Inr (nullVal t, r)
               else if n > int maxRESPBulk then Inl RBounds
               else let tk = min (nat n) maxRESPCapture in
                 (case read_full tk r of None \<Rightarrow> Inl REOF
                  | Some (buf, r2) \<Rightarrow>
                      (case discard_n (nat n - tk + 2) r2 of None \<Rightarrow> Inl REOF
                       | Some r3 \<Rightarrow> Inr (simpleVal t buf, r3)))))"

text \<open>The length line of an aggregate: how many elements follow, \<open>None\<close> for the null form.  The
  product is a 64-bit one.\<close>

definition agg_count :: "int \<Rightarrow> bytes \<Rightarrow> resp_error + nat option \<times> bytes" where
  "agg_count per br =
     (case readCRLF br of Inl e \<Rightarrow> Inl e
      | Inr (line, r) \<Rightarrow>
          (case atoi line of None \<Rightarrow> Inl RNotANumber
           | Some n \<Rightarrow>
               if n < 0 then Inr (None, r)
               else let cnt = wrap64 (n * per) in
                 if cnt < 0 \<or> cnt > int maxRESPElements then Inl RBounds
                 else Inr (Some (nat cnt), r)))"

lemma readCRLF_shorter: "readCRLF br = Inr (l, r) \<Longrightarrow> length r < length br"
  by (auto simp: readCRLF_def dest: primitives_shorter split: option.splits)

lemma agg_count_shorter: "agg_count per br = Inr (n, r) \<Longrightarrow> length r < length br"
  by (auto simp: agg_count_def Let_def dest!: readCRLF_shorter split: sum.splits option.splits if_splits)

function parseRESPDepth :: "bytes \<Rightarrow> nat \<Rightarrow> resp_error + respVal \<times> bytes"
  and parseRESPAgg :: "bytes \<Rightarrow> char \<Rightarrow> nat \<Rightarrow> int \<Rightarrow> resp_error + respVal \<times> bytes"
  and respElems :: "nat \<Rightarrow> bytes \<Rightarrow> nat \<Rightarrow> resp_error + respVal list \<times> bytes"
where
  "parseRESPDepth br depth =
     (if depth > maxRESPDepth then Inl RBounds
      else (case br of [] \<Rightarrow> Inl REOF
       | t # r \<Rightarrow>
          if t \<in> {CHR ''+'', CHR ''-'', CHR '':'', CHR '','', CHR ''('', CHR ''#''} then
            (case readCRLF r of Inl e \<Rightarrow> Inl e | Inr (line, r2) \<Rightarrow> Inr (simpleVal t line, r2))
          else if t = CHR ''_'' then
            (case readCRLF r of Inl e \<Rightarrow> Inl e | Inr (_, r2) \<Rightarrow> Inr (nullVal t, r2))
          else if t = CHR ''$'' \<or> t = CHR ''='' then parse_bulk t r
          else if t \<in> {CHR ''*'', CHR ''~'', CHR ''>''} then parseRESPAgg r t depth 1
          else if t = CHR ''%'' then parseRESPAgg r t depth 2
          else if t = CHR ''|'' then
            (case parseRESPAgg r t depth 2 of Inl e \<Rightarrow> Inl e
             | Inr (attr, r2) \<Rightarrow>
                 if length r2 < length r then
                   (case parseRESPDepth r2 depth of Inl e \<Rightarrow> Inl e
                    | Inr (v, r3) \<Rightarrow>
                        Inr (RespVal (rsp_typ v) (rsp_str v) (rsp_arr v) (rsp_null v) (respAttrMap attr), r3))
                 else Inl RNoProgress)
          else (case readCRLF r of Inl e \<Rightarrow> Inl e
                | Inr (line, r2) \<Rightarrow> Inr (simpleVal (CHR ''i'') (t # line), r2))))"
| "parseRESPAgg br t depth per =
     (case agg_count per br of Inl e \<Rightarrow> Inl e
      | Inr (None, r) \<Rightarrow> Inr (nullVal t, r)
      | Inr (Some cnt, r) \<Rightarrow>
          (case respElems cnt r depth of Inl e \<Rightarrow> Inl e | Inr (arr, r2) \<Rightarrow> Inr (aggVal t arr, r2)))"
| "respElems 0 br depth = Inr ([], br)"
| "respElems (Suc k) br depth =
     (case parseRESPDepth br (depth + 1) of Inl e \<Rightarrow> Inl e
      | Inr (el, r) \<Rightarrow>
          if length r < length br then
            (case respElems k r depth of Inl e \<Rightarrow> Inl e | Inr (arr, r2) \<Rightarrow> Inr (el # arr, r2))
          else Inl RNoProgress)"
  by pat_completeness auto
termination
  by (relation "measures [\<lambda>x. case x of Inl (br, d) \<Rightarrow> length br | Inr (Inl (br, t, d, mu)) \<Rightarrow> length br
        | Inr (Inr (k, br, d)) \<Rightarrow> length br,
      \<lambda>x. case x of Inl _ \<Rightarrow> 0 | Inr (Inl _) \<Rightarrow> 1 | Inr (Inr _) \<Rightarrow> (1::nat)]")
     (auto dest: agg_count_shorter)

definition parseRESP :: "bytes \<Rightarrow> resp_error + respVal \<times> bytes" where
  "parseRESP br = parseRESPDepth br 0"

subsection \<open>The two directions of a connection\<close>

text \<open>One message of the client direction: the call it causes, if any, and the database selected
  afterwards.\<close>

definition redis_request :: "golib \<Rightarrow> bool \<Rightarrow> connID \<Rightarrow> string \<Rightarrow> RawView option \<Rightarrow> respVal \<Rightarrow> int
    \<Rightarrow> pipe_call list \<times> int" where
  "redis_request L redact c proto raw v db =
     (let (args, argsCut) = redisArgs v;
          (cmd, cmdCut) = capQuery (redisCommandLine v args)
      in if cmd = [] then ([], db)
         else let db' = (if length args = 2 \<and> equal_fold L (args ! 0) ''SELECT''
                         then (case atoi (args ! 1) of None \<Rightarrow> db | Some n \<Rightarrow> n) else db);
                  (redacted, ok) = redactSensitiveRedisArgs L args;
                  hide = (redact \<and> ok);
                  (cmd2, cut2) = capQuery (join '' '' redacted);
                  cmd' = (if hide then cmd2 else cmd);
                  cmdCut' = (if hide then cmdCut \<or> cut2 else cmdCut);
                  args' = (if hide then redacted else args)
              in ([EnqueueRequest (conn_key c) proto
                     (zero_Payload\<lparr>pl_Command := cmd', pl_Summary := truncate_str cmd' 160,
                        pl_Truncated := cmdCut' \<or> argsCut, pl_Raw := raw,
                        pl_Redis := Some (zero_RedisDetail\<lparr>redis_Args := args', redis_DBIndex := db'\<rparr>)\<rparr>)
                     (fst (conn_endpoints c)) (snd (conn_endpoints c))], db'))"

definition redis_response :: "golib \<Rightarrow> connID \<Rightarrow> string \<Rightarrow> RawView option \<Rightarrow> respVal \<Rightarrow> pipe_call list" where
  "redis_response L c proto raw v =
     (if isRedisPush L v then
        (let (kind, payload) = redisPushDesc v
         in [EmitPush (fst (conn_endpoints c)) (snd (conn_endpoints c)) proto kind payload])
      else let (summary, body, isErr) = renderRedisReply v;
               status = (if isErr then ''error'' else ''success'');
               reply = (if body = [] then summary else body)
           in [CompleteResponse (conn_key c)
                 (zero_Payload\<lparr>pl_Summary := summary, pl_Body := body, pl_Size := int (length body), pl_Raw := raw,
                    pl_Redis := Some (zero_RedisDetail\<lparr>redis_Reply := reply,
                      redis_ReplyType := respTypeName (rsp_typ v), redis_Attributes := rsp_attrs v\<rparr>)\<rparr>)
                 0 status None])"

text \<open>The loops over the messages read; \<open>raws n\<close> is what \<open>rawOf\<close> returns at the \<open>n\<close>-th of them.\<close>

fun redis_requests :: "golib \<Rightarrow> bool \<Rightarrow> connID \<Rightarrow> string \<Rightarrow> (nat \<Rightarrow> RawView option) \<Rightarrow> nat \<Rightarrow> int \<Rightarrow> respVal list
    \<Rightarrow> pipe_call list" where
  "redis_requests L redact c proto raws n db [] = []"
| "redis_requests L redact c proto raws n db (v # vs) =
     (case redis_request L redact c proto (raws n) v db of (calls, db') \<Rightarrow>
        calls @ redis_requests L redact c proto raws (Suc n) db' vs)"

fun redis_responses :: "golib \<Rightarrow> connID \<Rightarrow> string \<Rightarrow> (nat \<Rightarrow> RawView option) \<Rightarrow> nat \<Rightarrow> respVal list \<Rightarrow> pipe_call list" where
  "redis_responses L c proto raws n [] = []"
| "redis_responses L c proto raws n (v # vs) =
     redis_response L c proto (raws n) v @ redis_responses L c proto raws (Suc n) vs"

definition consumeRedisID :: "golib \<Rightarrow> bool \<Rightarrow> connID \<Rightarrow> (nat \<Rightarrow> RawView option) \<Rightarrow> bool \<Rightarrow> string \<Rightarrow> bytes
    \<Rightarrow> pipe_call list" where
  "consumeRedisID L redact c raws isRequest proto r =
     (let vs = fst (read_all parseRESP r)
      in if isRequest then redis_requests L redact c proto raws 0 0 vs
         else redis_responses L c proto raws 0 vs)"

declare parseRESPDepth.simps [simp del] parseRESPAgg.simps [simp del]

subsection \<open>The reader frames the stream\<close>

lemma readCRLF_frames [frames_intros]: "frames must readCRLF s"
  unfolding readCRLF_def by (intro frames_intros)

lemma parse_bulk_frames [frames_intros]: "frames must (parse_bulk t) s"
  unfolding parse_bulk_def Let_def by (intro frames_intros) simp_all

lemma agg_count_frames [frames_intros]: "frames must (agg_count per) s"
  unfolding agg_count_def Let_def by (intro frames_intros)

lemmas resp_induct = parseRESPDepth_parseRESPAgg_respElems.induct

lemma resp_frames:
  "frames True (\<lambda>b. parseRESPDepth b d) br"
  "frames True (\<lambda>b. parseRESPAgg b t d per) br"
  "frames False (\<lambda>b. respElems k b d) br"
proof (induction br d and br t d per and k br d rule: resp_induct)
  case (1 br depth)
  show ?case
    apply (rule frames_unfold [OF parseRESPDepth.simps])
    apply (intro frames_intros)
    subgoal by (rule frames_weaken) (rule 1(1); assumption)
    subgoal by (rule frames_weaken) (rule 1(2); assumption)
    subgoal by (rule 1(3); assumption)
    subgoal by (rule 1(4); (assumption | rule refl))
    done
next
  case (2 br t depth per)
  show ?case
    apply (rule frames_unfold [OF parseRESPAgg.simps])
    apply (rule frames_then [OF agg_count_frames], rule frames_case_option)
    apply (rule frames_return, rule frames_seq, use 2 in blast, rule frames_return)
    done
next
  case (4 k br depth)
  show ?case unfolding respElems.simps
    apply (rule frames_then_guarded [OF 4(1)], rule frames_seq)
    apply (rule 4(2), assumption, rule refl, assumption, rule frames_return)
    done
next
  case (3 br depth)
  show ?case unfolding respElems.simps by (intro frames_intros)
qed

interpretation resp: framed_reader parseRESP
  unfolding parseRESP_def by (rule framed_readerI) (rule resp_frames)

lemma resp_shorter:
  "parseRESPDepth br d = Inr (v, r) \<Longrightarrow> length r < length br"
  "parseRESPAgg br t d per = Inr (v, r) \<Longrightarrow> length r < length br"
  using framesD(1) [OF resp_frames(1) [of d br]] framesD(1) [OF resp_frames(2) [of t d per br]] by fastforce+

lemma resp_errors:
  "readCRLF br \<noteq> Inl RNoProgress" "parse_bulk t br \<noteq> Inl RNoProgress" "agg_count per br \<noteq> Inl RNoProgress"
  by (auto simp: readCRLF_def parse_bulk_def agg_count_def Let_def split: option.splits sum.splits prod.splits if_splits)

lemma resp_never_stuck:
  "parseRESPDepth br d \<noteq> Inl RNoProgress"
  "parseRESPAgg br t d per \<noteq> Inl RNoProgress"
  "respElems k br d \<noteq> Inl RNoProgress"
proof (induction br d and br t d per and k br d rule: resp_induct)
  case (1 br depth)
  show ?case
    apply (subst parseRESPDepth.simps, intro never_intros resp_errors resp_error.distinct)
    subgoal by (rule 1(1); assumption)
    subgoal by (rule 1(2); assumption)
    subgoal by (rule 1(3); assumption)
    subgoal by (rule 1(4); (assumption | rule refl))
    subgoal by (erule notE, erule resp_shorter(2))
    done
next
  case (2 br t depth per)
  show ?case
    by (subst parseRESPAgg.simps, intro never_intros) (simp_all add: resp_errors 2)
next
  case (4 k br depth)
  then show ?case by (auto dest: resp_shorter split: sum.splits)
qed simp

subsection \<open>Bounds\<close>

lemma wrap64_id: "- (2 ^ 63) \<le> n \<Longrightarrow> n < 2 ^ 63 \<Longrightarrow> wrap64 n = n"
  by (simp add: wrap64_def)

lemma atoi_range: "atoi s = Some n \<Longrightarrow> - (2 ^ 63) \<le> n \<and> n < 2 ^ 63"
  by (auto simp: atoi_def split: option.splits if_splits)

lemma wrap64_over: "2 ^ 63 \<le> m \<Longrightarrow> m < 2 ^ 64 \<Longrightarrow> wrap64 m = m - 2 ^ 64"
proof -
  assume m: "2 ^ 63 \<le> m" "m < 2 ^ 64"
  have "(m + 2 ^ 63) mod 2 ^ 64 = (m + 2 ^ 63 - 2 ^ 64) mod 2 ^ 64" by (rule minus_mod_self2 [symmetric])
  also have "\<dots> = m + 2 ^ 63 - 2 ^ 64" by (rule mod_pos_pos_trivial) (use m in simp_all)
  finally show ?thesis by (simp add: wrap64_def)
qed

lemma agg_count_wraps:
  assumes n: "0 \<le> n" "n < 2 ^ 63" and per: "per = 1 \<or> per = 2"
  shows "wrap64 (n * per) < 0 \<or> wrap64 (n * per) > int maxRESPElements \<longleftrightarrow> n * per > int maxRESPElements"
proof (cases "n * per < 2 ^ 63")
  case True
  then show ?thesis using n per wrap64_id [of "n * per"] by auto
next
  case False
  then have "wrap64 (n * per) = n * per - 2 ^ 64" using n per by (intro wrap64_over) auto
  then show ?thesis using False n per by (auto simp: maxRESPElements_def)
qed

subsection \<open>Redaction\<close>

text \<open>The credential positions of a command line: every argument of \<open>AUTH\<close>, the two after the
  first \<open>AUTH\<close> word of a \<open>HELLO\<close>, the value of \<open>requirepass\<close> and \<open>masterauth\<close> in \<open>CONFIG SET\<close>, and
  everything set when the pairs do not come out even.\<close>

definition credential_at :: "golib \<Rightarrow> string list \<Rightarrow> nat \<Rightarrow> bool" where
  "credential_at L args i \<longleftrightarrow>
     (to_upper L (hd args) = ''AUTH'' \<and> 1 \<le> i)
     \<or> (to_upper L (hd args) = ''HELLO'' \<and> (\<exists>j < i. i \<le> j + 2 \<and> j < length args \<and> equal_fold L (args ! j) ''AUTH''
          \<and> (\<forall>k < j. \<not> equal_fold L (args ! k) ''AUTH'')))
     \<or> (to_upper L (hd args) = ''CONFIG'' \<and> equal_fold L (args ! 1) ''SET'' \<and> 2 \<le> i
          \<and> (odd (length args) \<or> odd i \<and> (equal_fold L (args ! (i - 1)) ''requirepass''
                \<or> equal_fold L (args ! (i - 1)) ''masterauth'')))"

lemma redact_range_nth:
  "length (redact_range lo hi args) = length args"
  "i < length args \<Longrightarrow> redact_range lo hi args ! i = (if lo \<le> i \<and> i < hi then redactedValue else args ! i)"
  by (simp_all add: redact_range_def)

lemma auth_index_Some:
  "auth_index L args = Some i \<longleftrightarrow> i < length args \<and> equal_fold L (args ! i) ''AUTH''
     \<and> (\<forall>k < i. \<not> equal_fold L (args ! k) ''AUTH'')"
proof (induction args arbitrary: i)
  case (Cons a args)
  then show ?case by (cases i) (auto simp: less_Suc_eq_0_disj)
qed simp

lemma auth_index_None: "auth_index L args = None \<longleftrightarrow> (\<forall>k < length args. \<not> equal_fold L (args ! k) ''AUTH'')"
  by (induction args) (auto simp: less_Suc_eq_0_disj)

lemma redact_pairs_nth:
  "length (redact_pairs L args) = length args"
  "i < length args \<Longrightarrow> redact_pairs L args ! i =
     (if odd i \<and> (equal_fold L (args ! (i - 1)) ''requirepass'' \<or> equal_fold L (args ! (i - 1)) ''masterauth'')
      then redactedValue else args ! i)"
proof (induction L args arbitrary: i rule: redact_pairs.induct)
  case (1 L k v rest)
  { case 1 then show ?case using "1.IH" by simp
  next
    case 2 
    consider "i = 0" | "i = 1" | j where "i = Suc (Suc j)" by (metis One_nat_def not0_implies_Suc)
    then show ?case 
    proof cases
      case (3 j)
      then show ?thesis using "1.IH"(2) [of j] 2 by (cases j) auto
    qed (use 2 in simp_all) }
qed (auto simp: less_Suc_eq)

lemma redact_pairs_insensitive: "\<not> sensitive_pair L args \<Longrightarrow> redact_pairs L args = args"
  by (induction L args rule: redact_pairs.induct) auto

lemma redact_config:
  "fst (if sensitive_pair L (drop 2 args) then (take 2 args @ redact_pairs L (drop 2 args), True) else (args, False))
     = take 2 args @ redact_pairs L (drop 2 args)"
  by (simp add: redact_pairs_insensitive)

lemma redact_unfold:
  assumes "2 \<le> length args"
  shows "fst (redactSensitiveRedisArgs L args) =
    (if to_upper L (hd args) = ''AUTH'' then redact_range 1 (length args) args
     else if to_upper L (hd args) = ''HELLO'' then
       (case auth_index L args of None \<Rightarrow> args | Some i \<Rightarrow> redact_range (i + 1) (i + 3) args)
     else if to_upper L (hd args) = ''CONFIG'' \<and> equal_fold L (args ! 1) ''SET'' then
       (if odd (length args) then redact_range 2 (length args) args
        else take 2 args @ redact_pairs L (drop 2 args))
     else args)"
proof -
  obtain a b rest where args: "args = a # b # rest"
    using assms by (metis Suc_le_length_iff numeral_2_eq_2)
  have "length rest mod 2 \<noteq> 0 \<longleftrightarrow> odd (length rest)" by presburger
  then show ?thesis
    by (cases "auth_index L args") (simp_all add: args redactSensitiveRedisArgs_def Let_def redact_pairs_insensitive)
qed

lemma config_tail_nth:
  assumes "2 \<le> length args" "i < length args"
  shows "(take 2 args @ redact_pairs L (drop 2 args)) ! i =
    (if 2 \<le> i \<and> odd i \<and> (equal_fold L (args ! (i - 1)) ''requirepass'' \<or> equal_fold L (args ! (i - 1)) ''masterauth'')
     then redactedValue else args ! i)"
proof -
  obtain a b rest where args: "args = a # b # rest"
    using assms by (metis Suc_le_length_iff numeral_2_eq_2)
  consider "i = 0" | "i = 1" | j where "i = Suc (Suc j)" by (metis One_nat_def not0_implies_Suc)
  then show ?thesis
  proof cases
    case (3 j)
    then show ?thesis using assms by (cases j) (auto simp: args redact_pairs_nth)
  qed (simp_all add: args)
qed

lemma hello_position:
  "(case auth_index L args of None \<Rightarrow> False | Some j \<Rightarrow> j + 1 \<le> i \<and> i < j + 3)
     \<longleftrightarrow> (\<exists>j < i. i \<le> j + 2 \<and> j < length args \<and> equal_fold L (args ! j) ''AUTH''
          \<and> (\<forall>k < j. \<not> equal_fold L (args ! k) ''AUTH''))"
proof (cases "auth_index L args")
  case None
  then have "\<forall>k < length args. \<not> equal_fold L (args ! k) ''AUTH''" by (simp add: auth_index_None)
  then show ?thesis using None by auto
next
  case (Some j)
  then have j: "j < length args" "equal_fold L (args ! j) ''AUTH''" "\<forall>k < j. \<not> equal_fold L (args ! k) ''AUTH''"
    by (auto simp: auth_index_Some)
  then have "j' = j" if "equal_fold L (args ! j') ''AUTH''" "\<forall>k < j'. \<not> equal_fold L (args ! k) ''AUTH''" for j'
    using that by (metis linorder_neqE_nat)
  then have "(\<exists>j' < i. i \<le> j' + 2 \<and> j' < length args \<and> equal_fold L (args ! j') ''AUTH''
      \<and> (\<forall>k < j'. \<not> equal_fold L (args ! k) ''AUTH'')) \<longleftrightarrow> j < i \<and> i \<le> j + 2"
    using j by blast
  then show ?thesis unfolding Some by (simp only: option.simps) linarith
qed

lemma redact_nth:
  assumes "2 \<le> length args" "i < length args"
  shows "fst (redactSensitiveRedisArgs L args) ! i = (if credential_at L args i then redactedValue else args ! i)"
proof -
  let ?cmd = "to_upper L (hd args)" and ?set = "equal_fold L (args ! 1) ''SET''"
  consider "?cmd = ''AUTH''" | "?cmd = ''HELLO''" | "?cmd = ''CONFIG''" "?set" "odd (length args)"
    | "?cmd = ''CONFIG''" "?set" "even (length args)" | "?cmd \<notin> {''AUTH'', ''HELLO'', ''CONFIG''}"
    | "?cmd = ''CONFIG''" "\<not> ?set"
    by blast
  then show ?thesis
  proof cases
    case 2
    have "credential_at L args i \<longleftrightarrow> (case auth_index L args of None \<Rightarrow> False | Some j \<Rightarrow> j + 1 \<le> i \<and> i < j + 3)"
      unfolding hello_position credential_at_def using 2 by simp
    then show ?thesis using assms 2 by (cases "auth_index L args") (simp_all add: redact_unfold redact_range_nth)
  next
    case 4
    then show ?thesis using assms by (simp add: redact_unfold credential_at_def config_tail_nth del: One_nat_def)
  qed (use assms in \<open>simp_all add: redact_unfold credential_at_def redact_range_nth\<close>)
qed

lemma redact_length: "length (fst (redactSensitiveRedisArgs L args)) = length args"
proof (cases "2 \<le> length args")
  case True
  then show ?thesis by (cases "auth_index L args") (auto simp: redact_unfold redact_range_nth redact_pairs_nth)
qed (simp add: redactSensitiveRedisArgs_def)

lemma redact_unchanged: "\<not> snd (redactSensitiveRedisArgs L args) \<Longrightarrow> fst (redactSensitiveRedisArgs L args) = args"
  by (simp add: redactSensitiveRedisArgs_def Let_def split: option.splits if_splits)

text \<open>With two arguments or more, redaction replaces exactly the credential positions of a
  command line and leaves every other argument as it is; and it reports that it did nothing only when there is none.\<close>

theorem redaction_exact:
  assumes "2 \<le> length args"
  shows "fst (redactSensitiveRedisArgs L args)
     = map (\<lambda>i. if credential_at L args i then redactedValue else args ! i) [0..<length args]
   \<and> (\<not> snd (redactSensitiveRedisArgs L args) \<longrightarrow> fst (redactSensitiveRedisArgs L args) = args)"
proof
  show "fst (redactSensitiveRedisArgs L args)
     = map (\<lambda>i. if credential_at L args i then redactedValue else args ! i) [0..<length args]"
    using assms by (intro nth_equalityI) (simp_all add: redact_length redact_nth)
next
  show "\<not> snd (redactSensitiveRedisArgs L args) \<longrightarrow> fst (redactSensitiveRedisArgs L args) = args"
    by (simp add: redact_unchanged)
qed

theorem redaction_exact_witness:
  "fst (redactSensitiveRedisArgs ascii_lib [''AUTH'', ''alice'', ''s3cret'']) = [''AUTH'', redactedValue, redactedValue]"
proof -
  have "to_upper ascii_lib ''AUTH'' = ''AUTH''" by (simp add: to_upper_def is_ascii_def upper_byte_def)
  then show ?thesis
    using redaction_exact [of "[''AUTH'', ''alice'', ''s3cret'']" ascii_lib]
    by (simp add: credential_at_def upt_rec)
qed

subsection \<open>Bounds on what is parsed\<close>

text \<open>A value read at nesting depth \<open>d\<close> respects the bounds on depth and on the number of elements,
  all the way down.\<close>

fun resp_within :: "nat \<Rightarrow> respVal \<Rightarrow> bool" where
  "resp_within d (RespVal t s arr null attrs) \<longleftrightarrow>
     d \<le> maxRESPDepth \<and> length arr \<le> maxRESPElements \<and> (\<forall>v \<in> set arr. resp_within (Suc d) v)"

lemma agg_count_bound: "agg_count per br = Inr (Some n, r) \<Longrightarrow> n \<le> maxRESPElements"
  by (auto simp: agg_count_def Let_def split: sum.splits option.splits if_splits)

lemma leaf_within: "\<not> maxRESPDepth < d \<Longrightarrow> resp_within d (RespVal t s [] n a)"
  by simp

lemma parse_bulk_within: "\<not> maxRESPDepth < d \<Longrightarrow> yields (resp_within d) (parse_bulk t br)"
  unfolding parse_bulk_def Let_def by (intro yields_intros leaf_within)

lemma attrs_within: "resp_within d v \<Longrightarrow> resp_within d (RespVal (rsp_typ v) (rsp_str v) (rsp_arr v) (rsp_null v) a)"
  by (cases v) simp

lemma agg_within:
  assumes "yields (\<lambda>vs. length vs = k \<and> (\<forall>v \<in> set vs. resp_within (Suc d) v)) (respElems k br d)"
    "respElems k br d = Inr (vs, r)" "agg_count per br0 = Inr (Some k, br)" "\<not> maxRESPDepth < d"
  shows "resp_within d (aggVal t vs)"
  using yieldsD [OF assms(1,2)] agg_count_bound [OF assms(3)] assms(4) by simp

lemma resp_all_within:
  "yields (resp_within d) (parseRESPDepth br d)"
  "\<not> maxRESPDepth < d \<Longrightarrow> yields (resp_within d) (parseRESPAgg br t d per)"
  "yields (\<lambda>vs. length vs = k \<and> (\<forall>v \<in> set vs. resp_within (Suc d) v)) (respElems k br d)"
proof (induction br d and br t d per and k br d rule: resp_induct)
  case (1 br depth)
  show ?case
    apply (subst parseRESPDepth.simps, intro yields_intros leaf_within parse_bulk_within attrs_within; assumption?)
    subgoal by (rule 1(1); assumption)
    subgoal by (rule 1(2); assumption)
    subgoal by (rule yieldsD [OF 1(4)]; (assumption | rule refl))
    done
next
  case (2 br t depth per)
  show ?case
    apply (subst parseRESPAgg.simps, intro yields_intros leaf_within 2(2))
    subgoal by (rule agg_within [OF 2(1)]; (assumption | rule refl | simp add: 2(2)))
    done
next
  case (4 k br depth)
  show ?case unfolding respElems.simps
    apply (intro yields_intros)
    using 4 by (auto simp: yields_def)
qed (simp add: yields_def)


text \<open>Whatever bytes arrive, a value the reader returns nests at most \<open>maxRESPDepth\<close> deep and has
  at most \<open>maxRESPElements\<close> elements at every level; the test of the 64-bit product against that bound
  is exact, a length whose doubling wraps around included.\<close>

theorem resp_values_bounded:
  "(parseRESP br = Inr (v, r) \<longrightarrow> resp_within 0 v)
   \<and> (0 \<le> n \<and> n < 2 ^ 63 \<and> (per = 1 \<or> per = 2) \<longrightarrow>
        (wrap64 (n * per) < 0 \<or> wrap64 (n * per) > int maxRESPElements \<longleftrightarrow> n * per > int maxRESPElements))"
  using yieldsD [OF resp_all_within(1)] agg_count_wraps by (auto simp: parseRESP_def)

theorem resp_values_bounded_witness:
  "resp_within 0 (simpleVal (CHR ''+'') ''OK'')
   \<and> (wrap64 ((2 ^ 62 + 1) * 2) < 0 \<or> wrap64 ((2 ^ 62 + 1) * 2) > int maxRESPElements)"
proof -
  have "parseRESP (''+OK'' @ [CHR 0x0D, CHR 0x0A]) = Inr (simpleVal (CHR ''+'') ''OK'', [])"
    by (simp add: parseRESP_def parseRESPDepth.simps maxRESPDepth_def readCRLF_def read_line_def
        trim_right_crlf_def is_crlf_def)
  then show ?thesis
    using resp_values_bounded [where n = "2 ^ 62 + 1" and per = 2] by (simp add: maxRESPElements_def)
qed

subsection \<open>Encoding\<close>

definition crlf :: string where "crlf = [CHR 0x0D, CHR 0x0A]"

lemma readCRLF_crlf:
  assumes "CHR 0x0A \<notin> set s" "s = [] \<or> last s \<noteq> CHR 0x0D"
  shows "readCRLF (s @ crlf @ r) = Inr (s, r)"
proof -
  have "read_line (s @ crlf @ r) = Some (s @ crlf, r)"
    unfolding read_line_Some using assms(1) by (auto simp: crlf_def butlast_append)
  moreover have "trim_right_crlf (s @ crlf) = s"
    using assms by (cases s rule: rev_cases) (auto simp: trim_right_crlf_def crlf_def is_crlf_def)
  ultimately show ?thesis by (simp add: readCRLF_def)
qed

lemma readCRLF_itoa: "readCRLF (itoa n @ crlf @ r) = Inr (itoa n, r)"
proof (rule readCRLF_crlf)
  show "CHR 0x0A \<notin> set (itoa n)" using itoa_set [of "CHR 0x0A" n] by (auto simp: is_digit_def)
  have "last (itoa n) \<in> set (itoa n)" using itoa_nonempty by simp
  then show "itoa n = [] \<or> last (itoa n) \<noteq> CHR 0x0D" using itoa_set by (fastforce simp: is_digit_def)
qed


text \<open>How a server or client writes a value: the reference form the reader is checked against.  A map
  is written with the number of its pairs.\<close>

fun resp_encode :: "respVal \<Rightarrow> bytes" where
  "resp_encode (RespVal t s arr null attrs) =
     (if t = CHR ''i'' then s @ crlf
      else if t = CHR ''_'' then t # crlf
      else if null then t # ''-1'' @ crlf
      else if t = CHR ''$'' \<or> t = CHR ''='' then t # itoa (int (length s)) @ crlf @ s @ crlf
      else if t \<in> {CHR ''*'', CHR ''~'', CHR ''>''} then
        t # itoa (int (length arr)) @ crlf @ concat (map resp_encode arr)
      else if t = CHR ''%'' then t # itoa (int (length arr div 2)) @ crlf @ concat (map resp_encode arr)
      else t # s @ crlf)"

definition line_text :: "string \<Rightarrow> bool" where
  "line_text s \<longleftrightarrow> CHR 0x0A \<notin> set s \<and> (s = [] \<or> last s \<noteq> CHR 0x0D)"

definition resp_line_types :: "char set" where
  "resp_line_types = {CHR ''+'', CHR ''-'', CHR '':'', CHR '','', CHR ''('', CHR ''#''}"

definition resp_types :: "char set" where
  "resp_types = resp_line_types \<union> {CHR ''_'', CHR ''$'', CHR ''='', CHR ''*'', CHR ''~'', CHR ''>'', CHR ''%'', CHR ''|''}"

text \<open>The values that can be written: each type carries only its own fields, lines do not contain
  line ends, and sizes and depth are within the reader's bounds.\<close>

fun resp_ok :: "nat \<Rightarrow> respVal \<Rightarrow> bool" where
  "resp_ok d (RespVal t s arr null attrs) \<longleftrightarrow> d \<le> maxRESPDepth \<and> attrs = [] \<and>
     (if t \<in> resp_line_types then arr = [] \<and> \<not> null \<and> line_text s
      else if t = CHR ''_'' then s = [] \<and> arr = [] \<and> null
      else if t = CHR ''$'' \<or> t = CHR ''='' then arr = [] \<and> (null \<longrightarrow> s = []) \<and> length s \<le> maxRESPCapture
      else if t \<in> {CHR ''*'', CHR ''~'', CHR ''>'', CHR ''%''} then
        s = [] \<and> (null \<longrightarrow> arr = []) \<and> length arr \<le> maxRESPElements \<and> (t = CHR ''%'' \<longrightarrow> even (length arr))
        \<and> (\<forall>v \<in> set arr. resp_ok (Suc d) v)
      else t = CHR ''i'' \<and> arr = [] \<and> \<not> null \<and> s \<noteq> [] \<and> hd s \<notin> resp_types \<and> line_text s)"

lemma readCRLF_line: "line_text s \<Longrightarrow> readCRLF (s @ crlf @ r) = Inr (s, r)"
  by (rule readCRLF_crlf) (auto simp: line_text_def)

lemma agg_count_encode:
  assumes "length arr \<le> maxRESPElements" "per * int n = int (length arr)" "per = 1 \<or> per = 2"
  shows "agg_count per (itoa (int n) @ crlf @ r) = Inr (Some (length arr), r)"
proof -
  have n: "int n \<le> 2 ^ 20" using assms by (auto simp: maxRESPElements_def)
  have "wrap64 (int n * per) = int (length arr)"
    using assms n by (subst wrap64_id) (auto simp: maxRESPElements_def mult.commute)
  then show ?thesis using n assms(1)
    by (simp add: agg_count_def readCRLF_itoa atoi_itoa Let_def)
qed

lemma minus_one: "itoa (-1) = ''-1''"
  by code_simp

lemma agg_count_null: "agg_count per (''-1'' @ crlf @ r) = Inr (None, r)"
  using readCRLF_itoa [of "-1" r] atoi_itoa [of "-1"] by (simp add: minus_one agg_count_def)

lemma parse_bulk_encode:
  "length s \<le> maxRESPCapture \<Longrightarrow> parse_bulk t (itoa (int (length s)) @ crlf @ s @ crlf @ r) = Inr (simpleVal t s, r)"
proof -
  assume s: "length s \<le> maxRESPCapture"
  have "discard_n (Suc (Suc 0)) (crlf @ r) = Some r" by (simp add: discard_n_def crlf_def)
  moreover have "atoi (itoa (int (length s))) = Some (int (length s))" "length s \<le> maxRESPBulk"
    using s by (simp_all add: atoi_itoa maxRESPCapture_def maxRESPBulk_def)
  ultimately show ?thesis using s by (simp add: parse_bulk_def readCRLF_itoa read_full_def min_absorb1)
qed

lemma parse_bulk_null: "parse_bulk t (''-1'' @ crlf @ r) = Inr (nullVal t, r)"
  using readCRLF_itoa [of "-1" r] atoi_itoa [of "-1"] by (simp add: minus_one parse_bulk_def)


lemma resp_elems_encode:
  assumes "\<And>v r. v \<in> set vs \<Longrightarrow> parseRESPDepth (resp_encode v @ r) (Suc d) = Inr (v, r)"
  shows "respElems (length vs) (concat (map resp_encode vs) @ r) d = Inr (vs, r)"
  using assms
proof (induction vs)
  case (Cons v vs)
  have "parseRESPDepth (resp_encode v @ concat (map resp_encode vs) @ r) (Suc d) = Inr (v, concat (map resp_encode vs) @ r)"
    using Cons.prems by simp
  then show ?case using Cons resp_shorter(1) by fastforce
qed simp

lemma parse_tags:
  assumes "\<not> maxRESPDepth < d"
  shows "t \<in> resp_line_types \<Longrightarrow> parseRESPDepth (t # r) d =
      (case readCRLF r of Inl e \<Rightarrow> Inl e | Inr (line, r2) \<Rightarrow> Inr (simpleVal t line, r2))"
    "parseRESPDepth (CHR ''_'' # r) d =
      (case readCRLF r of Inl e \<Rightarrow> Inl e | Inr (_, r2) \<Rightarrow> Inr (nullVal (CHR ''_''), r2))"
    "t = CHR ''$'' \<or> t = CHR ''='' \<Longrightarrow> parseRESPDepth (t # r) d = parse_bulk t r"
    "t \<in> {CHR ''*'', CHR ''~'', CHR ''>''} \<Longrightarrow> parseRESPDepth (t # r) d = parseRESPAgg r t d 1"
    "parseRESPDepth (CHR ''%'' # r) d = parseRESPAgg r (CHR ''%'') d 2"
    "t \<notin> resp_types \<Longrightarrow> parseRESPDepth (t # r) d =
      (case readCRLF r of Inl e \<Rightarrow> Inl e | Inr (line, r2) \<Rightarrow> Inr (simpleVal (CHR ''i'') (t # line), r2))"
  using assms by (auto simp: parseRESPDepth.simps [of "_ # r"] resp_line_types_def resp_types_def)

lemma encode_agg:
  assumes "t \<in> {CHR ''*'', CHR ''~'', CHR ''>'', CHR ''%''}" "resp_ok d (RespVal t s arr null attrs)"
    "per = (if t = CHR ''%'' then 2 else 1)"
    "\<And>v r. v \<in> set arr \<Longrightarrow> parseRESPDepth (resp_encode v @ r) (Suc d) = Inr (v, r)"
  shows "parseRESPAgg (tl (resp_encode (RespVal t s arr null attrs)) @ r) t d per = Inr (RespVal t s arr null attrs, r)"
    and "resp_encode (RespVal t s arr null attrs) = t # tl (resp_encode (RespVal t s arr null attrs))"
proof -
  have t: "t \<notin> resp_line_types" "t \<noteq> CHR ''_''" "t \<noteq> CHR ''i''" "\<not> (t = CHR ''$'' \<or> t = CHR ''='')"
    using assms(1) by (auto simp: resp_line_types_def)
  have ok: "attrs = []" "s = []" "null \<longrightarrow> arr = []" "length arr \<le> maxRESPElements" "t = CHR ''%'' \<longrightarrow> even (length arr)"
    using assms(1,2) t by simp_all
  let ?n = "if t = CHR ''%'' then length arr div 2 else length arr"
  have enc: "resp_encode (RespVal t s arr null attrs)
     = t # (if null then ''-1'' @ crlf else itoa (int ?n) @ crlf @ concat (map resp_encode arr))"
    using assms(1) t by auto
  then show "resp_encode (RespVal t s arr null attrs) = t # tl (resp_encode (RespVal t s arr null attrs))" by simp
  have "agg_count per (itoa (int ?n) @ crlf @ concat (map resp_encode arr) @ r)
      = Inr (Some (length arr), concat (map resp_encode arr) @ r)"
    using ok assms(3) by (intro agg_count_encode) auto
  then show "parseRESPAgg (tl (resp_encode (RespVal t s arr null attrs)) @ r) t d per = Inr (RespVal t s arr null attrs, r)"
    unfolding enc using ok resp_elems_encode [OF assms(4)] agg_count_null [of per r]
    by (simp add: parseRESPAgg.simps)
qed

lemma resp_ok_tag:
  "resp_ok d (RespVal t s arr null attrs) \<Longrightarrow> t \<in> resp_line_types \<or> t = CHR ''_'' \<or> (t = CHR ''$'' \<or> t = CHR ''='')
     \<or> t \<in> {CHR ''*'', CHR ''~'', CHR ''>''} \<or> t = CHR ''%'' \<or> t = CHR ''i''"
  by (rule ccontr) simp

lemma resp_parses_encoded:
  "resp_ok d v \<Longrightarrow> parseRESPDepth (resp_encode v @ r) d = Inr (v, r)"
proof (induction v arbitrary: d r)
  case (RespVal t s arr null attrs)
  let ?v = "RespVal t s arr null attrs"
  have d: "\<not> maxRESPDepth < d" using RespVal.prems by simp
  have rec: "parseRESPDepth (resp_encode v @ r) (Suc d) = Inr (v, r)"
    if "t \<in> {CHR ''*'', CHR ''~'', CHR ''>'', CHR ''%''}" "v \<in> set arr" for v r
    using that RespVal by (auto simp: resp_line_types_def)
  consider "t \<in> resp_line_types" | "t = CHR ''_''" | "t = CHR ''$'' \<or> t = CHR ''=''"
    | "t \<in> {CHR ''*'', CHR ''~'', CHR ''>''}" | "t = CHR ''%''" | "t = CHR ''i''"
    using resp_ok_tag [OF RespVal.prems] by blast
  then show ?case
  proof cases
    case 1
    then have "t \<notin> {CHR ''i'', CHR ''_'', CHR ''$'', CHR ''='', CHR ''*'', CHR ''~'', CHR ''>'', CHR ''%''}"
      by (auto simp: resp_line_types_def)
    then show ?thesis using 1 RespVal.prems by (simp add: parse_tags(1) [OF d] readCRLF_line)
  next
    case 2
    have "CHR ''_'' \<notin> resp_line_types" by (simp add: resp_line_types_def)
    then show ?thesis
      using 2 RespVal.prems readCRLF_line [of "[]" r] by (simp add: parse_tags(2) [OF d] line_text_def)
  next
    case 3
    then have "t \<notin> resp_line_types" "t \<noteq> CHR ''i''" "t \<noteq> CHR ''_''" by (auto simp: resp_line_types_def)
    then show ?thesis
      using 3 RespVal.prems parse_bulk_null [of t r] by (auto simp: parse_tags(3) [OF d] parse_bulk_encode)
  next
    case 4
    then have tag: "t \<in> {CHR ''*'', CHR ''~'', CHR ''>'', CHR ''%''}" and per: "1 = (if t = CHR ''%'' then 2 else (1::int))"
      by auto
    note agg = encode_agg [OF tag RespVal.prems per rec [OF tag]]
    show ?thesis by (subst agg(2)) (simp_all add: agg(1) parse_tags(4) [OF d 4] del: resp_encode.simps)
  next
    case 5
    then have tag: "t \<in> {CHR ''*'', CHR ''~'', CHR ''>'', CHR ''%''}" and per: "2 = (if t = CHR ''%'' then 2 else (1::int))"
      by auto
    note agg = encode_agg [OF tag RespVal.prems per rec [OF tag]]
    show ?thesis using agg(1) by (subst agg(2)) (simp_all add: 5 parse_tags(5) [OF d] del: resp_encode.simps)
  next
    case 6
    then have i: "t \<notin> resp_line_types" by (simp add: resp_line_types_def)
    then obtain c s' where s: "s = c # s'" "c \<notin> resp_types" "line_text s'"
      using 6 RespVal.prems by (cases s) (auto simp: line_text_def split: if_splits)
    then show ?thesis using 6 i RespVal.prems by (simp add: parse_tags(6) [OF d] readCRLF_line)
  qed
qed

text \<open>C37: writing any sequence of values in the RESP wire format and reading the stream back gives
  those values, in order, and nothing is left over.\<close>

theorem resp_stream_round_trip:
  assumes "\<forall>v \<in> set vs. resp_ok 0 v"
  shows "read_all parseRESP (concat (map resp_encode vs)) = (vs, [])"
  using assms
proof (induction vs)
  case Nil
  then show ?case
    by (simp add: read_all.simps read_one_def parseRESP_def parseRESPDepth.simps maxRESPDepth_def)
next
  case (Cons v vs)
  then have "parseRESP (resp_encode v @ concat (map resp_encode vs)) = Inr (v, concat (map resp_encode vs))"
    by (simp add: parseRESP_def resp_parses_encoded)
  then show ?case using Cons by (simp add: resp.read_all_more)
qed

theorem resp_stream_round_trip_witness:
  "read_all parseRESP (''*1'' @ crlf @ ''$4'' @ crlf @ ''PING'' @ crlf @ ''+PONG'' @ crlf)
     = ([aggVal (CHR ''*'') [simpleVal (CHR ''$'') ''PING''], simpleVal (CHR ''+'') ''PONG''], [])"
proof -
  have "itoa 1 = ''1''" "itoa 4 = ''4''" by code_simp+
  then show ?thesis
    using resp_stream_round_trip [of "[aggVal (CHR ''*'') [simpleVal (CHR ''$'') ''PING''], simpleVal (CHR ''+'') ''PONG'']"]
    by (simp add: resp_line_types_def line_text_def maxRESPDepth_def maxRESPElements_def maxRESPCapture_def)
qed

subsection \<open>The loops\<close>

lemma redis_requests_prefix:
  "prefix (redis_requests L redact c proto raws n db vs) (redis_requests L redact c proto raws n db (vs @ ws))"
  by (induction vs arbitrary: n db) (auto split: prod.splits)

lemma redis_responses_prefix:
  "prefix (redis_responses L c proto raws n vs) (redis_responses L c proto raws n (vs @ ws))"
  by (induction vs arbitrary: n) auto

text \<open>What the dissector has reported for the bytes seen so far does not depend on the bytes still to
  come: more traffic only adds calls, however the stream is cut into segments.\<close>

theorem redis_calls_monotone:
  "prefix (consumeRedisID L redact c raws isRequest proto s) (consumeRedisID L redact c raws isRequest proto (s @ x))"
proof -
  have "fst (read_all parseRESP (s @ x)) = fst (read_all parseRESP s) @ fst (read_all parseRESP (snd (read_all parseRESP s) @ x))"
    by (subst resp.read_all_append) simp
  then show ?thesis
    by (simp add: consumeRedisID_def Let_def redis_requests_prefix redis_responses_prefix)
qed

subsection \<open>Nesting\<close>

lemma readCRLF_count: "readCRLF (''0'' @ crlf @ r) = Inr (''0'', r)" "readCRLF (''1'' @ crlf @ r) = Inr (''1'', r)"
  by (rule readCRLF_line, simp add: line_text_def)+

lemma atoi_count: "atoi ''0'' = Some 0" "atoi ''1'' = Some 1"
  by code_simp+

lemma attribute_chain:
  "parseRESPDepth (concat (replicate n (''|0'' @ crlf)) @ ''+OK'' @ crlf) 0 = Inr (simpleVal (CHR ''+'') ''OK'', [])"
proof (induction n)
  case 0
  have "readCRLF (''OK'' @ crlf @ []) = Inr (''OK'', [])" by (rule readCRLF_line) (simp add: line_text_def)
  then show ?case by (simp add: parseRESPDepth.simps maxRESPDepth_def)
next
  case (Suc n)
  let ?rest = "concat (replicate n (''|0'' @ crlf)) @ ''+OK'' @ crlf"
  have "agg_count 2 (''0'' @ crlf @ ?rest) = Inr (Some 0, ?rest)"
    unfolding agg_count_def readCRLF_count by (simp add: atoi_count wrap64_def maxRESPElements_def)
  then have "parseRESPAgg (''0'' @ crlf @ ?rest) (CHR ''|'') 0 2 = Inr (aggVal (CHR ''|'') [], ?rest)"
    by (simp add: parseRESPAgg.simps)
  then show ?case using Suc
    by (subst parseRESPDepth.simps) (simp add: maxRESPDepth_def respAttrMap_def)
qed

lemma array_chain:
  "maxRESPDepth < n + d \<Longrightarrow> d \<le> maxRESPDepth + 1 \<Longrightarrow>
     parseRESPDepth (concat (replicate n (''*1'' @ crlf)) @ ''+OK'' @ crlf) d = Inl RBounds"
proof (induction n arbitrary: d)
  case 0
  then show ?case by (simp add: parseRESPDepth.simps)
next
  case (Suc n)
  show ?case
  proof (cases "d = maxRESPDepth + 1")
    case True
    then show ?thesis by (simp add: parseRESPDepth.simps)
  next
    case False
    let ?rest = "concat (replicate n (''*1'' @ crlf)) @ ''+OK'' @ crlf"
    have "agg_count 1 (''1'' @ crlf @ ?rest) = Inr (Some 1, ?rest)"
      unfolding agg_count_def readCRLF_count by (simp add: atoi_count wrap64_def maxRESPElements_def)
    moreover have "parseRESPDepth ?rest (Suc d) = Inl RBounds" using Suc False by simp
    ultimately have "parseRESPAgg (''1'' @ crlf @ ?rest) (CHR ''*'') d 1 = Inl RBounds"
      by (simp add: parseRESPAgg.simps)
    then show ?thesis using False Suc.prems by (subst parseRESPDepth.simps) simp
  qed
qed

text \<open>\<open>maxRESPDepth\<close> stops arrays nested more than 64 deep, and does not stop the reader's recursion on
  attributes: a value may be preceded by any number of them, each one a recursive call at the same depth, so
  a stream decides how deep the reader recurses.\<close>

theorem attribute_nesting_unbounded:
  "parseRESP (concat (replicate n (''|0'' @ crlf)) @ ''+OK'' @ crlf) = Inr (simpleVal (CHR ''+'') ''OK'', [])
   \<and> parseRESP (concat (replicate (65 + n) (''*1'' @ crlf)) @ ''+OK'' @ crlf) = Inl RBounds"
  using attribute_chain [of n] array_chain [of "65 + n" 0] by (simp add: parseRESP_def maxRESPDepth_def)


subsection \<open>Credentials\<close>

lemma credential_positions_agree:
  assumes len: "length a' = length a" "2 \<le> length a"
    and same: "\<And>i. i < length a \<Longrightarrow> \<not> credential_at L a i \<Longrightarrow> a' ! i = a ! i" and i: "i < length a"
  shows "credential_at L a' i = credential_at L a i"
proof -
  have "a \<noteq> []" "a' \<noteq> []" using len by auto
  then have hd: "hd a' = hd a" using same [of 0] len by (simp add: credential_at_def hd_conv_nth)
  have one: "a' ! 1 = a ! 1" if "to_upper L (hd a) = ''CONFIG''" using same [of 1] len that by (simp add: credential_at_def)
  show ?thesis
  proof (cases "to_upper L (hd a) = ''HELLO''")
    case False
    have "a' ! (i - 1) = a ! (i - 1)"
      if "to_upper L (hd a) = ''CONFIG''" "2 \<le> i" "odd i" "even (length a)"
      using same [of "i - 1"] that i by (simp add: credential_at_def)
    then show ?thesis using False one hd len by (auto simp: credential_at_def)
  next
    case True
    have upto_auth: "a' ! k = a ! k"
      if "k < length a" "\<forall>m < k. \<not> equal_fold L (a ! m) ''AUTH''" for k
      using same [OF that(1)] that(2) True by (auto simp: credential_at_def)
    have "auth_index L a' = auth_index L a"
    proof (cases "auth_index L a")
      case None
      then have "a' ! k = a ! k" if "k < length a" for k using upto_auth that by (simp add: auth_index_None)
      then have "a' = a" using len by (intro nth_equalityI) simp_all
      then show ?thesis by simp
    next
      case (Some j)
      then have j: "j < length a" "equal_fold L (a ! j) ''AUTH''" "\<forall>k < j. \<not> equal_fold L (a ! k) ''AUTH''"
        by (auto simp: auth_index_Some)
      have "a' ! k = a ! k" if "k \<le> j" for k using upto_auth [of k] that j by simp
      then have "auth_index L a' = Some j" using j len by (simp add: auth_index_Some)
      then show ?thesis using Some by simp
    qed
    then show ?thesis using True hd unfolding credential_at_def hello_position [symmetric] by simp
  qed
qed

lemma redaction_hides:
  assumes len: "length a' = length a" "2 \<le> length a"
    and same: "\<And>i. i < length a \<Longrightarrow> \<not> credential_at L a i \<Longrightarrow> a' ! i = a ! i"
  shows "fst (redactSensitiveRedisArgs L a') = fst (redactSensitiveRedisArgs L a)"
  using len same credential_positions_agree [OF len same]
  by (intro nth_equalityI) (simp_all add: redact_length redact_nth)

text \<open>A request as it leaves the dissector, apart from the flag that says text was cut.\<close>

fun published :: "pipe_call \<Rightarrow> pipe_call" where
  "published (EnqueueRequest k p req src dst) = EnqueueRequest k p (req\<lparr>pl_Truncated := False\<rparr>) src dst"
| "published x = x"


lemma cap_join_nonempty: "2 \<le> length a \<Longrightarrow> fst (capQuery (join '' '' a)) \<noteq> []"
  by (cases "('' '', a)" rule: join.cases) (auto simp: capQuery_def ellipsis_def)

lemma published_request:
  assumes "rsp_typ v = CHR ''*''" "2 \<le> length (fst (redisArgs v))"
    "\<not> equal_fold L (fst (redisArgs v) ! 0) ''SELECT''"
  shows "map published (fst (redis_request L True c proto raw v db)) =
    (let red = fst (redactSensitiveRedisArgs L (fst (redisArgs v))); cmd = fst (capQuery (join '' '' red))
     in [EnqueueRequest (conn_key c) proto
          (zero_Payload\<lparr>pl_Command := cmd, pl_Summary := truncate_str cmd 160, pl_Raw := raw,
             pl_Redis := Some (zero_RedisDetail\<lparr>redis_Args := red, redis_DBIndex := db\<rparr>)\<rparr>)
          (fst (conn_endpoints c)) (snd (conn_endpoints c))])"
proof -
  obtain a cut where a: "redisArgs v = (a, cut)" by fastforce
  obtain red ok where red: "redactSensitiveRedisArgs L a = (red, ok)" by fastforce
  have "\<not> ok \<Longrightarrow> red = a" using redact_unchanged [of L a] by (simp add: red)
  moreover have "fst (capQuery (join '' '' a)) \<noteq> []" using assms(2) by (intro cap_join_nonempty) (simp add: a)
  ultimately show ?thesis
    using assms by (simp add: redis_request_def a red redisCommandLine_def Let_def case_prod_unfold zero_Payload_def)
qed



abbreviation some_conn :: connID where
  "some_conn \<equiv> \<lparr>srcIP = ''10.0.0.1'', dstIP = ''10.0.0.2'', srcPort = 40000, dstPort = 6379\<rparr>"

abbreviation auth_command :: "string \<Rightarrow> respVal" where
  "auth_command pw \<equiv> aggVal (CHR ''*'') [simpleVal (CHR ''$'') ''AUTH'', simpleVal (CHR ''$'') pw]"


subsection \<open>Pushes\<close>

text \<open>The test for an unsolicited push also takes an ordinary reply for one: an array reply whose first
  element happens to be the word \<open>message\<close>, as \<open>LRANGE\<close> of a list holding it returns, completes
  no request, so on a connection in FIFO pairing every later reply is paired with the request before its own.\<close>

theorem array_reply_taken_for_push:
  "\<exists>kind payload. consumeRedisID ascii_lib redact c raws False proto
      (''*2'' @ crlf @ ''$7'' @ crlf @ ''message'' @ crlf @ ''$1'' @ crlf @ ''x'' @ crlf)
    = [EmitPush (fst (conn_endpoints c)) (snd (conn_endpoints c)) proto kind payload]"
proof -
  let ?v = "aggVal (CHR ''*'') [simpleVal (CHR ''$'') ''message'', simpleVal (CHR ''$'') ''x'']"
  have "itoa 2 = ''2''" "itoa 7 = ''7''" "itoa 1 = ''1''" by code_simp+
  then have enc: "resp_encode ?v = ''*2'' @ crlf @ ''$7'' @ crlf @ ''message'' @ crlf @ ''$1'' @ crlf @ ''x'' @ crlf"
    by simp
  have "resp_ok 0 ?v" by (simp add: resp_line_types_def maxRESPDepth_def maxRESPElements_def maxRESPCapture_def)
  then have "parseRESP (resp_encode ?v) = Inr (?v, [])" using resp_parses_encoded [of 0 ?v "[]"] by (simp add: parseRESP_def)
  then have "read_all parseRESP (resp_encode ?v) = ([?v], [])"
    using read_all_fail [of parseRESP "[]" REOF]
    by (simp add: resp.read_all_more parseRESP_def parseRESPDepth.simps [of "[]"] maxRESPDepth_def del: resp_encode.simps)
  moreover have "isRedisPush ascii_lib ?v" by (simp add: isRedisPush_def to_lower_def is_ascii_def lower_byte_def)
  ultimately show ?thesis unfolding enc [symmetric]
    by (simp add: consumeRedisID_def redis_response_def case_prod_unfold Let_def del: resp_encode.simps)
qed

end
