(* ===== verification/Worker_Url.thy ===== *)
theory Worker_Url
  imports Worker_Resp "HOL-Library.AList"
begin

text \<open>
  What an HTTP entry keeps of the request line and the headers, \<open>internal/worker/pipeline.go\<close>: the query parameters, the request URI and the header
  map with their redaction, and the header tokens that announce a WebSocket.  The functions of \<open>net/url\<close> the code calls, on queries, are
  written out; the map of parameters is a list of distinct keys with their values in order.
\<close>

subsection \<open>Package net/url\<close>

type_synonym url_values = "(string \<times> string list) list"

definition unreserved :: "char \<Rightarrow> bool" where
  "unreserved c \<longleftrightarrow> (48 \<le> byte c \<and> byte c \<le> 57) \<or> (65 \<le> byte c \<and> byte c \<le> 90) \<or> (97 \<le> byte c \<and> byte c \<le> 122) \<or> c \<in> set ''-_.~''"

definition upper_hex :: "nat \<Rightarrow> char" where
  "upper_hex n = (if n < 10 then char_of (48 + n) else char_of (55 + n))"

definition query_escape :: "string \<Rightarrow> string" where
  "query_escape s = concat (map (\<lambda>c. if unreserved c then [c] else if c = CHR '' '' then ''+''
     else [CHR ''%'', upper_hex (byte c div 16), upper_hex (byte c mod 16)]) s)"

definition hex_val :: "char \<Rightarrow> nat option" where
  "hex_val c = (if 48 \<le> byte c \<and> byte c \<le> 57 then Some (byte c - 48) else if 97 \<le> byte c \<and> byte c \<le> 102 then Some (byte c - 87)
     else if 65 \<le> byte c \<and> byte c \<le> 70 then Some (byte c - 55) else None)"

fun query_unescape :: "string \<Rightarrow> string option" where
  "query_unescape [] = Some []"
| "query_unescape (c # s) =
     (if c = CHR ''%'' then
        (case s of a # b # r \<Rightarrow>
           (case (hex_val a, hex_val b) of (Some x, Some y) \<Rightarrow> map_option ((#) (char_of (16 * x + y))) (query_unescape r) | _ \<Rightarrow> None)
         | _ \<Rightarrow> None)
      else map_option ((#) (if c = CHR ''+'' then CHR '' '' else c)) (query_unescape s))"

definition cut_at :: "char \<Rightarrow> string \<Rightarrow> string \<times> string" where
  "cut_at c s = (takeWhile (\<lambda>x. x \<noteq> c) s, tl (dropWhile (\<lambda>x. x \<noteq> c) s))"

fun add_value :: "string \<Rightarrow> string \<Rightarrow> url_values \<Rightarrow> url_values" where
  "add_value k v [] = [(k, [v])]"
| "add_value k v ((k', vs) # q) = (if k' = k then (k', vs @ [v]) # q else (k', vs) # add_value k v q)"

text \<open>One parameter of a query: skipped when empty, an error when it holds a semicolon or a malformed escape.\<close>

definition parse_param :: "string \<Rightarrow> url_values \<times> bool \<Rightarrow> url_values \<times> bool" where
  "parse_param param st = (case st of (q, err) \<Rightarrow>
     if CHR '';'' \<in> set param then (q, True)
     else if param = [] then (q, err)
     else (case cut_at (CHR ''='') param of (k, v) \<Rightarrow>
             (case (query_unescape k, query_unescape v) of (Some k', Some v') \<Rightarrow> (add_value k' v' q, err) | _ \<Rightarrow> (q, True))))"

definition ParseQuery :: "string \<Rightarrow> url_values \<times> bool" where
  "ParseQuery query = fold parse_param (if query = [] then [] else split_on (CHR ''&'') query) ([], False)"

definition Encode :: "url_values \<Rightarrow> string" where
  "Encode q = join ''&'' (concat (map (\<lambda>(k, vs). map (\<lambda>v. query_escape k @ CHR ''='' # query_escape v) vs) (sort_key fst q)))"

record url =
  url_Scheme :: string
  url_Opaque :: string
  url_EscapedPath :: string
  url_ForceQuery :: bool
  url_RawQuery :: string

definition RequestURI :: "url \<Rightarrow> string" where
  "RequestURI u =
     (if url_Opaque u = [] then (if url_EscapedPath u = [] then ''/'' else url_EscapedPath u)
      else if prefix ''//'' (url_Opaque u) then url_Scheme u @ '':'' @ url_Opaque u else url_Opaque u)
     @ (if url_ForceQuery u \<or> url_RawQuery u \<noteq> [] then CHR ''?'' # url_RawQuery u else [])"

subsection \<open>Redaction\<close>

definition sensitiveQueryParams :: "string list" where
  "sensitiveQueryParams = [''access_token'', ''api_key'', ''apikey'', ''auth'', ''client_secret'', ''password'', ''refresh_token'', ''secret'',
     ''session_token'', ''sig'', ''signature'', ''token'']"

definition sensitive_param :: "golib \<Rightarrow> string \<Rightarrow> bool" where
  "sensitive_param L k \<longleftrightarrow> to_lower L k \<in> set sensitiveQueryParams"

text \<open>\<open>None\<close> is the nil map.\<close>

definition parseQuery :: "golib \<Rightarrow> url option \<Rightarrow> bool \<Rightarrow> strmap option" where
  "parseQuery L u redact =
     (case u of None \<Rightarrow> None
      | Some u \<Rightarrow>
          if url_RawQuery u = [] then None
          else (case ParseQuery (url_RawQuery u) of (q, err) \<Rightarrow>
                  if redact \<and> err then None
                  else if q = [] then None
                  else Some (map (\<lambda>(k, v). (k, if redact \<and> sensitive_param L k then redactedValue else join '', '' v)) q)))"

definition redact_values :: "golib \<Rightarrow> url_values \<Rightarrow> url_values" where
  "redact_values L q = map (\<lambda>(k, v). (k, if sensitive_param L k then [redactedValue] else v)) q"

definition redactedRequestURI :: "golib \<Rightarrow> url \<Rightarrow> bool \<Rightarrow> string" where
  "redactedRequestURI L u redact =
     (if \<not> redact \<or> url_RawQuery u = [] then RequestURI u
      else (case ParseQuery (url_RawQuery u) of (q, err) \<Rightarrow>
              if \<not> (err \<or> list_ex (sensitive_param L \<circ> fst) q) then RequestURI u
              else (let path = (if url_EscapedPath u = [] then ''/'' else url_EscapedPath u) in
                    if err then path @ ''?'' @ query_escape redactedValue else path @ ''?'' @ Encode (redact_values L q))))"

definition sensitiveHeaders :: "string list" where
  "sensitiveHeaders = [''authorization'', ''proxy-authorization'', ''cookie'', ''set-cookie'', ''x-api-key'', ''x-auth-token'']"

text \<open>The header map as the list of its entries in the order of the iteration; a later key that lowers to the same name overwrites.\<close>

definition flattenHeaders :: "golib \<Rightarrow> bool \<Rightarrow> url_values \<Rightarrow> strmap" where
  "flattenHeaders L redact h =
     fold (\<lambda>(k, v) out. AList.update (to_lower L k) (if redact \<and> to_lower L k \<in> set sensitiveHeaders then redactedValue else join '', '' v) out) h []"

definition headerHasToken :: "golib \<Rightarrow> string \<Rightarrow> string \<Rightarrow> bool" where
  "headerHasToken L v tok \<longleftrightarrow> list_ex (\<lambda>part. equal_fold L (trim_space part) tok) (split_on (CHR '','') v)"

text \<open>\<open>Header.Get\<close> on canonical keys: the first value.\<close>

definition header_get :: "url_values \<Rightarrow> string \<Rightarrow> string" where
  "header_get h k = (case map_of h k of Some (v # _) \<Rightarrow> v | _ \<Rightarrow> [])"

definition isWebSocketUpgradeRequest :: "golib \<Rightarrow> url_values \<Rightarrow> bool" where
  "isWebSocketUpgradeRequest L h \<longleftrightarrow> equal_fold L (trim_space (header_get h ''Upgrade'')) ''websocket''
     \<and> headerHasToken L (header_get h ''Connection'') ''upgrade''"

definition isWebSocketUpgradeResponse :: "golib \<Rightarrow> url_values \<Rightarrow> bool" where
  "isWebSocketUpgradeResponse L h \<longleftrightarrow> equal_fold L (trim_space (header_get h ''Upgrade'')) ''websocket''"

subsection \<open>Queries read back\<close>

lemma upper_hex_val: "n < 16 \<Longrightarrow> hex_val (upper_hex n) = Some n"
  by (auto simp: upper_hex_def hex_val_def)

lemma unescape_escape: "query_unescape (query_escape s @ t) = map_option ((@) s) (query_unescape t)"
proof (induction s)
  case (Cons c s)
  have "char_of (16 * (byte c div 16) + byte c mod 16) = c" by simp
  moreover have "unreserved c \<Longrightarrow> c \<noteq> CHR ''%'' \<and> c \<noteq> CHR ''+''" by (auto simp: unreserved_def)
  moreover have "byte c div 16 < 16" using byte_less [of c] by linarith
  ultimately show ?case using Cons upper_hex_val [of "byte c div 16"] upper_hex_val [of "byte c mod 16"]
    by (cases "query_unescape t") (auto simp: query_escape_def)
qed (cases "query_unescape t"; simp add: query_escape_def)

lemma escape_plain: "c \<in> set (query_escape s) \<Longrightarrow> unreserved c \<or> c = CHR ''+'' \<or> c = CHR ''%''"
proof -
  have u: "unreserved (upper_hex n)" if "n < 16" for n using that by (auto simp: upper_hex_def unreserved_def)
  have "byte x div 16 < 16" "byte x mod 16 < 16" for x using byte_less [of x] by (linarith, simp)
  then have "unreserved (upper_hex (byte x div 16))" "unreserved (upper_hex (byte x mod 16))" for x by (auto intro: u)
  then show "c \<in> set (query_escape s) \<Longrightarrow> unreserved c \<or> c = CHR ''+'' \<or> c = CHR ''%''"
    by (auto simp: query_escape_def split: if_splits)
qed

lemma escape_no_delims: "CHR ''&'' \<notin> set (query_escape s)" "CHR '';'' \<notin> set (query_escape s)" "CHR ''='' \<notin> set (query_escape s)"
  using escape_plain [of _ s] by (force simp: unreserved_def)+

definition enc_param :: "string \<times> string \<Rightarrow> string" where
  "enc_param p = query_escape (fst p) @ CHR ''='' # query_escape (snd p)"

definition enc_params :: "(string \<times> string) list \<Rightarrow> string" where
  "enc_params ps = join ''&'' (map enc_param ps)"

lemma parse_enc_param: "parse_param (enc_param p) (q, err) = (add_value (fst p) (snd p) q, err)"
proof -
  have "cut_at (CHR ''='') (enc_param p) = (query_escape (fst p), query_escape (snd p))"
  proof -
    have "takeWhile (\<lambda>x. x \<noteq> c) (a @ c # b) = a \<and> dropWhile (\<lambda>x. x \<noteq> c) (a @ c # b) = c # b" if "c \<notin> set a" for a b and c :: char
      using that by (induction a) auto
    then show ?thesis using escape_no_delims(3) [of "fst p"] by (simp add: cut_at_def enc_param_def)
  qed
  moreover have "query_unescape (query_escape s) = Some s" for s using unescape_escape [of s "[]"] by simp
  moreover have "CHR '';'' \<notin> set (enc_param p)" "enc_param p \<noteq> []" using escape_no_delims(2) by (auto simp: enc_param_def)
  ultimately show ?thesis by (simp add: parse_param_def)
qed

lemma split_join: "xs \<noteq> [] \<Longrightarrow> \<forall>x \<in> set xs. c \<notin> set x \<Longrightarrow> split_on c (join [c] xs) = xs"
proof (induction xs rule: induct_list012)
  case (2 x)
  then show ?case by (induction x) auto
next
  case (3 x y xs)
  have "split_on c (x @ c # z) = x # split_on c z" if "c \<notin> set x" for z using that by (induction x) auto
  then show ?case using 3 by simp
qed simp

lemma parse_enc_params: "ParseQuery (enc_params ps) = (fold (\<lambda>p. add_value (fst p) (snd p)) ps [], False)"
proof (cases ps)
  case (Cons p ps')
  have f: "fold parse_param (map enc_param xs) (q, err) = (fold (\<lambda>p. add_value (fst p) (snd p)) xs q, err)" for xs q err
    by (induction xs arbitrary: q) (simp_all add: parse_enc_param)
  have nd: "\<forall>x \<in> set (map enc_param ps). CHR ''&'' \<notin> set x" using escape_no_delims(1) by (auto simp: enc_param_def)
  then have "split_on (CHR ''&'') (enc_params ps) = map enc_param ps" using Cons split_join [of "map enc_param ps" "CHR ''&''"] by (simp add: enc_params_def)
  moreover have "enc_params ps \<noteq> []" using Cons by (cases ps') (simp_all add: enc_params_def enc_param_def)
  ultimately show ?thesis by (simp add: ParseQuery_def f)
qed (simp add: ParseQuery_def enc_params_def)


subsection \<open>What redaction leaves\<close>

definition values_for :: "string \<Rightarrow> (string \<times> string) list \<Rightarrow> string list" where
  "values_for k ps = map snd (filter (\<lambda>p. fst p = k) ps)"

definition collect :: "(string \<times> string) list \<Rightarrow> url_values" where
  "collect ps = fold (\<lambda>p. add_value (fst p) (snd p)) ps []"

lemma map_of_add_value: "map_of (add_value k v q) = (map_of q)(k \<mapsto> (case map_of q k of None \<Rightarrow> [] | Some vs \<Rightarrow> vs) @ [v])"
  by (induction q) auto

lemma add_value_keys: "fst ` set (add_value k v q) = insert k (fst ` set q)" "distinct (map fst q) \<Longrightarrow> distinct (map fst (add_value k v q))"
proof -
  show k: "fst ` set (add_value k v q) = insert k (fst ` set q)" for q
    using dom_map_of_conv_image_fst [of "add_value k v q"] by (simp add: map_of_add_value dom_map_of_conv_image_fst)
  show "distinct (map fst q) \<Longrightarrow> distinct (map fst (add_value k v q))"
  proof (induction q)
    case (Cons kv q)
    then show ?case using k [of q] by (cases kv) (auto simp: image_iff)
  qed simp
qed

lemma collect_lookup: "map_of (collect ps) k = (if k \<in> fst ` set ps then Some (values_for k ps) else None)" "distinct (map fst (collect ps))"
proof (induction ps rule: rev_induct)
  case (snoc p ps)
  have c: "collect (ps @ [p]) = add_value (fst p) (snd p) (collect ps)" by (simp add: collect_def)
  have "values_for k ps = []" if "k \<notin> fst ` set ps" for k using that by (auto simp: values_for_def filter_empty_conv)
  then show "map_of (collect (ps @ [p])) k = (if k \<in> fst ` set (ps @ [p]) then Some (values_for k (ps @ [p])) else None)"
    using snoc(1) by (auto simp: c map_of_add_value values_for_def)
  show "distinct (map fst (collect (ps @ [p])))" using snoc(2) by (simp add: c add_value_keys)
qed (simp_all add: collect_def)

lemma collect_keys: "fst ` set (collect ps) = fst ` set ps"
  by (metis (no_types) collect_lookup(1) map_of_eq_None_iff option.distinct(1) subsetI subset_antisym)

text \<open>The parameters in the order in which \<open>Encode\<close> writes them.\<close>

definition flat_params :: "url_values \<Rightarrow> (string \<times> string) list" where
  "flat_params q = concat (map (\<lambda>(k, vs). map (Pair k) vs) (sort_key fst q))"

lemma Encode_params: "Encode q = enc_params (flat_params q)"
  by (simp add: Encode_def enc_params_def flat_params_def map_concat comp_def case_prod_unfold enc_param_def)

lemma values_for_flat: "distinct (map fst q) \<Longrightarrow> (k, vs) \<in> set q \<Longrightarrow> values_for k (concat (map (\<lambda>(k, vs). map (Pair k) vs) q)) = vs"
proof (induction q)
  case (Cons kv q)
  have none: "values_for k (concat (map (\<lambda>(k, vs). map (Pair k) vs) q)) = []" if "k \<notin> fst ` set q" for k
    using that by (induction q) (auto simp: values_for_def filter_empty_conv)
  have app: "values_for k (xs @ ys) = values_for k xs @ values_for k ys" for xs ys by (simp add: values_for_def)
  have one: "values_for k (map (Pair k') ws) = (if k' = k then ws else [])" for k' ws by (induction ws) (auto simp: values_for_def)
  obtain k' ws where kv: "kv = (k', ws)" by (cases kv)
  show ?case
  proof (cases "k' = k")
    case True
    then have "ws = vs" "k \<notin> fst ` set q" using Cons.prems kv by (auto simp: image_iff)
    then show ?thesis using True kv none by (simp add: app one)
  next
    case False
    then show ?thesis using Cons kv by (simp add: app one)
  qed
qed simp

lemma parse_Encode:
  assumes "distinct (map fst q)" "\<forall>kv \<in> set q. snd kv \<noteq> []"
  shows "\<exists>q'. ParseQuery (Encode q) = (q', False) \<and> map_of q' = map_of q"
proof (intro exI conjI ext)
  show "ParseQuery (Encode q) = (collect (flat_params q), False)" by (simp add: Encode_params parse_enc_params collect_def)
  fix k
  have d: "distinct (map fst (sort_key fst q))" using assms(1) by (simp add: distinct_map inj_on_def)
  have keys: "fst ` set (flat_params q) = fst ` set q" 
  proof -
    have "fst ` set (concat (map (\<lambda>(k, vs). map (Pair k) vs) xs)) = fst ` set xs" if "\<forall>kv \<in> set xs. snd kv \<noteq> []" for xs :: url_values
      using that by (induction xs) (auto simp: image_Un image_image image_constant_conv)
    then show ?thesis using assms(2) by (simp add: flat_params_def)
  qed
  show "map_of (collect (flat_params q)) k = map_of q k"
  proof (cases "map_of q k")
    case None
    then show ?thesis by (metis collect_lookup(1) keys map_of_eq_None_iff)
  next
    case (Some vs)
    then have m: "(k, vs) \<in> set q" by (rule map_of_SomeD)
    then have "(k, vs) \<in> set (sort_key fst q)" by simp
    then have "values_for k (flat_params q) = vs" unfolding flat_params_def by (rule values_for_flat [OF d])
    moreover have "k \<in> fst ` set (flat_params q)" using m keys by force
    ultimately show ?thesis using Some by (simp add: collect_lookup)
  qed
qed

lemma map_of_redact: "map_of (redact_values L q) k = map_option (\<lambda>v. if sensitive_param L k then [redactedValue] else v) (map_of q k)"
  by (induction q) (auto simp: redact_values_def)

text \<open>A request URI with a credential among its parameters is reported with all its parameters: read back, its query gives every parameter of the
  request with its values, those of the credentials replaced by the mark.\<close>

theorem redacted_uri_exact:
  assumes "url_RawQuery u = enc_params ps" "p \<in> set ps" "sensitive_param L (fst p)"
  shows "\<exists>query q. redactedRequestURI L u True = (if url_EscapedPath u = [] then ''/'' else url_EscapedPath u) @ CHR ''?'' # query
    \<and> ParseQuery query = (q, False)
    \<and> (\<forall>k. map_of q k = (if k \<in> fst ` set ps then Some (if sensitive_param L k then [redactedValue] else values_for k ps) else None))"
proof -
  let ?q = "collect ps"
  have pq: "ParseQuery (url_RawQuery u) = (?q, False)" using assms(1) by (simp add: parse_enc_params collect_def)
  have ne: "url_RawQuery u \<noteq> []" using pq assms(2) collect_keys [of ps] by (auto simp: ParseQuery_def)
  have "list_ex (sensitive_param L \<circ> fst) ?q" using assms(2,3) collect_keys [of ps] by (force simp: list_ex_iff)
  then have uri: "redactedRequestURI L u True = (if url_EscapedPath u = [] then ''/'' else url_EscapedPath u) @ ''?'' @ Encode (redact_values L ?q)"
    using pq ne by (simp add: redactedRequestURI_def)
  have d: "distinct (map fst (redact_values L ?q))" using collect_lookup(2) [of ps] by (simp add: redact_values_def comp_def case_prod_unfold)
  have vne: "values_for k ps \<noteq> []" if "k \<in> fst ` set ps" for k using that by (auto simp: values_for_def filter_empty_conv)
  have "v \<noteq> []" if "(k, v) \<in> set ?q" for k v
  proof -
    have "map_of ?q k = Some v" using that collect_lookup(2) [of ps] by simp
    then show ?thesis using vne collect_lookup(1) [of ps k] by (auto split: if_splits)
  qed
  then have "\<forall>kv \<in> set (redact_values L ?q). snd kv \<noteq> []" by (fastforce simp: redact_values_def split: if_splits)
  then obtain q where "ParseQuery (Encode (redact_values L ?q)) = (q, False)" "map_of q = map_of (redact_values L ?q)"
    using parse_Encode [OF d] by auto
  then show ?thesis using uri by (intro exI [of _ "Encode (redact_values L ?q)"] exI [of _ q]) (simp add: map_of_redact collect_lookup)
qed

subsection \<open>What redaction hides\<close>

definition same_values :: "golib \<Rightarrow> url_values \<Rightarrow> url_values \<Rightarrow> bool" where
  "same_values L q q' \<longleftrightarrow> list_all2 (\<lambda>kv kv'. fst kv = fst kv' \<and> (sensitive_param L (fst kv) \<or> snd kv = snd kv')) q q'"

definition same_params :: "golib \<Rightarrow> (string \<times> string) list \<Rightarrow> (string \<times> string) list \<Rightarrow> bool" where
  "same_params L ps ps' \<longleftrightarrow> list_all2 (\<lambda>p p'. fst p = fst p' \<and> (sensitive_param L (fst p) \<or> snd p = snd p')) ps ps'"

lemma same_add_value: "same_values L q q' \<Longrightarrow> sensitive_param L k \<or> v = v' \<Longrightarrow> same_values L (add_value k v q) (add_value k v' q')"
  unfolding same_values_def
proof (induction q q' rule: list_all2_induct)
  case (Cons kv q kv' q')
  then show ?case by (cases kv; cases kv') auto
qed auto

lemma same_collect:
  assumes "same_params L ps ps'"
  shows "same_values L (collect ps) (collect ps')"
proof -
  have "same_values L q q' \<Longrightarrow> same_values L (fold (\<lambda>p. add_value (fst p) (snd p)) ps q) (fold (\<lambda>p. add_value (fst p) (snd p)) ps' q')" for q q'
    using assms unfolding same_params_def
  proof (induction ps ps' arbitrary: q q' rule: list_all2_induct)
    case (Cons p ps p' ps')
    have "same_values L (add_value (fst p) (snd p) q) (add_value (fst p') (snd p') q')"
      using same_add_value [OF Cons.prems, of "fst p" "snd p" "snd p'"] Cons.hyps(1) by auto
    then show ?case using Cons.IH by simp
  qed simp
  then show ?thesis by (simp add: collect_def same_values_def)
qed

lemma same_redacted:
  assumes "same_values L q q'"
  shows "redact_values L q = redact_values L q'" "list_ex (sensitive_param L \<circ> fst) q = list_ex (sensitive_param L \<circ> fst) q'"
    "map (\<lambda>(k, v). (k, if sensitive_param L k then redactedValue else join '', '' v)) q = map (\<lambda>(k, v). (k, if sensitive_param L k then redactedValue else join '', '' v)) q'"
  using assms unfolding same_values_def by (induction q q' rule: list_all2_induct) (auto simp: redact_values_def)

text \<open>With redaction on, neither the reported URI nor the reported parameters depend on the value of any credential of the query.\<close>

lemma query_secrets_hidden:
  fixes u :: url
  assumes "same_params L ps ps'"
  defines "v \<equiv> u\<lparr>url_RawQuery := enc_params ps\<rparr>" and "v' \<equiv> u\<lparr>url_RawQuery := enc_params ps'\<rparr>"
  shows "redactedRequestURI L v True = redactedRequestURI L v' True \<and> parseQuery L (Some v) True = parseQuery L (Some v') True"
proof -
  have same: "same_values L (collect ps) (collect ps')" by (rule same_collect [OF assms(1)])
  have pq: "ParseQuery (enc_params ps) = (collect ps, False)" "ParseQuery (enc_params ps') = (collect ps', False)"
    by (simp_all add: parse_enc_params collect_def)
  have len: "(ps = []) = (ps' = [])" using assms(1) by (auto simp: same_params_def)
  have ne: "(enc_params xs = []) = (xs = [])" for xs
  proof (cases xs)
    case (Cons x xs')
    then show ?thesis by (cases xs') (simp_all add: enc_params_def enc_param_def)
  qed (simp add: enc_params_def)
  have plain: "enc_params ps = enc_params ps'" if "\<not> list_ex (sensitive_param L \<circ> fst) (collect ps)"
  proof -
    have "\<forall>p \<in> set ps. \<not> sensitive_param L (fst p)" using that collect_keys [of ps] by (force simp: list_ex_iff)
    then have "ps = ps'" using assms(1) unfolding same_params_def
      by (auto simp: list_all2_conv_all_nth intro!: nth_equalityI prod_eqI)
    then show ?thesis by simp
  qed
  show ?thesis
    using same_redacted [OF same] plain len by (auto simp: v_def v'_def redactedRequestURI_def parseQuery_def pq ne RequestURI_def)
qed

theorem redacted_uri_exact_witness:
  "\<exists>query q. redactedRequestURI ascii_lib \<lparr>url_Scheme = [], url_Opaque = [], url_EscapedPath = ''/a'', url_ForceQuery = False,
      url_RawQuery = enc_params [(''q'', ''1''), (''token'', ''abc'')]\<rparr> True = ''/a'' @ CHR ''?'' # query
    \<and> ParseQuery query = (q, False) \<and> map_of q ''q'' = Some [''1''] \<and> map_of q ''token'' = Some [redactedValue]"
proof -
  have s: "sensitive_param ascii_lib ''token''" "\<not> sensitive_param ascii_lib ''q''"
    by (simp_all add: sensitive_param_def sensitiveQueryParams_def to_lower_def is_ascii_def lower_byte_def)
  then show ?thesis
    using redacted_uri_exact [of "\<lparr>url_Scheme = [], url_Opaque = [], url_EscapedPath = ''/a'', url_ForceQuery = False,
        url_RawQuery = enc_params [(''q'', ''1''), (''token'', ''abc'')]\<rparr>" "[(''q'', ''1''), (''token'', ''abc'')]" "(''token'', ''abc'')" ascii_lib]
    by (auto simp: values_for_def)
qed
end
