(* ===== verification/Hub_Auth.thy ===== *)
theory Hub_Auth
  imports Worker_Url
begin

text \<open>
  Who may reach the hub, \<open>internal/hub/server.go\<close>: the token classes, where a credential is looked for, and the origin policy of browsers.  A request is what
  these functions read of it; \<open>rq_OriginHost\<close> is the host \<open>url.Parse\<close> finds in the Origin header, or nothing where it fails.
\<close>

record request =
  rq_Method :: string
  rq_Path :: string
  rq_Host :: string
  rq_Header :: url_values
  rq_RawQuery :: string
  rq_OriginHost :: "string option"

record auth =
  sv_apiToken :: string
  sv_workerToken :: string
  sv_adminToken :: string
  sv_allowOrigins :: "string list"

definition query_get :: "request \<Rightarrow> string \<Rightarrow> string" where
  "query_get r k = header_get (fst (ParseQuery (rq_RawQuery r))) k"

subsection \<open>Tokens\<close>

definition acceptedTokens :: "auth \<Rightarrow> string \<Rightarrow> string \<Rightarrow> string list" where
  "acceptedTokens s path method =
     (let otherwise = (if sv_apiToken s = [] then [] else [sv_apiToken s]) in
      if path = ''/ws/worker'' \<or> prefix ''/ws/worker/'' path then
        if sv_workerToken s \<noteq> [] then [sv_workerToken s] else otherwise
      else if method \<noteq> ''GET'' \<and> method \<noteq> ''HEAD'' \<and> prefix ''/api'' path then
        if sv_adminToken s \<noteq> [] then [sv_adminToken s] else otherwise
      else if sv_apiToken s = [] then []
      else if sv_adminToken s \<noteq> [] then [sv_apiToken s, sv_adminToken s]
      else otherwise)"

definition wsBearerPrefix :: string where "wsBearerPrefix = ''bearer.''"

text \<open>The subprotocol that carries the token, or the empty string.\<close>

definition wsBearerProtocol :: "request \<Rightarrow> string" where
  "wsBearerProtocol r =
     (case List.find (prefix wsBearerPrefix) (map trim_space (split_on (CHR '','') (header_get (rq_Header r) ''Sec-WebSocket-Protocol''))) of
        None \<Rightarrow> [] | Some part \<Rightarrow> part)"

definition wsUpgradeHeader :: "request \<Rightarrow> url_values" where
  "wsUpgradeHeader r = (if wsBearerProtocol r \<noteq> [] then [(''Sec-WebSocket-Protocol'', [wsBearerProtocol r])] else [])"

definition presentedToken :: "request \<Rightarrow> string" where
  "presentedToken r =
     (let auth = header_get (rq_Header r) ''Authorization'' in
      if prefix ''Bearer '' auth then drop 7 auth
      else if wsBearerProtocol r \<noteq> [] then drop (length wsBearerPrefix) (wsBearerProtocol r)
      else query_get r ''token'')"

datatype reply = Served | Unauthorized | NoContent

definition guarded :: "string \<Rightarrow> bool" where
  "guarded p \<longleftrightarrow> prefix ''/api/'' p \<or> p = ''/api'' \<or> p = ''/ws'' \<or> prefix ''/ws/'' p"

definition withAuth :: "auth \<Rightarrow> request \<Rightarrow> reply" where
  "withAuth s r =
     (if sv_apiToken s = [] \<and> sv_workerToken s = [] \<and> sv_adminToken s = [] then Served
      else if \<not> guarded (rq_Path r) then Served
      else let accepted = acceptedTokens s (rq_Path r) (rq_Method r) in
        if accepted = [] then Served
        else if presentedToken r \<in> set accepted then Served else Unauthorized)"

subsection \<open>Origins\<close>

definition trim_right_slash :: "string \<Rightarrow> string" where
  "trim_right_slash s = rev (dropWhile (\<lambda>c. c = CHR ''/'') (rev s))"

definition originAllowed :: "golib \<Rightarrow> auth \<Rightarrow> request \<Rightarrow> bool" where
  "originAllowed L s r =
     (let origin = header_get (rq_Header r) ''Origin'' in
      if origin = [] then True
      else if (case rq_OriginHost r of None \<Rightarrow> False | Some h \<Rightarrow> equal_fold L h (rq_Host r)) then True
      else list_ex (\<lambda>allowed. allowed = ''*'' \<or> equal_fold L (trim_right_slash allowed) (trim_right_slash origin)) (sv_allowOrigins s))"

definition cors_headers :: "string \<Rightarrow> strmap" where
  "cors_headers origin =
     [(''Access-Control-Allow-Origin'', origin), (''Vary'', ''Origin''), (''Access-Control-Allow-Methods'', ''GET, POST, OPTIONS''),
      (''Access-Control-Allow-Headers'', ''Authorization, Content-Type'')]"

text \<open>\<open>handler\<close> is \<open>withCORS(withAuth(mux))\<close>: the headers it sets and how the request ends.\<close>

definition withCORS :: "golib \<Rightarrow> auth \<Rightarrow> (request \<Rightarrow> reply) \<Rightarrow> request \<Rightarrow> strmap \<times> reply" where
  "withCORS L s h r =
     (let origin = header_get (rq_Header r) ''Origin'' in
      (if origin \<noteq> [] \<and> originAllowed L s r then cors_headers origin else [],
       if rq_Method r = ''OPTIONS'' then NoContent else h r))"

definition handler :: "golib \<Rightarrow> auth \<Rightarrow> request \<Rightarrow> strmap \<times> reply" where
  "handler L s r = withCORS L s (withAuth s) r"

subsection \<open>What a credential opens\<close>

text \<open>The three kinds of access.\<close>

datatype access = Inject | Control | ReadTraffic

definition access_of :: "request \<Rightarrow> access option" where
  "access_of r =
     (if \<not> guarded (rq_Path r) then None
      else if rq_Path r = ''/ws/worker'' \<or> prefix ''/ws/worker/'' (rq_Path r) then Some Inject
      else if prefix ''/api'' (rq_Path r) \<and> rq_Method r \<notin> {''GET'', ''HEAD''} then Some Control
      else Some ReadTraffic)"

fun opens :: "auth \<Rightarrow> access \<Rightarrow> string \<Rightarrow> bool" where
  "opens s Inject t \<longleftrightarrow> t = sv_workerToken s"
| "opens s Control t \<longleftrightarrow> t = sv_adminToken s"
| "opens s ReadTraffic t \<longleftrightarrow> t = sv_apiToken s \<or> t = sv_adminToken s"

lemma accepted_nonempty: "[] \<notin> set (acceptedTokens s p m)"
  by (simp add: acceptedTokens_def Let_def)

text \<open>C11: With the three tokens set, a request for the hub's data is handled exactly when it presents the token of its kind of access, whatever its path, method and
  headers; one without a credential never is.\<close>

theorem each_token_opens_its_access:
  assumes "sv_apiToken s \<noteq> []" "sv_workerToken s \<noteq> []" "sv_adminToken s \<noteq> []" "rq_Method r \<noteq> ''OPTIONS''" "access_of r = Some a"
  shows "snd (handler L s r) = (if opens s a (presentedToken r) then Served else Unauthorized)
    \<and> (presentedToken r = [] \<longrightarrow> snd (handler L s r) = Unauthorized)"
proof -
  have "presentedToken r \<in> set (acceptedTokens s (rq_Path r) (rq_Method r)) \<longleftrightarrow> opens s a (presentedToken r)"
    using assms by (auto simp: acceptedTokens_def access_of_def Let_def split: if_splits)
  moreover have "acceptedTokens s (rq_Path r) (rq_Method r) \<noteq> []" using assms by (simp add: acceptedTokens_def Let_def)
  moreover have "guarded (rq_Path r)" using assms by (auto simp: access_of_def split: if_splits)
  ultimately have "snd (handler L s r) = (if opens s a (presentedToken r) then Served else Unauthorized)"
    using assms by (simp add: handler_def withCORS_def withAuth_def Let_def)
  moreover have "\<not> opens s a []" using assms by (cases a) auto
  ultimately show ?thesis by auto
qed

text \<open>A web page reads nothing unless its origin is the hub's own or allowed: the answer names an origin exactly then, and never a wildcard; a preflight reaches no
  handler.\<close>

theorem other_origins_read_nothing:
  fixes s :: auth and r :: request
  defines "origin \<equiv> header_get (rq_Header r) ''Origin''"
  shows "map_of (fst (handler L s r)) ''Access-Control-Allow-Origin'' =
      (if origin \<noteq> [] \<and> (rq_OriginHost r \<noteq> None \<and> equal_fold L (the (rq_OriginHost r)) (rq_Host r) \<or> ''*'' \<in> set (sv_allowOrigins s)
          \<or> (\<exists>a \<in> set (sv_allowOrigins s). equal_fold L (trim_right_slash a) (trim_right_slash origin))) then Some origin else None)
    \<and> (rq_Method r = ''OPTIONS'' \<longrightarrow> snd (handler L s r) = NoContent)"
  by (auto simp: handler_def withCORS_def originAllowed_def cors_headers_def origin_def Let_def list_ex_iff split: option.splits)

subsection \<open>Where a credential is found\<close>

definition token_char :: "char \<Rightarrow> bool" where
  "token_char c \<longleftrightarrow> 33 \<le> byte c \<and> byte c < 127 \<and> c \<noteq> CHR '',''"

lemma drop_space_ascii: "list_all token_char s \<Longrightarrow> rune_chunks s = map (\<lambda>c. (byte c, [c])) s"
  by (induction s) (simp_all add: rune_chunks_ascii token_char_def)

lemma trim_token:
  assumes "list_all token_char s"
  shows "trim_space s = s" "trim_space (CHR '' '' # s) = s"
proof -
  have d: "dropWhile (is_space_rune \<circ> fst) (map (\<lambda>c. (byte c, [c])) t) = map (\<lambda>c. (byte c, [c])) t" if "list_all token_char t" for t
    using that by (cases t) (auto simp: token_char_def is_space_rune_def)
  have "list_all token_char (rev s)" using assms by simp
  note d [OF this] d [OF assms]
  moreover have "concat (map (\<lambda>c. [c]) s) = s" by (induction s) simp_all
  ultimately show "trim_space s = s" "trim_space (CHR '' '' # s) = s"
    by (simp_all add: trim_space_def drop_space_ascii [OF assms] rev_map rune_chunks_ascii is_space_rune_def comp_def)
qed


lemma join_first: "join sep ((c # x) # xs) = c # join sep (x # xs)"
  by (cases xs) simp_all

lemma join_spaced: "join '', '' (x # xs) = join [CHR '',''] (x # map ((#) (CHR '' '')) xs)"
  by (induction xs arbitrary: x) (simp_all add: join_first)

lemma split_list_header:
  assumes "list_all (list_all token_char) ps" "ps \<noteq> []"
  shows "map trim_space (split_on (CHR '','') (join '', '' ps)) = ps"
proof -
  obtain x xs where ps: "ps = x # xs" using assms(2) by (cases ps) auto
  have "\<forall>y \<in> set (x # map ((#) (CHR '' '')) xs). CHR '','' \<notin> set y"
    using assms(1) by (auto simp: ps list_all_iff token_char_def)
  then have "split_on (CHR '','') (join '', '' ps) = x # map ((#) (CHR '' '')) xs"
    unfolding ps join_spaced by (intro split_join) auto
  moreover have "map (trim_space \<circ> (#) (CHR '' '')) xs = xs"
    using assms(1) trim_token(2) by (auto simp: ps list_all_iff intro!: map_idI)
  ultimately show ?thesis using assms(1) trim_token(1) by (simp add: ps)
qed

lemma protocol_found:
  assumes "header_get (rq_Header r) ''Sec-WebSocket-Protocol'' = join '', '' (ps @ (wsBearerPrefix @ t) # qs)"
    "list_all (list_all token_char) (t # ps @ qs)" "list_all (\<lambda>p. \<not> prefix wsBearerPrefix p) ps"
  shows "wsBearerProtocol r = wsBearerPrefix @ t"
proof -
  have "list_all token_char wsBearerPrefix" by (simp add: wsBearerPrefix_def token_char_def)
  then have "map trim_space (split_on (CHR '','') (header_get (rq_Header r) ''Sec-WebSocket-Protocol'')) = ps @ (wsBearerPrefix @ t) # qs"
    unfolding assms(1) using assms(2) by (intro split_list_header) auto
  moreover have "List.find (prefix wsBearerPrefix) (ps @ (wsBearerPrefix @ t) # qs) = Some (wsBearerPrefix @ t)"
    using assms(3) by (induction ps) auto
  ultimately show ?thesis by (simp add: wsBearerProtocol_def)
qed

text \<open>Wherever a client puts its token, in the header, among the offered subprotocols or escaped in the query, the hub reads that token; a token sent as a subprotocol
  is the one the upgrade acknowledges.\<close>

theorem token_found_where_sent:
  assumes "list_all token_char t"
  shows "(header_get (rq_Header r) ''Authorization'' = ''Bearer '' @ t \<longrightarrow> presentedToken r = t)
    \<and> (header_get (rq_Header r) ''Authorization'' = [] \<longrightarrow> list_all (list_all token_char) (ps @ qs) \<longrightarrow> list_all (\<lambda>p. \<not> prefix wsBearerPrefix p) ps
      \<longrightarrow> header_get (rq_Header r) ''Sec-WebSocket-Protocol'' = join '', '' (ps @ (wsBearerPrefix @ t) # qs)
      \<longrightarrow> presentedToken r = t \<and> wsUpgradeHeader r = [(''Sec-WebSocket-Protocol'', [wsBearerPrefix @ t])])
    \<and> (rq_Header r = [] \<longrightarrow> rq_RawQuery r = enc_params (before @ (''token'', t) # after) \<longrightarrow> ''token'' \<notin> fst ` set before \<longrightarrow> presentedToken r = t)"
proof -
  have "presentedToken r = t" if "header_get (rq_Header r) ''Authorization'' = ''Bearer '' @ t" using that by (simp add: presentedToken_def)
  moreover have "presentedToken r = t \<and> wsUpgradeHeader r = [(''Sec-WebSocket-Protocol'', [wsBearerPrefix @ t])]"
    if "header_get (rq_Header r) ''Authorization'' = []" "list_all (list_all token_char) (ps @ qs)" "list_all (\<lambda>p. \<not> prefix wsBearerPrefix p) ps"
      "header_get (rq_Header r) ''Sec-WebSocket-Protocol'' = join '', '' (ps @ (wsBearerPrefix @ t) # qs)"
  proof -
    have "wsBearerProtocol r = wsBearerPrefix @ t" using protocol_found [OF that(4) _ that(3)] assms that(2) by simp
    then show ?thesis using that(1) by (simp add: presentedToken_def wsUpgradeHeader_def wsBearerPrefix_def)
  qed
  moreover have "presentedToken r = t" if "rq_Header r = []" "rq_RawQuery r = enc_params (before @ (''token'', t) # after)" "''token'' \<notin> fst ` set before"
  proof -
    let ?ps = "before @ (''token'', t) # after"
    have "fst (ParseQuery (rq_RawQuery r)) = collect ?ps" by (simp add: that(2) parse_enc_params collect_def)
    moreover have "values_for ''token'' ?ps = t # values_for ''token'' after" using that(3) by (force simp: values_for_def filter_empty_conv)
    moreover have "wsBearerProtocol r = []"
      using trim_token(1) [of "[]"] by (simp add: wsBearerProtocol_def that(1) header_get_def wsBearerPrefix_def)
    ultimately show ?thesis using collect_lookup(1) [of ?ps "''token''"] by (simp add: presentedToken_def query_get_def that(1) header_get_def)
  qed
  ultimately show ?thesis by blast
qed

definition example_auth :: auth where
  "example_auth = \<lparr>sv_apiToken = ''read'', sv_workerToken = ''work'', sv_adminToken = ''root'', sv_allowOrigins = []\<rparr>"

definition example_request :: "string \<Rightarrow> string \<Rightarrow> url_values \<Rightarrow> request" where
  "example_request m p h = \<lparr>rq_Method = m, rq_Path = p, rq_Host = ''hub'', rq_Header = h, rq_RawQuery = ''a=1&token=read'', rq_OriginHost = None\<rparr>"

theorem each_token_opens_its_access_witness:
  "snd (handler ascii_lib example_auth (example_request ''POST'' ''/api/workers/capture'' [(''Authorization'', [''Bearer read''])])) = Unauthorized
    \<and> snd (handler ascii_lib example_auth (example_request ''GET'' ''/api/entries'' [])) = Served"
proof -
  have q: "ParseQuery ''a=1&token=read'' = ([(''a'', [''1'']), (''token'', [''read''])], False)"
    by (simp add: ParseQuery_def parse_param_def cut_at_def)
  have p: "presentedToken (example_request ''POST'' ''/api/workers/capture'' [(''Authorization'', [''Bearer read''])]) = ''read''"
    by (simp add: presentedToken_def example_request_def header_get_def)
  have p2: "presentedToken (example_request ''GET'' ''/api/entries'' []) = ''read''"
    using trim_token(1) [of "[]"] by (simp add: presentedToken_def example_request_def header_get_def wsBearerProtocol_def wsBearerPrefix_def query_get_def q)
  have "access_of (example_request ''POST'' ''/api/workers/capture'' h) = Some Control" for h
    by (simp add: access_of_def example_request_def guarded_def)
  moreover have "access_of (example_request ''GET'' ''/api/entries'' h) = Some ReadTraffic" for h
    by (simp add: access_of_def example_request_def guarded_def)
  moreover have "rq_Method (example_request m p h) = m" for m p h by (simp add: example_request_def)
  moreover have "sv_apiToken example_auth = ''read''" "sv_workerToken example_auth = ''work''" "sv_adminToken example_auth = ''root''" by (simp_all add: example_auth_def)
  ultimately show ?thesis
    using each_token_opens_its_access [of example_auth "example_request ''POST'' ''/api/workers/capture'' [(''Authorization'', [''Bearer read''])]" Control ascii_lib]
      each_token_opens_its_access [of example_auth "example_request ''GET'' ''/api/entries'' []" ReadTraffic ascii_lib]
    by (simp add: p p2)
qed

theorem token_found_where_sent_witness:
  "presentedToken (example_request ''GET'' ''/ws'' [(''Sec-WebSocket-Protocol'', [''bearer.read''])]) = ''read''"
proof -
  let ?r = "example_request ''GET'' ''/ws'' [(''Sec-WebSocket-Protocol'', [''bearer.read''])]"
  have "header_get (rq_Header ?r) ''Sec-WebSocket-Protocol'' = join '', '' ([] @ (wsBearerPrefix @ ''read'') # [])" "header_get (rq_Header ?r) ''Authorization'' = []"
    by (simp_all add: example_request_def header_get_def wsBearerPrefix_def)
  then show ?thesis using token_found_where_sent [of "''read''" ?r "[]" "[]"] by (simp add: token_char_def)
qed

end
