(* ===== verification/Hub_Workers.thy ===== *)
theory Hub_Workers
  imports Hub_Summary "HOL-Library.AList"
begin

text \<open>
  The hub's registry of workers, \<open>internal/hub/server.go\<close>: the rows behind \<open>/api/workers\<close>, the connections and the commands sent down them.  Rows are shared
  between the registry and the connections that credit entries to them, so they live in a list of cells and are named by their index.  Connections are the
  goroutines of \<open>handleWorker\<close>; a run is a sequence of their messages, disconnections, sweeps and commands, each in one piece.  What \<open>ingest\<close> does with an entry is
  elsewhere; here it is a history.
\<close>

record workerInfo =
  wi_Node :: string
  wi_Version :: string
  wi_Connected :: bool
  wi_ConnectedAt :: time
  wi_LastSeen :: time
  wi_Entries :: int
  wi_Dropped :: nat
  wi_CaptureLive :: bool
  wi_CaptureTLS :: bool
  wi_CapturePaused :: bool
  wi_RingPackets :: nat
  wi_RingDrops :: nat
  wi_FlowsEvicted :: nat
  wi_TLSLagDrops :: nat
  wi_TCPLossEvents :: nat
  wi_TLSBudgetDrops :: nat

record workerEntry =
  we_info :: workerInfo
  we_entries :: int
  we_lastSeen :: int

definition new_row :: "string \<Rightarrow> workerEntry" where
  "new_row node = \<lparr>we_info = \<lparr>wi_Node = node, wi_Version = [], wi_Connected = False, wi_ConnectedAt = zero_time, wi_LastSeen = zero_time, wi_Entries = 0,
     wi_Dropped = 0, wi_CaptureLive = False, wi_CaptureTLS = False, wi_CapturePaused = False, wi_RingPackets = 0, wi_RingDrops = 0, wi_FlowsEvicted = 0,
     wi_TLSLagDrops = 0, wi_TCPLossEvents = 0, wi_TLSBudgetDrops = 0\<rparr>, we_entries = 0, we_lastSeen = 0\<rparr>"

definition lastSeenTime :: "workerEntry \<Rightarrow> time" where
  "lastSeenTime we = (if we_lastSeen we \<noteq> 0 \<and> we_lastSeen we > wi_LastSeen (we_info we) then we_lastSeen we else wi_LastSeen (we_info we))"

definition worker_row_snapshot :: "workerEntry \<Rightarrow> workerInfo" where
  "worker_row_snapshot we = (we_info we)\<lparr>wi_Entries := wi_Entries (we_info we) + we_entries we, wi_LastSeen := lastSeenTime we\<rparr>"

text \<open>A connection: the node it said it is, its row, the commands waiting for its writer and whether the channel is open; \<open>wc_names\<close> is history.\<close>

record worker_conn =
  wc_node :: string
  wc_row :: "nat option"
  wc_send :: "bool list"
  wc_open :: bool
  wc_names :: "string list"

record registry =
  rg_rows :: "workerEntry list"
  rg_workers :: "(string \<times> nat) list"
  rg_conns :: "worker_conn list"
  rg_workerConns :: "(string \<times> nat) list"
  rg_workerCount :: int
  rg_ingested :: "(nat option \<times> Entry) list"

definition new_registry :: registry where
  "new_registry = \<lparr>rg_rows = [], rg_workers = [], rg_conns = [], rg_workerConns = [], rg_workerCount = 0, rg_ingested = []\<rparr>"

definition workerGCTTL :: int where "workerGCTTL = 3600000000000"

subsection \<open>Rows\<close>

definition workerRow :: "string \<Rightarrow> registry \<Rightarrow> nat option \<times> registry" where
  "workerRow node s =
     (if node = [] \<or> node = ''unknown'' then (None, s)
      else (case map_of (rg_workers s) node of
              Some a \<Rightarrow> (Some a, s)
            | None \<Rightarrow> let a = length (rg_rows s) in
                (Some a, s\<lparr>rg_rows := rg_rows s @ [new_row node], rg_workers := (node, a) # rg_workers s\<rparr>)))"

definition workerUpdate :: "string \<Rightarrow> (workerInfo \<Rightarrow> workerInfo) \<Rightarrow> registry \<Rightarrow> registry" where
  "workerUpdate node f s =
     (case workerRow node s of
        (None, s1) \<Rightarrow> s1
      | (Some a, s1) \<Rightarrow> let we = rg_rows s1 ! a in s1\<lparr>rg_rows := (rg_rows s1)[a := we\<lparr>we_info := f (we_info we)\<rparr>]\<rparr>)"

definition recordWorkerEntries :: "nat option \<Rightarrow> nat \<Rightarrow> time \<Rightarrow> registry \<Rightarrow> registry" where
  "recordWorkerEntries row n now s =
     (case row of None \<Rightarrow> s
      | Some a \<Rightarrow> if n = 0 then s
          else let we = rg_rows s ! a in s\<lparr>rg_rows := (rg_rows s)[a := we\<lparr>we_entries := we_entries we + int n, we_lastSeen := now\<rparr>]\<rparr>)"

definition gcWorkers :: "time \<Rightarrow> registry \<Rightarrow> registry" where
  "gcWorkers now s =
     s\<lparr>rg_workers := filter (\<lambda>(node, a). \<not> (\<not> wi_Connected (we_info (rg_rows s ! a)) \<and> lastSeenTime (rg_rows s ! a) < now - workerGCTTL)) (rg_workers s)\<rparr>"

definition workerSnapshot :: "registry \<Rightarrow> workerInfo list" where
  "workerSnapshot s = sort_slice (\<lambda>a b. wi_Node a < wi_Node b) (map (\<lambda>(node, a). worker_row_snapshot (rg_rows s ! a)) (rg_workers s))"

subsection \<open>Connections\<close>

datatype worker_msg =
    MsgHello "(string \<times> string) option"
  | MsgEntry "Entry option"
  | MsgEntryBatch "Entry option list"
  | MsgWorkerStats "WorkerStats option"
  | MsgUnknown

definition worker_connect :: "registry \<Rightarrow> registry" where
  "worker_connect s = s\<lparr>rg_conns := rg_conns s @ [\<lparr>wc_node = ''unknown'', wc_row = None, wc_send = [], wc_open = True, wc_names = []\<rparr>],
     rg_workerCount := rg_workerCount s + 1\<rparr>"

definition worker_hello :: "nat \<Rightarrow> string \<Rightarrow> string \<Rightarrow> time \<Rightarrow> registry \<Rightarrow> registry" where
  "worker_hello c node version now s =
     (case workerRow node s of (row, s1) \<Rightarrow>
        let s2 = workerUpdate node (\<lambda>wi. wi\<lparr>wi_Version := version, wi_Connected := True, wi_ConnectedAt := now, wi_LastSeen := now\<rparr>) s1 in
        s2\<lparr>rg_conns := (rg_conns s2)[c := (rg_conns s2 ! c)\<lparr>wc_node := node, wc_row := row, wc_names := node # wc_names (rg_conns s2 ! c)\<rparr>],
          rg_workerConns := AList.update node c (rg_workerConns s2)\<rparr>)"

definition ingest_entries :: "nat \<Rightarrow> Entry list \<Rightarrow> time \<Rightarrow> registry \<Rightarrow> registry" where
  "ingest_entries c es now s =
     (let row = wc_row (rg_conns s ! c) in
      recordWorkerEntries row (length es) now (s\<lparr>rg_ingested := rg_ingested s @ map (Pair row) es\<rparr>))"

definition worker_stats :: "WorkerStats \<Rightarrow> time \<Rightarrow> workerInfo \<Rightarrow> workerInfo" where
  "worker_stats ws now wi = wi\<lparr>wi_Dropped := ws_Dropped ws, wi_CaptureLive := ws_CaptureLive ws, wi_CaptureTLS := ws_CaptureTLS ws,
     wi_CapturePaused := ws_CapturePaused ws, wi_RingPackets := ws_RingPackets ws, wi_RingDrops := ws_RingDrops ws, wi_FlowsEvicted := ws_FlowsEvicted ws,
     wi_TLSLagDrops := ws_TLSLagDrops ws, wi_TLSBudgetDrops := ws_TLSBudgetDrops ws, wi_TCPLossEvents := ws_TCPLossEvents ws, wi_LastSeen := now\<rparr>"

definition worker_message :: "nat \<Rightarrow> worker_msg \<Rightarrow> time \<Rightarrow> registry \<Rightarrow> registry" where
  "worker_message c msg now s =
     (if \<not> (c < length (rg_conns s) \<and> wc_open (rg_conns s ! c)) then s
      else (case msg of
              MsgHello (Some (node, version)) \<Rightarrow> worker_hello c node version now s
            | MsgEntry (Some e) \<Rightarrow> ingest_entries c [e] now s
            | MsgEntryBatch es \<Rightarrow> ingest_entries c (map the (filter (\<lambda>e. e \<noteq> None) es)) now s
            | MsgWorkerStats (Some ws) \<Rightarrow> workerUpdate (wc_node (rg_conns s ! c)) (worker_stats ws now) s
            | _ \<Rightarrow> s))"

definition worker_disconnect :: "nat \<Rightarrow> registry \<Rightarrow> registry" where
  "worker_disconnect c s =
     (if \<not> (c < length (rg_conns s) \<and> wc_open (rg_conns s ! c)) then s
      else let node = wc_node (rg_conns s ! c); s1 = workerUpdate node (\<lambda>wi. wi\<lparr>wi_Connected := False\<rparr>) s in
        s1\<lparr>rg_workerConns := (if map_of (rg_workerConns s1) node = Some c then AList.delete node (rg_workerConns s1) else rg_workerConns s1),
          rg_conns := (rg_conns s1)[c := (rg_conns s1 ! c)\<lparr>wc_open := False\<rparr>], rg_workerCount := rg_workerCount s1 - 1\<rparr>)"

text \<open>One delivery; a send on a closed channel panics.\<close>

fun deliver :: "bool \<Rightarrow> nat \<Rightarrow> (worker_conn list \<times> nat) option \<Rightarrow> (worker_conn list \<times> nat) option" where
  "deliver p c None = None"
| "deliver p c (Some (conns, sent)) =
     (if \<not> wc_open (conns ! c) then None
      else if length (wc_send (conns ! c)) < 8 then Some (conns[c := (conns ! c)\<lparr>wc_send := wc_send (conns ! c) @ [p]\<rparr>], sent + 1)
      else Some (conns, sent))"

definition sendWorkerCommand :: "string \<Rightarrow> bool \<Rightarrow> registry \<Rightarrow> (nat \<times> registry) option" where
  "sendWorkerCommand node p s =
     (let targets = (if node = [] then map snd (rg_workerConns s) else (case map_of (rg_workerConns s) node of None \<Rightarrow> [] | Some c \<Rightarrow> [c])) in
      map_option (\<lambda>(conns, sent). (sent, s\<lparr>rg_conns := conns\<rparr>)) (fold (deliver p) targets (Some (rg_conns s, 0))))"

definition worker_written :: "nat \<Rightarrow> registry \<Rightarrow> registry" where
  "worker_written c s = s\<lparr>rg_conns := (rg_conns s)[c := (rg_conns s ! c)\<lparr>wc_send := tl (wc_send (rg_conns s ! c))\<rparr>]\<rparr>"

datatype registry_event = Connected | Message nat worker_msg time | Disconnected nat | Swept time | Commanded string bool | Written nat

definition registry_step :: "registry_event \<Rightarrow> registry \<Rightarrow> registry" where
  "registry_step ev s =
     (case ev of
        Connected \<Rightarrow> worker_connect s
      | Message c msg now \<Rightarrow> worker_message c msg now s
      | Disconnected c \<Rightarrow> worker_disconnect c s
      | Swept now \<Rightarrow> gcWorkers now s
      | Commanded node p \<Rightarrow> (case sendWorkerCommand node p s of None \<Rightarrow> s | Some (_, s') \<Rightarrow> s')
      | Written c \<Rightarrow> worker_written c s)"

definition registry_run :: "registry_event list \<Rightarrow> registry" where
  "registry_run evs = fold registry_step evs new_registry"

subsection \<open>What every run keeps\<close>

definition credited :: "nat \<Rightarrow> registry \<Rightarrow> int" where
  "credited a s = int (length (filter (\<lambda>(row, e). row = Some a) (rg_ingested s)))"

text \<open>A row belongs to one node, and holds the number of the entries credited to it.\<close>

definition rows_ok :: "registry \<Rightarrow> bool" where
  "rows_ok s \<longleftrightarrow> distinct (map fst (rg_workers s))
     \<and> (\<forall>(node, a) \<in> set (rg_workers s). a < length (rg_rows s) \<and> wi_Node (we_info (rg_rows s ! a)) = node)
     \<and> (\<forall>a < length (rg_rows s). we_entries (rg_rows s ! a) = credited a s \<and> wi_Entries (we_info (rg_rows s ! a)) = 0)
     \<and> (\<forall>(row, e) \<in> set (rg_ingested s). \<forall>a. row = Some a \<longrightarrow> a < length (rg_rows s))"

text \<open>The names of the cells, which only grow.\<close>

definition row_names :: "registry \<Rightarrow> string list" where
  "row_names s = map (wi_Node \<circ> we_info) (rg_rows s)"

definition conn_ok :: "string list \<Rightarrow> worker_conn \<Rightarrow> bool" where
  "conn_ok names c \<longleftrightarrow> length (wc_send c) \<le> 8 \<and> (\<forall>a. wc_row c = Some a \<longrightarrow> a < length names \<and> names ! a = wc_node c)"

definition links_ok :: "worker_conn list \<Rightarrow> (string \<times> nat) list \<Rightarrow> bool" where
  "links_ok conns links \<longleftrightarrow> distinct (map fst links)
     \<and> (\<forall>node c. map_of links node = Some c \<longrightarrow> c < length conns \<and> node \<in> set (wc_names (conns ! c)) \<and> (wc_open (conns ! c) \<or> node \<noteq> wc_node (conns ! c)))"

definition conns_ok :: "registry \<Rightarrow> bool" where
  "conns_ok s \<longleftrightarrow> list_all (conn_ok (row_names s)) (rg_conns s) \<and> links_ok (rg_conns s) (rg_workerConns s)
     \<and> rg_workerCount s = int (length (filter wc_open (rg_conns s)))"


lemma workerRow_same:
  "rg_conns (snd (workerRow node s)) = rg_conns s" "rg_workerConns (snd (workerRow node s)) = rg_workerConns s"
  "rg_workerCount (snd (workerRow node s)) = rg_workerCount s" "rg_ingested (snd (workerRow node s)) = rg_ingested s"
  by (simp_all add: workerRow_def Let_def split: option.split)

lemma workerRow_prefix: "\<exists>xs. rg_rows (snd (workerRow node s)) = rg_rows s @ xs"
  by (simp add: workerRow_def Let_def split: option.split)

lemma workerRow_again: "workerRow node (snd (workerRow node s)) = (fst (workerRow node s), snd (workerRow node s))"
  by (auto simp: workerRow_def Let_def split: option.split)

lemma credited_fresh: "rows_ok s \<Longrightarrow> length (rg_rows s) \<le> a \<Longrightarrow> credited a s = 0"
  by (force simp: rows_ok_def credited_def filter_empty_conv)

lemma workerRow_ok:
  assumes "rows_ok s"
  shows "rows_ok (snd (workerRow node s))
    \<and> (case fst (workerRow node s) of None \<Rightarrow> True
       | Some a \<Rightarrow> a < length (rg_rows (snd (workerRow node s))) \<and> wi_Node (we_info (rg_rows (snd (workerRow node s)) ! a)) = node)"
proof (cases "node = [] \<or> node = ''unknown'' \<or> map_of (rg_workers s) node \<noteq> None")
  case True
  then have same: "snd (workerRow node s) = s" and row: "fst (workerRow node s) = (if node = [] \<or> node = ''unknown'' then None else map_of (rg_workers s) node)"
    by (auto simp: workerRow_def split: option.split)
  show ?thesis unfolding same row using assms by (auto simp: rows_ok_def dest!: map_of_SomeD split: option.split)
next
  case False
  let ?s = "s\<lparr>rg_rows := rg_rows s @ [new_row node], rg_workers := (node, length (rg_rows s)) # rg_workers s\<rparr>"
  have w: "workerRow node s = (Some (length (rg_rows s)), ?s)" using False by (auto simp: workerRow_def Let_def)
  have c: "credited a ?s = credited a s" for a by (simp add: credited_def)
  have "node \<notin> fst ` set (rg_workers s)" using False by (simp add: map_of_eq_None_iff)
  moreover have "\<forall>(n, a) \<in> set (rg_workers s). a < length (rg_rows s) \<and> wi_Node (we_info (rg_rows s ! a)) = n"
    "\<forall>a < length (rg_rows s). we_entries (rg_rows s ! a) = credited a s \<and> wi_Entries (we_info (rg_rows s ! a)) = 0"
    "\<forall>(row, e) \<in> set (rg_ingested s). \<forall>a. row = Some a \<longrightarrow> a < length (rg_rows s)" "distinct (map fst (rg_workers s))"
    using assms by (simp_all add: rows_ok_def)
  ultimately have "rows_ok ?s" using credited_fresh [OF assms]
    unfolding rows_ok_def c by (force simp: nth_append new_row_def less_Suc_eq split: option.splits)
  then show ?thesis by (simp add: w new_row_def)
qed

definition keeps_identity :: "(workerInfo \<Rightarrow> workerInfo) \<Rightarrow> bool" where
  "keeps_identity f \<longleftrightarrow> (\<forall>wi. wi_Node (f wi) = wi_Node wi \<and> wi_Entries (f wi) = wi_Entries wi)"

lemma change_row_ok:
  assumes "rows_ok s" "a < length (rg_rows s)" "wi_Node (we_info we) = wi_Node (we_info (rg_rows s ! a))" "wi_Entries (we_info we) = 0"
    "we_entries we = we_entries (rg_rows s ! a)"
  shows "rows_ok (s\<lparr>rg_rows := (rg_rows s)[a := we]\<rparr>)"
proof -
  have c: "credited b (s\<lparr>rg_rows := xs\<rparr>) = credited b s" for b xs by (simp add: credited_def)
  show ?thesis using assms unfolding rows_ok_def c by (auto simp: nth_list_update split: option.splits)
qed

lemma workerUpdate_same:
  "rg_conns (workerUpdate node f s) = rg_conns s" "rg_workerConns (workerUpdate node f s) = rg_workerConns s"
  "rg_workerCount (workerUpdate node f s) = rg_workerCount s" "rg_ingested (workerUpdate node f s) = rg_ingested s"
  using workerRow_same [of node s] by (cases "workerRow node s"; cases "fst (workerRow node s)"; simp add: workerUpdate_def Let_def)+

lemma workerUpdate_ok:
  assumes "rows_ok s" "keeps_identity f"
  shows "rows_ok (workerUpdate node f s)"
proof (cases "fst (workerRow node s)")
  case None
  then show ?thesis using workerRow_ok [OF assms(1), of node] by (cases "workerRow node s") (simp add: workerUpdate_def)
next
  case (Some a)
  let ?s = "snd (workerRow node s)"
  have "rows_ok ?s" "a < length (rg_rows ?s)" using workerRow_ok [OF assms(1), of node] Some by auto
  moreover from this have "wi_Entries (we_info (rg_rows ?s ! a)) = 0" by (simp add: rows_ok_def)
  moreover have "workerUpdate node f s = ?s\<lparr>rg_rows := (rg_rows ?s)[a := (rg_rows ?s ! a)\<lparr>we_info := f (we_info (rg_rows ?s ! a))\<rparr>]\<rparr>"
    using Some by (cases "workerRow node s") (simp add: workerUpdate_def Let_def)
  ultimately show ?thesis using assms(2) change_row_ok [of ?s a "(rg_rows ?s ! a)\<lparr>we_info := f (we_info (rg_rows ?s ! a))\<rparr>"]
    by (simp add: keeps_identity_def)
qed

lemma workerUpdate_names: "rows_ok s \<Longrightarrow> keeps_identity f \<Longrightarrow> row_names (workerUpdate node f s) = row_names (snd (workerRow node s))"
proof (cases "workerRow node s")
  case (Pair r s1)
  assume s: "rows_ok s" "keeps_identity f"
  show ?thesis
  proof (cases r)
    case (Some a)
    then have "a < length (rg_rows s1)" using workerRow_ok [OF s(1), of node] Pair by auto
    then show ?thesis using s(2) Some Pair
      by (simp add: workerUpdate_def Let_def row_names_def map_update list_update_same_conv keeps_identity_def)
  qed (simp add: workerUpdate_def Pair)
qed

lemma workerRow_names: "\<exists>xs. row_names (snd (workerRow node s)) = row_names s @ xs"
  using workerRow_prefix [of node s] by (auto simp: row_names_def)

lemma conn_ok_more: "conn_ok names c \<Longrightarrow> conn_ok (names @ xs) c"
  by (auto simp: conn_ok_def nth_append split: option.splits)

lemma conns_ok_update:
  assumes "conns_ok s" "rows_ok s" "keeps_identity f"
  shows "conns_ok (workerUpdate node f s)"
proof -
  obtain xs where "row_names (workerUpdate node f s) = row_names s @ xs"
    using workerUpdate_names [OF assms(2,3), of node] workerRow_names [of node s] by auto
  then show ?thesis using assms(1) conn_ok_more by (auto simp: conns_ok_def workerUpdate_same list_all_iff)
qed

lemma open_count: "length (filter wc_open cs) = length (filter id (map wc_open cs))"
  by (simp add: filter_map)

lemma change_conn_ok:
  assumes "conns_ok s" "c < length (rg_conns s)" "conn_ok (row_names s) x" "wc_open x = wc_open (rg_conns s ! c)"
    "wc_names x = wc_names (rg_conns s ! c)" "wc_node x = wc_node (rg_conns s ! c)"
  shows "conns_ok (s\<lparr>rg_conns := (rg_conns s)[c := x]\<rparr>)"
proof -
  have same: "wc_open ((rg_conns s)[c := x] ! i) = wc_open (rg_conns s ! i)" "wc_names ((rg_conns s)[c := x] ! i) = wc_names (rg_conns s ! i)"
    "wc_node ((rg_conns s)[c := x] ! i) = wc_node (rg_conns s ! i)" for i
    using assms(2,4-6) by (cases "i = c"; simp)+
  have "map wc_open ((rg_conns s)[c := x]) = map wc_open (rg_conns s)" using assms(2,4) by (simp add: map_update list_update_same_conv)
  then have "length (filter wc_open ((rg_conns s)[c := x])) = length (filter wc_open (rg_conns s))"
    by (simp only: open_count)
  moreover have "list_all (conn_ok (row_names s)) ((rg_conns s)[c := x])"
    using assms(1,3) set_update_subset_insert [of "rg_conns s" c x] by (auto simp: conns_ok_def list_all_iff)
  moreover have "links_ok ((rg_conns s)[c := x]) (rg_workerConns s)"
    using assms(1) same by (simp add: conns_ok_def links_ok_def)
  ultimately show ?thesis using assms(1) by (simp add: conns_ok_def row_names_def)
qed

lemma record_entries_ok:
  assumes "rows_ok s" "\<forall>a. row = Some a \<longrightarrow> a < length (rg_rows s)"
  shows "rows_ok (recordWorkerEntries row (length es) now (s\<lparr>rg_ingested := rg_ingested s @ map (Pair row) es\<rparr>))"
proof -
  let ?s = "s\<lparr>rg_ingested := rg_ingested s @ map (Pair row) es\<rparr>"
  have c: "credited a (?s\<lparr>rg_rows := xs\<rparr>) = credited a s + (if row = Some a then int (length es) else 0)" for a xs
    by (simp add: credited_def filter_map comp_def)
  have c': "credited a ?s = credited a s + (if row = Some a then int (length es) else 0)" for a using c [of a "rg_rows s"] by simp
  show ?thesis
  proof (cases row)
    case None
    then show ?thesis using assms(1) c' by (auto simp: recordWorkerEntries_def rows_ok_def split: option.splits prod.splits)
  next
    case (Some b)
    then have b: "b < length (rg_rows s)" using assms(2) by simp
    show ?thesis
    proof (cases "es = []")
      case False
      let ?we = "(rg_rows s ! b)\<lparr>we_entries := we_entries (rg_rows s ! b) + int (length es), we_lastSeen := now\<rparr>"
      have "rows_ok (?s\<lparr>rg_rows := (rg_rows s)[b := ?we]\<rparr>)"
        using assms(1) b Some unfolding rows_ok_def c by (auto simp: nth_list_update split: option.splits)
      then show ?thesis using False Some by (simp add: recordWorkerEntries_def Let_def)
    qed (use assms(1) Some in \<open>simp add: recordWorkerEntries_def\<close>)
  qed
qed

lemma recordWorkerEntries_same:
  "rg_conns (recordWorkerEntries row n now s) = rg_conns s" "rg_workerConns (recordWorkerEntries row n now s) = rg_workerConns s"
  "rg_workerCount (recordWorkerEntries row n now s) = rg_workerCount s"
  "\<forall>a. row = Some a \<longrightarrow> a < length (rg_rows s) \<Longrightarrow> row_names (recordWorkerEntries row n now s) = row_names s"
  by (simp_all add: recordWorkerEntries_def Let_def split: option.split) (auto simp: row_names_def list_eq_iff_nth_eq nth_list_update)

lemma hello_ok:
  assumes "rows_ok s" "conns_ok s" "c < length (rg_conns s)" "wc_open (rg_conns s ! c)"
  shows "rows_ok (worker_hello c node version now s) \<and> conns_ok (worker_hello c node version now s)"
proof -
  define f :: "workerInfo \<Rightarrow> workerInfo" where "f = (\<lambda>wi. wi\<lparr>wi_Version := version, wi_Connected := True, wi_ConnectedAt := now, wi_LastSeen := now\<rparr>)"
  have f: "keeps_identity f" by (simp add: keeps_identity_def f_def)
  obtain row s1 where w: "workerRow node s = (row, s1)" by (cases "workerRow node s")
  define s2 where "s2 = workerUpdate node f s1"
  define x where "x = (rg_conns s ! c)\<lparr>wc_node := node, wc_row := row, wc_names := node # wc_names (rg_conns s ! c)\<rparr>"
  have s1: "rows_ok s1" "rg_conns s1 = rg_conns s" "rg_workerConns s1 = rg_workerConns s" "rg_workerCount s1 = rg_workerCount s"
    using workerRow_ok [OF assms(1), of node] workerRow_same [of node s] w by simp_all
  have s2: "rows_ok s2" "rg_conns s2 = rg_conns s" "rg_workerConns s2 = rg_workerConns s" "rg_workerCount s2 = rg_workerCount s"
    using workerUpdate_ok [OF s1(1) f] s1 by (simp_all add: s2_def workerUpdate_same)
  have names: "row_names s2 = row_names s1"
    using workerUpdate_names [OF s1(1) f, of node] workerRow_again [of node s] w by (simp add: s2_def)
  obtain xs where more: "row_names s1 = row_names s @ xs" using workerRow_names [of node s] w by auto
  have h: "worker_hello c node version now s = s2\<lparr>rg_conns := (rg_conns s)[c := x], rg_workerConns := AList.update node c (rg_workerConns s)\<rparr>"
    using s2 by (simp add: worker_hello_def w s2_def f_def x_def Let_def)
  have "\<forall>a. row = Some a \<longrightarrow> a < length (row_names s2) \<and> row_names s2 ! a = node"
    using workerRow_ok [OF assms(1), of node] w names by (simp add: row_names_def split: option.splits)
  moreover have "length (wc_send (rg_conns s ! c)) \<le> 8" using assms(2,3) by (auto simp: conns_ok_def list_all_length conn_ok_def)
  ultimately have "conn_ok (row_names s2) x" by (simp add: conn_ok_def x_def split: option.splits)
  then have "list_all (conn_ok (row_names s2)) ((rg_conns s)[c := x])"
    using assms(2) set_update_subset_insert [of "rg_conns s" c x] conn_ok_more by (auto simp: conns_ok_def list_all_iff names more)
  moreover have "map wc_open ((rg_conns s)[c := x]) = map wc_open (rg_conns s)" using assms(3,4) by (simp add: map_update list_update_same_conv x_def)
  then have "length (filter wc_open ((rg_conns s)[c := x])) = length (filter wc_open (rg_conns s))" by (simp only: open_count)
  moreover have "links_ok ((rg_conns s)[c := x]) (AList.update node c (rg_workerConns s))"
    using assms(2-4) by (auto simp: conns_ok_def links_ok_def x_def nth_list_update AList.distinct_update AList.update_conv' simp del: map_of_eq_Some_iff split: if_splits)
  ultimately have "conns_ok (worker_hello c node version now s)" using assms(2) s2 by (simp add: h conns_ok_def row_names_def)
  moreover have "rows_ok (worker_hello c node version now s)" using s2(1) by (simp add: h rows_ok_def credited_def)
  ultimately show ?thesis by blast
qed

lemma row_in_range: "conns_ok s \<Longrightarrow> c < length (rg_conns s) \<Longrightarrow> \<forall>a. wc_row (rg_conns s ! c) = Some a \<longrightarrow> a < length (rg_rows s)"
  by (force simp: conns_ok_def list_all_length conn_ok_def row_names_def split: option.splits)

lemma message_ok:
  assumes "rows_ok s" "conns_ok s"
  shows "rows_ok (worker_message c msg now s) \<and> conns_ok (worker_message c msg now s)"
proof (cases "c < length (rg_conns s) \<and> wc_open (rg_conns s ! c)")
  case True
  have "rows_ok (ingest_entries c es now s) \<and> conns_ok (ingest_entries c es now s)" for es
  proof -
    let ?s = "s\<lparr>rg_ingested := rg_ingested s @ map (Pair (wc_row (rg_conns s ! c))) es\<rparr>"
    have "row_names (recordWorkerEntries (wc_row (rg_conns s ! c)) (length es) now ?s) = row_names s"
      using row_in_range [OF assms(2), of c] True by (subst recordWorkerEntries_same(4)) (auto simp: row_names_def)
    then have "conns_ok (ingest_entries c es now s)"
      using assms(2) by (simp add: ingest_entries_def Let_def conns_ok_def recordWorkerEntries_same)
    then show ?thesis using record_entries_ok [OF assms(1) row_in_range [OF assms(2)]] True by (simp add: ingest_entries_def Let_def)
  qed
  moreover have "keeps_identity (worker_stats ws now)" for ws by (simp add: keeps_identity_def worker_stats_def)
  ultimately show ?thesis using True assms hello_ok [OF assms, of c] workerUpdate_ok conns_ok_update
    by (simp add: worker_message_def split: worker_msg.split option.split)
qed (use assms in \<open>simp add: worker_message_def\<close>)

lemma disconnect_ok:
  assumes "rows_ok s" "conns_ok s"
  shows "rows_ok (worker_disconnect c s) \<and> conns_ok (worker_disconnect c s)"
proof (cases "c < length (rg_conns s) \<and> wc_open (rg_conns s ! c)")
  case True
  define f :: "workerInfo \<Rightarrow> workerInfo" where "f = (\<lambda>wi. wi\<lparr>wi_Connected := False\<rparr>)"
  define node where "node = wc_node (rg_conns s ! c)"
  define s1 where "s1 = workerUpdate node f s"
  have f: "keeps_identity f" by (simp add: keeps_identity_def f_def)
  have s1: "rows_ok s1" "conns_ok s1" "rg_conns s1 = rg_conns s"
    using workerUpdate_ok [OF assms(1) f] conns_ok_update [OF assms(2,1) f] by (simp_all add: s1_def workerUpdate_same)
  define cs where "cs = (rg_conns s1)[c := (rg_conns s1 ! c)\<lparr>wc_open := False\<rparr>]"
  define links where "links = (if map_of (rg_workerConns s1) node = Some c then AList.delete node (rg_workerConns s1) else rg_workerConns s1)"
  have d: "worker_disconnect c s = s1\<lparr>rg_workerConns := links, rg_conns := cs, rg_workerCount := rg_workerCount s1 - 1\<rparr>"
    using True by (simp add: worker_disconnect_def Let_def links_def cs_def s1_def f_def node_def)
  have "list_all (conn_ok (row_names s1)) cs"
    using s1(2) True set_update_subset_insert [of "rg_conns s1" c "(rg_conns s1 ! c)\<lparr>wc_open := False\<rparr>"]
    by (auto simp: conns_ok_def list_all_length cs_def nth_list_update s1(3) conn_ok_def split: option.splits)
  moreover have "links_ok cs links"
    using s1(2) True by (auto simp: conns_ok_def links_ok_def cs_def links_def s1(3) node_def nth_list_update AList.distinct_delete AList.delete_conv' simp del: map_of_eq_Some_iff split: if_splits)
  moreover have "length (filter wc_open (rg_conns s)) = length (filter wc_open cs) + 1"
  proof -
    have "rg_conns s = take c (rg_conns s) @ rg_conns s ! c # drop (Suc c) (rg_conns s)" using True by (simp add: id_take_nth_drop)
    then have "filter wc_open (rg_conns s) = filter wc_open (take c (rg_conns s)) @ rg_conns s ! c # filter wc_open (drop (Suc c) (rg_conns s))"
      using True by (metis filter.simps(2) filter_append)
    moreover have "cs = take c (rg_conns s) @ (rg_conns s ! c)\<lparr>wc_open := False\<rparr> # drop (Suc c) (rg_conns s)"
      using True by (simp add: cs_def s1(3) upd_conv_take_nth_drop)
    ultimately show ?thesis by simp
  qed
  ultimately have "conns_ok (worker_disconnect c s)" using s1(2) unfolding d by (simp add: conns_ok_def s1(3) row_names_def)
  moreover have "rows_ok (worker_disconnect c s)" using s1(1) unfolding d by (simp add: rows_ok_def credited_def)
  ultimately show ?thesis by blast
qed (use assms in \<open>simp add: worker_disconnect_def\<close>)

text \<open>A connection differs from before a command at most in what waits for its writer.\<close>

definition queued_more :: "worker_conn list \<Rightarrow> worker_conn list \<Rightarrow> bool" where
  "queued_more conns conns' \<longleftrightarrow> map (\<lambda>c. c\<lparr>wc_send := []\<rparr>) conns' = map (\<lambda>c. c\<lparr>wc_send := []\<rparr>) conns \<and> (list_all (\<lambda>c. length (wc_send c) \<le> 8) conns \<longrightarrow> list_all (\<lambda>c. length (wc_send c) \<le> 8) conns')"

lemma deliver_none: "fold (deliver p) ts None = None"
  by (induction ts) simp_all

lemma deliver_queued: "fold (deliver p) ts (Some (conns, n)) = Some (conns', n') \<Longrightarrow> queued_more conns conns'"
proof (induction ts arbitrary: conns n)
  case (Cons t ts)
  then obtain conns1 n1 where d: "deliver p t (Some (conns, n)) = Some (conns1, n1)"
    by (cases "deliver p t (Some (conns, n))") (auto simp: deliver_none)
  then have "queued_more conns1 conns'" using Cons by simp
  moreover have "queued_more conns conns1"
  proof -
    have "conns1 = conns \<or> length (wc_send (conns ! t)) < 8 \<and> conns1 = conns[t := (conns ! t)\<lparr>wc_send := wc_send (conns ! t) @ [p]\<rparr>]"
      using d by (auto split: if_splits)
    then show ?thesis by (cases "t < length conns") (auto simp: queued_more_def list_eq_iff_nth_eq nth_list_update list_all_length)
  qed
  ultimately show ?case by (simp add: queued_more_def)
qed (simp add: queued_more_def)

lemma queued_fields:
  assumes "queued_more conns conns'"
  shows "length conns' = length conns" "i < length conns \<Longrightarrow> wc_open (conns' ! i) = wc_open (conns ! i)"
    "i < length conns \<Longrightarrow> wc_names (conns' ! i) = wc_names (conns ! i)" "i < length conns \<Longrightarrow> wc_node (conns' ! i) = wc_node (conns ! i)"
    "i < length conns \<Longrightarrow> wc_row (conns' ! i) = wc_row (conns ! i)" "map wc_open conns' = map wc_open conns"
proof -
  have m: "map (\<lambda>c. c\<lparr>wc_send := []\<rparr>) conns' = map (\<lambda>c. c\<lparr>wc_send := []\<rparr>) conns" using assms by (simp add: queued_more_def)
  show l: "length conns' = length conns" using arg_cong [OF m, of length] by simp
  have n: "(conns' ! i)\<lparr>wc_send := []\<rparr> = (conns ! i)\<lparr>wc_send := []\<rparr>" if "i < length conns" for i
    using arg_cong [OF m, of "\<lambda>xs. xs ! i"] that l by simp
  show o: "wc_open (conns' ! i) = wc_open (conns ! i)" if "i < length conns" for i using arg_cong [OF n [OF that], of wc_open] by simp
  show "wc_names (conns' ! i) = wc_names (conns ! i)" if "i < length conns" using arg_cong [OF n [OF that], of wc_names] by simp
  show "wc_node (conns' ! i) = wc_node (conns ! i)" if "i < length conns" using arg_cong [OF n [OF that], of wc_node] by simp
  show "wc_row (conns' ! i) = wc_row (conns ! i)" if "i < length conns" using arg_cong [OF n [OF that], of wc_row] by simp
  show "map wc_open conns' = map wc_open conns" using l o by (simp add: list_eq_iff_nth_eq)
qed

lemma queued_ok:
  assumes "rows_ok s" "conns_ok s" "queued_more (rg_conns s) cs"
  shows "rows_ok (s\<lparr>rg_conns := cs\<rparr>) \<and> conns_ok (s\<lparr>rg_conns := cs\<rparr>)"
proof -
  note q = queued_fields [OF assms(3)]
  have "list_all (\<lambda>c. length (wc_send c) \<le> 8) (rg_conns s)" using assms(2) by (auto simp: conns_ok_def list_all_iff conn_ok_def)
  then have "list_all (\<lambda>c. length (wc_send c) \<le> 8) cs" using assms(3) by (simp add: queued_more_def)
  then have "list_all (conn_ok (row_names s)) cs" using assms(2) q by (auto simp: conns_ok_def list_all_length conn_ok_def)
  moreover have "links_ok cs (rg_workerConns s)"
    using assms(2) q by (auto simp: conns_ok_def links_ok_def simp del: map_of_eq_Some_iff)
  moreover have "length (filter wc_open cs) = length (filter wc_open (rg_conns s))" by (simp only: open_count q(6))
  ultimately show ?thesis using assms(1,2) by (simp add: conns_ok_def rows_ok_def credited_def row_names_def)
qed

lemma step_ok:
  assumes "rows_ok s" "conns_ok s"
  shows "rows_ok (registry_step ev s) \<and> conns_ok (registry_step ev s)"
proof (cases ev)
  case Connected
  have "links_ok (rg_conns s @ [x]) (rg_workerConns s)" for x using assms(2) by (auto simp: conns_ok_def links_ok_def nth_append intro: less_SucI simp del: map_of_eq_Some_iff)
  then show ?thesis using assms Connected
    by (simp add: registry_step_def worker_connect_def rows_ok_def conns_ok_def conn_ok_def credited_def row_names_def)
next
  case (Swept now)
  then show ?thesis using assms
    by (auto simp: registry_step_def gcWorkers_def rows_ok_def conns_ok_def credited_def row_names_def distinct_map_filter)
next
  case (Commanded node p)
  have "queued_more (rg_conns s) (rg_conns s')" "s' = s\<lparr>rg_conns := rg_conns s'\<rparr>" if "sendWorkerCommand node p s = Some (n, s')" for n s'
    using that deliver_queued by (auto simp: sendWorkerCommand_def Let_def)
  then show ?thesis using assms Commanded queued_ok [OF assms] by (simp add: registry_step_def split: option.split prod.split) metis
next
  case (Written c)
  have "queued_more (rg_conns s) ((rg_conns s)[c := (rg_conns s ! c)\<lparr>wc_send := tl (wc_send (rg_conns s ! c))\<rparr>])"
    by (cases "c < length (rg_conns s)") (auto simp: queued_more_def list_eq_iff_nth_eq nth_list_update list_all_length intro: order.trans [OF diff_le_self])
  then show ?thesis using Written queued_ok [OF assms] by (simp add: registry_step_def worker_written_def)
qed (use assms message_ok disconnect_ok in \<open>simp_all add: registry_step_def\<close>)

lemma run_ok_registry: "rows_ok (registry_run evs) \<and> conns_ok (registry_run evs)"
proof (induction evs rule: rev_induct)
  case Nil
  show ?case by (simp add: registry_run_def new_registry_def rows_ok_def conns_ok_def links_ok_def)
next
  case (snoc ev evs)
  then show ?case using step_ok by (simp add: registry_run_def)
qed

subsection \<open>The rows\<close>

interpretation node_order: weak_order "\<lambda>a b. wi_Node a < wi_Node b"
  by unfold_locales auto


text \<open>A sweep removes exactly the rows of nodes that are marked disconnected and were last seen over an hour ago.\<close>

theorem sweep_removes_gone_workers:
  fixes evs :: "registry_event list"
  defines "s \<equiv> registry_run evs"
  shows "map_of (rg_workers (gcWorkers now s)) node =
    (case map_of (rg_workers s) node of None \<Rightarrow> None
     | Some a \<Rightarrow> if wi_Connected (we_info (rg_rows s ! a)) \<or> lastSeenTime (rg_rows s ! a) \<ge> now - workerGCTTL then Some a else None)"
proof -
  have "distinct (map fst (rg_workers s))" using run_ok_registry [of evs] by (simp add: s_def rows_ok_def)
  moreover have "map_of (filter (\<lambda>(n, a). P a) xs) node = (case map_of xs node of None \<Rightarrow> None | Some a \<Rightarrow> if P a then Some a else None)"
    if "distinct (map fst xs)" for P and xs :: "(string \<times> nat) list"
    using that by (induction xs) (auto simp: map_of_eq_None_iff split: option.splits)
  ultimately show ?thesis by (auto simp: gcWorkers_def not_less split: option.split)
qed

subsection \<open>Commands\<close>

lemma deliver_all:
  assumes "distinct ts" "\<forall>t \<in> set ts. t < length conns \<and> wc_open (conns ! t)"
  shows "\<exists>conns'. fold (deliver p) ts (Some (conns, n)) = Some (conns', n + length (filter (\<lambda>t. length (wc_send (conns ! t)) < 8) ts))
    \<and> length conns' = length conns
    \<and> (\<forall>c < length conns. conns' ! c = (if c \<in> set ts \<and> length (wc_send (conns ! c)) < 8 then (conns ! c)\<lparr>wc_send := wc_send (conns ! c) @ [p]\<rparr> else conns ! c))"
  using assms
proof (induction ts arbitrary: conns n)
  case (Cons t ts)
  let ?room = "length (wc_send (conns ! t)) < 8"
  define conns1 where "conns1 = (if ?room then conns[t := (conns ! t)\<lparr>wc_send := wc_send (conns ! t) @ [p]\<rparr>] else conns)"
  have d: "deliver p t (Some (conns, n)) = Some (conns1, n + (if ?room then 1 else 0))" using Cons.prems by (simp add: conns1_def)
  have same: "conns1 ! u = conns ! u" if "u \<in> set ts" for u
  proof -
    have "u \<noteq> t" using that Cons.prems(1) by auto
    then show ?thesis by (simp add: conns1_def)
  qed
  have "length (filter (\<lambda>u. length (wc_send (conns1 ! u)) < 8) ts) = length (filter (\<lambda>u. length (wc_send (conns ! u)) < 8) ts)"
    using same by (metis (mono_tags, lifting) filter_cong)
  moreover have "distinct ts" "\<forall>u \<in> set ts. u < length conns1 \<and> wc_open (conns1 ! u)" using Cons.prems same by (auto simp: conns1_def)
  ultimately obtain conns' where c: "fold (deliver p) ts (Some (conns1, n + (if ?room then 1 else 0)))
        = Some (conns', n + (if ?room then 1 else 0) + length (filter (\<lambda>u. length (wc_send (conns ! u)) < 8) ts))" "length conns' = length conns1"
      "\<forall>c < length conns1. conns' ! c = (if c \<in> set ts \<and> length (wc_send (conns1 ! c)) < 8 then (conns1 ! c)\<lparr>wc_send := wc_send (conns1 ! c) @ [p]\<rparr> else conns1 ! c)"
    using Cons.IH [of conns1 "n + (if ?room then 1 else 0)"] by metis
  have "length conns1 = length conns" by (simp add: conns1_def)
  moreover have "conns' ! c = (if c \<in> set (t # ts) \<and> length (wc_send (conns ! c)) < 8 then (conns ! c)\<lparr>wc_send := wc_send (conns ! c) @ [p]\<rparr> else conns ! c)"
    if "c < length conns" for c using c(3) that Cons.prems(1) same [of c] by (cases "c = t") (auto simp: conns1_def nth_list_update)
  ultimately show ?case using c(1,2) d by (auto simp del: deliver.simps intro!: exI [of _ conns'])
qed simp

lemma closed_target: "t \<in> set ts \<Longrightarrow> t < length conns \<Longrightarrow> \<not> wc_open (conns ! t) \<Longrightarrow> fold (deliver p) ts (Some (conns, n)) = None"
proof (induction ts arbitrary: conns n)
  case (Cons u ts)
  show ?case
  proof (cases "u = t")
    case False
    then have "t \<in> set ts" using Cons.prems(1) by simp
    moreover have "\<not> wc_open ((conns[u := x]) ! t)" for x using False Cons.prems(3) by simp
    ultimately show ?thesis using Cons by (auto simp: deliver_none)
  qed (use Cons.prems in \<open>simp add: deliver_none\<close>)
qed simp

text \<open>C13: As long as every connection says hello under one name only, a command never panics: it reaches every registered connection it is for that has room in its
  queue of eight, at its end, and no other, and the count returned is that of the connections it reached.\<close>

theorem commands_reach_live_workers:
  fixes evs :: "registry_event list"
  defines "s \<equiv> registry_run evs"
  assumes "\<forall>c \<in> set (rg_conns s). set (wc_names c) \<subseteq> {wc_node c}"
  shows "\<exists>sent cs. sendWorkerCommand node p s = Some (sent, s\<lparr>rg_conns := cs\<rparr>) \<and> length cs = length (rg_conns s)
    \<and> (\<forall>c < length (rg_conns s). cs ! c =
        (if (\<exists>n. map_of (rg_workerConns s) n = Some c \<and> (node = [] \<or> n = node)) \<and> length (wc_send (rg_conns s ! c)) < 8
         then (rg_conns s ! c)\<lparr>wc_send := wc_send (rg_conns s ! c) @ [p]\<rparr> else rg_conns s ! c))
    \<and> sent = card {c. (\<exists>n. map_of (rg_workerConns s) n = Some c \<and> (node = [] \<or> n = node)) \<and> length (wc_send (rg_conns s ! c)) < 8}"
proof -
  let ?ts = "if node = [] then map snd (rg_workerConns s) else (case map_of (rg_workerConns s) node of None \<Rightarrow> [] | Some c \<Rightarrow> [c])"
  have links: "links_ok (rg_conns s) (rg_workerConns s)" using run_ok_registry [of evs] by (simp add: s_def conns_ok_def)
  then have dist: "distinct (map fst (rg_workerConns s))" by (simp add: links_ok_def)
  have link: "c < length (rg_conns s)" "wc_open (rg_conns s ! c)" "n = wc_node (rg_conns s ! c)" if "map_of (rg_workerConns s) n = Some c" for n c
    using links that assms(2) unfolding links_ok_def by (metis nth_mem singletonD subsetD)+
  have "fst x = wc_node (rg_conns s ! snd x)" if "x \<in> set (rg_workerConns s)" for x using link(3) [of "fst x" "snd x"] that dist by simp
  then have "inj_on snd (set (rg_workerConns s))" by (metis inj_onI prod_eqI)
  then have "distinct (map snd (rg_workerConns s))" using dist by (simp add: distinct_map)
  then have ts: "distinct ?ts" by (auto split: option.split)
  have set_ts: "set ?ts = {c. \<exists>n. map_of (rg_workerConns s) n = Some c \<and> (node = [] \<or> n = node)}"
    using dist by (force split: option.split)
  then have "\<forall>t \<in> set ?ts. t < length (rg_conns s) \<and> wc_open (rg_conns s ! t)" using link by blast
  from deliver_all [OF ts this, of p 0] obtain cs where cs:
    "fold (deliver p) ?ts (Some (rg_conns s, 0)) = Some (cs, 0 + length (filter (\<lambda>t. length (wc_send (rg_conns s ! t)) < 8) ?ts))" "length cs = length (rg_conns s)"
    "\<forall>c < length (rg_conns s). cs ! c = (if c \<in> set ?ts \<and> length (wc_send (rg_conns s ! c)) < 8 then (rg_conns s ! c)\<lparr>wc_send := wc_send (rg_conns s ! c) @ [p]\<rparr> else rg_conns s ! c)"
    by blast
  have "length (filter (\<lambda>t. length (wc_send (rg_conns s ! t)) < 8) ?ts) = card {c \<in> set ?ts. length (wc_send (rg_conns s ! c)) < 8}"
    using distinct_card [OF distinct_filter [OF ts]] by simp
  then have send: "sendWorkerCommand node p s = Some (card {c \<in> set ?ts. length (wc_send (rg_conns s ! c)) < 8}, s\<lparr>rg_conns := cs\<rparr>)"
    using cs(1) by (simp add: sendWorkerCommand_def Let_def)
  show ?thesis
    by (rule exI [of _ "card {c \<in> set ?ts. length (wc_send (rg_conns s ! c)) < 8}"], rule exI [of _ cs])
      (use send cs(2,3) in \<open>simp only: set_ts mem_Collect_eq simp_thms\<close>)
qed

subsection \<open>Reconnecting\<close>

lemma update_present:
  assumes "node \<noteq> []" "node \<noteq> ''unknown''" "map_of (rg_workers s) node = Some a"
  shows "workerUpdate node f s = s\<lparr>rg_rows := (rg_rows s)[a := (rg_rows s ! a)\<lparr>we_info := f (we_info (rg_rows s ! a))\<rparr>]\<rparr>"
  using assms by (simp add: workerUpdate_def workerRow_def Let_def)

lemma hello_effect:
  assumes "node \<noteq> []" "node \<noteq> ''unknown''" "rows_ok s"
  shows "\<exists>a x. map_of (rg_workers (worker_hello c node v t s)) node = Some a \<and> a < length (rg_rows (worker_hello c node v t s))
    \<and> rg_conns (worker_hello c node v t s) = (rg_conns s)[c := x] \<and> wc_node x = node \<and> wc_open x = wc_open (rg_conns s ! c)
    \<and> map_of (rg_workerConns (worker_hello c node v t s)) node = Some c"
proof -
  obtain a s1 where w: "workerRow node s = (Some a, s1)" and a: "map_of (rg_workers s1) node = Some a"
    using assms(1,2) by (cases "map_of (rg_workers s) node") (auto simp: workerRow_def Let_def)
  have "a < length (rg_rows s1)" using workerRow_ok [OF assms(3), of node] w by simp
  moreover have "rg_conns s1 = rg_conns s" "rg_workerConns s1 = rg_workerConns s" using workerRow_same [of node s] w by simp_all
  ultimately show ?thesis using a
    by (auto simp: worker_hello_def w update_present [OF assms(1,2) a] AList.update_conv' Let_def
        intro!: exI [of _ "(rg_conns s ! c)\<lparr>wc_node := node, wc_row := Some a, wc_names := node # wc_names (rg_conns s ! c)\<rparr>"])
qed

lemma hello_frame:
  assumes "c < length (rg_conns s)"
  shows "length (rg_conns (worker_hello c node v t s)) = length (rg_conns s)" "wc_open (rg_conns (worker_hello c node v t s) ! c) = wc_open (rg_conns s ! c)"
    "wc_node (rg_conns (worker_hello c node v t s) ! c) = node" "rg_workerConns (worker_hello c node v t s) = AList.update node c (rg_workerConns s)"
  using assms workerRow_same [of node s]
  by (cases "workerRow node s"; simp add: worker_hello_def Let_def workerUpdate_same)+

text \<open>C40: A worker that reconnects before the hub has noticed the end of its old connection is marked disconnected when that one ends, though the new connection is open,
  registered and the target of its commands; its self-reports do not change that.\<close>

theorem reconnect_marked_disconnected:
  fixes evs :: "registry_event list"
  defines "s \<equiv> registry_run evs"
  assumes "old < length (rg_conns s)" "wc_open (rg_conns s ! old)" "wc_node (rg_conns s ! old) = node" "node \<noteq> []" "node \<noteq> ''unknown''"
  shows "let new = length (rg_conns s);
      s' = worker_message new (MsgWorkerStats (Some ws)) t2 (worker_disconnect old (worker_message new (MsgHello (Some (node, v))) t1 (worker_connect s))) in
    \<exists>a. map_of (rg_workers s') node = Some a \<and> \<not> wi_Connected (we_info (rg_rows s' ! a))
      \<and> map_of (rg_workerConns s') node = Some new \<and> wc_open (rg_conns s' ! new)"
proof -
  let ?new = "length (rg_conns s)"
  define s0 where "s0 = worker_connect s"
  define s1 where "s1 = worker_message ?new (MsgHello (Some (node, v))) t1 s0"
  define s2 where "s2 = worker_disconnect old s1"
  define s3 where "s3 = worker_message ?new (MsgWorkerStats (Some ws)) t2 s2"
  have "rows_ok s" using run_ok_registry [of evs] by (simp add: s_def)
  then have "rows_ok s0" by (simp add: s0_def worker_connect_def rows_ok_def credited_def)
  from hello_effect [OF assms(5,6) this, of ?new v t1] obtain a x where h: "map_of (rg_workers s1) node = Some a" "a < length (rg_rows s1)"
      "rg_conns s1 = (rg_conns s0)[?new := x]" "wc_node x = node" "wc_open x" "map_of (rg_workerConns s1) node = Some ?new"
    by (auto simp: s1_def worker_message_def s0_def worker_connect_def)
  have c: "rg_conns s1 = rg_conns s @ [x]" using h(3) by (simp add: s0_def worker_connect_def)
  have "s2 = s1\<lparr>rg_rows := (rg_rows s1)[a := (rg_rows s1 ! a)\<lparr>we_info := (we_info (rg_rows s1 ! a))\<lparr>wi_Connected := False\<rparr>\<rparr>],
      rg_conns := (rg_conns s1)[old := (rg_conns s1 ! old)\<lparr>wc_open := False\<rparr>], rg_workerCount := rg_workerCount s1 - 1\<rparr>"
    using assms(2-4) h(6) by (simp add: s2_def worker_disconnect_def c nth_append update_present [OF assms(5,6) h(1)] Let_def)
  then have d: "map_of (rg_workers s2) node = Some a" "a < length (rg_rows s2)" "\<not> wi_Connected (we_info (rg_rows s2 ! a))"
      "rg_conns s2 ! ?new = x" "?new < length (rg_conns s2)" "map_of (rg_workerConns s2) node = Some ?new"
    using h(1,2,6) c assms(2) by (simp_all add: nth_append nth_list_update list_update_append)
  then have "s3 = s2\<lparr>rg_rows := (rg_rows s2)[a := (rg_rows s2 ! a)\<lparr>we_info := worker_stats ws t2 (we_info (rg_rows s2 ! a))\<rparr>]\<rparr>"
    using h(4,5) by (simp add: s3_def worker_message_def update_present [OF assms(5,6) d(1)])
  then have "map_of (rg_workers s3) node = Some a \<and> \<not> wi_Connected (we_info (rg_rows s3 ! a)) \<and> map_of (rg_workerConns s3) node = Some ?new \<and> wc_open (rg_conns s3 ! ?new)"
    using d h(5) by (simp add: worker_stats_def)
  then show ?thesis unfolding s3_def s2_def s1_def s0_def Let_def by blast
qed


text \<open>A connection that says hello under two names leaves its closed channel registered under the first: every command to all workers panics from then on.\<close>

theorem second_hello_breaks_commands:
  fixes evs :: "registry_event list"
  defines "s \<equiv> registry_run evs"
  assumes "first \<noteq> second"
  shows "let c = length (rg_conns s);
      s' = worker_disconnect c (worker_message c (MsgHello (Some (second, v2))) t2 (worker_message c (MsgHello (Some (first, v1))) t1 (worker_connect s))) in
    sendWorkerCommand [] p s' = None"
proof -
  let ?c = "length (rg_conns s)"
  define s0 where "s0 = worker_connect s"
  define s1 where "s1 = worker_hello ?c first v1 t1 s0"
  define s2 where "s2 = worker_hello ?c second v2 t2 s1"
  define s3 where "s3 = worker_disconnect ?c s2"
  have c0: "?c < length (rg_conns s0)" "wc_open (rg_conns s0 ! ?c)" by (simp_all add: s0_def worker_connect_def)
  have c1: "?c < length (rg_conns s1)" "wc_open (rg_conns s1 ! ?c)" "map_of (rg_workerConns s1) first = Some ?c"
    using c0 hello_frame [of ?c s0 first v1 t1] by (simp_all add: s1_def AList.update_conv')
  have c2: "?c < length (rg_conns s2)" "wc_open (rg_conns s2 ! ?c)" "map_of (rg_workerConns s2) first = Some ?c" "wc_node (rg_conns s2 ! ?c) = second"
    using c1 assms(2) hello_frame [of ?c s1 second v2 t2] by (simp_all add: s2_def AList.update_conv')
  have "map_of (rg_workerConns s3) first = Some ?c" "?c < length (rg_conns s3)" "\<not> wc_open (rg_conns s3 ! ?c)"
    using c2 assms(2) by (simp_all add: s3_def worker_disconnect_def Let_def workerUpdate_same AList.delete_conv')
  then have "sendWorkerCommand [] p s3 = None"
    using closed_target [of ?c "map snd (rg_workerConns s3)" "rg_conns s3" p 0] by (force simp: sendWorkerCommand_def dest!: map_of_SomeD)
  moreover have "worker_message ?c (MsgHello (Some (first, v1))) t1 s0 = s1" "worker_message ?c (MsgHello (Some (second, v2))) t2 s1 = s2"
    using c0 c1 by (simp_all add: worker_message_def s1_def s2_def)
  ultimately show ?thesis by (simp add: Let_def s3_def s0_def)
qed

theorem commands_reach_live_workers_witness:
  "\<exists>sent cs. sendWorkerCommand [] True (registry_run [Connected, Message 0 (MsgHello (Some (''n'', ''1''))) 5]) = Some (sent, (registry_run [Connected, Message 0 (MsgHello (Some (''n'', ''1''))) 5])\<lparr>rg_conns := cs\<rparr>)
    \<and> wc_send (cs ! 0) = [True]"
proof -
  let ?s = "registry_run [Connected, Message 0 (MsgHello (Some (''n'', ''1''))) 5]"
  have s: "rg_conns ?s = [\<lparr>wc_node = ''n'', wc_row = Some 0, wc_send = [], wc_open = True, wc_names = [''n'']\<rparr>]" "rg_workerConns ?s = [(''n'', 0)]"
    by (simp_all add: registry_run_def registry_step_def worker_connect_def worker_message_def worker_hello_def workerRow_def workerUpdate_def new_registry_def Let_def)
  have "\<forall>c \<in> set (rg_conns ?s). set (wc_names c) \<subseteq> {wc_node c}" by (simp add: s)
  from commands_reach_live_workers [OF this, of "[]" True] obtain sent cs where
    "sendWorkerCommand [] True ?s = Some (sent, ?s\<lparr>rg_conns := cs\<rparr>)"
    "\<forall>c < length (rg_conns ?s). cs ! c = (if (\<exists>n. map_of (rg_workerConns ?s) n = Some c \<and> ([] = [] \<or> n = [])) \<and> length (wc_send (rg_conns ?s ! c)) < 8
         then (rg_conns ?s ! c)\<lparr>wc_send := wc_send (rg_conns ?s ! c) @ [True]\<rparr> else rg_conns ?s ! c)" by auto
  moreover from this(2) have "wc_send (cs ! 0) = [True]" unfolding s by simp
  ultimately show ?thesis by blast
qed

theorem reconnect_marked_disconnected_witness:
  "\<forall>ws. let s = registry_run [Connected, Message 0 (MsgHello (Some (''n'', ''1''))) 5];
      s' = worker_message 1 (MsgWorkerStats (Some ws)) 7 (worker_disconnect 0 (worker_message 1 (MsgHello (Some (''n'', ''1''))) 6 (worker_connect s))) in
    \<exists>a. map_of (rg_workers s') ''n'' = Some a \<and> \<not> wi_Connected (we_info (rg_rows s' ! a))"
proof
  fix ws
  let ?s = "registry_run [Connected, Message 0 (MsgHello (Some (''n'', ''1''))) 5]"
  have s: "rg_conns ?s = [\<lparr>wc_node = ''n'', wc_row = Some 0, wc_send = [], wc_open = True, wc_names = [''n'']\<rparr>]"
    by (simp add: registry_run_def registry_step_def worker_connect_def worker_message_def worker_hello_def workerRow_def workerUpdate_def new_registry_def Let_def)
  then have "length (rg_conns ?s) = 1" "0 < length (rg_conns ?s)" "wc_open (rg_conns ?s ! 0)" "wc_node (rg_conns ?s ! 0) = ''n''" by simp_all
  then show "let s = registry_run [Connected, Message 0 (MsgHello (Some (''n'', ''1''))) 5];
      s' = worker_message 1 (MsgWorkerStats (Some ws)) 7 (worker_disconnect 0 (worker_message 1 (MsgHello (Some (''n'', ''1''))) 6 (worker_connect s))) in
    \<exists>a. map_of (rg_workers s') ''n'' = Some a \<and> \<not> wi_Connected (we_info (rg_rows s' ! a))" using reconnect_marked_disconnected [of 0 "[Connected, Message 0 (MsgHello (Some (''n'', ''1''))) 5]" "''n''" ws 7 "''1''" 6]
    by (auto simp: Let_def)
qed

theorem second_hello_breaks_commands_witness:
  "let c = length (rg_conns (registry_run []));
      s' = worker_disconnect c (worker_message c (MsgHello (Some (''b'', []))) 2 (worker_message c (MsgHello (Some (''a'', []))) 1 (worker_connect (registry_run [])))) in
    sendWorkerCommand [] True s' = None"
  using second_hello_breaks_commands [of "''a''" "''b''" "[]" "[]" 2 "[]" 1 True] by simp

end
