(* ===== verification/Hub_Broadcast.thy ===== *)
theory Hub_Broadcast
  imports Hub_Store Hub_Filter
begin

text \<open>
  The fan-out to front ends, \<open>internal/hub/server.go\<close>: the bounded queue of a client, the replay of history, the batching of live entries and the changes of
  filter.  A run is a sequence of critical sections: entries ingested, flushes, frames written, and, in two sections each, clients that connect and change their
  filter, which is where the code takes its locks.  The frames for statistics and filter errors are parameters.
\<close>

definition frontQueueBytes :: int where "frontQueueBytes = 16777216"
definition replayBatchSize :: nat where "replayBatchSize = 100"

definition filterKeySource :: "string \<Rightarrow> string" where "filterKeySource f = ''f:'' @ f"
definition filterKeyReject :: string where "filterKeyReject = ''!reject''"

text \<open>\<open>fc_log\<close> and below are history: the live entries sent under the current filter and whether they were queued, those of earlier filters, the entries of the
  replays that were queued, and the number of entries flushed before the current filter.\<close>

record frontClient =
  fc_id :: nat
  fc_send :: "bytes list"
  fc_pred :: Predicate
  fc_filterKey :: string
  fc_queuedBytes :: int
  fc_next :: "(Predicate \<times> string) option"
  fc_log :: "(bytes \<times> bool) list"
  fc_old :: "(bytes \<times> bool) list"
  fc_replayed :: "bytes list"
  fc_from :: nat

record fanout =
  fo_store :: store
  fo_clients :: "frontClient list"
  fo_opening :: "frontClient list"
  fo_pending :: "(Entry \<times> bytes) list"
  fo_broadcastDropped :: int
  fo_opened :: nat
  fo_flushed :: "(Entry \<times> bytes) list"
  fo_gone :: "frontClient list"

record front_lib =
  fl_golib :: golib
  fl_error_frame :: "filter_error \<Rightarrow> bytes"
  fl_stats_frame :: "store \<Rightarrow> bytes"
  fl_marshal :: "Entry \<Rightarrow> bytes option"
  fl_iter :: "counts \<Rightarrow> counts"

subsection \<open>The queue of a client\<close>

definition trySend :: "bytes \<Rightarrow> frontClient \<Rightarrow> bool \<times> frontClient" where
  "trySend b c =
     (let n = int (length b); queued = fc_queuedBytes c + n in
      if queued > frontQueueBytes \<and> queued \<noteq> n then (False, c)
      else if length (fc_send c) < 256 then (True, c\<lparr>fc_send := fc_send c @ [b], fc_queuedBytes := queued\<rparr>)
      else (False, c))"

definition front_written :: "frontClient \<Rightarrow> frontClient" where
  "front_written c = (case fc_send c of [] \<Rightarrow> c | b # bs \<Rightarrow> c\<lparr>fc_send := bs, fc_queuedBytes := fc_queuedBytes c - int (length b)\<rparr>)"

definition hub_batch :: "bytes list \<Rightarrow> bytes" where
  "hub_batch raws = ''{\"type\":\"entryBatch\",\"entries\":['' @ join '','' raws @ '']}''"

subsection \<open>Replay\<close>

text \<open>The chunks of the history, which is newest first: from its end towards its head, each reversed.\<close>

function replay_chunks :: "'a list \<Rightarrow> 'a list list" where
  "replay_chunks hs =
     (if hs = [] then []
      else let start = length hs - replayBatchSize in rev (drop start hs) # replay_chunks (take start hs))"
  by pat_completeness auto
termination
  by (relation "measure length") (auto simp: replayBatchSize_def)

declare replay_chunks.simps [simp del]

definition replay_chunk :: "bytes list \<Rightarrow> frontClient \<Rightarrow> frontClient" where
  "replay_chunk raws c = (case trySend (hub_batch raws) c of (ok, c') \<Rightarrow> if ok then c'\<lparr>fc_replayed := fc_replayed c' @ raws\<rparr> else c')"

definition replayHistory :: "store \<Rightarrow> Predicate \<Rightarrow> frontClient \<Rightarrow> frontClient" where
  "replayHistory s pred c = fold replay_chunk (replay_chunks (recentRaw s 500 (Some pred))) c"

subsection \<open>Live entries\<close>

definition broadcast :: "Entry \<Rightarrow> bytes option \<Rightarrow> fanout \<Rightarrow> fanout" where
  "broadcast e raw s =
     (case raw of None \<Rightarrow> s
      | Some r \<Rightarrow> if fo_clients s = [] then s else s\<lparr>fo_pending := fo_pending s @ [(e, r)]\<rparr>)"

type_synonym filter_group = "string \<times> Predicate \<times> nat list"

fun add_to_group :: "string \<Rightarrow> nat \<Rightarrow> filter_group list \<Rightarrow> filter_group list option" where
  "add_to_group key c [] = None"
| "add_to_group key c ((k, p, cs) # gs) = (if k = key then Some ((k, p, cs @ [c]) # gs) else map_option ((#) (k, p, cs)) (add_to_group key c gs))"

definition group_client :: "frontClient \<Rightarrow> filter_group list \<Rightarrow> filter_group list" where
  "group_client c gs =
     (let fresh = gs @ [(fc_filterKey c, fc_pred c, [fc_id c])] in
      if fc_filterKey c = [] then fresh
      else (case add_to_group (fc_filterKey c) (fc_id c) gs of None \<Rightarrow> fresh | Some gs' \<Rightarrow> gs'))"

definition filter_groups :: "frontClient list \<Rightarrow> filter_group list" where
  "filter_groups clients = fold group_client clients []"

definition send_live :: "bytes list \<Rightarrow> frontClient \<Rightarrow> frontClient" where
  "send_live raws c = (case trySend (hub_batch raws) c of (ok, c') \<Rightarrow> c'\<lparr>fc_log := fc_log c' @ map (\<lambda>r. (r, ok)) raws\<rparr>)"

definition flush_group :: "(Entry \<times> bytes) list \<Rightarrow> filter_group \<Rightarrow> fanout \<Rightarrow> fanout" where
  "flush_group batch g s =
     (case g of (key, pred, ids) \<Rightarrow>
        let raws = map snd (filter (pred \<circ> fst) batch) in
        if raws = [] then s
        else s\<lparr>fo_clients := map (\<lambda>c. if fc_id c \<in> set ids then send_live raws c else c) (fo_clients s),
          fo_broadcastDropped := fo_broadcastDropped s
            + sum_list (map (\<lambda>c. if fc_id c \<in> set ids \<and> \<not> fst (trySend (hub_batch raws) c) then int (length raws) else 0) (fo_clients s))\<rparr>)"

definition flushBroadcast :: "fanout \<Rightarrow> fanout" where
  "flushBroadcast s =
     (if fo_pending s = [] then s
      else fold (flush_group (fo_pending s)) (filter_groups (fo_clients s)) (s\<lparr>fo_pending := [], fo_flushed := fo_flushed s @ fo_pending s\<rparr>))"

subsection \<open>Clients\<close>

text \<open>\<open>handleFront\<close> up to the registration, and the registration.\<close>

definition front_open :: "front_lib \<Rightarrow> string \<Rightarrow> fanout \<Rightarrow> fanout" where
  "front_open L f s =
     (let c = \<lparr>fc_id = fo_opened s, fc_send = [], fc_pred = (\<lambda>_. False), fc_filterKey = filterKeyReject, fc_queuedBytes = 0, fc_next = None, fc_log = [],
          fc_old = [], fc_replayed = [], fc_from = 0\<rparr>;
        c1 = (case CompileFilter (fl_golib L) f of
                Inl err \<Rightarrow> snd (trySend (fl_error_frame L err) c)
              | Inr pred \<Rightarrow> c\<lparr>fc_pred := pred, fc_filterKey := filterKeySource f\<rparr>);
        c2 = snd (trySend (fl_stats_frame L (fo_store s)) (replayHistory (fo_store s) (fc_pred c1) c1))
      in s\<lparr>fo_opening := fo_opening s @ [c2], fo_opened := fo_opened s + 1\<rparr>)"

definition front_register :: "nat \<Rightarrow> fanout \<Rightarrow> fanout" where
  "front_register i s =
     s\<lparr>fo_clients := fo_clients s @ map (\<lambda>c. c\<lparr>fc_from := length (fo_flushed s)\<rparr>) (filter (\<lambda>c. fc_id c = i) (fo_opening s)),
       fo_opening := filter (\<lambda>c. fc_id c \<noteq> i) (fo_opening s)\<rparr>"

definition front_leave :: "nat \<Rightarrow> fanout \<Rightarrow> fanout" where
  "front_leave i s = s\<lparr>fo_clients := filter (\<lambda>c. fc_id c \<noteq> i) (fo_clients s), fo_gone := fo_gone s @ filter (\<lambda>c. fc_id c = i) (fo_clients s)\<rparr>"

definition on_client :: "nat \<Rightarrow> (frontClient \<Rightarrow> frontClient) \<Rightarrow> fanout \<Rightarrow> fanout" where
  "on_client i f s = s\<lparr>fo_clients := map (\<lambda>c. if fc_id c = i then f c else c) (fo_clients s)\<rparr>"

text \<open>\<open>frontReader\<close> at a filter frame: the replay under the new filter, then the switch.\<close>

definition filter_replay :: "front_lib \<Rightarrow> store \<Rightarrow> string \<Rightarrow> frontClient \<Rightarrow> frontClient" where
  "filter_replay L s f c =
     (case CompileFilter (fl_golib L) f of
        Inl err \<Rightarrow> snd (trySend (fl_error_frame L err) c)
      | Inr pred \<Rightarrow> (replayHistory s pred c)\<lparr>fc_next := Some (pred, filterKeySource f)\<rparr>)"

definition filter_switch :: "nat \<Rightarrow> frontClient \<Rightarrow> frontClient" where
  "filter_switch flushed c =
     (case fc_next c of None \<Rightarrow> c
      | Some (pred, key) \<Rightarrow> c\<lparr>fc_pred := pred, fc_filterKey := key, fc_next := None, fc_old := fc_old c @ fc_log c, fc_log := [], fc_from := flushed\<rparr>)"

definition hub_ingest :: "front_lib \<Rightarrow> time \<Rightarrow> Entry \<Rightarrow> fanout \<Rightarrow> fanout" where
  "hub_ingest L now e s =
     (case store_add (fl_marshal L) (fl_iter L) now e (fo_store s) of (raw, st) \<Rightarrow>
        broadcast (e\<lparr>e_Seq := s_total (fo_store s) + 1\<rparr>) raw (s\<lparr>fo_store := st\<rparr>))"

datatype fan_event = Ingested time Entry | Flushed | Wrote nat | Opened string | Registered nat | Left nat | FilterReplay nat string | FilterSwitch nat | StatsTick

definition fan_step :: "front_lib \<Rightarrow> fan_event \<Rightarrow> fanout \<Rightarrow> fanout" where
  "fan_step L ev s =
     (case ev of
        Ingested now e \<Rightarrow> hub_ingest L now e s
      | Flushed \<Rightarrow> flushBroadcast s
      | Wrote i \<Rightarrow> on_client i front_written s
      | Opened f \<Rightarrow> front_open L f s
      | Registered i \<Rightarrow> front_register i s
      | Left i \<Rightarrow> front_leave i s
      | FilterReplay i f \<Rightarrow> on_client i (filter_replay L (fo_store s) f) s
      | FilterSwitch i \<Rightarrow> on_client i (filter_switch (length (fo_flushed s))) s
      | StatsTick \<Rightarrow> s\<lparr>fo_clients := map (\<lambda>c. snd (trySend (fl_stats_frame L (fo_store s)) c)) (fo_clients s)\<rparr>)"

definition fan_start :: "store \<Rightarrow> fanout" where
  "fan_start st = \<lparr>fo_store = st, fo_clients = [], fo_opening = [], fo_pending = [], fo_broadcastDropped = 0, fo_opened = 0, fo_flushed = [], fo_gone = []\<rparr>"

definition fan_run :: "front_lib \<Rightarrow> store \<Rightarrow> fan_event list \<Rightarrow> fanout" where
  "fan_run L st evs = fold (fan_step L) evs (fan_start st)"


subsection \<open>Queues\<close>

definition queue_ok :: "frontClient \<Rightarrow> bool" where
  "queue_ok c \<longleftrightarrow> fc_queuedBytes c = int (sum_list (map length (fc_send c))) \<and> length (fc_send c) \<le> 256
     \<and> (fc_queuedBytes c \<le> frontQueueBytes \<or> length (filter (\<lambda>b. b \<noteq> []) (fc_send c)) = 1)"

lemma no_bytes: "int (sum_list (map length bs)) = 0 \<Longrightarrow> filter (\<lambda>b. b \<noteq> []) bs = []"
  by (auto simp: filter_empty_conv)

lemma empty_bytes: "filter (\<lambda>b. b \<noteq> []) bs = [] \<Longrightarrow> sum_list (map length bs) = 0"
  by (simp add: filter_empty_conv)

lemma queue_ok_history [simp]: "queue_ok (c\<lparr>fc_replayed := x\<rparr>) = queue_ok c" "queue_ok (c\<lparr>fc_log := l\<rparr>) = queue_ok c"
  by (simp_all add: queue_ok_def)

lemma trySend_queue: "queue_ok c \<Longrightarrow> queue_ok (snd (trySend b c))"
  by (auto simp: trySend_def queue_ok_def Let_def frontQueueBytes_def dest: no_bytes)

lemma trySend_frame:
  "fc_id (snd (trySend b c)) = fc_id c" "fc_pred (snd (trySend b c)) = fc_pred c" "fc_filterKey (snd (trySend b c)) = fc_filterKey c"
  "fc_next (snd (trySend b c)) = fc_next c" "fc_log (snd (trySend b c)) = fc_log c" "fc_old (snd (trySend b c)) = fc_old c" "fc_from (snd (trySend b c)) = fc_from c"
  "fc_replayed (snd (trySend b c)) = fc_replayed c"
  by (simp_all add: trySend_def Let_def)

lemma written_queue:
  assumes "queue_ok c"
  shows "queue_ok (front_written c)"
proof (cases "fc_send c")
  case (Cons b bs)
  have "sum_list (map length bs) = 0" if "filter (\<lambda>b. b \<noteq> []) bs = []" using empty_bytes [OF that] .
  then have "int (sum_list (map length bs)) \<le> frontQueueBytes" if "filter (\<lambda>b. b \<noteq> []) bs = []" using that by (simp only: frontQueueBytes_def)
  then show ?thesis using assms Cons by (auto simp: front_written_def queue_ok_def split: if_splits)
qed (use assms in \<open>simp add: front_written_def\<close>)

lemma written_frame:
  "fc_id (front_written c) = fc_id c" "fc_pred (front_written c) = fc_pred c" "fc_filterKey (front_written c) = fc_filterKey c"
  "fc_next (front_written c) = fc_next c" "fc_log (front_written c) = fc_log c" "fc_old (front_written c) = fc_old c" "fc_from (front_written c) = fc_from c"
  by (simp_all add: front_written_def split: list.split)

lemma replay_chunk_frame:
  "fc_id (replay_chunk raws c) = fc_id c" "fc_pred (replay_chunk raws c) = fc_pred c" "fc_filterKey (replay_chunk raws c) = fc_filterKey c"
  "fc_next (replay_chunk raws c) = fc_next c" "fc_log (replay_chunk raws c) = fc_log c" "fc_old (replay_chunk raws c) = fc_old c"
  "fc_from (replay_chunk raws c) = fc_from c" "queue_ok c \<Longrightarrow> queue_ok (replay_chunk raws c)"
  by (simp_all add: replay_chunk_def case_prod_unfold trySend_frame trySend_queue)

lemma replay_frame:
  "fc_id (replayHistory s p c) = fc_id c" "fc_pred (replayHistory s p c) = fc_pred c" "fc_filterKey (replayHistory s p c) = fc_filterKey c"
  "fc_next (replayHistory s p c) = fc_next c" "fc_log (replayHistory s p c) = fc_log c" "fc_old (replayHistory s p c) = fc_old c"
  "fc_from (replayHistory s p c) = fc_from c" "queue_ok c \<Longrightarrow> queue_ok (replayHistory s p c)"
proof -
  have "fc_id (fold replay_chunk cs c) = fc_id c \<and> fc_pred (fold replay_chunk cs c) = fc_pred c \<and> fc_filterKey (fold replay_chunk cs c) = fc_filterKey c
    \<and> fc_next (fold replay_chunk cs c) = fc_next c \<and> fc_log (fold replay_chunk cs c) = fc_log c \<and> fc_old (fold replay_chunk cs c) = fc_old c
    \<and> fc_from (fold replay_chunk cs c) = fc_from c \<and> (queue_ok c \<longrightarrow> queue_ok (fold replay_chunk cs c))" for cs
    by (induction cs arbitrary: c) (simp_all add: replay_chunk_frame)
  note f = this [of "replay_chunks (recentRaw s 500 (Some p))"]
  show "fc_id (replayHistory s p c) = fc_id c" "fc_pred (replayHistory s p c) = fc_pred c" "fc_filterKey (replayHistory s p c) = fc_filterKey c"
    "fc_next (replayHistory s p c) = fc_next c" "fc_log (replayHistory s p c) = fc_log c" "fc_old (replayHistory s p c) = fc_old c"
    "fc_from (replayHistory s p c) = fc_from c" "queue_ok c \<Longrightarrow> queue_ok (replayHistory s p c)"
    using f by (simp_all add: replayHistory_def)
qed

definition missed :: "frontClient \<Rightarrow> int" where
  "missed c = int (length (filter (\<lambda>x. \<not> snd x) (fc_old c @ fc_log c)))"

lemma send_live_frame:
  "fc_id (send_live raws c) = fc_id c" "fc_pred (send_live raws c) = fc_pred c" "fc_filterKey (send_live raws c) = fc_filterKey c"
  "fc_next (send_live raws c) = fc_next c" "map fst (fc_log (send_live raws c)) = map fst (fc_log c) @ raws" "fc_from (send_live raws c) = fc_from c"
  "missed (send_live raws c) = missed c + (if fst (trySend (hub_batch raws) c) then 0 else int (length raws))" "queue_ok c \<Longrightarrow> queue_ok (send_live raws c)"
  by (simp_all add: send_live_def case_prod_unfold trySend_frame trySend_queue missed_def filter_map comp_def)

subsection \<open>Groups\<close>

lemma add_to_group_split:
  "add_to_group key i gs = Some gs' \<Longrightarrow> \<exists>xs p cs ys. gs = xs @ (key, p, cs) # ys \<and> gs' = xs @ (key, p, cs @ [i]) # ys"
proof (induction gs arbitrary: gs')
  case (Cons g gs)
  obtain k p cs where g: "g = (k, p, cs)" by (cases g)
  show ?case
  proof (cases "k = key")
    case True
    then have "gs' = [] @ (key, p, cs @ [i]) # gs" "g # gs = [] @ (key, p, cs) # gs" using Cons.prems g by auto
    then show ?thesis by blast
  next
    case False
    then obtain gs1 where "add_to_group key i gs = Some gs1" "gs' = g # gs1" using Cons.prems g by auto
    moreover from this(1) obtain xs p cs ys where "gs = xs @ (key, p, cs) # ys" "gs1 = xs @ (key, p, cs @ [i]) # ys" using Cons.IH by blast
    ultimately show ?thesis by (metis append_Cons)
  qed
qed simp

definition keys_agree :: "frontClient list \<Rightarrow> bool" where
  "keys_agree clients \<longleftrightarrow> (\<forall>c \<in> set clients. \<forall>d \<in> set clients. fc_filterKey c = fc_filterKey d \<longrightarrow> fc_filterKey c \<noteq> [] \<longrightarrow> fc_pred c = fc_pred d)"

lemma keys_agreeD:
  "keys_agree cs \<Longrightarrow> c \<in> set cs \<Longrightarrow> d \<in> set cs \<Longrightarrow> fc_filterKey c = fc_filterKey d \<Longrightarrow> fc_filterKey c \<noteq> [] \<Longrightarrow> fc_pred c = fc_pred d"
  unfolding keys_agree_def by blast

lemma keys_agree_subset: "keys_agree cs \<Longrightarrow> set ds \<subseteq> set cs \<Longrightarrow> keys_agree ds"
  unfolding keys_agree_def by blast

definition groups_ok :: "frontClient list \<Rightarrow> filter_group list \<Rightarrow> bool" where
  "groups_ok clients gs \<longleftrightarrow> distinct (concat (map (snd \<circ> snd) gs)) \<and> set (concat (map (snd \<circ> snd) gs)) = fc_id ` set clients
     \<and> (\<forall>g \<in> set gs. (\<exists>c \<in> set clients. fc_filterKey c = fst g \<and> fc_pred c = fst (snd g)) \<and> (\<forall>c \<in> set clients. fc_id c \<in> set (snd (snd g)) \<longrightarrow> fc_pred c = fst (snd g)))"

lemma group_client_ok:
  assumes "groups_ok cs gs" "keys_agree (cs @ [c])" "distinct (map fc_id (cs @ [c]))"
  shows "groups_ok (cs @ [c]) (group_client c gs)"
proof -
  have new: "fc_id c \<notin> set (concat (map (snd \<circ> snd) gs))" using assms(1,3) by (auto simp: groups_ok_def)
  have g: "(\<exists>d \<in> set cs. fc_filterKey d = fst g \<and> fc_pred d = fst (snd g)) \<and> (\<forall>d \<in> set cs. fc_id d \<in> set (snd (snd g)) \<longrightarrow> fc_pred d = fst (snd g))"
    if "g \<in> set gs" for g using assms(1) that by (simp add: groups_ok_def)
  have fresh: "groups_ok (cs @ [c]) (gs @ [(fc_filterKey c, fc_pred c, [fc_id c])])"
    using assms(1,3) new g unfolding groups_ok_def by (auto simp: image_iff)
  show ?thesis
  proof (cases "fc_filterKey c = [] \<or> add_to_group (fc_filterKey c) (fc_id c) gs = None")
    case True
    then have "group_client c gs = gs @ [(fc_filterKey c, fc_pred c, [fc_id c])]" by (elim disjE) (simp_all add: group_client_def Let_def)
    then show ?thesis using fresh by simp
  next
    case False
    then obtain gs' where gs': "add_to_group (fc_filterKey c) (fc_id c) gs = Some gs'" "fc_filterKey c \<noteq> []" by auto
    from add_to_group_split [OF gs'(1)] obtain xs p ids ys where s: "gs = xs @ (fc_filterKey c, p, ids) # ys" "gs' = xs @ (fc_filterKey c, p, ids @ [fc_id c]) # ys" by blast
    obtain d where "d \<in> set cs" "fc_filterKey d = fc_filterKey c" "fc_pred d = p" using g [of "(fc_filterKey c, p, ids)"] s by auto
    then have p: "p = fc_pred c" using keys_agreeD [OF assms(2), of d c] gs'(2) by simp
    have "distinct (concat (map (snd \<circ> snd) gs'))" using assms(1) new unfolding s groups_ok_def by auto
    moreover have "set (concat (map (snd \<circ> snd) gs')) = fc_id ` set (cs @ [c])" using assms(1) unfolding s groups_ok_def by auto
    moreover have "(\<exists>d \<in> set (cs @ [c]). fc_filterKey d = fst h \<and> fc_pred d = fst (snd h)) \<and> (\<forall>d \<in> set (cs @ [c]). fc_id d \<in> set (snd (snd h)) \<longrightarrow> fc_pred d = fst (snd h))"
      if h: "h \<in> set gs'" for h
    proof (cases "h = (fc_filterKey c, p, ids @ [fc_id c])")
      case True
      have "fc_pred e = p" if "e \<in> set cs" "fc_id e \<in> set ids" for e using g [of "(fc_filterKey c, p, ids)"] s(1) that by simp
      moreover have "fc_id e \<noteq> fc_id c" if "e \<in> set cs" for e using assms(3) imageI [OF that, of fc_id] by auto
      ultimately show ?thesis using True p by auto
    next
      case False
      then have "h \<in> set gs" using h s by auto
      then show ?thesis using g [of h] new by auto
    qed
    ultimately have "groups_ok (cs @ [c]) gs'" unfolding groups_ok_def by blast
    then show ?thesis using gs' by (simp add: group_client_def)
  qed
qed

lemma filter_groups_ok: "keys_agree cs \<Longrightarrow> distinct (map fc_id cs) \<Longrightarrow> groups_ok cs (filter_groups cs)"
proof (induction cs rule: rev_induct)
  case (snoc c cs)
  have "keys_agree cs" by (rule keys_agree_subset [OF snoc.prems(1)]) auto
  then have "groups_ok cs (filter_groups cs)" using snoc.IH snoc.prems(2) by simp
  from group_client_ok [OF this snoc.prems] show ?case by (simp add: filter_groups_def)
qed (simp add: filter_groups_def groups_ok_def)

subsection \<open>A flush is a flush for each client\<close>

definition matching :: "Predicate \<Rightarrow> (Entry \<times> bytes) list \<Rightarrow> bytes list" where
  "matching p batch = map snd (filter (p \<circ> fst) batch)"

definition flush_client :: "(Entry \<times> bytes) list \<Rightarrow> frontClient \<Rightarrow> frontClient" where
  "flush_client batch c = (if matching (fc_pred c) batch = [] then c else send_live (matching (fc_pred c) batch) c)"

definition group_act :: "(Entry \<times> bytes) list \<Rightarrow> filter_group \<Rightarrow> frontClient \<Rightarrow> frontClient" where
  "group_act batch g c = (if fc_id c \<in> set (snd (snd g)) \<and> matching (fst (snd g)) batch \<noteq> [] then send_live (matching (fst (snd g)) batch) c else c)"

lemma group_act_id [simp]: "fc_id (group_act batch g c) = fc_id c" "fc_id (fold (group_act batch) gs c) = fc_id c"
proof -
  show a: "fc_id (group_act batch g c) = fc_id c" for g c by (simp add: group_act_def send_live_frame)
  show "fc_id (fold (group_act batch) gs c) = fc_id c" by (induction gs arbitrary: c) (simp_all add: a)
qed

lemma acts_other: "fc_id c \<notin> set (concat (map (snd \<circ> snd) gs)) \<Longrightarrow> fold (group_act batch) gs c = c"
  by (induction gs) (auto simp: group_act_def)

lemma acts_flush:
  assumes "groups_ok cs gs" "c \<in> set cs"
  shows "fold (group_act batch) gs c = flush_client batch c"
proof -
  have "fc_id c \<in> set (concat (map (snd \<circ> snd) gs))" using assms by (simp add: groups_ok_def)
  then obtain g where g: "g \<in> set gs" "fc_id c \<in> set (snd (snd g))" by auto
  then obtain xs ys where s: "gs = xs @ g # ys" by (meson split_list)
  have "distinct (concat (map (snd \<circ> snd) gs))" using assms(1) by (simp add: groups_ok_def)
  then have out: "fc_id c \<notin> set (concat (map (snd \<circ> snd) xs))" "fc_id c \<notin> set (concat (map (snd \<circ> snd) ys))" using g(2) unfolding s by auto
  have "fst (snd g) = fc_pred c" using assms g by (simp add: groups_ok_def)
  then have "group_act batch g c = flush_client batch c" using g(2) by (simp add: group_act_def flush_client_def)
  moreover have "fc_id (flush_client batch c) = fc_id c" by (simp add: flush_client_def send_live_frame)
  ultimately show ?thesis using out by (simp add: s acts_other)
qed

text \<open>What was counted as dropped and not missed by a client that is still there.\<close>

definition drop_debt :: "fanout \<Rightarrow> int" where
  "drop_debt s = fo_broadcastDropped s - sum_list (map missed (fo_clients s))"

lemma flush_group_eq:
  "fo_clients (flush_group batch g s) = map (group_act batch g) (fo_clients s)"
  "drop_debt (flush_group batch g s) = drop_debt s"
  "flush_group batch g s = s\<lparr>fo_clients := fo_clients (flush_group batch g s), fo_broadcastDropped := fo_broadcastDropped (flush_group batch g s)\<rparr>"
proof -
  obtain k p ids where g: "g = (k, p, ids)" by (cases g)
  show "fo_clients (flush_group batch g s) = map (group_act batch g) (fo_clients s)"
    by (simp add: flush_group_def g group_act_def [abs_def] matching_def Let_def map_idI)
  have "sum_list (map (\<lambda>c. if fc_id c \<in> set ids \<and> \<not> fst (trySend (hub_batch raws) c) then int (length raws) else 0) cs)
      = sum_list (map missed (map (\<lambda>c. if fc_id c \<in> set ids then send_live raws c else c) cs)) - sum_list (map missed cs)" for raws cs
    by (induction cs) (simp_all add: send_live_frame)
  then show "drop_debt (flush_group batch g s) = drop_debt s"
    by (simp add: drop_debt_def flush_group_def g Let_def)
  show "flush_group batch g s = s\<lparr>fo_clients := fo_clients (flush_group batch g s), fo_broadcastDropped := fo_broadcastDropped (flush_group batch g s)\<rparr>"
    by (simp add: flush_group_def g Let_def)
qed

lemma flush_groups_eq:
  "fo_clients (fold (flush_group batch) gs s) = map (fold (group_act batch) gs) (fo_clients s)
    \<and> drop_debt (fold (flush_group batch) gs s) = drop_debt s
    \<and> (\<exists>cs d. fold (flush_group batch) gs s = s\<lparr>fo_clients := cs, fo_broadcastDropped := d\<rparr>)"
proof (induction gs arbitrary: s)
  case (Cons g gs)
  obtain cs d where "flush_group batch g s = s\<lparr>fo_clients := cs, fo_broadcastDropped := d\<rparr>" using flush_group_eq(3) by blast
  moreover obtain cs' d' where "fold (flush_group batch) gs (flush_group batch g s) = (flush_group batch g s)\<lparr>fo_clients := cs', fo_broadcastDropped := d'\<rparr>" using Cons by blast
  ultimately have "fold (flush_group batch) (g # gs) s = s\<lparr>fo_clients := cs', fo_broadcastDropped := d'\<rparr>" by simp
  then have "\<exists>cs d. fold (flush_group batch) (g # gs) s = s\<lparr>fo_clients := cs, fo_broadcastDropped := d\<rparr>" by blast
  then show ?case using Cons [of "flush_group batch g s"] flush_group_eq(1,2) [of batch g s] by simp
next
  case Nil
  have "s = s\<lparr>fo_clients := fo_clients s, fo_broadcastDropped := fo_broadcastDropped s\<rparr>" by simp
  then have "\<exists>cs d. s = s\<lparr>fo_clients := cs, fo_broadcastDropped := d\<rparr>" by blast
  then show ?case by simp
qed

lemma flush_per_client:
  assumes "keys_agree (fo_clients s)" "distinct (map fc_id (fo_clients s))"
  shows "\<exists>d. flushBroadcast s = s\<lparr>fo_clients := map (flush_client (fo_pending s)) (fo_clients s), fo_pending := [], fo_flushed := fo_flushed s @ fo_pending s, fo_broadcastDropped := d\<rparr>
    \<and> drop_debt (flushBroadcast s) = drop_debt s"
proof (cases "fo_pending s = []")
  case True
  have "map (flush_client []) (fo_clients s) = fo_clients s" by (simp add: flush_client_def matching_def map_idI)
  then show ?thesis using True by (intro exI [of _ "fo_broadcastDropped s"]) (simp add: flushBroadcast_def)
next
  case False
  let ?s = "s\<lparr>fo_pending := [], fo_flushed := fo_flushed s @ fo_pending s\<rparr>" and ?gs = "filter_groups (fo_clients s)"
  let ?r = "fold (flush_group (fo_pending s)) ?gs ?s"
  have "map (fold (group_act (fo_pending s)) ?gs) (fo_clients s) = map (flush_client (fo_pending s)) (fo_clients s)"
    using acts_flush [OF filter_groups_ok [OF assms]] by simp
  then have c: "fo_clients ?r = map (flush_client (fo_pending s)) (fo_clients s)" using flush_groups_eq [of "fo_pending s" ?gs ?s] by simp
  obtain cs d where r: "?r = ?s\<lparr>fo_clients := cs, fo_broadcastDropped := d\<rparr>" using flush_groups_eq [of "fo_pending s" ?gs ?s] by blast
  then have "cs = map (flush_client (fo_pending s)) (fo_clients s)" using c by simp
  moreover have "drop_debt ?r = drop_debt ?s" using flush_groups_eq [of "fo_pending s" ?gs ?s] by blast
  moreover have "drop_debt ?s = drop_debt s" by (simp add: drop_debt_def)
  ultimately show ?thesis using r False by (intro exI [of _ d] conjI) (simp_all add: flushBroadcast_def)
qed

subsection \<open>What every run keeps\<close>

definition pred_ok :: "golib \<Rightarrow> Predicate \<Rightarrow> string \<Rightarrow> bool" where
  "pred_ok L p key \<longleftrightarrow> (\<exists>f. CompileFilter L f = Inr p \<and> key = filterKeySource f) \<or> key = filterKeyReject \<and> p = (\<lambda>_. False)"

definition client_ok :: "golib \<Rightarrow> (Entry \<times> bytes) list \<Rightarrow> frontClient \<Rightarrow> bool" where
  "client_ok L flushed c \<longleftrightarrow> queue_ok c \<and> pred_ok L (fc_pred c) (fc_filterKey c)
     \<and> (\<forall>p k. fc_next c = Some (p, k) \<longrightarrow> pred_ok L p k)
     \<and> fc_from c \<le> length flushed \<and> map fst (fc_log c) = matching (fc_pred c) (drop (fc_from c) flushed)"

definition fan_ok :: "golib \<Rightarrow> fanout \<Rightarrow> bool" where
  "fan_ok L s \<longleftrightarrow> distinct (map fc_id (fo_clients s @ fo_opening s)) \<and> list_all (\<lambda>i. i < fo_opened s) (map fc_id (fo_clients s @ fo_opening s))
     \<and> list_all (client_ok L (fo_flushed s)) (fo_clients s)
     \<and> list_all (\<lambda>c. queue_ok c \<and> pred_ok L (fc_pred c) (fc_filterKey c) \<and> fc_next c = None \<and> fc_log c = [] \<and> fc_old c = []) (fo_opening s)
     \<and> drop_debt s = sum_list (map missed (fo_gone s))"

lemma same_key_pred: "pred_ok L p k \<Longrightarrow> pred_ok L q k \<Longrightarrow> p = q"
  by (auto simp: pred_ok_def filterKeySource_def filterKeyReject_def)

lemma keys_agree_ok: "list_all (client_ok L flushed) cs \<Longrightarrow> keys_agree cs"
  unfolding keys_agree_def list_all_iff client_ok_def using same_key_pred by metis

lemma matching_append: "matching p (xs @ ys) = matching p xs @ matching p ys"
  by (simp add: matching_def)

lemma flush_client_ok:
  assumes "client_ok L flushed c"
  shows "client_ok L (flushed @ batch) (flush_client batch c)"
proof -
  have "map fst (fc_log (flush_client batch c)) = map fst (fc_log c) @ matching (fc_pred c) batch" by (simp add: flush_client_def send_live_frame)
  then show ?thesis using assms by (simp add: client_ok_def flush_client_def send_live_frame matching_append)
qed

lemma client_ok_same:
  assumes "client_ok L flushed c" "queue_ok d" "fc_pred d = fc_pred c" "fc_filterKey d = fc_filterKey c" "fc_next d = fc_next c" "fc_log d = fc_log c" "fc_from d = fc_from c"
  shows "client_ok L flushed d"
  using assms by (simp add: client_ok_def)

lemma filter_replay_ok: "client_ok (fl_golib F) flushed c \<Longrightarrow> client_ok (fl_golib F) flushed (filter_replay F st f c)"
proof -
  assume c: "client_ok (fl_golib F) flushed c"
  have q: "queue_ok (d\<lparr>fc_next := x\<rparr>) = queue_ok d" for d x by (simp add: queue_ok_def)
  show ?thesis using c
    by (auto simp: filter_replay_def client_ok_def trySend_frame trySend_queue replay_frame q pred_ok_def split: sum.split)
qed

lemma filter_switch_ok: "client_ok L flushed c \<Longrightarrow> client_ok L flushed (filter_switch (length flushed) c)"
proof -
  assume c: "client_ok L flushed c"
  have q: "queue_ok (d\<lparr>fc_pred := p, fc_filterKey := k, fc_next := n, fc_old := old, fc_log := l, fc_from := i\<rparr>) = queue_ok d" for d p k n old l i
    by (simp add: queue_ok_def)
  show ?thesis using c by (auto simp: filter_switch_def client_ok_def q matching_def split: option.split)
qed

lemma missed_same: "fc_log d = fc_log c \<Longrightarrow> fc_old d = fc_old c \<Longrightarrow> missed d = missed c"
  by (simp add: missed_def)

lemma fan_ok_clients:
  assumes "fan_ok L s" "map fc_id (fo_clients s') = map fc_id (fo_clients s)" "list_all (client_ok L (fo_flushed s')) (fo_clients s')" "drop_debt s' = drop_debt s"
    "fo_opening s' = fo_opening s" "fo_opened s' = fo_opened s" "fo_gone s' = fo_gone s"
  shows "fan_ok L s'"
  using assms unfolding fan_ok_def map_append by simp

lemma on_client_ok:
  assumes "fan_ok L s" "\<And>c. client_ok L (fo_flushed s) c \<Longrightarrow> client_ok L (fo_flushed s) (f c)" "\<And>c. fc_id (f c) = fc_id c" "\<And>c. missed (f c) = missed c"
  shows "fan_ok L (s\<lparr>fo_clients := map (\<lambda>c. if P c then f c else c) (fo_clients s)\<rparr>)"
proof (rule fan_ok_clients [OF assms(1)])
  let ?s = "s\<lparr>fo_clients := map (\<lambda>c. if P c then f c else c) (fo_clients s)\<rparr>"
  show "map fc_id (fo_clients ?s) = map fc_id (fo_clients s)" using assms(3) by simp
  have "map missed (fo_clients ?s) = map missed (fo_clients s)" using assms(4) by simp
  then show "drop_debt ?s = drop_debt s" by (simp only: drop_debt_def) simp
  show "list_all (client_ok L (fo_flushed ?s)) (fo_clients ?s)" using assms(1,2) by (auto simp: fan_ok_def list_all_iff)
qed simp_all

lemma open_ok: "fan_ok (fl_golib F) s \<Longrightarrow> fan_ok (fl_golib F) (front_open F f s)"
proof -
  assume ok: "fan_ok (fl_golib F) s"
  define c0 where "c0 = \<lparr>fc_id = fo_opened s, fc_send = [], fc_pred = (\<lambda>_. False), fc_filterKey = filterKeyReject, fc_queuedBytes = 0, fc_next = None, fc_log = [],
          fc_old = [], fc_replayed = [], fc_from = 0\<rparr>"
  define c1 where "c1 = (case CompileFilter (fl_golib F) f of Inl err \<Rightarrow> snd (trySend (fl_error_frame F err) c0) | Inr pred \<Rightarrow> c0\<lparr>fc_pred := pred, fc_filterKey := filterKeySource f\<rparr>)"
  define c2 where "c2 = snd (trySend (fl_stats_frame F (fo_store s)) (replayHistory (fo_store s) (fc_pred c1) c1))"
  have "queue_ok c0" by (simp add: queue_ok_def c0_def frontQueueBytes_def)
  moreover have "queue_ok (c0\<lparr>fc_pred := p, fc_filterKey := k\<rparr>) = queue_ok c0" for p k by (simp add: queue_ok_def)
  ultimately have "queue_ok c1" by (simp add: c1_def trySend_queue split: sum.split)
  moreover have "fc_id c1 = fo_opened s \<and> pred_ok (fl_golib F) (fc_pred c1) (fc_filterKey c1) \<and> fc_next c1 = None \<and> fc_log c1 = [] \<and> fc_old c1 = []"
    by (auto simp: c1_def trySend_frame pred_ok_def c0_def split: sum.split)
  ultimately have c2: "queue_ok c2 \<and> pred_ok (fl_golib F) (fc_pred c2) (fc_filterKey c2) \<and> fc_next c2 = None \<and> fc_log c2 = [] \<and> fc_old c2 = []" "fc_id c2 = fo_opened s"
    by (simp_all add: c2_def trySend_frame trySend_queue replay_frame)
  have "front_open F f s = s\<lparr>fo_opening := fo_opening s @ [c2], fo_opened := fo_opened s + 1\<rparr>"
    by (simp only: front_open_def Let_def c0_def [symmetric] c1_def [symmetric] c2_def [symmetric])
  moreover have "fan_ok (fl_golib F) (s\<lparr>fo_opening := fo_opening s @ [c2], fo_opened := fo_opened s + 1\<rparr>)"
    using ok c2 unfolding fan_ok_def drop_debt_def by (auto simp: less_Suc_eq list_all_iff)
  ultimately show ?thesis by simp
qed

lemma register_ok: "fan_ok L s \<Longrightarrow> fan_ok L (front_register i s)"
proof -
  assume ok: "fan_ok L s"
  let ?f = "\<lambda>c. c\<lparr>fc_from := length (fo_flushed s)\<rparr>" and ?new = "filter (\<lambda>c. fc_id c = i) (fo_opening s)"
  have "queue_ok (?f c) = queue_ok c" for c by (simp add: queue_ok_def)
  then have "list_all (client_ok L (fo_flushed s)) (map ?f ?new)" using ok by (auto simp: fan_ok_def list_all_iff client_ok_def matching_def)
  moreover have "\<forall>c \<in> set (map ?f ?new). missed c = 0" using ok by (auto simp: fan_ok_def list_all_iff missed_def)
  then have "sum_list (map missed (map ?f ?new)) = 0" by (metis (no_types, lifting) map_cong sum_list_0)
  moreover have "distinct (map fc_id (fo_clients s @ map ?f ?new @ filter (\<lambda>c. fc_id c \<noteq> i) (fo_opening s)))"
    using ok by (auto simp: fan_ok_def distinct_map_filter comp_def)
  ultimately show ?thesis using ok unfolding fan_ok_def front_register_def drop_debt_def by (auto simp: list_all_iff)
qed

lemma leave_ok: "fan_ok L s \<Longrightarrow> fan_ok L (front_leave i s)"
proof -
  assume ok: "fan_ok L s"
  have "sum_list (map missed (filter (\<lambda>c. fc_id c \<noteq> i) cs)) + sum_list (map missed (filter (\<lambda>c. fc_id c = i) cs)) = sum_list (map missed cs)" for cs
    by (induction cs) auto
  from this [of "fo_clients s"] show ?thesis using ok unfolding fan_ok_def front_leave_def drop_debt_def
    by (auto simp: list_all_iff distinct_map_filter)
qed

lemma ingest_ok_fan: "fan_ok L s \<Longrightarrow> fan_ok L (hub_ingest F now e s)"
  by (cases "store_add (fl_marshal F) (fl_iter F) now e (fo_store s)")
    (auto simp: hub_ingest_def broadcast_def fan_ok_def drop_debt_def split: option.split)

lemma flush_ok_fan: "fan_ok L s \<Longrightarrow> fan_ok L (flushBroadcast s)"
proof -
  assume ok: "fan_ok L s"
  let ?cs = "map (flush_client (fo_pending s)) (fo_clients s)"
  have "keys_agree (fo_clients s)" "distinct (map fc_id (fo_clients s))" using ok keys_agree_ok by (auto simp: fan_ok_def)
  from flush_per_client [OF this] obtain d where f: "flushBroadcast s = s\<lparr>fo_clients := ?cs, fo_pending := [], fo_flushed := fo_flushed s @ fo_pending s, fo_broadcastDropped := d\<rparr>"
      "drop_debt (flushBroadcast s) = drop_debt s" by blast
  have "map fc_id ?cs = map fc_id (fo_clients s)" by (simp add: flush_client_def send_live_frame)
  moreover have "list_all (client_ok L (fo_flushed s @ fo_pending s)) ?cs" using ok flush_client_ok by (auto simp: fan_ok_def list_all_iff)
  ultimately show ?thesis by (intro fan_ok_clients [OF ok _ _ f(2)]) (simp_all add: f(1))
qed

lemma fan_step_ok: "fan_ok (fl_golib F) s \<Longrightarrow> fan_ok (fl_golib F) (fan_step F ev s)"
proof (cases ev)
  case (Wrote i)
  assume ok: "fan_ok (fl_golib F) s"
  show ?thesis unfolding Wrote fan_step_def on_client_def fan_event.case
    by (rule on_client_ok [OF ok]) (auto simp: client_ok_def written_queue written_frame missed_def)
next
  case (FilterReplay i f)
  assume ok: "fan_ok (fl_golib F) s"
  show ?thesis unfolding FilterReplay fan_step_def on_client_def fan_event.case
    by (rule on_client_ok [OF ok filter_replay_ok])
      (auto simp: filter_replay_def trySend_frame replay_frame missed_def split: sum.split)
next
  case (FilterSwitch i)
  assume ok: "fan_ok (fl_golib F) s"
  show ?thesis unfolding FilterSwitch fan_step_def on_client_def fan_event.case
    by (rule on_client_ok [OF ok filter_switch_ok]) (auto simp: filter_switch_def missed_def split: option.split)
next
  case StatsTick
  assume ok: "fan_ok (fl_golib F) s"
  have "fan_ok (fl_golib F) (s\<lparr>fo_clients := map (\<lambda>c. if True then snd (trySend (fl_stats_frame F (fo_store s)) c) else c) (fo_clients s)\<rparr>)"
    by (rule on_client_ok [OF ok]) (auto simp: client_ok_def trySend_queue trySend_frame missed_def)
  then show ?thesis by (simp add: StatsTick fan_step_def)
qed (simp_all add: fan_step_def ingest_ok_fan flush_ok_fan open_ok register_ok leave_ok)

lemma fan_run_ok: "fan_ok (fl_golib F) (fan_run F st evs)"
proof (induction evs rule: rev_induct)
  case Nil
  show ?case by (simp add: fan_run_def fan_start_def fan_ok_def drop_debt_def)
next
  case (snoc ev evs)
  then show ?case using fan_step_ok by (simp add: fan_run_def)
qed


text \<open>What waits for a front end is bounded: at most 256 frames, and at most 16 MiB unless a single frame alone exceeds it; the byte counter is exact.\<close>

theorem front_queue_bounded:
  "list_all (\<lambda>c. fc_queuedBytes c = int (sum_list (map length (fc_send c))) \<and> length (fc_send c) \<le> 256
      \<and> (fc_queuedBytes c \<le> frontQueueBytes \<or> length (filter (\<lambda>b. b \<noteq> []) (fc_send c)) = 1))
    (fo_clients (fan_run L st evs) @ fo_opening (fan_run L st evs))"
  using fan_run_ok [of L st evs] by (auto simp: fan_ok_def list_all_iff client_ok_def queue_ok_def)

subsection \<open>Replays\<close>

text \<open>A replay sends the history in chronological order, in frames of at most 100 entries.\<close>

theorem replay_chronological:
  "concat (replay_chunks hs) = rev hs \<and> list_all (\<lambda>c. c \<noteq> [] \<and> length c \<le> replayBatchSize) (replay_chunks hs)"
proof (induction hs rule: replay_chunks.induct)
  case (1 hs)
  show ?case
  proof (cases "hs = []")
    case False
    let ?k = "length hs - replayBatchSize"
    have r: "replay_chunks hs = rev (drop ?k hs) # replay_chunks (take ?k hs)" using False by (subst replay_chunks.simps) (simp add: Let_def)
    have "rev (drop ?k hs) @ rev (take ?k hs) = rev hs" by (metis append_take_drop_id rev_append)
    moreover have "?k < length hs" using False by (simp add: replayBatchSize_def)
    ultimately show ?thesis using 1 [OF False refl] by (simp add: r)
  qed (simp add: replay_chunks.simps)
qed

lemma recentRaw_eq:
  assumes "ring_ok s" "0 < limit"
  shows "recentRaw s limit (Some p) = map snd (take (nat limit) (filter (wanted False 0 (Some p) \<circ> fst) (with_raw (history s))))"
  using pick_page_map [of limit snd "with_raw (history s)" fst False "[]" False 0 "Some p"] live_le_capacity [of s] assms
  by (simp add: recentRaw_def snapshotRaw_eq scanDepth_def behind_def Let_def)


lemma stored_alone:
  assumes "0 < capacity" "int (length r) \<le> 1000000" "fl_marshal L (e\<lparr>e_Seq := 1\<rparr>) = Some r"
  shows "\<exists>st. store_add (fl_marshal L) (fl_iter L) now e (newStore G capacity []) = (Some r, st) \<and> recentRaw st 500 (Some (\<lambda>_. True)) = [r]"
proof -
  let ?e = "e\<lparr>e_Seq := 1\<rparr>" and ?s = "(newStore G capacity [])\<lparr>s_total := 1\<rparr>"
  have n: "ring_ok ?s" "history ?s = []"
    using ring_ok_newStore [OF assms(1), of G "[]"] history_newStore [of G capacity "[]"] by (simp_all add: ring_ok_def history_def slot_def)
  have b: "s_capacity ?s = capacity" "s_byteBudget ?s = 67108864" by (simp_all add: newStore_def)
  have "ring_ok (add_commit ?e (Some r) now ?s)" "history (add_commit ?e (Some r) now ?s) = [(?e, Some r)]"
    using add_commit_ok [OF n(1), of ?e "Some r" now] n(2) b assms(1,2) by (auto simp: remember_def raw_len_def take_Cons')
  then have "recentRaw (add_observe (fl_iter L) ?e (add_commit ?e (Some r) now ?s)) 500 (Some (\<lambda>_. True)) = [r]"
    using add_observe_frame by (simp add: recentRaw_eq wanted_def with_raw_def List.map_filter_simps)
  moreover have "s_total (newStore G capacity []) = 0" by (simp add: newStore_def)
  ultimately show ?thesis by (simp add: store_add_def add_begin_def assms(3) Let_def)
qed

lemma empty_replay: "0 < capacity \<Longrightarrow> recentRaw (newStore G capacity []) 500 (Some p) = []"
  by (simp add: recentRaw_eq ring_ok_newStore history_newStore with_raw_def List.map_filter_simps)

lemma match_all: "CompileFilter G [] = Inr (\<lambda>_. True)"
proof -
  have "trim_space [] = []" by (simp add: trim_space_def)
  then show ?thesis by (simp add: CompileFilter_def)
qed

text \<open>C35: A client that connects receives twice the entries of the current window, which are both in the history it is sent and still to be flushed, though registering
  it after the replay is said to avoid that.\<close>

theorem replay_duplicates_pending:
  assumes "0 < capacity" "int (length r) \<le> 1000000" "fl_marshal L (e\<lparr>e_Seq := 1\<rparr>) = Some r" "\<forall>st. length (fl_stats_frame L st) \<le> 1000000"
  shows "\<exists>c \<in> set (fo_clients (fan_run L (newStore (fl_golib L) capacity []) [Opened [], Registered 0, Ingested now e, Opened [], Registered 1, Flushed])).
    fc_id c = 1 \<and> fc_replayed c = [r] \<and> fc_log c = [(r, True)]"
proof -
  let ?st = "newStore (fl_golib L) capacity []" and ?p = "\<lambda>_ :: Entry. True"
  obtain st where st: "store_add (fl_marshal L) (fl_iter L) now e ?st = (Some r, st)" "recentRaw st 500 (Some ?p) = [r]"
    using stored_alone [OF assms(1-3)] by blast
  have opened: "\<exists>c. front_open L [] s = s\<lparr>fo_opening := fo_opening s @ [c], fo_opened := fo_opened s + 1\<rparr> \<and> fc_id c = fo_opened s \<and> fc_pred c = ?p \<and> fc_log c = []
      \<and> (recentRaw (fo_store s) 500 (Some ?p) = [r] \<longrightarrow> fc_replayed c = [r] \<and> fc_queuedBytes c \<le> 2000100 \<and> length (fc_send c) = 2)" for s
  proof -
    define c1 where "c1 = \<lparr>fc_id = fo_opened s, fc_send = [], fc_pred = ?p, fc_filterKey = filterKeySource [], fc_queuedBytes = 0, fc_next = None, fc_log = [],
          fc_old = [], fc_replayed = [], fc_from = 0\<rparr>"
    define c2 where "c2 = snd (trySend (fl_stats_frame L (fo_store s)) (replayHistory (fo_store s) ?p c1))"
    have "front_open L [] s = s\<lparr>fo_opening := fo_opening s @ [c2], fo_opened := fo_opened s + 1\<rparr>"
      by (simp add: front_open_def match_all c2_def c1_def Let_def)
    moreover have "fc_id c2 = fo_opened s \<and> fc_pred c2 = ?p \<and> fc_log c2 = []" by (simp add: c2_def trySend_frame replay_frame) (simp add: c1_def)
    moreover have "fc_replayed c2 = [r] \<and> fc_queuedBytes c2 \<le> 2000100 \<and> length (fc_send c2) = 2" if rr: "recentRaw (fo_store s) 500 (Some ?p) = [r]"
    proof -
      have "replay_chunks [r] = [[r]]" by (simp add: replay_chunks.simps replayBatchSize_def)
      then have "replayHistory (fo_store s) ?p c1 = replay_chunk [r] c1" by (simp add: replayHistory_def rr)
      also have "\<dots> = c1\<lparr>fc_send := [hub_batch [r]], fc_queuedBytes := int (length (hub_batch [r])), fc_replayed := [r]\<rparr>"
        by (simp add: replay_chunk_def trySend_def c1_def)
      finally have "replayHistory (fo_store s) ?p c1 = c1\<lparr>fc_send := [hub_batch [r]], fc_queuedBytes := int (length (hub_batch [r])), fc_replayed := [r]\<rparr>" .
      moreover have "int (length (fl_stats_frame L (fo_store s))) \<le> 1000000" using assms(4) by (metis of_nat_le_iff of_nat_numeral)
      moreover have "int (length (hub_batch [r])) \<le> 1000100" using assms(2) by (simp add: hub_batch_def)
      ultimately show ?thesis by (simp add: c2_def trySend_def frontQueueBytes_def Let_def)
    qed
    ultimately show ?thesis by blast
  qed
  define s0 where "s0 = fan_start ?st"
  define s2 where "s2 = front_register 0 (front_open L [] s0)"
  define s3 where "s3 = hub_ingest L now e s2"
  define s5 where "s5 = front_register 1 (front_open L [] s3)"
  from opened [of s0] obtain a where "front_open L [] s0 = s0\<lparr>fo_opening := fo_opening s0 @ [a], fo_opened := fo_opened s0 + 1\<rparr>" "fc_id a = fo_opened s0" by blast
  then have s2: "fo_clients s2 \<noteq> []" "fo_opening s2 = []" "fo_pending s2 = []" "fo_store s2 = ?st" "fo_opened s2 = 1" "fo_flushed s2 = []"
    by (simp_all add: s2_def front_register_def s0_def fan_start_def)
  have "s_total ?st = 0" by (simp add: newStore_def)
  then have s3: "s3 = s2\<lparr>fo_store := st, fo_pending := [(e\<lparr>e_Seq := 1\<rparr>, r)]\<rparr>"
    using s2 st(1) by (simp add: s3_def hub_ingest_def broadcast_def)
  from opened [of s3] obtain b where b: "front_open L [] s3 = s3\<lparr>fo_opening := fo_opening s3 @ [b], fo_opened := fo_opened s3 + 1\<rparr>" "fc_id b = 1" "fc_pred b = ?p" "fc_log b = []"
      "fc_replayed b = [r]" "fc_queuedBytes b \<le> 2000100" "length (fc_send b) = 2" using s2 st(2) by (auto simp: s3)
  let ?b = "b\<lparr>fc_from := 0\<rparr>"
  have s5: "fo_clients s5 = fo_clients s2 @ [?b]" "fo_pending s5 = [(e\<lparr>e_Seq := 1\<rparr>, r)]" using s2 b by (simp_all add: s5_def front_register_def s3)
  have "s5 = fan_run L ?st [Opened [], Registered 0, Ingested now e, Opened [], Registered 1]"
    by (simp add: fan_run_def fan_step_def s5_def s3_def s2_def s0_def)
  then have "fan_ok (fl_golib L) s5" using fan_run_ok by simp
  then have "keys_agree (fo_clients s5)" "distinct (map fc_id (fo_clients s5))" using keys_agree_ok by (auto simp: fan_ok_def)
  from flush_per_client [OF this] have "flush_client (fo_pending s5) ?b \<in> set (fo_clients (flushBroadcast s5))" using s5(1) by auto
  moreover have "flush_client (fo_pending s5) ?b = send_live [r] ?b" using b(3) by (simp add: flush_client_def matching_def s5(2))
  moreover have "fst (trySend (hub_batch [r]) ?b)" using b(6,7) assms(2) by (simp add: trySend_def Let_def frontQueueBytes_def hub_batch_def)
  then have "fc_log (send_live [r] ?b) = [(r, True)]" "fc_replayed (send_live [r] ?b) = [r]" "fc_id (send_live [r] ?b) = 1"
    using b by (simp_all add: send_live_def trySend_frame case_prod_unfold)
  moreover have "fan_run L ?st [Opened [], Registered 0, Ingested now e, Opened [], Registered 1, Flushed] = flushBroadcast s5"
    by (simp add: fan_run_def fan_step_def s5_def s3_def s2_def s0_def)
  ultimately show ?thesis by auto
qed

definition example_front :: front_lib where
  "example_front = \<lparr>fl_golib = ascii_lib, fl_error_frame = (\<lambda>_. ''e''), fl_stats_frame = (\<lambda>_. ''s''), fl_marshal = (\<lambda>_. Some ''{}''), fl_iter = id\<rparr>"

theorem replay_duplicates_pending_witness:
  "\<exists>c \<in> set (fo_clients (fan_run example_front (newStore ascii_lib 8 []) [Opened [], Registered 0, Ingested 5 zero_Entry, Opened [], Registered 1, Flushed])).
    fc_id c = 1 \<and> fc_replayed c = [''{}''] \<and> fc_log c = [(''{}'', True)]"
  using replay_duplicates_pending [of 8 "''{}''" example_front zero_Entry 5] by (simp add: example_front_def)

end
