(* ===== verification/Hub_Rest.thy ===== *)
theory Hub_Rest
  imports Hub_Broadcast Hub_Summary Hub_Sort Worker_Url
begin

text \<open>
  The REST handlers of the hub, \<open>internal/hub/server.go\<close>: parameters, queries, reports with their short-lived cache, field values and the statistics history.
  A handler gives an error or what it answers; writing it as JSON is not modelled, except that the reports take the marshalled body as a parameter.  The parsers of RFC 3339
  and of durations, and the readings of the clock, are parameters.
\<close>

record rest_env =
  re_lib :: golib
  re_rfc3339 :: "string \<Rightarrow> time option"
  re_duration :: "string \<Rightarrow> int option"

datatype rest_error = BadFilter filter_error | BadSince | BadUntil | BadOrder | BadSortField | BadSeq | BadGroupBy | EncodeFailed

subsection \<open>Parameters\<close>

definition clampInt :: "int \<Rightarrow> int \<Rightarrow> int \<Rightarrow> int" where
  "clampInt n lo hi = (if n < lo then lo else if n > hi then hi else n)"

definition sortOrder :: "url_values \<Rightarrow> bool option" where
  "sortOrder q = (let v = header_get q ''order'' in if v = [] \<or> v = ''desc'' then Some True else if v = ''asc'' then Some False else None)"

definition parseTimeParam :: "rest_env \<Rightarrow> time \<Rightarrow> string \<Rightarrow> time option" where
  "parseTimeParam E now v =
     (case re_rfc3339 E v of Some t \<Rightarrow> Some t
      | None \<Rightarrow> (case atoi v of Some secs \<Rightarrow> Some (secs * 1000000000)
          | None \<Rightarrow> (case re_duration E v of Some d \<Rightarrow> if d > 0 then Some (now - d) else None | None \<Rightarrow> None)))"

text \<open>An absent end is the zero time; the clock is read for each relative end.\<close>

definition timeRange :: "rest_env \<Rightarrow> time \<times> time \<Rightarrow> url_values \<Rightarrow> rest_error + time \<times> time" where
  "timeRange E now q =
     (let since = header_get q ''since''; until = header_get q ''until'' in
      (case (if since = [] then Some zero_time else parseTimeParam E (fst now) since) of
         None \<Rightarrow> Inl BadSince
       | Some s \<Rightarrow> (case (if until = [] then Some zero_time else parseTimeParam E (snd now) until) of
           None \<Rightarrow> Inl BadUntil | Some u \<Rightarrow> Inr (s, u))))"

definition queryPredicate :: "rest_env \<Rightarrow> time \<times> time \<Rightarrow> url_values \<Rightarrow> rest_error + Predicate" where
  "queryPredicate E now q =
     (case CompileFilter (re_lib E) (header_get q ''filter'') of
        Inl err \<Rightarrow> Inl (BadFilter err)
      | Inr pred \<Rightarrow> (case timeRange E now q of
          Inl err \<Rightarrow> Inl err
        | Inr (since, until) \<Rightarrow>
            if since = zero_time \<and> until = zero_time then Inr pred
            else Inr (\<lambda>e. if since \<noteq> zero_time \<and> e_Timestamp e < since then False
              else if until \<noteq> zero_time \<and> e_Timestamp e > until then False else pred e)))"

subsection \<open>Entries\<close>

datatype entries_reply = Structs "Entry list" | Raws "bytes list"

definition entries_limit :: "store \<Rightarrow> url_values \<Rightarrow> int" where
  "entries_limit st q =
     (let v = header_get q ''limit'' in
      if v = [] then 200 else (case atoi v of Some n \<Rightarrow> if n > 0 then clampInt n 1 (int (s_capacity st)) else 200 | None \<Rightarrow> 200))"

definition handleEntries :: "rest_env \<Rightarrow> time \<times> time \<Rightarrow> store \<Rightarrow> url_values \<Rightarrow> rest_error + entries_reply" where
  "handleEntries E now st q =
     (let limit = entries_limit st q in
      case queryPredicate E now q of
        Inl err \<Rightarrow> Inl err
      | Inr pred \<Rightarrow>
          let sortField = header_get q ''sort''; beforeSeq = header_get q ''before_seq''; before = header_get q ''before'' in
          if sortField \<noteq> [] then
            (case sortOrder q of
               None \<Rightarrow> Inl BadOrder
             | Some desc \<Rightarrow>
                 if \<not> validSortField sortField then Inl BadSortField
                 else Inr (Structs (topNBySort (re_lib E) (recent st (int (s_capacity st)) (Some pred))
                   (case fieldGetter (re_lib E) sortField of Some g \<Rightarrow> g | None \<Rightarrow> (\<lambda>_. [])) desc (nat limit))))
          else if beforeSeq \<noteq> [] then
            (case atoi beforeSeq of None \<Rightarrow> Inl BadSeq | Some n \<Rightarrow> Inr (Raws (recentBeforeSeqRaw st n limit (Some pred))))
          else if before \<noteq> [] then Inr (Raws (recentBeforeRaw st before limit (Some pred)))
          else Inr (Raws (recentRaw st limit (Some pred))))"

definition handleEntry :: "store \<Rightarrow> string \<Rightarrow> Entry option" where
  "handleEntry st path = store_get st (drop (length ''/api/entry/'') path)"

subsection \<open>The cache of the reports\<close>

definition aggCacheTTL :: int where "aggCacheTTL = 1000000000"
definition aggMaxBytes :: int where "aggMaxBytes = 4194304"

type_synonym agg_map = "(string \<times> bytes \<times> time) list"

record agg_cache =
  ag_map :: agg_map
  ag_bytes :: int

definition agg_remove :: "nat \<Rightarrow> agg_cache \<Rightarrow> agg_cache" where
  "agg_remove i c = \<lparr>ag_map = take i (ag_map c) @ drop (Suc i) (ag_map c), ag_bytes = ag_bytes c - int (length (fst (snd (ag_map c ! i))))\<rparr>"

lemma agg_remove_less: "i < length (ag_map c) \<Longrightarrow> length (ag_map (agg_remove i c)) < length (ag_map c)"
  by (simp add: agg_remove_def)

text \<open>\<open>victim\<close> is the element with which Go starts to range over the map.\<close>

function agg_evict :: "(agg_map \<Rightarrow> nat) \<Rightarrow> int \<Rightarrow> agg_cache \<Rightarrow> agg_cache" where
  "agg_evict victim n c =
     (if (length (ag_map c) \<ge> 32 \<or> ag_bytes c + n > aggMaxBytes) \<and> ag_map c \<noteq> []
      then agg_evict victim n (agg_remove (victim (ag_map c) mod length (ag_map c)) c) else c)"
  by pat_completeness auto
termination
proof (relation "measure (\<lambda>(victim, n, c). length (ag_map c))", goal_cases)
  case (2 victim n c)
  then have "victim (ag_map c) mod length (ag_map c) < length (ag_map c)" by simp
  then show ?case using agg_remove_less by simp
qed simp

declare agg_evict.simps [simp del]

definition agg_forget :: "string \<Rightarrow> agg_cache \<Rightarrow> agg_cache" where
  "agg_forget key c =
     (case map_of (ag_map c) key of None \<Rightarrow> c
      | Some (body, t) \<Rightarrow> \<lparr>ag_map = AList.delete key (ag_map c), ag_bytes = ag_bytes c - int (length body)\<rparr>)"

definition cachedAgg :: "(agg_map \<Rightarrow> nat) \<Rightarrow> string \<Rightarrow> time \<Rightarrow> bytes option \<Rightarrow> agg_cache \<Rightarrow> bytes option \<times> agg_cache" where
  "cachedAgg victim key now built c =
     (let miss = (case built of None \<Rightarrow> (None, c)
        | Some b \<Rightarrow> if int (length b) > aggMaxBytes then (Some b, c)
            else let c1 = agg_evict victim (int (length b)) (agg_forget key c) in
              (Some b, \<lparr>ag_map = (key, b, now) # ag_map c1, ag_bytes = ag_bytes c1 + int (length b)\<rparr>)) in
      case map_of (ag_map c) key of
        Some (body, t) \<Rightarrow> if time_Sub now t < aggCacheTTL then (Some body, c) else miss
      | None \<Rightarrow> miss)"

subsection \<open>Reports\<close>

record rest_json =
  rj_summary :: "string \<Rightarrow> int \<Rightarrow> GroupSummary list \<Rightarrow> bytes option"
  rj_graph :: "GraphEdge list \<Rightarrow> bytes option"
  rj_pick :: "agg_map \<Rightarrow> nat"

definition handleSummary :: "rest_env \<Rightarrow> rest_json \<Rightarrow> time \<times> time \<Rightarrow> time \<Rightarrow> store \<Rightarrow> string \<Rightarrow> url_values \<Rightarrow> agg_cache \<Rightarrow> (rest_error + bytes) \<times> agg_cache" where
  "handleSummary E J now clock st uri q c =
     (let groupBy = (if header_get q ''groupBy'' = [] then ''workload'' else header_get q ''groupBy'');
          v = header_get q ''limit'';
          limit = (if v = [] then 50 else (case atoi v of Some n \<Rightarrow> clampInt n 1 1000 | None \<Rightarrow> 50)) in
      if \<not> validGroupBy (re_lib E) groupBy then (Inl BadGroupBy, c)
      else (case queryPredicate E now q of
              Inl err \<Rightarrow> (Inl err, c)
            | Inr pred \<Rightarrow>
                let entries = recent st (int (s_capacity st)) (Some pred); groups = summarize (re_lib E) entries groupBy in
                (case cachedAgg (rj_pick J) (''summary:'' @ uri) clock
                   (rj_summary J groupBy (int (length entries)) (if int (length groups) > limit then take (nat limit) groups else groups)) c of
                   (None, c') \<Rightarrow> (Inl EncodeFailed, c') | (Some body, c') \<Rightarrow> (Inr body, c'))))"

definition handleGraph :: "rest_env \<Rightarrow> rest_json \<Rightarrow> time \<times> time \<Rightarrow> time \<Rightarrow> store \<Rightarrow> string \<Rightarrow> url_values \<Rightarrow> agg_cache \<Rightarrow> (rest_error + bytes) \<times> agg_cache" where
  "handleGraph E J now clock st uri q c =
     (case queryPredicate E now q of
        Inl err \<Rightarrow> (Inl err, c)
      | Inr pred \<Rightarrow>
          (case cachedAgg (rj_pick J) (''graph:'' @ uri) clock
             (rj_graph J (serviceGraph (recent st (int (s_capacity st)) (Some pred)) (header_get q ''focus''))) c of
             (None, c') \<Rightarrow> (Inl EncodeFailed, c') | (Some body, c') \<Rightarrow> (Inr body, c')))"

text \<open>The time range is parsed twice, for the axis with one reading of the clock and for the predicate with a later one.\<close>

definition handleTimeline :: "rest_env \<Rightarrow> time \<times> time \<Rightarrow> time \<Rightarrow> time \<times> time \<Rightarrow> store \<Rightarrow> url_values \<Rightarrow> rest_error + int \<times> TimelineBucket list" where
  "handleTimeline E now1 clock now2 st q =
     (let v = header_get q ''bucket'';
          seconds = (if v = [] then 60 else (case atoi v of Some n \<Rightarrow> clampInt n 1 3600 | None \<Rightarrow> 60));
          bucket = seconds * 1000000000 in
      case timeRange E now1 q of
        Inl err \<Rightarrow> Inl err
      | Inr (s, u) \<Rightarrow>
          let until = (if u = zero_time then clock else u); since = (if s = zero_time then until - 900000000000 else s) in
          (case queryPredicate E now2 q of
             Inl err \<Rightarrow> Inl err
           | Inr pred \<Rightarrow> Inr (seconds, timeline (recent st (int (s_capacity st)) (Some pred)) since until bucket)))"

subsection \<open>Statistics\<close>

definition statsHistoryCap :: nat where "statsHistoryCap = 300"

definition statsSnapshot :: "fanout \<Rightarrow> time \<Rightarrow> int \<Rightarrow> Stats" where
  "statsSnapshot s now workers = (store_stats (fo_store s) now workers)\<lparr>st_BroadcastDropped := fo_broadcastDropped s\<rparr>"

definition recordStatsPoint :: "time \<Rightarrow> Stats \<Rightarrow> (time \<times> rat \<times> int) list \<Rightarrow> (time \<times> rat \<times> int) list" where
  "recordStatsPoint now st hist =
     (let h = hist @ [(now, st_EntriesPerSec st, st_TotalEntries st)] in if length h > statsHistoryCap then drop (length h - statsHistoryCap) h else h)"

subsection \<open>Field values\<close>

definition fieldValuesFor :: "golib \<Rightarrow> facetIndex \<Rightarrow> FieldSpec \<Rightarrow> string \<Rightarrow> int \<Rightarrow> FieldValue list" where
  "fieldValuesFor L f spec pre limit =
     (let observed = (case facet_values L f (fs_Name spec) pre (int facetTrackCap) of None \<Rightarrow> [] | Some vs \<Rightarrow> vs);
          add = (\<lambda>ev vs. if ev \<in> set (map fv_Value vs) then vs
                   else if pre = [] \<or> prefix (to_lower L pre) (to_lower L ev) then vs @ [\<lparr>fv_Value = ev, fv_Count = 0\<rparr>] else vs);
          out = sortFieldValues (fold add (fs_EnumValues spec) observed) in
      if limit > 0 \<and> int (length out) > limit then take (nat limit) out else out)"

record fieldMeta =
  fm_Name :: string
  fm_Type :: FieldType
  fm_Operators :: "string list"
  fm_Values :: "FieldValue list"

definition handleFields :: "golib \<Rightarrow> facetIndex \<Rightarrow> fieldMeta list" where
  "handleFields L f =
     map (\<lambda>spec. \<lparr>fm_Name = fs_Name spec, fm_Type = fs_Type spec, fm_Operators = fs_Operators spec,
        fm_Values = (if fs_TrackValues spec then fieldValuesFor L f spec [] (int facetTopN) else [])\<rparr>) fieldCatalog
     @ map (\<lambda>h. \<lparr>fm_Name = ''request.header.'' @ h, fm_Type = FieldTypeString, fm_Operators = opsString, fm_Values = []\<rparr>) (fst (headerFieldNames f))
     @ map (\<lambda>h. \<lparr>fm_Name = ''response.header.'' @ h, fm_Type = FieldTypeString, fm_Operators = opsString, fm_Values = []\<rparr>) (snd (headerFieldNames f))"

definition trim_prefix :: "string \<Rightarrow> string \<Rightarrow> string" where
  "trim_prefix p s = (if prefix p s then drop (length p) s else s)"

definition trim_suffix :: "string \<Rightarrow> string \<Rightarrow> string" where
  "trim_suffix p s = (if suffix p s then take (length s - length p) s else s)"

definition handleFieldValues :: "golib \<Rightarrow> facetIndex \<Rightarrow> string \<Rightarrow> url_values \<Rightarrow> (string \<times> FieldType \<times> FieldValue list) option" where
  "handleFieldValues L f path q =
     (let r = trim_prefix ''/api/fields/'' path; field = trim_suffix ''/values'' r in
      if field = r \<or> field = [] then None
      else (case fieldSpecByName field of
              None \<Rightarrow> None
            | Some spec \<Rightarrow>
                let v = header_get q ''limit''; limit = (if v = [] then 50 else (case atoi v of Some n \<Rightarrow> if n < 1 then 1 else if n > 200 then 200 else n | None \<Rightarrow> 50)) in
                Some (field, fs_Type spec, fieldValuesFor L f spec (header_get q ''prefix'') limit)))"


subsection \<open>Answers of the cache\<close>

definition agg_size :: "agg_map \<Rightarrow> int" where
  "agg_size m = sum_list (map (\<lambda>(k, b, t). int (length b)) m)"

definition agg_ok :: "agg_cache \<Rightarrow> bool" where
  "agg_ok c \<longleftrightarrow> distinct (map fst (ag_map c)) \<and> ag_bytes c = agg_size (ag_map c) \<and> length (ag_map c) \<le> 32 \<and> ag_bytes c \<le> aggMaxBytes"

lemma agg_remove_ok:
  assumes "i < length (ag_map c)" "agg_ok c"
  shows "agg_ok (agg_remove i c)" "set (ag_map (agg_remove i c)) \<subseteq> set (ag_map c)"
proof -
  obtain k b t where x: "ag_map c ! i = (k, b, t)" by (metis prod_cases3)
  have m: "ag_map c = take i (ag_map c) @ (k, b, t) # drop (Suc i) (ag_map c)" using assms(1) x by (metis id_take_nth_drop)
  have size_split: "agg_size (xs @ (k, b, t) # ys) = agg_size xs + int (length b) + agg_size ys" for xs ys by (simp add: agg_size_def)
  have "agg_size (ag_map c) = agg_size (take i (ag_map c)) + int (length b) + agg_size (drop (Suc i) (ag_map c))"
    using arg_cong [OF m, of agg_size] unfolding size_split .
  moreover have "map fst (ag_map c) = map fst (take i (ag_map c)) @ k # map fst (drop (Suc i) (ag_map c))" using arg_cong [OF m, of "map fst"] by (simp only: map_append list.map fst_conv)
  then have "distinct (map fst (take i (ag_map c)) @ map fst (drop (Suc i) (ag_map c)))" using assms(2) unfolding agg_ok_def by simp
  ultimately show "agg_ok (agg_remove i c)"
    using assms x by (auto simp: agg_ok_def agg_remove_def agg_size_def)
  show "set (ag_map (agg_remove i c)) \<subseteq> set (ag_map c)" by (auto simp: agg_remove_def dest: in_set_takeD in_set_dropD)
qed

lemma agg_evict_ok:
  assumes "agg_ok c" "n \<le> aggMaxBytes"
  shows "agg_ok (agg_evict victim n c) \<and> set (ag_map (agg_evict victim n c)) \<subseteq> set (ag_map c)
    \<and> length (ag_map (agg_evict victim n c)) < 32 \<and> ag_bytes (agg_evict victim n c) + n \<le> aggMaxBytes"
  using assms
proof (induction victim n c rule: agg_evict.induct)
  case (1 victim n c)
  show ?case
  proof (cases "(length (ag_map c) \<ge> 32 \<or> ag_bytes c + n > aggMaxBytes) \<and> ag_map c \<noteq> []")
    case True
    let ?c = "agg_remove (victim (ag_map c) mod length (ag_map c)) c"
    have "victim (ag_map c) mod length (ag_map c) < length (ag_map c)" using True by simp
    from agg_remove_ok [OF this] 1 True show ?thesis by (subst (1 2 3 4) agg_evict.simps) auto
  next
    case False
    then have e: "agg_evict victim n c = c" by (subst agg_evict.simps) (simp only: if_not_P [OF False] if_False False)
    have "ag_bytes c = 0" if "ag_map c = []" using 1(2) that by (simp add: agg_ok_def agg_size_def)
    then show ?thesis using 1 False unfolding e by (cases "ag_map c = []") auto
  qed
qed

lemma agg_size_delete: "distinct (map fst m) \<Longrightarrow> map_of m k = Some (b, t) \<Longrightarrow> agg_size (AList.delete k m) = agg_size m - int (length b)"
proof (induction m)
  case (Cons x m)
  have "AList.delete k m = m" if "k \<notin> fst ` set m" using that by (induction m) auto
  then show ?case using Cons by (cases x) (auto simp: agg_size_def image_iff split: if_splits)
qed simp

lemma agg_forget_ok:
  assumes "agg_ok c"
  shows "agg_ok (agg_forget key c)" "set (ag_map (agg_forget key c)) \<subseteq> set (ag_map c)" "key \<notin> fst ` set (ag_map (agg_forget key c))"
proof -
  have "length (AList.delete key (ag_map c)) \<le> length (ag_map c)" by (simp add: AList.delete_eq)
  then show "agg_ok (agg_forget key c)" using assms agg_size_delete [of "ag_map c" key]
    by (auto simp: agg_ok_def agg_forget_def AList.distinct_delete split: option.split)
  show "set (ag_map (agg_forget key c)) \<subseteq> set (ag_map c)" by (auto simp: agg_forget_def AList.delete_eq split: option.split)
  show "key \<notin> fst ` set (ag_map (agg_forget key c))" by (auto simp: agg_forget_def AList.delete_eq map_of_eq_None_iff split: option.split)
qed

text \<open>A request: its key, its time and what building its answer gives.\<close>

type_synonym agg_request = "string \<times> time \<times> bytes option"

definition agg_run :: "(agg_map \<Rightarrow> nat) \<Rightarrow> agg_request list \<Rightarrow> agg_cache" where
  "agg_run victim reqs = fold (\<lambda>(key, now, built) c. snd (cachedAgg victim key now built c)) reqs \<lparr>ag_map = [], ag_bytes = 0\<rparr>"

lemma cached_ok:
  assumes "agg_ok c" "\<forall>(k, b, t) \<in> set (ag_map c). (k, t, Some b) \<in> R"
  shows "agg_ok (snd (cachedAgg victim key now built c)) \<and> (\<forall>(k, b, t) \<in> set (ag_map (snd (cachedAgg victim key now built c))). (k, t, Some b) \<in> insert (key, now, built) R)"
proof -
  define miss where "miss = (case built of None \<Rightarrow> (None, c)
        | Some b \<Rightarrow> if int (length b) > aggMaxBytes then (Some b, c)
            else let c1 = agg_evict victim (int (length b)) (agg_forget key c) in
              (Some b, \<lparr>ag_map = (key, b, now) # ag_map c1, ag_bytes = ag_bytes c1 + int (length b)\<rparr>))"
  have "agg_ok (snd miss) \<and> (\<forall>(k, b, t) \<in> set (ag_map (snd miss)). (k, t, Some b) \<in> insert (key, now, built) R)"
  proof (cases "\<exists>b. built = Some b \<and> int (length b) \<le> aggMaxBytes")
    case True
    then obtain b where b: "built = Some b" "int (length b) \<le> aggMaxBytes" by blast
    let ?c = "agg_evict victim (int (length b)) (agg_forget key c)"
    note f = agg_forget_ok [OF assms(1), of key] and e = agg_evict_ok [OF agg_forget_ok(1) [OF assms(1), of key] b(2), of victim]
    have sub: "set (ag_map ?c) \<subseteq> set (ag_map c)" "key \<notin> fst ` set (ag_map ?c)" using e f(2,3) by auto
    have "agg_ok \<lparr>ag_map = (key, b, now) # ag_map ?c, ag_bytes = ag_bytes ?c + int (length b)\<rparr>"
      using e sub(2) by (auto simp: agg_ok_def agg_size_def)
    then show ?thesis using b sub(1) assms(2) by (auto simp: miss_def Let_def)
  qed (use assms in \<open>auto simp: miss_def split: option.split\<close>)
  moreover have "snd (cachedAgg victim key now built c) = snd miss \<or> snd (cachedAgg victim key now built c) = c"
    by (simp add: cachedAgg_def miss_def Let_def split: option.split)
  ultimately show ?thesis using assms by auto
qed

text \<open>C33: A report is the one just built, or one built for the same request less than a second before, whatever the cache has evicted; the cache stays within 32 reports
  and 4 MiB.\<close>

theorem reports_fresh:
  fixes reqs :: "agg_request list" and victim :: "agg_map \<Rightarrow> nat"
  defines "c \<equiv> agg_run victim reqs"
  shows "(fst (cachedAgg victim key now built c) = built
      \<or> (\<exists>body t. fst (cachedAgg victim key now built c) = Some body \<and> (key, t, Some body) \<in> set reqs \<and> time_Sub now t < aggCacheTTL))
    \<and> length (ag_map c) \<le> 32 \<and> ag_bytes c = agg_size (ag_map c) \<and> ag_bytes c \<le> aggMaxBytes"
proof -
  have "agg_ok c \<and> (\<forall>(k, b, t) \<in> set (ag_map c). (k, t, Some b) \<in> set reqs)"
    unfolding c_def
  proof (induction reqs rule: rev_induct)
    case Nil
    show ?case by (simp add: agg_run_def agg_ok_def agg_size_def aggMaxBytes_def)
  next
    case (snoc r reqs)
    obtain k t b where r: "r = (k, t, b)" by (metis prod_cases3)
    have "agg_run victim (reqs @ [r]) = snd (cachedAgg victim k t b (agg_run victim reqs))" by (simp add: agg_run_def r)
    then show ?case using cached_ok [of "agg_run victim reqs" "set reqs" victim k t b] snoc r by simp
  qed
  then show ?thesis
    by (auto simp: cachedAgg_def Let_def agg_ok_def dest!: map_of_SomeD split: option.split)
qed

subsection \<open>Queries\<close>

definition in_time :: "time \<Rightarrow> time \<Rightarrow> Entry \<Rightarrow> bool" where
  "in_time since until e \<longleftrightarrow> (since = zero_time \<or> since \<le> e_Timestamp e) \<and> (until = zero_time \<or> e_Timestamp e \<le> until)"

lemma query_predicate:
  assumes "CompileFilter (re_lib E) (header_get q ''filter'') = Inr p" "timeRange E now q = Inr (since, until)"
  shows "\<exists>p'. queryPredicate E now q = Inr p' \<and> (\<forall>e. p' e = (p e \<and> in_time since until e))"
  using assms by (auto simp: queryPredicate_def in_time_def)

text \<open>What a time parameter asks for: no bound when it is absent, the time it names, so many seconds after the epoch, or a positive duration before the
  present.\<close>

definition time_meant :: "rest_env \<Rightarrow> time \<Rightarrow> string \<Rightarrow> time option \<Rightarrow> bool" where
  "time_meant E clock v bound \<longleftrightarrow> v = [] \<and> bound = None
     \<or> v \<noteq> [] \<and> re_rfc3339 E v \<noteq> None \<and> bound = re_rfc3339 E v
     \<or> v \<noteq> [] \<and> re_rfc3339 E v = None \<and> (\<exists>secs. atoi v = Some secs \<and> bound = Some (secs * 10 ^ 9))
     \<or> v \<noteq> [] \<and> re_rfc3339 E v = None \<and> atoi v = None \<and> (\<exists>d. re_duration E v = Some d \<and> 0 < d \<and> bound = Some (clock - d))"

text \<open>The entries between two bounds, both included; the zero time is no bound.\<close>

definition between :: "time option \<Rightarrow> time option \<Rightarrow> Entry \<Rightarrow> bool" where
  "between lo hi e \<longleftrightarrow> (\<forall>t. lo = Some t \<longrightarrow> t \<noteq> zero_time \<longrightarrow> t \<le> e_Timestamp e) \<and> (\<forall>t. hi = Some t \<longrightarrow> t \<noteq> zero_time \<longrightarrow> e_Timestamp e \<le> t)"

definition or_zero :: "time option \<Rightarrow> time" where
  "or_zero b = (case b of None \<Rightarrow> zero_time | Some t \<Rightarrow> t)"

lemma time_range:
  assumes "time_meant E (fst now) (header_get q ''since'') lo" "time_meant E (snd now) (header_get q ''until'') hi"
  shows "timeRange E now q = Inr (or_zero lo, or_zero hi)"
proof -
  have p: "(if v = [] then Some zero_time else parseTimeParam E clock v) = Some (or_zero b)" if "time_meant E clock v b" for clock v b
    using that by (auto simp: time_meant_def parseTimeParam_def or_zero_def)
  show ?thesis unfolding timeRange_def Let_def p [OF assms(1)] p [OF assms(2)] by simp
qed

lemma limit_param:
  assumes "0 < s_capacity st"
  shows "entries_limit st q = (case atoi (header_get q ''limit'') of Some n \<Rightarrow> if 0 < n then min n (int (s_capacity st)) else 200 | None \<Rightarrow> 200)"
proof -
  have "atoi [] = None" by code_simp
  then show ?thesis using assms by (auto simp: entries_limit_def Let_def clampInt_def split: option.split)
qed

lemma entries_answered:
  assumes "ring_ok st" "0 < s_capacity st" "header_get q ''sort'' = []"
    and "CompileFilter (re_lib E) (header_get q ''filter'') = Inr p" "timeRange E now q = Inr (since, until)"
  shows "(header_get q ''before_seq'' = [] \<longrightarrow> header_get q ''before'' = [] \<longrightarrow>
      handleEntries E now st q = Inr (Raws (map snd (take (nat (entries_limit st q)) (filter (\<lambda>(e, r). p e \<and> in_time since until e) (with_raw (history st)))))))
    \<and> (\<forall>n. header_get q ''before_seq'' \<noteq> [] \<longrightarrow> atoi (header_get q ''before_seq'') = Some n \<longrightarrow>
      handleEntries E now st q = Inr (Raws (map snd (take (nat (entries_limit st q)) (filter (\<lambda>(e, r). e_Seq e < n \<and> p e \<and> in_time since until e) (with_raw (history st)))))))
    \<and> 0 < entries_limit st q"
proof -
  have l: "0 < entries_limit st q" using assms(2) by (auto simp: entries_limit_def Let_def clampInt_def split: option.split)
  from query_predicate [OF assms(4,5)] obtain p' where p': "queryPredicate E now q = Inr p'" "\<And>e. p' e = (p e \<and> in_time since until e)" by blast
  have f: "filter (wanted False 0 (Some p') \<circ> fst) xs = filter (\<lambda>(e, r). p e \<and> in_time since until e) xs"
    "filter (wanted True n (Some p') \<circ> fst) xs = filter (\<lambda>(e, r). e_Seq e < n \<and> p e \<and> in_time since until e) xs" for xs :: "(Entry \<times> bytes) list" and n
    by (auto simp: wanted_def p'(2) intro!: filter_cong)
  have "handleEntries E now st q = Inr (Raws (recentRaw st (entries_limit st q) (Some p')))"
    if "header_get q ''before_seq'' = []" "header_get q ''before'' = []"
    by (simp only: handleEntries_def Let_def p'(1) assms(3) that sum.case not_True_eq_False if_False simp_thms)
  moreover have "handleEntries E now st q = Inr (Raws (recentBeforeSeqRaw st n (entries_limit st q) (Some p')))"
    if "header_get q ''before_seq'' \<noteq> []" "atoi (header_get q ''before_seq'') = Some n" for n
    by (simp only: handleEntries_def Let_def p'(1) assms(3) that sum.case option.case not_True_eq_False not_False_eq_True if_False if_True simp_thms)
  ultimately show ?thesis using l unfolding recentRaw_eq [OF assms(1) l] recentBeforeSeqRaw_eq [OF assms(1) l] f by blast
qed

text \<open>C19: \<open>/api/entries\<close>, when it is not asked to sort, answers with the newest entries of the ring that match the filter and lie between the
  two times, in the order of the ring, or, given a sequence number, with those of them numbered below it.  It gives as many as asked for but no more than the ring
  holds, and 200 when not asked for a positive number.  A time is absent, in RFC 3339, a number of seconds or a positive duration
  before the present.\<close>

theorem entries_query_exact:
  assumes "ring_ok st" "0 < s_capacity st" "header_get q ''sort'' = []" "CompileFilter (re_lib E) (header_get q ''filter'') = Inr p"
    and "time_meant E (fst now) (header_get q ''since'') lo" "time_meant E (snd now) (header_get q ''until'') hi"
    and "limit = (case atoi (header_get q ''limit'') of Some n \<Rightarrow> if 0 < n then min n (int (s_capacity st)) else 200 | None \<Rightarrow> 200)"
  shows "(header_get q ''before_seq'' = [] \<longrightarrow> header_get q ''before'' = [] \<longrightarrow>
      handleEntries E now st q = Inr (Raws (map snd (take (nat limit) (filter (\<lambda>(e, r). p e \<and> between lo hi e) (with_raw (history st)))))))
    \<and> (\<forall>n. header_get q ''before_seq'' \<noteq> [] \<longrightarrow> atoi (header_get q ''before_seq'') = Some n \<longrightarrow>
      handleEntries E now st q = Inr (Raws (map snd (take (nat limit) (filter (\<lambda>(e, r). e_Seq e < n \<and> p e \<and> between lo hi e) (with_raw (history st)))))))"
proof -
  have "in_time (or_zero lo) (or_zero hi) = between lo hi"
    by (intro ext) (auto simp: in_time_def between_def or_zero_def split: option.splits)
  then show ?thesis using entries_answered [OF assms(1-4) time_range [OF assms(5,6)]] limit_param [OF assms(2)]
    unfolding assms(7) by simp
qed

definition example_env :: rest_env where
  "example_env = \<lparr>re_lib = ascii_lib, re_rfc3339 = (\<lambda>_. None), re_duration = (\<lambda>_. None)\<rparr>"

definition example_ring :: store where
  "example_ring = add_commit (zero_Entry\<lparr>e_Seq := 2, e_Timestamp := 6000000000\<rparr>) (Some ''b'') 0
     (add_commit (zero_Entry\<lparr>e_Seq := 1, e_Timestamp := 4000000000\<rparr>) (Some ''a'') 0 (newStore ascii_lib 8 []))"

lemma example_ring_ok:
  "ring_ok example_ring" "s_capacity example_ring = 8"
  "with_raw (history example_ring) = [(zero_Entry\<lparr>e_Seq := 2, e_Timestamp := 6000000000\<rparr>, ''b''), (zero_Entry\<lparr>e_Seq := 1, e_Timestamp := 4000000000\<rparr>, ''a'')]"
proof -
  let ?s = "newStore ascii_lib 8 []" and ?a = "zero_Entry\<lparr>e_Seq := 1, e_Timestamp := 4000000000\<rparr>" and ?b = "zero_Entry\<lparr>e_Seq := 2, e_Timestamp := 6000000000\<rparr>"
  let ?s1 = "add_commit ?a (Some ''a'') 0 ?s"
  have n: "ring_ok ?s" "history ?s = []" using ring_ok_newStore [of 8 ascii_lib "[]"] history_newStore [of ascii_lib 8 "[]"] by simp_all
  have f: "s_capacity ?s = 8" "s_byteBudget ?s = 67108864" by (simp_all add: newStore_def)
  have h1: "ring_ok ?s1" "history ?s1 = [(?a, Some ''a'')]"
    using add_commit_ok [OF n(1), of ?a "Some ''a''" 0] n(2) f by (auto simp: remember_def raw_len_def take_Cons')
  have "ring_ok example_ring \<and> history example_ring = [(?b, Some ''b''), (?a, Some ''a'')]"
    using add_commit_ok [OF h1(1), of ?b "Some ''b''" 0] h1(2) f by (auto simp: example_ring_def add_commit_frame remember_def raw_len_def take_Cons')
  then show "ring_ok example_ring" "with_raw (history example_ring) = [(?b, ''b''), (?a, ''a'')]"
    by (simp_all add: with_raw_def List.map_filter_simps)
  show "s_capacity example_ring = 8" using f by (simp add: example_ring_def add_commit_frame)
qed

theorem entries_query_exact_witness:
  "handleEntries example_env (0, 0) example_ring [(''since'', [''5''])] = Inr (Raws [''b''])"
proof -
  let ?q = "[(''since'', [''5''])]"
  have g: "header_get ?q ''since'' = ''5''" "header_get ?q ''until'' = []" "header_get ?q ''filter'' = []" "header_get ?q ''sort'' = []"
    "header_get ?q ''before_seq'' = []" "header_get ?q ''before'' = []" "header_get ?q ''limit'' = []" by (simp_all add: header_get_def)
  have five: "atoi ''5'' = Some 5" "atoi [] = None" by code_simp+
  then have t: "time_meant example_env (fst (0, 0)) (header_get ?q ''since'') (Some 5000000000)" "time_meant example_env (snd (0, 0)) (header_get ?q ''until'') None"
    unfolding g by (simp_all add: time_meant_def example_env_def)
  have c: "CompileFilter (re_lib example_env) (header_get ?q ''filter'') = Inr (\<lambda>_. True)" unfolding g by (rule match_all)
  show ?thesis
    using entries_query_exact [OF example_ring_ok(1) _ g(4) c t refl] g example_ring_ok(2,3) five
    by (simp add: between_def zero_time_def)
qed

text \<open>The statistics kept are the last ten minutes of samples.\<close>

lemma stats_history:
  "fold (\<lambda>(t, st). recordStatsPoint t st) samples [] = drop (length samples - statsHistoryCap) (map (\<lambda>(t, st). (t, st_EntriesPerSec st, st_TotalEntries st)) samples)"
proof (induction samples rule: rev_induct)
  case (snoc x xs)
  have "Suc (length xs - 300) = length xs - 299" if "299 < length xs" using that by arith
  with snoc show ?case by (cases x; cases "299 < length xs") (auto simp: recordStatsPoint_def Let_def drop_append statsHistoryCap_def)
qed simp

subsection \<open>Suggestions\<close>

lemma values_added:
  fixes L :: golib and pre :: string
  defines "add \<equiv> \<lambda>ev vs. if ev \<in> set (map fv_Value vs) then vs
     else if pre = [] \<or> prefix (to_lower L pre) (to_lower L ev) then vs @ [\<lparr>fv_Value = ev, fv_Count = 0\<rparr>] else vs"
  shows "set (fold add evs vs) = set vs \<union> {\<lparr>fv_Value = ev, fv_Count = 0\<rparr> | ev. ev \<in> set evs \<and> (pre = [] \<or> prefix (to_lower L pre) (to_lower L ev)) \<and> ev \<notin> fv_Value ` set vs}"
proof (induction evs rule: rev_induct)
  case (snoc ev evs)
  have "fv_Value ` set (fold add evs vs) = fv_Value ` set vs \<union> {ev. ev \<in> set evs \<and> (pre = [] \<or> prefix (to_lower L pre) (to_lower L ev))}"
    unfolding snoc setcompr_eq_image image_Un image_image FieldValue.select_convs by auto
  then show ?case using snoc by (auto simp: add_def)
qed simp

definition observed_values :: "golib \<Rightarrow> facetIndex \<Rightarrow> FieldSpec \<Rightarrow> string \<Rightarrow> FieldValue list" where
  "observed_values L f spec pre = (case facet_values L f (fs_Name spec) pre (int facetTrackCap) of None \<Rightarrow> [] | Some vs \<Rightarrow> vs)"

definition domain_values :: "golib \<Rightarrow> FieldSpec \<Rightarrow> string \<Rightarrow> string set \<Rightarrow> FieldValue set" where
  "domain_values L spec pre seen =
     {\<lparr>fv_Value = ev, fv_Count = 0\<rparr> | ev. ev \<in> set (fs_EnumValues spec) \<and> (pre = [] \<or> prefix (to_lower L pre) (to_lower L ev)) \<and> ev \<notin> seen}"

text \<open>The values offered for a field are those observed with their counts and, with count 0, every value of the field's domain that begins with the prefix and was not
  observed, the most frequent first; only the limit leaves any out, and those rank last.\<close>

theorem field_values_complete:
  "\<exists>out. fieldValuesFor L f spec pre limit = (if limit > 0 then take (nat limit) out else out)
    \<and> set out = set (observed_values L f spec pre) \<union> domain_values L spec pre (fv_Value ` set (observed_values L f spec pre))
    \<and> sorted_wrt (\<lambda>a b. \<not> fieldValue_less b a) out"
proof -
  let ?out = "sortFieldValues (fold (\<lambda>ev vs. if ev \<in> set (map fv_Value vs) then vs
     else if pre = [] \<or> prefix (to_lower L pre) (to_lower L ev) then vs @ [\<lparr>fv_Value = ev, fv_Count = 0\<rparr>] else vs) (fs_EnumValues spec) (observed_values L f spec pre))"
  have "fieldValuesFor L f spec pre limit = (if limit > 0 then take (nat limit) ?out else ?out)"
    by (simp add: fieldValuesFor_def observed_values_def Let_def)
  moreover have "set ?out = set (observed_values L f spec pre) \<union> domain_values L spec pre (fv_Value ` set (observed_values L f spec pre))" unfolding sortFieldValues_def set_sort_slice values_added domain_values_def ..
  moreover have "sorted_wrt (\<lambda>a b. \<not> fieldValue_less b a) ?out" unfolding sortFieldValues_def by (rule fieldValue_order.in_order_sort_slice)
  ultimately show ?thesis by blast
qed

end
