(* ===== verification/Mcp_Reports.thy ===== *)
theory Mcp_Reports
  imports Hub_Summary
begin

text \<open>
  What the MCP server computes itself: \<open>internal/mcp/clusters.go\<close>, \<open>diff.go\<close> and the text cap of \<open>server.go\<close>.  The requests to the hub
  around them and the JSON-RPC plumbing are not modelled.  Error rates are exact quotients where the code divides doubles.
\<close>

subsection \<open>Capped text\<close>

definition maxToolTextBytes :: nat where "maxToolTextBytes = 100000"

function valid_cut :: "string \<Rightarrow> string" where
  "valid_cut s = (if s \<noteq> [] \<and> \<not> valid_utf8 s then valid_cut (butlast s) else s)"
  by pat_completeness auto
termination
  by (relation "measure length") auto

declare valid_cut.simps [simp del]

definition capText :: "string \<Rightarrow> string" where
  "capText s =
     (if length s \<le> maxToolTextBytes then s
      else let c = valid_cut (take maxToolTextBytes s) in
        c @ [CHR 0x0A, CHR 0x0A] @ ''... [truncated: '' @ itoa (int (length c)) @ '' of '' @ itoa (int (length s)) @ '' bytes shown ''
        @ [char_of (226::nat), char_of (128::nat), char_of (148::nat)] @ '' narrow with a more specific filter, a smaller limit, or page with before_seq]'')"

lemma valid_cut_longest:
  "prefix (valid_cut s) s \<and> valid_utf8 (valid_cut s) \<and> (\<forall>p. prefix p s \<longrightarrow> valid_utf8 p \<longrightarrow> length p \<le> length (valid_cut s))"
proof (induction s rule: valid_cut.induct)
  case (1 s)
  show ?case
  proof (cases "s \<noteq> [] \<and> \<not> valid_utf8 s")
    case True
    then have u: "valid_cut s = valid_cut (butlast s)" by (subst valid_cut.simps) simp
    have "prefix p (butlast s)" if "prefix p s" "valid_utf8 p" for p
    proof -
      have "p \<noteq> s" using that(2) True by auto
      then show ?thesis using that(1) True by (metis append_butlast_last_id prefix_snoc)
    qed
    moreover have "prefix (butlast s) s" using True by (metis append_butlast_last_id prefixI)
    ultimately show ?thesis using 1 [OF True] unfolding u by (meson prefix_order.trans)
  next
    case False
    have "valid_utf8 []" by (simp add: valid_utf8_def rune_chunks.simps)
    then have "valid_utf8 s" using False by auto
    moreover have "valid_cut s = s" using False by (subst valid_cut.simps) auto
    ultimately show ?thesis by (auto dest: prefix_length_le)
  qed
qed

text \<open>A text over the cap is cut to its longest beginning that is within the cap and does not split a character, and says so; a text within the cap is
  returned as it is.\<close>

theorem cap_text_cuts_at_runes:
  "(length s \<le> maxToolTextBytes \<and> capText s = s)
    \<or> (\<exists>c notice. capText s = c @ [CHR 0x0A, CHR 0x0A] @ notice \<and> prefix c s \<and> length c \<le> maxToolTextBytes \<and> valid_utf8 c
        \<and> \<not> (\<exists>p. prefix p s \<and> length p \<le> maxToolTextBytes \<and> valid_utf8 p \<and> length p > length c))"
proof (cases "length s \<le> maxToolTextBytes")
  case False
  let ?t = "take maxToolTextBytes s"
  have c: "prefix (valid_cut ?t) ?t" "valid_utf8 (valid_cut ?t)" "\<And>p. prefix p ?t \<Longrightarrow> valid_utf8 p \<Longrightarrow> length p \<le> length (valid_cut ?t)"
    using valid_cut_longest [of ?t] by blast+
  have "prefix (valid_cut ?t) s" using c(1) take_is_prefix [of maxToolTextBytes s] by (rule prefix_order.trans)
  moreover have "length (valid_cut ?t) \<le> maxToolTextBytes" using prefix_length_le [OF c(1)] by simp
  moreover have "prefix p ?t" if "prefix p s" "length p \<le> maxToolTextBytes" for p
    using that by (auto simp: prefix_def)
  ultimately have "prefix (valid_cut ?t) s \<and> length (valid_cut ?t) \<le> maxToolTextBytes \<and> valid_utf8 (valid_cut ?t)
      \<and> \<not> (\<exists>p. prefix p s \<and> length p \<le> maxToolTextBytes \<and> valid_utf8 p \<and> length p > length (valid_cut ?t))"
    using c(2,3) leD by metis
  moreover have "\<exists>notice. capText s = valid_cut ?t @ [CHR 0x0A, CHR 0x0A] @ notice"
    using False by (auto simp: capText_def Let_def)
  ultimately show ?thesis by blast
qed (simp add: capText_def)

subsection \<open>Error clusters\<close>

definition errorClusterFetchLimit :: nat where "errorClusterFetchLimit = 2000"
definition maxClusterExamples :: nat where "maxClusterExamples = 3"

text \<open>\<open>digitsRE.ReplaceAllString(s, "#")\<close>: every run of digits becomes one mark.\<close>

fun collapse_digits :: "string \<Rightarrow> string" where
  "collapse_digits [] = []"
| "collapse_digits (c # s) =
     (if is_digit c then CHR ''#'' # (case s of [] \<Rightarrow> [] | d # t \<Rightarrow> if is_digit d then tl (collapse_digits s) else collapse_digits s)
      else c # collapse_digits s)"

record errorCluster =
  ec_Protocol :: string
  ec_DstWorkload :: string
  ec_Status :: string
  ec_StatusCode :: int
  ec_Summary :: string
  ec_Count :: int
  ec_FirstSeen :: time
  ec_LastSeen :: time
  ec_ExampleIDs :: "string list"

definition cluster_key :: "Entry \<Rightarrow> string" where
  "cluster_key e = e_Protocol e @ ''|'' @ ep_Workload (e_Destination e) @ ''|'' @ e_Status e @ ''|'' @ itoa (e_StatusCode e) @ ''|''
     @ collapse_digits (pl_Summary (e_Response e))"

definition new_cluster :: "string \<Rightarrow> Entry \<Rightarrow> errorCluster" where
  "new_cluster key e = \<lparr>ec_Protocol = e_Protocol e, ec_DstWorkload = ep_Workload (e_Destination e), ec_Status = e_Status e, ec_StatusCode = e_StatusCode e,
     ec_Summary = collapse_digits (pl_Summary (e_Response e)), ec_Count = 0, ec_FirstSeen = e_Timestamp e, ec_LastSeen = e_Timestamp e, ec_ExampleIDs = []\<rparr>"

definition cluster_add :: "Entry \<Rightarrow> errorCluster \<Rightarrow> errorCluster" where
  "cluster_add e c = c\<lparr>ec_Count := ec_Count c + 1,
     ec_FirstSeen := (if e_Timestamp e < ec_FirstSeen c then e_Timestamp e else ec_FirstSeen c),
     ec_LastSeen := (if e_Timestamp e > ec_LastSeen c then e_Timestamp e else ec_LastSeen c),
     ec_ExampleIDs := (if length (ec_ExampleIDs c) < maxClusterExamples then ec_ExampleIDs c @ [e_ID e] else ec_ExampleIDs c)\<rparr>"

definition cluster_less :: "errorCluster \<Rightarrow> errorCluster \<Rightarrow> bool" where
  "cluster_less a b = (if ec_Count a \<noteq> ec_Count b then ec_Count a > ec_Count b else ec_Summary a < ec_Summary b)"

definition clusterErrors :: "Entry list \<Rightarrow> errorCluster list" where
  "clusterErrors entries = sort_slice cluster_less (map snd (group_all new_cluster cluster_add (map (\<lambda>e. (cluster_key e, e)) entries)))"

interpretation cluster_order: weak_order cluster_less
  by unfold_locales (auto simp: cluster_less_def split: if_splits)

text \<open>What makes two entries the same kind of error, and the row of a kind.\<close>

type_synonym signature = "string \<times> string \<times> string \<times> int \<times> string"

definition signature :: "Entry \<Rightarrow> signature" where
  "signature e = (e_Protocol e, ep_Workload (e_Destination e), e_Status e, e_StatusCode e, collapse_digits (pl_Summary (e_Response e)))"

fun cluster_of :: "signature \<Rightarrow> Entry list \<Rightarrow> errorCluster" where
  "cluster_of (p, w, st, code, s) es =
     \<lparr>ec_Protocol = p, ec_DstWorkload = w, ec_Status = st, ec_StatusCode = code, ec_Summary = s, ec_Count = int (length es),
      ec_FirstSeen = Min (e_Timestamp ` set es), ec_LastSeen = Max (e_Timestamp ` set es), ec_ExampleIDs = map e_ID (take maxClusterExamples es)\<rparr>"

fun enc_signature :: "signature \<Rightarrow> string" where
  "enc_signature (p, w, st, code, s) = p @ CHR ''|'' # w @ CHR ''|'' # st @ CHR ''|'' # itoa code @ CHR ''|'' # s"

lemma key_signature: "cluster_key e = enc_signature (signature e)"
  by (simp add: cluster_key_def signature_def)

lemma bar_split: "c \<notin> set x \<Longrightarrow> c \<notin> set y \<Longrightarrow> x @ c # a = y @ c # b \<longleftrightarrow> x = y \<and> a = b"
proof (induction x arbitrary: y)
  case Nil
  then show ?case by (cases y) auto
next
  case (Cons d x)
  then show ?case by (cases y) auto
qed

lemma itoa_no_bar: "CHR ''|'' \<notin> set (itoa n)"
proof -
  have "list_all (\<lambda>c. c \<noteq> CHR ''|'') (format_nat 10 k)" for k
    using format_nat_digits [of k] by (auto simp: list_all_iff is_digit_def)
  then show ?thesis by (auto simp: itoa_def list_all_iff)
qed

definition bar_free :: "Entry \<Rightarrow> bool" where
  "bar_free e \<longleftrightarrow> CHR ''|'' \<notin> set (e_Protocol e) \<and> CHR ''|'' \<notin> set (ep_Workload (e_Destination e)) \<and> CHR ''|'' \<notin> set (e_Status e)"

lemma key_inj: "bar_free e \<Longrightarrow> bar_free e' \<Longrightarrow> cluster_key e = cluster_key e' \<longleftrightarrow> signature e = signature e'"
  by (auto simp: cluster_key_def signature_def bar_free_def bar_split itoa_no_bar dest: itoa_inj)

lemma cluster_add_step:
  "cluster_add x (c\<lparr>ec_Count := n, ec_FirstSeen := a, ec_LastSeen := b, ec_ExampleIDs := l\<rparr>)
    = c\<lparr>ec_Count := n + 1, ec_FirstSeen := min (e_Timestamp x) a, ec_LastSeen := max (e_Timestamp x) b,
        ec_ExampleIDs := (if length l < maxClusterExamples then l @ [e_ID x] else l)\<rparr>"
  by (auto simp: cluster_add_def min_def max_def)

lemma cluster_fold:
  "fold cluster_add es (new_cluster k e) = (new_cluster k e)\<lparr>ec_Count := int (length es),
     ec_FirstSeen := Min (insert (e_Timestamp e) (e_Timestamp ` set es)), ec_LastSeen := Max (insert (e_Timestamp e) (e_Timestamp ` set es)),
     ec_ExampleIDs := map e_ID (take maxClusterExamples es)\<rparr>"
proof (induction es rule: rev_induct)
  case (snoc x es)
  let ?T = "insert (e_Timestamp e) (e_Timestamp ` set es)" and ?t = "e_Timestamp x"
  have "insert (e_Timestamp e) (e_Timestamp ` set (es @ [x])) = insert ?t ?T" by auto
  moreover have "Min (insert ?t ?T) = min ?t (Min ?T)" "Max (insert ?t ?T) = max ?t (Max ?T)" by (rule Min_insert Max_insert; simp)+
  ultimately have times: "Min (insert (e_Timestamp e) (e_Timestamp ` set (es @ [x]))) = min ?t (Min ?T)"
      "Max (insert (e_Timestamp e) (e_Timestamp ` set (es @ [x]))) = max ?t (Max ?T)" by (simp_all only:)
  have f: "fold cluster_add (es @ [x]) (new_cluster k e) = cluster_add x (fold cluster_add es (new_cluster k e))" by simp
  have ids: "map e_ID (take maxClusterExamples (es @ [x]))
      = (if length (take maxClusterExamples es) < maxClusterExamples then map e_ID (take maxClusterExamples es) @ [e_ID x] else map e_ID (take maxClusterExamples es))"
    by (auto simp: min_def)
  show ?case unfolding f snoc times ids cluster_add_step by (simp del: Min_insert Max_insert image_insert set_append take_append)
qed (simp add: new_cluster_def)

lemma cluster_row: "es \<noteq> [] \<Longrightarrow> fold cluster_add es (new_cluster k (hd es)) = cluster_of (signature (hd es)) es"
proof -
  assume "es \<noteq> []"
  then have "insert (e_Timestamp (hd es)) (e_Timestamp ` set es) = e_Timestamp ` set es" by (auto simp: image_iff)
  then show ?thesis unfolding cluster_fold by (simp add: new_cluster_def signature_def)
qed

text \<open>The clusters are one row for every kind of error, by protocol, workload, status, code and summary without its numbers, with its exact count, its first
  and last time and its first examples, the most frequent first.\<close>

theorem clusters_exact:
  assumes "\<forall>e \<in> set entries. bar_free e"
  shows "mset (clusterErrors entries) = image_mset (\<lambda>t. cluster_of t (filter (\<lambda>e. signature e = t) entries)) (mset_set (signature ` set entries))
    \<and> sorted_wrt (\<lambda>a b. \<not> cluster_less b a) (clusterErrors entries)"
proof
  let ?kes = "map (\<lambda>e. (cluster_key e, e)) entries" and ?f = "\<lambda>k. filter (\<lambda>e. cluster_key e = k) entries"
  have mem: "members k ?kes = ?f k" for k by (simp add: members_def filter_map comp_def)
  have keys: "fst ` set ?kes = enc_signature ` signature ` set entries" by (force simp: key_signature)
  have inj: "inj_on enc_signature (signature ` set entries)"
    using assms key_inj by (auto simp: inj_on_def simp flip: key_signature)
  have same: "?f (enc_signature (signature e)) = filter (\<lambda>e'. signature e' = signature e) entries" if "e \<in> set entries" for e
    using that assms key_inj by (auto simp flip: key_signature intro!: filter_cong)
  have "mset (clusterErrors entries) = image_mset snd (mset (group_all new_cluster cluster_add ?kes))" by (simp add: clusterErrors_def)
  also have "\<dots> = image_mset (\<lambda>k. fold cluster_add (?f k) (new_cluster k (hd (?f k)))) (mset_set (enc_signature ` signature ` set entries))"
    unfolding group_all_values mem keys ..
  also have "\<dots> = image_mset (\<lambda>t. fold cluster_add (?f (enc_signature t)) (new_cluster (enc_signature t) (hd (?f (enc_signature t))))) (mset_set (signature ` set entries))"
    by (subst image_mset_mset_set [OF inj, symmetric]) (simp add: image_mset.compositionality comp_def)
  also have "\<dots> = image_mset (\<lambda>t. cluster_of t (filter (\<lambda>e. signature e = t) entries)) (mset_set (signature ` set entries))"
  proof (rule image_mset_cong)
    fix t assume "t \<in># mset_set (signature ` set entries)"
    then obtain e where e: "e \<in> set entries" "t = signature e" by auto
    let ?es = "filter (\<lambda>e'. signature e' = t) entries"
    have ne: "?es \<noteq> []" using e by (auto simp: filter_empty_conv)
    then have "signature (hd ?es) = t" using hd_in_set [OF ne] by simp
    then show "fold cluster_add (?f (enc_signature t)) (new_cluster (enc_signature t) (hd (?f (enc_signature t)))) = cluster_of t ?es"
      using cluster_row [OF ne] same [OF e(1)] e(2) by simp
  qed
  finally show "mset (clusterErrors entries) = image_mset (\<lambda>t. cluster_of t (filter (\<lambda>e. signature e = t) entries)) (mset_set (signature ` set entries))" .
  show "sorted_wrt (\<lambda>a b. \<not> cluster_less b a) (clusterErrors entries)" unfolding clusterErrors_def by (rule cluster_order.in_order_sort_slice)
qed

theorem clusters_exact_witness:
  "map ec_Count (clusterErrors [some_entry ''error'' 1 5, some_entry ''warning'' 2 5, some_entry ''error'' 3 5]) = [2, 1]
    \<and> sorted_wrt (\<lambda>a b. \<not> cluster_less b a) (clusterErrors [some_entry ''error'' 1 5, some_entry ''warning'' 2 5, some_entry ''error'' 3 5])"
proof -
  have "\<forall>e \<in> set [some_entry ''error'' 1 5, some_entry ''warning'' 2 5, some_entry ''error'' 3 5]. bar_free e"
    by (simp add: bar_free_def some_entry_def zero_Entry_def zero_Endpoint_def)
  from clusters_exact [OF this] show ?thesis
    by (simp add: clusterErrors_def group_all_def group_add_def cluster_key_def some_entry_def zero_Entry_def zero_Endpoint_def zero_Payload_def
        new_cluster_def cluster_add_def sort_slice_def cluster_less_def)
qed

end
