(* ===== verification/Worker_Wire.thy ===== *)
theory Worker_Wire
  imports Worker_Reader
begin

text \<open>
  Fixed-width integers on the wire: the big- and little-endian decoders of \<open>encoding/binary\<close> the dissectors
  call, the signed reading of an unsigned value, and the encoders that the round trips are stated with.
\<close>

fun be_bytes :: "nat \<Rightarrow> nat \<Rightarrow> bytes" where
  "be_bytes 0 n = []"
| "be_bytes (Suc k) n = be_bytes k (n div 256) @ [char_of (n mod 256)]"

fun le_bytes :: "nat \<Rightarrow> nat \<Rightarrow> bytes" where
  "le_bytes 0 n = []"
| "le_bytes (Suc k) n = char_of (n mod 256) # le_bytes k (n div 256)"

definition be_val :: "bytes \<Rightarrow> nat" where
  "be_val b = fold (\<lambda>c n. 256 * n + byte c) b 0"

fun le_val :: "bytes \<Rightarrow> nat" where
  "le_val [] = 0"
| "le_val (c # s) = byte c + 256 * le_val s"

definition be64 :: "bytes \<Rightarrow> nat" where "be64 b = be_val (take 8 b)"
definition le16 :: "bytes \<Rightarrow> nat" where "le16 b = le_val (take 2 b)"
definition le24 :: "bytes \<Rightarrow> nat" where "le24 b = le_val (take 3 b)"
definition le32 :: "bytes \<Rightarrow> nat" where "le32 b = le_val (take 4 b)"
definition le64 :: "bytes \<Rightarrow> nat" where "le64 b = le_val (take 8 b)"

text \<open>The conversion of an unsigned value of \<open>w\<close> bits to the signed type of that width.\<close>

definition signed_of :: "nat \<Rightarrow> nat \<Rightarrow> int" where
  "signed_of w n = (if n < 2 ^ (w - 1) then int n else int n - 2 ^ w)"

definition unsigned_of :: "nat \<Rightarrow> int \<Rightarrow> nat" where
  "unsigned_of w n = nat (n mod 2 ^ w)"

subsection \<open>Round trips\<close>

named_theorems wire_simps \<open>what a decoder reads off what an encoder wrote\<close>

lemma be_val_snoc: "be_val (s @ [c]) = 256 * be_val s + byte c"
  by (simp add: be_val_def)

lemma wire_lengths [simp]: "length (be_bytes k n) = k" "length (le_bytes k n) = k"
  by (induction k arbitrary: n) auto

lemma be_val_bytes: "be_val (be_bytes k n) = n mod 256 ^ k"
proof (induction k arbitrary: n)
  case (Suc k)
  have "n mod (256 * 256 ^ k) = 256 * (n div 256 mod 256 ^ k) + n mod 256" by (rule mod_mult2_eq)
  then show ?case using Suc by (simp add: be_val_snoc)
qed (simp add: be_val_def)

lemma le_val_bytes: "le_val (le_bytes k n) = n mod 256 ^ k"
proof (induction k arbitrary: n)
  case (Suc k)
  have "n mod (256 * 256 ^ k) = 256 * (n div 256 mod 256 ^ k) + n mod 256" by (rule mod_mult2_eq)
  then show ?case using Suc by simp
qed simp

lemma be16_be_val: "be16 b = be_val (take 2 b)" and be32_be_val: "be32 b = be_val (take 4 b)"
  by (simp_all add: be16_def be32_def be_val_def)

lemma wire_decode [wire_simps]:
  "n < 2 ^ 16 \<Longrightarrow> be16 (be_bytes 2 n @ r) = n" "n < 2 ^ 32 \<Longrightarrow> be32 (be_bytes 4 n @ r) = n"
  "n < 2 ^ 64 \<Longrightarrow> be64 (be_bytes 8 n @ r) = n" "n < 2 ^ 16 \<Longrightarrow> le16 (le_bytes 2 n @ r) = n"
  "n < 2 ^ 24 \<Longrightarrow> le24 (le_bytes 3 n @ r) = n" "n < 2 ^ 32 \<Longrightarrow> le32 (le_bytes 4 n @ r) = n"
  "n < 2 ^ 64 \<Longrightarrow> le64 (le_bytes 8 n @ r) = n"
  by (simp_all add: be16_be_val be32_be_val be64_def le16_def le24_def le32_def le64_def be_val_bytes le_val_bytes
      del: be_bytes.simps le_bytes.simps)

lemma wire_decode' [wire_simps]:
  "n < 2 ^ 16 \<Longrightarrow> be16 (be_bytes 2 n) = n" "n < 2 ^ 32 \<Longrightarrow> be32 (be_bytes 4 n) = n" "n < 2 ^ 64 \<Longrightarrow> be64 (be_bytes 8 n) = n"
  "n < 2 ^ 16 \<Longrightarrow> le16 (le_bytes 2 n) = n" "n < 2 ^ 24 \<Longrightarrow> le24 (le_bytes 3 n) = n" "n < 2 ^ 32 \<Longrightarrow> le32 (le_bytes 4 n) = n"
  "n < 2 ^ 64 \<Longrightarrow> le64 (le_bytes 8 n) = n"
  using wire_decode [of n "[]"] by simp_all

lemma be_val_less: "be_val s < 256 ^ length s"
proof (induction s rule: rev_induct)
  case (snoc c s)
  have "256 * be_val s + byte c < 256 * (be_val s + 1)" by simp
  also have "\<dots> \<le> 256 * 256 ^ length s" using snoc by (intro mult_le_mono2) simp
  finally show ?case by (simp add: be_val_snoc)
qed (simp add: be_val_def)

lemma le_val_less: "le_val s < 256 ^ length s"
proof (induction s)
  case (Cons c s)
  have "byte c + 256 * le_val s < 256 * (le_val s + 1)" by simp
  also have "\<dots> \<le> 256 * 256 ^ length s" using Cons by (intro mult_le_mono2) simp
  finally show ?case by simp
qed simp

lemma wire_ranges:
  "be16 b < 2 ^ 16" "be32 b < 2 ^ 32" "be64 b < 2 ^ 64" "le16 b < 2 ^ 16" "le24 b < 2 ^ 24" "le32 b < 2 ^ 32" "le64 b < 2 ^ 64"
proof -
  have p: "(256::nat) ^ length (take k b) \<le> 256 ^ k" for k by (rule power_increasing) simp_all
  show "be16 b < 2 ^ 16" using be_val_less [of "take 2 b"] p [of 2] by (simp add: be16_be_val)
  show "be32 b < 2 ^ 32" using be_val_less [of "take 4 b"] p [of 4] by (simp add: be32_be_val)
  show "be64 b < 2 ^ 64" using be_val_less [of "take 8 b"] p [of 8] by (simp add: be64_def)
  show "le16 b < 2 ^ 16" using le_val_less [of "take 2 b"] p [of 2] by (simp add: le16_def)
  show "le24 b < 2 ^ 24" using le_val_less [of "take 3 b"] p [of 3] by (simp add: le24_def)
  show "le32 b < 2 ^ 32" using le_val_less [of "take 4 b"] p [of 4] by (simp add: le32_def)
  show "le64 b < 2 ^ 64" using le_val_less [of "take 8 b"] p [of 8] by (simp add: le64_def)
qed

lemma signed_unsigned [wire_simps]:
  assumes "0 < w" "- (2 ^ (w - 1)) \<le> n" "n < 2 ^ (w - 1)"
  shows "signed_of w (unsigned_of w n) = n"
proof -
  obtain v where w: "w = Suc v" using assms(1) by (cases w) auto
  show ?thesis
  proof (cases "0 \<le> n")
    case True
    then have "n mod 2 ^ w = n" using assms w by (intro mod_pos_pos_trivial) auto
    then show ?thesis using True assms w by (simp add: signed_of_def unsigned_of_def nat_less_iff)
  next
    case False
    have "n mod 2 ^ w = (n + 2 ^ w) mod 2 ^ w" by simp
    also have "\<dots> = n + 2 ^ w" using False assms w by (intro mod_pos_pos_trivial) auto
    finally show ?thesis using False assms w by (simp add: signed_of_def unsigned_of_def nat_less_iff)
  qed
qed

lemma unsigned_less [simp]: "unsigned_of w n < 2 ^ w"
  by (simp add: unsigned_of_def nat_less_iff)

lemma unsigned_ranges [simp]: "unsigned_of 16 n < 65536" "unsigned_of 32 n < 4294967296"
  using unsigned_less [of 16 n] unsigned_less [of 32 n] by (simp_all del: unsigned_less)

lemma wire_nonempty [simp]: "be_bytes k n = [] \<longleftrightarrow> k = 0" "le_bytes k n = [] \<longleftrightarrow> k = 0"
  using wire_lengths [of k n] by (metis length_0_conv)+

lemma signed_small: "n < 2 ^ 15 \<Longrightarrow> signed_of 16 n = int n" "n < 2 ^ 31 \<Longrightarrow> signed_of 32 n = int n"
  by (simp_all add: signed_of_def)

lemma signed_range: "0 < w \<Longrightarrow> n < 2 ^ w \<Longrightarrow> - (2 ^ (w - 1)) \<le> signed_of w n \<and> signed_of w n < 2 ^ (w - 1)"
proof -
  assume a: "0 < w" "n < 2 ^ w"
  then have "int n < 2 ^ w" by (metis of_nat_less_iff of_nat_numeral of_nat_power)
  moreover have "(2::int) ^ w = 2 * 2 ^ (w - 1)" using a by (cases w) auto
  moreover have "n < 2 ^ (w - 1) \<longleftrightarrow> int n < 2 ^ (w - 1)" by (metis of_nat_less_iff of_nat_numeral of_nat_power)
  ultimately show ?thesis unfolding signed_of_def by auto
qed

declare be_bytes.simps [simp del] le_bytes.simps [simp del]

end
