(* ===== verification/Worker_Maps.thy ===== *)
theory Worker_Maps
  imports Worker_Reader "HOL-Library.AList"
begin

text \<open>
  The bounded, swept maps the worker keeps per connection: \<open>evictOverCapLocked\<close> of \<open>dissect_l4.go\<close>, \<open>sweepStale\<close>
  and \<open>trimOverCap\<close> of \<open>pipeline.go\<close>.  A Go map is an association list with distinct keys; the key that a map
  iteration yields first is a parameter, of which it is only known that it is a key of the map.

  Shown: an insert followed by the eviction keeps a map within its cap; trimming ends within the
  cap, as long as insertions do not outrun it; a sweep removes exactly the entries that are expired both when scanned and when visited.
\<close>

definition picks_key :: "(string list \<Rightarrow> string) \<Rightarrow> bool" where
  "picks_key pick \<longleftrightarrow> (\<forall>ks. ks \<noteq> [] \<longrightarrow> pick ks \<in> set ks)"

definition map_ok :: "nat \<Rightarrow> (string \<times> 'v) list \<Rightarrow> bool" where
  "map_ok cap m \<longleftrightarrow> distinct (map fst m) \<and> length m \<le> cap"

definition evictOverCapLocked :: "(string list \<Rightarrow> string) \<Rightarrow> nat \<Rightarrow> (string \<times> 'v) list \<Rightarrow> (string \<times> 'v) list \<times> nat" where
  "evictOverCapLocked pick cap m = (if length m \<le> cap then (m, 0) else (AList.delete (pick (map fst m)) m, 1))"

definition gcDeleteBatch :: nat where "gcDeleteBatch = 512"

definition sweep_scan :: "('v \<Rightarrow> bool) \<Rightarrow> (string \<times> 'v) list \<Rightarrow> string list" where
  "sweep_scan expired m = map fst (filter (\<lambda>(k, v). expired v) m)"

definition sweep_one :: "('v \<Rightarrow> bool) \<Rightarrow> string \<Rightarrow> (string \<times> 'v) list \<Rightarrow> (string \<times> 'v) list" where
  "sweep_one expired k m = (case map_of m k of Some v \<Rightarrow> if expired v then AList.delete k m else m | None \<Rightarrow> m)"

text \<open>The batches of deletions; \<open>between\<close> is what other goroutines did to the map while the lock was free
  before the batch.\<close>

fun sweep_batches :: "('v \<Rightarrow> bool) \<Rightarrow> string list list \<Rightarrow> ((string \<times> 'v) list \<Rightarrow> (string \<times> 'v) list) list
    \<Rightarrow> (string \<times> 'v) list \<Rightarrow> (string \<times> 'v) list" where
  "sweep_batches expired (ks # kss) (b # bs) m = sweep_batches expired kss bs (fold (sweep_one expired) ks (b m))"
| "sweep_batches expired (ks # kss) [] m = sweep_batches expired kss [] (fold (sweep_one expired) ks m)"
| "sweep_batches expired [] bs m = m"

function chunks :: "nat \<Rightarrow> 'a list \<Rightarrow> 'a list list" where
  "chunks n xs = (if n = 0 \<or> xs = [] then [] else take n xs # chunks n (drop n xs))"
  by pat_completeness auto
termination
  by (relation "measure (\<lambda>(n, xs). length xs)") (auto simp: length_greater_0_conv [symmetric] simp del: length_greater_0_conv)

declare chunks.simps [simp del]

definition sweepStale :: "('v \<Rightarrow> bool) \<Rightarrow> ((string \<times> 'v) list \<Rightarrow> (string \<times> 'v) list) list \<Rightarrow> (string \<times> 'v) list \<Rightarrow> (string \<times> 'v) list" where
  "sweepStale expired between m = sweep_batches expired (chunks gcDeleteBatch (sweep_scan expired m)) between m"

fun trim_batch :: "(string list \<Rightarrow> string) \<Rightarrow> nat \<Rightarrow> nat \<Rightarrow> (string \<times> 'v) list \<Rightarrow> (string \<times> 'v) list" where
  "trim_batch pick cap 0 m = m"
| "trim_batch pick cap (Suc n) m = (if length m > cap then trim_batch pick cap n (AList.delete (pick (map fst m)) m) else m)"

text \<open>The outer loop of \<open>trimOverCap\<close>; \<open>between\<close> is what other goroutines did to the map each time the lock was free, nothing when the list
  is used up; \<open>None\<close> when the loop has not ended after the given number of rounds.\<close>

fun trimOverCap :: "(string list \<Rightarrow> string) \<Rightarrow> nat \<Rightarrow> ((string \<times> 'v) list \<Rightarrow> (string \<times> 'v) list) list \<Rightarrow> nat \<Rightarrow> (string \<times> 'v) list
    \<Rightarrow> (string \<times> 'v) list option" where
  "trimOverCap pick cap between 0 m = None"
| "trimOverCap pick cap between (Suc fuel) m =
     (let m' = trim_batch pick cap gcDeleteBatch m in
      if length m' > cap then
        (case between of [] \<Rightarrow> trimOverCap pick cap [] fuel m' | b # bs \<Rightarrow> trimOverCap pick cap bs fuel (b m'))
      else Some m')"

subsection \<open>Lemmas\<close>

lemma length_delete_key:
  assumes "distinct (map fst m)" "k \<in> set (map fst m)"
  shows "length (AList.delete k m) = length m - 1"
proof -
  have "length (AList.delete k m) = length (removeAll k (map fst m))" by (metis AList.delete_keys length_map)
  then show ?thesis using assms by (simp add: distinct_remove1_removeAll [symmetric] length_remove1)
qed

lemma length_update_key: "length (AList.update k v m) = (if k \<in> set (map fst m) then length m else length m + 1)"
  by (induction m) auto

lemma pick_in: "picks_key pick \<Longrightarrow> m \<noteq> [] \<Longrightarrow> pick (map fst m) \<in> set (map fst m)"
  unfolding picks_key_def by (metis map_is_Nil_conv)

lemma evict_map_ok:
  assumes "picks_key pick" "distinct (map fst m)" "length m \<le> Suc cap"
  shows "map_ok cap (fst (evictOverCapLocked pick cap m))"
proof (cases "length m \<le> cap")
  case False
  then have "m \<noteq> []" by auto
  then show ?thesis
    using False assms length_delete_key [OF assms(2) pick_in [OF assms(1)]]
    by (simp add: evictOverCapLocked_def map_ok_def AList.distinct_delete)
qed (use assms in \<open>simp add: evictOverCapLocked_def map_ok_def\<close>)

lemma evict_lookup:
  "map_of (fst (evictOverCapLocked pick cap m)) k = map_of m k \<or> map_of (fst (evictOverCapLocked pick cap m)) k = None"
  by (auto simp: evictOverCapLocked_def AList.delete_conv')

lemma update_map_ok: "map_ok cap m \<Longrightarrow> k \<in> set (map fst m) \<Longrightarrow> map_ok cap (AList.update k v m)"
  by (simp add: map_ok_def AList.distinct_update length_update_key)

lemma update_present_ok: "map_ok cap m \<Longrightarrow> map_of m k = Some w \<Longrightarrow> map_ok cap (AList.update k v m)"
  by (rule update_map_ok) (auto dest: map_of_SomeD intro: rev_image_eqI)

lemma delete_map_ok: "map_ok cap m \<Longrightarrow> map_ok cap (AList.delete k m)"
  by (auto simp: map_ok_def AList.distinct_delete intro: order_trans [OF AList.length_delete_le])

lemma trim_batch_distinct: "distinct (map fst m) \<Longrightarrow> distinct (map fst (trim_batch pick cap n m))"
  by (induction n arbitrary: m) (simp_all add: AList.distinct_delete)

lemma trim_batch_length:
  assumes "picks_key pick"
  shows "distinct (map fst m) \<Longrightarrow> length (trim_batch pick cap n m) = (if length m > cap then max cap (length m - n) else length m)"
proof (induction n arbitrary: m)
  case (Suc n)
  show ?case
  proof (cases "length m > cap")
    case True
    then have "m \<noteq> []" by auto
    then have "length (AList.delete (pick (map fst m)) m) = length m - 1"
      using length_delete_key [OF Suc.prems pick_in [OF assms]] by simp
    then show ?thesis using Suc.IH [of "AList.delete (pick (map fst m)) m"] Suc.prems True
      by (auto simp: AList.distinct_delete)
  qed simp
qed simp

text \<open>What the others do while the lock is free: any change that leaves a map and makes it at most so much larger.\<close>

definition adds_at_most :: "((string \<times> 'v) list \<Rightarrow> (string \<times> 'v) list) \<Rightarrow> nat \<Rightarrow> bool" where
  "adds_at_most b n \<longleftrightarrow> (\<forall>m. distinct (map fst m) \<longrightarrow> distinct (map fst (b m)) \<and> length (b m) \<le> length m + n)"

text \<open>C39: the capacity trim ends, whatever other goroutines insert or delete between its batches, within one round per batch of the entries
  that are over the cap or get inserted meanwhile, and one more; it then leaves the map within its cap, and a map that was within its cap as it was.
  When nothing is done in between, it deletes only down to the cap.\<close>

theorem trim_terminates:
  assumes "picks_key pick" "distinct (map fst m)" "list_all2 adds_at_most between ns" "length m + sum_list ns - cap \<le> fuel * gcDeleteBatch"
  shows "\<exists>m'. trimOverCap pick cap between (Suc fuel) m = Some m' \<and> length m' \<le> cap \<and> (length m \<le> cap \<longrightarrow> m' = m)
    \<and> (between = [] \<longrightarrow> length m' = min (length m) cap)"
  using assms
proof (induction fuel arbitrary: m between ns)
  case (0 m between ns)
  then have len: "length (trim_batch pick cap gcDeleteBatch m) = length m" "length m \<le> cap" by (simp_all add: trim_batch_length)
  moreover have "trim_batch pick cap n m = m" if "length m \<le> cap" for n using that by (cases n) simp_all
  ultimately show ?case by simp
next
  case (Suc fuel m between ns)
  let ?m = "trim_batch pick cap gcDeleteBatch m"
  have len: "length ?m = (if length m > cap then max cap (length m - gcDeleteBatch) else length m)"
    using Suc.prems by (simp add: trim_batch_length)
  have small: "trim_batch pick cap n m = m" if "length m \<le> cap" for n using that by (cases n) simp_all
  have dist: "distinct (map fst ?m)" by (rule trim_batch_distinct [OF Suc.prems(2)])
  show ?case
  proof (cases "length ?m > cap")
    case True
    then have big: "length m > cap" "length ?m = length m - gcDeleteBatch" using len by (auto split: if_splits)
    show ?thesis
    proof (cases between)
      case Nil
      then have "ns = []" using Suc.prems(3) by simp
      then have "length ?m + sum_list [] - cap \<le> fuel * gcDeleteBatch" using big Suc.prems(4) by simp
      then obtain m' where "trimOverCap pick cap [] (Suc fuel) ?m = Some m'" "length m' = min (length ?m) cap"
        using Suc.IH [OF Suc.prems(1) dist, of "[]" "[]"] by auto
      then show ?thesis using True Nil big by (auto simp del: trimOverCap.simps(2) simp: trimOverCap.simps(2) [of pick cap "[]" "Suc fuel" m] Let_def)
    next
      case (Cons b bs)
      then obtain n ns' where ns: "ns = n # ns'" "adds_at_most b n" "list_all2 adds_at_most bs ns'" using Suc.prems(3) by (auto simp: list_all2_Cons1)
      then have b: "distinct (map fst (b ?m))" "length (b ?m) \<le> length ?m + n" using dist by (simp_all add: adds_at_most_def)
      have "length (b ?m) + sum_list ns' - cap \<le> fuel * gcDeleteBatch" using b(2) big True ns(1) Suc.prems(4) by (simp add: algebra_simps)
      from Suc.IH [OF Suc.prems(1) b(1) ns(3) this] obtain m' where "trimOverCap pick cap bs (Suc fuel) (b ?m) = Some m'" "length m' \<le> cap" by blast
      then show ?thesis using True Cons big
        by (auto simp del: trimOverCap.simps(2) simp: trimOverCap.simps(2) [of pick cap "b # bs" "Suc fuel" m] Let_def)
    qed
  next
    case False
    then show ?thesis using len small
      by (auto simp del: trimOverCap.simps(2) simp: trimOverCap.simps(2) [of pick cap between "Suc fuel" m] Let_def split: if_splits)
  qed
qed

theorem trim_terminates_witness:
  "\<exists>m'. trimOverCap hd 1 [\<lambda>m. AList.update ''d'' 4 m] 2 [(''a'', 1::nat), (''b'', 2), (''c'', 3)] = Some m' \<and> length m' \<le> 1"
proof -
  have "adds_at_most (\<lambda>m. AList.update ''d'' (4::nat) m) 1" by (simp add: adds_at_most_def AList.distinct_update length_update_key)
  then show ?thesis
    using trim_terminates [of hd "[(''a'', 1::nat), (''b'', 2), (''c'', 3)]" "[\<lambda>m. AList.update ''d'' 4 m]" "[1]" 1 1]
    by (simp add: picks_key_def gcDeleteBatch_def numeral_2_eq_2)
qed

text \<open>The bound is needed: with a batch of insertions in every gap the trim does not end.\<close>

lemma trim_outrun:
  fixes m :: "(string \<times> 'v) list"
  assumes "picks_key pick" "distinct (map fst m)" "length m > cap + gcDeleteBatch"
    "\<And>m :: (string \<times> 'v) list. distinct (map fst m) \<Longrightarrow> distinct (map fst (b m)) \<and> length (b m) \<ge> length m + gcDeleteBatch"
  shows "trimOverCap pick cap (replicate n b) n m = None"
  using assms(2,3)
proof (induction n arbitrary: m)
  case (Suc n)
  let ?m = "trim_batch pick cap gcDeleteBatch m"
  have len: "length ?m = length m - gcDeleteBatch" using Suc.prems assms(1) by (simp add: trim_batch_length)
  have "distinct (map fst ?m)" by (rule trim_batch_distinct [OF Suc.prems(1)])
  then have "distinct (map fst (b ?m))" "length (b ?m) > cap + gcDeleteBatch" using assms(4) [of ?m] len Suc.prems(2) by auto
  then show ?case using Suc.IH [of "b ?m"] len Suc.prems(2) by (simp add: Let_def)
qed simp

lemma sweep_one_lookup:
  "map_of (sweep_one expired k m) k' =
     (if k' = k \<and> (\<exists>v. map_of m k = Some v \<and> expired v) then None else map_of m k')"
  by (auto simp: sweep_one_def AList.delete_conv' split: option.splits)

lemma sweep_fold_lookup:
  "map_of (fold (sweep_one expired) ks m) k =
     (case map_of m k of Some v \<Rightarrow> if k \<in> set ks \<and> expired v then None else Some v | None \<Rightarrow> None)"
  by (induction ks arbitrary: m) (auto simp: sweep_one_lookup split: option.splits)

lemma concat_chunks: "0 < n \<Longrightarrow> concat (chunks n xs) = xs"
proof (induction n xs rule: chunks.induct)
  case (1 n xs)
  then show ?case by (subst chunks.simps) auto
qed

lemma sweep_quiet: "sweep_batches expired kss [] m = fold (sweep_one expired) (concat kss) m"
  by (induction kss arbitrary: m) simp_all

lemma sweep_scan_set: "distinct (map fst m) \<Longrightarrow> k \<in> set (sweep_scan expired m) \<longleftrightarrow> (\<exists>v. map_of m k = Some v \<and> expired v)"
  by (auto simp: sweep_scan_def image_iff)

text \<open>A sweep that is not interleaved with other work removes exactly the expired entries; interleaved
  with any work of other goroutines between the batches, an entry it removes is expired at that very
  moment: a refreshed or re-inserted entry is never reaped.\<close>

theorem sweep_exact:
  assumes "distinct (map fst m)"
  shows "map_of (sweepStale expired [] m) k = (case map_of m k of Some v \<Rightarrow> if expired v then None else Some v | None \<Rightarrow> None)
   \<and> (\<forall>ks m'. map_of (fold (sweep_one expired) ks m') k \<noteq> map_of m' k \<longrightarrow> (\<exists>v. map_of m' k = Some v \<and> expired v))"
  using assms
  by (auto simp: sweepStale_def sweep_quiet concat_chunks gcDeleteBatch_def sweep_fold_lookup sweep_scan_set split: option.splits if_splits)

theorem sweep_exact_witness:
  "map_of (sweepStale (\<lambda>v. v < 10) [] [(''old'', 3::int), (''new'', 12)]) ''old'' = None
   \<and> map_of (sweepStale (\<lambda>v. v < 10) [] [(''old'', 3::int), (''new'', 12)]) ''new'' = Some 12"
  using sweep_exact [of "[(''old'', 3::int), (''new'', 12)]" "\<lambda>v. v < 10" "''old''"]
    sweep_exact [of "[(''old'', 3::int), (''new'', 12)]" "\<lambda>v. v < 10" "''new''"] by simp

end
