(* ===== verification/Worker_Flows.thy ===== *)
theory Worker_Flows
  imports Worker_Conn Worker_Hexdump Worker_Maps
begin

text \<open>
  Generic L4 flow accounting, \<open>internal/worker/dissect_l4.go\<close>, with the per-packet header data of
  \<open>worker.go\<close> (\<open>l4meta\<close>) it is fed with.  The flow map is an association list with distinct keys; its order
  stands for nothing, the key a map iteration yields first being a parameter.  A \<open>time.Time\<close> that may be zero is
  an \<open>option\<close>.  What gopacket computes (endpoint strings, \<open>LayerContents\<close>, MAC strings) is data of the packet.

  Each critical section under \<open>flowMu\<close> is one step: a tracked packet, \<open>markL7\<close>, the scan of \<open>flushFlows\<close> and
  each of its delete batches, so that the steps of the capture loop, the dissectors and the flush ticker
  interleave freely.
\<close>

subsection \<open>Numbers\<close>

text \<open>Go's integer division truncates toward zero.\<close>

definition quot :: "int \<Rightarrow> int \<Rightarrow> int" where
  "quot a b = sgn a * sgn b * (\<bar>a\<bar> div \<bar>b\<bar>)"

definition milliseconds :: "int \<Rightarrow> int" where
  "milliseconds d = quot d 1000000"

text \<open>A quotient of two integers as a double, rounded to nearest, ties to even; exact division is what the
  code computes as long as both operands are below \<open>2 ^ 53\<close>.\<close>

definition f64_quot :: "int \<Rightarrow> nat \<Rightarrow> f64" where
  "f64_quot n d =
     (if n = 0 then 0
      else let m = nat \<bar>n\<bar> * 2 ^ 64; q = m div d; sticky = (m mod d \<noteq> 0);
               l = bit_length q; u = 2 ^ (l - 53); h = q div u; r = q mod u;
               up = (2 * r > u \<or> (2 * r = u \<and> (sticky \<or> odd h)));
               h' = (if up then h + 1 else h);
               mant = (if h' = 2 ^ 53 then 2 ^ 52 else h');
               ex = int l - 1 - 64 + (if h' = 2 ^ 53 then 1 else 0)
           in word_of_int ((if n < 0 then 2 ^ 63 else 0) + (ex + 1023) * 2 ^ 52 + (int mant - 2 ^ 52)))"

text \<open>\<open>FormatFloat(x, 'f', 1, 64)\<close> of the quotient of a byte count by a power of two.\<close>

definition fixed1 :: "nat \<Rightarrow> nat \<Rightarrow> string" where
  "fixed1 n d = (let q = 10 * n div d; r = 10 * n mod d;
       t = (if 2 * r > d \<or> (2 * r = d \<and> odd q) then q + 1 else q)
     in itoa (int (t div 10)) @ ''.'' @ itoa (int (t mod 10)))"

definition humanBytes :: "int \<Rightarrow> string" where
  "humanBytes b = (if b \<ge> 2 ^ 20 then fixed1 (nat b) (2 ^ 20) @ '' MB''
     else if b \<ge> 2 ^ 10 then fixed1 (nat b) (2 ^ 10) @ '' KB'' else itoa b @ '' B'')"

subsection \<open>Flows\<close>

record segFingerprint =
  sf_seq :: "32 word"
  sf_len :: nat
  sf_at :: "time option"

record flowState =
  fl_proto :: string
  fl_src :: Endpoint
  fl_dst :: Endpoint
  fl_firstSeen :: "time option"
  fl_lastSeen :: "time option"
  fl_packets :: int
  fl_bytes :: int
  fl_synSeen :: bool
  fl_finSeen :: bool
  fl_rstSeen :: bool
  fl_l7 :: bool
  fl_emitted :: bool
  fl_clientNetEP :: string
  fl_clientTrEP :: string
  fl_srcMAC :: string
  fl_dstMAC :: string
  fl_ipVersion :: int
  fl_ttl :: int
  fl_ipFlags :: string
  fl_headerHex :: string
  fl_clientFlags :: flagSet
  fl_serverFlags :: flagSet
  fl_seqStart :: "32 word"
  fl_ackStart :: "32 word"
  fl_window :: int
  fl_mss :: int
  fl_synTS :: "time option"
  fl_synAckTS :: "time option"
  fl_retransmits :: int
  fl_nextSeqClient :: "32 word"
  fl_nextSeqServer :: "32 word"
  fl_haveSeqClient :: bool
  fl_haveSeqServer :: bool
  fl_clientBytes :: int
  fl_serverBytes :: int
  fl_clientPackets :: int
  fl_serverPackets :: int
  fl_rawBuf :: bytes
  fl_rawTotal :: int
  fl_lastClientSeg :: segFingerprint
  fl_lastServerSeg :: segFingerprint

definition zero_seg :: segFingerprint where
  "zero_seg = \<lparr>sf_seq = 0, sf_len = 0, sf_at = None\<rparr>"

definition zero_flow :: flowState where
  "zero_flow = \<lparr>fl_proto = [], fl_src = zero_Endpoint, fl_dst = zero_Endpoint, fl_firstSeen = None, fl_lastSeen = None,
     fl_packets = 0, fl_bytes = 0, fl_synSeen = False, fl_finSeen = False, fl_rstSeen = False, fl_l7 = False,
     fl_emitted = False, fl_clientNetEP = [], fl_clientTrEP = [], fl_srcMAC = [], fl_dstMAC = [], fl_ipVersion = 0,
     fl_ttl = 0, fl_ipFlags = [], fl_headerHex = [], fl_clientFlags = 0, fl_serverFlags = 0, fl_seqStart = 0,
     fl_ackStart = 0, fl_window = 0, fl_mss = 0, fl_synTS = None, fl_synAckTS = None, fl_retransmits = 0,
     fl_nextSeqClient = 0, fl_nextSeqServer = 0, fl_haveSeqClient = False, fl_haveSeqServer = False,
     fl_clientBytes = 0, fl_serverBytes = 0, fl_clientPackets = 0, fl_serverPackets = 0, fl_rawBuf = [],
     fl_rawTotal = 0, fl_lastClientSeg = zero_seg, fl_lastServerSeg = zero_seg\<rparr>"

definition dedupWindow :: int where "dedupWindow = 5 * 1000000"

definition seenRecently :: "segFingerprint \<Rightarrow> 32 word \<Rightarrow> nat \<Rightarrow> time \<Rightarrow> bool \<times> segFingerprint" where
  "seenRecently fp seq len ts =
     (if (case sf_at fp of None \<Rightarrow> False | Some t \<Rightarrow> sf_seq fp = seq \<and> sf_len fp = len \<and> ts - t < dedupWindow)
      then (True, fp) else (False, \<lparr>sf_seq = seq, sf_len = len, sf_at = Some ts\<rparr>))"

definition flow_rawView :: "flowState \<Rightarrow> RawView option" where
  "flow_rawView f = (if fl_rawBuf f = [] then None
     else Some \<lparr>rv_Data = fl_rawBuf f, rv_Hex = [], rv_Bytes = fl_rawTotal f,
                rv_Truncated = (fl_rawTotal f > int (length (fl_rawBuf f)))\<rparr>)"

definition captureRaw :: "bytes \<Rightarrow> int \<Rightarrow> flowState \<Rightarrow> flowState" where
  "captureRaw payload rawCap f =
     (if payload = [] \<or> rawCap < 0 then f
      else let room = rawCap - int (length (fl_rawBuf f))
           in f\<lparr>fl_rawTotal := fl_rawTotal f + int (length payload),
                fl_rawBuf := (if room > 0 then fl_rawBuf f @ take (nat room) payload else fl_rawBuf f)\<rparr>)"

definition flagStr :: "flowState \<Rightarrow> string" where
  "flagStr f = join '','' ((if fl_synSeen f then [''SYN''] else []) @ (if fl_finSeen f then [''FIN''] else [])
     @ (if fl_rstSeen f then [''RST''] else []))"

definition newFlow :: "string \<Rightarrow> flow \<Rightarrow> flow \<Rightarrow> time \<Rightarrow> flowState" where
  "newFlow proto netFlow transport ts =
     (let sp = portOf (flow_Src transport); dp = portOf (flow_Dst transport);
          a = zero_Endpoint\<lparr>ep_IP := flow_Src netFlow, ep_Port := sp\<rparr>;
          b = zero_Endpoint\<lparr>ep_IP := flow_Dst netFlow, ep_Port := dp\<rparr>;
          fwd = (sp \<ge> dp)
      in zero_flow\<lparr>fl_proto := proto, fl_src := (if fwd then a else b), fl_dst := (if fwd then b else a),
           fl_clientNetEP := (if fwd then flow_Src netFlow else flow_Dst netFlow),
           fl_clientTrEP := (if fwd then flow_Src transport else flow_Dst transport),
           fl_firstSeen := Some ts, fl_lastSeen := Some ts\<rparr>)"

definition parseMSS :: "(nat \<times> bytes) list \<Rightarrow> int" where
  "parseMSS opts = (case find (\<lambda>(k, d). k = 2 \<and> length d = 2) opts of None \<Rightarrow> 0 | Some (_, d) \<Rightarrow> int (be16 d))"

definition buildL4Info :: "flowState \<Rightarrow> L4Info option" where
  "buildL4Info f =
     (case (fl_firstSeen f, fl_lastSeen f) of
        (Some t0, t1) \<Rightarrow>
          Some (zero_L4Info\<lparr>l4_SrcMAC := fl_srcMAC f, l4_DstMAC := fl_dstMAC f, l4_IPVersion := fl_ipVersion f,
            l4_TTL := fl_ttl f, l4_IPFlags := fl_ipFlags f,
            l4_ClientTCPFlags := flagSet_String (fl_clientFlags f), l4_ServerTCPFlags := flagSet_String (fl_serverFlags f),
            l4_SeqStart := fl_seqStart f, l4_AckStart := fl_ackStart f, l4_Window := fl_window f, l4_MSS := fl_mss f,
            l4_Retransmits := fl_retransmits f,
            l4_DurationMs := (case t1 of None \<Rightarrow> 0 | Some t \<Rightarrow> milliseconds (t - t0)),
            l4_ClientBytes := fl_clientBytes f, l4_ServerBytes := fl_serverBytes f,
            l4_ClientPackets := fl_clientPackets f, l4_ServerPackets := fl_serverPackets f,
            l4_HeaderHex := fl_headerHex f,
            l4_RTTMs := (case (fl_synTS f, fl_synAckTS f) of
                (Some s, Some a) \<Rightarrow> f64_quot (quot (a - s) 1000) 1000 | _ \<Rightarrow> 0)\<rparr>)
      | _ \<Rightarrow> None)"

subsection \<open>Packet headers\<close>

record eth_layer =
  eth_SrcMAC :: string
  eth_DstMAC :: string
  eth_Contents :: bytes

record ip_layer =
  ip_Flags :: "8 word"
  ip_TTL :: nat
  ip_Contents :: bytes

record l4meta =
  meta_eth :: "eth_layer option"
  meta_ip4 :: "ip_layer option"
  meta_ip6 :: "ip_layer option"
  meta_tcp :: "tcp_layer option"
  meta_ipVersion :: int
  meta_ttl :: int

definition extractL4Meta :: "eth_layer option \<Rightarrow> ip_layer option \<Rightarrow> ip_layer option \<Rightarrow> tcp_layer option \<Rightarrow> l4meta" where
  "extractL4Meta eth ip4 ip6 tcp =
     (case ip4 of
        Some i \<Rightarrow> \<lparr>meta_eth = eth, meta_ip4 = Some i, meta_ip6 = None, meta_tcp = tcp, meta_ipVersion = 4, meta_ttl = int (ip_TTL i)\<rparr>
      | None \<Rightarrow> (case ip6 of
          Some i \<Rightarrow> \<lparr>meta_eth = eth, meta_ip4 = None, meta_ip6 = Some i, meta_tcp = tcp, meta_ipVersion = 6, meta_ttl = int (ip_TTL i)\<rparr>
        | None \<Rightarrow> \<lparr>meta_eth = eth, meta_ip4 = None, meta_ip6 = None, meta_tcp = tcp, meta_ipVersion = 0, meta_ttl = 0\<rparr>))"

definition macStrings :: "l4meta \<Rightarrow> string \<times> string" where
  "macStrings mt = (case meta_eth mt of None \<Rightarrow> ([], []) | Some e \<Rightarrow> (eth_SrcMAC e, eth_DstMAC e))"

text \<open>gopacket numbers the flags MF 1, DF 2, evil 4.\<close>

definition ipv4Flags :: "8 word \<Rightarrow> string" where
  "ipv4Flags f = join '','' ((if and f 2 \<noteq> 0 then [''DF''] else []) @ (if and f 1 \<noteq> 0 then [''MF''] else []))"

definition ipFlagStr :: "l4meta \<Rightarrow> string" where
  "ipFlagStr mt = (case meta_ip4 mt of None \<Rightarrow> [] | Some i \<Rightarrow> ipv4Flags (ip_Flags i))"

fun header_parts :: "nat \<Rightarrow> bytes list \<Rightarrow> bytes \<Rightarrow> bytes" where
  "header_parts tot [] hdr = hdr"
| "header_parts tot (part # parts) hdr =
     (if tot \<le> length hdr then hdr else header_parts tot parts (hdr @ take (tot - length hdr) part))"

definition renderHeaderHex :: "l4meta \<Rightarrow> int \<Rightarrow> string" where
  "renderHeaderHex mt capBytes =
     (if capBytes \<le> 0 then []
      else let parts = [case meta_eth mt of None \<Rightarrow> [] | Some e \<Rightarrow> eth_Contents e,
                        case meta_ip4 mt of Some i \<Rightarrow> ip_Contents i
                          | None \<Rightarrow> (case meta_ip6 mt of Some i \<Rightarrow> ip_Contents i | None \<Rightarrow> []),
                        case meta_tcp mt of None \<Rightarrow> [] | Some t \<Rightarrow> tcp_Contents t];
               tot = length (concat parts)
           in if tot = 0 then [] else hexDump (header_parts (min tot (nat capBytes)) parts []) capBytes)"

subsection \<open>The flow table\<close>

record flow_cfg =
  cfg_node :: string
  cfg_nodeIP :: string
  cfg_rawCap :: int
  cfg_headerHexCap :: int
  cfg_maxFlows :: nat
  cfg_maxPending :: nat

record flow_table =
  ft_flows :: "(string \<times> flowState) list"
  ft_flowsEvicted :: nat
  ft_seq :: nat
  ft_out :: "Entry list"

definition insert_flow :: "(string list \<Rightarrow> string) \<Rightarrow> flow_cfg \<Rightarrow> string \<Rightarrow> flowState \<Rightarrow> flow_table \<Rightarrow> flow_table" where
  "insert_flow pick cfg key f T =
     (case evictOverCapLocked pick (cfg_maxFlows cfg) (AList.update key f (ft_flows T)) of
        (m, n) \<Rightarrow> T\<lparr>ft_flows := m, ft_flowsEvicted := ft_flowsEvicted T + n\<rparr>)"

text \<open>Writing through the pointer: a flow that was evicted on insertion is in no map any more.\<close>

definition write_flow :: "string \<Rightarrow> flowState \<Rightarrow> flow_table \<Rightarrow> flow_table" where
  "write_flow key f T = (if map_of (ft_flows T) key = None then T else T\<lparr>ft_flows := AList.update key f (ft_flows T)\<rparr>)"

definition markL7 :: "(string list \<Rightarrow> string) \<Rightarrow> flow_cfg \<Rightarrow> string \<Rightarrow> flow_table \<Rightarrow> flow_table" where
  "markL7 pick cfg key T =
     (case map_of (ft_flows T) key of
        Some f \<Rightarrow> T\<lparr>ft_flows := AList.update key (f\<lparr>fl_l7 := True\<rparr>) (ft_flows T)\<rparr>
      | None \<Rightarrow> insert_flow pick cfg key (zero_flow\<lparr>fl_l7 := True\<rparr>) T)"

definition wellKnownPorts :: "(int \<times> string) list" where
  "wellKnownPorts = [(22, ''ssh''), (25, ''smtp''), (110, ''pop3''), (143, ''imap''), (443, ''https''), (587, ''smtp''),
     (853, ''dns-tls''), (1433, ''mssql''), (3306, ''mysql''), (3389, ''rdp''), (5432, ''postgres''),
     (5672, ''amqp''), (6379, ''redis''), (8883, ''mqtt''), (9042, ''cassandra''), (9092, ''kafka''),
     (11211, ''memcached''), (27017, ''mongodb''), (2379, ''etcd''), (2181, ''zookeeper'')]"

definition flowLabel :: "flowState \<Rightarrow> string" where
  "flowLabel f = (case map_of wellKnownPorts (ep_Port (fl_dst f)) of
       Some name \<Rightarrow> fl_proto f @ '' '' @ name
     | None \<Rightarrow> fl_proto f @ ''/'' @ itoa (ep_Port (fl_dst f)))"

definition middot :: string where "middot = CHR '' '' # CHR 0xC2 # CHR 0xB7 # '' ''"

definition emitFlow :: "flow_cfg \<Rightarrow> flowState \<Rightarrow> string \<Rightarrow> flow_table \<Rightarrow> flow_table" where
  "emitFlow cfg f reason T =
     (let n = ft_seq T + 1;
          first = (case fl_firstSeen f of None \<Rightarrow> 0 | Some t \<Rightarrow> t);
          last' = (case fl_lastSeen f of None \<Rightarrow> first | Some t \<Rightarrow> t)
      in T\<lparr>ft_seq := n, ft_out := ft_out T @ [zero_Entry\<lparr>
            e_ID := cfg_node cfg @ ''-l4-'' @ format_nat 36 n, e_Protocol := fl_proto f, e_Timestamp := first,
            e_ElapsedMs := milliseconds (last' - first), e_Node := cfg_node cfg, e_NodeIP := cfg_nodeIP cfg,
            e_Source := fl_src f, e_Destination := fl_dst f,
            e_Request := zero_Payload\<lparr>pl_Summary := flowLabel f, pl_Packets := fl_packets f, pl_Bytes := fl_bytes f,
              pl_Flags := flagStr f, pl_Raw := flow_rawView f\<rparr>,
            e_Response := zero_Payload\<lparr>pl_Summary := reason @ middot @ humanBytes (fl_bytes f) @ middot @ itoa (fl_packets f) @ '' pkts''\<rparr>,
            e_Status := (if fl_rstSeen f then ''error'' else ''success''), e_L4 := buildL4Info f\<rparr>]\<rparr>)"

subsection \<open>Tracking a packet\<close>

text \<open>Filling in the flow a packet belongs to: a new one, a placeholder of \<open>markL7\<close> oriented now, or an old one.\<close>

definition orient :: "flow \<Rightarrow> flow \<Rightarrow> time \<Rightarrow> flowState \<Rightarrow> flowState" where
  "orient netFlow transport ts f =
     (if fl_firstSeen f = None then
        let nf = newFlow ProtocolTCP netFlow transport ts
        in f\<lparr>fl_src := fl_src nf, fl_dst := fl_dst nf, fl_firstSeen := Some ts,
             fl_clientNetEP := fl_clientNetEP nf, fl_clientTrEP := fl_clientTrEP nf\<rparr>
      else f)"

definition copy_headers :: "flow_cfg \<Rightarrow> l4meta \<Rightarrow> flowState \<Rightarrow> flowState" where
  "copy_headers cfg mt f =
     (let f1 = (if fl_srcMAC f = [] \<and> meta_eth mt \<noteq> None
                then f\<lparr>fl_srcMAC := fst (macStrings mt), fl_dstMAC := snd (macStrings mt)\<rparr> else f);
          f2 = (if fl_ipVersion f1 = 0 \<and> meta_ipVersion mt \<noteq> 0
                then f1\<lparr>fl_ipVersion := meta_ipVersion mt, fl_ttl := meta_ttl mt, fl_ipFlags := ipFlagStr mt\<rparr> else f1)
      in if fl_headerHex f2 = [] then f2\<lparr>fl_headerHex := renderHeaderHex mt (cfg_headerHexCap cfg)\<rparr> else f2)"

definition client_packet :: "tcp_layer \<Rightarrow> int \<Rightarrow> time \<Rightarrow> flowState \<Rightarrow> flowState" where
  "client_packet tcp len ts f =
     (let n = length (tcp_Payload tcp);
          f1 = f\<lparr>fl_clientBytes := fl_clientBytes f + len, fl_clientPackets := fl_clientPackets f + 1,
                 fl_clientFlags := or (fl_clientFlags f) (tcpFlagSet tcp), fl_window := int (tcp_Window tcp)\<rparr>;
          f2 = (if n > 0 then
                  if fl_haveSeqClient f1 \<and> tcp_Seq tcp < fl_nextSeqClient f1 then f1\<lparr>fl_retransmits := fl_retransmits f1 + 1\<rparr>
                  else f1\<lparr>fl_nextSeqClient := tcp_Seq tcp + word_of_nat n, fl_haveSeqClient := True\<rparr>
                else f1)
      in if tcp_SYN tcp \<and> \<not> tcp_ACK tcp
         then f2\<lparr>fl_seqStart := tcp_Seq tcp, fl_synTS := Some ts, fl_mss := parseMSS (tcp_Options tcp),
                 fl_window := int (tcp_Window tcp)\<rparr>
         else f2)"

definition server_packet :: "tcp_layer \<Rightarrow> int \<Rightarrow> time \<Rightarrow> flowState \<Rightarrow> flowState" where
  "server_packet tcp len ts f =
     (let n = length (tcp_Payload tcp);
          f1 = f\<lparr>fl_serverBytes := fl_serverBytes f + len, fl_serverPackets := fl_serverPackets f + 1,
                 fl_serverFlags := or (fl_serverFlags f) (tcpFlagSet tcp)\<rparr>;
          f2 = (if n > 0 then
                  if fl_haveSeqServer f1 \<and> tcp_Seq tcp < fl_nextSeqServer f1 then f1\<lparr>fl_retransmits := fl_retransmits f1 + 1\<rparr>
                  else f1\<lparr>fl_nextSeqServer := tcp_Seq tcp + word_of_nat n, fl_haveSeqServer := True\<rparr>
                else f1)
      in if tcp_SYN tcp \<and> tcp_ACK tcp then f2\<lparr>fl_ackStart := tcp_Seq tcp, fl_synAckTS := Some ts\<rparr> else f2)"

definition note_flags :: "tcp_layer \<Rightarrow> flowState \<Rightarrow> flowState" where
  "note_flags tcp f = f\<lparr>fl_synSeen := (fl_synSeen f \<or> tcp_SYN tcp), fl_finSeen := (fl_finSeen f \<or> tcp_FIN tcp),
     fl_rstSeen := (fl_rstSeen f \<or> tcp_RST tcp)\<rparr>"

definition client_side :: "flow \<Rightarrow> flow \<Rightarrow> flowState \<Rightarrow> bool" where
  "client_side netFlow transport f \<longleftrightarrow> flow_Src netFlow = fl_clientNetEP f \<and> flow_Src transport = fl_clientTrEP f"

text \<open>The duplicate gate: whether the packet is dropped, and the flow with the fingerprint recorded.\<close>

definition dedup :: "bool \<Rightarrow> tcp_layer \<Rightarrow> time \<Rightarrow> flowState \<Rightarrow> bool \<times> flowState" where
  "dedup clientToServer tcp ts f =
     (if tcp_Payload tcp = [] then (False, f)
      else if clientToServer then
        (case seenRecently (fl_lastClientSeg f) (tcp_Seq tcp) (length (tcp_Payload tcp)) ts of
           (dup, fp) \<Rightarrow> (dup, f\<lparr>fl_lastClientSeg := fp\<rparr>))
      else
        (case seenRecently (fl_lastServerSeg f) (tcp_Seq tcp) (length (tcp_Payload tcp)) ts of
           (dup, fp) \<Rightarrow> (dup, f\<lparr>fl_lastServerSeg := fp\<rparr>)))"

text \<open>What a packet does to its flow, up to the test for closing.\<close>

definition account :: "flow_cfg \<Rightarrow> flow \<Rightarrow> flow \<Rightarrow> tcp_layer \<Rightarrow> int \<Rightarrow> time \<Rightarrow> l4meta \<Rightarrow> flowState \<Rightarrow> bool \<times> flowState" where
  "account cfg netFlow transport tcp len ts mt f =
     (let c2s = client_side netFlow transport f in
      case dedup c2s tcp ts f of (dup, f1) \<Rightarrow>
        if dup then (True, f1\<lparr>fl_lastSeen := Some ts\<rparr>)
        else let f2 = f1\<lparr>fl_lastSeen := Some ts, fl_packets := fl_packets f1 + 1, fl_bytes := fl_bytes f1 + len\<rparr>;
                 f3 = copy_headers cfg mt (captureRaw (tcp_Payload tcp) (cfg_rawCap cfg) f2);
                 f4 = (if c2s then client_packet tcp len ts f3 else server_packet tcp len ts f3)
             in (False, note_flags tcp f4))"

definition closing :: "flowState \<Rightarrow> bool" where
  "closing f \<longleftrightarrow> (fl_finSeen f \<or> fl_rstSeen f) \<and> \<not> fl_emitted f \<and> \<not> fl_l7 f"

text \<open>The critical section of \<open>trackTCP\<close>: the table afterwards and the closed flow to emit, if any.\<close>

definition trackTCP_locked :: "(string list \<Rightarrow> string) \<Rightarrow> flow_cfg \<Rightarrow> flow \<Rightarrow> flow \<Rightarrow> tcp_layer \<Rightarrow> int \<Rightarrow> time \<Rightarrow> l4meta
    \<Rightarrow> flow_table \<Rightarrow> flow_table \<times> flowState option" where
  "trackTCP_locked pick cfg netFlow transport tcp len ts mt T =
     (let key = connKey netFlow transport;
          (f, T1) = (case map_of (ft_flows T) key of
              Some f \<Rightarrow> (orient netFlow transport ts f, T)
            | None \<Rightarrow> let nf = newFlow ProtocolTCP netFlow transport ts in (nf, insert_flow pick cfg key nf T));
          (dup, f') = account cfg netFlow transport tcp len ts mt f
      in if dup then (write_flow key f' T1, None)
         else if closing f' then let g = f'\<lparr>fl_emitted := True\<rparr> in (write_flow key g T1, Some g)
         else (write_flow key f' T1, None))"

definition trackTCP :: "(string list \<Rightarrow> string) \<Rightarrow> flow_cfg \<Rightarrow> flow \<Rightarrow> flow \<Rightarrow> tcp_layer \<Rightarrow> int \<Rightarrow> time \<Rightarrow> l4meta
    \<Rightarrow> flow_table \<Rightarrow> flow_table" where
  "trackTCP pick cfg netFlow transport tcp len ts mt T =
     (case trackTCP_locked pick cfg netFlow transport tcp len ts mt T of
        (T1, None) \<Rightarrow> T1
      | (T1, Some g) \<Rightarrow> emitFlow cfg g (if fl_rstSeen g then ''RST'' else ''FIN'') T1)"

definition snapshotL4 :: "string \<Rightarrow> flow_table \<Rightarrow> L4Info option" where
  "snapshotL4 key T = (case map_of (ft_flows T) key of None \<Rightarrow> None
     | Some f \<Rightarrow> if fl_firstSeen f = None then None else buildL4Info f)"

definition trackUDP :: "(string list \<Rightarrow> string) \<Rightarrow> flow_cfg \<Rightarrow> flow \<Rightarrow> flow \<Rightarrow> int \<Rightarrow> time \<Rightarrow> bytes \<Rightarrow> flow_table \<Rightarrow> flow_table" where
  "trackUDP pick cfg netFlow transport len ts payload T =
     (let key = connKey netFlow transport;
          (f, T1) = (case map_of (ft_flows T) key of
              Some f \<Rightarrow> (f, T)
            | None \<Rightarrow> let nf = newFlow ProtocolUDP netFlow transport ts in (nf, insert_flow pick cfg key nf T))
      in write_flow key (captureRaw payload (cfg_rawCap cfg)
           (f\<lparr>fl_lastSeen := Some ts, fl_packets := fl_packets f + 1, fl_bytes := fl_bytes f + len\<rparr>)) T1)"

subsection \<open>Flushing\<close>

text \<open>A zero \<open>lastSeen\<close> is further back than any idle time.\<close>

definition idle_for :: "time \<Rightarrow> int \<Rightarrow> flowState \<Rightarrow> bool" where
  "idle_for now idle f = (case fl_lastSeen f of None \<Rightarrow> True | Some t \<Rightarrow> now - t > idle)"

definition flush_emits :: "time \<Rightarrow> int \<Rightarrow> flowState \<Rightarrow> bool" where
  "flush_emits now idle f \<longleftrightarrow> \<not> fl_emitted f \<and> idle_for now idle f \<and> \<not> fl_l7 f \<and> fl_firstSeen f \<noteq> None"

definition flush_scan :: "time \<Rightarrow> int \<Rightarrow> flow_table \<Rightarrow> flow_table \<times> flowState list \<times> string list" where
  "flush_scan now idle T =
     (T\<lparr>ft_flows := map (\<lambda>(k, f). (k, if flush_emits now idle f then f\<lparr>fl_emitted := True\<rparr> else f)) (ft_flows T)\<rparr>,
      map snd (filter (\<lambda>(k, f). flush_emits now idle f) (ft_flows T)),
      map fst (filter (\<lambda>(k, f). fl_emitted f \<or> idle_for now idle f) (ft_flows T)))"

definition flush_delete_one :: "time \<Rightarrow> int \<Rightarrow> string \<Rightarrow> flow_table \<Rightarrow> flow_table" where
  "flush_delete_one now idle k T =
     (case map_of (ft_flows T) k of
        Some f \<Rightarrow> if fl_emitted f \<or> idle_for now idle f then T\<lparr>ft_flows := AList.delete k (ft_flows T)\<rparr> else T
      | None \<Rightarrow> T)"

definition flush_delete :: "time \<Rightarrow> int \<Rightarrow> string list \<Rightarrow> flow_table \<Rightarrow> flow_table" where
  "flush_delete now idle ks T = fold (flush_delete_one now idle) (take gcDeleteBatch ks) T"

text \<open>A whole sweep with nothing in between.\<close>

definition flushFlows :: "flow_cfg \<Rightarrow> time \<Rightarrow> int \<Rightarrow> flow_table \<Rightarrow> flow_table" where
  "flushFlows cfg now idle T =
     (case flush_scan now idle T of (T1, toEmit, stale) \<Rightarrow>
        fold (\<lambda>f. emitFlow cfg f ''idle'') toEmit (fold (flush_delete_one now idle) stale T1))"

subsection \<open>ICMP\<close>

definition icmpDesc :: "nat \<Rightarrow> string \<Rightarrow> string \<times> string" where
  "icmpDesc typ text = (text, if typ = 3 \<or> typ = 11 then ''error'' else if typ = 4 \<or> typ = 5 then ''warning'' else ''success'')"

definition icmp6Desc :: "nat \<Rightarrow> string \<Rightarrow> string \<times> string" where
  "icmp6Desc typ text = (text, if typ = 1 \<or> typ = 3 then ''error'' else if typ = 2 \<or> typ = 137 then ''warning'' else ''success'')"

definition rawViewFromBytes :: "bytes \<Rightarrow> int \<Rightarrow> RawView option" where
  "rawViewFromBytes b cap = (if cap < 0 \<or> b = [] then None
     else Some \<lparr>rv_Data = take (nat cap) b, rv_Hex = [], rv_Bytes = int (length b), rv_Truncated = (int (length b) > cap)\<rparr>)"

definition emitICMPEntry :: "flow_cfg \<Rightarrow> flow \<Rightarrow> bytes \<Rightarrow> int \<Rightarrow> time \<Rightarrow> string \<Rightarrow> string \<Rightarrow> flow_table \<Rightarrow> flow_table" where
  "emitICMPEntry cfg netFlow payload len ts desc status T =
     (let n = ft_seq T + 1
      in T\<lparr>ft_seq := n, ft_out := ft_out T @ [zero_Entry\<lparr>e_ID := cfg_node cfg @ ''-icmp-'' @ format_nat 36 n,
            e_Protocol := ProtocolICMP, e_Timestamp := ts, e_Node := cfg_node cfg, e_NodeIP := cfg_nodeIP cfg,
            e_Source := zero_Endpoint\<lparr>ep_IP := flow_Src netFlow\<rparr>, e_Destination := zero_Endpoint\<lparr>ep_IP := flow_Dst netFlow\<rparr>,
            e_Request := zero_Payload\<lparr>pl_Summary := desc, pl_Bytes := len, pl_Raw := rawViewFromBytes payload (cfg_rawCap cfg)\<rparr>,
            e_Response := zero_Payload\<lparr>pl_Summary := desc\<rparr>, e_Status := status\<rparr>]\<rparr>)"

text \<open>The type and the rendered type code of an ICMP layer come from gopacket.\<close>

definition handleICMP :: "flow_cfg \<Rightarrow> flow \<Rightarrow> nat \<Rightarrow> string \<Rightarrow> bytes \<Rightarrow> int \<Rightarrow> time \<Rightarrow> flow_table \<Rightarrow> flow_table" where
  "handleICMP cfg netFlow typ text payload len ts T =
     (case icmpDesc typ text of (desc, status) \<Rightarrow> emitICMPEntry cfg netFlow payload len ts desc status T)"

definition handleICMPv6 :: "flow_cfg \<Rightarrow> flow \<Rightarrow> nat \<Rightarrow> string \<Rightarrow> bytes \<Rightarrow> int \<Rightarrow> time \<Rightarrow> flow_table \<Rightarrow> flow_table" where
  "handleICMPv6 cfg netFlow typ text payload len ts T =
     (case icmp6Desc typ text of (desc, status) \<Rightarrow> emitICMPEntry cfg netFlow payload len ts desc status T)"

subsection \<open>Interleaved runs\<close>

text \<open>What the run is observed to do: create a flow under a key, or decide to emit one.\<close>

datatype flow_event = Created string | Closed string

text \<open>The flush ticker between its scan and its emissions: the time of the scan, the keys still to visit,
  the flows to emit.\<close>

record sweep =
  sw_now :: time
  sw_idle :: int
  sw_stale :: "string list"
  sw_emit :: "flowState list"

definition created_by :: "string \<Rightarrow> flow_table \<Rightarrow> flow_event list" where
  "created_by key T = (if map_of (ft_flows T) key = None then [Created key] else [])"

text \<open>Any order of critical sections: packets and ICMP from the capture loop, marks from the dissectors, and one
  sweep at a time from the ticker.\<close>

inductive flow_run :: "(string list \<Rightarrow> string) \<Rightarrow> flow_cfg \<Rightarrow> flow_table \<Rightarrow> sweep option \<Rightarrow> flow_event list \<Rightarrow> bool"
  for pick cfg where
  start: "flow_run pick cfg \<lparr>ft_flows = [], ft_flowsEvicted = 0, ft_seq = 0, ft_out = []\<rparr> None []"
| tcp: "flow_run pick cfg T sw evs \<Longrightarrow> trackTCP_locked pick cfg n t tcp len ts mt T = (T', g) \<Longrightarrow>
    flow_run pick cfg (case g of None \<Rightarrow> T' | Some f \<Rightarrow> emitFlow cfg f (if fl_rstSeen f then ''RST'' else ''FIN'') T') sw
      (evs @ created_by (connKey n t) T @ (if g = None then [] else [Closed (connKey n t)]))"
| udp: "flow_run pick cfg T sw evs \<Longrightarrow>
    flow_run pick cfg (trackUDP pick cfg n t len ts pl T) sw (evs @ created_by (connKey n t) T)"
| icmp: "flow_run pick cfg T sw evs \<Longrightarrow> flow_run pick cfg (handleICMP cfg n ty d pl len ts T) sw evs"
| icmp6: "flow_run pick cfg T sw evs \<Longrightarrow> flow_run pick cfg (handleICMPv6 cfg n ty d pl len ts T) sw evs"
| mark: "flow_run pick cfg T sw evs \<Longrightarrow> flow_run pick cfg (markL7 pick cfg key T) sw (evs @ created_by key T)"
| scan: "flow_run pick cfg T None evs \<Longrightarrow> flush_scan now idle T = (T', em, st) \<Longrightarrow>
    flow_run pick cfg T' (Some \<lparr>sw_now = now, sw_idle = idle, sw_stale = st, sw_emit = em\<rparr>)
      (evs @ map (Closed \<circ> fst) (filter (\<lambda>(k, f). flush_emits now idle f) (ft_flows T)))"
| batch: "flow_run pick cfg T (Some sw) evs \<Longrightarrow> sw_stale sw \<noteq> [] \<Longrightarrow>
    flow_run pick cfg (flush_delete (sw_now sw) (sw_idle sw) (sw_stale sw) T)
      (Some (sw\<lparr>sw_stale := drop gcDeleteBatch (sw_stale sw)\<rparr>)) evs"
| flush: "flow_run pick cfg T (Some sw) evs \<Longrightarrow> sw_stale sw = [] \<Longrightarrow>
    flow_run pick cfg (fold (\<lambda>f. emitFlow cfg f ''idle'') (sw_emit sw) T) None evs"

definition live :: "flow_table \<Rightarrow> string \<Rightarrow> nat" where
  "live T k = (case map_of (ft_flows T) k of Some f \<Rightarrow> if fl_emitted f then 0 else 1 | None \<Rightarrow> 0)"

subsection \<open>The table\<close>

lemma emitFlow_flows [simp]: "ft_flows (emitFlow cfg f r T) = ft_flows T"
  by (simp add: emitFlow_def Let_def)

lemma fold_emitFlow_flows [simp]: "ft_flows (fold (\<lambda>f. emitFlow cfg f r) fs T) = ft_flows T"
  by (induction fs arbitrary: T) simp_all

lemma icmp_flows [simp]: "ft_flows (handleICMP cfg n ty d pl len ts T) = ft_flows T"
  "ft_flows (handleICMPv6 cfg n ty d pl len ts T) = ft_flows T"
  by (simp_all add: handleICMP_def handleICMPv6_def emitICMPEntry_def Let_def case_prod_unfold)

lemma fst_map_snd: "fst \<circ> (\<lambda>(k, f). (k, h f)) = fst"
  by auto

lemma insert_flow_ok:
  assumes "picks_key pick" "map_ok (cfg_maxFlows cfg) (ft_flows T)"
  shows "map_ok (cfg_maxFlows cfg) (ft_flows (insert_flow pick cfg key f T))"
proof -
  let ?m = "AList.update key f (ft_flows T)"
  have "map_ok (cfg_maxFlows cfg) (fst (evictOverCapLocked pick (cfg_maxFlows cfg) ?m))"
    using assms by (intro evict_map_ok) (simp_all add: map_ok_def AList.distinct_update length_update_key)
  then show ?thesis by (simp add: insert_flow_def case_prod_unfold)
qed

lemma write_flow_ok: "map_ok n (ft_flows T) \<Longrightarrow> map_ok n (ft_flows (write_flow key f T))"
  by (simp add: write_flow_def map_of_eq_None_iff update_map_ok)

lemma trackTCP_locked_ok:
  assumes "picks_key pick" "map_ok (cfg_maxFlows cfg) (ft_flows T)" "trackTCP_locked pick cfg n t tcp len ts mt T = (T', g)"
  shows "map_ok (cfg_maxFlows cfg) (ft_flows T')"
  using assms by (auto simp: trackTCP_locked_def Let_def insert_flow_ok write_flow_ok split: option.splits prod.splits if_splits)

lemma flush_delete_one_ok: "map_ok n (ft_flows T) \<Longrightarrow> map_ok n (ft_flows (flush_delete_one now idle k T))"
  by (simp add: flush_delete_one_def delete_map_ok split: option.splits)

lemma flush_delete_ok: "map_ok n (ft_flows T) \<Longrightarrow> map_ok n (ft_flows (fold (flush_delete_one now idle) ks T))"
  by (induction ks arbitrary: T) (simp_all add: flush_delete_one_ok)

lemma flow_run_table:
  assumes "flow_run pick cfg T sw evs" "picks_key pick"
  shows "map_ok (cfg_maxFlows cfg) (ft_flows T)"
  using assms
proof (induction rule: flow_run.induct)
  case (tcp T sw evs n t tcp len ts mt T' g)
  then show ?case by (cases g) (auto dest: trackTCP_locked_ok)
next
  case (udp T sw evs n t len ts pl)
  then show ?case by (auto simp: trackUDP_def Let_def insert_flow_ok write_flow_ok split: option.splits)
next
  case (mark T sw evs key)
  then show ?case
    by (cases "map_of (ft_flows T) key") (simp_all add: markL7_def insert_flow_ok update_present_ok)
next
  case (scan T evs now idle T' em st)
  then show ?case by (auto simp: flush_scan_def map_ok_def fst_map_snd)
next
  case (batch T sw evs)
  then show ?case by (simp add: flush_delete_def flush_delete_ok)
qed (simp_all add: map_ok_def)

subsection \<open>At most one entry per flow\<close>

lemma account_steps_keep:
  "fl_emitted (captureRaw pl c f) = fl_emitted f" "fl_l7 (captureRaw pl c f) = fl_l7 f"
  "fl_emitted (copy_headers cfg mt f) = fl_emitted f" "fl_l7 (copy_headers cfg mt f) = fl_l7 f"
  "fl_emitted (client_packet tcp len ts f) = fl_emitted f" "fl_l7 (client_packet tcp len ts f) = fl_l7 f"
  "fl_emitted (server_packet tcp len ts f) = fl_emitted f" "fl_l7 (server_packet tcp len ts f) = fl_l7 f"
  "fl_emitted (note_flags tcp f) = fl_emitted f" "fl_l7 (note_flags tcp f) = fl_l7 f"
  by (simp_all add: copy_headers_def captureRaw_def client_packet_def server_packet_def note_flags_def Let_def)

lemma dedup_keeps: "dedup c tcp ts f = (dup, f') \<Longrightarrow> fl_emitted f' = fl_emitted f \<and> fl_l7 f' = fl_l7 f"
  by (auto simp: dedup_def split: prod.splits if_splits)

lemma account_keeps:
  "account cfg n t tcp len ts mt f = (dup, f') \<Longrightarrow> fl_emitted f' = fl_emitted f \<and> fl_l7 f' = fl_l7 f"
  by (auto simp: account_def Let_def account_steps_keep dedup_keeps split: prod.splits if_splits)

lemma live_insert:
  "k \<noteq> key \<Longrightarrow> live (insert_flow pick cfg key f T) k \<le> live T k"
  "live (insert_flow pick cfg key f T) key \<le> (if fl_emitted f then 0 else 1)"
  using evict_lookup [of pick "cfg_maxFlows cfg" "AList.update key f (ft_flows T)" k]
    evict_lookup [of pick "cfg_maxFlows cfg" "AList.update key f (ft_flows T)" key]
  by (auto simp: live_def insert_flow_def case_prod_unfold AList.update_conv' split: option.splits)

lemma live_write:
  "k \<noteq> key \<Longrightarrow> live (write_flow key f T) k = live T k"
  "live (write_flow key f T) key \<le> (if fl_emitted f then 0 else 1)"
  by (auto simp: live_def write_flow_def AList.update_conv' split: option.splits)


text \<open>How many flows were created under a key, and how many entries were decided on.\<close>

definition creations :: "string \<Rightarrow> flow_event list \<Rightarrow> nat" where
  "creations k evs = length (filter (\<lambda>e. e = Created k) evs)"

definition closures :: "string \<Rightarrow> flow_event list \<Rightarrow> nat" where
  "closures k evs = length (filter (\<lambda>e. e = Closed k) evs)"

lemma event_counts [simp]:
  "creations k (a @ b) = creations k a + creations k b" "closures k (a @ b) = closures k a + closures k b"
  "creations k [] = 0" "closures k [] = 0" "creations k (map (Closed \<circ> h) xs) = 0"
  "creations k (created_by key T) = (if k = key \<and> map_of (ft_flows T) key = None then 1 else 0)"
  "closures k (created_by key T) = 0"
  by (auto simp: creations_def closures_def created_by_def)

lemma live_le: "live T k \<le> 1"
  by (simp add: live_def split: option.splits)

lemma live_absent: "map_of (ft_flows T) k = None \<Longrightarrow> live T k = 0"
  by (simp add: live_def)

lemma live_emitFlow [simp]: "live (emitFlow cfg f r T) = live T" "live (fold (\<lambda>f. emitFlow cfg f r) fs T) = live T"
  by (simp_all add: live_def fun_eq_iff)

lemma live_trackTCP:
  assumes "trackTCP_locked pick cfg n t tcp len ts mt T = (T', g)"
  shows "live T' k + (if g \<noteq> None \<and> k = connKey n t then 1 else 0) \<le> live T k
    + (if k = connKey n t \<and> map_of (ft_flows T) (connKey n t) = None then 1 else 0)"
proof -
  let ?key = "connKey n t"
  obtain f T1 where f: "(case map_of (ft_flows T) ?key of Some f \<Rightarrow> (orient n t ts f, T)
      | None \<Rightarrow> let nf = newFlow ProtocolTCP n t ts in (nf, insert_flow pick cfg ?key nf T)) = (f, T1)" by fastforce
  obtain dup f' where acc: "account cfg n t tcp len ts mt f = (dup, f')" by fastforce
  have em: "fl_emitted f' = fl_emitted f" using account_keeps [OF acc] by simp
  have T': "T' = write_flow ?key (if g = None then f' else f'\<lparr>fl_emitted := True\<rparr>) T1" and g: "g \<noteq> None \<Longrightarrow> \<not> fl_emitted f"
    using assms f acc em by (auto simp: trackTCP_locked_def Let_def closing_def split: if_splits)
  have other: "k \<noteq> ?key \<Longrightarrow> live T1 k \<le> live T k"
    using f live_insert(1) by (auto simp: Let_def split: option.splits)
  have this_key: "(if fl_emitted f then 0 else 1) \<le> live T ?key + (if map_of (ft_flows T) ?key = None then 1 else 0)"
    using f by (auto simp: live_def orient_def Let_def split: option.splits if_splits)
  show ?thesis
    using other this_key live_write(1) [of k ?key] live_write(2) [of ?key f' T1]
      live_write(2) [of ?key "f'\<lparr>fl_emitted := True\<rparr>" T1] g em
    by (cases "k = ?key"; cases "g = None") (auto simp: T' split: if_splits)
qed

lemma closures_scan:
  assumes "distinct (map fst m)"
  shows "closures k (map (Closed \<circ> fst) (filter (\<lambda>(k, f). P f) m))
    = (case map_of m k of Some f \<Rightarrow> if P f then 1 else 0 | None \<Rightarrow> 0)"
  using assms
proof (induction m)
  case (Cons x m)
  obtain k' f where x: "x = (k', f)" by (cases x)
  have "k = k' \<Longrightarrow> map_of m k = None" using Cons.prems by (simp add: x map_of_eq_None_iff)
  then show ?case using Cons by (auto simp: x closures_def)
qed (simp add: closures_def)

lemma map_of_map_value: "map_of (map (\<lambda>(k, f). (k, h f)) m) k = map_option h (map_of m k)"
  by (induction m) auto

lemma live_scan:
  assumes "flush_scan now idle T = (T', em, st)" "distinct (map fst (ft_flows T))"
  shows "live T' k + closures k (map (Closed \<circ> fst) (filter (\<lambda>(k, f). flush_emits now idle f) (ft_flows T))) \<le> live T k"
  using assms(1) closures_scan [OF assms(2), of k "flush_emits now idle"]
  by (cases "map_of (ft_flows T) k") (auto simp: flush_scan_def live_def map_of_map_value flush_emits_def)

lemma live_delete_one: "live (flush_delete_one now idle k' T) k \<le> live T k"
  by (auto simp: live_def flush_delete_one_def AList.delete_conv' split: option.splits)

lemma live_delete: "live (fold (flush_delete_one now idle) ks T) k \<le> live T k"
  by (induction ks arbitrary: T) (auto intro: order_trans [OF _ live_delete_one])

lemma live_mark: "live (markL7 pick cfg key T) k \<le> live T k + (if k = key \<and> map_of (ft_flows T) key = None then 1 else 0)"
  using live_insert(1) [of k key pick cfg "zero_flow\<lparr>fl_l7 := True\<rparr>" T] live_le [of "insert_flow pick cfg key (zero_flow\<lparr>fl_l7 := True\<rparr>) T" key]
  by (cases "map_of (ft_flows T) key"; cases "k = key") (auto simp: markL7_def live_def AList.update_conv')

lemma live_udp:
  "live (trackUDP pick cfg n t len ts pl T) k \<le> live T k
    + (if k = connKey n t \<and> map_of (ft_flows T) (connKey n t) = None then 1 else 0)"
proof (cases "map_of (ft_flows T) (connKey n t)")
  case None
  then show ?thesis using live_insert(1) [of k "connKey n t" pick cfg "newFlow ProtocolUDP n t ts" T] live_le
    by (cases "k = connKey n t") (auto simp: trackUDP_def Let_def live_write(1) intro: order_trans [OF live_le])
next
  case (Some f)
  then show ?thesis by (cases "k = connKey n t") (auto simp: trackUDP_def Let_def live_write(1) live_def write_flow_def AList.update_conv' account_steps_keep split: option.splits)
qed

lemma flow_run_once:
  assumes "flow_run pick cfg T sw evs" "picks_key pick"
  shows "closures k evs + live T k \<le> creations k evs"
  using assms
proof (induction rule: flow_run.induct)
  case (tcp T sw evs n t tcp len ts mt T' g)
  have "closures k (if g = None then [] else [Closed (connKey n t)]) = (if g \<noteq> None \<and> k = connKey n t then 1 else 0)"
    "creations k (if g = None then [] else [Closed (connKey n t)]) = 0" by (auto simp: closures_def creations_def)
  moreover have "live (case g of None \<Rightarrow> T' | Some f \<Rightarrow> emitFlow cfg f (if fl_rstSeen f then ''RST'' else ''FIN'') T') k = live T' k"
    by (cases g) simp_all
  ultimately show ?case using tcp live_trackTCP [OF tcp(2), of k] by simp
next
  case (udp T sw evs n t len ts pl)
  then show ?case using live_udp [of pick cfg n t len ts pl T k] by simp
next
  case (icmp T sw evs n ty d pl len ts)
  then show ?case by (simp add: live_def)
next
  case (icmp6 T sw evs n ty d pl len ts)
  then show ?case by (simp add: live_def)
next
  case (mark T sw evs key)
  then show ?case using live_mark [of pick cfg key T k] by simp
next
  case (scan T evs now idle T' em st)
  then have "distinct (map fst (ft_flows T))" using flow_run_table by (force simp: map_ok_def)
  then show ?case using scan live_scan [OF scan(2), of k] by simp
next
  case (batch T sw evs)
  then show ?case using live_delete [of "sw_now sw" "sw_idle sw" "take gcDeleteBatch (sw_stale sw)" T k]
    by (simp add: flush_delete_def)
qed (simp_all add: live_def)

subsection \<open>Entries\<close>

definition flow_entries :: "flow_cfg \<Rightarrow> flow_table \<Rightarrow> Entry list" where
  "flow_entries cfg T = filter (\<lambda>e. prefix (cfg_node cfg @ ''-l4-'') (e_ID e)) (ft_out T)"

definition pending_entries :: "sweep option \<Rightarrow> nat" where
  "pending_entries sw = (case sw of None \<Rightarrow> 0 | Some s \<Rightarrow> length (sw_emit s))"

definition decided :: "flow_event list \<Rightarrow> nat" where
  "decided evs = length (filter (\<lambda>e. case e of Closed _ \<Rightarrow> True | Created _ \<Rightarrow> False) evs)"

lemma decided_simps [simp]:
  "decided (a @ b) = decided a + decided b" "decided [] = 0" "decided [Closed k] = 1"
  "decided (created_by key T) = 0" "decided (map (Closed \<circ> h) xs) = length xs"
  by (auto simp: decided_def created_by_def comp_def)

lemma flow_entries_emit [simp]: "length (flow_entries cfg (emitFlow cfg f r T)) = Suc (length (flow_entries cfg T))"
  by (simp add: flow_entries_def emitFlow_def Let_def)

lemma flow_entries_fold [simp]:
  "length (flow_entries cfg (fold (\<lambda>f. emitFlow cfg f r) fs T)) = length fs + length (flow_entries cfg T)"
  by (induction fs arbitrary: T) simp_all

lemma flow_entries_icmp [simp]:
  "flow_entries cfg (handleICMP cfg n ty d pl len ts T) = flow_entries cfg T"
  "flow_entries cfg (handleICMPv6 cfg n ty d pl len ts T) = flow_entries cfg T"
  by (simp_all add: flow_entries_def handleICMP_def handleICMPv6_def emitICMPEntry_def Let_def case_prod_unfold)

lemma flow_entries_insert [simp]: "flow_entries cfg (insert_flow pick cfg key f T) = flow_entries cfg T"
  by (simp add: flow_entries_def insert_flow_def case_prod_unfold)

lemma flow_entries_write [simp]: "flow_entries cfg (write_flow key f T) = flow_entries cfg T"
  by (simp add: flow_entries_def write_flow_def)

lemma flow_entries_locked: "trackTCP_locked pick cfg n t tcp len ts mt T = (T', g) \<Longrightarrow> flow_entries cfg T' = flow_entries cfg T"
  by (auto simp: trackTCP_locked_def Let_def split: option.splits prod.splits if_splits)

lemma flow_entries_delete [simp]: "flow_entries cfg (fold (flush_delete_one now idle) ks T) = flow_entries cfg T"
proof (induction ks arbitrary: T)
  case (Cons k ks)
  have "flow_entries cfg (flush_delete_one now idle k T) = flow_entries cfg T"
    by (simp add: flow_entries_def flush_delete_one_def split: option.splits)
  then show ?case using Cons by simp
qed simp

lemma flow_run_decided:
  "flow_run pick cfg T sw evs \<Longrightarrow> length (flow_entries cfg T) + pending_entries sw = decided evs"
proof (induction rule: flow_run.induct)
  case (tcp T sw evs n t tcp len ts mt T' g)
  then show ?case using flow_entries_locked [OF tcp(2)] by (cases g) simp_all
next
  case (udp T sw evs n t len ts pl)
  have "flow_entries cfg (trackUDP pick cfg n t len ts pl T) = flow_entries cfg T"
    by (simp add: trackUDP_def Let_def split: option.splits)
  then show ?case using udp by simp
next
  case (mark T sw evs key)
  have "flow_entries cfg (markL7 pick cfg key T) = flow_entries cfg T"
    by (cases "map_of (ft_flows T) key") (simp_all add: markL7_def, simp add: flow_entries_def)
  then show ?case using mark by simp
next
  case (scan T evs now idle T' em st)
  then show ?case by (auto simp: flush_scan_def pending_entries_def flow_entries_def)
next
  case (batch T sw evs)
  then show ?case by (simp add: flush_delete_def pending_entries_def)
next
  case (flush T sw evs)
  then show ?case by (simp add: pending_entries_def)
next
  case start
  then show ?case by (simp add: flow_entries_def pending_entries_def)
qed simp_all


definition some_cfg :: flow_cfg where
  "some_cfg = \<lparr>cfg_node = ''n1'', cfg_nodeIP = ''10.0.0.9'', cfg_rawCap = 64, cfg_headerHexCap = 0, cfg_maxFlows = 2, cfg_maxPending = 2\<rparr>"


text \<open>The flow map never holds more than \<open>maxFlows\<close> entries and never two for one key, in any interleaving.\<close>

theorem flow_table_bounded:
  assumes "flow_run pick cfg T sw evs" "picks_key pick"
  shows "length (ft_flows T) \<le> cfg_maxFlows cfg \<and> distinct (map fst (ft_flows T))"
  using flow_run_table [OF assms] by (simp add: map_ok_def)

theorem flow_table_bounded_witness:
  "length (ft_flows (markL7 hd some_cfg ''c'' (markL7 hd some_cfg ''b'' (markL7 hd some_cfg ''a''
     \<lparr>ft_flows = [], ft_flowsEvicted = 0, ft_seq = 0, ft_out = []\<rparr>)))) \<le> 2"
proof -
  note r = flow_run.mark [OF flow_run.mark [OF flow_run.mark [OF flow_run.start]], of hd some_cfg "''c''" "''b''" "''a''"]
  show ?thesis using flow_table_bounded [OF r] by (simp add: picks_key_def some_cfg_def)
qed

subsection \<open>Dissected connections\<close>

lemma write_present:
  "map_of (ft_flows T) key = Some f \<Longrightarrow> map_of (ft_flows (write_flow key g T)) key = Some g"
  by (simp add: write_flow_def AList.update_conv')

text \<open>Once a connection is marked as dissected, its flow produces no generic entry as long as it stays in the
  table: packets, FIN and RST included, leave it marked and emit nothing, and a sweep does not emit it.\<close>

theorem l7_flow_not_emitted:
  assumes "map_of (ft_flows T) (connKey n t) = Some f" "fl_l7 f"
  shows "(trackTCP_locked pick cfg n t tcp len ts mt T = (T', g) \<longrightarrow>
      g = None \<and> (\<exists>f'. map_of (ft_flows T') (connKey n t) = Some f' \<and> fl_l7 f'))
    \<and> \<not> flush_emits now idle f"
proof -
  obtain dup f' where acc: "account cfg n t tcp len ts mt (orient n t ts f) = (dup, f')" by fastforce
  then have "fl_l7 f'" using account_keeps [OF acc] assms(2) by (simp add: orient_def Let_def)
  then show ?thesis
    using assms acc write_present [OF assms(1), of f']
    by (auto simp: trackTCP_locked_def Let_def closing_def flush_emits_def split: if_splits)
qed

theorem l7_flow_not_emitted_witness:
  "\<not> flush_emits 100 5 (zero_flow\<lparr>fl_l7 := True, fl_firstSeen := Some 1, fl_lastSeen := Some 1\<rparr>)"
  using l7_flow_not_emitted [of "\<lparr>ft_flows = [(connKey \<lparr>flow_Src = ''a'', flow_Dst = ''b''\<rparr> \<lparr>flow_Src = ''1'', flow_Dst = ''2''\<rparr>,
      zero_flow\<lparr>fl_l7 := True, fl_firstSeen := Some 1, fl_lastSeen := Some 1\<rparr>)], ft_flowsEvicted = 0, ft_seq = 0, ft_out = []\<rparr>"
      "\<lparr>flow_Src = ''a'', flow_Dst = ''b''\<rparr>" "\<lparr>flow_Src = ''1'', flow_Dst = ''2''\<rparr>"]
  by simp

subsection \<open>The raw sample\<close>

text \<open>The sample kept of a flow is exactly the first \<open>rawCap\<close> bytes of its payload, its byte count is the
  whole payload's, and the view is marked as cut exactly when bytes are missing.\<close>

theorem raw_sample_exact:
  assumes "0 \<le> rawCap"
  shows "let f = fold (\<lambda>p. captureRaw p rawCap) ps zero_flow; all = concat ps
    in fl_rawBuf f = take (nat rawCap) all \<and> fl_rawTotal f = int (length all)
      \<and> (\<forall>v. flow_rawView f = Some v \<longrightarrow> rv_Data v = take (nat rawCap) all \<and> (rv_Truncated v \<longleftrightarrow> length all > nat rawCap))"
proof -
  have "fl_rawBuf (fold (\<lambda>p. captureRaw p rawCap) ps zero_flow) = take (nat rawCap) (concat ps)
    \<and> fl_rawTotal (fold (\<lambda>p. captureRaw p rawCap) ps zero_flow) = int (length (concat ps))"
  proof (induction ps rule: rev_induct)
    case (snoc p ps)
    then show ?case using assms by (auto simp: captureRaw_def Let_def min_def nat_diff_distrib)
  qed (simp add: zero_flow_def)
  then show ?thesis by (auto simp: Let_def flow_rawView_def)
qed

theorem raw_sample_exact_witness:
  "fl_rawBuf (fold (\<lambda>p. captureRaw p 5) [''abc'', ''defg''] zero_flow) = ''abcde''"
  using raw_sample_exact [of 5 "[''abc'', ''defg'']"] by (simp add: Let_def numeral_eq_Suc)


subsection \<open>Retransmissions\<close>

text \<open>A run of payload segments from the client, each with its arrival time.\<close>

fun client_run :: "flow_cfg \<Rightarrow> flow \<Rightarrow> flow \<Rightarrow> l4meta \<Rightarrow> (tcp_layer \<times> int \<times> time) list \<Rightarrow> flowState \<Rightarrow> flowState" where
  "client_run cfg n t mt [] f = f"
| "client_run cfg n t mt ((tcp, len, ts) # segs) f = client_run cfg n t mt segs (snd (account cfg n t tcp len ts mt f))"

text \<open>Segments that carry the stream on from sequence number \<open>s\<close> without a gap.\<close>

fun contiguous :: "32 word \<Rightarrow> (tcp_layer \<times> int \<times> time) list \<Rightarrow> bool" where
  "contiguous s [] \<longleftrightarrow> True"
| "contiguous s ((tcp, len, ts) # segs) \<longleftrightarrow> tcp_Seq tcp = s \<and> tcp_Payload tcp \<noteq> [] \<and> length (tcp_Payload tcp) < 2 ^ 32
     \<and> contiguous (s + word_of_nat (length (tcp_Payload tcp))) segs"

lemma client_steps_keep:
  "client_side n t (captureRaw pl c f) = client_side n t f" "client_side n t (copy_headers cfg mt f) = client_side n t f"
  "client_side n t (client_packet tcp len ts f) = client_side n t f" "client_side n t (note_flags tcp f) = client_side n t f"
  "fl_haveSeqClient (captureRaw pl c f) = fl_haveSeqClient f" "fl_haveSeqClient (copy_headers cfg mt f) = fl_haveSeqClient f"
  "fl_nextSeqClient (captureRaw pl c f) = fl_nextSeqClient f" "fl_nextSeqClient (copy_headers cfg mt f) = fl_nextSeqClient f"
  "fl_retransmits (captureRaw pl c f) = fl_retransmits f" "fl_retransmits (copy_headers cfg mt f) = fl_retransmits f"
  "fl_clientPackets (captureRaw pl c f) = fl_clientPackets f" "fl_clientPackets (copy_headers cfg mt f) = fl_clientPackets f"
  "fl_lastClientSeg (captureRaw pl c f) = fl_lastClientSeg f" "fl_lastClientSeg (copy_headers cfg mt f) = fl_lastClientSeg f"
  "fl_lastClientSeg (client_packet tcp len ts f) = fl_lastClientSeg f" "fl_lastClientSeg (note_flags tcp f) = fl_lastClientSeg f"
  "fl_retransmits (note_flags tcp f) = fl_retransmits f" "fl_clientPackets (note_flags tcp f) = fl_clientPackets f"
  "fl_haveSeqClient (note_flags tcp f) = fl_haveSeqClient f" "fl_nextSeqClient (note_flags tcp f) = fl_nextSeqClient f"
  by (simp_all add: copy_headers_def captureRaw_def client_packet_def note_flags_def client_side_def Let_def)

lemma client_packet_seq:
  "tcp_Payload tcp \<noteq> [] \<Longrightarrow>
    (if fl_haveSeqClient f \<and> tcp_Seq tcp < fl_nextSeqClient f
     then fl_retransmits (client_packet tcp len ts f) = fl_retransmits f + 1
       \<and> fl_nextSeqClient (client_packet tcp len ts f) = fl_nextSeqClient f
       \<and> fl_haveSeqClient (client_packet tcp len ts f)
     else fl_retransmits (client_packet tcp len ts f) = fl_retransmits f
       \<and> fl_nextSeqClient (client_packet tcp len ts f) = tcp_Seq tcp + word_of_nat (length (tcp_Payload tcp))
       \<and> fl_haveSeqClient (client_packet tcp len ts f))"
  "fl_clientPackets (client_packet tcp len ts f) = fl_clientPackets f + 1"
  by (simp_all add: client_packet_def Let_def)

definition fresh_client_seg :: "32 word \<Rightarrow> flowState \<Rightarrow> bool" where
  "fresh_client_seg s f \<longleftrightarrow> sf_at (fl_lastClientSeg f) = None \<or> sf_seq (fl_lastClientSeg f) \<noteq> s"

lemma account_client:
  assumes "client_side n t f" "tcp_Payload tcp \<noteq> []" "length (tcp_Payload tcp) < 2 ^ 32" "fresh_client_seg (tcp_Seq tcp) f"
  obtains f' where "account cfg n t tcp len ts mt f = (False, f')" "client_side n t f'"
    "fresh_client_seg (tcp_Seq tcp + word_of_nat (length (tcp_Payload tcp))) f'"
    "fl_clientPackets f' = fl_clientPackets f + 1" "fl_haveSeqClient f'"
    "if fl_haveSeqClient f \<and> tcp_Seq tcp < fl_nextSeqClient f
     then fl_retransmits f' = fl_retransmits f + 1 \<and> fl_nextSeqClient f' = fl_nextSeqClient f
     else fl_retransmits f' = fl_retransmits f \<and> fl_nextSeqClient f' = tcp_Seq tcp + word_of_nat (length (tcp_Payload tcp))"
proof -
  let ?n = "length (tcp_Payload tcp)"
  have "(word_of_nat ?n :: 32 word) \<noteq> 0"
    using assms(2,3) by (simp add: word_of_nat_eq_0_iff) (metis dvd_imp_le length_greater_0_conv not_le)
  then have adv: "tcp_Seq tcp \<noteq> tcp_Seq tcp + word_of_nat ?n" by simp
  define f0 where "f0 = f\<lparr>fl_lastClientSeg := \<lparr>sf_seq = tcp_Seq tcp, sf_len = ?n, sf_at = Some ts\<rparr>,
      fl_lastSeen := Some ts, fl_packets := fl_packets f + 1, fl_bytes := fl_bytes f + len\<rparr>"
  define g where "g = copy_headers cfg mt (captureRaw (tcp_Payload tcp) (cfg_rawCap cfg) f0)"
  define f' where "f' = note_flags tcp (client_packet tcp len ts g)"
  have g: "fl_haveSeqClient g = fl_haveSeqClient f" "fl_nextSeqClient g = fl_nextSeqClient f" "fl_retransmits g = fl_retransmits f"
    "fl_clientPackets g = fl_clientPackets f"
    by (simp_all add: g_def client_steps_keep f0_def)
  have "seenRecently (fl_lastClientSeg f) (tcp_Seq tcp) ?n ts = (False, \<lparr>sf_seq = tcp_Seq tcp, sf_len = ?n, sf_at = Some ts\<rparr>)"
    using assms(4) by (auto simp: seenRecently_def fresh_client_seg_def split: option.splits)
  then have "account cfg n t tcp len ts mt f = (False, f')"
    using assms by (simp add: account_def dedup_def f0_def g_def f'_def Let_def)
  moreover have "client_side n t f0" using assms(1) by (simp add: f0_def client_side_def)
  then have "client_side n t f'" by (simp add: f'_def g_def client_steps_keep)
  moreover have "fresh_client_seg (tcp_Seq tcp + word_of_nat ?n) f'"
    using adv by (simp add: f'_def g_def client_steps_keep f0_def fresh_client_seg_def)
  moreover have "fl_clientPackets f' = fl_clientPackets f + 1"
    by (simp add: f'_def client_steps_keep client_packet_seq(2) g)
  moreover have "fl_haveSeqClient f'"
    using client_packet_seq(1) [OF assms(2), of g len ts] by (simp add: f'_def client_steps_keep split: if_splits)
  moreover have "if fl_haveSeqClient f \<and> tcp_Seq tcp < fl_nextSeqClient f
     then fl_retransmits f' = fl_retransmits f + 1 \<and> fl_nextSeqClient f' = fl_nextSeqClient f
     else fl_retransmits f' = fl_retransmits f \<and> fl_nextSeqClient f' = tcp_Seq tcp + word_of_nat ?n"
    using client_packet_seq(1) [OF assms(2), of g len ts] by (simp add: f'_def client_steps_keep g split: if_splits)
  ultimately show thesis by (rule that)
qed

lemma client_run_in_order:
  assumes "contiguous s segs" "client_side n t f" "fresh_client_seg s f" "fl_haveSeqClient f \<longrightarrow> fl_nextSeqClient f = s"
  shows "fl_retransmits (client_run cfg n t mt segs f) = fl_retransmits f
    \<and> fl_clientPackets (client_run cfg n t mt segs f) = fl_clientPackets f + int (length segs)"
  using assms
proof (induction segs arbitrary: s f)
  case (Cons x segs)
  obtain tcp len ts where x: "x = (tcp, len, ts)" by (cases x)
  have seg: "tcp_Seq tcp = s" "tcp_Payload tcp \<noteq> []" "length (tcp_Payload tcp) < 2 ^ 32" using Cons.prems(1) by (simp_all add: x)
  have "fresh_client_seg (tcp_Seq tcp) f" "\<not> (fl_haveSeqClient f \<and> tcp_Seq tcp < fl_nextSeqClient f)"
    using Cons.prems seg by auto
  then obtain f' where "account cfg n t tcp len ts mt f = (False, f')" "client_side n t f'"
      "fresh_client_seg (s + word_of_nat (length (tcp_Payload tcp))) f'" "fl_clientPackets f' = fl_clientPackets f + 1"
      "fl_retransmits f' = fl_retransmits f" "fl_nextSeqClient f' = s + word_of_nat (length (tcp_Payload tcp))"
    using account_client [OF Cons.prems(2) seg(2,3), of cfg len ts mt] seg(1) by (metis (full_types))
  then show ?case using Cons.IH [of "s + word_of_nat (length (tcp_Payload tcp))" f'] Cons.prems by (simp add: x)
qed simp

text \<open>A client that sends its stream in order is never charged with a retransmission, and every one of its
  segments is counted, however often the 32-bit sequence number wraps around on the way.\<close>

theorem in_order_never_retransmits:
  assumes "contiguous s segs" "client_side n t f" "fl_lastClientSeg f = zero_seg" "\<not> fl_haveSeqClient f"
  shows "fl_retransmits (client_run cfg n t mt segs f) = fl_retransmits f
    \<and> fl_clientPackets (client_run cfg n t mt segs f) = fl_clientPackets f + int (length segs)"
  using client_run_in_order [of s segs n t f cfg mt] assms by (simp add: fresh_client_seg_def zero_seg_def)

definition data_seg :: "32 word \<Rightarrow> bytes \<Rightarrow> tcp_layer" where
  "data_seg seq payload = \<lparr>tcp_Seq = seq, tcp_Window = 512, tcp_SYN = False, tcp_ACK = True, tcp_FIN = False, tcp_RST = False,
     tcp_PSH = True, tcp_URG = False, tcp_Options = [], tcp_Payload = payload, tcp_Contents = []\<rparr>"

abbreviation no_meta :: l4meta where
  "no_meta \<equiv> \<lparr>meta_eth = None, meta_ip4 = None, meta_ip6 = None, meta_tcp = None, meta_ipVersion = 0, meta_ttl = 0\<rparr>"

abbreviation some_net :: flow where "some_net \<equiv> \<lparr>flow_Src = ''10.0.0.1'', flow_Dst = ''10.0.0.2''\<rparr>"
abbreviation some_tr :: flow where "some_tr \<equiv> \<lparr>flow_Src = ''40000'', flow_Dst = ''80''\<rparr>"

theorem in_order_never_retransmits_witness:
  "fl_retransmits (client_run some_cfg some_net some_tr no_meta
      [(data_seg 0xFFFFFFFE ''abcd'', 60, 1), (data_seg 2 ''ef'', 60, 2)] (zero_flow\<lparr>fl_clientNetEP := ''10.0.0.1'', fl_clientTrEP := ''40000''\<rparr>)) = 0"
  using in_order_never_retransmits [of "0xFFFFFFFE" "[(data_seg 0xFFFFFFFE ''abcd'', 60, 1), (data_seg 2 ''ef'', 60, 2)]"
      some_net some_tr "zero_flow\<lparr>fl_clientNetEP := ''10.0.0.1'', fl_clientTrEP := ''40000''\<rparr>" some_cfg no_meta]
  by (simp add: data_seg_def client_side_def zero_flow_def)


lemma client_run_behind:
  assumes "contiguous s segs" "client_side n t f" "fresh_client_seg s f" "fl_haveSeqClient f"
    "unat s + sum_list (map (\<lambda>seg. length (tcp_Payload (fst seg))) segs) \<le> unat (fl_nextSeqClient f)"
  shows "fl_retransmits (client_run cfg n t mt segs f) = fl_retransmits f + int (length segs)"
  using assms
proof (induction segs arbitrary: s f)
  case (Cons x segs)
  obtain tcp len ts where x: "x = (tcp, len, ts)" by (cases x)
  let ?n = "length (tcp_Payload tcp)"
  have seg: "tcp_Seq tcp = s" "tcp_Payload tcp \<noteq> []" "?n < 2 ^ 32" using Cons.prems(1) by (simp_all add: x)
  have n: "unat (word_of_nat ?n :: 32 word) = ?n" using seg(3) by (simp add: unat_of_nat take_bit_eq_mod)
  have le: "unat s + ?n + sum_list (map (\<lambda>seg. length (tcp_Payload (fst seg))) segs) \<le> unat (fl_nextSeqClient f)"
    using Cons.prems(5) by (simp add: x)
  then have "unat s + ?n < 2 ^ 32" using unsigned_less [of "fl_nextSeqClient f", where ?'a = nat] by simp
  then have s': "unat (s + word_of_nat ?n) = unat s + ?n" using n by (simp add: unat_word_ariths)
  have "fresh_client_seg (tcp_Seq tcp) f" "fl_haveSeqClient f \<and> tcp_Seq tcp < fl_nextSeqClient f"
    using Cons.prems seg le by (auto simp: word_less_nat_alt length_greater_0_conv [symmetric] simp del: length_greater_0_conv)
  then obtain f' where "account cfg n t tcp len ts mt f = (False, f')" "client_side n t f'"
      "fresh_client_seg (s + word_of_nat ?n) f'" "fl_haveSeqClient f'"
      "fl_retransmits f' = fl_retransmits f + 1" "fl_nextSeqClient f' = fl_nextSeqClient f"
    using account_client [OF Cons.prems(2) seg(2,3), of cfg len ts mt] seg(1) by (metis (full_types))
  then show ?case using Cons.IH [of "s + word_of_nat ?n" f'] Cons.prems(1) s' le by (simp add: x)
qed simp

text \<open>Retransmissions are recognised by comparing sequence numbers as plain integers, so when the capture
  misses the segment in which the sequence number wraps, every segment of new data after the gap is counted
  as a retransmission, and none of them moves the expected sequence number on.\<close>

theorem wrap_gap_counts_retransmits:
  assumes "contiguous s segs" "client_side n t f" "fresh_client_seg s f" "fl_haveSeqClient f"
    "fl_nextSeqClient f = s - gap" "unat s < unat gap"
    "unat s + sum_list (map (\<lambda>seg. length (tcp_Payload (fst seg))) segs) \<le> unat (s - gap)"
  shows "fl_retransmits (client_run cfg n t mt segs f) = fl_retransmits f + int (length segs)"
  using client_run_behind assms by simp

theorem wrap_gap_counts_retransmits_witness:
  "fl_retransmits (client_run some_cfg some_net some_tr no_meta [(data_seg 50 ''ab'', 60, 1), (data_seg 52 ''cd'', 60, 2)]
      (zero_flow\<lparr>fl_clientNetEP := ''10.0.0.1'', fl_clientTrEP := ''40000'', fl_haveSeqClient := True,
        fl_nextSeqClient := 0xFFFFFFCE\<rparr>)) = 2"
  using wrap_gap_counts_retransmits [of 50 "[(data_seg 50 ''ab'', 60, 1), (data_seg 52 ''cd'', 60, 2)]" some_net some_tr
      "zero_flow\<lparr>fl_clientNetEP := ''10.0.0.1'', fl_clientTrEP := ''40000'', fl_haveSeqClient := True, fl_nextSeqClient := 0xFFFFFFCE\<rparr>"
      100 some_cfg no_meta]
  by (simp add: data_seg_def client_side_def zero_flow_def fresh_client_seg_def zero_seg_def)

subsection \<open>One key for TCP and UDP\<close>

lemma new_flow_fields: "fl_proto (newFlow p n t ts) = p" "fl_packets (newFlow p n t ts) = 0"
  by (simp_all add: newFlow_def Let_def zero_flow_def)

text \<open>The flow key has no protocol in it: a UDP packet between the addresses and ports of a TCP flow is
  added to the packets and bytes of that flow, which is later reported as TCP.\<close>

theorem udp_counted_into_tcp_flow:
  assumes "map_of (ft_flows T) (connKey n t) = Some f" "fl_proto f = ProtocolTCP"
  shows "\<exists>f'. map_of (ft_flows (trackUDP pick cfg n t len ts pl T)) (connKey n t) = Some f' \<and> fl_proto f' = ProtocolTCP
    \<and> fl_packets f' = fl_packets f + 1 \<and> fl_bytes f' = fl_bytes f + len
    \<and> fl_clientPackets f' = fl_clientPackets f \<and> fl_serverPackets f' = fl_serverPackets f"
  using assms by (auto simp: trackUDP_def Let_def write_flow_def AList.update_conv' captureRaw_def)

theorem udp_counted_into_tcp_flow_witness:
  "\<exists>f'. map_of (ft_flows (trackUDP hd some_cfg some_net some_tr 40 9 []
       \<lparr>ft_flows = [(connKey some_net some_tr, newFlow ProtocolTCP some_net some_tr 1)], ft_flowsEvicted = 0, ft_seq = 0, ft_out = []\<rparr>))
     (connKey some_net some_tr) = Some f' \<and> fl_proto f' = ProtocolTCP \<and> fl_packets f' = 1"
  using udp_counted_into_tcp_flow [of
    "\<lparr>ft_flows = [(connKey some_net some_tr, newFlow ProtocolTCP some_net some_tr 1)], ft_flowsEvicted = 0, ft_seq = 0, ft_out = []\<rparr>"
    some_net some_tr "newFlow ProtocolTCP some_net some_tr 1" hd some_cfg 40 9 "[]"] new_flow_fields [of ProtocolTCP some_net some_tr 1]
  by auto

end
