(* ===== verification/Worker_Idpair.thy ===== *)
theory Worker_Idpair
  imports Worker_Conn Worker_Maps Worker_Flows
begin

text \<open>
  Pairing by identifier: the maps \<open>p.dns\<close>, \<open>p.mongo\<close> and \<open>p.kafka\<close> of the pipeline, in which a request waits under a key
  made of its connection and its identifier until the message with that identifier arrives.  The theory holds the contract
  the three have in common and what follows from it; each dissector interprets it on its own operations.
\<close>

text \<open>One such map with the shared entry counter and the entries emitted so far.\<close>

record 'p id_table =
  it_pending :: "(string \<times> 'p) list"
  it_seq :: nat
  it_out :: "Entry list"

definition id_table0 :: "'p id_table" where
  "id_table0 = \<lparr>it_pending = [], it_seq = 0, it_out = []\<rparr>"

definition id_exchanged :: "'p id_table \<Rightarrow> (Payload \<times> Payload) list" where
  "id_exchanged T = map (\<lambda>e. (e_Request e, e_Response e)) (it_out T)"

text \<open>What the reaper and the other users of the counter do to a table: entries may go, none comes or changes.\<close>

definition id_forgets :: "'p id_table \<Rightarrow> 'p id_table \<Rightarrow> bool" where
  "id_forgets T T' \<longleftrightarrow> (\<forall>k. map_of (it_pending T') k = map_of (it_pending T) k \<or> map_of (it_pending T') k = None) \<and> it_out T' = it_out T"

subsection \<open>Histories\<close>

datatype ('i, 'p, 'r) id_event = Stored 'i 'p | Answered 'i 'r 'p

text \<open>The request of each identifier that was made last and not answered since.\<close>

definition open_step :: "('i, 'p, 'r) id_event \<Rightarrow> ('i \<rightharpoonup> 'p) \<Rightarrow> ('i \<rightharpoonup> 'p)" where
  "open_step e m = (case e of Stored i p \<Rightarrow> m(i \<mapsto> p) | Answered i r p \<Rightarrow> m(i := None))"

definition open_req :: "('i, 'p, 'r) id_event list \<Rightarrow> ('i \<rightharpoonup> 'p)" where
  "open_req tr = fold open_step tr Map.empty"

fun answers :: "('p \<Rightarrow> 'q) \<Rightarrow> ('p \<Rightarrow> 'r \<Rightarrow> 'a) \<Rightarrow> ('i, 'p, 'r) id_event list \<Rightarrow> ('q \<times> 'a) list" where
  "answers req ans [] = []"
| "answers req ans (Stored i p # tr) = answers req ans tr"
| "answers req ans (Answered i r p # tr) = (req p, ans p r) # answers req ans tr"

lemma answers_append: "answers req ans (tr @ tr') = answers req ans tr @ answers req ans tr'"
proof (induction tr)
  case (Cons e tr)
  then show ?case by (cases e) simp_all
qed simp

lemma open_req_snoc: "open_req (tr @ [e]) = open_step e (open_req tr)"
  by (simp add: open_req_def)

text \<open>Every order of the critical sections of the readers of all connections and of the reaper; the history records
  what was stored and which request each answer took.\<close>

inductive id_run :: "'s \<Rightarrow> ('i \<Rightarrow> 'p \<Rightarrow> 's \<Rightarrow> 's) \<Rightarrow> ('i \<Rightarrow> 'r \<Rightarrow> 's \<Rightarrow> 's) \<Rightarrow> ('s \<Rightarrow> 'i \<Rightarrow> 'p option) \<Rightarrow> ('s \<Rightarrow> 's \<Rightarrow> bool)
    \<Rightarrow> 's \<Rightarrow> ('i, 'p, 'r) id_event list \<Rightarrow> bool"
  for init store finish look forgets where
  start: "id_run init store finish look forgets init []"
| store: "id_run init store finish look forgets s tr \<Longrightarrow>
    id_run init store finish look forgets (store i p s) (tr @ [Stored i p])"
| finished: "id_run init store finish look forgets s tr \<Longrightarrow>
    id_run init store finish look forgets (finish i r s) (tr @ (case look s i of None \<Rightarrow> [] | Some p \<Rightarrow> [Answered i r p]))"
| forget: "id_run init store finish look forgets s tr \<Longrightarrow> forgets s s' \<Longrightarrow>
    id_run init store finish look forgets s' tr"

subsection \<open>The contract\<close>

locale id_pairing =
  fixes init :: 's and store :: "'i \<Rightarrow> 'p \<Rightarrow> 's \<Rightarrow> 's" and finish :: "'i \<Rightarrow> 'r \<Rightarrow> 's \<Rightarrow> 's"
    and look :: "'s \<Rightarrow> 'i \<Rightarrow> 'p option" and forgets :: "'s \<Rightarrow> 's \<Rightarrow> bool"
    and pairs :: "'s \<Rightarrow> ('q \<times> 'a) list" and req :: "'p \<Rightarrow> 'q" and ans :: "'p \<Rightarrow> 'r \<Rightarrow> 'a"
  assumes start_empty: "look init i = None" "pairs init = []"
    and look_store: "look (store i p s) j = (if j = i then Some p else look s j) \<or> look (store i p s) j = None"
    and pairs_store: "pairs (store i p s) = pairs s"
    and look_complete: "look (finish i r s) j = (if j = i then None else look s j)"
    and pairs_complete: "pairs (finish i r s) = pairs s @ (case look s i of None \<Rightarrow> [] | Some p \<Rightarrow> [(req p, ans p r)])"
    and look_forgets: "forgets s s' \<Longrightarrow> look s' j = look s j \<or> look s' j = None"
    and pairs_forgets: "forgets s s' \<Longrightarrow> pairs s' = pairs s"
begin

lemma looks_are_open:
  "id_run init store finish look forgets s tr \<Longrightarrow> look s i = Some p \<Longrightarrow> open_req tr i = Some p"
proof (induction arbitrary: i p rule: id_run.induct)
  case (store s tr j q)
  then show ?case using look_store [of j q s i] store.IH [of i p] by (cases "i = j") (auto simp: open_req_snoc open_step_def)
next
  case (finished s tr j r)
  then show ?case by (auto simp: look_complete open_req_snoc open_step_def split: if_splits option.splits)
next
  case (forget s tr s')
  then show ?case using look_forgets [OF forget.hyps(2), of i] forget.IH [of i p] by auto
qed (simp add: start_empty)

lemma pairs_are_answers:
  "id_run init store finish look forgets s tr \<Longrightarrow> pairs s = answers req ans tr"
  by (induction rule: id_run.induct) (auto simp: start_empty pairs_store pairs_complete pairs_forgets answers_append split: option.splits)

lemma answer_matches:
  "id_run init store finish look forgets s tr \<Longrightarrow> tr = pre @ Answered i r p # post \<Longrightarrow> open_req pre i = Some p"
proof (induction arbitrary: post rule: id_run.induct)
  case (store s tr j q)
  then show ?case by (cases post rule: rev_cases) auto
next
  case (finished s tr j r')
  show ?case
  proof (cases "look s j")
    case None
    then show ?thesis using finished by simp
  next
    case (Some q)
    have eq: "tr @ [Answered j r' q] = pre @ Answered i r p # post" using finished.prems Some by simp
    show ?thesis
    proof (cases post rule: rev_cases)
      case Nil
      then show ?thesis using eq Some looks_are_open [OF finished.hyps] by simp
    next
      case (snoc post' e)
      then show ?thesis using eq finished.IH [of post'] by simp
    qed
  qed
qed simp_all

lemma pairing_sound:
  assumes "id_run init store finish look forgets s tr"
  shows "pairs s = answers req ans tr \<and> (\<forall>pre i r p post. tr = pre @ Answered i r p # post \<longrightarrow> open_req pre i = Some p)"
  using pairs_are_answers [OF assms] answer_matches [OF assms] by blast

end

text \<open>Without a bound on the map and with nothing reaped, no open request is missed.\<close>

datatype ('i, 'p, 'r) id_op = St 'i 'p | Cp 'i 'r

fun id_ops :: "('i \<Rightarrow> 'p \<Rightarrow> 's \<Rightarrow> 's) \<Rightarrow> ('i \<Rightarrow> 'r \<Rightarrow> 's \<Rightarrow> 's) \<Rightarrow> ('i, 'p, 'r) id_op list \<Rightarrow> 's \<Rightarrow> 's" where
  "id_ops store finish [] s = s"
| "id_ops store finish (St i p # ops) s = id_ops store finish ops (store i p s)"
| "id_ops store finish (Cp i r # ops) s = id_ops store finish ops (finish i r s)"

fun id_spec :: "('p \<Rightarrow> 'q) \<Rightarrow> ('p \<Rightarrow> 'r \<Rightarrow> 'a) \<Rightarrow> ('i, 'p, 'r) id_op list \<Rightarrow> ('i \<rightharpoonup> 'p) \<Rightarrow> ('q \<times> 'a) list" where
  "id_spec req ans [] m = []"
| "id_spec req ans (St i p # ops) m = id_spec req ans ops (m(i \<mapsto> p))"
| "id_spec req ans (Cp i r # ops) m =
     (case m i of None \<Rightarrow> id_spec req ans ops m | Some p \<Rightarrow> (req p, ans p r) # id_spec req ans ops (m(i := None)))"

locale exact_id_pairing = id_pairing +
  assumes keeps: "look (store i p s) j = (if j = i then Some p else look s j)"
begin

lemma ops_refine: "look s = m \<Longrightarrow> pairs (id_ops store finish ops s) = pairs s @ id_spec req ans ops m"
proof (induction ops arbitrary: s m)
  case (Cons x ops)
  show ?case
  proof (cases x)
    case (St i p)
    have "look (store i p s) = m(i \<mapsto> p)" using Cons.prems by (auto simp: keeps)
    from Cons.IH [OF this] show ?thesis by (simp only: St id_ops.simps id_spec.simps pairs_store)
  next
    case (Cp i r)
    have "look (finish i r s) = m(i := None)" using Cons.prems by (auto simp: look_complete)
    note ih = Cons.IH [OF this]
    have "m(i := None) = m" if "m i = None" using that by (rule fun_upd_idem)
    then show ?thesis using Cons.prems
      by (cases "m i") (simp_all only: Cp id_ops.simps id_spec.simps pairs_complete ih option.case append.assoc append_Nil append_Cons append_Nil2)
  qed
qed simp

lemma ops_from_start: "pairs (id_ops store finish ops init) = id_spec req ans ops Map.empty"
  by (subst ops_refine [of init Map.empty]) (auto simp: start_empty)

end

subsection \<open>Keys\<close>

lemma suffixed_inj: "k @ CHR ''/'' # itoa i = k' @ CHR ''/'' # itoa i' \<Longrightarrow> k = k' \<and> i = i'"
proof -
  assume "k @ CHR ''/'' # itoa i = k' @ CHR ''/'' # itoa i'"
  then have "rev (itoa i) @ CHR ''/'' # rev k = rev (itoa i') @ CHR ''/'' # rev k'"
    by (metis append_Cons append_Nil rev_append rev.simps(2) append.assoc)
  moreover have "CHR ''/'' \<notin> set (rev (itoa n))" for n
    using itoa_set [of "CHR ''/''" n] by (auto simp: is_digit_def)
  ultimately have "rev (itoa i) = rev (itoa i') \<and> rev k = rev k'" by (intro split_at_unique)
  then show ?thesis by (auto dest: itoa_inj)
qed

lemma sweep_forgets: "id_forgets T (T\<lparr>it_pending := sweepStale expired [] (it_pending T)\<rparr>)"
proof -
  have one: "map_of (sweep_one expired k' m) k = map_of m k \<or> map_of (sweep_one expired k' m) k = None" for k k' m
    by (auto simp: sweep_one_def AList.delete_conv' split: option.splits)
  have fld: "map_of (fold (sweep_one expired) ks m) k = map_of m k \<or> map_of (fold (sweep_one expired) ks m) k = None" for k ks m
  proof (induction ks arbitrary: m)
    case (Cons a ks)
    show ?case using Cons [of "sweep_one expired a m"] one [of a m k] by auto
  qed simp
  have "map_of (sweep_batches expired kss [] m) k = map_of m k \<or> map_of (sweep_batches expired kss [] m) k = None" for k kss m
  proof (induction kss arbitrary: m)
    case (Cons ks kss)
    show ?case using Cons [of "fold (sweep_one expired) ks m"] fld [of ks m k] by auto
  qed simp
  then show ?thesis by (simp add: id_forgets_def sweepStale_def)
qed

end
