(* ===== verification/Worker_Kafka.thy ===== *)
theory Worker_Kafka
  imports Worker_Wire Worker_Idpair Worker_Resp
begin

text \<open>
  The Kafka dissector, \<open>internal/worker/dissect_kafka.go\<close>: framing with a bounded scan, the request header, the first topic
  of Produce, Fetch and Metadata requests, the error code of ApiVersions and Produce responses, and pairing by
  correlation identifier.  A direction is a function from the bytes of the stream to the calls on the pipeline; \<open>rawOf\<close>
  and \<open>time.Now()\<close> at the \<open>n\<close>-th frame are parameters.
\<close>

datatype kafka_error = KEOF | KFrame

definition apiKeyProduce :: int where "apiKeyProduce = 0"
definition apiKeyFetch :: int where "apiKeyFetch = 1"
definition apiKeyMetadata :: int where "apiKeyMetadata = 3"
definition kafkaProduceFlexible :: int where "kafkaProduceFlexible = 9"
definition kafkaFetchFlexible :: int where "kafkaFetchFlexible = 12"
definition kafkaMetadataFlexible :: int where "kafkaMetadataFlexible = 9"
definition kafkaMaxFrame :: int where "kafkaMaxFrame = 100 * 2 ^ 20"
definition kafkaScanBytes :: nat where "kafkaScanBytes = 8 * 2 ^ 10"

record kafkaPending =
  kp_apiKey :: string
  kp_apiVersion :: int
  kp_topic :: string
  kp_clientID :: string
  kp_corrID :: int
  kp_summary :: string
  kp_src :: Endpoint
  kp_dst :: Endpoint
  kp_ts :: time
  kp_raw :: "RawView option"

subsection \<open>Decoding\<close>

definition readKafkaFrame :: "bytes \<Rightarrow> kafka_error + bytes \<times> bytes" where
  "readKafkaFrame br =
     (case read_full 4 br of None \<Rightarrow> Inl KEOF
      | Some (sz, r) \<Rightarrow>
          let n = signed_of 32 (be32 sz) in
          if n < 0 \<or> n > kafkaMaxFrame then Inl KFrame
          else let tk = min (nat n) kafkaScanBytes in
            (case read_full tk r of None \<Rightarrow> Inl KEOF
             | Some (buf, r2) \<Rightarrow>
                 if nat n > tk then (case discard_n (nat n - tk) r2 of None \<Rightarrow> Inl KEOF | Some r3 \<Rightarrow> Inr (buf, r3))
                 else Inr (buf, r2)))"

definition kafkaClientIDAndBody :: "bytes \<Rightarrow> string \<times> bytes" where
  "kafkaClientIDAndBody rest =
     (if length rest < 2 then ([], [])
      else let n = signed_of 16 (be16 rest); r = drop 2 rest in
        if n < 0 then ([], r) else if nat n > length r then ([], []) else (take (nat n) r, drop (nat n) r))"

definition kafkaReadNullableString :: "bytes \<Rightarrow> (string \<times> bytes) option" where
  "kafkaReadNullableString b =
     (if length b < 2 then None
      else let n = signed_of 16 (be16 b); r = drop 2 b in
        if n < 0 then Some ([], r) else if nat n > length r then None else Some (take (nat n) r, drop (nat n) r))"

definition kafkaFirstTopicName :: "bytes \<Rightarrow> string" where
  "kafkaFirstTopicName b =
     (if length b < 4 then []
      else if signed_of 32 (be32 b) \<le> 0 then []
      else (case kafkaReadNullableString (drop 4 b) of None \<Rightarrow> [] | Some (name, _) \<Rightarrow> name))"

definition fetch_prefix :: "int \<Rightarrow> nat" where
  "fetch_prefix apiVersion = 12 + (if apiVersion \<ge> 3 then 4 else 0) + (if apiVersion \<ge> 4 then 1 else 0) + (if apiVersion \<ge> 7 then 8 else 0)"

definition kafkaRequestTopic :: "int \<Rightarrow> int \<Rightarrow> bytes \<Rightarrow> string" where
  "kafkaRequestTopic apiKey apiVersion body =
     (if body = [] then []
      else if apiKey = apiKeyProduce then
        (if apiVersion \<ge> kafkaProduceFlexible then []
         else (case (if apiVersion \<ge> 3 then map_option snd (kafkaReadNullableString body) else Some body) of
                 None \<Rightarrow> []
               | Some b \<Rightarrow> if length b < 6 then [] else kafkaFirstTopicName (drop 6 b)))
      else if apiKey = apiKeyFetch then
        (if apiVersion \<ge> kafkaFetchFlexible then []
         else if length body < fetch_prefix apiVersion then [] else kafkaFirstTopicName (drop (fetch_prefix apiVersion) body))
      else if apiKey = apiKeyMetadata then
        (if apiVersion \<ge> kafkaMetadataFlexible then [] else kafkaFirstTopicName body)
      else [])"

definition kafkaProduceFirstError :: "bytes \<Rightarrow> int option" where
  "kafkaProduceFirstError body =
     (if length body < 4 then None
      else if signed_of 32 (be32 body) \<le> 0 then None
      else (case kafkaReadNullableString (drop 4 body) of None \<Rightarrow> None
            | Some (_, b) \<Rightarrow>
                if length b < 4 then None
                else let partCount = signed_of 32 (be32 b); b2 = drop 4 b in
                  if partCount \<le> 0 \<or> length b2 < 6 then None else Some (signed_of 16 (be16 (drop 4 b2)))))"

definition kafkaResponseError :: "string \<Rightarrow> int \<Rightarrow> bytes \<Rightarrow> int option" where
  "kafkaResponseError apiKey apiVersion body =
     (if apiKey = ''ApiVersions'' then (if length body \<ge> 2 then Some (signed_of 16 (be16 body)) else None)
      else if apiKey = ''Produce'' then (if apiVersion < kafkaProduceFlexible then kafkaProduceFirstError body else None)
      else None)"

definition kafkaAPIKeyNames :: "(int \<times> string) list" where
  "kafkaAPIKeyNames = [(0, ''Produce''), (1, ''Fetch''), (2, ''ListOffsets''), (3, ''Metadata''), (8, ''OffsetCommit''), (9, ''OffsetFetch''),
     (10, ''FindCoordinator''), (11, ''JoinGroup''), (12, ''Heartbeat''), (13, ''LeaveGroup''), (14, ''SyncGroup''), (15, ''DescribeGroups''),
     (16, ''ListGroups''), (17, ''SaslHandshake''), (18, ''ApiVersions''), (19, ''CreateTopics''), (20, ''DeleteTopics''), (21, ''DeleteRecords''),
     (22, ''InitProducerId''), (23, ''OffsetForLeaderEpoch''), (24, ''AddPartitionsToTxn''), (25, ''AddOffsetsToTxn''), (26, ''EndTxn''),
     (28, ''TxnOffsetCommit''), (32, ''DescribeConfigs''), (33, ''AlterConfigs''), (36, ''SaslAuthenticate''), (37, ''CreatePartitions''),
     (42, ''DeleteGroups''), (47, ''OffsetDelete'')]"

definition kafkaAPIKeyName :: "int \<Rightarrow> string" where
  "kafkaAPIKeyName apiKey = (case map_of kafkaAPIKeyNames apiKey of Some name \<Rightarrow> name | None \<Rightarrow> ''APIKEY_'' @ itoa apiKey)"

definition kafkaSummary :: "golib \<Rightarrow> string \<Rightarrow> int \<Rightarrow> string \<Rightarrow> string" where
  "kafkaSummary L apiKey apiVersion topic =
     to_upper L apiKey @ (if topic \<noteq> [] then '' topic='' @ topic else []) @ '' (v'' @ itoa apiVersion @ '')''"

subsection \<open>The pairing map\<close>

definition kafkaKey :: "string \<Rightarrow> int \<Rightarrow> string" where
  "kafkaKey key corrID = key @ CHR ''/'' # itoa corrID"

definition kafkaStore :: "string \<times> int \<Rightarrow> kafkaPending \<Rightarrow> kafkaPending id_table \<Rightarrow> kafkaPending id_table" where
  "kafkaStore i pend T = T\<lparr>it_pending := AList.update (kafkaKey (fst i) (snd i)) pend (it_pending T)\<rparr>"

record kafka_answer =
  ka_now :: time
  ka_body :: bytes
  ka_raw :: "RawView option"

definition kafka_request_payload :: "kafkaPending \<Rightarrow> Payload" where
  "kafka_request_payload pend = zero_Payload\<lparr>pl_Summary := kp_summary pend, pl_Raw := kp_raw pend,
     pl_Kafka := Some \<lparr>kafka_APIKey = kp_apiKey pend, kafka_APIVersion = kp_apiVersion pend, kafka_Topic = kp_topic pend,
        kafka_ClientID = kp_clientID pend, kafka_ErrorCode = 0, kafka_CorrelationID = kp_corrID pend\<rparr>\<rparr>"

definition kafka_failure :: "kafkaPending \<Rightarrow> bytes \<Rightarrow> int option" where
  "kafka_failure pend body = (case kafkaResponseError (kp_apiKey pend) (kp_apiVersion pend) body of
     Some e \<Rightarrow> if e \<noteq> 0 then Some e else None | None \<Rightarrow> None)"

definition kafka_response_payload :: "kafkaPending \<Rightarrow> kafka_answer \<Rightarrow> Payload" where
  "kafka_response_payload pend a =
     (case kafka_failure pend (ka_body a) of
        Some e \<Rightarrow> zero_Payload\<lparr>pl_Summary := ''error '' @ itoa e, pl_Raw := ka_raw a,
          pl_Kafka := Some \<lparr>kafka_APIKey = [], kafka_APIVersion = 0, kafka_Topic = [], kafka_ClientID = [], kafka_ErrorCode = e, kafka_CorrelationID = 0\<rparr>\<rparr>
      | None \<Rightarrow> zero_Payload\<lparr>pl_Summary := ''ok'', pl_Raw := ka_raw a\<rparr>)"

definition kafkaComplete :: "flow_cfg \<Rightarrow> string \<times> int \<Rightarrow> kafka_answer \<Rightarrow> kafkaPending id_table \<Rightarrow> kafkaPending id_table" where
  "kafkaComplete cfg i a T =
     (let mk = kafkaKey (fst i) (snd i); T1 = T\<lparr>it_pending := AList.delete mk (it_pending T)\<rparr> in
      case map_of (it_pending T) mk of None \<Rightarrow> T1
      | Some pend \<Rightarrow>
          (let n = it_seq T + 1;
               e = zero_Entry\<lparr>e_ID := cfg_node cfg @ ''-kafka-'' @ format_nat 36 n, e_Protocol := ProtocolKafka, e_Timestamp := kp_ts pend,
                     e_ElapsedMs := milliseconds (ka_now a - kp_ts pend), e_Node := cfg_node cfg, e_NodeIP := cfg_nodeIP cfg,
                     e_Source := kp_src pend, e_Destination := kp_dst pend, e_Request := kafka_request_payload pend,
                     e_Response := kafka_response_payload pend a,
                     e_Status := (if kafka_failure pend (ka_body a) \<noteq> None then ''error'' else ''success'')\<rparr>
           in T1\<lparr>it_seq := n, it_out := it_out T @ [e]\<rparr>))"

definition kafka_look :: "kafkaPending id_table \<Rightarrow> string \<times> int \<Rightarrow> kafkaPending option" where
  "kafka_look T i = map_of (it_pending T) (kafkaKey (fst i) (snd i))"

subsection \<open>The two directions\<close>

datatype kafka_call = KMark string | KStore "string \<times> int" kafkaPending | KComplete "string \<times> int" kafka_answer

definition kafka_request :: "golib \<Rightarrow> connID \<Rightarrow> time \<Rightarrow> RawView option \<Rightarrow> bytes \<Rightarrow> kafkaPending" where
  "kafka_request L c now raw payload =
     (let apiKey = signed_of 16 (be16 payload); apiVersion = signed_of 16 (be16 (drop 2 payload)); corrID = signed_of 32 (be32 (drop 4 payload));
          (clientID, body) = kafkaClientIDAndBody (drop 8 payload); name = kafkaAPIKeyName apiKey; topic = kafkaRequestTopic apiKey apiVersion body
      in \<lparr>kp_apiKey = name, kp_apiVersion = apiVersion, kp_topic = topic, kp_clientID = clientID, kp_corrID = corrID,
          kp_summary = kafkaSummary L name apiVersion topic, kp_src = fst (conn_endpoints c), kp_dst = snd (conn_endpoints c), kp_ts = now, kp_raw = raw\<rparr>)"

fun kafka_requests :: "golib \<Rightarrow> connID \<Rightarrow> (nat \<Rightarrow> time) \<Rightarrow> (nat \<Rightarrow> RawView option) \<Rightarrow> nat \<Rightarrow> bool \<Rightarrow> bytes list \<Rightarrow> kafka_call list" where
  "kafka_requests L c nows raws n marked [] = []"
| "kafka_requests L c nows raws n marked (payload # ps) =
     (if length payload < 8 then []
      else (if marked then [] else [KMark (conn_key c)])
        @ KStore (conn_key c, signed_of 32 (be32 (drop 4 payload))) (kafka_request L c (nows n) (raws n) payload)
        # kafka_requests L c nows raws (Suc n) True ps)"

fun kafka_responses :: "connID \<Rightarrow> (nat \<Rightarrow> time) \<Rightarrow> (nat \<Rightarrow> RawView option) \<Rightarrow> nat \<Rightarrow> bytes list \<Rightarrow> kafka_call list" where
  "kafka_responses c nows raws n [] = []"
| "kafka_responses c nows raws n (payload # ps) =
     (if length payload < 4 then []
      else KComplete (conn_key c, signed_of 32 (be32 payload)) \<lparr>ka_now = nows n, ka_body = drop 4 payload, ka_raw = raws n\<rparr>
        # kafka_responses c nows raws (Suc n) ps)"

definition kafkaRequests :: "golib \<Rightarrow> connID \<Rightarrow> (nat \<Rightarrow> time) \<Rightarrow> (nat \<Rightarrow> RawView option) \<Rightarrow> bytes \<Rightarrow> kafka_call list" where
  "kafkaRequests L c nows raws br = kafka_requests L c nows raws 0 False (fst (read_all readKafkaFrame br))"

definition kafkaResponses :: "connID \<Rightarrow> (nat \<Rightarrow> time) \<Rightarrow> (nat \<Rightarrow> RawView option) \<Rightarrow> bytes \<Rightarrow> kafka_call list" where
  "kafkaResponses c nows raws br = kafka_responses c nows raws 0 (fst (read_all readKafkaFrame br))"

definition consumeKafkaID :: "golib \<Rightarrow> connID \<Rightarrow> (nat \<Rightarrow> time) \<Rightarrow> (nat \<Rightarrow> RawView option) \<Rightarrow> bool \<Rightarrow> bytes \<Rightarrow> kafka_call list" where
  "consumeKafkaID L c nows raws isRequest r = (if isRequest then kafkaRequests L c nows raws r else kafkaResponses c nows raws r)"

subsection \<open>Framing\<close>

lemma readKafkaFrame_frames: "frames True readKafkaFrame br"
  by (rule frames_unfold [OF readKafkaFrame_def], unfold Let_def) (intro frames_intros; simp)

interpretation kafka_frame: framed_reader readKafkaFrame
  by (rule framed_readerI) (rule readKafkaFrame_frames)

definition kafka_encode :: "bytes \<Rightarrow> bytes" where
  "kafka_encode payload = be_bytes 4 (length payload) @ payload"

lemma read_kafka_encoded:
  assumes "int (length payload) \<le> kafkaMaxFrame"
  shows "readKafkaFrame (kafka_encode payload @ r) = Inr (take kafkaScanBytes payload, r)"
proof -
  have n: "length payload < 2 ^ 31" using assms by (simp add: kafkaMaxFrame_def)
  then have "signed_of 32 (be32 (be_bytes 4 (length payload))) = int (length payload)"
    by (simp add: wire_simps signed_of_def)
  moreover have "read_full 4 (kafka_encode payload @ r) = Some (be_bytes 4 (length payload), payload @ r)"
    by (simp add: read_full_Some kafka_encode_def)
  ultimately show ?thesis using assms
    by (auto simp: readKafkaFrame_def Let_def read_full_def discard_n_def min_def)
qed

lemma kafka_stream_reads:
  assumes "\<forall>p \<in> set ps. int (length p) \<le> kafkaMaxFrame"
  shows "read_all readKafkaFrame (concat (map kafka_encode ps)) = (map (take kafkaScanBytes) ps, [])"
  using assms
proof (induction ps)
  case Nil
  have "readKafkaFrame [] = Inl KEOF" by (simp add: readKafkaFrame_def read_full_def)
  then show ?case by (simp add: read_all_fail)
next
  case (Cons p ps)
  then have "readKafkaFrame (kafka_encode p @ concat (map kafka_encode ps)) = Inr (take kafkaScanBytes p, concat (map kafka_encode ps))"
    by (simp add: read_kafka_encoded)
  then show ?case using Cons by (simp add: kafka_frame.read_all_more)
qed


subsection \<open>What a client asks for\<close>

datatype kafka_api =
  AProduce "string option" nat nat
| AFetch nat nat nat nat nat nat nat
| AMetadata

record kafka_req =
  kr_api :: kafka_api
  kr_version :: int
  kr_corr :: int
  kr_client :: "string option"
  kr_count :: nat
  kr_topic :: string
  kr_rest :: bytes

definition nullable_string :: "string option \<Rightarrow> bytes" where
  "nullable_string s = (case s of None \<Rightarrow> be_bytes 2 (unsigned_of 16 (- 1)) | Some x \<Rightarrow> be_bytes 2 (length x) @ x)"

text \<open>The fields in front of the topic array, by version.\<close>

fun api_prefix :: "kafka_api \<Rightarrow> int \<Rightarrow> bytes" where
  "api_prefix (AProduce tx acks timeout) v = (if v \<ge> 3 then nullable_string tx else []) @ be_bytes 2 acks @ be_bytes 4 timeout"
| "api_prefix (AFetch replica wait mn mx isol session epoch) v = be_bytes 4 replica @ be_bytes 4 wait @ be_bytes 4 mn
     @ (if v \<ge> 3 then be_bytes 4 mx else []) @ (if v \<ge> 4 then be_bytes 1 isol else []) @ (if v \<ge> 7 then be_bytes 4 session @ be_bytes 4 epoch else [])"
| "api_prefix AMetadata v = []"

fun api_key :: "kafka_api \<Rightarrow> int" where
  "api_key (AProduce tx acks timeout) = 0" | "api_key (AFetch replica wait mn mx isol session epoch) = 1" | "api_key AMetadata = 3"

fun api_name :: "kafka_api \<Rightarrow> string" where
  "api_name (AProduce tx acks timeout) = ''Produce''" | "api_name (AFetch replica wait mn mx isol session epoch) = ''Fetch''" | "api_name AMetadata = ''Metadata''"

fun api_plain :: "kafka_api \<Rightarrow> int \<Rightarrow> bool" where
  "api_plain (AProduce tx acks timeout) v = (0 \<le> v \<and> v < 9 \<and> (case tx of None \<Rightarrow> True | Some x \<Rightarrow> length x < 2 ^ 15))"
| "api_plain (AFetch replica wait mn mx isol session epoch) v = (0 \<le> v \<and> v < 12)"
| "api_plain AMetadata v = (0 \<le> v \<and> v < 9)"

definition req_reach :: "kafka_req \<Rightarrow> bytes" where
  "req_reach r = be_bytes 2 (unsigned_of 16 (api_key (kr_api r))) @ be_bytes 2 (unsigned_of 16 (kr_version r))
     @ be_bytes 4 (unsigned_of 32 (kr_corr r)) @ nullable_string (kr_client r) @ api_prefix (kr_api r) (kr_version r)
     @ be_bytes 4 (kr_count r) @ nullable_string (Some (kr_topic r))"

definition kafka_req_ok :: "kafka_req \<Rightarrow> bool" where
  "kafka_req_ok r \<longleftrightarrow> api_plain (kr_api r) (kr_version r) \<and> - (2 ^ 31) \<le> kr_corr r \<and> kr_corr r < 2 ^ 31
     \<and> (case kr_client r of None \<Rightarrow> True | Some x \<Rightarrow> length x < 2 ^ 15) \<and> 0 < kr_count r \<and> kr_count r < 2 ^ 31
     \<and> length (kr_topic r) < 2 ^ 15 \<and> length (req_reach r) \<le> kafkaScanBytes
     \<and> int (length (req_reach r @ kr_rest r)) \<le> kafkaMaxFrame"

definition kafka_meaning :: "golib \<Rightarrow> connID \<Rightarrow> time \<Rightarrow> RawView option \<Rightarrow> kafka_req \<Rightarrow> kafka_call" where
  "kafka_meaning L c now raw r = KStore (conn_key c, kr_corr r)
     \<lparr>kp_apiKey = api_name (kr_api r), kp_apiVersion = kr_version r, kp_topic = kr_topic r,
      kp_clientID = (case kr_client r of None \<Rightarrow> [] | Some x \<Rightarrow> x), kp_corrID = kr_corr r,
      kp_summary = kafkaSummary L (api_name (kr_api r)) (kr_version r) (kr_topic r),
      kp_src = fst (conn_endpoints c), kp_dst = snd (conn_endpoints c), kp_ts = now, kp_raw = raw\<rparr>"

lemma read_nullable:
  "(case s of None \<Rightarrow> True | Some x \<Rightarrow> length x < 2 ^ 15) \<Longrightarrow>
     kafkaReadNullableString (nullable_string s @ r) = Some (case s of None \<Rightarrow> [] | Some x \<Rightarrow> x, r)"
  "(case s of None \<Rightarrow> True | Some x \<Rightarrow> length x < 2 ^ 15) \<Longrightarrow>
     kafkaClientIDAndBody (nullable_string s @ r) = (case s of None \<Rightarrow> [] | Some x \<Rightarrow> x, r)"
proof -
  have none: "signed_of 16 (be16 (be_bytes 2 (unsigned_of 16 (- 1)) @ r)) = - 1"
    by (simp add: wire_decode signed_unsigned)
  assume "case s of None \<Rightarrow> True | Some x \<Rightarrow> length x < 2 ^ 15"
  then show "kafkaReadNullableString (nullable_string s @ r) = Some (case s of None \<Rightarrow> [] | Some x \<Rightarrow> x, r)"
    "kafkaClientIDAndBody (nullable_string s @ r) = (case s of None \<Rightarrow> [] | Some x \<Rightarrow> x, r)"
    by (cases s; simp add: kafkaReadNullableString_def kafkaClientIDAndBody_def nullable_string_def Let_def none wire_simps signed_small)+
qed

lemma first_topic:
  assumes "0 < cnt" "cnt < 2 ^ 31" "length topic < 2 ^ 15"
  shows "kafkaFirstTopicName (be_bytes 4 cnt @ nullable_string (Some topic) @ r) = topic"
  using assms read_nullable(1) [of "Some topic" r]
  by (simp add: kafkaFirstTopicName_def wire_simps signed_small)

lemma request_topic:
  assumes "api_plain api v" "0 < cnt" "cnt < 2 ^ 31" "length topic < 2 ^ 15"
  shows "kafkaRequestTopic (api_key api) v (api_prefix api v @ be_bytes 4 cnt @ nullable_string (Some topic) @ r) = topic"
proof -
  let ?t = "be_bytes 4 cnt @ nullable_string (Some topic) @ r"
  show ?thesis
  proof (cases api)
    case (AProduce tx acks timeout)
    then have "length (be_bytes 2 acks @ be_bytes 4 timeout) = 6" by simp
    moreover have "kafkaReadNullableString (nullable_string tx @ be_bytes 2 acks @ be_bytes 4 timeout @ ?t)
        = Some (case tx of None \<Rightarrow> [] | Some x \<Rightarrow> x, be_bytes 2 acks @ be_bytes 4 timeout @ ?t)"
      using assms(1) AProduce by (intro read_nullable) auto
    ultimately show ?thesis using AProduce assms first_topic [OF assms(2-4), of r]
      by (auto simp: kafkaRequestTopic_def apiKeyProduce_def kafkaProduceFlexible_def)
  next
    case (AFetch replica wait mn mx isol session epoch)
    then have "length (api_prefix api v) = fetch_prefix v" by (simp add: fetch_prefix_def)
    then have "drop (fetch_prefix v) (api_prefix api v @ ?t) = ?t" by simp
    then show ?thesis using AFetch assms first_topic [OF assms(2-4), of r] \<open>length (api_prefix api v) = fetch_prefix v\<close>
      unfolding AFetch kafkaRequestTopic_def apiKeyProduce_def apiKeyFetch_def kafkaFetchFlexible_def
      by (simp del: api_prefix.simps)
  next
    case AMetadata
    then show ?thesis using assms first_topic [OF assms(2-4), of r]
      by (simp add: kafkaRequestTopic_def apiKeyProduce_def apiKeyFetch_def apiKeyMetadata_def kafkaMetadataFlexible_def)
  qed
qed

lemma api_names: "kafkaAPIKeyName (api_key api) = api_name api"
  by (cases api) (simp_all add: kafkaAPIKeyName_def kafkaAPIKeyNames_def)

lemma header_values:
  assumes "api_plain api v"
  shows "signed_of 16 (unsigned_of 16 (api_key api)) = api_key api" "signed_of 16 (unsigned_of 16 v) = v"
  using assms by (cases api; simp add: signed_unsigned)+

lemma request_meaning:
  assumes "kafka_req_ok r"
  shows "KStore (conn_key c, signed_of 32 (be32 (drop 4 (req_reach r @ x)))) (kafka_request L c now raw (req_reach r @ x)) = kafka_meaning L c now raw r"
proof -
  let ?body = "api_prefix (kr_api r) (kr_version r) @ be_bytes 4 (kr_count r) @ nullable_string (Some (kr_topic r)) @ x"
  have v: "api_plain (kr_api r) (kr_version r)" using assms by (simp add: kafka_req_ok_def)
  have corr: "signed_of 32 (unsigned_of 32 (kr_corr r)) = kr_corr r" using assms by (intro signed_unsigned) (simp_all add: kafka_req_ok_def)
  have parts: "be16 (req_reach r @ x) = unsigned_of 16 (api_key (kr_api r))" "be16 (drop 2 (req_reach r @ x)) = unsigned_of 16 (kr_version r)"
    "be32 (drop 4 (req_reach r @ x)) = unsigned_of 32 (kr_corr r)" "drop 8 (req_reach r @ x) = nullable_string (kr_client r) @ ?body"
    unfolding req_reach_def append.assoc by (simp_all add: wire_decode)
  have cl: "kafkaClientIDAndBody (nullable_string (kr_client r) @ ?body) = (case kr_client r of None \<Rightarrow> [] | Some y \<Rightarrow> y, ?body)"
    using assms by (intro read_nullable) (simp add: kafka_req_ok_def)
  have topic: "kafkaRequestTopic (api_key (kr_api r)) (kr_version r) ?body = kr_topic r"
    using assms by (intro request_topic) (simp_all add: kafka_req_ok_def)
  show ?thesis unfolding kafka_request_def kafka_meaning_def parts cl Let_def prod.case header_values [OF v] corr topic api_names by (rule refl)
qed

lemma take_reach: "length (req_reach r) \<le> kafkaScanBytes \<Longrightarrow>
    take kafkaScanBytes (req_reach r @ x) = req_reach r @ take (kafkaScanBytes - length (req_reach r)) x"
  by simp

lemma reach_long: "8 \<le> length (req_reach r)"
  by (simp add: req_reach_def)

lemma requests_meaning:
  "\<forall>r \<in> set rs. kafka_req_ok r \<Longrightarrow>
     kafka_requests L c nows raws n True (map (\<lambda>r. take kafkaScanBytes (req_reach r @ kr_rest r)) rs)
       = map (\<lambda>(i, r). kafka_meaning L c (nows i) (raws i) r) (List.enumerate n rs)"
proof (induction rs arbitrary: n)
  case (Cons r rs)
  then have ok: "kafka_req_ok r" and "length (req_reach r) \<le> kafkaScanBytes" by (simp_all add: kafka_req_ok_def)
  then show ?case using Cons reach_long [of r] request_meaning [OF ok, of c]
    by (simp add: take_reach del: take_append)
qed simp

text \<open>Every Produce, Fetch or Metadata request of a client stream, in any of the versions with plain encoding, is
  stored under its own correlation identifier with its API name, version and client identifier and the name of
  its first topic, however large the records behind it are, as long as the identifiers in front of the topic leave it within
  the first 8 KiB; the connection is marked once.\<close>

theorem kafka_requests_decoded:
  assumes "\<forall>r \<in> set rs. kafka_req_ok r"
  shows "kafkaRequests L c nows raws (concat (map (\<lambda>r. kafka_encode (req_reach r @ kr_rest r)) rs))
    = (if rs = [] then [] else [KMark (conn_key c)]) @ map (\<lambda>(i, r). kafka_meaning L c (nows i) (raws i) r) (List.enumerate 0 rs)"
proof -
  let ?ps = "map (\<lambda>r. req_reach r @ kr_rest r) rs"
  have "read_all readKafkaFrame (concat (map kafka_encode ?ps)) = (map (take kafkaScanBytes) ?ps, [])"
    using assms by (intro kafka_stream_reads) (auto simp: kafka_req_ok_def)
  then have reads: "read_all readKafkaFrame (concat (map (\<lambda>r. kafka_encode (req_reach r @ kr_rest r)) rs))
      = (map (\<lambda>r. take kafkaScanBytes (req_reach r @ kr_rest r)) rs, [])"
    by (simp add: comp_def del: take_append)
  show ?thesis
  proof (cases rs)
    case Nil
    then show ?thesis using reads by (simp add: kafkaRequests_def)
  next
    case (Cons r rs')
    then have ok: "kafka_req_ok r" and "length (req_reach r) \<le> kafkaScanBytes" using assms by (simp_all add: kafka_req_ok_def)
    then show ?thesis using Cons assms reach_long [of r] request_meaning [OF ok, of c] requests_meaning [of rs' L c nows raws 1]
      unfolding kafkaRequests_def reads by (simp add: take_reach del: take_append)
  qed
qed

theorem kafka_requests_decoded_witness:
  "let r = \<lparr>kr_api = AProduce None 1 1000, kr_version = 7, kr_corr = 42, kr_client = Some ''app'', kr_count = 1, kr_topic = ''orders'', kr_rest = replicate 20 (CHR ''x'')\<rparr>
   in kafkaRequests ascii_lib some_conn (\<lambda>_. 5) (\<lambda>_. None) (kafka_encode (req_reach r @ kr_rest r))
     = [KMark (conn_key some_conn), kafka_meaning ascii_lib some_conn 5 None r]"
proof -
  let ?r = "\<lparr>kr_api = AProduce None 1 1000, kr_version = 7, kr_corr = 42, kr_client = Some ''app'', kr_count = 1, kr_topic = ''orders'', kr_rest = replicate 20 (CHR ''x'')\<rparr>"
  have "kafka_req_ok ?r" by (simp add: kafka_req_ok_def req_reach_def nullable_string_def kafkaScanBytes_def kafkaMaxFrame_def)
  then show ?thesis using kafka_requests_decoded [of "[?r]" ascii_lib some_conn "\<lambda>_. 5" "\<lambda>_. None"] by simp
qed

subsection \<open>Pairing\<close>

lemma kafkaKey_inj: "kafkaKey k i = kafkaKey k' i' \<longleftrightarrow> k = k' \<and> i = i'"
  using suffixed_inj by (auto simp: kafkaKey_def)

interpretation kafka: exact_id_pairing id_table0 kafkaStore "kafkaComplete cfg" kafka_look id_forgets id_exchanged
  kafka_request_payload kafka_response_payload for cfg
proof
  fix i j :: "string \<times> int" and p r and s s' :: "kafkaPending id_table"
  show "kafka_look id_table0 i = None" "id_exchanged (id_table0 :: kafkaPending id_table) = []"
    by (simp_all add: kafka_look_def id_table0_def id_exchanged_def)
  show "kafka_look (kafkaStore i p s) j = (if j = i then Some p else kafka_look s j)"
    by (auto simp: kafka_look_def kafkaStore_def AList.update_conv' kafkaKey_inj prod_eq_iff)
  then show "kafka_look (kafkaStore i p s) j = (if j = i then Some p else kafka_look s j) \<or> kafka_look (kafkaStore i p s) j = None" ..
  show "id_exchanged (kafkaStore i p s) = id_exchanged s" by (simp add: id_exchanged_def kafkaStore_def)
  show "kafka_look (kafkaComplete cfg i r s) j = (if j = i then None else kafka_look s j)"
    by (auto simp: kafka_look_def kafkaComplete_def Let_def AList.delete_conv' kafkaKey_inj prod_eq_iff split: option.splits)
  show "id_exchanged (kafkaComplete cfg i r s) = id_exchanged s
      @ (case kafka_look s i of None \<Rightarrow> [] | Some p \<Rightarrow> [(kafka_request_payload p, kafka_response_payload p r)])"
    by (simp add: kafka_look_def kafkaComplete_def Let_def id_exchanged_def zero_Entry_def split: option.splits)
  show "kafka_look s' j = kafka_look s j \<or> kafka_look s' j = None" if "id_forgets s s'"
    using that by (simp add: id_forgets_def kafka_look_def)
  show "id_exchanged s' = id_exchanged s" if "id_forgets s s'" using that by (simp add: id_forgets_def id_exchanged_def)
qed

text \<open>What happens to the map: a call of a dissector, the visit of the reaper to a key of its scan with the cutoff of that collection, or a deletion by the
  trim to the cap.  Each is one use of the map under the lock, in any order.\<close>

datatype kafka_event = Call kafka_call | Visit time "string \<times> int" | Trimmed "string \<times> int"

fun kafka_apply :: "flow_cfg \<Rightarrow> kafka_event \<Rightarrow> kafkaPending id_table \<Rightarrow> kafkaPending id_table" where
  "kafka_apply cfg (Call (KMark k)) T = T"
| "kafka_apply cfg (Call (KStore i p)) T = kafkaStore i p T"
| "kafka_apply cfg (Call (KComplete i a)) T = kafkaComplete cfg i a T"
| "kafka_apply cfg (Visit cutoff i) T =
     T\<lparr>it_pending := sweep_one (\<lambda>p. kp_ts p < cutoff) (kafkaKey (fst i) (snd i)) (it_pending T)\<rparr>"
| "kafka_apply cfg (Trimmed i) T = T\<lparr>it_pending := AList.delete (kafkaKey (fst i) (snd i)) (it_pending T)\<rparr>"

text \<open>What must be reported: the requests that wait, by connection and correlation identifier, and for each response to one of them the request's
  description with the response's outcome.\<close>

definition kafka_pair :: "kafkaPending \<Rightarrow> kafka_answer \<Rightarrow> Payload \<times> Payload" where
  "kafka_pair p a =
     (zero_Payload\<lparr>pl_Summary := kp_summary p, pl_Raw := kp_raw p, pl_Kafka := Some \<lparr>kafka_APIKey = kp_apiKey p, kafka_APIVersion = kp_apiVersion p,
        kafka_Topic = kp_topic p, kafka_ClientID = kp_clientID p, kafka_ErrorCode = 0, kafka_CorrelationID = kp_corrID p\<rparr>\<rparr>,
      (let failed = (case kafkaResponseError (kp_apiKey p) (kp_apiVersion p) (ka_body a) of None \<Rightarrow> False | Some e \<Rightarrow> e \<noteq> 0);
           code = the (kafkaResponseError (kp_apiKey p) (kp_apiVersion p) (ka_body a))
       in zero_Payload\<lparr>pl_Summary := (if failed then ''error '' @ itoa code else ''ok''), pl_Raw := ka_raw a,
            pl_Kafka := (if failed then Some \<lparr>kafka_APIKey = [], kafka_APIVersion = 0, kafka_Topic = [], kafka_ClientID = [], kafka_ErrorCode = code,
              kafka_CorrelationID = 0\<rparr> else None)\<rparr>))"

fun kafka_spec :: "kafka_event list \<Rightarrow> (string \<times> int \<rightharpoonup> kafkaPending) \<Rightarrow> (Payload \<times> Payload) list" where
  "kafka_spec [] m = []"
| "kafka_spec (Call (KMark k) # es) m = kafka_spec es m"
| "kafka_spec (Call (KStore i p) # es) m = kafka_spec es (m(i \<mapsto> p))"
| "kafka_spec (Call (KComplete i a) # es) m =
     (case m i of None \<Rightarrow> kafka_spec es m | Some p \<Rightarrow> kafka_pair p a # kafka_spec es (m(i := None)))"
| "kafka_spec (Visit cutoff i # es) m =
     kafka_spec es (case m i of None \<Rightarrow> m | Some p \<Rightarrow> if kp_ts p < cutoff then m(i := None) else m)"
| "kafka_spec (Trimmed i # es) m = kafka_spec es (m(i := None))"

lemma kafka_pair_payloads: "kafka_pair p a = (kafka_request_payload p, kafka_response_payload p a)"
  by (auto simp: kafka_pair_def kafka_request_payload_def kafka_response_payload_def kafka_failure_def zero_Payload_def Let_def split: option.splits)

lemma kafka_look_deleted:
  "kafka_look (T\<lparr>it_pending := AList.delete (kafkaKey (fst i) (snd i)) (it_pending T)\<rparr>) = (kafka_look T)(i := None)"
  by (rule ext) (auto simp: kafka_look_def AList.delete_conv' kafkaKey_inj prod_eq_iff)

lemma kafka_look_swept:
  "kafka_look (T\<lparr>it_pending := sweep_one (\<lambda>p. kp_ts p < cutoff) (kafkaKey (fst i) (snd i)) (it_pending T)\<rparr>)
     = (case kafka_look T i of None \<Rightarrow> kafka_look T | Some p \<Rightarrow> if kp_ts p < cutoff then (kafka_look T)(i := None) else kafka_look T)"
  using kafka_look_deleted [of i T] by (simp add: sweep_one_def kafka_look_def [of T] split: option.split)

text \<open>C26: Whatever the order in which the two directions of any number of Kafka connections are handled, the reaper visits requests and
  the trim to the cap deletes some, the entries are exactly one for each response whose correlation identifier has on its connection a request that
  is unanswered and was neither reaped as older than the cutoff nor trimmed, and each reports the last such request with that response:
  out-of-order answers are paired right, responses to unknown identifiers are dropped, and the reaper removes no request as young as its cutoff.\<close>

theorem kafka_exchange_exact:
  "id_exchanged (fold (kafka_apply cfg) events id_table0) = kafka_spec events Map.empty"
proof -
  have same: "id_exchanged (T\<lparr>it_pending := q\<rparr>) = id_exchanged T" for q and T :: "kafkaPending id_table" by (simp add: id_exchanged_def)
  have "id_exchanged (fold (kafka_apply cfg) events T) = id_exchanged T @ kafka_spec events (kafka_look T)" for T
  proof (induction events arbitrary: T)
    case (Cons e events)
    show ?case
    proof (cases e)
      case (Call c)
      show ?thesis
      proof (cases c)
        case (KStore i p)
        have l: "kafka_look (kafkaStore i p T) = (kafka_look T)(i \<mapsto> p)" by (rule ext) (simp add: kafka.keeps)
        show ?thesis by (simp only: Call KStore fold_simps kafka_apply.simps kafka_spec.simps Cons l kafka.pairs_store)
      next
        case (KComplete i a)
        have l: "kafka_look (kafkaComplete cfg i a T) = (kafka_look T)(i := None)" by (rule ext) (simp add: kafka.look_complete)
        have u: "kafka_look T i = None \<Longrightarrow> (kafka_look T)(i := None) = kafka_look T" by (rule fun_upd_idem)
        show ?thesis
          by (cases "kafka_look T i")
            (simp_all only: Call KComplete fold_simps kafka_apply.simps kafka_spec.simps Cons l u kafka.pairs_complete option.case
              kafka_pair_payloads append_assoc append.simps append_Nil2)
      qed (use Cons Call in simp)
    next
      case (Visit cutoff i)
      show ?thesis by (simp only: Visit fold_simps kafka_apply.simps kafka_spec.simps Cons kafka_look_swept same)
    next
      case (Trimmed i)
      show ?thesis by (simp only: Trimmed fold_simps kafka_apply.simps kafka_spec.simps Cons kafka_look_deleted same)
    qed
  qed simp
  moreover have "kafka_look id_table0 = Map.empty" by (rule ext) (simp add: kafka_look_def id_table0_def)
  ultimately show ?thesis by (simp add: id_exchanged_def id_table0_def)
qed

text \<open>With the reaper dropping requests at any moment, an entry still never reports a Kafka response with a request other
  than the last one made under its connection and correlation identifier, nor with one already answered.\<close>

theorem kafka_never_mispairs:
  assumes "id_run id_table0 kafkaStore (kafkaComplete cfg) kafka_look id_forgets T tr"
  shows "id_exchanged T = answers kafka_request_payload kafka_response_payload tr
    \<and> (\<forall>pre i r p post. tr = pre @ Answered i r p # post \<longrightarrow> open_req pre i = Some p)"
  using assms by (rule kafka.pairing_sound)

theorem kafka_never_mispairs_witness:
  "\<exists>T p r. id_run id_table0 kafkaStore (kafkaComplete some_cfg) kafka_look id_forgets T [Stored (''k'', 1) p, Answered (''k'', 1) r p]
     \<and> id_exchanged T = [(kafka_request_payload p, kafka_response_payload p r)]"
proof -
  obtain p :: kafkaPending where "p = p" by simp
  obtain r :: kafka_answer where "r = r" by simp
  let ?T = "kafkaComplete some_cfg (''k'', 1) r (kafkaStore (''k'', 1) p id_table0)"
  have look: "kafka_look (kafkaStore (''k'', 1) p id_table0) (''k'', 1) = Some p"
    by (simp add: kafka_look_def kafkaStore_def AList.update_conv')
  have "id_run id_table0 kafkaStore (kafkaComplete some_cfg) kafka_look id_forgets (kafkaStore (''k'', 1) p id_table0) ([] @ [Stored (''k'', 1) p])"
    by (intro id_run.store id_run.start)
  from id_run.finished [OF this, of "(''k'', 1)" r]
  have run: "id_run id_table0 kafkaStore (kafkaComplete some_cfg) kafka_look id_forgets ?T [Stored (''k'', 1) p, Answered (''k'', 1) r p]"
    by (simp add: look)
  then show ?thesis using kafka_never_mispairs [OF run] by auto
qed

text \<open>The error code of a Produce response in plain encoding is the one of its first partition.\<close>

lemma produce_error_read:
  assumes "0 < n" "n < 2 ^ 31" "length t < 2 ^ 15" "0 < k" "k < 2 ^ 31" "- (2 ^ 15) \<le> code" "code < 2 ^ 15" "v < 9"
  shows "kafkaResponseError ''Produce'' v (be_bytes 4 n @ nullable_string (Some t) @ be_bytes 4 k @ be_bytes 4 part
      @ be_bytes 2 (unsigned_of 16 code) @ r) = Some code"
proof -
  have "signed_of 16 (unsigned_of 16 code) = code" using assms by (intro signed_unsigned) simp_all
  then show ?thesis using assms read_nullable(1) [of "Some t"]
    by (simp add: kafkaResponseError_def kafkaProduceFlexible_def kafkaProduceFirstError_def Let_def wire_decode signed_small)
qed

end
