(* ===== verification/Worker_Mongo.thy ===== *)
theory Worker_Mongo
  imports Worker_Wire Worker_Idpair Worker_Resp
begin

text \<open>
  The MongoDB dissector, \<open>internal/worker/dissect_mongo.go\<close>: message framing with a bounded scan, the sections of
  OP_MSG, the legacy OP_QUERY and OP_REPLY, the BSON scanner, and pairing by request identifier.  The visitor that
  \<open>scanBSON\<close> calls never stops the scan in this program, so the scanner returns the elements it visits.
\<close>

datatype mongo_error = MEOF | MFrame

definition opReply :: int where "opReply = 1"
definition opQuery :: int where "opQuery = 2004"
definition opMsg :: int where "opMsg = 2013"
definition mongoMaxMessage :: int where "mongoMaxMessage = 48 * 2 ^ 20"
definition mongoScanBytes :: nat where "mongoScanBytes = 64 * 2 ^ 10"

definition bsonDouble :: nat where "bsonDouble = 1"
definition bsonString :: nat where "bsonString = 2"
definition bsonBool :: nat where "bsonBool = 8"
definition bsonInt32 :: nat where "bsonInt32 = 16"
definition bsonInt64 :: nat where "bsonInt64 = 18"

record mongoPending =
  mp_command :: string
  mp_collection :: string
  mp_database :: string
  mp_summary :: string
  mp_src :: Endpoint
  mp_dst :: Endpoint
  mp_ts :: time
  mp_raw :: "RawView option"

subsection \<open>BSON\<close>

text \<open>The string up to the first zero byte and what follows it.\<close>

definition index_nul :: "bytes \<Rightarrow> (string \<times> bytes) option" where
  "index_nul b = (case dropWhile (\<lambda>c. c \<noteq> CHR 0x00) b of [] \<Rightarrow> None | _ # r \<Rightarrow> Some (takeWhile (\<lambda>c. c \<noteq> CHR 0x00) b, r))"

text \<open>The lengths that depend on the type alone: null, undefined, the extreme keys; bool; int32; double, int64, datetime, timestamp;
  ObjectId; decimal128.\<close>

definition bson_fixed :: "(nat \<times> nat) list" where
  "bson_fixed = [(10, 0), (6, 0), (255, 0), (127, 0), (8, 1), (16, 4), (1, 8), (18, 8), (9, 8), (17, 8), (7, 12), (19, 16)]"

definition bsonValueLen :: "nat \<Rightarrow> bytes \<Rightarrow> nat option" where
  "bsonValueLen typ b =
     (case map_of bson_fixed typ of Some n \<Rightarrow> Some n | None \<Rightarrow>
      if typ \<in> {2, 13, 14} then
        (if length b < 4 then None
         else let n = signed_of 32 (le32 b) in if n < 0 \<or> 4 + n > int (length b) then None else Some (4 + nat n))
      else if typ \<in> {3, 4} then
        (if length b < 4 then None
         else let n = signed_of 32 (le32 b) in if n < 5 \<or> n > int (length b) then None else Some (nat n))
      else if typ = 5 then
        (if length b < 4 then None
         else let n = signed_of 32 (le32 b) in if n < 0 \<or> 5 + n > int (length b) then None else Some (5 + nat n))
      else if typ = 11 then
        (case index_nul b of None \<Rightarrow> None
         | Some (s1, r) \<Rightarrow> (case index_nul r of None \<Rightarrow> None | Some (s2, r2) \<Rightarrow> Some (length s1 + 1 + length s2 + 1)))
      else None)"

definition bsonStringVal :: "bytes \<Rightarrow> string option" where
  "bsonStringVal val =
     (if length val < 4 then None
      else let n = signed_of 32 (le32 val) in if n < 1 \<or> 4 + n > int (length val) then None else Some (take (nat n - 1) (drop 4 val)))"

text \<open>\<open>bsonDoubleVal(val) != 0\<close>: a double is zero when all its bits but the sign are.\<close>

definition bsonDoubleVal :: "bytes \<Rightarrow> f64 option" where
  "bsonDoubleVal val = (if length val < 8 then None else Some (word_of_nat (le64 val)))"

lemma index_nul_shorter: "index_nul b = Some (s, r) \<Longrightarrow> length r < length b"
  using length_dropWhile_le [of "\<lambda>c. c \<noteq> CHR 0x00" b] by (auto simp: index_nul_def split: list.splits)

function bson_scan :: "bytes \<Rightarrow> (string \<times> nat \<times> bytes) list" where
  "bson_scan b = (case b of [] \<Rightarrow> []
     | t # r \<Rightarrow>
         if byte t = 0 then []
         else (case index_nul r of None \<Rightarrow> []
               | Some (key, v) \<Rightarrow>
                   (case bsonValueLen (byte t) v of None \<Rightarrow> []
                    | Some vlen \<Rightarrow> if vlen > length v then [] else (key, byte t, take vlen v) # bson_scan (drop vlen v))))"
  by pat_completeness auto
termination
  by (relation "measure length") (auto dest: index_nul_shorter)

declare bson_scan.simps [simp del]

definition scanBSON :: "bytes \<Rightarrow> (string \<times> nat \<times> bytes) list" where
  "scanBSON doc =
     (if length doc < 5 then []
      else let total0 = signed_of 32 (le32 doc);
               total = (if total0 < 5 \<or> total0 > int (length doc) then length doc else nat total0)
           in bson_scan (drop 4 (take total doc)))"

subsection \<open>Commands and replies\<close>

definition string_val :: "nat \<Rightarrow> bytes \<Rightarrow> string \<Rightarrow> string" where
  "string_val typ val old = (if typ = bsonString then (case bsonStringVal val of Some s \<Rightarrow> s | None \<Rightarrow> old) else old)"

definition mongoParseCommand :: "bytes \<Rightarrow> string \<times> string \<times> string" where
  "mongoParseCommand doc =
     (let es = scanBSON doc;
          (command, collection) = (case es of [] \<Rightarrow> ([], []) | (key, typ, val) # _ \<Rightarrow> (key, string_val typ val []));
          database = fold (\<lambda>(key, typ, val) db. if key = ''$db'' then string_val typ val db else db) es []
      in (command, collection, database))"

definition reply_ok :: "nat \<Rightarrow> bytes \<Rightarrow> bool \<Rightarrow> bool" where
  "reply_ok typ val ok =
     (if typ = bsonDouble then (case bsonDoubleVal val of Some d \<Rightarrow> f_mag d \<noteq> 0 | None \<Rightarrow> ok)
      else if typ = bsonInt32 then (if length val \<ge> 4 then signed_of 32 (le32 val) \<noteq> 0 else ok)
      else if typ = bsonInt64 then (if length val \<ge> 8 then signed_of 64 (le64 val) \<noteq> 0 else ok)
      else if typ = bsonBool then (case val of b # _ \<Rightarrow> byte b \<noteq> 0 | [] \<Rightarrow> ok)
      else ok)"

definition reply_step :: "string \<times> nat \<times> bytes \<Rightarrow> bool \<times> bool \<times> string \<Rightarrow> bool \<times> bool \<times> string" where
  "reply_step e st =
     (case (e, st) of ((key, typ, val), (ok, hasOK, errmsg)) \<Rightarrow>
        if key = ''ok'' then (reply_ok typ val ok, True, errmsg)
        else if key = ''errmsg'' then (ok, hasOK, string_val typ val errmsg)
        else (ok, hasOK, errmsg))"

definition mongoParseReply :: "bytes \<Rightarrow> bool \<times> bool \<times> string" where
  "mongoParseReply doc = fold reply_step (scanBSON doc) (False, False, [])"

function op_sections :: "bytes \<Rightarrow> bytes option" where
  "op_sections b = (case b of [] \<Rightarrow> None
     | kind # r \<Rightarrow>
         if byte kind = 0 then
           (if length r < 4 then None
            else let n = signed_of 32 (le32 r) in
              if n < 5 then None else if n > int (length r) then Some r else Some (take (nat n) r))
         else if byte kind = 1 then
           (if length r < 4 then None
            else let n = signed_of 32 (le32 r) in
              if n < 4 \<or> n > int (length r) then None else op_sections (drop (nat n) r))
         else None)"
  by pat_completeness auto
termination
  by (relation "measure length") auto

declare op_sections.simps [simp del]

definition opMsgBodyDoc :: "bytes \<Rightarrow> bytes option" where
  "opMsgBodyDoc body = (if length body < 4 then None else op_sections (drop 4 body))"

subsection \<open>The pairing map\<close>

definition mongoKey :: "string \<Rightarrow> int \<Rightarrow> string" where
  "mongoKey key i = key @ CHR ''/'' # itoa i"

definition mongoPendingFor :: "string \<Rightarrow> string \<Rightarrow> string \<Rightarrow> connID \<Rightarrow> time \<Rightarrow> RawView option \<Rightarrow> mongoPending" where
  "mongoPendingFor command collection database c now raw =
     \<lparr>mp_command = command, mp_collection = collection, mp_database = database,
      mp_summary = (if collection \<noteq> [] then command @ '' '' @ collection else command),
      mp_src = fst (conn_endpoints c), mp_dst = snd (conn_endpoints c), mp_ts = now, mp_raw = raw\<rparr>"

definition mongoStore :: "string \<times> int \<Rightarrow> mongoPending \<Rightarrow> mongoPending id_table \<Rightarrow> mongoPending id_table" where
  "mongoStore i pend T = T\<lparr>it_pending := AList.update (mongoKey (fst i) (snd i)) pend (it_pending T)\<rparr>"

record mongo_answer =
  ma_now :: time
  ma_ok :: bool
  ma_errmsg :: string
  ma_raw :: "RawView option"

definition mongo_request_payload :: "mongoPending \<Rightarrow> Payload" where
  "mongo_request_payload pend = zero_Payload\<lparr>pl_Query := mp_summary pend, pl_Summary := mp_summary pend, pl_Raw := mp_raw pend,
     pl_Mongo := Some \<lparr>mongo_Command = mp_command pend, mongo_Collection = mp_collection pend, mongo_Database = mp_database pend,
        mongo_OK = False, mongo_ErrMsg = []\<rparr>\<rparr>"

definition mongo_failed :: "mongo_answer \<Rightarrow> bool" where
  "mongo_failed a \<longleftrightarrow> \<not> ma_ok a \<or> ma_errmsg a \<noteq> []"

definition mongo_response_payload :: "mongoPending \<Rightarrow> mongo_answer \<Rightarrow> Payload" where
  "mongo_response_payload pend a = zero_Payload\<lparr>
     pl_Summary := (if mongo_failed a then (if ma_errmsg a = [] then ''error'' else ma_errmsg a) else ''ok''), pl_Raw := ma_raw a,
     pl_Mongo := Some \<lparr>mongo_Command = [], mongo_Collection = [], mongo_Database = [], mongo_OK = ma_ok a, mongo_ErrMsg = ma_errmsg a\<rparr>\<rparr>"

definition mongoComplete :: "flow_cfg \<Rightarrow> string \<times> int \<Rightarrow> mongo_answer \<Rightarrow> mongoPending id_table \<Rightarrow> mongoPending id_table" where
  "mongoComplete cfg i a T =
     (let mk = mongoKey (fst i) (snd i); T1 = T\<lparr>it_pending := AList.delete mk (it_pending T)\<rparr> in
      case map_of (it_pending T) mk of None \<Rightarrow> T1
      | Some pend \<Rightarrow>
          (let n = it_seq T + 1;
               e = zero_Entry\<lparr>e_ID := cfg_node cfg @ ''-mongo-'' @ format_nat 36 n, e_Protocol := ProtocolMongo, e_Timestamp := mp_ts pend,
                     e_ElapsedMs := milliseconds (ma_now a - mp_ts pend), e_Node := cfg_node cfg, e_NodeIP := cfg_nodeIP cfg,
                     e_Source := mp_src pend, e_Destination := mp_dst pend, e_Request := mongo_request_payload pend,
                     e_Response := mongo_response_payload pend a, e_Status := (if mongo_failed a then ''error'' else ''success'')\<rparr>
           in T1\<lparr>it_seq := n, it_out := it_out T @ [e]\<rparr>))"

definition mongo_look :: "mongoPending id_table \<Rightarrow> string \<times> int \<Rightarrow> mongoPending option" where
  "mongo_look T i = map_of (it_pending T) (mongoKey (fst i) (snd i))"

subsection \<open>Messages\<close>

record mongo_msg =
  mm_requestID :: int
  mm_responseTo :: int
  mm_opCode :: int
  mm_body :: bytes

definition readMongoBody :: "bytes \<Rightarrow> int \<Rightarrow> nat \<Rightarrow> mongo_error + bytes \<times> bytes" where
  "readMongoBody br len cap =
     (if len < 0 then Inl MEOF
      else let tk = min (nat len) cap in
        (case read_full tk br of None \<Rightarrow> Inl MEOF
         | Some (buf, r) \<Rightarrow>
             if nat len > tk then (case discard_n (nat len - tk) r of None \<Rightarrow> Inl MEOF | Some r2 \<Rightarrow> Inr (buf, r2))
             else Inr (buf, r)))"

definition readMongoMessage :: "bytes \<Rightarrow> mongo_error + mongo_msg \<times> bytes" where
  "readMongoMessage br =
     (case read_full 16 br of None \<Rightarrow> Inl MEOF
      | Some (hdr, r) \<Rightarrow>
          let msgLen = signed_of 32 (le32 hdr) in
          if msgLen < 16 \<or> msgLen > mongoMaxMessage then Inl MFrame
          else (case readMongoBody r (msgLen - 16) mongoScanBytes of Inl e \<Rightarrow> Inl e
                | Inr (body, r2) \<Rightarrow>
                    Inr (\<lparr>mm_requestID = signed_of 32 (le32 (drop 4 hdr)), mm_responseTo = signed_of 32 (le32 (drop 8 hdr)),
                          mm_opCode = signed_of 32 (le32 (drop 12 hdr)), mm_body = body\<rparr>, r2)))"

datatype mongo_call = MMark string | MStore "string \<times> int" mongoPending | MComplete "string \<times> int" mongo_answer

definition mongoOpMsg :: "connID \<Rightarrow> time \<Rightarrow> RawView option \<Rightarrow> mongo_msg \<Rightarrow> mongo_call list" where
  "mongoOpMsg c now raw m =
     (case opMsgBodyDoc (mm_body m) of None \<Rightarrow> []
      | Some doc \<Rightarrow>
          if mm_responseTo m = 0 then
            (case mongoParseCommand doc of (command, collection, database) \<Rightarrow>
               if command = [] then [] else [MStore (conn_key c, mm_requestID m) (mongoPendingFor command collection database c now raw)])
          else (case mongoParseReply doc of (ok, hasOK, errmsg) \<Rightarrow>
               [MComplete (conn_key c, mm_responseTo m) \<lparr>ma_now = now, ma_ok = (\<not> hasOK \<or> ok), ma_errmsg = errmsg, ma_raw = raw\<rparr>]))"

definition mongoOpQuery :: "connID \<Rightarrow> time \<Rightarrow> RawView option \<Rightarrow> mongo_msg \<Rightarrow> mongo_call list" where
  "mongoOpQuery c now raw m =
     (if length (mm_body m) < 4 then []
      else (case index_nul (drop 4 (mm_body m)) of None \<Rightarrow> []
            | Some (fullName, b) \<Rightarrow>
                if length b < 8 then []
                else
                  (let (database, collection) =
                         (case dropWhile (\<lambda>x. x \<noteq> CHR ''.'') fullName of [] \<Rightarrow> ([], fullName)
                          | _ # r \<Rightarrow> (takeWhile (\<lambda>x. x \<noteq> CHR ''.'') fullName, r));
                       (command, collection, database) =
                         (if suffix ''.$cmd'' fullName then
                            (case mongoParseCommand (drop 8 b) of (cmd, coll, db) \<Rightarrow>
                               if cmd \<noteq> [] then (cmd, if coll \<noteq> [] then coll else collection, if db \<noteq> [] then db else database)
                               else (''find'', collection, database))
                          else (''find'', collection, database))
                   in [MStore (conn_key c, mm_requestID m) (mongoPendingFor command collection database c now raw)])))"

definition mongoOpReply :: "connID \<Rightarrow> time \<Rightarrow> RawView option \<Rightarrow> mongo_msg \<Rightarrow> mongo_call list" where
  "mongoOpReply c now raw m =
     (let doc = drop 20 (mm_body m);
          (ok, errmsg) = (if length (mm_body m) \<ge> 20 \<and> length doc \<ge> 5 then
              (case mongoParseReply doc of (ok, hasOK, msg) \<Rightarrow> if hasOK \<or> msg \<noteq> [] then (ok, msg) else (True, []))
            else (True, []))
      in [MComplete (conn_key c, mm_responseTo m) \<lparr>ma_now = now, ma_ok = ok, ma_errmsg = errmsg, ma_raw = raw\<rparr>])"

definition mongo_message :: "connID \<Rightarrow> time \<Rightarrow> RawView option \<Rightarrow> mongo_msg \<Rightarrow> mongo_call list" where
  "mongo_message c now raw m =
     (if mm_opCode m = opMsg then mongoOpMsg c now raw m
      else if mm_opCode m = opQuery then mongoOpQuery c now raw m
      else if mm_opCode m = opReply then mongoOpReply c now raw m else [])"

definition consumeMongoID :: "connID \<Rightarrow> (nat \<Rightarrow> time) \<Rightarrow> (nat \<Rightarrow> RawView option) \<Rightarrow> bytes \<Rightarrow> mongo_call list" where
  "consumeMongoID c nows raws br =
     (let ms = fst (read_all readMongoMessage br)
      in (if ms = [] then [] else [MMark (conn_key c)])
         @ concat (map (\<lambda>(n, m). mongo_message c (nows n) (raws n) m) (List.enumerate 0 ms)))"


subsection \<open>Reading back what was encoded\<close>

text \<open>Every element type of the BSON specification but the two deprecated ones the scanner stops at, DBPointer and
  JavaScript code with a scope.\<close>

datatype bson =
  BDouble nat | BString string | BDoc bytes | BArray bytes | BBinary char bytes | BObjectId nat | BBool bool | BDate nat | BNull
| BRegex string string | BInt32 int | BInt64 int | BTimestamp nat | BDecimal128 nat | BCode string | BSymbol string | BUndefined
| BMinKey | BMaxKey

fun bson_type :: "bson \<Rightarrow> nat" where
  "bson_type (BDouble _) = 1" | "bson_type (BString _) = 2" | "bson_type (BDoc _) = 3" | "bson_type (BArray _) = 4" | "bson_type (BBinary _ _) = 5"
| "bson_type (BObjectId _) = 7" | "bson_type (BBool _) = 8" | "bson_type (BDate _) = 9" | "bson_type BNull = 10" | "bson_type (BRegex _ _) = 11"
| "bson_type (BInt32 _) = 16" | "bson_type (BInt64 _) = 18" | "bson_type (BTimestamp _) = 17" | "bson_type (BDecimal128 _) = 19"
| "bson_type (BCode _) = 13" | "bson_type (BSymbol _) = 14" | "bson_type BUndefined = 6" | "bson_type BMinKey = 255" | "bson_type BMaxKey = 127"

fun bson_bytes :: "bson \<Rightarrow> bytes" where
  "bson_bytes (BDouble n) = le_bytes 8 n"
| "bson_bytes (BString s) = le_bytes 4 (length s + 1) @ s @ [CHR 0x00]"
| "bson_bytes (BDoc b) = le_bytes 4 (length b + 5) @ b @ [CHR 0x00]"
| "bson_bytes (BArray b) = le_bytes 4 (length b + 5) @ b @ [CHR 0x00]"
| "bson_bytes (BBinary sub b) = le_bytes 4 (length b) @ sub # b"
| "bson_bytes (BObjectId n) = be_bytes 12 n"
| "bson_bytes (BBool b) = [if b then CHR 0x01 else CHR 0x00]"
| "bson_bytes (BDate n) = le_bytes 8 n"
| "bson_bytes BNull = []"
| "bson_bytes (BRegex p q) = p @ CHR 0x00 # q @ [CHR 0x00]"
| "bson_bytes (BInt32 n) = le_bytes 4 (unsigned_of 32 n)"
| "bson_bytes (BInt64 n) = le_bytes 8 (unsigned_of 64 n)"
| "bson_bytes (BTimestamp n) = le_bytes 8 n"
| "bson_bytes (BDecimal128 n) = le_bytes 16 n"
| "bson_bytes (BCode s) = le_bytes 4 (length s + 1) @ s @ [CHR 0x00]"
| "bson_bytes (BSymbol s) = le_bytes 4 (length s + 1) @ s @ [CHR 0x00]"
| "bson_bytes BUndefined = []"
| "bson_bytes BMinKey = []"
| "bson_bytes BMaxKey = []"

fun bson_ok :: "bson \<Rightarrow> bool" where
  "bson_ok (BDouble n) = (n < 2 ^ 64)"
| "bson_ok (BString s) = (length s + 1 < 2 ^ 31)"
| "bson_ok (BCode s) = (length s + 1 < 2 ^ 31)"
| "bson_ok (BSymbol s) = (length s + 1 < 2 ^ 31)"
| "bson_ok (BDoc b) = (length b + 5 < 2 ^ 31)"
| "bson_ok (BArray b) = (length b + 5 < 2 ^ 31)"
| "bson_ok (BBinary sub b) = (length b < 2 ^ 31)"
| "bson_ok (BRegex p q) = (CHR 0x00 \<notin> set p \<and> CHR 0x00 \<notin> set q)"
| "bson_ok (BInt32 n) = (- (2 ^ 31) \<le> n \<and> n < 2 ^ 31)"
| "bson_ok (BInt64 n) = (- (2 ^ 63) \<le> n \<and> n < 2 ^ 63)"
| "bson_ok _ = True"

definition bson_elem :: "string \<times> bson \<Rightarrow> bytes" where
  "bson_elem e = char_of (bson_type (snd e)) # fst e @ CHR 0x00 # bson_bytes (snd e)"

definition bson_body :: "(string \<times> bson) list \<Rightarrow> bytes" where
  "bson_body es = concat (map bson_elem es)"

definition bson_encode :: "(string \<times> bson) list \<Rightarrow> bytes" where
  "bson_encode es = le_bytes 4 (length (bson_body es) + 5) @ bson_body es @ [CHR 0x00]"

definition elems_ok :: "(string \<times> bson) list \<Rightarrow> bool" where
  "elems_ok es \<longleftrightarrow> (\<forall>e \<in> set es. CHR 0x00 \<notin> set (fst e) \<and> bson_ok (snd e)) \<and> length (bson_body es) + 5 < 2 ^ 31"

definition seen :: "string \<times> bson \<Rightarrow> string \<times> nat \<times> bytes" where
  "seen e = (fst e, bson_type (snd e), bson_bytes (snd e))"

lemma index_nul_encoded: "CHR 0x00 \<notin> set s \<Longrightarrow> index_nul (s @ CHR 0x00 # r) = Some (s, r)"
proof -
  assume "CHR 0x00 \<notin> set s"
  then have "\<forall>c \<in> set s. c \<noteq> CHR 0x00" by auto
  then show ?thesis by (simp add: index_nul_def takeWhile_append2 dropWhile_append2)
qed

lemma value_len:
  assumes "bson_ok v"
  shows "bsonValueLen (bson_type v) (bson_bytes v @ r) = Some (length (bson_bytes v))"
proof (cases v)
  case (BRegex p q)
  then show ?thesis using assms index_nul_encoded [of q r] by (simp add: bsonValueLen_def bson_fixed_def index_nul_encoded)
qed (use assms in \<open>simp_all add: bsonValueLen_def bson_fixed_def Let_def wire_decode signed_small nat_add_distrib\<close>)

lemma bson_type_byte: "bson_type v < 256" "bson_type v mod 256 = bson_type v" "0 < bson_type v"
  by (cases v; simp)+

lemma scan_elem:
  assumes "CHR 0x00 \<notin> set (fst e)" "bson_ok (snd e)"
  shows "bson_scan (bson_elem e @ r) = seen e # bson_scan r"
  using assms by (subst bson_scan.simps) (simp add: bson_elem_def bson_type_byte index_nul_encoded value_len seen_def)

lemma scan_body:
  "\<forall>e \<in> set es. CHR 0x00 \<notin> set (fst e) \<and> bson_ok (snd e) \<Longrightarrow> bson_scan (bson_body es @ r) = map seen es @ bson_scan r"
  by (induction es) (simp_all add: bson_body_def scan_elem)

lemma encode_length: "length (bson_encode es) = length (bson_body es) + 5"
  by (simp add: bson_encode_def)

lemma encode_declared: "elems_ok es \<Longrightarrow> signed_of 32 (le32 (bson_encode es @ x)) = int (length (bson_encode es))"
proof -
  assume "elems_ok es"
  then have "length (bson_body es) + 5 < 2 ^ 31" by (simp add: elems_ok_def)
  then show ?thesis by (simp add: encode_length, simp add: bson_encode_def wire_decode signed_small)
qed

lemma scan_end: "bson_scan [CHR 0x00] = []"
  by (subst bson_scan.simps) simp

lemma scan_encoded: "elems_ok es \<Longrightarrow> scanBSON (bson_encode es) = map seen es"
proof -
  assume ok: "elems_ok es"
  have "drop 4 (bson_encode es) = bson_body es @ [CHR 0x00]" by (simp add: bson_encode_def)
  then show ?thesis
    using ok encode_declared [OF ok, of "[]"] scan_body [of es "[CHR 0x00]"]
    by (simp add: scanBSON_def Let_def encode_length elems_ok_def scan_end)
qed

text \<open>The scanner visits exactly the elements of a BSON document, in order, with their types and values, for documents of
  every element type but DBPointer and code with a scope; nested documents are passed over whole.\<close>

theorem bson_round_trip:
  assumes "elems_ok es"
  shows "scanBSON (bson_encode es) = map (\<lambda>e. (fst e, bson_type (snd e), bson_bytes (snd e))) es"
  using scan_encoded [OF assms] by (simp add: seen_def)

theorem bson_round_trip_witness:
  "map fst (scanBSON (bson_encode [(''find'', BString ''users''), (''filter'', BDoc []), (''limit'', BInt32 (- 1)), (''$db'', BString ''app'')]))
     = [''find'', ''filter'', ''limit'', ''$db'']"
  by (subst bson_round_trip) (simp_all add: elems_ok_def bson_body_def bson_elem_def)

subsection \<open>Documents that are cut\<close>

lemma index_nul_split: "index_nul b = Some (s, r) \<Longrightarrow> b = s @ CHR 0x00 # r \<and> CHR 0x00 \<notin> set s"
proof -
  assume i: "index_nul b = Some (s, r)"
  then obtain c where d: "dropWhile (\<lambda>c. c \<noteq> CHR 0x00) b = c # r" and s: "s = takeWhile (\<lambda>c. c \<noteq> CHR 0x00) b"
    by (auto simp: index_nul_def split: list.splits)
  have "c = CHR 0x00" using hd_dropWhile [of "\<lambda>c. c \<noteq> CHR 0x00" b] d by simp
  then show ?thesis using d s takeWhile_dropWhile_id [of "\<lambda>c. c \<noteq> CHR 0x00" b] by (auto dest: set_takeWhileD)
qed

lemma index_nul_more: "index_nul b = Some (s, r) \<Longrightarrow> index_nul (b @ x) = Some (s, r @ x)"
proof -
  assume b: "index_nul b = Some (s, r)"
  then have "b @ x = s @ CHR 0x00 # r @ x" "CHR 0x00 \<notin> set s" using index_nul_split [OF b] by simp_all
  then show ?thesis by (simp add: index_nul_encoded)
qed

lemma le32_more: "4 \<le> length b \<Longrightarrow> le32 (b @ x) = le32 b"
  by (simp add: le32_def)

lemma value_len_more:
  "bsonValueLen t b = Some n \<Longrightarrow> n \<le> length b \<Longrightarrow> bsonValueLen t (b @ x) = Some n"
proof -
  assume b: "bsonValueLen t b = Some n" "n \<le> length b"
  show ?thesis
  proof (cases "map_of bson_fixed t")
    case None
    consider "t \<in> {2, 13, 14}" | "t \<in> {3, 4}" | "t = 5" | "t = 11" | "t \<notin> {2, 13, 14} \<union> {3, 4} \<union> {5} \<union> {11}" by blast
    then show ?thesis
    proof cases
      case 4
      then obtain s1 r1 s2 r2 where i: "index_nul b = Some (s1, r1)" "index_nul r1 = Some (s2, r2)" "n = length s1 + 1 + length s2 + 1"
        using b None by (auto simp: bsonValueLen_def split: option.splits)
      then show ?thesis using 4 None index_nul_more [OF i(1), of x] index_nul_more [OF i(2), of x] by (simp add: bsonValueLen_def)
    qed (use b None in \<open>auto simp: bsonValueLen_def Let_def le32_more split: if_splits\<close>)
  qed (use b in \<open>simp add: bsonValueLen_def\<close>)
qed

lemma scan_more: "prefix (bson_scan b) (bson_scan (b @ x))"
proof (induction b rule: bson_scan.induct)
  case (1 b)
  show ?case
  proof (cases "bson_scan b")
    case (Cons e es)
    then obtain t r key v n where b: "b = t # r" "byte t \<noteq> 0" "index_nul r = Some (key, v)" "bsonValueLen (byte t) v = Some n" "n \<le> length v"
      and e: "e = (key, byte t, take n v)" "es = bson_scan (drop n v)"
      by (simp add: bson_scan.simps [of b] not_less split: list.splits if_splits option.splits prod.splits)
    have "bson_scan (b @ x) = e # bson_scan (drop n v @ x)"
      using b e index_nul_more [OF b(3), of x] value_len_more [OF b(4,5), of x] by (subst bson_scan.simps) simp
    then show ?thesis using Cons e 1 [OF b(1,2,3) refl b(4)] b(5) by simp
  qed simp
qed

text \<open>A command document that is cut by the scan bound still names its operation: any cut of the document that keeps its first
  element gives the command and the collection of the whole document, and no element is seen in a cut that the whole
  document does not have.\<close>

theorem cut_document_keeps_command:
  assumes "elems_ok ((name, v) # es)" "4 + length (bson_elem (name, v)) \<le> n"
  defines "doc \<equiv> bson_encode ((name, v) # es)"
  shows "fst (mongoParseCommand (take n doc)) = name
    \<and> fst (snd (mongoParseCommand (take n doc))) = fst (snd (mongoParseCommand doc))
    \<and> prefix (scanBSON (take n doc)) (scanBSON doc)"
proof -
  let ?b = "bson_body ((name, v) # es) @ [CHR 0x00]"
  have doc: "drop 4 doc = ?b" by (simp add: doc_def bson_encode_def)
  have len: "length doc = length ?b + 4" by (simp add: doc_def bson_encode_def)
  have decl: "signed_of 32 (le32 doc) = int (length doc)" using encode_declared [OF assms(1), of "[]"] by (simp add: doc_def)
  have full: "scanBSON doc = map seen ((name, v) # es)" unfolding doc_def by (rule scan_encoded [OF assms(1)])
  have elem: "6 \<le> 4 + length (bson_elem (name, v))" by (simp add: bson_elem_def)
  have "le32 (take n doc) = le32 doc" using assms(2) by (simp add: le32_def min_def)
  then have cut: "scanBSON (take n doc) = bson_scan (take (n - 4) ?b)"
    using elem assms(2) len decl doc by (auto simp: scanBSON_def Let_def drop_take min_def take_all)
  have "take (n - 4) ?b = bson_elem (name, v) @ take (n - 4 - length (bson_elem (name, v))) (bson_body es @ [CHR 0x00])"
    using assms(2) by (simp add: bson_body_def)
  moreover have "CHR 0x00 \<notin> set name" "bson_ok v" using assms(1) by (auto simp: elems_ok_def)
  ultimately have hd: "\<exists>rest. scanBSON (take n doc) = seen (name, v) # rest" by (simp add: cut scan_elem)
  have "prefix (bson_scan (take (n - 4) ?b)) (bson_scan (take (n - 4) ?b @ drop (n - 4) ?b))" by (rule scan_more)
  then have "prefix (scanBSON (take n doc)) (bson_scan ?b)" by (simp only: cut append_take_drop_id)
  moreover have "bson_scan ?b = scanBSON doc"
    using full scan_body [of "(name, v) # es" "[CHR 0x00]"] assms(1) by (simp add: scan_end elems_ok_def)
  ultimately show ?thesis using hd full by (auto simp: mongoParseCommand_def Let_def seen_def)
qed

theorem cut_document_keeps_command_witness:
  "fst (mongoParseCommand (take 30 (bson_encode [(''insert'', BString ''users''), (''documents'', BArray (replicate 50 (CHR ''x'')))]))) = ''insert''"
  using cut_document_keeps_command [of "''insert''" "BString ''users''" "[(''documents'', BArray (replicate 50 (CHR ''x'')))]" 30]
  by (simp add: elems_ok_def bson_body_def bson_elem_def)

subsection \<open>Messages\<close>

lemma readMongoBody_frames: "frames False (\<lambda>b. readMongoBody b len cap) br"
  by (rule frames_unfold [OF readMongoBody_def], unfold Let_def) (intro frames_intros; simp)

lemma readMongoMessage_frames: "frames True readMongoMessage br"
  apply (rule frames_unfold [OF readMongoMessage_def], unfold Let_def)
  apply (rule frames_primitives, simp, rule frames_if, rule frames_fail)
  apply (rule frames_seq [OF readMongoBody_frames], rule frames_return)
  done

interpretation mongo_frame: framed_reader readMongoMessage
  by (rule framed_readerI) (rule readMongoMessage_frames)

definition mongo_encode :: "mongo_msg \<Rightarrow> bytes" where
  "mongo_encode m = le_bytes 4 (length (mm_body m) + 16) @ le_bytes 4 (unsigned_of 32 (mm_requestID m))
     @ le_bytes 4 (unsigned_of 32 (mm_responseTo m)) @ le_bytes 4 (unsigned_of 32 (mm_opCode m)) @ mm_body m"

definition int32 :: "int \<Rightarrow> bool" where
  "int32 n \<longleftrightarrow> - (2 ^ 31) \<le> n \<and> n < 2 ^ 31"

definition mongo_msg_ok :: "mongo_msg \<Rightarrow> bool" where
  "mongo_msg_ok m \<longleftrightarrow> int32 (mm_requestID m) \<and> int32 (mm_responseTo m) \<and> int32 (mm_opCode m) \<and> int (length (mm_body m)) + 16 \<le> mongoMaxMessage"

lemma int32_read: "int32 n \<Longrightarrow> signed_of 32 (unsigned_of 32 n) = n"
  by (rule signed_unsigned) (simp_all add: int32_def)

lemma read_mongo_encoded:
  assumes "mongo_msg_ok m"
  shows "readMongoMessage (mongo_encode m @ r) = Inr (m\<lparr>mm_body := take mongoScanBytes (mm_body m)\<rparr>, r)"
proof -
  let ?hdr = "le_bytes 4 (length (mm_body m) + 16) @ le_bytes 4 (unsigned_of 32 (mm_requestID m))
     @ le_bytes 4 (unsigned_of 32 (mm_responseTo m)) @ le_bytes 4 (unsigned_of 32 (mm_opCode m))"
  have full: "read_full 16 (mongo_encode m @ r) = Some (?hdr, mm_body m @ r)" by (simp add: read_full_Some mongo_encode_def)
  have "length (mm_body m) + 16 < 2 ^ 31" using assms by (simp add: mongo_msg_ok_def mongoMaxMessage_def)
  then have len: "signed_of 32 (le32 ?hdr) = int (length (mm_body m)) + 16" by (simp add: wire_decode signed_small)
  have ids: "signed_of 32 (le32 (drop 4 ?hdr)) = mm_requestID m" "signed_of 32 (le32 (drop 8 ?hdr)) = mm_responseTo m"
    "signed_of 32 (le32 (drop 12 ?hdr)) = mm_opCode m"
    using assms by (simp_all add: wire_decode wire_decode' int32_read mongo_msg_ok_def)
  have body: "readMongoBody (mm_body m @ r) (int (length (mm_body m))) mongoScanBytes = Inr (take mongoScanBytes (mm_body m), r)"
    by (auto simp: readMongoBody_def Let_def read_full_def discard_n_def min_def)
  show ?thesis using assms body unfolding readMongoMessage_def full Let_def option.case prod.case len ids
    by (simp add: mongo_msg_ok_def)
qed

lemma mongo_stream_reads:
  assumes "\<forall>m \<in> set ms. mongo_msg_ok m"
  shows "read_all readMongoMessage (concat (map mongo_encode ms)) = (map (\<lambda>m. m\<lparr>mm_body := take mongoScanBytes (mm_body m)\<rparr>) ms, [])"
  using assms
proof (induction ms)
  case Nil
  have "readMongoMessage [] = Inl MEOF" by (simp add: readMongoMessage_def read_full_def)
  then show ?case by (simp add: read_all_fail)
next
  case (Cons m ms)
  then have "readMongoMessage (mongo_encode m @ concat (map mongo_encode ms))
      = Inr (m\<lparr>mm_body := take mongoScanBytes (mm_body m)\<rparr>, concat (map mongo_encode ms))"
    by (simp add: read_mongo_encoded)
  then show ?case using Cons by (simp add: mongo_frame.read_all_more)
qed

subsection \<open>What a client asks for and a server answers\<close>

text \<open>The sections of a message in front of its body document: document sequences, each an identifier and documents.\<close>

definition sequence_section :: "bytes \<Rightarrow> bytes" where
  "sequence_section b = CHR 0x01 # le_bytes 4 (length b + 4) @ b"

definition op_msg_body :: "nat \<Rightarrow> bytes list \<Rightarrow> (string \<times> bson) list \<Rightarrow> bytes \<Rightarrow> bytes" where
  "op_msg_body flags seqs es tail = le_bytes 4 flags @ concat (map sequence_section seqs) @ CHR 0x00 # bson_encode es @ tail"

lemma sections_skip:
  assumes "length b + 4 < 2 ^ 31"
  shows "op_sections (sequence_section b @ r) = op_sections r"
  using assms by (subst op_sections.simps) (simp add: sequence_section_def wire_decode signed_small nat_add_distrib)

lemma sections_body: "elems_ok es \<Longrightarrow> op_sections (CHR 0x00 # bson_encode es @ tail) = Some (bson_encode es)"
  using encode_declared [of es tail] by (subst op_sections.simps) (simp add: encode_length)

lemma body_doc_found:
  assumes "elems_ok es" "\<forall>b \<in> set seqs. length b + 4 < 2 ^ 31"
  shows "opMsgBodyDoc (op_msg_body flags seqs es tail) = Some (bson_encode es)"
proof -
  have "op_sections (concat (map sequence_section seqs) @ CHR 0x00 # bson_encode es @ tail) = Some (bson_encode es)"
    using assms(2) by (induction seqs) (simp_all add: sections_skip sections_body assms(1))
  then show ?thesis by (simp add: opMsgBodyDoc_def op_msg_body_def)
qed

fun text_of :: "bson \<Rightarrow> string option" where
  "text_of (BString s) = Some s"
| "text_of v = None"

fun truth_of :: "bson \<Rightarrow> bool option" where
  "truth_of (BDouble n) = Some (n mod 2 ^ 63 \<noteq> 0)"
| "truth_of (BInt32 n) = Some (n \<noteq> 0)"
| "truth_of (BInt64 n) = Some (n \<noteq> 0)"
| "truth_of (BBool b) = Some b"
| "truth_of v = None"

text \<open>The last field of a name that has the wanted kind of value.\<close>

definition last_val :: "('v \<Rightarrow> 'a option) \<Rightarrow> string \<Rightarrow> (string \<times> 'v) list \<Rightarrow> 'a \<Rightarrow> 'a" where
  "last_val f key es dflt = fold (\<lambda>(k, v) x. if k = key then (case f v of Some y \<Rightarrow> y | None \<Rightarrow> x) else x) es dflt"

lemma last_val_simps [simp]:
  "last_val f key [] d = d"
  "last_val f key (e # es) d = last_val f key es (if fst e = key then (case f (snd e) of Some y \<Rightarrow> y | None \<Rightarrow> d) else d)"
  by (simp_all add: last_val_def case_prod_unfold)

lemma string_val_encoded:
  "bson_ok v \<Longrightarrow> string_val (bson_type v) (bson_bytes v) old = (case text_of v of Some s \<Rightarrow> s | None \<Rightarrow> old)"
  by (cases v) (simp_all add: string_val_def bsonString_def bsonStringVal_def Let_def wire_decode signed_small nat_add_distrib)

lemma reply_ok_encoded:
  assumes "bson_ok v"
  shows "reply_ok (bson_type v) (bson_bytes v) ok = (case truth_of v of Some b \<Rightarrow> b | None \<Rightarrow> ok)"
proof (cases v)
  case (BDouble n)
  have "f_mag (word_of_nat n) = int (n mod 2 ^ 63)" using assms BDouble by (simp add: f_mag_def uint_nat unat_of_nat zmod_int)
  then show ?thesis using assms BDouble by (simp add: reply_ok_def bsonDouble_def bsonDoubleVal_def wire_decode')
next
  case (BInt64 n)
  then have "signed_of 64 (unsigned_of 64 n) = n" using assms by (intro signed_unsigned) simp_all
  moreover have "unsigned_of 64 n < 2 ^ 64" by (rule unsigned_less)
  ultimately show ?thesis using BInt64 by (simp add: reply_ok_def bsonDouble_def bsonInt32_def bsonInt64_def wire_decode')
next
  case (BInt32 n)
  then have "signed_of 32 (unsigned_of 32 n) = n" using assms by (intro signed_unsigned) simp_all
  then show ?thesis using BInt32 by (simp add: reply_ok_def bsonDouble_def bsonInt32_def wire_decode')
qed (simp_all add: reply_ok_def bsonDouble_def bsonInt32_def bsonInt64_def bsonBool_def)

lemma parse_command:
  assumes "elems_ok ((name, v) # es)"
  shows "mongoParseCommand (bson_encode ((name, v) # es))
    = (name, case text_of v of Some s \<Rightarrow> s | None \<Rightarrow> [], last_val text_of ''$db'' ((name, v) # es) [])"
proof -
  have "fold (\<lambda>(key, typ, val) db. if key = ''$db'' then string_val typ val db else db) (map seen xs) d = last_val text_of ''$db'' xs d"
    if "\<forall>e \<in> set xs. bson_ok (snd e)" for xs d
    using that by (induction xs arbitrary: d) (auto simp: seen_def string_val_encoded)
  moreover have "\<forall>e \<in> set ((name, v) # es). bson_ok (snd e)" using assms by (simp add: elems_ok_def)
  ultimately show ?thesis
    unfolding mongoParseCommand_def scan_encoded [OF assms] by (simp add: seen_def string_val_encoded)
qed

lemma parse_reply:
  assumes "elems_ok es"
  shows "mongoParseReply (bson_encode es)
    = (last_val truth_of ''ok'' es False, \<exists>e \<in> set es. fst e = ''ok'', last_val text_of ''errmsg'' es [])"
proof -
  have "fold reply_step (map seen xs) (ok, h, msg)
      = (last_val truth_of ''ok'' xs ok, h \<or> (\<exists>e \<in> set xs. fst e = ''ok''), last_val text_of ''errmsg'' xs msg)"
    if "\<forall>e \<in> set xs. bson_ok (snd e)" for xs ok h msg
    using that
  proof (induction xs arbitrary: ok h msg)
    case (Cons e xs)
    then show ?case by (cases e) (auto simp: reply_step_def seen_def string_val_encoded reply_ok_encoded)
  qed simp
  moreover have "\<forall>e \<in> set es. bson_ok (snd e)" using assms by (simp add: elems_ok_def)
  ultimately show ?thesis unfolding mongoParseReply_def scan_encoded [OF assms] by simp
qed

record mongo_talk =
  mt_id :: int
  mt_to :: int
  mt_flags :: nat
  mt_seqs :: "bytes list"
  mt_elems :: "(string \<times> bson) list"
  mt_tail :: bytes

definition talk_msg :: "mongo_talk \<Rightarrow> mongo_msg" where
  "talk_msg t = \<lparr>mm_requestID = mt_id t, mm_responseTo = mt_to t, mm_opCode = opMsg,
     mm_body = op_msg_body (mt_flags t) (mt_seqs t) (mt_elems t) (mt_tail t)\<rparr>"

definition talk_ok :: "mongo_talk \<Rightarrow> bool" where
  "talk_ok t \<longleftrightarrow> mongo_msg_ok (talk_msg t) \<and> elems_ok (mt_elems t) \<and> (\<forall>b \<in> set (mt_seqs t). length b + 4 < 2 ^ 31)
     \<and> (mt_to t = 0 \<longrightarrow> mt_elems t \<noteq> [] \<and> fst (hd (mt_elems t)) \<noteq> [])
     \<and> length (op_msg_body (mt_flags t) (mt_seqs t) (mt_elems t) []) \<le> 64 * 1024"

text \<open>A message without a reference to another is a command: its first field names the operation, and the collection when it is
  text.  Any other answers the request it refers to: it failed when it says so or carries a message.\<close>

definition talk_meaning :: "connID \<Rightarrow> time \<Rightarrow> RawView option \<Rightarrow> mongo_talk \<Rightarrow> mongo_call" where
  "talk_meaning c now raw t =
     (let es = mt_elems t in
      if mt_to t = 0 then MStore (conn_key c, mt_id t)
        (let collection = (case text_of (snd (hd es)) of Some s \<Rightarrow> s | None \<Rightarrow> []) in
         \<lparr>mp_command = fst (hd es), mp_collection = collection, mp_database = last_val text_of ''$db'' es [],
          mp_summary = fst (hd es) @ (if collection = [] then [] else '' '' @ collection),
          mp_src = fst (conn_endpoints c), mp_dst = snd (conn_endpoints c), mp_ts = now, mp_raw = raw\<rparr>)
      else MComplete (conn_key c, mt_to t) \<lparr>ma_now = now, ma_ok = ((\<exists>e \<in> set es. fst e = ''ok'') \<longrightarrow> last_val truth_of ''ok'' es False),
        ma_errmsg = last_val text_of ''errmsg'' es [], ma_raw = raw\<rparr>)"

lemma talk_cut:
  assumes "length (op_msg_body flags seqs es []) \<le> n"
  shows "take n (op_msg_body flags seqs es tail) = op_msg_body flags seqs es (take (n - length (op_msg_body flags seqs es [])) tail)"
proof -
  have split: "op_msg_body flags seqs es tl = op_msg_body flags seqs es [] @ tl" for tl by (simp add: op_msg_body_def)
  then have "take n (op_msg_body flags seqs es tail) = take n (op_msg_body flags seqs es [] @ tail)" by (subst split [of tail]) (rule refl)
  also have "\<dots> = op_msg_body flags seqs es [] @ take (n - length (op_msg_body flags seqs es [])) tail" using assms by (simp only: take_append take_all)
  also have "\<dots> = op_msg_body flags seqs es (take (n - length (op_msg_body flags seqs es [])) tail)" by (rule split [symmetric])
  finally show ?thesis .
qed

lemma talk_message:
  assumes "talk_ok t"
  shows "mongo_message c now raw ((talk_msg t)\<lparr>mm_body := take mongoScanBytes (mm_body (talk_msg t))\<rparr>) = [talk_meaning c now raw t]"
proof -
  have doc: "opMsgBodyDoc (take mongoScanBytes (op_msg_body (mt_flags t) (mt_seqs t) (mt_elems t) (mt_tail t))) = Some (bson_encode (mt_elems t))"
  proof -
    have "length (op_msg_body (mt_flags t) (mt_seqs t) (mt_elems t) []) \<le> mongoScanBytes" "elems_ok (mt_elems t)"
      "\<forall>b \<in> set (mt_seqs t). length b + 4 < 2 ^ 31" using assms unfolding talk_ok_def by (simp_all add: mongoScanBytes_def)
    then show ?thesis by (simp only: talk_cut body_doc_found)
  qed
  have ok: "elems_ok (mt_elems t)" using assms by (simp add: talk_ok_def)
  show ?thesis
  proof (cases "mt_to t = 0")
    case True
    then obtain name v es where e: "mt_elems t = (name, v) # es" "name \<noteq> []"
      using assms by (cases "mt_elems t") (auto simp: talk_ok_def)
    then show ?thesis using True doc parse_command [of name v es] ok
      by (simp add: mongo_message_def talk_msg_def mongoOpMsg_def talk_meaning_def mongoPendingFor_def Let_def del: last_val_simps)
  next
    case False
    then show ?thesis using doc parse_reply [OF ok]
      by (simp add: mongo_message_def talk_msg_def mongoOpMsg_def talk_meaning_def Let_def)
  qed
qed

text \<open>C28: On a direction of a MongoDB connection that carries OP_MSG messages of at most 48 MiB, each with its body document inside
  its first 64 KiB, every message is understood: a command is stored under its request identifier with its name, collection
  and database, a reply completes the request it refers to with its outcome and message, whatever document sequences stand
  before and whatever bytes stand after the body, for every element type of BSON but DBPointer and code with a scope; the connection is
  marked once.\<close>

theorem mongo_messages_understood:
  assumes "\<forall>t \<in> set ts. talk_ok t"
  shows "consumeMongoID c nows raws (concat (map (mongo_encode \<circ> talk_msg) ts))
    = (if ts = [] then [] else [MMark (conn_key c)]) @ map (\<lambda>(n, t). talk_meaning c (nows n) (raws n) t) (List.enumerate 0 ts)"
proof -
  let ?cut = "\<lambda>t. (talk_msg t)\<lparr>mm_body := take mongoScanBytes (mm_body (talk_msg t))\<rparr>"
  have "read_all readMongoMessage (concat (map mongo_encode (map talk_msg ts))) = (map ?cut ts, [])"
    using assms by (subst mongo_stream_reads) (auto simp: talk_ok_def)
  then have reads: "read_all readMongoMessage (concat (map (mongo_encode \<circ> talk_msg) ts)) = (map ?cut ts, [])" by simp
  have "concat (map (\<lambda>(n, m). mongo_message c (nows n) (raws n) m) (List.enumerate k (map ?cut us)))
      = map (\<lambda>(n, t). talk_meaning c (nows n) (raws n) t) (List.enumerate k us)" if "\<forall>t \<in> set us. talk_ok t" for k us
    using that by (induction us arbitrary: k) (simp_all add: talk_message)
  then show ?thesis using assms by (simp add: consumeMongoID_def reads)
qed

theorem mongo_messages_understood_witness:
  "consumeMongoID some_conn (\<lambda>_. 7) (\<lambda>_. None) (mongo_encode (talk_msg \<lparr>mt_id = 9, mt_to = 0, mt_flags = 0, mt_seqs = [],
       mt_elems = [(''find'', BString ''users''), (''at'', BTimestamp 5), (''$db'', BString ''app'')], mt_tail = []\<rparr>))
     = [MMark (conn_key some_conn), MStore (conn_key some_conn, 9) (mongoPendingFor ''find'' ''users'' ''app'' some_conn 7 None)]"
proof -
  let ?t = "\<lparr>mt_id = 9, mt_to = 0, mt_flags = 0, mt_seqs = [], mt_elems = [(''find'', BString ''users''), (''at'', BTimestamp 5), (''$db'', BString ''app'')], mt_tail = []\<rparr>"
  have "talk_ok ?t"
    by (simp add: talk_ok_def mongo_msg_ok_def talk_msg_def int32_def opMsg_def op_msg_body_def bson_encode_def elems_ok_def bson_body_def
        bson_elem_def mongoMaxMessage_def mongoScanBytes_def)
  then show ?thesis using mongo_messages_understood [of "[?t]" some_conn "\<lambda>_. 7" "\<lambda>_. None"] by (simp add: talk_meaning_def mongoPendingFor_def Let_def)
qed

subsection \<open>Pairing\<close>

lemma mongoKey_inj: "mongoKey k i = mongoKey k' i' \<longleftrightarrow> k = k' \<and> i = i'"
  using suffixed_inj by (auto simp: mongoKey_def)

interpretation mongo: exact_id_pairing id_table0 mongoStore "mongoComplete cfg" mongo_look id_forgets id_exchanged
  mongo_request_payload mongo_response_payload for cfg
proof
  fix i j :: "string \<times> int" and p r and s s' :: "mongoPending id_table"
  show "mongo_look id_table0 i = None" "id_exchanged (id_table0 :: mongoPending id_table) = []"
    by (simp_all add: mongo_look_def id_table0_def id_exchanged_def)
  show "mongo_look (mongoStore i p s) j = (if j = i then Some p else mongo_look s j)"
    by (auto simp: mongo_look_def mongoStore_def AList.update_conv' mongoKey_inj prod_eq_iff)
  then show "mongo_look (mongoStore i p s) j = (if j = i then Some p else mongo_look s j) \<or> mongo_look (mongoStore i p s) j = None" ..
  show "id_exchanged (mongoStore i p s) = id_exchanged s" by (simp add: id_exchanged_def mongoStore_def)
  show "mongo_look (mongoComplete cfg i r s) j = (if j = i then None else mongo_look s j)"
    by (auto simp: mongo_look_def mongoComplete_def Let_def AList.delete_conv' mongoKey_inj prod_eq_iff split: option.splits)
  show "id_exchanged (mongoComplete cfg i r s) = id_exchanged s
      @ (case mongo_look s i of None \<Rightarrow> [] | Some p \<Rightarrow> [(mongo_request_payload p, mongo_response_payload p r)])"
    by (simp add: mongo_look_def mongoComplete_def Let_def id_exchanged_def zero_Entry_def split: option.splits)
  show "mongo_look s' j = mongo_look s j \<or> mongo_look s' j = None" if "id_forgets s s'"
    using that by (simp add: id_forgets_def mongo_look_def)
  show "id_exchanged s' = id_exchanged s" if "id_forgets s s'" using that by (simp add: id_forgets_def id_exchanged_def)
qed

fun mongo_apply :: "flow_cfg \<Rightarrow> mongo_call \<Rightarrow> mongoPending id_table \<Rightarrow> mongoPending id_table" where
  "mongo_apply cfg (MMark k) T = T"
| "mongo_apply cfg (MStore i p) T = mongoStore i p T"
| "mongo_apply cfg (MComplete i a) T = mongoComplete cfg i a T"

fun mongo_op :: "mongo_call \<Rightarrow> (string \<times> int, mongoPending, mongo_answer) id_op list" where
  "mongo_op (MMark k) = []"
| "mongo_op (MStore i p) = [St i p]"
| "mongo_op (MComplete i a) = [Cp i a]"

text \<open>Whatever the order in which the directions of any number of MongoDB connections are handled, there is one entry for each
  reply that refers to an unanswered request of its connection, and it reports that request.\<close>

theorem mongo_exchange_exact:
  "id_exchanged (fold (mongo_apply cfg) calls id_table0)
     = id_spec mongo_request_payload mongo_response_payload (concat (map mongo_op calls)) Map.empty"
proof -
  have "fold (mongo_apply cfg) calls T = id_ops mongoStore (mongoComplete cfg) (concat (map mongo_op calls)) T" for T
  proof (induction calls arbitrary: T)
    case (Cons x calls)
    then show ?case by (cases x) simp_all
  qed simp
  then show ?thesis by (simp add: mongo.ops_from_start)
qed
end
