(* ===== verification/Worker_Dns.thy ===== *)
theory Worker_Dns
  imports Worker_Wire Worker_Idpair Worker_Resp
begin

text \<open>
  DNS over UDP and over TCP, from \<open>internal/worker/pipeline.go\<close>: the pending queries keyed by client endpoint and
  message identifier, the entries built from a response, and the framing of messages on a TCP stream.  Decoding a
  message and naming its codes is gopacket's; the decoded message is a record with the fields the worker reads,
  and the decoder and the names are the parameter \<open>dnslib\<close>.
\<close>

record dns_question =
  qu_Name :: string
  qu_Type :: nat
  qu_Class :: nat

record dns_rr =
  rr_Name :: string
  rr_Type :: nat
  rr_TTL :: "32 word"
  rr_IP :: "bytes option"
  rr_CNAME :: string
  rr_NS :: string
  rr_PTR :: string
  rr_TXTs :: "string list"
  rr_SOA_MName :: "string option"
  rr_SOA_RName :: string
  rr_SRV_Name :: "string option"

record dns_msg =
  dm_ID :: "16 word"
  dm_QR :: bool
  dm_AA :: bool
  dm_RA :: bool
  dm_ResponseCode :: nat
  dm_Questions :: "dns_question list"
  dm_Answers :: "dns_rr list"
  dm_Authorities :: "dns_rr list"
  dm_Additionals :: "dns_rr list"

record dnslib =
  decode_dns :: "bytes \<Rightarrow> dns_msg option"
  type_string :: "nat \<Rightarrow> string"
  class_string :: "nat \<Rightarrow> string"
  rcode_string :: "nat \<Rightarrow> string"
  ip_string :: "bytes \<Rightarrow> string"

subsection \<open>Rendering\<close>

definition dnsRcode :: "dnslib \<Rightarrow> nat \<Rightarrow> string" where
  "dnsRcode D c = (if c = 0 then ''NOERROR'' else rcode_string D c)"

definition dnsRcodeName :: "dnslib \<Rightarrow> nat \<Rightarrow> string" where
  "dnsRcodeName D c = (if c = 0 then ''NOERROR'' else if c = 1 then ''FORMERR'' else if c = 2 then ''SERVFAIL'' else if c = 3 then ''NXDOMAIN''
     else if c = 4 then ''NOTIMP'' else if c = 5 then ''REFUSED'' else rcode_string D c)"

definition dnsStatus :: "nat \<Rightarrow> string" where
  "dnsStatus c = (if c = 0 then ''success'' else ''error'')"

definition dnsQuestions :: "dnslib \<Rightarrow> dns_question list \<Rightarrow> DNSQuestion list" where
  "dnsQuestions D qs = map (\<lambda>q. \<lparr>dq_Name = qu_Name q, dq_Type = type_string D (qu_Type q), dq_Class = class_string D (qu_Class q)\<rparr>) qs"

definition dnsRecordData :: "dnslib \<Rightarrow> dns_rr \<Rightarrow> string" where
  "dnsRecordData D rr =
     (case rr_IP rr of Some ip \<Rightarrow> ip_string D ip
      | None \<Rightarrow>
          if rr_CNAME rr \<noteq> [] then rr_CNAME rr
          else if rr_NS rr \<noteq> [] then rr_NS rr
          else if rr_PTR rr \<noteq> [] then rr_PTR rr
          else if rr_TXTs rr \<noteq> [] then join '' '' (rr_TXTs rr)
          else (case rr_SOA_MName rr of Some mname \<Rightarrow> mname @ '' '' @ rr_SOA_RName rr
                | None \<Rightarrow> (case rr_SRV_Name rr of Some n \<Rightarrow> n | None \<Rightarrow> [])))"

definition dnsRecords :: "dnslib \<Rightarrow> dns_rr list \<Rightarrow> DNSRecord list" where
  "dnsRecords D rrs = map (\<lambda>rr. \<lparr>dr_Name = rr_Name rr, dr_Type = type_string D (rr_Type rr), dr_TTL = rr_TTL rr, dr_Data = dnsRecordData D rr\<rparr>) rrs"

definition first_answer :: "dnslib \<Rightarrow> dns_rr list \<Rightarrow> string" where
  "first_answer D rrs = (case List.find (\<lambda>rr. rr_IP rr \<noteq> None) rrs of Some rr \<Rightarrow> ip_string D (the (rr_IP rr)) | None \<Rightarrow> [])"

subsection \<open>The pending queries\<close>

record dnsPending =
  dp_question :: string
  dp_questions :: "DNSQuestion list"
  dp_id :: int
  dp_src :: Endpoint
  dp_dst :: Endpoint
  dp_ts :: time
  dp_raw :: "RawView option"

type_synonym dns_id = "string \<times> int \<times> 16 word"

definition dnsKey :: "string \<Rightarrow> int \<Rightarrow> 16 word \<Rightarrow> string" where
  "dnsKey clientIP clientPort i = clientIP @ CHR '':'' # itoa clientPort @ CHR ''/'' # itoa (uint i)"

definition dns_pending :: "dnslib \<Rightarrow> flow_cfg \<Rightarrow> time \<Rightarrow> Endpoint \<Rightarrow> Endpoint \<Rightarrow> dns_msg \<Rightarrow> bytes \<Rightarrow> dnsPending" where
  "dns_pending D cfg now client server dns raw =
     \<lparr>dp_question = (case dm_Questions dns of q # _ \<Rightarrow> qu_Name q | [] \<Rightarrow> []), dp_questions = dnsQuestions D (dm_Questions dns),
      dp_id = uint (dm_ID dns), dp_src = client, dp_dst = server, dp_ts = now, dp_raw = rawViewFromBytes raw (cfg_rawCap cfg)\<rparr>"

definition dns_store :: "(string list \<Rightarrow> string) \<Rightarrow> flow_cfg \<Rightarrow> dns_id \<Rightarrow> dnsPending \<Rightarrow> dnsPending id_table \<Rightarrow> dnsPending id_table" where
  "dns_store pick cfg i pend T = T\<lparr>it_pending := fst (evictOverCapLocked pick (cfg_maxPending cfg)
     (AList.update (case i of (ip, port, n) \<Rightarrow> dnsKey ip port n) pend (it_pending T)))\<rparr>"

definition dnsQuery :: "(string list \<Rightarrow> string) \<Rightarrow> dnslib \<Rightarrow> flow_cfg \<Rightarrow> time \<Rightarrow> Endpoint \<Rightarrow> Endpoint \<Rightarrow> dns_msg \<Rightarrow> bytes
    \<Rightarrow> dnsPending id_table \<Rightarrow> dnsPending id_table" where
  "dnsQuery pick D cfg now client server dns raw =
     dns_store pick cfg (ep_IP client, ep_Port client, dm_ID dns) (dns_pending D cfg now client server dns raw)"

record dns_answer =
  da_now :: time
  da_msg :: dns_msg
  da_bytes :: bytes

definition dns_detail0 :: DNSDetail where
  "dns_detail0 = \<lparr>dns_ID = 0, dns_Questions = [], dns_Answers = [], dns_Authority = [], dns_Additional = [], dns_Rcode = [],
     dns_Authoritative = False, dns_RecursionAvl = False\<rparr>"

definition dns_request_payload :: "dnsPending \<Rightarrow> Payload" where
  "dns_request_payload pend = zero_Payload\<lparr>pl_Question := dp_question pend, pl_Summary := ''A? '' @ dp_question pend,
     pl_DNS := Some (dns_detail0\<lparr>dns_ID := dp_id pend, dns_Questions := dp_questions pend\<rparr>), pl_Raw := dp_raw pend\<rparr>"

definition dns_response_payload :: "dnslib \<Rightarrow> flow_cfg \<Rightarrow> dnsPending \<Rightarrow> dns_answer \<Rightarrow> Payload" where
  "dns_response_payload D cfg pend a =
     (let dns = da_msg a in
      zero_Payload\<lparr>pl_Answer := first_answer D (dm_Answers dns), pl_Summary := dnsRcode D (dm_ResponseCode dns),
        pl_DNS := Some \<lparr>dns_ID = uint (dm_ID dns), dns_Questions = [], dns_Answers = dnsRecords D (dm_Answers dns),
          dns_Authority = dnsRecords D (dm_Authorities dns), dns_Additional = dnsRecords D (dm_Additionals dns),
          dns_Rcode = dnsRcodeName D (dm_ResponseCode dns), dns_Authoritative = dm_AA dns, dns_RecursionAvl = dm_RA dns\<rparr>,
        pl_Raw := rawViewFromBytes (da_bytes a) (cfg_rawCap cfg)\<rparr>)"

definition dns_complete :: "dnslib \<Rightarrow> flow_cfg \<Rightarrow> dns_id \<Rightarrow> dns_answer \<Rightarrow> dnsPending id_table \<Rightarrow> dnsPending id_table" where
  "dns_complete D cfg i a T =
     (let key = (case i of (ip, port, n) \<Rightarrow> dnsKey ip port n); T1 = T\<lparr>it_pending := AList.delete key (it_pending T)\<rparr> in
      case map_of (it_pending T) key of None \<Rightarrow> T1
      | Some pend \<Rightarrow>
          (let n = it_seq T + 1;
               e = zero_Entry\<lparr>e_ID := cfg_node cfg @ ''-dns-'' @ format_nat 36 n, e_Protocol := ProtocolDNS, e_Timestamp := dp_ts pend,
                     e_ElapsedMs := milliseconds (da_now a - dp_ts pend), e_Node := cfg_node cfg, e_NodeIP := cfg_nodeIP cfg,
                     e_Source := dp_src pend, e_Destination := dp_dst pend, e_Request := dns_request_payload pend,
                     e_Response := dns_response_payload D cfg pend a, e_Status := dnsStatus (dm_ResponseCode (da_msg a))\<rparr>
           in T1\<lparr>it_seq := n, it_out := it_out T @ [e]\<rparr>))"

definition dnsResponse :: "dnslib \<Rightarrow> flow_cfg \<Rightarrow> time \<Rightarrow> string \<Rightarrow> int \<Rightarrow> dns_msg \<Rightarrow> bytes \<Rightarrow> dnsPending id_table \<Rightarrow> dnsPending id_table" where
  "dnsResponse D cfg now clientIP clientPort dns raw =
     dns_complete D cfg (clientIP, clientPort, dm_ID dns) \<lparr>da_now = now, da_msg = dns, da_bytes = raw\<rparr>"

definition dns_look :: "dnsPending id_table \<Rightarrow> dns_id \<Rightarrow> dnsPending option" where
  "dns_look T i = map_of (it_pending T) (case i of (ip, port, n) \<Rightarrow> dnsKey ip port n)"

subsection \<open>The two transports\<close>

definition handleDNS :: "(string list \<Rightarrow> string) \<Rightarrow> dnslib \<Rightarrow> flow_cfg \<Rightarrow> time \<Rightarrow> flow \<Rightarrow> int \<Rightarrow> int \<Rightarrow> dns_msg \<Rightarrow> bytes
    \<Rightarrow> dnsPending id_table \<Rightarrow> dnsPending id_table" where
  "handleDNS pick D cfg now netFlow sp dp dns raw =
     (if \<not> dm_QR dns then
        dnsQuery pick D cfg now (zero_Endpoint\<lparr>ep_IP := flow_Src netFlow, ep_Port := sp\<rparr>)
          (zero_Endpoint\<lparr>ep_IP := flow_Dst netFlow, ep_Port := dp, ep_Name := ''dns''\<rparr>) dns raw
      else dnsResponse D cfg now (flow_Dst netFlow) dp dns raw)"

datatype dns_error = DEOF | DFrame

definition readDNSFrame :: "dnslib \<Rightarrow> bytes \<Rightarrow> dns_error + (bytes \<times> dns_msg) \<times> bytes" where
  "readDNSFrame D r =
     (case read_full 2 r of None \<Rightarrow> Inl DEOF
      | Some (lenBuf, r1) \<Rightarrow>
          let n = be16 lenBuf in
          if n = 0 then Inl DFrame
          else (case read_full n r1 of None \<Rightarrow> Inl DEOF
                | Some (msg, r2) \<Rightarrow> (case decode_dns D msg of None \<Rightarrow> Inl DFrame | Some dns \<Rightarrow> Inr ((msg, dns), r2))))"

text \<open>What a stream does to the pending map; marking its flow is the one other effect, of the first decoded message.\<close>

definition dns_tcp_message :: "(string list \<Rightarrow> string) \<Rightarrow> dnslib \<Rightarrow> flow_cfg \<Rightarrow> connID \<Rightarrow> bool \<Rightarrow> time \<Rightarrow> bytes \<times> dns_msg
    \<Rightarrow> dnsPending id_table \<Rightarrow> dnsPending id_table" where
  "dns_tcp_message pick D cfg c isRequest now m =
     (let (cli, srv0) = (if isRequest then conn_endpoints c else (snd (conn_endpoints c), fst (conn_endpoints c)));
          srv = srv0\<lparr>ep_Name := ''dns''\<rparr>; (msg, dns) = m
      in if \<not> dm_QR dns then dnsQuery pick D cfg now cli srv dns msg
         else dnsResponse D cfg now (ep_IP cli) (ep_Port cli) dns msg)"

definition consumeDNSTCPID :: "(string list \<Rightarrow> string) \<Rightarrow> dnslib \<Rightarrow> flow_cfg \<Rightarrow> connID \<Rightarrow> bool \<Rightarrow> (nat \<Rightarrow> time) \<Rightarrow> bytes
    \<Rightarrow> dnsPending id_table \<Rightarrow> string list \<times> dnsPending id_table" where
  "consumeDNSTCPID pick D cfg c isRequest nows r T =
     (let ms = fst (read_all (readDNSFrame D) r)
      in (if ms = [] then [] else [conn_key c],
          fold (\<lambda>(n, m). dns_tcp_message pick D cfg c isRequest (nows n) m) (List.enumerate 0 ms) T))"

subsection \<open>Pairing\<close>

lemma dnsKey_inj: "dnsKey ip p n = dnsKey ip' p' n' \<longleftrightarrow> ip = ip' \<and> p = p' \<and> n = n'"
proof
  assume "dnsKey ip p n = dnsKey ip' p' n'"
  then have "(ip @ CHR '':'' # itoa p) @ CHR ''/'' # itoa (uint n) = (ip' @ CHR '':'' # itoa p') @ CHR ''/'' # itoa (uint n')"
    by (simp add: dnsKey_def)
  then have "ip @ CHR '':'' # itoa p = ip' @ CHR '':'' # itoa p'" "uint n = uint n'" using suffixed_inj by blast+
  then show "ip = ip' \<and> p = p' \<and> n = n'" using ip_port_inj [of ip p ip' p'] by (simp add: ip_port_def word_uint_eq_iff)
qed simp

interpretation dns: id_pairing id_table0 "dns_store pick cfg" "dns_complete D cfg" dns_look id_forgets id_exchanged
  dns_request_payload "dns_response_payload D cfg" for pick cfg D
proof
  fix i j :: dns_id and p r and s s' :: "dnsPending id_table"
  show "dns_look id_table0 i = None" "id_exchanged (id_table0 :: dnsPending id_table) = []"
    by (simp_all add: dns_look_def id_table0_def id_exchanged_def)
  show "dns_look (dns_store pick cfg i p s) j = (if j = i then Some p else dns_look s j) \<or> dns_look (dns_store pick cfg i p s) j = None"
    using evict_lookup [of pick "cfg_maxPending cfg" "AList.update (case i of (ip, port, n) \<Rightarrow> dnsKey ip port n) p (it_pending s)"
        "case j of (ip, port, n) \<Rightarrow> dnsKey ip port n"]
    by (cases i; cases j) (auto simp: dns_look_def dns_store_def AList.update_conv' dnsKey_inj)
  show "id_exchanged (dns_store pick cfg i p s) = id_exchanged s" by (simp add: id_exchanged_def dns_store_def)
  show "dns_look (dns_complete D cfg i r s) j = (if j = i then None else dns_look s j)"
    by (cases i; cases j) (auto simp: dns_look_def dns_complete_def Let_def AList.delete_conv' dnsKey_inj split: option.splits)
  show "id_exchanged (dns_complete D cfg i r s) = id_exchanged s
      @ (case dns_look s i of None \<Rightarrow> [] | Some p \<Rightarrow> [(dns_request_payload p, dns_response_payload D cfg p r)])"
    by (simp add: dns_look_def dns_complete_def Let_def id_exchanged_def zero_Entry_def split: option.splits)
  show "dns_look s' j = dns_look s j \<or> dns_look s' j = None" if "id_forgets s s'"
    using that by (simp add: id_forgets_def dns_look_def)
  show "id_exchanged s' = id_exchanged s" if "id_forgets s s'" using that by (simp add: id_forgets_def id_exchanged_def)
qed

lemma dns_answers_open:
  assumes "id_run id_table0 (dns_store pick cfg) (dns_complete D cfg) dns_look id_forgets T tr"
  shows "id_exchanged T = answers dns_request_payload (dns_response_payload D cfg) tr
    \<and> (\<forall>pre i r p post. tr = pre @ Answered i r p # post \<longrightarrow> open_req pre i = Some p)"
  using assms by (rule dns.pairing_sound)

subsection \<open>Whose query a response answers\<close>

text \<open>A message as it was sent: between which client and server, when, and its bytes.  A UDP query goes from the client and a UDP response to it; on
  TCP the client is the end that opened the connection to port 53.\<close>

record dns_sent =
  sn_client :: "string \<times> int"
  sn_server :: "string \<times> int"
  sn_now :: time
  sn_msg :: dns_msg
  sn_raw :: bytes

definition udp_sent :: "string \<times> int \<Rightarrow> string \<times> int \<Rightarrow> time \<Rightarrow> dns_msg \<Rightarrow> bytes \<Rightarrow> dns_sent" where
  "udp_sent src dst now msg raw =
     (if dm_QR msg then \<lparr>sn_client = dst, sn_server = src, sn_now = now, sn_msg = msg, sn_raw = raw\<rparr>
      else \<lparr>sn_client = src, sn_server = dst, sn_now = now, sn_msg = msg, sn_raw = raw\<rparr>)"

definition tcp_sent :: "connID \<Rightarrow> bool \<Rightarrow> time \<Rightarrow> dns_msg \<Rightarrow> bytes \<Rightarrow> dns_sent" where
  "tcp_sent c isRequest now msg raw =
     (if isRequest then \<lparr>sn_client = (srcIP c, srcPort c), sn_server = (dstIP c, dstPort c), sn_now = now, sn_msg = msg, sn_raw = raw\<rparr>
      else \<lparr>sn_client = (dstIP c, dstPort c), sn_server = (srcIP c, srcPort c), sn_now = now, sn_msg = msg, sn_raw = raw\<rparr>)"

text \<open>Every order of the packets and stream messages of all clients, with the reaper removing any pending queries at any moment; the log has the messages.\<close>

inductive dns_run :: "(string list \<Rightarrow> string) \<Rightarrow> dnslib \<Rightarrow> flow_cfg \<Rightarrow> dnsPending id_table \<Rightarrow> dns_sent list \<Rightarrow> bool" for pick D cfg where
  start: "dns_run pick D cfg id_table0 []"
| udp: "dns_run pick D cfg T lg \<Longrightarrow>
    dns_run pick D cfg (handleDNS pick D cfg now netFlow sp dp msg raw T) (lg @ [udp_sent (flow_Src netFlow, sp) (flow_Dst netFlow, dp) now msg raw])"
| tcp: "dns_run pick D cfg T lg \<Longrightarrow>
    dns_run pick D cfg (dns_tcp_message pick D cfg c isRequest now (raw, msg) T) (lg @ [tcp_sent c isRequest now msg raw])"
| reap: "dns_run pick D cfg T lg \<Longrightarrow> id_forgets T T' \<Longrightarrow> dns_run pick D cfg T' lg"

definition same_exchange :: "dns_sent \<Rightarrow> dns_sent \<Rightarrow> bool" where
  "same_exchange a b \<longleftrightarrow> sn_client a = sn_client b \<and> dm_ID (sn_msg a) = dm_ID (sn_msg b)"

definition host_at :: "string \<times> int \<Rightarrow> Endpoint" where
  "host_at x = zero_Endpoint\<lparr>ep_IP := fst x, ep_Port := snd x\<rparr>"

text \<open>What the entry of a query and its response says.\<close>

definition dns_entry :: "dns_sent \<Rightarrow> dns_sent \<Rightarrow> Entry \<Rightarrow> bool" where
  "dns_entry q r e \<longleftrightarrow>
     e_Protocol e = ProtocolDNS \<and> e_Source e = host_at (sn_client q) \<and> e_Destination e = (host_at (sn_server q))\<lparr>ep_Name := ''dns''\<rparr>
     \<and> e_Timestamp e = sn_now q \<and> e_ElapsedMs e = milliseconds (sn_now r - sn_now q)
     \<and> pl_Question (e_Request e) = (case dm_Questions (sn_msg q) of [] \<Rightarrow> [] | x # _ \<Rightarrow> qu_Name x)
     \<and> (\<exists>d. pl_DNS (e_Request e) = Some d \<and> dns_ID d = uint (dm_ID (sn_msg q)) \<and> map dq_Name (dns_Questions d) = map qu_Name (dm_Questions (sn_msg q)))
     \<and> (\<exists>d. pl_DNS (e_Response e) = Some d \<and> dns_ID d = uint (dm_ID (sn_msg r)) \<and> map dr_Name (dns_Answers d) = map rr_Name (dm_Answers (sn_msg r))
          \<and> map dr_TTL (dns_Answers d) = map rr_TTL (dm_Answers (sn_msg r)) \<and> dns_Authoritative d = dm_AA (sn_msg r) \<and> dns_RecursionAvl d = dm_RA (sn_msg r))
     \<and> (e_Status e = ''success'' \<longleftrightarrow> dm_ResponseCode (sn_msg r) = 0)"

text \<open>The message at place \<open>j\<close> of the lg is a response, and the entry is of it and of the last message before it of the same client, port and
  identifier, which is a query.\<close>

definition answers_last_query :: "dns_sent list \<Rightarrow> nat \<Rightarrow> Entry \<Rightarrow> bool" where
  "answers_last_query lg j e \<longleftrightarrow> j < length lg \<and> dm_QR (sn_msg (lg ! j))
     \<and> (\<exists>i < j. \<not> dm_QR (sn_msg (lg ! i)) \<and> same_exchange (lg ! i) (lg ! j) \<and> (\<forall>m. i < m \<longrightarrow> m < j \<longrightarrow> \<not> same_exchange (lg ! m) (lg ! j))
          \<and> dns_entry (lg ! i) (lg ! j) e)"

definition dns_message :: "(string list \<Rightarrow> string) \<Rightarrow> dnslib \<Rightarrow> flow_cfg \<Rightarrow> dns_sent \<Rightarrow> dnsPending id_table \<Rightarrow> dnsPending id_table" where
  "dns_message pick D cfg s T =
     (if dm_QR (sn_msg s) then dnsResponse D cfg (sn_now s) (fst (sn_client s)) (snd (sn_client s)) (sn_msg s) (sn_raw s) T
      else dnsQuery pick D cfg (sn_now s) (host_at (sn_client s)) ((host_at (sn_server s))\<lparr>ep_Name := ''dns''\<rparr>) (sn_msg s) (sn_raw s) T)"

lemma transports:
  "handleDNS pick D cfg now netFlow sp dp msg raw T = dns_message pick D cfg (udp_sent (flow_Src netFlow, sp) (flow_Dst netFlow, dp) now msg raw) T"
  "dns_tcp_message pick D cfg c isRequest now (raw, msg) T = dns_message pick D cfg (tcp_sent c isRequest now msg raw) T"
  by (simp_all add: handleDNS_def dns_message_def udp_sent_def tcp_sent_def host_at_def dns_tcp_message_def conn_endpoints_def zero_Endpoint_def Let_def)

definition sn_id :: "dns_sent \<Rightarrow> dns_id" where
  "sn_id s = (fst (sn_client s), snd (sn_client s), dm_ID (sn_msg s))"

definition pending_of :: "dnslib \<Rightarrow> flow_cfg \<Rightarrow> dns_sent \<Rightarrow> dnsPending" where
  "pending_of D cfg s = dns_pending D cfg (sn_now s) (host_at (sn_client s)) ((host_at (sn_server s))\<lparr>ep_Name := ''dns''\<rparr>) (sn_msg s) (sn_raw s)"

lemma same_id: "same_exchange a b \<longleftrightarrow> sn_id a = sn_id b"
  by (auto simp: same_exchange_def sn_id_def prod_eq_iff)

lemma message_effect:
  "dm_QR (sn_msg s) \<Longrightarrow> dns_message pick D cfg s T = dns_complete D cfg (sn_id s) \<lparr>da_now = sn_now s, da_msg = sn_msg s, da_bytes = sn_raw s\<rparr> T"
  "\<not> dm_QR (sn_msg s) \<Longrightarrow> dns_message pick D cfg s T = dns_store pick cfg (sn_id s) (pending_of D cfg s) T"
  by (simp_all add: dns_message_def dnsResponse_def dnsQuery_def sn_id_def pending_of_def host_at_def)

lemma complete_out:
  "it_out (dns_complete D cfg i a T) = it_out T \<or> (\<exists>pend e. dns_look T i = Some pend \<and> it_out (dns_complete D cfg i a T) = it_out T @ [e]
     \<and> e_Protocol e = ProtocolDNS \<and> e_Source e = dp_src pend \<and> e_Destination e = dp_dst pend \<and> e_Timestamp e = dp_ts pend
     \<and> e_ElapsedMs e = milliseconds (da_now a - dp_ts pend) \<and> e_Request e = dns_request_payload pend
     \<and> e_Response e = dns_response_payload D cfg pend a \<and> e_Status e = dnsStatus (dm_ResponseCode (da_msg a)))"
  by (auto simp: dns_complete_def dns_look_def Let_def zero_Entry_def split: option.split)

lemma reported_entry:
  assumes "e_Protocol e = ProtocolDNS" "e_Source e = dp_src p" "e_Destination e = dp_dst p" "e_Timestamp e = dp_ts p"
    "e_ElapsedMs e = milliseconds (sn_now r - dp_ts p)" "e_Request e = dns_request_payload p"
    "e_Response e = dns_response_payload D cfg p \<lparr>da_now = sn_now r, da_msg = sn_msg r, da_bytes = sn_raw r\<rparr>"
    "e_Status e = dnsStatus (dm_ResponseCode (sn_msg r))" "p = pending_of D cfg q"
  shows "dns_entry q r e"
  using assms by (simp add: dns_entry_def pending_of_def dns_pending_def dns_request_payload_def dns_response_payload_def dnsQuestions_def dnsRecords_def
      comp_def dnsStatus_def Let_def split: list.split)

text \<open>Every pending query is the last message of its client, port and identifier, and every entry answers such a query.\<close>

definition dns_inv :: "dnslib \<Rightarrow> flow_cfg \<Rightarrow> dnsPending id_table \<Rightarrow> dns_sent list \<Rightarrow> bool" where
  "dns_inv D cfg T lg \<longleftrightarrow>
     (\<forall>i p. dns_look T i = Some p \<longrightarrow> (\<exists>n < length lg. \<not> dm_QR (sn_msg (lg ! n)) \<and> sn_id (lg ! n) = i \<and> p = pending_of D cfg (lg ! n)
        \<and> (\<forall>m. n < m \<longrightarrow> m < length lg \<longrightarrow> sn_id (lg ! m) \<noteq> i)))
     \<and> (\<exists>js. length js = length (it_out T) \<and> sorted_wrt (<) js \<and> (\<forall>j \<in> set js. j < length lg)
          \<and> (\<forall>n < length js. answers_last_query lg (js ! n) (it_out T ! n)))"

lemma answers_more: "answers_last_query lg j e \<Longrightarrow> answers_last_query (lg @ later) j e"
  by (auto simp: answers_last_query_def nth_append)

lemma dns_message_inv:
  assumes "dns_inv D cfg T lg"
  shows "dns_inv D cfg (dns_message pick D cfg s T) (lg @ [s])"
proof -
  let ?T = "dns_message pick D cfg s T"
  obtain js where js: "length js = length (it_out T)" "sorted_wrt (<) js" "\<forall>j \<in> set js. j < length lg"
      "\<forall>n < length js. answers_last_query lg (js ! n) (it_out T ! n)"
    using assms unfolding dns_inv_def by blast
  have waits: "\<exists>n < length lg. \<not> dm_QR (sn_msg (lg ! n)) \<and> sn_id (lg ! n) = i \<and> p = pending_of D cfg (lg ! n)
      \<and> (\<forall>m. n < m \<longrightarrow> m < length lg \<longrightarrow> sn_id (lg ! m) \<noteq> i)" if "dns_look T i = Some p" for i p
    using assms that unfolding dns_inv_def by blast
  have look: "dns_look ?T i = (if i = sn_id s then (if dm_QR (sn_msg s) then None else Some (pending_of D cfg s)) else dns_look T i) \<or> dns_look ?T i = None" for i
    by (cases "dm_QR (sn_msg s)") (use dns.look_complete dns.look_store [of pick cfg "sn_id s" "pending_of D cfg s" T i] in \<open>auto simp: message_effect\<close>)
  have "\<exists>n < length (lg @ [s]). \<not> dm_QR (sn_msg ((lg @ [s]) ! n)) \<and> sn_id ((lg @ [s]) ! n) = i \<and> p = pending_of D cfg ((lg @ [s]) ! n)
      \<and> (\<forall>m. n < m \<longrightarrow> m < length (lg @ [s]) \<longrightarrow> sn_id ((lg @ [s]) ! m) \<noteq> i)" if "dns_look ?T i = Some p" for i p
  proof (cases "i = sn_id s")
    case True
    then have "\<not> dm_QR (sn_msg s)" "p = pending_of D cfg s" using look [of i] that by (auto split: if_splits)
    then show ?thesis using True by (intro exI [of _ "length lg"]) simp
  next
    case False
    then have "dns_look T i = Some p" using look [of i] that by auto
    from waits [OF this] obtain n where "n < length lg" "\<not> dm_QR (sn_msg (lg ! n))" "sn_id (lg ! n) = i" "p = pending_of D cfg (lg ! n)"
        "\<forall>m. n < m \<longrightarrow> m < length lg \<longrightarrow> sn_id (lg ! m) \<noteq> i" by blast
    then show ?thesis using False by (intro exI [of _ n]) (auto simp: nth_append less_Suc_eq)
  qed
  moreover have "\<exists>js. length js = length (it_out ?T) \<and> sorted_wrt (<) js \<and> (\<forall>j \<in> set js. j < length (lg @ [s]))
      \<and> (\<forall>n < length js. answers_last_query (lg @ [s]) (js ! n) (it_out ?T ! n))"
  proof (cases "it_out ?T = it_out T")
    case True
    then show ?thesis using js answers_more by (intro exI [of _ js]) auto
  next
    case False
    have "it_out (dns_store pick cfg i p T) = it_out T" for i p by (simp add: dns_store_def)
    then have qr: "dm_QR (sn_msg s)" using False message_effect(2) [of s pick D cfg T] by metis
    obtain pend e where e: "dns_look T (sn_id s) = Some pend" "it_out ?T = it_out T @ [e]" "e_Protocol e = ProtocolDNS" "e_Source e = dp_src pend"
        "e_Destination e = dp_dst pend" "e_Timestamp e = dp_ts pend" "e_ElapsedMs e = milliseconds (sn_now s - dp_ts pend)" "e_Request e = dns_request_payload pend"
        "e_Response e = dns_response_payload D cfg pend \<lparr>da_now = sn_now s, da_msg = sn_msg s, da_bytes = sn_raw s\<rparr>"
        "e_Status e = dnsStatus (dm_ResponseCode (sn_msg s))"
      using complete_out [of D cfg "sn_id s" "\<lparr>da_now = sn_now s, da_msg = sn_msg s, da_bytes = sn_raw s\<rparr>" T] False
      unfolding message_effect(1) [OF qr] by auto
    from waits [OF e(1)] obtain n where n: "n < length lg" "\<not> dm_QR (sn_msg (lg ! n))" "sn_id (lg ! n) = sn_id s" "pend = pending_of D cfg (lg ! n)"
        "\<forall>m. n < m \<longrightarrow> m < length lg \<longrightarrow> sn_id (lg ! m) \<noteq> sn_id s" by blast
    have "answers_last_query (lg @ [s]) (length lg) e"
      using n qr reported_entry [OF e(3-10) n(4)] by (auto simp: answers_last_query_def nth_append same_id)
    then show ?thesis using js answers_more e(2) by (intro exI [of _ "js @ [length lg]"]) (auto simp: sorted_wrt_append nth_append less_Suc_eq)
  qed
  ultimately show ?thesis unfolding dns_inv_def by blast
qed

lemma dns_run_inv: "dns_run pick D cfg T lg \<Longrightarrow> dns_inv D cfg T lg"
proof (induction rule: dns_run.induct)
  case start
  then show ?case by (simp add: dns_inv_def dns.start_empty) (simp add: id_table0_def)
next
  case (reap T lg T')
  have out: "it_out T' = it_out T" using reap(2) by (simp add: id_forgets_def)
  show ?case using reap.IH dns.look_forgets [OF reap(2)] unfolding dns_inv_def out by (metis option.distinct(1))
qed (simp_all only: transports dns_message_inv)


abbreviation some_dnslib :: dnslib where
  "some_dnslib \<equiv> \<lparr>decode_dns = (\<lambda>b. if length b < 12 then None else Some \<lparr>dm_ID = word_of_nat (be16 b), dm_QR = byte (b ! 2) \<ge> 128, dm_AA = False,
       dm_RA = False, dm_ResponseCode = byte (b ! 3) mod 16, dm_Questions = [], dm_Answers = [], dm_Authorities = [], dm_Additionals = []\<rparr>),
     type_string = (\<lambda>n. itoa (int n)), class_string = (\<lambda>n. itoa (int n)), rcode_string = (\<lambda>n. itoa (int n)), ip_string = (\<lambda>b. b)\<rparr>"

abbreviation some_dns :: "bool \<Rightarrow> dns_msg" where
  "some_dns qr \<equiv> \<lparr>dm_ID = 7, dm_QR = qr, dm_AA = False, dm_RA = False, dm_ResponseCode = 0, dm_Questions = [], dm_Answers = [],
     dm_Authorities = [], dm_Additionals = []\<rparr>"


text \<open>The pending queries stay within their bound: no operation takes the map over \<open>maxPending\<close>.\<close>

theorem dns_pending_bounded:
  assumes "picks_key pick" "map_ok (cfg_maxPending cfg) (it_pending T)"
  shows "map_ok (cfg_maxPending cfg) (it_pending (handleDNS pick D cfg now netFlow sp dp dns raw T))"
proof -
  have "map_ok (cfg_maxPending cfg) (it_pending (dns_store pick cfg i pend T))" for i pend
    using assms unfolding dns_store_def
    by (simp, intro evict_map_ok) (simp_all add: map_ok_def AList.distinct_update length_update_key)
  moreover have "map_ok (cfg_maxPending cfg) (it_pending (dns_complete D cfg i a T))" for i a
    using assms(2) by (auto simp: dns_complete_def Let_def delete_map_ok split: option.splits prod.splits)
  ultimately show ?thesis by (simp add: handleDNS_def dnsQuery_def dnsResponse_def)
qed

subsection \<open>Messages on a stream\<close>

lemma readDNSFrame_frames: "frames True (readDNSFrame D) r"
  by (rule frames_unfold [OF readDNSFrame_def], unfold Let_def) (intro frames_intros; simp)

interpretation dns_frame: framed_reader "readDNSFrame D" for D
  by (rule framed_readerI) (rule readDNSFrame_frames)

definition dns_encode :: "bytes \<Rightarrow> bytes" where
  "dns_encode b = be_bytes 2 (length b) @ b"

lemma read_dns_encoded:
  assumes "b \<noteq> []" "length b < 2 ^ 16" "decode_dns D b = Some m"
  shows "readDNSFrame D (dns_encode b @ r) = Inr ((b, m), r)"
proof -
  have "read_full 2 (dns_encode b @ r) = Some (be_bytes 2 (length b), b @ r)" by (simp add: read_full_Some dns_encode_def)
  then show ?thesis using assms by (simp add: readDNSFrame_def Let_def wire_simps read_full_def)
qed

lemma dns_stream_reads:
  assumes "\<forall>(b, m) \<in> set ms. b \<noteq> [] \<and> length b < 2 ^ 16 \<and> decode_dns D b = Some m"
  shows "read_all (readDNSFrame D) (concat (map (dns_encode \<circ> fst) ms)) = (ms, [])"
  using assms
proof (induction ms)
  case Nil
  have "readDNSFrame D [] = Inl DEOF" by (simp add: readDNSFrame_def read_full_def)
  then show ?case by (simp add: read_all_fail)
next
  case (Cons x ms)
  then have "readDNSFrame D (dns_encode (fst x) @ concat (map (dns_encode \<circ> fst) ms)) = Inr (x, concat (map (dns_encode \<circ> fst) ms))"
    by (cases x) (simp add: read_dns_encoded)
  then show ?case using Cons by (simp add: dns_frame.read_all_more comp_def)
qed

text \<open>C30: DNS over TCP is DNS over UDP with a length in front of each message: a direction of messages that decode, queries in the direction of the client and responses in the other,
  between a client and port 53 has the same effect on the pending queries and the entries as the same messages in UDP packets between the same endpoints, handled
  at the same times.\<close>

theorem dns_tcp_is_udp:
  assumes "\<forall>(b, m) \<in> set ms. b \<noteq> [] \<and> length b < 2 ^ 16 \<and> decode_dns D b = Some m"
    and "\<forall>(b, m) \<in> set ms. dm_QR m \<longleftrightarrow> \<not> isRequest"
  shows "snd (consumeDNSTCPID pick D cfg c isRequest nows (concat (map (dns_encode \<circ> fst) ms)) T)
    = fold (\<lambda>(n, b, m). handleDNS pick D cfg (nows n) \<lparr>flow_Src = srcIP c, flow_Dst = dstIP c\<rparr> (srcPort c) (dstPort c) m b)
        (List.enumerate 0 ms) T"
proof -
  have one: "dns_tcp_message pick D cfg c isRequest now (b, m)
      = handleDNS pick D cfg now \<lparr>flow_Src = srcIP c, flow_Dst = dstIP c\<rparr> (srcPort c) (dstPort c) m b"
    if "(b, m) \<in> set ms" for now b m
    using assms(2) that by (cases isRequest) (auto simp: dns_tcp_message_def handleDNS_def conn_endpoints_def Let_def)
  have mem: "snd x \<in> set xs" if "x \<in> set (List.enumerate k xs)" for x k and xs :: "(bytes \<times> dns_msg) list"
    using that by (metis map_snd_enumerate image_eqI list.set_map)
  have "fold (\<lambda>(n, m). dns_tcp_message pick D cfg c isRequest (nows n) m) (List.enumerate 0 ms) T
      = fold (\<lambda>(n, b, m). handleDNS pick D cfg (nows n) \<lparr>flow_Src = srcIP c, flow_Dst = dstIP c\<rparr> (srcPort c) (dstPort c) m b)
          (List.enumerate 0 ms) T"
    by (rule fold_cong) (use mem one in fastforce)+
  then show ?thesis using dns_stream_reads [OF assms(1)] by (simp add: consumeDNSTCPID_def Let_def)
qed

theorem dns_tcp_is_udp_witness:
  "snd (consumeDNSTCPID hd some_dnslib some_cfg some_conn True (\<lambda>_. 1) (dns_encode (map char_of [0, 7, 0, 0, 0, 0, 0, 0, 0, 0, 0, 0::nat])) id_table0)
     = handleDNS hd some_dnslib some_cfg 1 \<lparr>flow_Src = ''10.0.0.1'', flow_Dst = ''10.0.0.2''\<rparr> 40000 6379 (some_dns False)
         (map char_of [0, 7, 0, 0, 0, 0, 0, 0, 0, 0, 0, 0::nat]) id_table0"
proof -
  have "be16 (map char_of [0, 7, 0, 0, 0, 0, 0, 0, 0, 0, 0, 0::nat]) = 7" by code_simp
  then show ?thesis
    using dns_tcp_is_udp [of "[(map char_of [0, 7, 0, 0, 0, 0, 0, 0, 0, 0, 0, 0::nat], some_dns False)]" some_dnslib True hd some_cfg some_conn "\<lambda>_. 1" id_table0]
    by simp
qed

end
