(* ===== verification/Worker_Pairing.thy ===== *)
theory Worker_Pairing
  imports Worker_Flows
begin

text \<open>
  Request/response pairing, the core of \<open>internal/worker/pipeline.go\<close>.  The state is the part of \<open>pipeline\<close> the
  pairing works on: the map of per-connection queues, the AF_PACKET reference counts, the flow table, and the
  pending requests themselves in a store of cells, since a reserved request is shared by pointer between the
  queue and the goroutine that fills it in.  A queue holds the addresses of cells.

  Each critical section under \<open>p.mu\<close> is one operation.  The retry loop of \<open>completeResponse\<close> takes what the
  other goroutines do during each of its sleeps as an argument.  \<open>time.Now()\<close> is an argument.
\<close>

record pendingResp =
  ps_payload :: Payload
  ps_statusCode :: int
  ps_status :: string
  ps_firstByte :: "time option"

record pendingReq =
  pr_protocol :: string
  pr_req :: Payload
  pr_src :: Endpoint
  pr_dst :: Endpoint
  pr_ts :: time
  pr_filled :: bool
  pr_resp :: "pendingResp option"

record pipeline =
  p_table :: flow_table
  p_conns :: "(string \<times> nat list) list"
  p_cells :: "pendingReq list"
  p_afPacketStreams :: "(string \<times> nat) list"

definition newPipeline :: pipeline where
  "newPipeline = \<lparr>p_table = \<lparr>ft_flows = [], ft_flowsEvicted = 0, ft_seq = 0, ft_out = []\<rparr>, p_conns = [], p_cells = [],
     p_afPacketStreams = []\<rparr>"

definition reqBacklogCap :: nat where "reqBacklogCap = 1024"

subsection \<open>Queueing requests\<close>

definition queue :: "string \<Rightarrow> pipeline \<Rightarrow> nat list" where
  "queue key P = (case map_of (p_conns P) key of None \<Rightarrow> [] | Some q \<Rightarrow> q)"

definition with_depth :: "nat \<Rightarrow> pendingReq \<Rightarrow> pendingReq" where
  "with_depth d pr = (case pl_Redis (pr_req pr) of None \<Rightarrow> pr
     | Some r \<Rightarrow> pr\<lparr>pr_req := (pr_req pr)\<lparr>pl_Redis := Some (r\<lparr>redis_PipelineDepth := int d\<rparr>)\<rparr>\<rparr>)"

text \<open>The oldest pending request is dropped when the backlog is full.\<close>

definition push_pending :: "nat list \<Rightarrow> nat \<Rightarrow> nat list" where
  "push_pending q addr = (let q1 = q @ [addr] in if length q1 > reqBacklogCap then tl q1 else q1)"

definition appendPending :: "(string list \<Rightarrow> string) \<Rightarrow> flow_cfg \<Rightarrow> string \<Rightarrow> pendingReq \<Rightarrow> pipeline \<Rightarrow> pipeline" where
  "appendPending pick cfg key pr P =
     (let q = queue key P
      in P\<lparr>p_cells := p_cells P @ [with_depth (length q) pr],
           p_conns := fst (evictOverCapLocked pick (cfg_maxPending cfg)
             (AList.update key (push_pending q (length (p_cells P))) (p_conns P)))\<rparr>)"

definition enqueueRequestOnly :: "(string list \<Rightarrow> string) \<Rightarrow> flow_cfg \<Rightarrow> time \<Rightarrow> string \<Rightarrow> string \<Rightarrow> Payload \<Rightarrow> Endpoint \<Rightarrow> Endpoint
    \<Rightarrow> pipeline \<Rightarrow> pipeline" where
  "enqueueRequestOnly pick cfg now key proto req src dst =
     appendPending pick cfg key \<lparr>pr_protocol = proto, pr_req = req, pr_src = src, pr_dst = dst, pr_ts = now, pr_filled = True, pr_resp = None\<rparr>"

definition enqueueRequest :: "(string list \<Rightarrow> string) \<Rightarrow> flow_cfg \<Rightarrow> time \<Rightarrow> string \<Rightarrow> string \<Rightarrow> Payload \<Rightarrow> Endpoint \<Rightarrow> Endpoint
    \<Rightarrow> pipeline \<Rightarrow> pipeline" where
  "enqueueRequest pick cfg now key proto req src dst P =
     (let P1 = enqueueRequestOnly pick cfg now key proto req src dst P
      in P1\<lparr>p_table := markL7 pick cfg key (p_table P1)\<rparr>)"

definition reserveRequest :: "(string list \<Rightarrow> string) \<Rightarrow> flow_cfg \<Rightarrow> time \<Rightarrow> string \<Rightarrow> string \<Rightarrow> Payload \<Rightarrow> Endpoint \<Rightarrow> Endpoint
    \<Rightarrow> pipeline \<Rightarrow> nat \<times> pipeline" where
  "reserveRequest pick cfg now key proto req src dst P =
     (length (p_cells P),
      appendPending pick cfg key \<lparr>pr_protocol = proto, pr_req = req, pr_src = src, pr_dst = dst, pr_ts = now, pr_filled = False, pr_resp = None\<rparr> P)"

definition fillRequest :: "nat \<Rightarrow> string \<Rightarrow> bool \<Rightarrow> int \<Rightarrow> RawView option \<Rightarrow> pipeline \<Rightarrow> pendingResp option \<times> pipeline" where
  "fillRequest addr body truncated sz raw P =
     (let pr = p_cells P ! addr
      in (pr_resp pr,
          P\<lparr>p_cells := (p_cells P)[addr := pr\<lparr>pr_req := (pr_req pr)\<lparr>pl_Body := body, pl_Truncated := truncated, pl_Size := sz, pl_Raw := raw\<rparr>,
              pr_filled := True, pr_resp := None\<rparr>]\<rparr>))"

definition peekPendingMethod :: "string \<Rightarrow> pipeline \<Rightarrow> string" where
  "peekPendingMethod key P = (case queue key P of [] \<Rightarrow> [] | a # _ \<Rightarrow> pl_Method (pr_req (p_cells P ! a)))"

definition purgePending :: "string \<Rightarrow> pipeline \<Rightarrow> pipeline" where
  "purgePending key P = P\<lparr>p_conns := AList.delete key (p_conns P)\<rparr>"

definition isInterimStatus :: "int \<Rightarrow> bool" where
  "isInterimStatus code \<longleftrightarrow> code \<ge> 100 \<and> code \<le> 199 \<and> code \<noteq> 101"

subsection \<open>Capture-path reference counts\<close>

definition af_count :: "string \<Rightarrow> pipeline \<Rightarrow> nat" where
  "af_count key P = (case map_of (p_afPacketStreams P) key of None \<Rightarrow> 0 | Some n \<Rightarrow> n)"

definition addAFPacketStream :: "string \<Rightarrow> pipeline \<Rightarrow> pipeline" where
  "addAFPacketStream key P = P\<lparr>p_afPacketStreams := AList.update key (af_count key P + 1) (p_afPacketStreams P)\<rparr>"

definition removeAFPacketStream :: "string \<Rightarrow> pipeline \<Rightarrow> pipeline" where
  "removeAFPacketStream key P =
     (let n = int (af_count key P) - 1
      in if n > 0 then P\<lparr>p_afPacketStreams := AList.update key (nat n) (p_afPacketStreams P)\<rparr>
         else P\<lparr>p_afPacketStreams := AList.delete key (p_afPacketStreams P)\<rparr>)"

subsection \<open>Correlation identifiers\<close>

definition is_hex_char :: "char \<Rightarrow> bool" where
  "is_hex_char c \<longleftrightarrow> (48 \<le> byte c \<and> byte c \<le> 57) \<or> (97 \<le> byte c \<and> byte c \<le> 102) \<or> (65 \<le> byte c \<and> byte c \<le> 70)"

definition isHexString :: "string \<Rightarrow> bool" where
  "isHexString s = list_all is_hex_char s"

definition traceparentTraceID :: "string \<Rightarrow> string" where
  "traceparentTraceID tp =
     (if tp = [] then []
      else let parts = split_on (CHR ''-'') tp
           in if length parts < 2 then []
              else let i = parts ! 1 in if length i \<noteq> 32 \<or> \<not> isHexString i then [] else i)"

definition correlationID :: "strmap \<Rightarrow> string" where
  "correlationID headers =
     (if headers = [] then []
      else let i = traceparentTraceID (map_get headers ''traceparent'')
           in if i \<noteq> [] then i
              else if map_get headers ''x-request-id'' \<noteq> [] then map_get headers ''x-request-id''
              else map_get headers ''x-correlation-id'')"

subsection \<open>Completing responses\<close>

definition emitPair :: "flow_cfg \<Rightarrow> time \<Rightarrow> string \<Rightarrow> pendingReq \<Rightarrow> Payload \<Rightarrow> int \<Rightarrow> string \<Rightarrow> time option \<Rightarrow> pipeline \<Rightarrow> pipeline" where
  "emitPair cfg now key pr resp statusCode status firstByte P =
     (let resp' = (case (pl_HTTP resp, firstByte) of
             (Some h, Some fb) \<Rightarrow> resp\<lparr>pl_HTTP := Some (h\<lparr>http_TTFBMs := milliseconds (fb - pr_ts pr)\<rparr>)\<rparr>
           | _ \<Rightarrow> resp);
          n = ft_seq (p_table P) + 1;
          e = zero_Entry\<lparr>e_ID := cfg_node cfg @ ''-'' @ format_nat 36 n, e_Protocol := pr_protocol pr,
                e_Timestamp := pr_ts pr, e_ElapsedMs := milliseconds (now - pr_ts pr), e_Node := cfg_node cfg,
                e_NodeIP := cfg_nodeIP cfg, e_Source := pr_src pr, e_Destination := pr_dst pr, e_Request := pr_req pr,
                e_Response := resp', e_StatusCode := statusCode, e_Status := status,
                e_TraceID := correlationID (pl_Headers (pr_req pr)), e_L4 := snapshotL4 key (p_table P)\<rparr>
      in P\<lparr>p_table := (p_table P)\<lparr>ft_seq := n, ft_out := ft_out (p_table P) @ [e]\<rparr>\<rparr>)"

text \<open>What a critical section of \<open>completeResponse\<close> finds: the request it goes on to report, the reserved request it
  left its response on, or none and whether to wait for one.\<close>

datatype attempt = Paired nat | Parked nat | Nothing bool

definition complete_try :: "string \<Rightarrow> Payload \<Rightarrow> int \<Rightarrow> string \<Rightarrow> time option \<Rightarrow> pipeline \<Rightarrow> attempt \<times> pipeline" where
  "complete_try key resp statusCode status firstByte P =
     (case queue key P of
        a # q \<Rightarrow>
          (let P1 = P\<lparr>p_conns := AList.update key q (p_conns P)\<rparr>; pr = p_cells P ! a
           in if \<not> pr_filled pr
              then (Parked a, P1\<lparr>p_cells := (p_cells P)[a := pr\<lparr>pr_resp :=
                      Some \<lparr>ps_payload = resp, ps_statusCode = statusCode, ps_status = status, ps_firstByte = firstByte\<rparr>\<rparr>]\<rparr>)
              else (Paired a, P1))
      | [] \<Rightarrow> (Nothing (af_count key P = 0), P))"

definition completeResponsePairRetries :: nat where "completeResponsePairRetries = 4"

text \<open>\<open>others\<close> lists what happens to the state during each sleep.\<close>

fun complete_loop :: "nat \<Rightarrow> (pipeline \<Rightarrow> pipeline) list \<Rightarrow> string \<Rightarrow> Payload \<Rightarrow> int \<Rightarrow> string \<Rightarrow> time option \<Rightarrow> pipeline
    \<Rightarrow> attempt \<times> pipeline" where
  "complete_loop tries others key resp code status fb P =
     (case complete_try key resp code status fb P of
        (Nothing wait, P1) \<Rightarrow>
          (case tries of
             0 \<Rightarrow> (Nothing wait, P1)
           | Suc n \<Rightarrow>
               if \<not> wait then (Nothing wait, P1)
               else (case others of
                       [] \<Rightarrow> complete_loop n [] key resp code status fb P1
                     | g # gs \<Rightarrow> complete_loop n gs key resp code status fb (g P1)))
      | r \<Rightarrow> r)"

declare complete_loop.simps [simp del]

definition completeResponse :: "flow_cfg \<Rightarrow> time \<Rightarrow> (pipeline \<Rightarrow> pipeline) list \<Rightarrow> string \<Rightarrow> Payload \<Rightarrow> int \<Rightarrow> string \<Rightarrow> time option
    \<Rightarrow> pipeline \<Rightarrow> pipeline" where
  "completeResponse cfg now others key resp code status fb P =
     (case complete_loop completeResponsePairRetries others key resp code status fb P of
        (Paired a, P1) \<Rightarrow> emitPair cfg now key (p_cells P1 ! a) resp code status fb P1
      | (_, P1) \<Rightarrow> P1)"

subsection \<open>Reaping\<close>

text \<open>The prune of \<open>gc\<close> on \<open>p.conns\<close>: the scan, and what a visit to a key does.\<close>

definition gc_stale :: "time \<Rightarrow> pipeline \<Rightarrow> string list" where
  "gc_stale cutoff P = map fst (filter (\<lambda>(k, q). q = [] \<or> pr_ts (p_cells P ! hd q) < cutoff) (p_conns P))"

definition gc_visit :: "time \<Rightarrow> string \<Rightarrow> pipeline \<Rightarrow> pipeline" where
  "gc_visit cutoff k P =
     (case map_of (p_conns P) k of None \<Rightarrow> P
      | Some q \<Rightarrow> (let kept = filter (\<lambda>a. \<not> pr_ts (p_cells P ! a) < cutoff) q
                    in if kept = [] then P\<lparr>p_conns := AList.delete k (p_conns P)\<rparr>
                       else P\<lparr>p_conns := AList.update k kept (p_conns P)\<rparr>))"

definition gc_conns :: "time \<Rightarrow> pipeline \<Rightarrow> pipeline" where
  "gc_conns now P = (let cutoff = now - 30000000000 in fold (gc_visit cutoff) (gc_stale cutoff P) P)"

subsection \<open>Interleaved runs\<close>

text \<open>
  Every order of the critical sections of the request and response goroutines, the reaper and the capture loop.  The
  log holds the requests in the order of their cells, each as its producer handed it in (with the body it was
  filled in with); the responses that took a request, with the address the critical section returned; the
  pairs a goroutine has in hand, from a response that found a complete request or from the fill of a request
  whose response was parked; and the pairs emitted, with the entries the emission added to the output.
\<close>

type_synonym take_log = "string \<times> nat \<times> pendingResp"

record pair_log =
  lg_reqs :: "(string \<times> pendingReq) list"
  lg_taken :: "take_log list"
  lg_held :: "take_log list"
  lg_emitted :: "(take_log \<times> Entry list) list"

definition taken_of :: "string \<Rightarrow> pendingResp \<Rightarrow> attempt \<Rightarrow> take_log list" where
  "taken_of key s r = (case r of Paired a \<Rightarrow> [(key, a, s)] | Parked a \<Rightarrow> [(key, a, s)] | Nothing w \<Rightarrow> [])"

definition held_of :: "string \<Rightarrow> pendingResp \<Rightarrow> attempt \<Rightarrow> take_log list" where
  "held_of key s r = (case r of Paired a \<Rightarrow> [(key, a, s)] | _ \<Rightarrow> [])"

definition new_req :: "string \<Rightarrow> Payload \<Rightarrow> Endpoint \<Rightarrow> Endpoint \<Rightarrow> time \<Rightarrow> pendingReq" where
  "new_req proto req src dst now = \<lparr>pr_protocol = proto, pr_req = req, pr_src = src, pr_dst = dst, pr_ts = now, pr_filled = True, pr_resp = None\<rparr>"

inductive pair_run :: "(string list \<Rightarrow> string) \<Rightarrow> flow_cfg \<Rightarrow> pipeline \<Rightarrow> pair_log \<Rightarrow> bool" for pick cfg where
  start: "pair_run pick cfg newPipeline \<lparr>lg_reqs = [], lg_taken = [], lg_held = [], lg_emitted = []\<rparr>"
| request: "pair_run pick cfg P L \<Longrightarrow>
    pair_run pick cfg (enqueueRequestOnly pick cfg now key proto req src dst P)
      (L\<lparr>lg_reqs := lg_reqs L @ [(key, new_req proto req src dst now)]\<rparr>)"
| reserve: "pair_run pick cfg P L \<Longrightarrow>
    pair_run pick cfg (snd (reserveRequest pick cfg now key proto req src dst P))
      (L\<lparr>lg_reqs := lg_reqs L @ [(key, new_req proto req src dst now)]\<rparr>)"
| fill: "pair_run pick cfg P L \<Longrightarrow> addr < length (p_cells P) \<Longrightarrow> \<not> pr_filled (p_cells P ! addr) \<Longrightarrow>
    fillRequest addr b tc sz raw P = (parked, P') \<Longrightarrow> lg_reqs L ! addr = (key, r) \<Longrightarrow>
    pair_run pick cfg P' (L\<lparr>lg_reqs := (lg_reqs L)[addr := (key, r\<lparr>pr_req := (pr_req r)\<lparr>pl_Body := b, pl_Truncated := tc, pl_Size := sz, pl_Raw := raw\<rparr>\<rparr>)],
      lg_held := lg_held L @ (case parked of None \<Rightarrow> [] | Some s \<Rightarrow> [(key, addr, s)])\<rparr>)"
| attempt: "pair_run pick cfg P L \<Longrightarrow> complete_try key resp code status fb P = (r, P') \<Longrightarrow>
    s = \<lparr>ps_payload = resp, ps_statusCode = code, ps_status = status, ps_firstByte = fb\<rparr> \<Longrightarrow>
    pair_run pick cfg P' (L\<lparr>lg_taken := lg_taken L @ taken_of key s r, lg_held := lg_held L @ held_of key s r\<rparr>)"
| emit: "pair_run pick cfg P L \<Longrightarrow> lg_held L = hs @ (key, a, s) # hs' \<Longrightarrow>
    P' = emitPair cfg now key (p_cells P ! a) (ps_payload s) (ps_statusCode s) (ps_status s) (ps_firstByte s) P \<Longrightarrow>
    pair_run pick cfg P' (L\<lparr>lg_held := hs @ hs',
      lg_emitted := lg_emitted L @ [((key, a, s), drop (length (ft_out (p_table P))) (ft_out (p_table P')))]\<rparr>)"
| purge: "pair_run pick cfg P L \<Longrightarrow> pair_run pick cfg (purgePending key P) L"
| reap: "pair_run pick cfg P L \<Longrightarrow> pair_run pick cfg (gc_visit cutoff key P) L"
| add_af: "pair_run pick cfg P L \<Longrightarrow> pair_run pick cfg (addAFPacketStream key P) L"
| remove_af: "pair_run pick cfg P L \<Longrightarrow> pair_run pick cfg (removeAFPacketStream key P) L"
| tracking: "pair_run pick cfg P L \<Longrightarrow> pair_run pick cfg (P\<lparr>p_table := T\<rparr>) L"

subsection \<open>The queues\<close>

definition queues_ok :: "flow_cfg \<Rightarrow> pipeline \<Rightarrow> bool" where
  "queues_ok cfg P \<longleftrightarrow> map_ok (cfg_maxPending cfg) (p_conns P)
     \<and> (\<forall>k. sorted_wrt (<) (queue k P) \<and> length (queue k P) \<le> reqBacklogCap \<and> (\<forall>a \<in> set (queue k P). a < length (p_cells P)))
     \<and> (\<forall>k k'. k \<noteq> k' \<longrightarrow> set (queue k P) \<inter> set (queue k' P) = {})"

definition trace_ok :: "pipeline \<Rightarrow> (string \<times> nat) list \<Rightarrow> bool" where
  "trace_ok P tr \<longleftrightarrow> distinct (map snd tr)
     \<and> (\<forall>(k, a) \<in> set tr. a < length (p_cells P) \<and> (\<forall>b \<in> set (queue k P). a < b) \<and> (\<forall>k'. a \<notin> set (queue k' P)))
     \<and> (\<forall>k. sorted_wrt (<) (map snd (filter (\<lambda>x. fst x = k) tr)))"

text \<open>An operation that only takes addresses out of queues keeps both.\<close>

definition thins :: "pipeline \<Rightarrow> pipeline \<Rightarrow> bool" where
  "thins P P' \<longleftrightarrow> length (p_cells P') = length (p_cells P) \<and> (\<forall>k. subseq (queue k P') (queue k P))"

lemma subseq_subset: "subseq xs ys \<Longrightarrow> set xs \<subseteq> set ys"
  by (induction rule: list_emb.induct) auto

lemma subseq_sorted: "subseq xs ys \<Longrightarrow> sorted_wrt (<) ys \<Longrightarrow> sorted_wrt (<) (xs :: nat list)"
proof (induction rule: list_emb.induct)
  case (list_emb_Cons2 x y xs ys)
  then show ?case using subseq_subset [OF list_emb_Cons2(2)] by auto
qed auto

lemma thinsD:
  assumes "thins P P'"
  shows "length (p_cells P') = length (p_cells P)" "subseq (queue k P') (queue k P)" "set (queue k P') \<subseteq> set (queue k P)"
  using assms subseq_subset by (auto simp: thins_def)

lemma thins_queues:
  assumes "thins P P'" "queues_ok cfg P" "map_ok (cfg_maxPending cfg) (p_conns P')"
  shows "queues_ok cfg P'"
proof -
  note thin = thinsD [OF assms(1)]
  have "sorted_wrt (<) (queue k P')" for k using subseq_sorted [OF thin(2)] assms(2) by (simp add: queues_ok_def)
  moreover have "length (queue k P') \<le> reqBacklogCap" for k
    using list_emb_length [OF thin(2) [of k]] assms(2) unfolding queues_ok_def by (meson order_trans)
  moreover have "\<forall>a \<in> set (queue k P'). a < length (p_cells P')" for k
    using assms(2) thin(1) thin(3) [of k] unfolding queues_ok_def by auto
  moreover have "k \<noteq> k' \<Longrightarrow> set (queue k P') \<inter> set (queue k' P') = {}" for k k'
    using assms(2) thin(3) [of k] thin(3) [of k'] unfolding queues_ok_def by blast
  ultimately show ?thesis using assms(3) by (simp add: queues_ok_def)
qed

lemma trace_okD:
  assumes "trace_ok P tr" "(k, a) \<in> set tr"
  shows "a < length (p_cells P)" "b \<in> set (queue k P) \<Longrightarrow> a < b" "a \<notin> set (queue k' P)"
proof -
  have "case (k, a) of (k, a) \<Rightarrow> a < length (p_cells P) \<and> (\<forall>b \<in> set (queue k P). a < b) \<and> (\<forall>k'. a \<notin> set (queue k' P))"
    using assms unfolding trace_ok_def by (elim conjE) (erule bspec)
  then show "a < length (p_cells P)" "b \<in> set (queue k P) \<Longrightarrow> a < b" "a \<notin> set (queue k' P)" by simp_all
qed

lemma trace_okI:
  assumes "distinct (map snd tr)" "\<And>k. sorted_wrt (<) (map snd (filter (\<lambda>x. fst x = k) tr))"
    "\<And>k a. (k, a) \<in> set tr \<Longrightarrow> a < length (p_cells P)" "\<And>k a b. (k, a) \<in> set tr \<Longrightarrow> b \<in> set (queue k P) \<Longrightarrow> a < b"
    "\<And>k a k'. (k, a) \<in> set tr \<Longrightarrow> a \<notin> set (queue k' P)"
  shows "trace_ok P tr"
  unfolding trace_ok_def using assms by auto

lemma trace_ok_lists:
  "trace_ok P tr \<Longrightarrow> distinct (map snd tr)" "trace_ok P tr \<Longrightarrow> sorted_wrt (<) (map snd (filter (\<lambda>x. fst x = k) tr))"
  by (simp_all add: trace_ok_def)

lemma thins_trace:
  assumes "thins P P'" "trace_ok P tr"
  shows "trace_ok P' tr"
proof -
  note thin = thinsD [OF assms(1)]
  show ?thesis
  proof (rule trace_okI)
    fix k a b assume ka: "(k, a) \<in> set tr"
    show "a < length (p_cells P')" using trace_okD(1) [OF assms(2) ka] thin(1) by simp
    show "a < b" if "b \<in> set (queue k P')" using trace_okD(2) [OF assms(2) ka subsetD [OF thin(3) that]] .
    show "a \<notin> set (queue k' P')" for k' using trace_okD(3) [OF assms(2) ka] subsetD [OF thin(3)] by blast
  qed (simp_all add: trace_ok_lists [OF assms(2)])
qed

lemma queue_present: "queue key P \<noteq> [] \<Longrightarrow> \<exists>q. map_of (p_conns P) key = Some q"
  by (auto simp: queue_def split: option.splits)

lemma thins_same: "p_conns P' = p_conns P \<Longrightarrow> length (p_cells P') = length (p_cells P) \<Longrightarrow> thins P P'"
  by (simp add: thins_def queue_def)

lemma fill_same: "p_conns (snd (fillRequest addr b tc sz raw P)) = p_conns P"
  "length (p_cells (snd (fillRequest addr b tc sz raw P))) = length (p_cells P)"
  by (simp_all add: fillRequest_def Let_def)

lemma queue_purged: "queue k (purgePending key P) = (if k = key then [] else queue k P)"
  by (simp add: purgePending_def queue_def AList.delete_conv')

lemma purge_thins: "thins P (purgePending key P)" "map_ok n (p_conns P) \<Longrightarrow> map_ok n (p_conns (purgePending key P))"
  by (simp_all add: thins_def queue_purged, simp_all add: purgePending_def delete_map_ok)

lemma queue_reaped:
  "queue k (gc_visit cutoff key P) = (if k = key then filter (\<lambda>a. \<not> pr_ts (p_cells P ! a) < cutoff) (queue k P) else queue k P)"
  by (auto simp: gc_visit_def queue_def Let_def AList.delete_conv' AList.update_conv' split: option.splits)

lemma reap_thins: "thins P (gc_visit cutoff key P)" "map_ok n (p_conns P) \<Longrightarrow> map_ok n (p_conns (gc_visit cutoff key P))"
proof -
  have "p_cells (gc_visit cutoff key P) = p_cells P" by (simp add: gc_visit_def Let_def split: option.splits)
  then show "thins P (gc_visit cutoff key P)" by (simp add: thins_def queue_reaped)
  show "map_ok n (p_conns (gc_visit cutoff key P))" if "map_ok n (p_conns P)"
    using that by (auto simp: gc_visit_def Let_def delete_map_ok update_present_ok split: option.splits)
qed


text \<open>A new request goes behind everything.\<close>

lemma push_subseq: "subseq (push_pending q a) (q @ [a])"
  by (auto simp: push_pending_def Let_def intro: suffix_imp_subseq suffix_tl)

lemma push_length: "length q \<le> reqBacklogCap \<Longrightarrow> length (push_pending q a) \<le> reqBacklogCap"
  by (simp add: push_pending_def Let_def)

lemma append_cases:
  "queue k (appendPending pick cfg key pr P) = []
   \<or> queue k (appendPending pick cfg key pr P) = (if k = key then push_pending (queue key P) (length (p_cells P)) else queue k P)"
  using evict_lookup [of pick "cfg_maxPending cfg" "AList.update key (push_pending (queue key P) (length (p_cells P))) (p_conns P)" k]
  by (auto simp: appendPending_def Let_def queue_def AList.update_conv' split: option.splits)

lemma append_cells: "length (p_cells (appendPending pick cfg key pr P)) = Suc (length (p_cells P))"
  by (simp add: appendPending_def Let_def)

lemma append_subseq:
  "subseq (queue k (appendPending pick cfg key pr P)) (queue k P @ (if k = key then [length (p_cells P)] else []))"
  using append_cases [of k pick cfg key pr P] push_subseq by auto

lemma append_map_ok:
  assumes "picks_key pick" "map_ok (cfg_maxPending cfg) (p_conns P)"
  shows "map_ok (cfg_maxPending cfg) (p_conns (appendPending pick cfg key pr P))"
  unfolding appendPending_def Let_def
  using assms by (simp, intro evict_map_ok) (simp_all add: map_ok_def AList.distinct_update length_update_key)

lemma append_length:
  "(\<And>k. length (queue k P) \<le> reqBacklogCap) \<Longrightarrow> length (queue k (appendPending pick cfg key pr P)) \<le> reqBacklogCap"
  using append_cases [of k pick cfg key pr P] push_length by auto

lemma append_queues:
  assumes "picks_key pick" "queues_ok cfg P"
  shows "queues_ok cfg (appendPending pick cfg key pr P)"
proof -
  let ?P = "appendPending pick cfg key pr P"
  note app = append_subseq [of _ pick cfg key pr P]
  have new: "length (p_cells P) \<notin> set (queue k P)" for k using assms(2) by (auto simp: queues_ok_def)
  have sub: "set (queue k ?P) \<subseteq> set (queue k P) \<union> (if k = key then {length (p_cells P)} else {})" for k
    using subseq_subset [OF app [of k]] by (auto split: if_splits)
  have "sorted_wrt (<) (queue k P @ (if k = key then [length (p_cells P)] else []))" for k
    using assms(2) by (auto simp: queues_ok_def sorted_wrt_append)
  then have "sorted_wrt (<) (queue k ?P)" for k using subseq_sorted [OF app] by blast
  moreover have "\<forall>a \<in> set (queue k ?P). a < length (p_cells ?P)" for k
    using sub [of k] assms(2) append_cells [of pick cfg key pr P] by (fastforce simp: queues_ok_def split: if_splits)
  moreover have "k \<noteq> k' \<Longrightarrow> set (queue k ?P) \<inter> set (queue k' ?P) = {}" for k k'
  proof -
    assume ne: "k \<noteq> k'"
    then have "set (queue k P) \<inter> set (queue k' P) = {}" using assms(2) by (simp add: queues_ok_def)
    then show ?thesis
      using sub [of k] sub [of k'] new [of k] new [of k'] ne by (cases "k = key"; cases "k' = key") (simp_all, blast+)
  qed
  ultimately show ?thesis
    using append_map_ok [OF assms(1)] append_length assms(2) by (simp add: queues_ok_def)
qed

lemma append_trace:
  assumes "queues_ok cfg P" "trace_ok P tr"
  shows "trace_ok (appendPending pick cfg key pr P) tr"
proof (rule trace_okI)
  fix k a assume ka: "(k, a) \<in> set tr"
  have sub: "set (queue k (appendPending pick cfg key pr P)) \<subseteq> set (queue k P) \<union> {length (p_cells P)}" for k
    using subseq_subset [OF append_subseq [of k pick cfg key pr P]] by (auto split: if_splits)
  have a: "a < length (p_cells P)" by (rule trace_okD(1) [OF assms(2) ka])
  then show "a < length (p_cells (appendPending pick cfg key pr P))" by (simp add: append_cells)
  show "a < b" if "b \<in> set (queue k (appendPending pick cfg key pr P))" for b
    using subsetD [OF sub that] trace_okD(2) [OF assms(2) ka] a by auto
  show "a \<notin> set (queue k' (appendPending pick cfg key pr P))" for k'
    using sub [of k'] trace_okD(3) [OF assms(2) ka] a by auto
qed (simp_all add: trace_ok_lists [OF assms(2)])

lemma try_queue:
  "complete_try key resp code status fb P = (r, P') \<Longrightarrow> queue k P' = (if k = key then tl (queue k P) else queue k P)"
  "complete_try key resp code status fb P = (r, P') \<Longrightarrow> length (p_cells P') = length (p_cells P)"
  "complete_try key resp code status fb P = (r, P') \<Longrightarrow> map_ok n (p_conns P) \<Longrightarrow> map_ok n (p_conns P')"
proof -
  assume t: "complete_try key resp code status fb P = (r, P')"
  have conns: "p_conns P' = (case queue key P of [] \<Rightarrow> p_conns P | a # q \<Rightarrow> AList.update key q (p_conns P))"
    using t by (auto simp: complete_try_def Let_def split: list.splits if_splits)
  show "length (p_cells P') = length (p_cells P)"
    using t by (auto simp: complete_try_def Let_def split: list.splits if_splits)
  show "queue k P' = (if k = key then tl (queue k P) else queue k P)"
  proof (cases "queue key P")
    case Nil
    then show ?thesis using conns by (auto simp: queue_def)
  next
    case (Cons a q)
    then show ?thesis using conns by (auto simp: queue_def [of _ P'] AList.update_conv') (simp add: queue_def)
  qed
  show "map_ok n (p_conns P')" if "map_ok n (p_conns P)"
  proof (cases "queue key P")
    case (Cons a q)
    then obtain q0 where "map_of (p_conns P) key = Some q0" using queue_present [of key P] by auto
    then show ?thesis using conns that Cons by (simp add: update_present_ok)
  qed (use conns that in simp)
qed

lemma try_result:
  assumes "complete_try key resp code status fb P = (r, P')"
  shows "queue key P = [] \<Longrightarrow> P' = P \<and> r = Nothing (af_count key P = 0)"
    "queue key P = a # q \<Longrightarrow> pr_filled (p_cells P ! a) \<Longrightarrow> r = Paired a \<and> p_cells P' = p_cells P"
    "queue key P = a # q \<Longrightarrow> \<not> pr_filled (p_cells P ! a) \<Longrightarrow> r = Parked a \<and> p_cells P' = (p_cells P)[a := (p_cells P ! a)\<lparr>pr_resp :=
       Some \<lparr>ps_payload = resp, ps_statusCode = code, ps_status = status, ps_firstByte = fb\<rparr>\<rparr>]"
    "p_table P' = p_table P"
  using assms by (auto simp: complete_try_def Let_def split: list.splits if_splits)

lemma try_takes:
  assumes "complete_try key resp code status fb P = (r, P')"
  shows "map (\<lambda>(k, a, s). (k, a)) (taken_of key s r) = (case queue key P of [] \<Rightarrow> [] | a # _ \<Rightarrow> [(key, a)])"
proof (cases "queue key P")
  case Nil
  then show ?thesis using try_result(1) [OF assms] by (simp add: taken_of_def)
next
  case (Cons a q)
  then show ?thesis using try_result(2, 3) [OF assms Cons] by (cases "pr_filled (p_cells P ! a)") (simp_all add: taken_of_def)
qed

lemma try_trace:
  assumes "queues_ok cfg P" "trace_ok P tr" "complete_try key resp code status fb P = (r, P')"
  shows "trace_ok P' (tr @ (case queue key P of [] \<Rightarrow> [] | a # _ \<Rightarrow> [(key, a)]))"
proof -
  note tq = try_queue(1) [OF assms(3)]
  have thin: "thins P P'" by (simp add: thins_def tq try_queue(2) [OF assms(3)] suffix_imp_subseq suffix_tl)
  note old = thins_trace [OF thin assms(2)]
  show ?thesis
  proof (cases "queue key P")
    case Nil
    then show ?thesis using old by simp
  next
    case (Cons a q)
    then have srt: "sorted_wrt (<) (a # q)" and a: "a < length (p_cells P)" using assms(1) by (auto simp: queues_ok_def dest: spec [of _ key])
    have elsewhere: "a \<notin> set (queue k' P')" for k'
    proof (cases "k' = key")
      case True
      then show ?thesis using srt by (simp add: tq Cons) (metis less_irrefl)
    next
      case False
      then have "set (queue k' P) \<inter> set (queue key P) = {}" using assms(1) by (simp add: queues_ok_def)
      then show ?thesis using False by (simp add: tq Cons)
    qed
    have fresh: "a \<notin> set (map snd tr)" using trace_okD(3) [OF assms(2), of _ a key] Cons by auto
    have below: "b < a" if "(key, b) \<in> set tr" for b using trace_okD(2) [OF assms(2) that, of a] Cons by simp
    have "trace_ok P' (tr @ [(key, a)])"
    proof (rule trace_okI)
      show "distinct (map snd (tr @ [(key, a)]))" using trace_ok_lists(1) [OF assms(2)] fresh by simp
      show "sorted_wrt (<) (map snd (filter (\<lambda>x. fst x = k) (tr @ [(key, a)])))" for k
        using trace_ok_lists(2) [OF assms(2), of k] below by (auto simp: sorted_wrt_append)
      fix k b assume kb: "(k, b) \<in> set (tr @ [(key, a)])"
      show "b < length (p_cells P')" using kb trace_okD(1) [OF old] a try_queue(2) [OF assms(3)] by auto
      show "b < d" if "d \<in> set (queue k P')" for d
        using kb trace_okD(2) [OF old] that srt Cons tq [of key] by auto
      show "b \<notin> set (queue k' P')" for k' using kb trace_okD(3) [OF old] elsewhere by auto
    qed
    then show ?thesis by (simp add: Cons)
  qed
qed

lemma try_queues:
  assumes "queues_ok cfg P" "complete_try key resp code status fb P = (r, P')"
  shows "queues_ok cfg P'"
proof (rule thins_queues [OF _ assms(1)])
  show "thins P P'" by (simp add: thins_def try_queue [OF assms(2)] suffix_imp_subseq suffix_tl)
  show "map_ok (cfg_maxPending cfg) (p_conns P')"
    using try_queue(3) [OF assms(2)] assms(1) by (simp add: queues_ok_def)
qed

lemma same_state:
  "queues_ok cfg (P\<lparr>p_afPacketStreams := a\<rparr>) = queues_ok cfg P" "trace_ok (P\<lparr>p_afPacketStreams := a\<rparr>) tr = trace_ok P tr"
  "queues_ok cfg (P\<lparr>p_table := T\<rparr>) = queues_ok cfg P" "trace_ok (P\<lparr>p_table := T\<rparr>) tr = trace_ok P tr"
  by (simp_all add: queues_ok_def trace_ok_def queue_def)

abbreviation taken_keys :: "pair_log \<Rightarrow> (string \<times> nat) list" where
  "taken_keys L \<equiv> map (\<lambda>(k, a, s). (k, a)) (lg_taken L)"

lemma append_rules:
  "enqueueRequestOnly pick cfg now key proto req src dst P = appendPending pick cfg key (new_req proto req src dst now) P"
  "snd (reserveRequest pick cfg now key proto req src dst P) = appendPending pick cfg key ((new_req proto req src dst now)\<lparr>pr_filled := False\<rparr>) P"
  by (simp_all add: enqueueRequestOnly_def reserveRequest_def new_req_def)

lemma pair_run_ok:
  assumes "pair_run pick cfg P L" "picks_key pick"
  shows "queues_ok cfg P \<and> trace_ok P (taken_keys L)"
  using assms
proof (induction rule: pair_run.induct)
  case start
  then show ?case by (simp add: newPipeline_def queues_ok_def trace_ok_def queue_def map_ok_def)
next
  case (request P L now key proto req src dst)
  then show ?case by (simp add: append_rules append_queues append_trace)
next
  case (reserve P L now key proto req src dst)
  then show ?case by (simp add: append_rules append_queues append_trace)
next
  case (attempt P L key resp code status fb r P' s)
  then show ?case using try_queues [OF _ attempt(2)] try_trace [OF _ _ attempt(2), of cfg "taken_keys L"] by (simp add: try_takes [OF attempt(2)])
next
  case (fill P L addr b tc sz raw parked P' key r)
  have P': "P' = snd (fillRequest addr b tc sz raw P)" using fill(4) by simp
  have "thins P P'" unfolding P' by (rule thins_same) (simp_all add: fill_same)
  moreover have "map_ok (cfg_maxPending cfg) (p_conns P')"
    using fill unfolding P' by (simp add: fill_same queues_ok_def)
  ultimately show ?case using fill.IH fill.prems thins_queues thins_trace by simp
next
  case (purge P L key)
  have "map_ok (cfg_maxPending cfg) (p_conns P)" using purge by (simp add: queues_ok_def)
  then show ?case using purge thins_queues [OF purge_thins(1) _ purge_thins(2)] thins_trace [OF purge_thins(1)] by blast
next
  case (reap P L cutoff key)
  have "map_ok (cfg_maxPending cfg) (p_conns P)" using reap by (simp add: queues_ok_def)
  then show ?case using reap thins_queues [OF reap_thins(1) _ reap_thins(2)] thins_trace [OF reap_thins(1)] by blast
qed (simp_all add: same_state addAFPacketStream_def removeAFPacketStream_def emitPair_def Let_def)

subsection \<open>What is reported\<close>

text \<open>A request and a response up to what the pairing itself adds to them: the depth of a Redis pipeline and the time to
  the first byte of an HTTP response.\<close>

definition no_depth :: "Payload \<Rightarrow> Payload" where
  "no_depth p = p\<lparr>pl_Redis := map_option (\<lambda>r. r\<lparr>redis_PipelineDepth := 0\<rparr>) (pl_Redis p)\<rparr>"

definition no_ttfb :: "Payload \<Rightarrow> Payload" where
  "no_ttfb p = p\<lparr>pl_HTTP := map_option (\<lambda>h. h\<lparr>http_TTFBMs := 0\<rparr>) (pl_HTTP p)\<rparr>"

text \<open>One entry that reports this request with this response.\<close>

definition reports_pair :: "pendingReq \<Rightarrow> pendingResp \<Rightarrow> Entry list \<Rightarrow> bool" where
  "reports_pair r s es \<longleftrightarrow> (case es of [e] \<Rightarrow>
       e_Protocol e = pr_protocol r \<and> e_Source e = pr_src r \<and> e_Destination e = pr_dst r \<and> e_Timestamp e = pr_ts r
       \<and> no_depth (e_Request e) = no_depth (pr_req r) \<and> no_ttfb (e_Response e) = no_ttfb (ps_payload s)
       \<and> e_StatusCode e = ps_statusCode s \<and> e_Status e = ps_status s
     | _ \<Rightarrow> False)"

definition same_request :: "pendingReq \<Rightarrow> pendingReq \<Rightarrow> bool" where
  "same_request c r \<longleftrightarrow> pr_protocol c = pr_protocol r \<and> pr_src c = pr_src r \<and> pr_dst c = pr_dst r \<and> pr_ts c = pr_ts r
     \<and> no_depth (pr_req c) = no_depth (pr_req r)"

text \<open>A response waits on a request that has not been filled in.\<close>

definition parked_on :: "pipeline \<Rightarrow> nat \<Rightarrow> pendingResp \<Rightarrow> bool" where
  "parked_on P a s \<longleftrightarrow> a < length (p_cells P) \<and> \<not> pr_filled (p_cells P ! a) \<and> pr_resp (p_cells P ! a) = Some s"

abbreviation in_hand :: "pair_log \<Rightarrow> take_log list" where
  "in_hand L \<equiv> map fst (lg_emitted L) @ lg_held L"

definition log_ok :: "pipeline \<Rightarrow> pair_log \<Rightarrow> bool" where
  "log_ok P L \<longleftrightarrow> length (lg_reqs L) = length (p_cells P)
     \<and> (\<forall>a < length (p_cells P). same_request (p_cells P ! a) (snd (lg_reqs L ! a)))
     \<and> (\<forall>k. \<forall>a \<in> set (queue k P). fst (lg_reqs L ! a) = k \<and> pr_resp (p_cells P ! a) = None)
     \<and> (\<forall>(k, a, s) \<in> set (lg_taken L). fst (lg_reqs L ! a) = k)
     \<and> (\<forall>(k, a, s) \<in> set (in_hand L). a < length (p_cells P) \<and> pr_filled (p_cells P ! a))
     \<and> distinct (map (fst \<circ> snd) (in_hand L))
     \<and> (\<forall>k a s. (k, a, s) \<in> set (lg_taken L) \<longleftrightarrow> (k, a, s) \<in> set (in_hand L) \<or> parked_on P a s \<and> fst (lg_reqs L ! a) = k)
     \<and> (\<forall>((k, a, s), es) \<in> set (lg_emitted L). reports_pair (snd (lg_reqs L ! a)) s es)"

lemma depth_irrelevant: "no_depth (pr_req (with_depth d pr)) = no_depth (pr_req pr)"
  "pr_protocol (with_depth d pr) = pr_protocol pr" "pr_src (with_depth d pr) = pr_src pr" "pr_dst (with_depth d pr) = pr_dst pr"
  "pr_ts (with_depth d pr) = pr_ts pr" "pr_resp (with_depth d pr) = pr_resp pr" "pr_filled (with_depth d pr) = pr_filled pr"
  by (simp_all add: with_depth_def no_depth_def split: option.splits)

lemma emit_reports:
  assumes "same_request c r"
  shows "reports_pair r s (drop (length (ft_out (p_table P)))
    (ft_out (p_table (emitPair cfg now key c (ps_payload s) (ps_statusCode s) (ps_status s) (ps_firstByte s) P))))"
proof -
  have "no_ttfb (case (pl_HTTP p, t) of (Some h, Some fb) \<Rightarrow> p\<lparr>pl_HTTP := Some (h\<lparr>http_TTFBMs := g fb\<rparr>)\<rparr> | _ \<Rightarrow> p) = no_ttfb p"
    for p :: Payload and t :: "time option" and g
    by (simp add: no_ttfb_def split: option.splits)
  then show ?thesis using assms by (simp add: reports_pair_def emitPair_def Let_def same_request_def zero_Entry_def)
qed

lemma log_okD:
  assumes "log_ok P L"
  shows "length (lg_reqs L) = length (p_cells P)" "a < length (p_cells P) \<Longrightarrow> same_request (p_cells P ! a) (snd (lg_reqs L ! a))"
    "a \<in> set (queue k P) \<Longrightarrow> fst (lg_reqs L ! a) = k \<and> pr_resp (p_cells P ! a) = None"
    "(k, a, s) \<in> set (lg_taken L) \<Longrightarrow> fst (lg_reqs L ! a) = k"
    "(k, a, s) \<in> set (in_hand L) \<Longrightarrow> a < length (p_cells P) \<and> pr_filled (p_cells P ! a)"
    "distinct (map (fst \<circ> snd) (in_hand L))"
    "(k, a, s) \<in> set (lg_taken L) \<longleftrightarrow> (k, a, s) \<in> set (in_hand L) \<or> parked_on P a s \<and> fst (lg_reqs L ! a) = k"
    "((k, a, s), es) \<in> set (lg_emitted L) \<Longrightarrow> reports_pair (snd (lg_reqs L ! a)) s es"
  using assms unfolding log_ok_def by blast+

text \<open>An operation that leaves the cells alone and adds nothing to a queue keeps the log.\<close>

lemma log_thins:
  assumes "log_ok P L" "p_cells P' = p_cells P" "\<And>k. set (queue k P') \<subseteq> set (queue k P)"
  shows "log_ok P' L"
  using assms(1) subsetD [OF assms(3)] unfolding log_ok_def parked_on_def assms(2) by blast

lemma log_okI:
  assumes "length (lg_reqs L) = length (p_cells P)"
    "\<And>a. a < length (p_cells P) \<Longrightarrow> same_request (p_cells P ! a) (snd (lg_reqs L ! a))"
    "\<And>k a. a \<in> set (queue k P) \<Longrightarrow> fst (lg_reqs L ! a) = k" "\<And>k a. a \<in> set (queue k P) \<Longrightarrow> pr_resp (p_cells P ! a) = None"
    "\<And>k a s. (k, a, s) \<in> set (lg_taken L) \<Longrightarrow> fst (lg_reqs L ! a) = k"
    "\<And>k a s. (k, a, s) \<in> set (in_hand L) \<Longrightarrow> a < length (p_cells P) \<and> pr_filled (p_cells P ! a)"
    "distinct (map (fst \<circ> snd) (in_hand L))"
    "\<And>k a s. (k, a, s) \<in> set (lg_taken L) \<longleftrightarrow> (k, a, s) \<in> set (in_hand L) \<or> parked_on P a s \<and> fst (lg_reqs L ! a) = k"
    "\<And>k a s es. ((k, a, s), es) \<in> set (lg_emitted L) \<Longrightarrow> reports_pair (snd (lg_reqs L ! a)) s es"
  shows "log_ok P L"
  unfolding log_ok_def using assms by blast

lemma emitted_in_hand: "((k, a, s), es) \<in> set (lg_emitted L) \<Longrightarrow> (k, a, s) \<in> set (in_hand L)"
  by force

lemma log_append:
  assumes "log_ok P L" "queues_ok cfg P" "trace_ok P (taken_keys L)" "pr_resp pr = None" "same_request pr r"
  shows "log_ok (appendPending pick cfg key pr P) (L\<lparr>lg_reqs := lg_reqs L @ [(key, r)]\<rparr>)" (is "log_ok ?P ?L")
proof -
  let ?n = "length (p_cells P)"
  note len = log_okD(1) [OF assms(1)]
  have cells: "p_cells ?P = p_cells P @ [with_depth (length (queue key P)) pr]" by (simp add: appendPending_def Let_def)
  have below: "a \<in> set (queue k P) \<Longrightarrow> a < ?n" for k a using assms(2) by (simp add: queues_ok_def)
  have sub: "set (queue k ?P) \<subseteq> set (queue k P) \<union> (if k = key then {?n} else {})" for k
    using subseq_subset [OF append_subseq [of k pick cfg key pr P]] by (auto split: if_splits)
  have tk: "(k, a, s) \<in> set (lg_taken L) \<Longrightarrow> a < ?n" for k a s
    using trace_okD(1) [OF assms(3), of k a] by force
  have q: "fst ((lg_reqs L @ [(key, r)]) ! a) = k \<and> pr_resp (p_cells ?P ! a) = None" if a: "a \<in> set (queue k ?P)" for k a
  proof -
    consider "a \<in> set (queue k P)" | "a = ?n" "k = key" using sub [of k] a by (auto split: if_splits)
    then show ?thesis
    proof cases
      case 1
      then show ?thesis using log_okD(3) [OF assms(1) 1] below [OF 1] by (simp add: cells nth_append len)
    qed (simp add: cells nth_append len depth_irrelevant assms(4))
  qed
  have park: "parked_on ?P a s \<and> fst ((lg_reqs L @ [(key, r)]) ! a) = k \<longleftrightarrow> parked_on P a s \<and> fst (lg_reqs L ! a) = k" for a s k
    by (auto simp: parked_on_def cells nth_append less_Suc_eq depth_irrelevant assms(4) len)
  show ?thesis
  proof (rule log_okI)
    show "same_request (p_cells ?P ! a) (snd (lg_reqs ?L ! a))" if "a < length (p_cells ?P)" for a
      using that log_okD(2) [OF assms(1), of a] assms(5)
      by (cases "a = ?n") (simp_all add: cells nth_append len same_request_def depth_irrelevant)
    show "fst (lg_reqs ?L ! a) = k" if "(k, a, s) \<in> set (lg_taken ?L)" for k a s
      using log_okD(4) [OF assms(1), of k a s] tk [of k a s] that by (simp add: nth_append len)
    show "a < length (p_cells ?P) \<and> pr_filled (p_cells ?P ! a)" if "(k, a, s) \<in> set (in_hand ?L)" for k a s
      using log_okD(5) [OF assms(1), of k a s] that by (simp add: cells nth_append)
    show "(k, a, s) \<in> set (lg_taken ?L) \<longleftrightarrow> (k, a, s) \<in> set (in_hand ?L) \<or> parked_on ?P a s \<and> fst (lg_reqs ?L ! a) = k" for k a s
      using log_okD(7) [OF assms(1), of k a s] park [of a s k] by simp
    show "reports_pair (snd (lg_reqs ?L ! a)) s es" if e: "((k, a, s), es) \<in> set (lg_emitted ?L)" for k a s es
    proof -
      have e': "((k, a, s), es) \<in> set (lg_emitted L)" using e by simp
      then have "a < ?n" using log_okD(5) [OF assms(1) emitted_in_hand [OF e']] by simp
      then show ?thesis using log_okD(8) [OF assms(1) e'] by (simp add: nth_append len)
    qed
  qed (use q log_okD(6) [OF assms(1)] in \<open>simp_all add: cells len\<close>)
qed

lemma no_depth_fill:
  "no_depth p = no_depth p' \<Longrightarrow> no_depth (p\<lparr>pl_Body := b, pl_Truncated := tc, pl_Size := sz, pl_Raw := raw\<rparr>)
     = no_depth (p'\<lparr>pl_Body := b, pl_Truncated := tc, pl_Size := sz, pl_Raw := raw\<rparr>)"
  by (cases p; cases p') (simp add: no_depth_def)

lemma addr_fresh: "(\<And>k s. (k, a, s) \<notin> set xs) \<Longrightarrow> a \<notin> set (map (fst \<circ> snd) xs)"
  by auto

lemma log_fill:
  assumes "log_ok P L" "addr < length (p_cells P)" "\<not> pr_filled (p_cells P ! addr)" "fillRequest addr b tc sz raw P = (parked, P')"
    "lg_reqs L ! addr = (key, r)"
  shows "log_ok P' (L\<lparr>lg_reqs := (lg_reqs L)[addr := (key, r\<lparr>pr_req := (pr_req r)\<lparr>pl_Body := b, pl_Truncated := tc, pl_Size := sz, pl_Raw := raw\<rparr>\<rparr>)],
      lg_held := lg_held L @ (case parked of None \<Rightarrow> [] | Some s \<Rightarrow> [(key, addr, s)])\<rparr>)" (is "log_ok P' ?L")
proof -
  note len = log_okD(1) [OF assms(1)]
  have parked: "parked = pr_resp (p_cells P ! addr)" using assms(4) by (auto simp: fillRequest_def Let_def)
  have q: "queue k P' = queue k P" for k using assms(4) by (auto simp: fillRequest_def Let_def queue_def)
  have cells: "p_cells P' = (p_cells P)[addr := (p_cells P ! addr)\<lparr>pr_req := (pr_req (p_cells P ! addr))\<lparr>pl_Body := b, pl_Truncated := tc,
      pl_Size := sz, pl_Raw := raw\<rparr>, pr_filled := True, pr_resp := None\<rparr>]"
    using assms(4) by (auto simp: fillRequest_def Let_def)
  have key: "fst (lg_reqs ?L ! a) = fst (lg_reqs L ! a)" for a using assms(2, 5) len by (cases "a = addr") simp_all
  have here: "parked_on P addr s \<longleftrightarrow> parked = Some s" for s using assms(2, 3) by (auto simp: parked_on_def parked)
  have park: "parked_on P' a s \<longleftrightarrow> a \<noteq> addr \<and> parked_on P a s" for a s
    using assms(2) by (cases "a = addr") (simp_all add: parked_on_def cells)
  have fresh: "(k, addr, s) \<notin> set (in_hand L)" for k s using log_okD(5) [OF assms(1), of k addr s] assms(3) by blast
  show ?thesis
  proof (rule log_okI)
    show "same_request (p_cells P' ! a) (snd (lg_reqs ?L ! a))" if "a < length (p_cells P')" for a
      using that log_okD(2) [OF assms(1), of a] assms(5) no_depth_fill [of "pr_req (p_cells P ! a)" "pr_req r"]
      by (cases "a = addr") (simp_all add: cells same_request_def len)
    show "fst (lg_reqs ?L ! a) = k" if "a \<in> set (queue k P')" for k a
      using that log_okD(3) [OF assms(1)] by (simp only: q key)
    show "pr_resp (p_cells P' ! a) = None" if "a \<in> set (queue k P')" for k a
      using that log_okD(3) [OF assms(1)] assms(2) by (cases "a = addr") (simp_all add: q cells)
    show "fst (lg_reqs ?L ! a) = k" if "(k, a, s) \<in> set (lg_taken ?L)" for k a s
      using that log_okD(4) [OF assms(1)] key [of a] by simp
    show "a < length (p_cells P') \<and> pr_filled (p_cells P' ! a)" if "(k, a, s) \<in> set (in_hand ?L)" for k a s
      using that log_okD(5) [OF assms(1), of k a s] assms(2) by (cases "a = addr") (auto simp: cells split: option.splits)
    show "distinct (map (fst \<circ> snd) (in_hand ?L))"
      using log_okD(6) [OF assms(1)] addr_fresh [OF fresh] by (cases parked) auto
    show "(k, a, s) \<in> set (lg_taken ?L) \<longleftrightarrow> (k, a, s) \<in> set (in_hand ?L) \<or> parked_on P' a s \<and> fst (lg_reqs ?L ! a) = k" for k a s
      using log_okD(7) [OF assms(1), of k a s] fresh here [of s] assms(5) unfolding park key
      by (cases "a = addr"; cases parked) auto
    show "reports_pair (snd (lg_reqs ?L ! a)) s es" if e: "((k, a, s), es) \<in> set (lg_emitted ?L)" for k a s es
    proof -
      have e': "((k, a, s), es) \<in> set (lg_emitted L)" using e by simp
      then have "a \<noteq> addr" using fresh emitted_in_hand [OF e'] by blast
      then show ?thesis using log_okD(8) [OF assms(1) e'] by simp
    qed
  qed (simp add: cells len)
qed

lemma log_attempt:
  assumes "log_ok P L" "queues_ok cfg P" "trace_ok P (taken_keys L)" "complete_try key resp code status fb P = (r, P')"
    "s = \<lparr>ps_payload = resp, ps_statusCode = code, ps_status = status, ps_firstByte = fb\<rparr>"
  shows "log_ok P' (L\<lparr>lg_taken := lg_taken L @ taken_of key s r, lg_held := lg_held L @ held_of key s r\<rparr>)" (is "log_ok P' ?L")
proof (cases "queue key P")
  case Nil
  then show ?thesis using assms(1) try_result(1) [OF assms(4)] by (simp add: taken_of_def held_of_def log_ok_def parked_on_def)
next
  case (Cons a q)
  note head = log_okD(3) [OF assms(1), of a key, unfolded Cons, simplified]
  have a: "a < length (p_cells P)" using assms(2) Cons by (auto simp: queues_ok_def dest: spec [of _ key])
  have new: "(k, a, s') \<notin> set (lg_taken L)" for k s' using trace_okD(3) [OF assms(3), of k a key] Cons by force
  then have fresh: "(k, a, s') \<notin> set (in_hand L)" for k s' using log_okD(7) [OF assms(1)] by blast
  have sub: "set (queue k P') \<subseteq> set (queue k P)" for k using try_queue(1) [OF assms(4), of k] by (cases "queue k P") (auto split: if_splits)
  have apart: "a \<notin> set (queue k P')" for k
  proof -
    have "sorted_wrt (<) (queue key P)" "k \<noteq> key \<Longrightarrow> set (queue k P) \<inter> set (queue key P) = {}"
      using assms(2) unfolding queues_ok_def by blast+
    then show ?thesis using try_queue(1) [OF assms(4), of k] Cons by auto
  qed
  show ?thesis
  proof (cases "pr_filled (p_cells P ! a)")
    case True
    then have r: "r = Paired a" "p_cells P' = p_cells P" using try_result(2) [OF assms(4) Cons] by simp_all
    show ?thesis
    proof (rule log_okI)
      show "(k, b, s') \<in> set (lg_taken ?L) \<longleftrightarrow> (k, b, s') \<in> set (in_hand ?L) \<or> parked_on P' b s' \<and> fst (lg_reqs ?L ! b) = k" for k b s'
        using log_okD(7) [OF assms(1), of k b s'] by (auto simp: r taken_of_def held_of_def parked_on_def)
      show "distinct (map (fst \<circ> snd) (in_hand ?L))"
        using log_okD(6) [OF assms(1)] addr_fresh [OF fresh] by (auto simp: r held_of_def)
      show "b < length (p_cells P') \<and> pr_filled (p_cells P' ! b)" if "(k, b, s') \<in> set (in_hand ?L)" for k b s'
        using that log_okD(5) [OF assms(1), of k b s'] True a by (auto simp: r held_of_def)
      show "fst (lg_reqs ?L ! b) = k" if "(k, b, s') \<in> set (lg_taken ?L)" for k b s'
        using that log_okD(4) [OF assms(1)] head by (auto simp: r taken_of_def)
      show "fst (lg_reqs ?L ! b) = k" if "b \<in> set (queue k P')" for k b
        using log_okD(3) [OF assms(1) subsetD [OF sub that]] by simp
      show "pr_resp (p_cells P' ! b) = None" if "b \<in> set (queue k P')" for k b
        using log_okD(3) [OF assms(1) subsetD [OF sub that]] by (simp add: r)
    qed (use log_okD(1, 2, 8) [OF assms(1)] in \<open>simp_all add: r\<close>)
  next
    case False
    then have r: "r = Parked a" "p_cells P' = (p_cells P)[a := (p_cells P ! a)\<lparr>pr_resp := Some s\<rparr>]"
      using try_result(3) [OF assms(4) Cons] assms(5) by simp_all
    have park: "parked_on P' b s' \<longleftrightarrow> (if b = a then s' = s else parked_on P b s')" for b s'
      using a False by (auto simp: parked_on_def r)
    have was: "\<not> parked_on P a s'" for s' using head by (simp add: parked_on_def)
    show ?thesis
    proof (rule log_okI)
      show "(k, b, s') \<in> set (lg_taken ?L) \<longleftrightarrow> (k, b, s') \<in> set (in_hand ?L) \<or> parked_on P' b s' \<and> fst (lg_reqs ?L ! b) = k" for k b s'
        using log_okD(7) [OF assms(1), of k b s'] was fresh head unfolding park
        by (cases "b = a") (auto simp: r taken_of_def held_of_def)
      show "b < length (p_cells P') \<and> pr_filled (p_cells P' ! b)" if "(k, b, s') \<in> set (in_hand ?L)" for k b s'
        using that log_okD(5) [OF assms(1), of k b s'] fresh by (cases "b = a") (auto simp: r held_of_def)
      show "fst (lg_reqs ?L ! b) = k" if "(k, b, s') \<in> set (lg_taken ?L)" for k b s'
        using that log_okD(4) [OF assms(1)] head by (auto simp: r taken_of_def)
      show "pr_resp (p_cells P' ! b) = None" if "b \<in> set (queue k P')" for k b
        using that log_okD(3) [OF assms(1) subsetD [OF sub that]] apart [of k] by (cases "b = a") (simp_all add: r)
      show "same_request (p_cells P' ! b) (snd (lg_reqs ?L ! b))" if "b < length (p_cells P')" for b
        using that log_okD(2) [OF assms(1), of b] a by (cases "b = a") (simp_all add: r same_request_def)
    qed (use log_okD(1, 2, 3, 6, 8) [OF assms(1)] subsetD [OF sub] in \<open>simp_all add: r held_of_def\<close>)
  qed
qed

lemma log_emit:
  assumes "log_ok P L" "lg_held L = hs @ (key, a, s) # hs'"
    "P' = emitPair cfg now key (p_cells P ! a) (ps_payload s) (ps_statusCode s) (ps_status s) (ps_firstByte s) P"
  shows "log_ok P' (L\<lparr>lg_held := hs @ hs',
      lg_emitted := lg_emitted L @ [((key, a, s), drop (length (ft_out (p_table P))) (ft_out (p_table P')))]\<rparr>)" (is "log_ok P' ?L")
proof -
  have same: "p_cells P' = p_cells P" "queue k P' = queue k P" for k by (simp_all add: assms(3) emitPair_def Let_def queue_def)
  have set: "set (in_hand ?L) = set (in_hand L)" using assms(2) by auto
  have "a < length (p_cells P)" using log_okD(5) [OF assms(1), of key a s] assms(2) by simp
  then have rep: "reports_pair (snd (lg_reqs L ! a)) s (drop (length (ft_out (p_table P))) (ft_out (p_table P')))"
    unfolding assms(3) by (intro emit_reports log_okD(2) [OF assms(1)])
  show ?thesis
  proof (rule log_okI)
    show "(k, b, s') \<in> set (lg_taken ?L) \<longleftrightarrow> (k, b, s') \<in> set (in_hand ?L) \<or> parked_on P' b s' \<and> fst (lg_reqs ?L ! b) = k" for k b s'
      using log_okD(7) [OF assms(1), of k b s'] unfolding set by (simp add: parked_on_def same)
    show "b < length (p_cells P') \<and> pr_filled (p_cells P' ! b)" if "(k, b, s') \<in> set (in_hand ?L)" for k b s'
      using that log_okD(5) [OF assms(1), of k b s'] unfolding set by (simp add: same)
    show "distinct (map (fst \<circ> snd) (in_hand ?L))"
      using log_okD(6) [OF assms(1)] assms(2) by auto
    show "reports_pair (snd (lg_reqs ?L ! b)) s' es" if "((k, b, s'), es) \<in> set (lg_emitted ?L)" for k b s' es
      using that log_okD(8) [OF assms(1), of k b s' es] rep by auto
  show "fst (lg_reqs ?L ! b) = k" if "b \<in> set (queue k P')" for k b using that log_okD(3) [OF assms(1)] by (simp add: same)
    show "pr_resp (p_cells P' ! b) = None" if "b \<in> set (queue k P')" for k b using that log_okD(3) [OF assms(1)] by (simp add: same)
    show "fst (lg_reqs ?L ! b) = k" if "(k, b, s') \<in> set (lg_taken ?L)" for k b s' using that log_okD(4) [OF assms(1)] by simp
  qed (use log_okD(1, 2) [OF assms(1)] in \<open>simp_all add: same\<close>)
qed

lemma pair_log_ok:
  assumes "pair_run pick cfg P L" "picks_key pick"
  shows "log_ok P L"
  using assms
proof (induction rule: pair_run.induct)
  case start
  then show ?case by (simp add: log_ok_def newPipeline_def queue_def parked_on_def)
next
  case (request P L now key proto req src dst)
  then show ?case using pair_run_ok [OF request(1)]
    by (simp add: append_rules) (intro log_append, auto simp: new_req_def same_request_def)
next
  case (reserve P L now key proto req src dst)
  then show ?case using pair_run_ok [OF reserve(1)]
    by (simp add: append_rules) (intro log_append, auto simp: new_req_def same_request_def)
next
  case (fill P L addr b tc sz raw parked P' key r)
  then show ?case using log_fill by blast
next
  case (attempt P L key resp code status fb r P' s)
  then show ?case using pair_run_ok [OF attempt(1)] log_attempt by blast
next
  case (emit P L hs key a s hs' P' now)
  then show ?case using log_emit by blast
next
  case (purge P L key)
  show ?case by (rule log_thins [OF purge.IH [OF purge.prems]]) (simp_all add: queue_purged, simp add: purgePending_def)
next
  case (reap P L cutoff key)
  show ?case
    by (rule log_thins [OF reap.IH [OF reap.prems]]) (auto simp: queue_reaped, simp add: gc_visit_def Let_def split: option.splits)
qed (auto intro: log_thins simp: queue_def addAFPacketStream_def removeAFPacketStream_def Let_def)

text \<open>\<open>completeResponse\<close> as a whole is such a run, when what the other goroutines do during its sleeps is one.\<close>

lemma complete_loop_run:
  assumes "pair_run pick cfg P L" "\<forall>g \<in> set others. \<forall>P L. pair_run pick cfg P L \<longrightarrow> (\<exists>L'. pair_run pick cfg (g P) L')"
    "s = \<lparr>ps_payload = resp, ps_statusCode = code, ps_status = status, ps_firstByte = fb\<rparr>"
  shows "\<exists>L'. pair_run pick cfg (snd (complete_loop n others key resp code status fb P)) L'
    \<and> (\<forall>a. fst (complete_loop n others key resp code status fb P) = Paired a \<longrightarrow> (key, a, s) \<in> set (lg_held L'))"
  using assms(1, 2)
proof (induction n arbitrary: others P L)
  case (0 others P L)
  obtain r P' where t: "complete_try key resp code status fb P = (r, P')" by fastforce
  have "complete_loop 0 others key resp code status fb P = (r, P')" by (subst complete_loop.simps) (cases r; simp add: t)
  then show ?case using pair_run.attempt [OF 0(1) t assms(3)] by (intro exI conjI) (auto simp: held_of_def)
next
  case (Suc n others P L)
  obtain r P' where t: "complete_try key resp code status fb P = (r, P')" by fastforce
  note run = pair_run.attempt [OF Suc(2) t assms(3)]
  show ?case
  proof (cases "r = Nothing True")
    case True
    show ?thesis
    proof (cases others)
      case Nil
      then show ?thesis using Suc.IH [OF run, of "[]"] by (subst (1 2) complete_loop.simps) (simp add: t True)
    next
      case (Cons g gs)
      obtain L' where "pair_run pick cfg (g P') L'" using Suc(3) run Cons by auto
      from Suc.IH [OF this, of gs] show ?thesis using Suc(3) Cons by (subst (1 2) complete_loop.simps) (simp add: t True)
    qed
  next
    case False
    then have "complete_loop (Suc n) others key resp code status fb P = (r, P')" by (subst complete_loop.simps) (cases r; simp add: t)
    then show ?thesis using run by (intro exI conjI) (auto simp: held_of_def)
  qed
qed

lemma completeResponse_run:
  assumes "pair_run pick cfg P L" "\<forall>g \<in> set others. \<forall>P L. pair_run pick cfg P L \<longrightarrow> (\<exists>L'. pair_run pick cfg (g P) L')"
  shows "\<exists>L'. pair_run pick cfg (completeResponse cfg now others key resp code status fb P) L'"
proof -
  let ?s = "\<lparr>ps_payload = resp, ps_statusCode = code, ps_status = status, ps_firstByte = fb\<rparr>"
  obtain r P' where l: "complete_loop completeResponsePairRetries others key resp code status fb P = (r, P')" by fastforce
  obtain L' where run: "pair_run pick cfg P' L'" and held: "\<And>a. r = Paired a \<Longrightarrow> (key, a, ?s) \<in> set (lg_held L')"
    using complete_loop_run [OF assms refl, of completeResponsePairRetries key resp code status fb] l by auto
  show ?thesis
  proof (cases r)
    case (Paired a)
    then obtain hs hs' where h: "lg_held L' = hs @ (key, a, ?s) # hs'" using split_list [OF held] by blast
    from pair_run.emit [OF run h refl, of now] Paired show ?thesis by (auto simp: completeResponse_def l)
  qed (use run in \<open>auto simp: completeResponse_def l\<close>)
qed

lemma pairing_in_order_all:
  assumes "pair_run pick cfg P L" "picks_key pick"
  shows "distinct (map (fst \<circ> snd) (lg_taken L))
    \<and> sorted_wrt (<) (map (fst \<circ> snd) (filter (\<lambda>x. fst x = k) (lg_taken L)))
    \<and> (\<forall>(c, a, s) \<in> set (lg_taken L). fst (lg_reqs L ! a) = c)
    \<and> (\<forall>((c, a, s), es) \<in> set (lg_emitted L). (c, a, s) \<in> set (lg_taken L) \<and> reports_pair (snd (lg_reqs L ! a)) s es)
    \<and> distinct (map (fst \<circ> snd \<circ> fst) (lg_emitted L))
    \<and> (\<forall>(c, a, s) \<in> set (lg_taken L). (c, a, s) \<in> set (map fst (lg_emitted L)) \<or> (c, a, s) \<in> set (lg_held L) \<or> parked_on P a s)"
proof (intro conjI)
  note log = pair_log_ok [OF assms]
  have tr: "trace_ok P (taken_keys L)" using pair_run_ok [OF assms] by blast
  have key: "map snd (taken_keys L) = map (fst \<circ> snd) (lg_taken L)"
    "map snd (filter (\<lambda>x. fst x = k) (taken_keys L)) = map (fst \<circ> snd) (filter (\<lambda>x. fst x = k) (lg_taken L))"
    by (auto simp: case_prod_unfold filter_map comp_def)
  show "distinct (map (fst \<circ> snd) (lg_taken L))" using trace_ok_lists(1) [OF tr] unfolding key .
  show "sorted_wrt (<) (map (fst \<circ> snd) (filter (\<lambda>x. fst x = k) (lg_taken L)))" using trace_ok_lists(2) [OF tr, of k] unfolding key .
  show "\<forall>(c, a, s) \<in> set (lg_taken L). fst (lg_reqs L ! a) = c" using log_okD(4) [OF log] by blast
  show "\<forall>((c, a, s), es) \<in> set (lg_emitted L). (c, a, s) \<in> set (lg_taken L) \<and> reports_pair (snd (lg_reqs L ! a)) s es"
    using log_okD(7) [OF log] log_okD(8) [OF log] emitted_in_hand by blast
  show "distinct (map (fst \<circ> snd \<circ> fst) (lg_emitted L))" using log_okD(6) [OF log] by (simp add: comp_assoc)
  have "(c, a, s) \<in> set (map fst (lg_emitted L)) \<or> (c, a, s) \<in> set (lg_held L) \<or> parked_on P a s" if "(c, a, s) \<in> set (lg_taken L)" for c a s
    using log_okD(7) [OF log, of c a s] that by (simp only: set_append Un_iff) blast
  then show "\<forall>(c, a, s) \<in> set (lg_taken L). (c, a, s) \<in> set (map fst (lg_emitted L)) \<or> (c, a, s) \<in> set (lg_held L) \<or> parked_on P a s"
    by blast
qed

text \<open>C4: in any interleaving of the goroutines, whatever is evicted, purged, reaped or reserved: no pending request
  is taken by two responses, each response takes a request of its own connection, and on each connection responses
  take requests in the order in which those were queued.  What was taken is what is reported: each emission is one entry,
  of a pair of a response and the request it took, and has that request's payload (with the body it was filled in
  with), endpoints, protocol and time and that response's payload and status; no request is reported twice; and a response
  that took a request has been reported, is in the hands of a goroutine about to report it, or waits on its request
  until the body of that is filled in.\<close>

theorem pairing_in_order:
  assumes "pair_run pick cfg P L" "picks_key pick"
  shows "distinct (map (fst \<circ> snd) (lg_taken L))
    \<and> sorted_wrt (<) (map (fst \<circ> snd) (filter (\<lambda>x. fst x = k) (lg_taken L)))
    \<and> (\<forall>(c, a, s) \<in> set (lg_taken L). fst (lg_reqs L ! a) = c)
    \<and> (\<forall>((c, a, s), es) \<in> set (lg_emitted L). (c, a, s) \<in> set (lg_taken L) \<and> reports_pair (snd (lg_reqs L ! a)) s es)
    \<and> distinct (map (fst \<circ> snd \<circ> fst) (lg_emitted L))
    \<and> (\<forall>(c, a, s) \<in> set (lg_taken L). (c, a, s) \<in> set (map fst (lg_emitted L)) \<or> (c, a, s) \<in> set (lg_held L) \<or> parked_on P a s)"
  by (rule pairing_in_order_all [OF assms])

abbreviation some_req :: pendingReq where
  "some_req \<equiv> \<lparr>pr_protocol = ProtocolRedis, pr_req = zero_Payload, pr_src = zero_Endpoint, pr_dst = zero_Endpoint, pr_ts = 0,
     pr_filled = True, pr_resp = None\<rparr>"

abbreviation some_resp :: pendingResp where
  "some_resp \<equiv> \<lparr>ps_payload = zero_Payload\<lparr>pl_Body := ''A''\<rparr>, ps_statusCode = 7, ps_status = ''success'', ps_firstByte = None\<rparr>"

text \<open>A response that overtakes the body of its request: it is parked, handed over by the fill and reported.\<close>

theorem pairing_in_order_witness:
  "\<exists>P L e. pair_run hd some_cfg P L \<and> lg_emitted L = [((''k'', 0, some_resp), [e])] \<and> pl_Body (e_Request e) = ''b'' \<and> pl_Body (e_Response e) = ''A''
     \<and> e_StatusCode e = 7"
proof -
  let ?P0 = "snd (reserveRequest hd some_cfg 5 ''k'' ProtocolRedis zero_Payload zero_Endpoint zero_Endpoint newPipeline)"
  let ?P1 = "snd (complete_try ''k'' (ps_payload some_resp) 7 ''success'' None ?P0)"
  let ?P2 = "snd (fillRequest 0 ''b'' False 1 None ?P1)"
  let ?P3 = "emitPair some_cfg 9 ''k'' (p_cells ?P2 ! 0) (ps_payload some_resp) 7 ''success'' None ?P2"
  let ?L0 = "\<lparr>lg_reqs = [], lg_taken = [], lg_held = [], lg_emitted = []\<rparr>"
  let ?r = "new_req ProtocolRedis zero_Payload zero_Endpoint zero_Endpoint 5"
  let ?r' = "?r\<lparr>pr_req := (pr_req ?r)\<lparr>pl_Body := ''b'', pl_Truncated := False, pl_Size := 1, pl_Raw := None\<rparr>\<rparr>"
  let ?es = "drop (length (ft_out (p_table ?P2))) (ft_out (p_table ?P3))"
  note defs = reserveRequest_def appendPending_def newPipeline_def queue_def push_pending_def reqBacklogCap_def evictOverCapLocked_def
    some_cfg_def depth_irrelevant complete_try_def
  have took: "complete_try ''k'' (ps_payload some_resp) 7 ''success'' None ?P0 = (Parked 0, ?P1)" by (simp add: defs)
  have fill: "fillRequest 0 ''b'' False 1 None ?P1 = (Some some_resp, ?P2)" by (simp add: defs fillRequest_def)
  have open1: "0 < length (p_cells ?P1)" "\<not> pr_filled (p_cells ?P1 ! 0)" by (simp_all add: defs)
  note run0 = pair_run.reserve [OF pair_run.start, of hd some_cfg 5 "''k''" ProtocolRedis zero_Payload zero_Endpoint zero_Endpoint, simplified]
  have run1: "pair_run hd some_cfg ?P1 \<lparr>lg_reqs = [(''k'', ?r)], lg_taken = [(''k'', 0, some_resp)], lg_held = [], lg_emitted = []\<rparr>"
    using pair_run.attempt [OF run0 took, of some_resp] by (simp add: taken_of_def held_of_def)
  have run2: "pair_run hd some_cfg ?P2 \<lparr>lg_reqs = [(''k'', ?r')], lg_taken = [(''k'', 0, some_resp)], lg_held = [(''k'', 0, some_resp)], lg_emitted = []\<rparr>"
    using pair_run.fill [OF run1 open1 fill, of "''k''" ?r] by simp
  have run3: "pair_run hd some_cfg ?P3 \<lparr>lg_reqs = [(''k'', ?r')], lg_taken = [(''k'', 0, some_resp)], lg_held = [],
      lg_emitted = [((''k'', 0, some_resp), ?es)]\<rparr>"
    using pair_run.emit [OF run2, of "[]" "''k''" 0 some_resp "[]" ?P3 9] by simp
  have "picks_key hd" by (simp add: picks_key_def)
  from pairing_in_order [OF run3 this, of "''k''"] have "reports_pair ?r' some_resp ?es" by simp
  then obtain e where "?es = [e]" and e: "no_depth (e_Request e) = no_depth (pr_req ?r')" "no_ttfb (e_Response e) = no_ttfb (ps_payload some_resp)"
    "e_StatusCode e = 7"
    unfolding reports_pair_def by (auto split: list.splits)
  moreover have "pl_Body (e_Request e) = ''b''" using arg_cong [OF e(1), of pl_Body] by (simp add: no_depth_def)
  moreover have "pl_Body (e_Response e) = ''A''" using arg_cong [OF e(2), of pl_Body] by (simp add: no_ttfb_def)
  ultimately show ?thesis using run3 by fastforce
qed

text \<open>The pending state stays bounded: never more than \<open>maxPending\<close> connections, never more than
  \<open>reqBacklogCap\<close> requests on one of them, and no request in the queues of two connections.\<close>

theorem pending_bounded:
  assumes "pair_run pick cfg P L" "picks_key pick"
  shows "length (p_conns P) \<le> cfg_maxPending cfg \<and> (\<forall>k. length (queue k P) \<le> reqBacklogCap)
    \<and> (\<forall>k k'. k \<noteq> k' \<longrightarrow> set (queue k P) \<inter> set (queue k' P) = {})"
  using pair_run_ok [OF assms] by (simp add: queues_ok_def map_ok_def)

theorem pending_bounded_witness:
  "length (p_conns (enqueueRequestOnly hd some_cfg 3 ''c'' ProtocolRedis zero_Payload zero_Endpoint zero_Endpoint
     (enqueueRequestOnly hd some_cfg 2 ''b'' ProtocolRedis zero_Payload zero_Endpoint zero_Endpoint
     (enqueueRequestOnly hd some_cfg 1 ''a'' ProtocolRedis zero_Payload zero_Endpoint zero_Endpoint newPipeline)))) \<le> 2"
proof -
  have "\<exists>L. pair_run hd some_cfg (enqueueRequestOnly hd some_cfg 3 ''c'' ProtocolRedis zero_Payload zero_Endpoint zero_Endpoint
     (enqueueRequestOnly hd some_cfg 2 ''b'' ProtocolRedis zero_Payload zero_Endpoint zero_Endpoint
     (enqueueRequestOnly hd some_cfg 1 ''a'' ProtocolRedis zero_Payload zero_Endpoint zero_Endpoint newPipeline))) L"
    by (rule exI, rule pair_run.request, rule pair_run.request, rule pair_run.request, rule pair_run.start)
  then obtain L where run: "pair_run hd some_cfg (enqueueRequestOnly hd some_cfg 3 ''c'' ProtocolRedis zero_Payload zero_Endpoint zero_Endpoint
     (enqueueRequestOnly hd some_cfg 2 ''b'' ProtocolRedis zero_Payload zero_Endpoint zero_Endpoint
     (enqueueRequestOnly hd some_cfg 1 ''a'' ProtocolRedis zero_Payload zero_Endpoint zero_Endpoint newPipeline))) L" by blast
  show ?thesis using pending_bounded [OF run] by (simp add: picks_key_def some_cfg_def)
qed

subsection \<open>First in, first out\<close>

text \<open>The abstraction: the pending requests of a connection, oldest first; and the queue it is checked against.\<close>

definition pending :: "string \<Rightarrow> pipeline \<Rightarrow> pendingReq list" where
  "pending k P = map ((!) (p_cells P)) (queue k P)"

definition fifo_push :: "'a list \<Rightarrow> 'a \<Rightarrow> 'a list" where
  "fifo_push q x = (if length q < reqBacklogCap then q @ [x] else tl (q @ [x]))"

lemma push_map:
  assumes "\<forall>a \<in> set q. a < length cs"
  shows "map ((!) (cs @ [x])) (push_pending q (length cs)) = fifo_push (map ((!) cs) q) x"
proof -
  have "map ((!) (cs @ [x])) q = map ((!) cs) q" using assms by (simp add: nth_append)
  then have m: "map ((!) (cs @ [x])) (q @ [length cs]) = map ((!) cs) q @ [x]" by simp
  show ?thesis unfolding push_pending_def fifo_push_def Let_def by (simp only: if_distrib [of "map _"] map_tl m) auto
qed

text \<open>C5: pairing refines one queue per connection: as long as the map of connections is not full, queueing a request
  appends it to its connection's queue, with the number of requests ahead of it, dropping the oldest beyond the
  backlog, and leaves every other connection alone.  A response takes exactly the oldest request of its connection: it
  is paired with it when that request is complete and left on it when it was only reserved, and in both cases
  the request is no longer pending and nothing else that is pending changes; one that finds no request changes nothing.\<close>

theorem pairing_refines_fifo:
  assumes "queues_ok cfg P" "key \<in> fst ` set (p_conns P) \<or> length (p_conns P) < cfg_maxPending cfg"
  shows "pending k (appendPending pick cfg key pr P) =
      (if k = key then fifo_push (pending key P) (with_depth (length (pending key P)) pr) else pending k P)
    \<and> (case (pending key P, complete_try key resp code status fb P) of
         ([], r, P') \<Rightarrow> P' = P
       | (pr' # rest, r, P') \<Rightarrow> (\<forall>k. pending k P' = (if k = key then rest else pending k P))
           \<and> (if pr_filled pr' then \<exists>a. r = Paired a \<and> p_cells P' ! a = pr'
              else \<exists>a. r = Parked a \<and> p_cells P' ! a = pr'\<lparr>pr_resp :=
                Some \<lparr>ps_payload = resp, ps_statusCode = code, ps_status = status, ps_firstByte = fb\<rparr>\<rparr>))"
proof
  have len: "length (AList.update key q (p_conns P)) \<le> cfg_maxPending cfg" for q
    using assms by (auto simp: length_update_key queues_ok_def map_ok_def)
  then have "queue k (appendPending pick cfg key pr P) = (if k = key then push_pending (queue key P) (length (p_cells P)) else queue k P)"
    by (simp add: appendPending_def Let_def queue_def evictOverCapLocked_def AList.update_conv')
  moreover have "\<forall>a \<in> set (queue k P). a < length (p_cells P)" for k using assms(1) by (simp add: queues_ok_def)
  moreover have "p_cells (appendPending pick cfg key pr P) = p_cells P @ [with_depth (length (queue key P)) pr]"
    by (simp add: appendPending_def Let_def)
  ultimately show "pending k (appendPending pick cfg key pr P) =
      (if k = key then fifo_push (pending key P) (with_depth (length (pending key P)) pr) else pending k P)"
    by (auto simp: pending_def push_map nth_append)
next
  obtain r P' where t: "complete_try key resp code status fb P = (r, P')" by fastforce
  show "case (pending key P, complete_try key resp code status fb P) of
         ([], r, P') \<Rightarrow> P' = P
       | (pr' # rest, r, P') \<Rightarrow> (\<forall>k. pending k P' = (if k = key then rest else pending k P))
           \<and> (if pr_filled pr' then \<exists>a. r = Paired a \<and> p_cells P' ! a = pr'
              else \<exists>a. r = Parked a \<and> p_cells P' ! a = pr'\<lparr>pr_resp :=
                Some \<lparr>ps_payload = resp, ps_statusCode = code, ps_status = status, ps_firstByte = fb\<rparr>\<rparr>)"
  proof (cases "queue key P")
    case Nil
    then show ?thesis using t by (simp add: pending_def complete_try_def)
  next
    case (Cons a q)
    have a: "a < length (p_cells P)" using assms(1) Cons by (auto simp: queues_ok_def dest: spec [of _ key])
    have apart: "a \<notin> set (queue k P')" for k
    proof -
      have "sorted_wrt (<) (queue key P)" "k \<noteq> key \<Longrightarrow> set (queue k P) \<inter> set (queue key P) = {}"
        using assms(1) unfolding queues_ok_def by blast+
      then show ?thesis using try_queue(1) [OF t, of k] Cons by auto
    qed
    have other: "p_cells P' ! b = p_cells P ! b" if "b \<noteq> a" for b
      using try_result(2, 3) [OF t Cons] that by (cases "pr_filled (p_cells P ! a)") simp_all
    have same: "map ((!) (p_cells P')) (queue k P') = map ((!) (p_cells P)) (queue k P')" for k
      using apart [of k] by (intro map_cong refl other) auto
    have "pending k P' = (if k = key then map ((!) (p_cells P)) q else pending k P)" for k
      unfolding pending_def same using try_queue(1) [OF t, of k] Cons by simp
    then show ?thesis using try_result(2, 3) [OF t Cons] a t Cons
      by (cases "pr_filled (p_cells P ! a)") (simp_all add: pending_def)
  qed
qed

theorem pairing_refines_fifo_witness:
  "pending ''k'' (appendPending hd some_cfg ''k'' some_req newPipeline) = [some_req]"
proof -
  have "queues_ok some_cfg newPipeline" by (simp add: queues_ok_def newPipeline_def queue_def map_ok_def)
  then show ?thesis
    using pairing_refines_fifo [of some_cfg newPipeline "''k''" "''k''" hd some_req]
    by (simp add: newPipeline_def some_cfg_def pending_def queue_def fifo_push_def reqBacklogCap_def with_depth_def zero_Payload_def)
qed

subsection \<open>One connection from its start\<close>

datatype conn_op = Req time Payload | Resp time Payload

text \<open>The two directions of a connection in the order in which their messages are handled.\<close>

fun conn_run :: "(string list \<Rightarrow> string) \<Rightarrow> flow_cfg \<Rightarrow> string \<Rightarrow> string \<Rightarrow> Endpoint \<Rightarrow> Endpoint \<Rightarrow> conn_op list \<Rightarrow> pipeline \<Rightarrow> pipeline" where
  "conn_run pick cfg key proto src dst [] P = P"
| "conn_run pick cfg key proto src dst (Req now p # ops) P =
     conn_run pick cfg key proto src dst ops (enqueueRequest pick cfg now key proto p src dst P)"
| "conn_run pick cfg key proto src dst (Resp now p # ops) P =
     conn_run pick cfg key proto src dst ops (completeResponse cfg now [] key p 0 ''success'' None P)"

definition depth_payload :: "nat \<Rightarrow> Payload \<Rightarrow> Payload" where
  "depth_payload d p = (case pl_Redis p of None \<Rightarrow> p | Some r \<Rightarrow> p\<lparr>pl_Redis := Some (r\<lparr>redis_PipelineDepth := int d\<rparr>)\<rparr>)"

text \<open>What a queue would do: which request each response answers.\<close>

fun fifo_run :: "conn_op list \<Rightarrow> Payload list \<Rightarrow> (Payload \<times> Payload) list" where
  "fifo_run [] q = []"
| "fifo_run (Req _ p # ops) q = fifo_run ops (fifo_push q (depth_payload (length q) p))"
| "fifo_run (Resp _ p # ops) [] = fifo_run ops []"
| "fifo_run (Resp _ p # ops) (r # q) = (r, p) # fifo_run ops q"

definition exchanged :: "pipeline \<Rightarrow> (Payload \<times> Payload) list" where
  "exchanged P = map (\<lambda>e. (e_Request e, e_Response e)) (ft_out (p_table P))"

definition only_conn :: "string \<Rightarrow> pipeline \<Rightarrow> bool" where
  "only_conn key P \<longleftrightarrow> set (map fst (p_conns P)) \<subseteq> {key} \<and> length (p_conns P) \<le> 1
     \<and> (\<forall>a \<in> set (queue key P). a < length (p_cells P) \<and> pr_filled (p_cells P ! a))"

lemma with_depth_req: "pr_req (with_depth d pr) = depth_payload d (pr_req pr)" "pr_filled (with_depth d pr) = pr_filled pr"
  by (simp_all add: with_depth_def depth_payload_def split: option.splits)

lemma markL7_out: "ft_out (markL7 pick cfg key T) = ft_out T"
  by (simp add: markL7_def insert_flow_def case_prod_unfold split: option.splits)

lemma only_conn_enqueue:
  assumes "only_conn key P" "1 \<le> cfg_maxPending cfg"
  shows "only_conn key (enqueueRequest pick cfg now key proto p src dst P)
    \<and> map pr_req (pending key (enqueueRequest pick cfg now key proto p src dst P))
        = fifo_push (map pr_req (pending key P)) (depth_payload (length (pending key P)) p)
    \<and> exchanged (enqueueRequest pick cfg now key proto p src dst P) = exchanged P"
proof -
  let ?pr = "\<lparr>pr_protocol = proto, pr_req = p, pr_src = src, pr_dst = dst, pr_ts = now, pr_filled = True, pr_resp = None\<rparr>"
  let ?q = "push_pending (queue key P) (length (p_cells P))"
  let ?P = "enqueueRequest pick cfg now key proto p src dst P"
  have upd: "length (AList.update key ?q (p_conns P)) \<le> 1" "set (map fst (AList.update key ?q (p_conns P))) \<subseteq> {key}"
    using assms(1) by (cases "p_conns P"; auto simp: only_conn_def)+
  have conns: "p_conns ?P = AList.update key ?q (p_conns P)"
    using upd(1) assms(2) by (simp add: enqueueRequest_def enqueueRequestOnly_def appendPending_def Let_def evictOverCapLocked_def)
  have cells: "p_cells ?P = p_cells P @ [with_depth (length (queue key P)) ?pr]"
    by (simp add: enqueueRequest_def enqueueRequestOnly_def appendPending_def Let_def)
  have q: "queue key ?P = ?q" using conns by (simp add: queue_def AList.update_conv')
  have sub: "set ?q \<subseteq> insert (length (p_cells P)) (set (queue key P))" using subseq_subset [OF push_subseq] by auto
  have "a < length (p_cells ?P) \<and> pr_filled (p_cells ?P ! a)" if "a \<in> set ?q" for a
  proof (cases "a = length (p_cells P)")
    case True
    then show ?thesis by (simp add: cells with_depth_req)
  next
    case False
    then have "a \<in> set (queue key P)" using subsetD [OF sub that] by simp
    then show ?thesis using assms(1) by (simp add: cells nth_append only_conn_def less_Suc_eq)
  qed
  then have "only_conn key ?P" using upd unfolding only_conn_def q conns by blast
  moreover have "pending key ?P = fifo_push (pending key P) (with_depth (length (queue key P)) ?pr)"
    using assms(1) by (simp add: pending_def q cells push_map only_conn_def)
  then have "map pr_req (pending key ?P) = fifo_push (map pr_req (pending key P)) (depth_payload (length (pending key P)) p)"
    by (simp add: fifo_push_def map_tl with_depth_req pending_def)
  moreover have "exchanged ?P = exchanged P"
    by (simp add: exchanged_def enqueueRequest_def Let_def markL7_out, simp add: enqueueRequestOnly_def appendPending_def Let_def)
  ultimately show ?thesis by blast
qed

lemma complete_empty:
  "queue key P = [] \<Longrightarrow> complete_loop n [] key resp code status fb P = (Nothing (af_count key P = 0), P)"
proof (induction n)
  case (Suc n)
  then show ?case by (subst complete_loop.simps) (simp add: complete_try_def)
qed (simp add: complete_loop.simps complete_try_def)

lemma only_conn_complete:
  assumes "only_conn key P"
  shows "only_conn key (completeResponse cfg now [] key p 0 ''success'' None P)
    \<and> (case map pr_req (pending key P) of
         [] \<Rightarrow> completeResponse cfg now [] key p 0 ''success'' None P = P
       | r # q \<Rightarrow> map pr_req (pending key (completeResponse cfg now [] key p 0 ''success'' None P)) = q
           \<and> exchanged (completeResponse cfg now [] key p 0 ''success'' None P) = exchanged P @ [(r, p)])"
proof (cases "queue key P")
  case Nil
  then have "completeResponse cfg now [] key p 0 ''success'' None P = P"
    by (simp add: completeResponse_def complete_empty)
  then show ?thesis using assms Nil by (simp add: pending_def)
next
  case (Cons a q)
  let ?P1 = "P\<lparr>p_conns := AList.update key q (p_conns P)\<rparr>"
  have "pr_filled (p_cells P ! a)" using assms Cons by (simp add: only_conn_def)
  then have "complete_loop completeResponsePairRetries [] key p 0 ''success'' None P = (Paired a, ?P1)"
    by (subst complete_loop.simps) (simp add: complete_try_def Cons)
  then have res: "completeResponse cfg now [] key p 0 ''success'' None P = emitPair cfg now key (p_cells P ! a) p 0 ''success'' None ?P1"
    by (simp add: completeResponse_def)
  have "queue key ?P1 = q" by (simp add: queue_def AList.update_conv')
  moreover have "length (AList.update key q (p_conns P)) \<le> 1" "set (map fst (AList.update key q (p_conns P))) \<subseteq> {key}"
    using assms by (cases "p_conns P"; auto simp: only_conn_def)+
  ultimately show ?thesis
    using assms Cons
    by (auto simp: res emitPair_def Let_def only_conn_def pending_def exchanged_def zero_Entry_def queue_def split: option.splits)
qed

lemma conn_run_fifo:
  assumes "1 \<le> cfg_maxPending cfg"
  shows "exchanged (conn_run pick cfg key proto src dst ops newPipeline) = fifo_run ops []"
proof -
  have "exchanged (conn_run pick cfg key proto src dst ops P) = exchanged P @ fifo_run ops (map pr_req (pending key P))"
    if "only_conn key P" for P
    using that
  proof (induction ops arbitrary: P)
    case (Cons x ops)
    show ?case
    proof (cases x)
      case (Req now p)
      then show ?thesis using Cons.IH only_conn_enqueue [OF Cons.prems assms, of pick now proto p src dst]
        by (simp add: pending_def)
    next
      case (Resp now p)
      then show ?thesis using Cons.IH only_conn_complete [OF Cons.prems, of cfg now p] Cons.prems
        by (cases "map pr_req (pending key P)") simp_all
    qed
  qed simp
  moreover have "only_conn key newPipeline" by (simp add: only_conn_def newPipeline_def queue_def)
  ultimately show ?thesis by (simp add: newPipeline_def exchanged_def pending_def queue_def)
qed

text \<open>C6: on a connection seen from its start, with no loss and no reaping, the entries are exactly what a queue
  of requests would give: each response is reported with the oldest unanswered request (at most \<open>reqBacklogCap\<close> of
  them waiting), responses with no request are dropped, and nothing else is emitted, however requests and
  responses interleave.\<close>

theorem connection_pairs_as_fifo:
  assumes "1 \<le> cfg_maxPending cfg"
  shows "exchanged (conn_run pick cfg key proto src dst ops newPipeline) = fifo_run ops []"
  using assms by (rule conn_run_fifo)

theorem connection_pairs_as_fifo_witness:
  "exchanged (conn_run hd some_cfg ''k'' ProtocolPostgres zero_Endpoint zero_Endpoint
      [Req 1 (zero_Payload\<lparr>pl_Query := ''a''\<rparr>), Req 2 (zero_Payload\<lparr>pl_Query := ''b''\<rparr>),
       Resp 3 (zero_Payload\<lparr>pl_Body := ''A''\<rparr>), Resp 4 (zero_Payload\<lparr>pl_Body := ''B''\<rparr>)] newPipeline)
    = [(zero_Payload\<lparr>pl_Query := ''a''\<rparr>, zero_Payload\<lparr>pl_Body := ''A''\<rparr>), (zero_Payload\<lparr>pl_Query := ''b''\<rparr>, zero_Payload\<lparr>pl_Body := ''B''\<rparr>)]"
  by (subst connection_pairs_as_fifo)
    (simp_all add: some_cfg_def fifo_push_def reqBacklogCap_def depth_payload_def zero_Payload_def)


subsection \<open>Reserved requests\<close>

text \<open>A response that overtakes the body of its request is not lost: it is parked on the reserved slot, the slot
  leaves the queue so that no other response can take it, and filling the slot in hands exactly that response back to the
  request goroutine, once; the request it then reports has the body and everything recorded when it was reserved.\<close>

theorem parked_response_handed_over:
  assumes "queue key P = a # q" "a < length (p_cells P)" "p_cells P ! a = pr" "\<not> pr_filled pr"
  shows "\<exists>P1 P2. complete_try key resp code status fb P = (Parked a, P1) \<and> queue key P1 = q
    \<and> fillRequest a body tc sz raw P1 = (Some \<lparr>ps_payload = resp, ps_statusCode = code, ps_status = status, ps_firstByte = fb\<rparr>, P2)
    \<and> pr_req (p_cells P2 ! a) = (pr_req pr)\<lparr>pl_Body := body, pl_Truncated := tc, pl_Size := sz, pl_Raw := raw\<rparr>
    \<and> fst (fillRequest a body tc sz raw P2) = None"
  using assms by (auto simp: complete_try_def Let_def fillRequest_def queue_def AList.update_conv')

theorem parked_response_handed_over_witness:
  "\<exists>P1. complete_try ''k'' zero_Payload 200 ''success'' None (snd (reserveRequest hd some_cfg 5 ''k'' ProtocolHTTP zero_Payload zero_Endpoint zero_Endpoint newPipeline))
     = (Parked 0, P1)"
proof -
  let ?P = "snd (reserveRequest hd some_cfg 5 ''k'' ProtocolHTTP zero_Payload zero_Endpoint zero_Endpoint newPipeline)"
  have "queue ''k'' ?P = [0]" "0 < length (p_cells ?P)" "\<not> pr_filled (p_cells ?P ! 0)"
    by (simp_all add: reserveRequest_def appendPending_def newPipeline_def queue_def push_pending_def reqBacklogCap_def
        evictOverCapLocked_def some_cfg_def with_depth_req)
  then show ?thesis using parked_response_handed_over [of "''k''" ?P 0 "[]" "p_cells ?P ! 0" zero_Payload 200 "''success''" None] by blast
qed

subsection \<open>Reaping\<close>

lemma gc_fold_queue:
  "queue k (fold (gc_visit cutoff) ks P) = (if k \<in> set ks then filter (\<lambda>a. \<not> pr_ts (p_cells P ! a) < cutoff) (queue k P) else queue k P)
   \<and> p_cells (fold (gc_visit cutoff) ks P) = p_cells P"
proof (induction ks arbitrary: P)
  case (Cons k' ks)
  have "p_cells (gc_visit cutoff k' P) = p_cells P" by (simp add: gc_visit_def Let_def split: option.splits)
  then show ?case using Cons [of "gc_visit cutoff k' P"] by (auto simp: queue_reaped)
qed simp

text \<open>The reaper looks only at the oldest request of a connection to decide whether to visit it, and that is enough:
  since requests are queued in the order of their times, after a collection exactly the requests at least as
  young as the cutoff are still pending, on every connection.\<close>

theorem gc_keeps_exactly_fresh:
  assumes "distinct (map fst (p_conns P))" "\<And>k. sorted (map (\<lambda>a. pr_ts (p_cells P ! a)) (queue k P))"
  shows "queue k (gc_conns now P) = filter (\<lambda>a. pr_ts (p_cells P ! a) \<ge> now - 30000000000) (queue k P)"
proof (cases "k \<in> set (gc_stale (now - 30000000000) P)")
  case True
  then show ?thesis using gc_fold_queue [of k "now - 30000000000"] by (simp add: gc_conns_def Let_def not_less)
next
  case False
  have "\<not> pr_ts (p_cells P ! a) < now - 30000000000" if "a \<in> set (queue k P)" for a
  proof -
    have "queue k P \<noteq> []" using that by auto
    then obtain q where q: "map_of (p_conns P) k = Some q" using queue_present by blast
    then have "(k, q) \<in> set (p_conns P)" by (rule map_of_SomeD)
    then have "q \<noteq> []" "\<not> pr_ts (p_cells P ! hd q) < now - 30000000000" using False by (force simp: gc_stale_def)+
    moreover have "queue k P = q" using q by (simp add: queue_def)
    ultimately show ?thesis using assms(2) [of k] that by (cases q) fastforce+
  qed
  then have "filter (\<lambda>a. pr_ts (p_cells P ! a) \<ge> now - 30000000000) (queue k P) = queue k P" by (simp add: filter_id_conv not_less)
  then show ?thesis using False gc_fold_queue [of k "now - 30000000000"] by (simp add: gc_conns_def Let_def)
qed

theorem gc_keeps_exactly_fresh_witness:
  "queue ''k'' (gc_conns 50000000000 \<lparr>p_table = p_table newPipeline, p_conns = [(''k'', [0, 1])],
      p_cells = [some_req\<lparr>pr_ts := 1\<rparr>, some_req\<lparr>pr_ts := 40000000000\<rparr>], p_afPacketStreams = []\<rparr>) = [1]"
  by (subst gc_keeps_exactly_fresh) (simp_all add: queue_def)

subsection \<open>Waiting\<close>

text \<open>A response that finds no request on a connection fed by AF_PACKET is dropped at once; on any other it is paired
  if its request shows up during one of at most four waits.\<close>

theorem waiting_only_off_af_packet:
  assumes "queue key P = []"
  shows "(af_count key P > 0 \<longrightarrow> complete_loop n others key resp code status fb P = (Nothing False, P))
   \<and> (af_count key P = 0 \<longrightarrow> complete_loop (Suc n) (g # gs) key resp code status fb P = complete_loop n gs key resp code status fb (g P))"
proof -
  have "complete_try key resp code status fb P = (Nothing (af_count key P = 0), P)" using assms by (simp add: complete_try_def)
  then show ?thesis by (subst (1 2) complete_loop.simps) (simp split: nat.splits)
qed

theorem waiting_only_off_af_packet_witness:
  "complete_loop 4 [appendPending hd some_cfg ''k'' some_req] ''k'' zero_Payload 0 ''success'' None newPipeline
     = complete_loop 3 [] ''k'' zero_Payload 0 ''success'' None (appendPending hd some_cfg ''k'' some_req newPipeline)"
  using waiting_only_off_af_packet [of "''k''" newPipeline 3]
  by (simp add: newPipeline_def queue_def af_count_def numeral_eq_Suc)

text \<open>The reference count of a connection's capture streams is exact: registering and unregistering in any order in which
  no stream leaves before it came keeps the number of streams open, and the entry is gone when the last one closes.\<close>

theorem af_refcount_exact:
  "af_count k (addAFPacketStream key P) = af_count k P + (if k = key then 1 else 0)
   \<and> af_count k (removeAFPacketStream key P) = af_count k P - (if k = key then 1 else 0)
   \<and> (af_count key P \<le> 1 \<longrightarrow> map_of (p_afPacketStreams (removeAFPacketStream key P)) key = None)"
  by (auto simp: addAFPacketStream_def removeAFPacketStream_def af_count_def Let_def AList.update_conv' AList.delete_conv'
      split: option.splits)

theorem af_refcount_exact_witness:
  "map_of (p_afPacketStreams (removeAFPacketStream ''k'' (addAFPacketStream ''k'' newPipeline))) ''k'' = None"
  using af_refcount_exact [of "''k''" "''k''" "addAFPacketStream ''k'' newPipeline"]
  by (simp add: addAFPacketStream_def newPipeline_def af_count_def)

end
