(* ===== verification/Worker_Postgres.thy ===== *)
theory Worker_Postgres
  imports Worker_Wire Worker_Resp Worker_Pairing
begin

text \<open>
  The PostgreSQL dissector, \<open>internal/worker/dissect_postgres.go\<close>: message framing, the extended-query state of
  the client direction, the row and transaction state of the server direction, and the decoders for Bind,
  RowDescription and ErrorResponse.  Both directions are functions from the bytes of the stream to the
  calls on the pipeline; what \<open>rawOf\<close> returns at the \<open>n\<close>-th message is a parameter.
\<close>

datatype pg_error = PEOF | PBadFrame | PNoProgress

definition pgMaxPayload :: nat where "pgMaxPayload = 4 * 2 ^ 20"
definition pgMaxFrame :: nat where "pgMaxFrame = 2 ^ 30"
definition pgMaxStmtQueries :: nat where "pgMaxStmtQueries = 256"
definition pgMaxBindParams :: nat where "pgMaxBindParams = 2 ^ 16"

abbreviation nul :: char where "nul \<equiv> CHR 0x00"

subsection \<open>Framing\<close>

definition readPGMessage :: "string \<Rightarrow> bytes \<Rightarrow> pg_error + (char \<times> bytes) \<times> bytes" where
  "readPGMessage want br =
     (case read_byte br of None \<Rightarrow> Inl PEOF
      | Some (typ, r) \<Rightarrow>
          (case read_full 4 r of None \<Rightarrow> Inl PEOF
           | Some (lenBuf, r2) \<Rightarrow>
               let len = be32 lenBuf in
               if len < 4 \<or> len - 4 > pgMaxFrame then Inl PBadFrame
               else let n = len - 4 in
                 if typ \<notin> set want then
                   (case discard_n n r2 of None \<Rightarrow> Inl PEOF | Some r3 \<Rightarrow> Inr ((typ, []), r3))
                 else let tk = min n pgMaxPayload in
                   (case read_full tk r2 of None \<Rightarrow> Inl PEOF
                    | Some (payload, r3) \<Rightarrow>
                        (case discard_n (n - tk) r3 of None \<Rightarrow> Inl PEOF | Some r4 \<Rightarrow> Inr ((typ, payload), r4)))))"

definition peekUntyped :: "bytes \<Rightarrow> pg_error + bool" where
  "peekUntyped br = (case br of [] \<Rightarrow> Inl PEOF | b # _ \<Rightarrow> Inr (b = nul))"

definition skipUntyped :: "bytes \<Rightarrow> pg_error + unit \<times> bytes" where
  "skipUntyped br =
     (case read_full 4 br of None \<Rightarrow> Inl PEOF
      | Some (lenBuf, r) \<Rightarrow>
          let len = be32 lenBuf in
          if len < 4 \<or> len - 4 > pgMaxFrame then Inl PBadFrame
          else (case discard_n (len - 4) r of None \<Rightarrow> Inl PEOF | Some r2 \<Rightarrow> Inr ((), r2)))"

text \<open>A step that would not shorten the stream ends the loop; it never happens.\<close>

function skipLeadingUntyped :: "bytes \<Rightarrow> pg_error + bytes" where
  "skipLeadingUntyped br =
     (case peekUntyped br of Inl e \<Rightarrow> Inl e
      | Inr untyped \<Rightarrow>
          if \<not> untyped then Inr br
          else (case skipUntyped br of Inl e \<Rightarrow> Inl e
                | Inr (u, r) \<Rightarrow> if length r < length br then skipLeadingUntyped r else Inl PNoProgress))"
  by pat_completeness auto
termination
  by (relation "measure length") auto

declare skipLeadingUntyped.simps [simp del]

subsection \<open>Decoders\<close>

definition pgCStr :: "bytes \<Rightarrow> string" where
  "pgCStr b = takeWhile (\<lambda>c. c \<noteq> nul) b"

definition pgSplitCStr :: "bytes \<Rightarrow> string \<times> bytes" where
  "pgSplitCStr b = (takeWhile (\<lambda>c. c \<noteq> nul) b, tl (dropWhile (\<lambda>c. c \<noteq> nul) b))"

definition collapseWS :: "string \<Rightarrow> string" where
  "collapseWS s = join '' '' (K8_Prelude.fields s)"

definition pgQueryPayload :: "string \<Rightarrow> RawView option \<Rightarrow> Payload" where
  "pgQueryPayload q raw =
     (case capQuery (trim_space q) of (q', truncated) \<Rightarrow>
        zero_Payload\<lparr>pl_Query := q', pl_Summary := truncate_str (collapseWS q') 160, pl_Raw := raw, pl_Truncated := truncated\<rparr>)"

definition redactedParams :: "nat \<Rightarrow> string list" where
  "redactedParams n = replicate n redactedValue"

text \<open>The format codes, \<open>None\<close> when the payload is too short for them.\<close>

fun pg_formats :: "nat \<Rightarrow> bytes \<Rightarrow> (nat list \<times> bytes) option" where
  "pg_formats 0 b = Some ([], b)"
| "pg_formats (Suc k) b = (if length b < 2 then None
     else (case pg_formats k (drop 2 b) of None \<Rightarrow> None | Some (fs, r) \<Rightarrow> Some (be16 b # fs, r)))"

definition is_binary :: "nat \<Rightarrow> nat list \<Rightarrow> nat \<Rightarrow> bool" where
  "is_binary nfmt formats i = (if nfmt = 1 then formats ! 0 = 1 else if i < nfmt then formats ! i = 1 else False)"

definition render_param :: "bool \<Rightarrow> bytes \<Rightarrow> string" where
  "render_param binary v = truncate_str (if binary then CHR 0x5C # ''x'' @ hex_encode v else v) 256"

text \<open>The parameter values from the \<open>i\<close>-th on: \<open>k\<close> of them are announced.\<close>

fun pg_params :: "nat \<Rightarrow> nat \<Rightarrow> nat \<Rightarrow> nat list \<Rightarrow> bytes \<Rightarrow> string list" where
  "pg_params 0 i nfmt formats b = []"
| "pg_params (Suc k) i nfmt formats b =
     (if length b < 4 then []
      else let plen = be32 b; r = drop 4 b in
        if plen \<ge> 2 ^ 31 then ''(null)'' # pg_params k (Suc i) nfmt formats r
        else if plen > length r then []
        else render_param (is_binary nfmt formats i) (take plen r) # pg_params k (Suc i) nfmt formats (drop plen r))"

definition pgParseBind :: "bytes \<Rightarrow> string \<times> string \<times> string list" where
  "pgParseBind b0 =
     (let (portal, b1) = pgSplitCStr b0; (stmt, b2) = pgSplitCStr b1
      in if length b2 < 2 then (portal, stmt, [])
         else let nfmt = be16 b2 in
           case pg_formats nfmt (drop 2 b2) of None \<Rightarrow> (portal, stmt, [])
           | Some (formats, b3) \<Rightarrow>
               if length b3 < 2 then (portal, stmt, [])
               else let nparams = be16 b3 in
                 if nparams > pgMaxBindParams then (portal, stmt, [])
                 else (portal, stmt, pg_params nparams 0 nfmt formats (drop 2 b3)))"

definition pgTypeName :: "int \<Rightarrow> string" where
  "pgTypeName oid = (case map_of [(16, ''bool''), (17, ''bytea''), (18, ''char''), (19, ''name''), (20, ''int8''), (21, ''int2''),
       (23, ''int4''), (25, ''text''), (26, ''oid''), (114, ''json''), (700, ''float4''), (701, ''float8''), (1042, ''bpchar''),
       (1043, ''varchar''), (1082, ''date''), (1083, ''time''), (1114, ''timestamp''), (1184, ''timestamptz''), (1700, ''numeric''),
       (2950, ''uuid''), (3802, ''jsonb'')] oid of None \<Rightarrow> [] | Some n \<Rightarrow> n)"

fun pg_columns :: "nat \<Rightarrow> bytes \<Rightarrow> PGColumn list" where
  "pg_columns 0 b = []"
| "pg_columns (Suc k) b =
     (case pgSplitCStr b of (name, r) \<Rightarrow>
        if length r < 18 then []
        else let oid = int (be32 (drop 6 r))
             in \<lparr>pgc_Name = name, pgc_TypeOID = oid, pgc_Type = pgTypeName oid\<rparr> # pg_columns k (drop 18 r))"

definition pgParseRowDescription :: "bytes \<Rightarrow> PGColumn list" where
  "pgParseRowDescription b = (if length b < 2 then [] else pg_columns (be16 b) (drop 2 b))"

lemma pgSplitCStr_shorter: "length (snd (pgSplitCStr b)) \<le> length b"
  using length_dropWhile_le [of "\<lambda>c. c \<noteq> nul" b] by (simp add: pgSplitCStr_def)

text \<open>The fields of an error: type bytes with their strings, up to a zero byte.\<close>

function pg_error_fields :: "bytes \<Rightarrow> (char \<times> string) list" where
  "pg_error_fields b = (case b of [] \<Rightarrow> []
     | ft # r \<Rightarrow> if ft = nul then [] else (ft, fst (pgSplitCStr r)) # pg_error_fields (snd (pgSplitCStr r)))"
  by pat_completeness auto
termination
  by (relation "measure length") (use pgSplitCStr_shorter in \<open>auto simp: less_Suc_eq_le\<close>)

declare pg_error_fields.simps [simp del]

definition pg_error_field :: "char \<times> string \<Rightarrow> PGError \<Rightarrow> PGError" where
  "pg_error_field x e =
     (case x of (ft, v) \<Rightarrow>
        if ft = CHR ''S'' \<or> ft = CHR ''V'' then (if pge_Severity e = [] then e\<lparr>pge_Severity := v\<rparr> else e)
        else if ft = CHR ''C'' then e\<lparr>pge_Code := v\<rparr> else if ft = CHR ''M'' then e\<lparr>pge_Message := v\<rparr>
        else if ft = CHR ''D'' then e\<lparr>pge_Detail := v\<rparr> else if ft = CHR ''H'' then e\<lparr>pge_Hint := v\<rparr>
        else if ft = CHR ''W'' then e\<lparr>pge_Where := v\<rparr> else e)"

definition pgParseError :: "bytes \<Rightarrow> PGError" where
  "pgParseError b = fold pg_error_field (pg_error_fields b) zero_PGError"

text \<open>The last field of a type is the one that counts.\<close>

definition last_field :: "char \<Rightarrow> (char \<times> string) list \<Rightarrow> string" where
  "last_field ft fs = (case map_of (rev fs) ft of None \<Rightarrow> [] | Some v \<Rightarrow> v)"

definition pgErrorMessage :: "bytes \<Rightarrow> string" where
  "pgErrorMessage b =
     (let fs = pg_error_fields b; msg = last_field (CHR ''M'') fs; code = last_field (CHR ''C'') fs; sev = last_field (CHR ''S'') fs;
          out1 = (if sev \<noteq> [] then sev @ '': '' @ msg else msg);
          out = (if code \<noteq> [] then out1 @ '' ('' @ code @ '')'' else out1)
      in if out = [] then ''error'' else out)"

subsection \<open>The client direction\<close>

record pg_client =
  lastQuery :: string
  lastStmt :: string
  lastPortal :: string
  lastParams :: "string list"
  stmtQueries :: strmap

definition pg_client0 :: pg_client where
  "pg_client0 = \<lparr>lastQuery = [], lastStmt = [], lastPortal = [], lastParams = [], stmtQueries = []\<rparr>"

definition cache_stmt :: "string \<Rightarrow> string \<Rightarrow> strmap \<Rightarrow> strmap" where
  "cache_stmt name q mp = (let mp' = (if map_of mp name = None \<and> length mp \<ge> pgMaxStmtQueries then [] else mp) in AList.update name q mp')"

definition pg_parse :: "bytes \<Rightarrow> pg_client \<Rightarrow> pg_client" where
  "pg_parse payload st =
     (let (name, rest) = pgSplitCStr payload; q = fst (pgSplitCStr rest); st1 = st\<lparr>lastQuery := q, lastStmt := name\<rparr>
      in if name \<noteq> [] then st1\<lparr>stmtQueries := cache_stmt name q (stmtQueries st)\<rparr> else st1)"

definition pg_bind :: "bytes \<Rightarrow> pg_client \<Rightarrow> pg_client" where
  "pg_bind payload st =
     (let (portal, stmt, params) = pgParseBind payload; st1 = st\<lparr>lastPortal := portal, lastParams := params\<rparr>
      in if stmt \<noteq> [] then
           (case map_of (stmtQueries st) stmt of
              Some q \<Rightarrow> st1\<lparr>lastStmt := stmt, lastQuery := q\<rparr> | None \<Rightarrow> st1\<lparr>lastStmt := stmt\<rparr>)
         else st1)"

definition pg_execute_payload :: "bool \<Rightarrow> RawView option \<Rightarrow> pg_client \<Rightarrow> Payload" where
  "pg_execute_payload redactPGParams raw st =
     (let q = (if lastQuery st = [] then ''EXECUTE'' else lastQuery st);
          params = (if redactPGParams then redactedParams (length (lastParams st)) else lastParams st)
      in (pgQueryPayload q raw)\<lparr>pl_Postgres := Some (zero_PGDetail\<lparr>pg_StatementName := lastStmt st, pg_Portal := lastPortal st,
            pg_Params := params\<rparr>)\<rparr>)"

text \<open>One turn of the loop: the calls it makes, and the state it leaves.\<close>

definition pg_client_calls :: "bool \<Rightarrow> connID \<Rightarrow> RawView option \<Rightarrow> char \<Rightarrow> bytes \<Rightarrow> pg_client \<Rightarrow> pipe_call list" where
  "pg_client_calls redact c raw typ payload st =
     (let enq = (\<lambda>pl. [EnqueueRequest (conn_key c) ProtocolPostgres pl (fst (conn_endpoints c)) (snd (conn_endpoints c))]) in
      if typ = CHR ''Q'' then enq (pgQueryPayload (pgCStr payload) raw)
      else if typ = CHR ''E'' then enq (pg_execute_payload redact raw st) else [])"

definition pg_client_step :: "char \<Rightarrow> bytes \<Rightarrow> pg_client \<Rightarrow> pg_client" where
  "pg_client_step typ payload st =
     (if typ = CHR ''P'' then pg_parse payload st else if typ = CHR ''B'' then pg_bind payload st
      else if typ = CHR ''E'' then st\<lparr>lastParams := []\<rparr> else st)"

fun pg_requests :: "bool \<Rightarrow> connID \<Rightarrow> (nat \<Rightarrow> RawView option) \<Rightarrow> nat \<Rightarrow> pg_client \<Rightarrow> (char \<times> bytes) list \<Rightarrow> pipe_call list" where
  "pg_requests redact c raws n st [] = []"
| "pg_requests redact c raws n st ((typ, payload) # ms) =
     (if typ = CHR ''X'' then []
      else pg_client_calls redact c (raws n) typ payload st @ pg_requests redact c raws (Suc n) (pg_client_step typ payload st) ms)"

definition pgRequests :: "bool \<Rightarrow> connID \<Rightarrow> (nat \<Rightarrow> RawView option) \<Rightarrow> bytes \<Rightarrow> pipe_call list" where
  "pgRequests redact c raws br = (case skipLeadingUntyped br of Inl _ \<Rightarrow> []
     | Inr r \<Rightarrow> pg_requests redact c raws 0 pg_client0 (fst (read_all (readPGMessage ''QPB'') r)))"

subsection \<open>The server direction\<close>

record pg_server =
  pg_rows :: nat
  pg_cols :: "PGColumn list"
  pg_tx :: string

fun pg_responses :: "connID \<Rightarrow> (nat \<Rightarrow> RawView option) \<Rightarrow> nat \<Rightarrow> pg_server \<Rightarrow> (char \<times> bytes) list \<Rightarrow> pipe_call list" where
  "pg_responses c raws n st [] = []"
| "pg_responses c raws n st ((typ, payload) # ms) =
     (let fin = (\<lambda>pl status. CompleteResponse (conn_key c) (pl\<lparr>pl_Raw := raws n\<rparr>) 0 status None); st0 = st\<lparr>pg_rows := 0, pg_cols := []\<rparr> in
      if typ = CHR ''T'' then pg_responses c raws (Suc n) (st\<lparr>pg_cols := pgParseRowDescription payload\<rparr>) ms
      else if typ = CHR ''D'' then pg_responses c raws (Suc n) (st\<lparr>pg_rows := pg_rows st + 1\<rparr>) ms
      else if typ = CHR ''Z'' then
        pg_responses c raws (Suc n) (case payload of [] \<Rightarrow> st | b # _ \<Rightarrow> st\<lparr>pg_tx := encode_rune (byte b)\<rparr>) ms
      else if typ = CHR ''C'' then
        (let tag = pgCStr payload;
             summary = (if pg_rows st > 0 then tag @ '' ('' @ itoa (int (pg_rows st)) @ '' rows)'' else tag)
         in fin (zero_Payload\<lparr>pl_Summary := summary, pl_RowCount := int (pg_rows st),
                  pl_Postgres := Some (zero_PGDetail\<lparr>pg_Tag := tag, pg_Columns := pg_cols st, pg_TxStatus := pg_tx st\<rparr>)\<rparr>) ''success''
            # pg_responses c raws (Suc n) st0 ms)
      else if typ = CHR ''E'' then
        fin (zero_Payload\<lparr>pl_Summary := pgErrorMessage payload,
               pl_Postgres := Some (zero_PGDetail\<lparr>pg_Error := Some (pgParseError payload), pg_TxStatus := pg_tx st\<rparr>)\<rparr>) ''error''
          # pg_responses c raws (Suc n) st0 ms
      else if typ = CHR ''I'' then
        fin (zero_Payload\<lparr>pl_Summary := ''empty query'', pl_Postgres := Some (zero_PGDetail\<lparr>pg_TxStatus := pg_tx st\<rparr>)\<rparr>) ''success''
          # pg_responses c raws (Suc n) st0 ms
      else pg_responses c raws (Suc n) st ms)"

definition pgResponses :: "connID \<Rightarrow> (nat \<Rightarrow> RawView option) \<Rightarrow> bytes \<Rightarrow> pipe_call list" where
  "pgResponses c raws br = (case skipLeadingUntyped br of Inl _ \<Rightarrow> []
     | Inr r \<Rightarrow> pg_responses c raws 0 \<lparr>pg_rows = 0, pg_cols = [], pg_tx = []\<rparr> (fst (read_all (readPGMessage ''TZCE'') r)))"

definition consumePostgresID :: "bool \<Rightarrow> connID \<Rightarrow> (nat \<Rightarrow> RawView option) \<Rightarrow> bool \<Rightarrow> bytes \<Rightarrow> pipe_call list" where
  "consumePostgresID redact c raws isRequest r = (if isRequest then pgRequests redact c raws r else pgResponses c raws r)"


subsection \<open>Framing of the messages\<close>

lemma readPGMessage_frames: "frames True (readPGMessage want) br"
  by (rule frames_unfold [OF readPGMessage_def], unfold Let_def) (intro frames_intros; simp)

interpretation pg_message: framed_reader "readPGMessage want" for want
  by (rule framed_readerI) (rule readPGMessage_frames)

lemma skipUntyped_frames: "frames True skipUntyped br"
  by (rule frames_unfold [OF skipUntyped_def], unfold Let_def) (intro frames_intros; simp)

lemma skipUntyped_shorter: "skipUntyped br = Inr (u, r) \<Longrightarrow> length r < length br"
  using framesD(1) [OF skipUntyped_frames] by fastforce

lemma untyped_errors: "peekUntyped br \<noteq> Inl PNoProgress" "skipUntyped br \<noteq> Inl PNoProgress"
  by (auto simp: peekUntyped_def skipUntyped_def Let_def split: list.splits option.splits)

lemma nul_char [simp]: "char_of (0::nat) = nul"
  by code_simp

text \<open>The loop over the untyped messages that open a connection ends on every stream, because each one it
  skips takes at least its length field off the stream, and what it returns is a suffix of the stream that is empty for no
  reason but the end of it: its first byte is the type byte of a message.\<close>

theorem leading_untyped_terminates:
  "skipLeadingUntyped br \<noteq> Inl PNoProgress
   \<and> (\<forall>r. skipLeadingUntyped br = Inr r \<longrightarrow> suffix r br \<and> (\<exists>c r'. r = c # r' \<and> c \<noteq> nul))"
proof (induction br rule: skipLeadingUntyped.induct)
  case (1 br)
  show ?case
  proof (cases "peekUntyped br = Inr True")
    case False
    then show ?thesis using untyped_errors(1) [of br]
      by (subst (1 2) skipLeadingUntyped.simps) (auto simp: peekUntyped_def split: list.splits)
  next
    case True
    show ?thesis
    proof (cases "skipUntyped br")
      case (Inl e)
      then show ?thesis using True untyped_errors(2) [of br] by (subst (1 2) skipLeadingUntyped.simps) auto
    next
      case (Inr q)
      then obtain u r where skip: "skipUntyped br = Inr (u, r)" by (cases q) auto
      have less: "length r < length br" by (rule skipUntyped_shorter [OF skip])
      have "suffix r br" using framesD(1) [OF skipUntyped_frames skip] by (auto simp: suffix_def)
      then show ?thesis using 1 [OF True _ skip refl less] less skip True
        by (subst (1 2) skipLeadingUntyped.simps) (auto intro: suffix_order.trans)
    qed
  qed
qed

theorem leading_untyped_terminates_witness:
  "suffix ''Q'' (map char_of [0, 0, 0, 8::nat, 4, 210, 22, 47] @ ''Q'')"
proof -
  let ?m = "map char_of [0, 0, 0, 8::nat, 4, 210, 22, 47] @ ''Q''"
  have "be32 (map char_of [0, 0, 0, 8::nat]) = 8" by code_simp
  then have "skipUntyped ?m = Inr ((), ''Q'')"
    by (simp add: skipUntyped_def read_full_def discard_n_def pgMaxFrame_def)
  moreover have "peekUntyped ?m = Inr True" "skipLeadingUntyped ''Q'' = Inr ''Q''"
    by (simp_all add: peekUntyped_def skipLeadingUntyped.simps [of "''Q''"])
  ultimately have "skipLeadingUntyped ?m = Inr ''Q''" by (subst skipLeadingUntyped.simps) simp
  then show ?thesis using leading_untyped_terminates by blast
qed

subsection \<open>What a client writes\<close>

definition pg_encode :: "char \<times> bytes \<Rightarrow> bytes" where
  "pg_encode m = fst m # be_bytes 4 (length (snd m) + 4) @ snd m"

definition pg_untyped :: "bytes \<Rightarrow> bytes" where
  "pg_untyped b = be_bytes 4 (length b + 4) @ b"

text \<open>What is kept of a message: nothing of a type that is not looked at, and otherwise its first 4 MiB.\<close>

definition pg_kept :: "string \<Rightarrow> char \<times> bytes \<Rightarrow> char \<times> bytes" where
  "pg_kept want m = (fst m, if fst m \<in> set want then take pgMaxPayload (snd m) else [])"

lemma take_min: "take (min (length xs) n) xs = take n xs"
  by (simp add: min_def)

lemma read_pg_encoded:
  assumes "length (snd m) \<le> pgMaxFrame"
  shows "readPGMessage want (pg_encode m @ r) = Inr (pg_kept want m, r)"
proof -
  have n: "length (snd m) + 4 < 2 ^ 32" using assms by (simp add: pgMaxFrame_def)
  have "read_full 4 (be_bytes 4 (length (snd m) + 4) @ snd m @ r) = Some (be_bytes 4 (length (snd m) + 4), snd m @ r)"
    by (simp add: read_full_Some)
  then show ?thesis using assms n
    by (auto simp: readPGMessage_def pg_encode_def pg_kept_def read_byte_def Let_def wire_simps read_full_def discard_n_def take_min)
qed

lemma read_pg_end: "readPGMessage want [] = Inl PEOF"
  by (simp add: readPGMessage_def read_byte_def)

lemma pg_stream_reads:
  assumes "\<forall>m \<in> set ms. length (snd m) \<le> pgMaxFrame"
  shows "read_all (readPGMessage want) (concat (map pg_encode ms)) = (map (pg_kept want) ms, [])"
  using assms
proof (induction ms)
  case Nil
  then show ?case by (simp add: read_all_fail [of _ _ PEOF] read_pg_end)
next
  case (Cons m ms)
  then have "readPGMessage want (pg_encode m @ concat (map pg_encode ms)) = Inr (pg_kept want m, concat (map pg_encode ms))"
    by (simp add: read_pg_encoded)
  then show ?case using Cons by (simp add: pg_message.read_all_more)
qed

text \<open>Writing any sequence of PostgreSQL messages and reading the stream back gives those messages in order, each one's
  payload kept, cut at 4 MiB, or dropped according to its type, however long the payloads are up to the protocol's
  1 GiB, and nothing is left over.\<close>

theorem pg_stream_round_trip:
  assumes "\<forall>m \<in> set ms. length (snd m) \<le> pgMaxFrame"
  shows "read_all (readPGMessage want) (concat (map pg_encode ms)) = (map (pg_kept want) ms, [])"
  using assms by (rule pg_stream_reads)

theorem pg_stream_round_trip_witness:
  "read_all (readPGMessage ''QPB'') (''Q'' @ map char_of [0, 0, 0, 5::nat] @ ''x'' @ ''D'' @ map char_of [0, 0, 0, 6::nat] @ ''yz'')
     = ([(CHR ''Q'', ''x''), (CHR ''D'', [])], [])"
proof -
  have "be_bytes 4 5 = map char_of [0, 0, 0, 5::nat]" "be_bytes 4 6 = map char_of [0, 0, 0, 6::nat]" by code_simp+
  then show ?thesis using pg_stream_round_trip [of "[(CHR ''Q'', ''x''), (CHR ''D'', ''yz'')]" "''QPB''"]
    by (simp add: pg_encode_def pg_kept_def pgMaxFrame_def pgMaxPayload_def)
qed

subsection \<open>Startup\<close>

lemma untyped_head: "n < 2 ^ 24 \<Longrightarrow> \<exists>r. be_bytes 4 n = nul # r"
proof -
  assume "n < 2 ^ 24"
  then have "n div 256 div 256 div 256 = 0" by simp
  moreover have "be_bytes 4 n = be_bytes (Suc (Suc (Suc (Suc 0)))) n" by (simp add: eval_nat_numeral)
  ultimately show ?thesis by (simp add: be_bytes.simps)
qed

lemma skip_untyped_encoded:
  assumes "length b + 4 < 2 ^ 24"
  shows "skipLeadingUntyped (pg_untyped b @ r) = skipLeadingUntyped r"
proof -
  obtain t where t: "be_bytes 4 (length b + 4) = nul # t" using untyped_head [OF assms] by blast
  then have "peekUntyped (pg_untyped b @ r) = Inr True" by (simp add: peekUntyped_def pg_untyped_def)
  moreover have "read_full 4 (pg_untyped b @ r) = Some (be_bytes 4 (length b + 4), b @ r)"
    by (simp add: read_full_Some pg_untyped_def)
  then have "skipUntyped (pg_untyped b @ r) = Inr ((), r)"
    using assms by (simp add: skipUntyped_def Let_def wire_simps pgMaxFrame_def discard_n_def)
  ultimately show ?thesis by (subst skipLeadingUntyped.simps) (simp add: pg_untyped_def)
qed

lemma skip_startup:
  "\<forall>b \<in> set us. length b + 4 < 2 ^ 24 \<Longrightarrow> skipLeadingUntyped (concat (map pg_untyped us) @ r) = skipLeadingUntyped r"
  by (induction us) (simp_all add: skip_untyped_encoded)

lemma pg_startup_messages:
  assumes "\<forall>b \<in> set us. length b + 4 < 2 ^ 24" "\<forall>m \<in> set ms. length (snd m) \<le> pgMaxFrame \<and> fst m \<noteq> nul"
  shows "(case skipLeadingUntyped (concat (map pg_untyped us) @ concat (map pg_encode ms)) of Inl _ \<Rightarrow> []
      | Inr r \<Rightarrow> fst (read_all (readPGMessage want) r)) = map (pg_kept want) ms"
proof (cases ms)
  case Nil
  then show ?thesis using skip_startup [OF assms(1), of "[]"] by (simp add: skipLeadingUntyped.simps [of "[]"] peekUntyped_def)
next
  case (Cons m ms')
  then have "skipLeadingUntyped (concat (map pg_encode ms)) = Inr (concat (map pg_encode ms))"
    using assms by (subst skipLeadingUntyped.simps) (simp add: peekUntyped_def pg_encode_def)
  moreover have "read_all (readPGMessage want) (concat (map pg_encode ms)) = (map (pg_kept want) ms, [])"
    using assms(2) by (intro pg_stream_reads) blast
  ultimately show ?thesis by (simp only: skip_startup [OF assms(1)] sum.case fst_conv)
qed

lemma pgRequests_messages:
  "pgRequests redact c raws br = pg_requests redact c raws 0 pg_client0
     (case skipLeadingUntyped br of Inl _ \<Rightarrow> [] | Inr r \<Rightarrow> fst (read_all (readPGMessage ''QPB'') r))"
  by (cases "skipLeadingUntyped br") (simp_all add: pgRequests_def)

lemma pgResponses_messages:
  "pgResponses c raws br = pg_responses c raws 0 \<lparr>pg_rows = 0, pg_cols = [], pg_tx = []\<rparr>
     (case skipLeadingUntyped br of Inl _ \<Rightarrow> [] | Inr r \<Rightarrow> fst (read_all (readPGMessage ''TZCE'') r))"
  by (cases "skipLeadingUntyped br") (simp_all add: pgResponses_def)

subsection \<open>What a client means\<close>

datatype pg_front =
  FQuery string
| FParse string string bytes
| FBind string string "nat list" "bytes option list" bytes
| FExecute bytes
| FOther char bytes

definition param_encode :: "bytes option \<Rightarrow> bytes" where
  "param_encode p = (case p of None \<Rightarrow> be_bytes 4 (2 ^ 32 - 1) | Some v \<Rightarrow> be_bytes 4 (length v) @ v)"

definition bind_encode :: "string \<Rightarrow> string \<Rightarrow> nat list \<Rightarrow> bytes option list \<Rightarrow> bytes \<Rightarrow> bytes" where
  "bind_encode portal stmt fmts ps tail = portal @ nul # stmt @ nul # be_bytes 2 (length fmts) @ concat (map (be_bytes 2) fmts)
     @ be_bytes 2 (length ps) @ concat (map param_encode ps) @ tail"

fun front_msg :: "pg_front \<Rightarrow> char \<times> bytes" where
  "front_msg (FQuery q) = (CHR ''Q'', q @ [nul])"
| "front_msg (FParse name q tail) = (CHR ''P'', name @ nul # q @ nul # tail)"
| "front_msg (FBind portal stmt fmts ps tail) = (CHR ''B'', bind_encode portal stmt fmts ps tail)"
| "front_msg (FExecute tail) = (CHR ''E'', tail)"
| "front_msg (FOther t b) = (t, b)"

fun front_ok :: "pg_front \<Rightarrow> bool" where
  "front_ok (FQuery q) = (nul \<notin> set q)"
| "front_ok (FParse name q tail) = (nul \<notin> set name \<and> nul \<notin> set q)"
| "front_ok (FBind portal stmt fmts ps tail) = (nul \<notin> set portal \<and> nul \<notin> set stmt \<and> length fmts < 2 ^ 16 \<and> (\<forall>f \<in> set fmts. f < 2 ^ 16)
     \<and> length ps < 2 ^ 16 \<and> (\<forall>p \<in> set ps. case p of None \<Rightarrow> True | Some v \<Rightarrow> length v < 2 ^ 31))"
| "front_ok (FExecute tail) = True"
| "front_ok (FOther t b) = (t \<notin> set ''QPBEX'' \<and> t \<noteq> nul)"

definition rendered :: "nat list \<Rightarrow> nat \<Rightarrow> bytes option list \<Rightarrow> string list" where
  "rendered fmts i ps = map (\<lambda>(j, p). case p of None \<Rightarrow> ''(null)'' | Some v \<Rightarrow> render_param (is_binary (length fmts) fmts j) v) (List.enumerate i ps)"

lemma pgSplitCStr_encoded: "nul \<notin> set s \<Longrightarrow> pgSplitCStr (s @ nul # r) = (s, r)"
  by (induction s) (auto simp: pgSplitCStr_def)

lemma pgCStr_encoded: "nul \<notin> set s \<Longrightarrow> pgCStr (s @ nul # r) = s"
  by (induction s) (auto simp: pgCStr_def)

lemma pg_formats_encoded:
  "\<forall>f \<in> set fmts. f < 2 ^ 16 \<Longrightarrow> pg_formats (length fmts) (concat (map (be_bytes 2) fmts) @ r) = Some (fmts, r)"
  by (induction fmts) (simp_all add: wire_simps)

lemma pg_params_encoded:
  "\<forall>p \<in> set ps. case p of None \<Rightarrow> True | Some v \<Rightarrow> length v < 2 ^ 31 \<Longrightarrow>
     pg_params (length ps) i (length fmts) fmts (concat (map param_encode ps) @ r) = rendered fmts i ps"
proof (induction ps arbitrary: i)
  case (Cons p ps)
  show ?case
  proof (cases p)
    case None
    then show ?thesis using Cons by (simp add: param_encode_def rendered_def wire_simps)
  next
    case (Some v)
    then show ?thesis using Cons by (simp add: param_encode_def rendered_def wire_simps)
  qed
qed (simp add: rendered_def)

lemma pgParseBind_encoded:
  assumes "front_ok (FBind portal stmt fmts ps tail)"
  shows "pgParseBind (bind_encode portal stmt fmts ps tail) = (portal, stmt, rendered fmts 0 ps)"
proof -
  have "pg_formats (length fmts) (concat (map (be_bytes 2) fmts) @ be_bytes 2 (length ps) @ concat (map param_encode ps) @ tail)
      = Some (fmts, be_bytes 2 (length ps) @ concat (map param_encode ps) @ tail)"
    using assms by (intro pg_formats_encoded) simp
  then show ?thesis using assms
    by (simp add: pgParseBind_def bind_encode_def pgSplitCStr_encoded Let_def wire_simps pgMaxBindParams_def pg_params_encoded)
qed

text \<open>The reference: what the server executes.  It keeps every prepared statement, the unnamed one included, and
  what the last Bind put together; each execution is reported with its message number.\<close>

record pg_portal =
  po_query :: string
  po_stmt :: string
  po_name :: string
  po_params :: "string list"

fun pg_meaning :: "nat \<Rightarrow> (string \<rightharpoonup> string) \<Rightarrow> pg_portal \<Rightarrow> pg_front list \<Rightarrow> (nat \<times> (string + pg_portal)) list" where
  "pg_meaning n S po [] = []"
| "pg_meaning n S po (FQuery q # fs) = (n, Inl q) # pg_meaning (Suc n) S po fs"
| "pg_meaning n S po (FParse name q tail # fs) = pg_meaning (Suc n) (S(name \<mapsto> q)) po fs"
| "pg_meaning n S po (FBind portal stmt fmts ps tail # fs) =
     pg_meaning (Suc n) S \<lparr>po_query = the (S stmt), po_stmt = stmt, po_name = portal, po_params = rendered fmts 0 ps\<rparr> fs"
| "pg_meaning n S po (FExecute tail # fs) = (n, Inr po) # pg_meaning (Suc n) S po fs"
| "pg_meaning n S po (FOther t b # fs) = pg_meaning (Suc n) S po fs"

definition meaning_call :: "connID \<Rightarrow> (nat \<Rightarrow> RawView option) \<Rightarrow> nat \<times> (string + pg_portal) \<Rightarrow> pipe_call" where
  "meaning_call c raws x = EnqueueRequest (conn_key c) ProtocolPostgres
     (case snd x of Inl q \<Rightarrow> pgQueryPayload q (raws (fst x))
      | Inr po \<Rightarrow> (pgQueryPayload (if po_query po = [] then ''EXECUTE'' else po_query po) (raws (fst x)))\<lparr>pl_Postgres :=
          Some (zero_PGDetail\<lparr>pg_StatementName := po_stmt po, pg_Portal := po_name po, pg_Params := po_params po\<rparr>)\<rparr>)
     (fst (conn_endpoints c)) (snd (conn_endpoints c))"

text \<open>The discipline of the drivers: a Bind names a statement that was prepared, the unnamed one only when nothing was
  prepared or bound since it was; an Execute follows its Bind; and no more than 256 names are in use.  \<open>N\<close> holds the names
  prepared, \<open>ls\<close> the statement of the last Parse or Bind, \<open>fresh\<close> whether a Bind waits for its Execute.\<close>

fun disciplined :: "string set \<Rightarrow> string \<Rightarrow> bool \<Rightarrow> pg_front list \<Rightarrow> bool" where
  "disciplined N ls fresh [] = True"
| "disciplined N ls fresh (FParse name q tail # fs) =
     (card (insert name N - {[]}) \<le> pgMaxStmtQueries \<and> disciplined (insert name N) name False fs)"
| "disciplined N ls fresh (FBind portal stmt fmts ps tail # fs) =
     (stmt \<in> N \<and> (stmt = [] \<longrightarrow> ls = []) \<and> disciplined N stmt True fs)"
| "disciplined N ls fresh (FExecute tail # fs) = (fresh \<and> disciplined N ls False fs)"
| "disciplined N ls fresh (f # fs) = disciplined N ls fresh fs"

definition pg_agrees :: "pg_client \<Rightarrow> (string \<rightharpoonup> string) \<Rightarrow> pg_portal \<Rightarrow> string set \<Rightarrow> string \<Rightarrow> bool \<Rightarrow> bool" where
  "pg_agrees st S po N ls fresh \<longleftrightarrow> finite N \<and> lastStmt st = ls \<and> distinct (map fst (stmtQueries st))
     \<and> set (map fst (stmtQueries st)) = N - {[]} \<and> (\<forall>n \<in> N - {[]}. map_of (stmtQueries st) n = S n)
     \<and> ([] \<in> N \<and> ls = [] \<longrightarrow> S [] = Some (lastQuery st))
     \<and> (fresh \<longrightarrow> po = \<lparr>po_query = lastQuery st, po_stmt = ls, po_name = lastPortal st, po_params = lastParams st\<rparr>)"

lemma agrees_count: "pg_agrees st S po N ls fresh \<Longrightarrow> length (stmtQueries st) = card (N - {[]})"
  unfolding pg_agrees_def by (metis distinct_card length_map)

lemma agrees_parse:
  assumes "pg_agrees st S po N ls fresh" "nul \<notin> set name" "nul \<notin> set q" "card (insert name N - {[]}) \<le> pgMaxStmtQueries"
  shows "pg_agrees (pg_parse (name @ nul # q @ nul # tail) st) (S(name \<mapsto> q)) po (insert name N) name False"
proof -
  let ?st = "pg_parse (name @ nul # q @ nul # tail) st"
  have st: "?st = (if name \<noteq> [] then st\<lparr>lastQuery := q, lastStmt := name, stmtQueries := cache_stmt name q (stmtQueries st)\<rparr>
      else st\<lparr>lastQuery := q, lastStmt := name\<rparr>)"
    using assms by (simp add: pg_parse_def pgSplitCStr_encoded)
  have keys: "set (map fst (stmtQueries st)) = N - {[]}" and fin: "finite N" using assms(1) by (auto simp: pg_agrees_def)
  have roomy: "cache_stmt name q (stmtQueries st) = AList.update name q (stmtQueries st)" if "name \<noteq> []"
  proof (cases "name \<in> N")
    case True
    then have "map_of (stmtQueries st) name \<noteq> None" using keys that by (simp add: map_of_eq_None_iff)
    then show ?thesis by (auto simp: cache_stmt_def)
  next
    case False
    then have "card (insert name N - {[]}) = Suc (card (N - {[]}))" using that fin by (simp add: insert_Diff_if)
    then show ?thesis using assms(4) agrees_count [OF assms(1)] by (simp add: cache_stmt_def)
  qed
  show ?thesis
  proof (cases "name = []")
    case True
    then show ?thesis using assms(1) st by (auto simp: pg_agrees_def)
  next
    case False
    then have "map_of (AList.update name q (stmtQueries st)) n = (S(name \<mapsto> q)) n" if "n \<in> insert name N - {[]}" for n
      using that assms(1) by (auto simp: pg_agrees_def AList.update_conv')
    then show ?thesis using False st roomy assms(1)
      by (auto simp: pg_agrees_def AList.distinct_update AList.dom_update)
  qed
qed

lemma agrees_bind:
  assumes "pg_agrees st S po N ls fresh" "front_ok (FBind portal stmt fmts ps tail)" "stmt \<in> N" "stmt = [] \<longrightarrow> ls = []"
  shows "pg_agrees (pg_bind (bind_encode portal stmt fmts ps tail) st) S
     \<lparr>po_query = the (S stmt), po_stmt = stmt, po_name = portal, po_params = rendered fmts 0 ps\<rparr> N stmt True"
proof -
  have b: "pgParseBind (bind_encode portal stmt fmts ps tail) = (portal, stmt, rendered fmts 0 ps)"
    by (rule pgParseBind_encoded [OF assms(2)])
  show ?thesis
  proof (cases "stmt = []")
    case True
    then show ?thesis using assms b by (simp add: pg_agrees_def pg_bind_def Let_def)
  next
    case False
    then have k: "stmt \<in> set (map fst (stmtQueries st))" "map_of (stmtQueries st) stmt = S stmt"
      using assms by (auto simp: pg_agrees_def)
    then obtain q where q: "map_of (stmtQueries st) stmt = Some q" by (metis map_of_eq_None_iff option.exhaust list.set_map)
    then show ?thesis using assms(1) False b k by (simp add: pg_agrees_def pg_bind_def Let_def)
  qed
qed

lemma kept_small: "length b \<le> pgMaxPayload \<Longrightarrow> pg_kept want (t, b) = (t, if t \<in> set want then b else [])"
  by (simp add: pg_kept_def)

lemma requests_mean:
  assumes "\<forall>f \<in> set fs. front_ok f \<and> length (snd (front_msg f)) \<le> pgMaxPayload" "disciplined N ls fresh fs" "pg_agrees st S po N ls fresh"
  shows "pg_requests False c raws n st (map (pg_kept ''QPB'' \<circ> front_msg) fs) = map (meaning_call c raws) (pg_meaning n S po fs)"
  using assms
proof (induction fs arbitrary: n st S po N ls fresh)
  case (Cons f fs)
  show ?case
  proof (cases f)
    case (FQuery q)
    then show ?thesis using Cons
      by (simp add: kept_small pg_client_calls_def pg_client_step_def Let_def pgCStr_encoded meaning_call_def)
  next
    case (FParse name q tail)
    then have "pg_agrees (pg_parse (name @ nul # q @ nul # tail) st) (S(name \<mapsto> q)) po (insert name N) name False"
      using Cons.prems by (intro agrees_parse) auto
    note Cons.IH [OF _ _ this, of "Suc n"]
    then show ?thesis using FParse Cons.prems by (simp add: kept_small pg_client_calls_def pg_client_step_def del: fun_upd_apply)
  next
    case (FBind portal stmt fmts ps tail)
    then have "pg_agrees (pg_bind (bind_encode portal stmt fmts ps tail) st) S
     \<lparr>po_query = the (S stmt), po_stmt = stmt, po_name = portal, po_params = rendered fmts 0 ps\<rparr> N stmt True"
      using Cons.prems by (intro agrees_bind) auto
    note Cons.IH [OF _ _ this, of "Suc n"]
    then show ?thesis using FBind Cons.prems by (simp add: kept_small pg_client_calls_def pg_client_step_def)
  next
    case (FExecute tail)
    then have "pg_agrees (st\<lparr>lastParams := []\<rparr>) S po N ls False" using Cons.prems by (simp add: pg_agrees_def)
    moreover have "po = \<lparr>po_query = lastQuery st, po_stmt = lastStmt st, po_name = lastPortal st, po_params = lastParams st\<rparr>"
      using FExecute Cons.prems by (simp add: pg_agrees_def)
    ultimately show ?thesis using FExecute Cons.prems Cons.IH [of N ls False "st\<lparr>lastParams := []\<rparr>" S po "Suc n"]
      by (simp add: kept_small pg_client_calls_def pg_client_step_def pg_execute_payload_def Let_def meaning_call_def)
  next
    case (FOther t b)
    then show ?thesis using Cons
      by (simp add: kept_small pg_client_calls_def pg_client_step_def)
  qed
qed simp



subsection \<open>Redaction and bounds\<close>

fun redact_call :: "pipe_call \<Rightarrow> pipe_call" where
  "redact_call (EnqueueRequest k p pl s d) = EnqueueRequest k p (pl\<lparr>pl_Postgres :=
     map_option (\<lambda>x. x\<lparr>pg_Params := replicate (length (pg_Params x)) redactedValue\<rparr>) (pl_Postgres pl)\<rparr>) s d"
| "redact_call x = x"

lemma redact_calls: "pg_client_calls True c raw typ payload st = map redact_call (pg_client_calls False c raw typ payload st)"
  by (simp add: pg_client_calls_def pg_execute_payload_def pgQueryPayload_def redactedParams_def zero_Payload_def Let_def case_prod_unfold)

lemma redact_requests: "pg_requests True c raws n st ms = map redact_call (pg_requests False c raws n st ms)"
proof (induction ms arbitrary: n st)
  case (Cons m ms)
  then show ?case by (cases m) (simp add: redact_calls)
qed simp

text \<open>With \<open>redactPGParams\<close> set, what the dissector publishes of any client stream is what it publishes without it, each
  bound parameter replaced by the placeholder: no parameter value gets through, and how many there were, the query, the
  statement and the portal are kept.\<close>

theorem pg_params_redacted:
  "pgRequests True c raws br = map redact_call (pgRequests False c raws br)"
  by (cases "skipLeadingUntyped br") (simp_all add: pgRequests_def redact_requests)

lemma cache_stmt_bounded:
  "length mp \<le> pgMaxStmtQueries \<Longrightarrow> length (cache_stmt name q mp) \<le> pgMaxStmtQueries"
  by (auto simp: cache_stmt_def Let_def length_update_key map_of_eq_None_iff pgMaxStmtQueries_def)

lemma client_step_bounded:
  "length (stmtQueries st) \<le> pgMaxStmtQueries \<Longrightarrow> length (stmtQueries (pg_client_step typ payload st)) \<le> pgMaxStmtQueries"
  by (auto simp: pg_client_step_def pg_parse_def pg_bind_def Let_def cache_stmt_bounded split: prod.splits option.splits)

text \<open>Whatever a client sends, no connection ever remembers more than \<open>pgMaxStmtQueries\<close> prepared statements.\<close>

theorem stmt_cache_bounded:
  "length (stmtQueries (fold (\<lambda>(typ, payload). pg_client_step typ payload) ms pg_client0)) \<le> pgMaxStmtQueries"
proof -
  have "length (stmtQueries (fold (\<lambda>(typ, payload). pg_client_step typ payload) ms st)) \<le> pgMaxStmtQueries"
    if "length (stmtQueries st) \<le> pgMaxStmtQueries" for st
    using that by (induction ms arbitrary: st) (auto simp: client_step_bounded)
  then show ?thesis by (simp add: pg_client0_def)
qed

subsection \<open>What the server answers\<close>

record pg_result =
  re_desc :: bytes
  re_rows :: "bytes list"
  re_tag :: string
  re_tx :: char

definition result_msgs :: "pg_result \<Rightarrow> (char \<times> bytes) list" where
  "result_msgs re = (CHR ''T'', re_desc re) # map (Pair (CHR ''D'')) (re_rows re) @ [(CHR ''C'', re_tag re @ [nul]), (CHR ''Z'', [re_tx re])]"

definition result_ok :: "pg_result \<Rightarrow> bool" where
  "result_ok re \<longleftrightarrow> length (re_desc re) \<le> pgMaxPayload \<and> (\<forall>r \<in> set (re_rows re). length r \<le> pgMaxFrame)
     \<and> nul \<notin> set (re_tag re) \<and> length (re_tag re) < pgMaxPayload"

text \<open>One completion per result, made at the message that carries its tag, with the number of its rows; the transaction
  status is the one the server reported before, since its report for this result is still to come.\<close>

fun result_calls :: "connID \<Rightarrow> (nat \<Rightarrow> RawView option) \<Rightarrow> nat \<Rightarrow> string \<Rightarrow> pg_result list \<Rightarrow> pipe_call list" where
  "result_calls c raws n tx [] = []"
| "result_calls c raws n tx (re # rs) =
     (let k = length (re_rows re) in
      CompleteResponse (conn_key c) (zero_Payload\<lparr>pl_Summary := (if k > 0 then re_tag re @ '' ('' @ itoa (int k) @ '' rows)'' else re_tag re),
          pl_RowCount := int k, pl_Postgres := Some (zero_PGDetail\<lparr>pg_Tag := re_tag re, pg_Columns := pgParseRowDescription (re_desc re),
          pg_TxStatus := tx\<rparr>), pl_Raw := raws (n + k + 1)\<rparr>) 0 ''success'' None
      # result_calls c raws (n + k + 3) (encode_rune (byte (re_tx re))) rs)"

lemma rows_counted:
  "pg_responses c raws n st (map (\<lambda>_. (CHR ''D'', [])) rows @ ms)
     = pg_responses c raws (n + length rows) (st\<lparr>pg_rows := pg_rows st + length rows\<rparr>) ms"
proof (induction rows arbitrary: n st)
  case (Cons r rows)
  show ?case using Cons [of "Suc n" "st\<lparr>pg_rows := pg_rows st + 1\<rparr>"] by simp
qed simp

lemma kept_result:
  assumes "result_ok re"
  shows "map (pg_kept ''TZCE'') (result_msgs re)
    = (CHR ''T'', re_desc re) # map (\<lambda>_. (CHR ''D'', [])) (re_rows re) @ [(CHR ''C'', re_tag re @ [nul]), (CHR ''Z'', [re_tx re])]"
  using assms by (auto simp: result_msgs_def pg_kept_def result_ok_def pgMaxPayload_def take_Cons')

lemma responses_results:
  "\<forall>re \<in> set rs. result_ok re \<Longrightarrow> pg_responses c raws n \<lparr>pg_rows = 0, pg_cols = [], pg_tx = tx\<rparr>
     (concat (map (map (pg_kept ''TZCE'') \<circ> result_msgs) rs)) = result_calls c raws n tx rs"
proof (induction rs arbitrary: n tx)
  case (Cons re rs)
  have "pgCStr (re_tag re @ [nul]) = re_tag re" using Cons.prems by (intro pgCStr_encoded) (simp add: result_ok_def)
  then show ?case using Cons
    by (simp add: kept_result rows_counted Let_def zero_Payload_def numeral_3_eq_3)
qed simp

text \<open>On a server stream that answers statements with result sets, each result is reported exactly once, with its
  command tag, its column names and types and the number of its rows however large they are, in the order of
  the answers.\<close>

theorem pg_results_counted:
  assumes "\<forall>re \<in> set rs. result_ok re"
  shows "pgResponses c raws (concat (map pg_encode (concat (map result_msgs rs)))) = result_calls c raws 0 [] rs"
proof -
  let ?ms = "concat (map result_msgs rs)"
  have ms: "\<forall>m \<in> set ?ms. length (snd m) \<le> pgMaxFrame \<and> fst m \<noteq> nul"
    using assms by (fastforce simp: result_msgs_def result_ok_def pgMaxFrame_def pgMaxPayload_def)
  have "pgResponses c raws (concat (map pg_encode ?ms))
      = pg_responses c raws 0 \<lparr>pg_rows = 0, pg_cols = [], pg_tx = []\<rparr> (map (pg_kept ''TZCE'') ?ms)"
    unfolding pgResponses_messages using pg_startup_messages [of "[]", OF _ ms, of "''TZCE''"] by simp
  then show ?thesis using responses_results [OF assms, of c raws 0 "[]"] by (simp add: map_concat)
qed

theorem pg_results_counted_witness:
  "pgResponses some_conn (\<lambda>_. None) (concat (map pg_encode (concat (map result_msgs
      [\<lparr>re_desc = [], re_rows = [''a'', ''bc''], re_tag = ''SELECT 2'', re_tx = CHR ''I''\<rparr>]))))
    = [CompleteResponse (conn_key some_conn) (zero_Payload\<lparr>pl_Summary := ''SELECT 2 (2 rows)'', pl_RowCount := 2,
         pl_Postgres := Some (zero_PGDetail\<lparr>pg_Tag := ''SELECT 2''\<rparr>)\<rparr>) 0 ''success'' None]"
proof -
  have i: "itoa 2 = ''2''" "pgParseRowDescription [] = []" by code_simp+
  have e: "zero_PGDetail\<lparr>pg_Tag := t, pg_Columns := [], pg_TxStatus := []\<rparr> = zero_PGDetail\<lparr>pg_Tag := t\<rparr>" for t
    by (simp add: zero_PGDetail_def)
  show ?thesis
    by (subst pg_results_counted) (simp_all add: result_ok_def pgMaxPayload_def pgMaxFrame_def i e zero_Payload_def)
qed

subsection \<open>Where it goes wrong\<close>

text \<open>A plaintext server first answers the \<open>SSLRequest\<close> of a client that prefers TLS with the single byte \<open>N\<close>.  The server
  direction takes that byte for the type of a message, reads a length out of the message that follows, gives up, and reports
  none of the responses of the connection, whatever they are; the client direction of the same connection is read.\<close>

theorem ssl_refusal_hides_responses:
  assumes "length auth + 4 < 2 ^ 24"
  shows "pgResponses c raws (''N'' @ pg_encode (CHR ''R'', auth) @ rest) = []"
proof -
  obtain x y z where b: "be_bytes 4 (length auth + 4) = [nul, x, y, z]"
  proof -
    obtain t where t: "be_bytes 4 (length auth + 4) = nul # t" using untyped_head [OF assms] by blast
    then have "length t = 3" using wire_lengths(1) [of 4 "length auth + 4"] by simp
    then show ?thesis using that t by (auto simp: numeral_3_eq_3 length_Suc_conv)
  qed
  let ?s = "''N'' @ pg_encode (CHR ''R'', auth) @ rest"
  have full: "read_full 4 (CHR ''R'' # nul # x # y # z # auth @ rest) = Some ([CHR ''R'', nul, x, y], z # auth @ rest)"
    by (simp add: read_full_Some)
  have "be32 [CHR ''R'', nul, x, y] - 4 > pgMaxFrame" by (simp add: be32_def pgMaxFrame_def)
  then have "readPGMessage want ?s = Inl PBadFrame" for want
    by (simp add: readPGMessage_def read_byte_def pg_encode_def b full Let_def)
  then have "read_all (readPGMessage want) ?s = ([], ?s)" for want by (rule read_all_fail)
  moreover have "skipLeadingUntyped ?s = Inr ?s" by (subst skipLeadingUntyped.simps) (simp add: peekUntyped_def)
  ultimately show ?thesis by (simp add: pgResponses_def)
qed

theorem ssl_refusal_hides_responses_witness:
  "pgResponses some_conn (\<lambda>_. None) (''N'' @ pg_encode (CHR ''R'', replicate 4 nul) @ pg_encode (CHR ''C'', ''SELECT 1'')) = []"
  by (rule ssl_refusal_hides_responses) simp

lemma client0_fields: "lastQuery pg_client0 = []" "lastStmt pg_client0 = []" "lastPortal pg_client0 = []"
    "lastParams pg_client0 = []" "stmtQueries pg_client0 = []"
  by (simp_all add: pg_client0_def)

lemma requests_of_front:
  assumes "\<forall>f \<in> set fs. front_ok f \<and> length (snd (front_msg f)) \<le> pgMaxPayload"
  shows "pgRequests redact c raws (concat (map (pg_encode \<circ> front_msg) fs))
     = pg_requests redact c raws 0 pg_client0 (map (pg_kept ''QPB'' \<circ> front_msg) fs)"
proof -
  have "fst (front_msg f) \<noteq> nul" if "front_ok f" for f using that by (cases f) auto
  then have ms: "\<forall>m \<in> set (map front_msg fs). length (snd m) \<le> pgMaxFrame \<and> fst m \<noteq> nul"
    using assms by (auto simp: pgMaxFrame_def pgMaxPayload_def)
  show ?thesis using pg_startup_messages [of "[]", OF _ ms, of "''QPB''"] by (simp add: pgRequests_messages)
qed

text \<open>The discipline is needed.  The unnamed statement is not kept beside the named ones: when a client prepares it, prepares
  a named statement and then binds and executes the unnamed one, the server runs the first statement and the
  dissector reports the text and the name of the second.\<close>

theorem unnamed_statement_misreported:
  assumes "front_ok (FParse name q2 [])" "front_ok (FParse [] q1 [])" "name \<noteq> []" "q2 \<noteq> []"
    and "length name + length q2 + 2 \<le> pgMaxPayload" "length q1 + 2 \<le> pgMaxPayload"
  defines "fs \<equiv> [FParse [] q1 [], FParse name q2 [], FBind [] [] [] [] [], FExecute []]"
  shows "pg_meaning 0 Map.empty po fs = [(3, Inr \<lparr>po_query = q1, po_stmt = [], po_name = [], po_params = []\<rparr>)]
    \<and> pgRequests False c raws (concat (map (pg_encode \<circ> front_msg) fs))
        = [meaning_call c raws (3, Inr \<lparr>po_query = q2, po_stmt = name, po_name = [], po_params = []\<rparr>)]"
proof
  show "pg_meaning 0 Map.empty po fs = [(3, Inr \<lparr>po_query = q1, po_stmt = [], po_name = [], po_params = []\<rparr>)]"
    using assms(3) by (simp add: fs_def rendered_def)
  have ok: "\<forall>f \<in> set fs. front_ok f \<and> length (snd (front_msg f)) \<le> pgMaxPayload"
    using assms by (simp add: fs_def bind_encode_def pgMaxPayload_def)
  have b: "pgParseBind (bind_encode [] [] [] [] []) = ([], [], [])"
    by (subst pgParseBind_encoded) (simp_all add: rendered_def)
  have split: "pgSplitCStr (nul # r) = ([], r)" for r by (simp add: pgSplitCStr_def)
  have s1: "pg_parse (nul # q1 @ [nul]) pg_client0 = pg_client0\<lparr>lastQuery := q1\<rparr>"
    using assms(2) by (simp add: pg_parse_def split pgSplitCStr_encoded pg_client0_def)
  have s2: "pg_parse (name @ nul # q2 @ [nul]) (pg_client0\<lparr>lastQuery := q1\<rparr>)
      = pg_client0\<lparr>lastQuery := q2, lastStmt := name, stmtQueries := [(name, q2)]\<rparr>"
    using assms(1,3) by (simp add: pg_parse_def pgSplitCStr_encoded pg_client0_def cache_stmt_def pgMaxStmtQueries_def)
  show "pgRequests False c raws (concat (map (pg_encode \<circ> front_msg) fs))
        = [meaning_call c raws (3, Inr \<lparr>po_query = q2, po_stmt = name, po_name = [], po_params = []\<rparr>)]"
    unfolding requests_of_front [OF ok] using ok assms(4)
    by (simp add: fs_def kept_small pg_client_step_def pg_client_calls_def s1 s2 pg_bind_def b pg_execute_payload_def
        client0_fields meaning_call_def numeral_3_eq_3)
qed

theorem unnamed_statement_misreported_witness:
  "pgRequests False some_conn (\<lambda>_. None) (concat (map (pg_encode \<circ> front_msg)
      [FParse [] ''drop table t'' [], FParse ''s'' ''select 1'' [], FBind [] [] [] [] [], FExecute []]))
    = [meaning_call some_conn (\<lambda>_. None) (3, Inr \<lparr>po_query = ''select 1'', po_stmt = ''s'', po_name = [], po_params = []\<rparr>)]"
  using unnamed_statement_misreported [of "''s''" "''select 1''" "''drop table t''" _ some_conn "\<lambda>_. None"] by (simp add: pgMaxPayload_def)

text \<open>A portal read in batches: all batches but the last end in PortalSuspended, which completes no request.\<close>

lemma responses_of_messages:
  assumes "\<forall>m \<in> set ms. length (snd m) \<le> pgMaxFrame \<and> fst m \<noteq> nul"
  shows "pgResponses c raws (concat (map pg_encode ms))
     = pg_responses c raws 0 \<lparr>pg_rows = 0, pg_cols = [], pg_tx = []\<rparr> (map (pg_kept ''TZCE'') ms)"
  using pg_startup_messages [of "[]", OF _ assms, of "''TZCE''"] by (simp add: pgResponses_messages)

text \<open>A portal fetched in batches shifts the pairing of its connection.  The batches that end in PortalSuspended
  leave their Execute waiting, so the answer to the last one is reported with the first Execute, and the answer to the next
  query of the connection with the second Execute instead of that query.\<close>

theorem suspended_portal_mispairs:
  assumes "nul \<notin> set q" "nul \<notin> set q'" "length q + 2 \<le> pgMaxPayload" "length q' + 1 \<le> pgMaxPayload" "1 \<le> cfg_maxPending cfg"
  shows "\<exists>r1 r2 r3 s1 s2.
      pgRequests False c (\<lambda>_. None) (concat (map (pg_encode \<circ> front_msg)
          [FParse [] q [], FBind [] [] [] [] [], FExecute [], FExecute [], FQuery q']))
        = map (\<lambda>p. EnqueueRequest (conn_key c) ProtocolPostgres p (fst (conn_endpoints c)) (snd (conn_endpoints c))) [r1, r2, r3]
    \<and> pgResponses c (\<lambda>_. None) (concat (map pg_encode [(CHR ''D'', []), (CHR ''s'', []), (CHR ''D'', []),
          (CHR ''C'', ''SELECT 1'' @ [nul]), (CHR ''Z'', ''I''), (CHR ''C'', ''INSERT 0 1'' @ [nul])]))
        = map (\<lambda>p. CompleteResponse (conn_key c) p 0 ''success'' None) [s1, s2]
    \<and> pl_Query r3 = pl_Query (pgQueryPayload q' None) \<and> pl_Summary s2 = ''INSERT 0 1''
    \<and> exchanged (conn_run pick cfg (conn_key c) ProtocolPostgres src dst
          [Req 1 r1, Req 2 r2, Resp 3 s1, Req 4 r3, Resp 5 s2] newPipeline) = [(r1, s1), (r2, s2)]"
proof -
  let ?fs = "[FParse [] q [], FBind [] [] [] [] [], FExecute [], FExecute [], FQuery q']"
  let ?e = "(pgQueryPayload (if q = [] then ''EXECUTE'' else q) None)\<lparr>pl_Postgres := Some zero_PGDetail\<rparr>"
  let ?s1 = "zero_Payload\<lparr>pl_Summary := ''SELECT 1 (2 rows)'', pl_RowCount := 2, pl_Postgres := Some (zero_PGDetail\<lparr>pg_Tag := ''SELECT 1''\<rparr>)\<rparr>"
  let ?s2 = "zero_Payload\<lparr>pl_Summary := ''INSERT 0 1'', pl_Postgres := Some (zero_PGDetail\<lparr>pg_Tag := ''INSERT 0 1'', pg_TxStatus := ''I''\<rparr>)\<rparr>"
  have ok: "\<forall>f \<in> set ?fs. front_ok f \<and> length (snd (front_msg f)) \<le> pgMaxPayload"
    using assms by (simp add: bind_encode_def pgMaxPayload_def)
  have b: "pgParseBind (bind_encode [] [] [] [] []) = ([], [], [])"
    by (subst pgParseBind_encoded) (simp_all add: rendered_def)
  have s1: "pg_parse (nul # q @ [nul]) pg_client0 = pg_client0\<lparr>lastQuery := q\<rparr>"
    using assms(1) pgSplitCStr_encoded [of "[]"] by (simp add: pg_parse_def pgSplitCStr_encoded pg_client0_def)
  have z: "zero_PGDetail\<lparr>pg_StatementName := [], pg_Portal := [], pg_Params := []\<rparr> = zero_PGDetail"
    "zero_PGDetail\<lparr>pg_Tag := t, pg_Columns := [], pg_TxStatus := []\<rparr> = zero_PGDetail\<lparr>pg_Tag := t\<rparr>"
    "zero_PGDetail\<lparr>pg_Tag := t, pg_Columns := [], pg_TxStatus := x\<rparr> = zero_PGDetail\<lparr>pg_Tag := t, pg_TxStatus := x\<rparr>" for t x
    by (simp_all add: zero_PGDetail_def)
  have reqs: "pgRequests False c (\<lambda>_. None) (concat (map (pg_encode \<circ> front_msg) ?fs))
      = map (\<lambda>p. EnqueueRequest (conn_key c) ProtocolPostgres p (fst (conn_endpoints c)) (snd (conn_endpoints c))) [?e, ?e, pgQueryPayload q' None]"
    unfolding requests_of_front [OF ok] using ok assms(2)
    by (simp add: kept_small pg_client_step_def pg_client_calls_def s1 pg_bind_def b pg_execute_payload_def
        client0_fields pgCStr_encoded z)
  have tags: "pgCStr (''SELECT 1'' @ [nul]) = ''SELECT 1''" "pgCStr (''INSERT 0 1'' @ [nul]) = ''INSERT 0 1''" "itoa 2 = ''2''" by code_simp+
  have "char_of (73::nat) = CHR ''I''" by code_simp
  then have tx: "encode_rune (byte (CHR ''I'')) = ''I''" by (simp add: encode_rune_ascii)
  have resps: "pgResponses c (\<lambda>_. None) (concat (map pg_encode [(CHR ''D'', []), (CHR ''s'', []), (CHR ''D'', []),
          (CHR ''C'', ''SELECT 1'' @ [nul]), (CHR ''Z'', ''I''), (CHR ''C'', ''INSERT 0 1'' @ [nul])]))
        = map (\<lambda>p. CompleteResponse (conn_key c) p 0 ''success'' None) [?s1, ?s2]"
    using tags tx by (subst responses_of_messages)
      (simp_all add: pgMaxFrame_def pg_kept_def pgMaxPayload_def Let_def z zero_Payload_def)
  have plain: "pl_Redis ?e = None" "pl_Redis (pgQueryPayload q' None) = None"
    by (simp_all add: pgQueryPayload_def zero_Payload_def case_prod_unfold)
  have "exchanged (conn_run pick cfg (conn_key c) ProtocolPostgres src dst
      [Req 1 ?e, Req 2 ?e, Resp 3 ?s1, Req 4 (pgQueryPayload q' None), Resp 5 ?s2] newPipeline) = [(?e, ?s1), (?e, ?s2)]"
    using plain unfolding conn_run_fifo [OF assms(5)] by (simp add: fifo_push_def reqBacklogCap_def depth_payload_def)
  moreover have "pl_Summary ?s2 = ''INSERT 0 1''" by simp
  ultimately show ?thesis using reqs resps by blast
qed

theorem suspended_portal_mispairs_witness:
  "\<exists>r1 r2 r3 s1 s2. pl_Query r3 = pl_Query (pgQueryPayload ''insert'' None) \<and> pl_Summary s2 = ''INSERT 0 1''
     \<and> exchanged (conn_run hd some_cfg (conn_key some_conn) ProtocolPostgres zero_Endpoint zero_Endpoint
          [Req 1 r1, Req 2 r2, Resp 3 s1, Req 4 r3, Resp 5 s2] newPipeline) = [(r1, s1), (r2, s2)]"
proof -
  have "nul \<notin> set ''select''" "nul \<notin> set ''insert''" "length ''select'' + 2 \<le> pgMaxPayload" "length ''insert'' + 1 \<le> pgMaxPayload"
    "1 \<le> cfg_maxPending some_cfg" by (simp_all add: pgMaxPayload_def some_cfg_def)
  from suspended_portal_mispairs [OF this, of some_conn hd zero_Endpoint zero_Endpoint] show ?thesis by blast
qed
end
