(* ===== verification/Worker_Mysql.thy ===== *)
theory Worker_Mysql
  imports Worker_Postgres
begin

text \<open>
  The MySQL dissector, \<open>internal/worker/dissect_mysql.go\<close>: packet framing, the command phase of the client direction with the
  detection of a TLS upgrade, and the server direction with its handshake, OK, ERR and result-set replies.  The server direction
  reads a result set packet by packet off the stream it shares with the loop around it, so it is a function of the bytes;
  \<open>rawOf\<close> at the \<open>n\<close>-th packet of the loop is a parameter.
\<close>

datatype mysql_error = MyEOF

definition mysqlMaxPayload :: nat where "mysqlMaxPayload = 4 * 2 ^ 20"
definition mysqlHandshakePeek :: nat where "mysqlHandshakePeek = 36"
definition mysqlMaxColumns :: nat where "mysqlMaxColumns = 4096"
definition mysqlMaxRows :: nat where "mysqlMaxRows = 2 ^ 24"

definition comQuit :: nat where "comQuit = 1"
definition comInitDB :: nat where "comInitDB = 2"
definition comQuery :: nat where "comQuery = 3"
definition comPing :: nat where "comPing = 14"
definition comStmtPrepare :: nat where "comStmtPrepare = 22"
definition comStmtExecute :: nat where "comStmtExecute = 23"
definition comStmtClose :: nat where "comStmtClose = 25"

definition mysqlOK :: nat where "mysqlOK = 0"
definition mysqlEOF :: nat where "mysqlEOF = 254"
definition mysqlERR :: nat where "mysqlERR = 255"

lemmas mysql_consts = comQuit_def comInitDB_def comQuery_def comPing_def comStmtPrepare_def comStmtExecute_def comStmtClose_def
  mysqlOK_def mysqlEOF_def mysqlERR_def

subsection \<open>Packets\<close>

definition readMySQLHeader :: "bytes \<Rightarrow> mysql_error + (nat \<times> nat) \<times> bytes" where
  "readMySQLHeader br = (case read_full 4 br of None \<Rightarrow> Inl MyEOF | Some (hdr, r) \<Rightarrow> Inr ((le24 hdr, byte (hdr ! 3)), r))"

definition readMySQLPayload :: "bytes \<Rightarrow> nat \<Rightarrow> nat \<Rightarrow> mysql_error + bytes \<times> bytes" where
  "readMySQLPayload br len cap =
     (let tk = min len cap in
      case read_full tk br of None \<Rightarrow> Inl MyEOF
      | Some (buf, r) \<Rightarrow>
          if len > tk then (case discard_n (len - tk) r of None \<Rightarrow> Inl MyEOF | Some r2 \<Rightarrow> Inr (buf, r2)) else Inr (buf, r))"

definition discardN :: "bytes \<Rightarrow> nat \<Rightarrow> bytes option" where
  "discardN br n = (if n = 0 then Some br else discard_n n br)"

text \<open>One packet of the client: what is kept of it depends on its sequence number.\<close>

definition readMySQLCommand :: "bytes \<Rightarrow> mysql_error + (nat \<times> nat \<times> bytes) \<times> bytes" where
  "readMySQLCommand br =
     (case readMySQLHeader br of Inl e \<Rightarrow> Inl e
      | Inr ((len, seq), r) \<Rightarrow>
          (case readMySQLPayload r len (if seq \<noteq> 0 then mysqlHandshakePeek else mysqlMaxPayload) of Inl e \<Rightarrow> Inl e
           | Inr (payload, r2) \<Rightarrow> Inr ((seq, len, payload), r2)))"

definition mysqlLenEncInt :: "bytes \<Rightarrow> nat option" where
  "mysqlLenEncInt b =
     (case b of [] \<Rightarrow> None
      | c # r \<Rightarrow>
          if byte c < 251 then Some (byte c)
          else if byte c = 252 then (if length b < 3 then None else Some (le16 r))
          else if byte c = 253 then (if length b < 4 then None else Some (le24 r))
          else if byte c = 254 then (if length b < 9 then None else Some (le64 r))
          else None)"

text \<open>\<open>caps & clientSSLCapability != 0\<close>: bit 11 of the capability flags.\<close>

definition isMySQLSSLRequest :: "bytes \<Rightarrow> nat \<Rightarrow> bool" where
  "isMySQLSSLRequest payload len = (if length payload < 4 \<or> len > mysqlHandshakePeek then False else odd (le32 payload div 2048))"

definition parseMySQLErr :: "bytes \<Rightarrow> int \<times> string" where
  "parseMySQLErr b =
     (if length b < 3 then (0, [])
      else let rest = drop 3 b
           in (int (le16 (drop 1 b)), if length rest \<ge> 6 \<and> hd rest = CHR ''#'' then drop 6 rest else rest))"

definition mysqlOKRows :: "bytes \<Rightarrow> int" where
  "mysqlOKRows b = (if length b < 2 then 0 else (case mysqlLenEncInt (drop 1 b) of None \<Rightarrow> 0 | Some n \<Rightarrow> signed_of 64 n))"

definition mysqlErrSummary :: "int \<Rightarrow> string \<Rightarrow> string" where
  "mysqlErrSummary code msg = (if msg = [] then ''ERROR '' @ itoa code else ''ERROR '' @ itoa code @ '': '' @ truncate_str (collapseWS msg) 160)"

definition mysql_detail :: "string \<Rightarrow> int \<Rightarrow> string \<Rightarrow> MySQLDetail" where
  "mysql_detail cmd code msg = \<lparr>mysql_Command = cmd, mysql_ErrorCode = code, mysql_ErrorMessage = msg\<rparr>"

definition mysqlQueryPayload :: "bytes \<Rightarrow> string \<Rightarrow> RawView option \<Rightarrow> Payload" where
  "mysqlQueryPayload q cmd raw =
     (case capQueryBytes q of (t0, truncated) \<Rightarrow>
        let t = trim_space t0 in
        zero_Payload\<lparr>pl_Query := t, pl_Summary := truncate_str (collapseWS t) 160, pl_Truncated := truncated, pl_Raw := raw,
          pl_MySQL := Some (mysql_detail cmd 0 [])\<rparr>)"

definition mysqlCommandName :: "nat \<Rightarrow> string" where
  "mysqlCommandName cmd =
     (if cmd = comQuit then ''COM_QUIT'' else if cmd = comInitDB then ''COM_INIT_DB'' else if cmd = comQuery then ''COM_QUERY''
      else if cmd = comPing then ''COM_PING'' else if cmd = comStmtPrepare then ''COM_STMT_PREPARE''
      else if cmd = comStmtExecute then ''COM_STMT_EXECUTE'' else if cmd = comStmtClose then ''COM_STMT_CLOSE''
      else ''COM_0x'' @ format_nat 16 cmd)"

subsection \<open>The client direction\<close>

text \<open>The request a command packet makes, if it makes one.\<close>

definition mysql_command :: "RawView option \<Rightarrow> bytes \<Rightarrow> Payload option" where
  "mysql_command raw payload =
     (case payload of [] \<Rightarrow> None
      | c # arg \<Rightarrow>
          let cmd = byte c in
          if cmd = comQuery \<or> cmd = comStmtPrepare then
            Some (mysqlQueryPayload arg (if cmd = comStmtPrepare then ''COM_STMT_PREPARE'' else ''COM_QUERY'') raw)
          else if cmd = comStmtExecute then
            Some (zero_Payload\<lparr>pl_Summary := (if length payload \<ge> 5 then ''EXECUTE stmt '' @ itoa (int (le32 arg)) else ''COM_STMT_EXECUTE''),
                 pl_Raw := raw, pl_MySQL := Some (mysql_detail ''COM_STMT_EXECUTE'' 0 [])\<rparr>)
          else if cmd = comInitDB \<or> cmd = comPing then
            Some (zero_Payload\<lparr>pl_Summary := mysqlCommandName cmd, pl_Raw := raw, pl_MySQL := Some (mysql_detail (mysqlCommandName cmd) 0 [])\<rparr>)
          else None)"

fun mysql_requests :: "connID \<Rightarrow> (nat \<Rightarrow> RawView option) \<Rightarrow> nat \<Rightarrow> (nat \<times> nat \<times> bytes) list \<Rightarrow> pipe_call list" where
  "mysql_requests c raws n [] = []"
| "mysql_requests c raws n ((seq, len, payload) # ps) =
     (if seq \<noteq> 0 then (if isMySQLSSLRequest payload len then [] else mysql_requests c raws (Suc n) ps)
      else (case mysql_command (raws n) payload of None \<Rightarrow> []
            | Some pl \<Rightarrow> [EnqueueRequest (conn_key c) ProtocolMySQL pl (fst (conn_endpoints c)) (snd (conn_endpoints c))])
           @ mysql_requests c raws (Suc n) ps)"

definition mysqlRequests :: "connID \<Rightarrow> (nat \<Rightarrow> RawView option) \<Rightarrow> bytes \<Rightarrow> pipe_call list" where
  "mysqlRequests c raws br = mysql_requests c raws 0 (fst (read_all readMySQLCommand br))"

subsection \<open>The server direction\<close>

text \<open>\<open>None\<close> is a read error.\<close>

fun skip_columns :: "nat \<Rightarrow> bytes \<Rightarrow> bytes option" where
  "skip_columns 0 br = Some br"
| "skip_columns (Suc k) br = (case readMySQLHeader br of Inl e \<Rightarrow> None
     | Inr ((len, seq), r) \<Rightarrow> (case discardN r len of None \<Rightarrow> None | Some r2 \<Rightarrow> skip_columns k r2))"

lemma header_shorter: "readMySQLHeader br = Inr (v, r) \<Longrightarrow> length r < length br"
  by (auto simp: readMySQLHeader_def read_full_Some split: option.splits)

lemma discardN_shorter: "discardN br n = Some r \<Longrightarrow> length r \<le> length br"
  by (auto simp: discardN_def dest: primitives_shorter split: if_splits)

text \<open>One row packet: its length, its first byte if it has one, and what follows it.\<close>

definition read_row :: "bytes \<Rightarrow> (nat \<times> nat \<times> bytes) option" where
  "read_row br =
     (case readMySQLHeader br of Inl e \<Rightarrow> None
      | Inr ((len, seq), r) \<Rightarrow>
          if len > 0 then
            (case read_full 1 r of None \<Rightarrow> None
             | Some (b, r2) \<Rightarrow> (case discardN r2 (len - 1) of None \<Rightarrow> None | Some r3 \<Rightarrow> Some (len, byte (b ! 0), r3)))
          else Some (len, 0, r))"

lemma row_shorter: "read_row br = Some (len, b, r) \<Longrightarrow> length r < length br"
  by (auto simp: read_row_def dest!: header_shorter discardN_shorter primitives_shorter(2)
      split: sum.splits prod.splits option.splits if_splits)

function mysql_rows :: "nat \<Rightarrow> bool \<Rightarrow> bytes \<Rightarrow> nat \<times> bytes option" where
  "mysql_rows rows consumedColEOF br =
     (if rows > mysqlMaxRows then (rows, Some br)
      else (case read_row br of None \<Rightarrow> (rows, None)
            | Some (len, b, r) \<Rightarrow>
                if len > 0 \<and> b = mysqlEOF \<and> len < 9 then
                  (if \<not> consumedColEOF \<and> len = 5 then mysql_rows rows True r else (rows, Some r))
                else if len = 0 then mysql_rows rows consumedColEOF r
                else mysql_rows (rows + 1) consumedColEOF r))"
  by pat_completeness auto
termination
  by (relation "measure (\<lambda>(rows, cons, br). length br)") (auto dest: row_shorter)

declare mysql_rows.simps [simp del]

definition readMySQLResultSet :: "bytes \<Rightarrow> bytes \<Rightarrow> nat \<times> bytes option" where
  "readMySQLResultSet br first =
     (case mysqlLenEncInt first of None \<Rightarrow> (0, Some br)
      | Some ncols \<Rightarrow>
          if ncols = 0 \<or> ncols > mysqlMaxColumns then (0, Some br)
          else (case skip_columns ncols br of None \<Rightarrow> (0, None) | Some r \<Rightarrow> mysql_rows 0 False r))"

lemma skip_columns_shorter: "skip_columns k br = Some r \<Longrightarrow> length r \<le> length br"
proof (induction k arbitrary: br)
  case (Suc k)
  then obtain len seq r1 r2 where "readMySQLHeader br = Inr ((len, seq), r1)" "discardN r1 len = Some r2" "skip_columns k r2 = Some r"
    by (auto split: sum.splits prod.splits option.splits)
  then show ?case using Suc.IH [of r2] header_shorter [of br] discardN_shorter [of r1 len r2] by fastforce
qed simp

lemma rows_shorter: "mysql_rows rows cons br = (n, Some r) \<Longrightarrow> length r \<le> length br"
proof (induction rows cons br rule: mysql_rows.induct)
  case (1 rows cons br)
  show ?case
  proof (cases "rows > mysqlMaxRows \<or> read_row br = None")
    case True
    then show ?thesis using "1.prems" by (simp add: mysql_rows.simps [of rows cons br] split: if_splits)
  next
    case False
    then obtain len b r1 where row: "read_row br = Some (len, b, r1)" "\<not> rows > mysqlMaxRows" by auto
    have "length r1 < length br" by (rule row_shorter [OF row(1)])
    then show ?thesis using "1.prems" row "1.IH" [OF row(2,1) refl refl]
      by (simp add: mysql_rows.simps [of rows cons br] split: if_splits)
  qed
qed

lemma result_set_shorter: "readMySQLResultSet br first = (n, Some r) \<Longrightarrow> length r \<le> length br"
  by (auto simp: readMySQLResultSet_def dest!: skip_columns_shorter rows_shorter split: option.splits if_splits)

definition readMySQLReply :: "bytes \<Rightarrow> mysql_error + (nat \<times> bytes) \<times> bytes" where
  "readMySQLReply br =
     (case readMySQLHeader br of Inl e \<Rightarrow> Inl e
      | Inr ((len, seq), r) \<Rightarrow>
          (case readMySQLPayload r len mysqlMaxPayload of Inl e \<Rightarrow> Inl e | Inr (payload, r2) \<Rightarrow> Inr ((seq, payload), r2)))"

lemma payload_shorter: "readMySQLPayload br len cap = Inr (b, r) \<Longrightarrow> length r \<le> length br"
  by (auto simp: readMySQLPayload_def Let_def dest!: primitives_shorter(2,3) split: option.splits if_splits)

lemma reply_shorter: "readMySQLReply br = Inr (v, r) \<Longrightarrow> length r < length br"
  by (auto simp: readMySQLReply_def dest!: header_shorter payload_shorter split: sum.splits prod.splits)

definition mysql_ok_reply :: "bytes \<Rightarrow> Payload" where
  "mysql_ok_reply payload = (let rows = mysqlOKRows payload in
     zero_Payload\<lparr>pl_Summary := (if rows > 0 then ''OK ('' @ itoa rows @ '' rows affected)'' else ''OK''), pl_RowCount := rows\<rparr>)"

definition mysql_err_reply :: "bytes \<Rightarrow> Payload" where
  "mysql_err_reply payload = (case parseMySQLErr payload of (code, msg) \<Rightarrow>
     zero_Payload\<lparr>pl_Summary := mysqlErrSummary code msg, pl_MySQL := Some (mysql_detail [] code msg)\<rparr>)"

definition mysql_rows_reply :: "nat \<Rightarrow> Payload" where
  "mysql_rows_reply rows = zero_Payload\<lparr>pl_Summary := itoa (int rows) @ '' rows'', pl_RowCount := int rows\<rparr>"

text \<open>A greeting at the start of the stream opens the handshake; an OK or ERR packet ends it.\<close>

definition is_greeting :: "nat \<Rightarrow> bytes \<Rightarrow> bool" where
  "is_greeting seq payload \<longleftrightarrow> seq = 0 \<and> (case payload of b # _ \<Rightarrow> byte b = 10 \<or> byte b = 9 | [] \<Rightarrow> False)"

definition ends_handshake :: "bytes \<Rightarrow> bool" where
  "ends_handshake payload \<longleftrightarrow> (case payload of b # _ \<Rightarrow> byte b = mysqlOK \<or> byte b = mysqlERR | [] \<Rightarrow> False)"

function mysql_responses :: "connID \<Rightarrow> (nat \<Rightarrow> RawView option) \<Rightarrow> nat \<Rightarrow> bool \<Rightarrow> bool \<Rightarrow> bytes \<Rightarrow> pipe_call list" where
  "mysql_responses c raws n firstPacket inHandshake br =
     (case readMySQLReply br of Inl e \<Rightarrow> []
      | Inr ((seq, payload), r) \<Rightarrow>
          let reply = (\<lambda>pl status. CompleteResponse (conn_key c) (pl\<lparr>pl_Raw := raws n\<rparr>) 0 status None) in
          if firstPacket \<and> is_greeting seq payload then mysql_responses c raws (Suc n) False True r
          else if inHandshake then mysql_responses c raws (Suc n) False (\<not> ends_handshake payload) r
          else (case payload of [] \<Rightarrow> mysql_responses c raws (Suc n) False False r
                | b # _ \<Rightarrow>
                    if byte b = mysqlERR then reply (mysql_err_reply payload) ''error'' # mysql_responses c raws (Suc n) False False r
                    else if byte b = mysqlOK then reply (mysql_ok_reply payload) ''success'' # mysql_responses c raws (Suc n) False False r
                    else (case readMySQLResultSet r payload of
                            (rows, None) \<Rightarrow> [reply (mysql_rows_reply rows) ''success'']
                          | (rows, Some r2) \<Rightarrow> reply (mysql_rows_reply rows) ''success'' # mysql_responses c raws (Suc n) False False r2)))"
  by pat_completeness auto
termination
  by (relation "measure (\<lambda>(c, raws, n, f, h, br). length br)") (auto dest!: reply_shorter result_set_shorter [OF sym])

declare mysql_responses.simps [simp del]

definition mysqlResponses :: "connID \<Rightarrow> (nat \<Rightarrow> RawView option) \<Rightarrow> bytes \<Rightarrow> pipe_call list" where
  "mysqlResponses c raws br = mysql_responses c raws 0 True False br"

definition consumeMySQLID :: "connID \<Rightarrow> (nat \<Rightarrow> RawView option) \<Rightarrow> bool \<Rightarrow> bytes \<Rightarrow> pipe_call list" where
  "consumeMySQLID c raws isRequest r = (if isRequest then mysqlRequests c raws r else mysqlResponses c raws r)"


subsection \<open>Packets read back\<close>

definition my_packet :: "nat \<times> bytes \<Rightarrow> bytes" where
  "my_packet p = le_bytes 3 (length (snd p)) @ char_of (fst p) # snd p"

definition packet_ok :: "nat \<times> bytes \<Rightarrow> bool" where
  "packet_ok p \<longleftrightarrow> fst p < 256 \<and> length (snd p) < 2 ^ 24"

lemma header_read: "packet_ok p \<Longrightarrow> readMySQLHeader (my_packet p @ r) = Inr ((length (snd p), fst p), snd p @ r)"
proof -
  assume ok: "packet_ok p"
  let ?h = "le_bytes 3 (length (snd p)) @ [char_of (fst p)]"
  have "read_full 4 (my_packet p @ r) = Some (?h, snd p @ r)" by (simp add: read_full_Some my_packet_def)
  moreover have "le24 ?h = length (snd p)" using ok by (simp add: packet_ok_def wire_decode)
  moreover have "?h ! 3 = char_of (fst p)" by (simp add: nth_append)
  ultimately show ?thesis using ok by (simp add: readMySQLHeader_def packet_ok_def)
qed

lemma payload_read: "readMySQLPayload (p @ r) (length p) cap = Inr (take cap p, r)"
  by (auto simp: readMySQLPayload_def Let_def read_full_def discard_n_def min_def)

lemma command_read:
  "packet_ok p \<Longrightarrow> readMySQLCommand (my_packet p @ r)
     = Inr ((fst p, length (snd p), take (if fst p \<noteq> 0 then mysqlHandshakePeek else mysqlMaxPayload) (snd p)), r)"
  by (simp add: readMySQLCommand_def header_read payload_read)

lemma reply_read: "packet_ok p \<Longrightarrow> readMySQLReply (my_packet p @ r) = Inr ((fst p, take mysqlMaxPayload (snd p)), r)"
  by (simp add: readMySQLReply_def header_read payload_read)

lemma discardN_append: "discardN (p @ r) (length p) = Some r"
  by (simp add: discardN_def discard_n_def)

lemma row_read: "packet_ok p \<Longrightarrow> read_row (my_packet p @ r) = Some (length (snd p), if snd p = [] then 0 else byte (hd (snd p)), r)"
proof (cases "snd p")
  case (Cons b bs)
  assume ok: "packet_ok p"
  have "read_full 1 (b # bs @ r) = Some ([b], bs @ r)" by (simp add: read_full_Some)
  then show ?thesis using Cons ok discardN_append [of bs r] by (simp add: read_row_def header_read)
qed (simp add: read_row_def header_read)

lemma readMySQLHeader_frames: "frames True readMySQLHeader br"
  by (rule frames_unfold [OF readMySQLHeader_def]) (intro frames_intros; simp)

lemma readMySQLPayload_frames: "frames False (\<lambda>b. readMySQLPayload b len cap) br"
  by (rule frames_unfold [OF readMySQLPayload_def], unfold Let_def) (intro frames_intros; simp)

lemma readMySQLCommand_frames: "frames True readMySQLCommand br"
  by (rule frames_unfold [OF readMySQLCommand_def], rule frames_then [OF readMySQLHeader_frames], rule frames_case_prod,
      rule frames_seq [OF readMySQLPayload_frames], rule frames_return)

interpretation mysql_command: framed_reader readMySQLCommand
  by (rule framed_readerI) (rule readMySQLCommand_frames)

lemma commands_read:
  assumes "\<forall>p \<in> set ps. packet_ok p"
  shows "read_all readMySQLCommand (concat (map my_packet ps))
    = (map (\<lambda>p. (fst p, length (snd p), take (if fst p \<noteq> 0 then mysqlHandshakePeek else mysqlMaxPayload) (snd p))) ps, [])"
  using assms
proof (induction ps)
  case Nil
  have "readMySQLCommand [] = Inl MyEOF" by (simp add: readMySQLCommand_def readMySQLHeader_def read_full_def)
  then show ?case by (simp add: read_all_fail)
next
  case (Cons p ps)
  then have "readMySQLCommand (my_packet p @ concat (map my_packet ps))
      = Inr ((fst p, length (snd p), take (if fst p \<noteq> 0 then mysqlHandshakePeek else mysqlMaxPayload) (snd p)), concat (map my_packet ps))"
    by (simp add: command_read)
  then show ?case using Cons by (simp add: mysql_command.read_all_more)
qed

subsection \<open>What a client asks for\<close>

definition command_calls :: "connID \<Rightarrow> (nat \<Rightarrow> RawView option) \<Rightarrow> nat \<times> nat \<times> bytes \<Rightarrow> pipe_call list" where
  "command_calls c raws x = (case x of (n, seq, p) \<Rightarrow>
     if seq \<noteq> 0 then [] else (case mysql_command (raws n) (take mysqlMaxPayload p) of None \<Rightarrow> []
       | Some pl \<Rightarrow> [EnqueueRequest (conn_key c) ProtocolMySQL pl (fst (conn_endpoints c)) (snd (conn_endpoints c))]))"

lemma requests_of_packets:
  "\<forall>p \<in> set ps. fst p = 0 \<or> length (snd p) > mysqlHandshakePeek \<Longrightarrow>
     mysql_requests c raws n (map (\<lambda>p. (fst p, length (snd p), take (if fst p \<noteq> 0 then mysqlHandshakePeek else mysqlMaxPayload) (snd p))) ps)
       = concat (map (command_calls c raws) (List.enumerate n ps))"
proof (induction ps arbitrary: n)
  case (Cons p ps)
  then show ?case by (cases p) (auto simp: command_calls_def isMySQLSSLRequest_def)
qed simp

text \<open>On a plaintext client stream, exactly the commands that a server answers in one of the forms the server direction understands are
  queued, each with the text or statement it carries, in order: queries and prepares, executions, database changes and pings; the
  login packet and the packets that continue a long command make none.\<close>

theorem mysql_commands_published:
  assumes "\<forall>p \<in> set ps. packet_ok p \<and> (fst p = 0 \<or> length (snd p) > mysqlHandshakePeek)"
  shows "mysqlRequests c raws (concat (map my_packet ps)) = concat (map (command_calls c raws) (List.enumerate 0 ps))"
proof -
  have "\<forall>p \<in> set ps. packet_ok p" "\<forall>p \<in> set ps. fst p = 0 \<or> length (snd p) > mysqlHandshakePeek" using assms by auto
  then show ?thesis unfolding mysqlRequests_def by (simp only: commands_read fst_conv requests_of_packets)
qed

theorem mysql_commands_published_witness:
  "mysqlRequests some_conn (\<lambda>_. None) (concat (map my_packet [(1, replicate 40 (CHR ''x'')), (0, CHR 0x03 # ''select 1''), (0, [CHR 0x01])]))
     = [EnqueueRequest (conn_key some_conn) ProtocolMySQL (mysqlQueryPayload ''select 1'' ''COM_QUERY'' None)
          (fst (conn_endpoints some_conn)) (snd (conn_endpoints some_conn))]"
  by (subst mysql_commands_published)
    (simp_all add: packet_ok_def mysqlHandshakePeek_def command_calls_def mysql_command_def mysql_consts mysqlMaxPayload_def)

text \<open>An answer to an authentication challenge is taken for a request to switch to TLS whenever its second byte has bit 3
  set, as half of all scrambles have: from then on nothing the client sends is read, and none of its commands is
  reported.\<close>

theorem auth_answer_taken_for_tls:
  assumes "packet_ok (seq, a # b # x # y # rest)" "seq \<noteq> 0" "length rest \<le> 32" "odd (byte b div 8)"
  shows "mysqlRequests c raws (my_packet (seq, a # b # x # y # rest) @ later) = []"
proof -
  let ?p = "a # b # x # y # rest"
  have short: "length ?p \<le> mysqlHandshakePeek" using assms(3) by (simp add: mysqlHandshakePeek_def)
  then have rd: "readMySQLCommand (my_packet (seq, ?p) @ later) = Inr ((seq, length ?p, ?p), later)"
    using assms(1,2) by (subst command_read) simp_all
  have "le32 ?p = byte a + 256 * byte b + 65536 * byte x + 16777216 * byte y" by (simp add: le32_def)
  moreover have "(byte a + 256 * byte b + 65536 * byte x + 16777216 * byte y) div 2048
      = byte b div 8 + 2 * (16 * byte x + 4096 * byte y)"
  proof -
    have split: "a' + 256 * b' + 65536 * x' + 16777216 * y' = (a' + 256 * m) + 2048 * (q + 32 * x' + 8192 * y')"
      if "q * 8 + m = b'" for a' b' x' y' q m :: nat using that by auto
    have "byte a + 256 * byte b + 65536 * byte x + 16777216 * byte y
        = (byte a + 256 * (byte b mod 8)) + 2048 * (byte b div 8 + 32 * byte x + 8192 * byte y)"
      by (rule split) (rule div_mult_mod_eq)
    moreover have "byte a + 256 * (byte b mod 8) < 2048" using byte_less [of a] mod_less_divisor [of 8 "byte b"] by linarith
    ultimately show ?thesis by (simp add: div_mult_self2)
  qed
  ultimately have "odd (le32 ?p div 2048)" using assms(4) by simp
  then have "isMySQLSSLRequest ?p (length ?p)" using short by (simp add: isMySQLSSLRequest_def)
  then show ?thesis using assms(2) by (simp add: mysqlRequests_def mysql_command.read_all_more [OF rd])
qed

theorem auth_answer_taken_for_tls_witness:
  "mysqlRequests some_conn (\<lambda>_. None) (my_packet (3, CHR 0x41 # CHR 0x08 # CHR 0x41 # CHR 0x41 # replicate 16 (CHR 0x41))
     @ my_packet (0, CHR 0x03 # ''select 1'')) = []"
  by (rule auth_answer_taken_for_tls) (simp_all add: packet_ok_def)

subsection \<open>What a server answers\<close>

definition lenenc :: "nat \<Rightarrow> bytes" where
  "lenenc n = (if n < 251 then [char_of n] else if n < 2 ^ 16 then CHR 0xFC # le_bytes 2 n
               else if n < 2 ^ 24 then CHR 0xFD # le_bytes 3 n else CHR 0xFE # le_bytes 8 n)"

text \<open>A reply of the command phase, other than the reply to a prepare.  A result set is its column definitions, its rows and its
  terminator; \<open>colEOF\<close> is the packet that a server of the older dialect puts after the columns.  Each packet carries its
  sequence number.  What is required of a reply and what it means are stated in the numbers of the protocol: a terminator is
  0xFE and of 5 or 7 bytes, a row is any packet that is neither a terminator nor an ERR packet.\<close>

datatype my_reply = OkReply nat nat bytes
  | ErrReply nat nat string bytes
  | ResultSet nat "(nat \<times> bytes) list" "(nat \<times> bytes) option" "(nat \<times> bytes) list" "nat \<times> bytes"

fun reply_packets :: "my_reply \<Rightarrow> (nat \<times> bytes) list" where
  "reply_packets (OkReply seq n extra) = [(seq, CHR 0x00 # lenenc n @ extra)]"
| "reply_packets (ErrReply seq code state msg) = [(seq, CHR 0xFF # le_bytes 2 code @ CHR ''#'' # state @ msg)]"
| "reply_packets (ResultSet seq cols colEOF rows fin) =
     (seq, lenenc (length cols)) # cols @ (case colEOF of None \<Rightarrow> [] | Some e \<Rightarrow> [e]) @ rows @ [fin]"

definition terminator :: "nat \<Rightarrow> nat \<times> bytes \<Rightarrow> bool" where
  "terminator n p \<longleftrightarrow> length (snd p) = n \<and> byte (hd (snd p)) = 254"

definition row_packet :: "nat \<times> bytes \<Rightarrow> bool" where
  "row_packet p \<longleftrightarrow> snd p \<noteq> [] \<and> \<not> (byte (hd (snd p)) = 254 \<and> length (snd p) < 9)"

definition no_error :: "nat \<times> bytes \<Rightarrow> bool" where
  "no_error p \<longleftrightarrow> snd p \<noteq> [] \<and> byte (hd (snd p)) \<noteq> 255"

fun reply_shape :: "my_reply \<Rightarrow> bool" where
  "reply_shape (OkReply seq n extra) \<longleftrightarrow> n < 2 ^ 63 \<and> length extra \<le> 512"
| "reply_shape (ErrReply seq code state msg) \<longleftrightarrow> code < 2 ^ 16 \<and> length state = 5 \<and> length msg \<le> 512"
| "reply_shape (ResultSet seq cols colEOF rows fin) \<longleftrightarrow>
     0 < length cols \<and> length cols \<le> 4096 \<and> list_all row_packet rows \<and> list_all no_error rows \<and> length rows \<le> 2 ^ 24
     \<and> (case colEOF of None \<Rightarrow> terminator 7 fin | Some e \<Rightarrow> terminator 5 e \<and> terminator 5 fin)"

definition good_reply :: "my_reply \<Rightarrow> bool" where
  "good_reply rp \<longleftrightarrow> reply_shape rp \<and> list_all packet_ok (reply_packets rp) \<and> fst (hd (reply_packets rp)) \<noteq> 0"

fun reply_meaning :: "my_reply \<Rightarrow> Payload \<times> string" where
  "reply_meaning (OkReply seq n extra) =
     (zero_Payload\<lparr>pl_Summary := (if n > 0 then ''OK ('' @ itoa (int n) @ '' rows affected)'' else ''OK''), pl_RowCount := int n\<rparr>, ''success'')"
| "reply_meaning (ErrReply seq code state msg) =
     (zero_Payload\<lparr>pl_Summary := ''ERROR '' @ itoa (int code) @ (if msg = [] then [] else '': '' @ truncate_str (collapseWS msg) 160),
        pl_MySQL := Some \<lparr>mysql_Command = [], mysql_ErrorCode = int code, mysql_ErrorMessage = msg\<rparr>\<rparr>, ''error'')"
| "reply_meaning (ResultSet seq cols colEOF rows fin) =
     (zero_Payload\<lparr>pl_Summary := itoa (int (length rows)) @ '' rows'', pl_RowCount := int (length rows)\<rparr>, ''success'')"

definition reply_call :: "connID \<Rightarrow> (nat \<Rightarrow> RawView option) \<Rightarrow> nat \<times> my_reply \<Rightarrow> pipe_call" where
  "reply_call c raws x = (case x of (n, rp) \<Rightarrow>
     CompleteResponse (conn_key c) ((fst (reply_meaning rp))\<lparr>pl_Raw := raws n\<rparr>) 0 (snd (reply_meaning rp)) None)"

abbreviation packets :: "(nat \<times> bytes) list \<Rightarrow> bytes" where
  "packets ps \<equiv> concat (map my_packet ps)"

lemma lenenc_read: "n < 2 ^ 64 \<Longrightarrow> mysqlLenEncInt (lenenc n @ r) = Some n"
  by (auto simp: mysqlLenEncInt_def lenenc_def wire_decode)

lemma lenenc_small: "0 < n \<Longrightarrow> n \<le> mysqlMaxColumns \<Longrightarrow> \<exists>b r. lenenc n = b # r \<and> byte b \<noteq> mysqlERR \<and> byte b \<noteq> mysqlOK"
  by (auto simp: lenenc_def mysql_consts mysqlMaxColumns_def)

lemma lenenc_length: "length (lenenc n) \<le> 9"
  by (simp add: lenenc_def)

lemma columns_skipped: "list_all packet_ok cols \<Longrightarrow> skip_columns (length cols) (packets cols @ r) = Some r"
  by (induction cols) (simp_all add: header_read discardN_append)

lemma my_rows_counted:
  "list_all packet_ok rows \<Longrightarrow> list_all row_packet rows \<Longrightarrow> k + length rows \<le> Suc mysqlMaxRows
     \<Longrightarrow> mysql_rows k e (packets rows @ r) = mysql_rows (k + length rows) e r"
proof (induction rows arbitrary: k)
  case (Cons p rows)
  then have "read_row (my_packet p @ packets rows @ r) = Some (length (snd p), byte (hd (snd p)), packets rows @ r)"
    by (simp add: row_read row_packet_def)
  then have "mysql_rows k e (my_packet p @ packets rows @ r) = mysql_rows (k + 1) e (packets rows @ r)"
    using Cons.prems by (subst mysql_rows.simps) (auto simp: row_packet_def mysqlEOF_def)
  then show ?case using Cons by simp
qed simp

lemma mysql_limits: "mysqlMaxColumns = 4096" "mysqlMaxRows = 2 ^ 24"
  by (simp_all add: mysqlMaxColumns_def mysqlMaxRows_def)

lemma rows_terminated:
  "packet_ok p \<Longrightarrow> k \<le> mysqlMaxRows \<Longrightarrow> terminator 7 p \<Longrightarrow> mysql_rows k e (my_packet p @ r) = (k, Some r)"
  "packet_ok p \<Longrightarrow> k \<le> mysqlMaxRows \<Longrightarrow> terminator 5 p \<Longrightarrow> mysql_rows k True (my_packet p @ r) = (k, Some r)"
  "packet_ok p \<Longrightarrow> k \<le> mysqlMaxRows \<Longrightarrow> terminator 5 p \<Longrightarrow> mysql_rows k False (my_packet p @ r) = mysql_rows k True r"
  by (subst mysql_rows.simps, auto simp: row_read terminator_def mysqlEOF_def)+

lemma result_set_read:
  assumes "good_reply (ResultSet seq cols colEOF rows fin)"
  shows "readMySQLResultSet (packets (tl (reply_packets (ResultSet seq cols colEOF rows fin))) @ r) (lenenc (length cols)) = (length rows, Some r)"
proof -
  have "length cols \<le> 4096" using assms by (simp add: good_reply_def)
  then have "mysqlLenEncInt (lenenc (length cols)) = Some (length cols)" using lenenc_read [of "length cols" "[]"] by simp
  then show ?thesis using assms
    by (cases colEOF) (simp_all add: good_reply_def readMySQLResultSet_def columns_skipped my_rows_counted rows_terminated mysql_limits)
qed

lemma small_payload: "length p \<le> 2 ^ 16 \<Longrightarrow> take mysqlMaxPayload p = p"
  by (simp add: mysqlMaxPayload_def)

lemma reply_step:
  assumes "good_reply rp"
  shows "mysql_responses c raws n fp False (packets (reply_packets rp) @ r) = reply_call c raws (n, rp) # mysql_responses c raws (Suc n) False False r"
proof (cases rp)
  case (OkReply seq k extra)
  let ?p = "CHR 0x00 # lenenc k @ extra"
  have "length ?p \<le> 2 ^ 16" using assms OkReply lenenc_length [of k] by (simp add: good_reply_def)
  moreover have "mysqlOKRows ?p = int k"
    using assms OkReply lenenc_read [of k extra] by (simp add: good_reply_def mysqlOKRows_def signed_of_def lenenc_def)
  ultimately show ?thesis using assms OkReply
    by (subst mysql_responses.simps)
      (simp add: good_reply_def reply_read small_payload is_greeting_def mysql_consts reply_call_def mysql_ok_reply_def Let_def)
next
  case (ErrReply seq code state msg)
  let ?p = "CHR 0xFF # le_bytes 2 code @ CHR ''#'' # state @ msg"
  have "length ?p \<le> 2 ^ 16" using assms ErrReply by (simp add: good_reply_def)
  moreover have "parseMySQLErr ?p = (int code, msg)"
    using assms ErrReply by (simp add: good_reply_def parseMySQLErr_def wire_decode numeral_3_eq_3)
  ultimately show ?thesis using assms ErrReply
    by (subst mysql_responses.simps)
      (simp add: good_reply_def reply_read small_payload is_greeting_def mysql_consts reply_call_def mysql_err_reply_def mysqlErrSummary_def mysql_detail_def)
next
  case (ResultSet seq cols colEOF rows fin)
  obtain b l where b: "lenenc (length cols) = b # l" "byte b \<noteq> mysqlERR" "byte b \<noteq> mysqlOK"
    using assms ResultSet lenenc_small [of "length cols"] by (auto simp: good_reply_def mysql_limits)
  have sm: "take mysqlMaxPayload (b # l) = b # l" using lenenc_length [of "length cols"] b(1) by (intro small_payload) simp
  have pk: "packet_ok (seq, b # l)" "seq \<noteq> 0" using assms ResultSet b(1) by (simp_all add: good_reply_def)
  have "mysql_responses c raws n fp False (my_packet (seq, b # l) @ packets (tl (reply_packets rp)) @ r)
      = reply_call c raws (n, rp) # mysql_responses c raws (Suc n) False False r"
    using pk b(2,3) result_set_read [OF assms [unfolded ResultSet], of r, folded ResultSet, unfolded b(1)] ResultSet
    by (subst mysql_responses.simps) (simp add: reply_read sm is_greeting_def reply_call_def mysql_rows_reply_def)
  then show ?thesis by (simp add: ResultSet b(1))
qed

lemma replies_done: "mysql_responses c raws n fp h [] = []"
  by (subst mysql_responses.simps) (simp add: readMySQLReply_def readMySQLHeader_def read_full_def)

lemma replies_read:
  "list_all good_reply rps \<Longrightarrow> mysql_responses c raws n fp False (concat (map (packets \<circ> reply_packets) rps))
     = map (reply_call c raws) (List.enumerate n rps)"
  by (induction rps arbitrary: n fp) (simp_all add: replies_done reply_step)

text \<open>The opening of a connection, as the protocol describes it: the greeting with sequence number 0 and the protocol version 10
  or 9, the packets of the authentication exchange, none of which starts with 0x00 or 0xFF, and the OK or ERR packet that
  concludes it.  A stream that is picked up in the middle of a connection has none of it.\<close>

definition handshake_ok :: "(nat \<times> bytes) list \<Rightarrow> bool" where
  "handshake_ok hs \<longleftrightarrow> hs = [] \<or> (\<exists>version g auth seq verdict f. hs = (0, version # g) # auth @ [(seq, verdict # f)] \<and> list_all packet_ok hs
     \<and> byte version \<in> {9, 10} \<and> list_all (\<lambda>p. snd p \<noteq> [] \<longrightarrow> byte (hd (snd p)) \<notin> {0x00, 0xFF}) auth \<and> byte verdict \<in> {0x00, 0xFF})"

lemma handshake_read: "is_greeting q (b # p) \<longleftrightarrow> q = 0 \<and> byte b \<in> {9, 10}"
    "ends_handshake p \<longleftrightarrow> \<not> (p \<noteq> [] \<longrightarrow> byte (hd p) \<notin> {0x00, 0xFF})"
  by (cases p; auto simp: is_greeting_def ends_handshake_def mysql_consts)+

lemma capped_first: "is_greeting q (take mysqlMaxPayload p) = is_greeting q p" "ends_handshake (take mysqlMaxPayload p) = ends_handshake p"
  by (cases p; simp add: is_greeting_def ends_handshake_def mysqlMaxPayload_def)+

lemma auth_skipped:
  "list_all packet_ok (auth @ [final]) \<Longrightarrow> list_all (\<lambda>p. \<not> ends_handshake (snd p)) auth \<Longrightarrow> ends_handshake (snd final)
     \<Longrightarrow> mysql_responses c raws n False True (packets (auth @ [final]) @ r) = mysql_responses c raws (n + Suc (length auth)) False False r"
proof (induction auth arbitrary: n)
  case Nil
  then show ?case by (subst mysql_responses.simps) (simp add: reply_read capped_first)
next
  case (Cons p auth)
  then have "mysql_responses c raws n False True (my_packet p @ packets (auth @ [final]) @ r)
      = mysql_responses c raws (Suc n) False True (packets (auth @ [final]) @ r)"
    by (subst mysql_responses.simps) (simp add: reply_read capped_first)
  then show ?case using Cons by simp
qed

lemma handshake_skipped:
  assumes "handshake_ok hs"
  shows "\<exists>fp. mysql_responses c raws n True False (packets hs @ r) = mysql_responses c raws (n + length hs) fp False r"
proof (cases "hs = []")
  case False
  then obtain version g0 auth seq verdict f0 where shape: "hs = (0, version # g0) # auth @ [(seq, verdict # f0)]" "list_all packet_ok hs"
      "byte version \<in> {9, 10}" "list_all (\<lambda>p. snd p \<noteq> [] \<longrightarrow> byte (hd (snd p)) \<notin> {0x00, 0xFF}) auth" "byte verdict \<in> {0x00, 0xFF}"
    using assms unfolding handshake_ok_def by blast
  define g where "g = (0::nat, version # g0)"
  define final where "final = (seq, verdict # f0)"
  have hs: "hs = g # auth @ [final]" "list_all packet_ok hs" "is_greeting (fst g) (snd g)"
    using shape by (simp_all add: g_def final_def handshake_read)
  have auth: "list_all (\<lambda>p. \<not> ends_handshake (snd p)) auth" "ends_handshake (snd final)"
    using shape(4,5) by (simp_all add: final_def handshake_read(2) list_all_iff imp_conv_disj)
  have "mysql_responses c raws n True False (my_packet g @ packets (auth @ [final]) @ r)
      = mysql_responses c raws (Suc n) False True (packets (auth @ [final]) @ r)"
    using hs by (subst mysql_responses.simps) (simp add: reply_read capped_first)
  then show ?thesis using auth_skipped [OF _ auth, of c raws "Suc n" r] hs by auto
qed auto


lemma some_counts: "itoa 2 = ''2''" "itoa 3 = ''3''" "itoa 7 = ''7''"
  by (code_simp)+


text \<open>A server that fails in the middle of a result set sends ERR in place of a row.  The packet is counted as a row, and so is
  every packet after it: the failed query is reported as a success, and the replies to the commands that follow are reported
  as its rows.\<close>

theorem error_inside_rows_hidden:
  assumes "list_all packet_ok (cols @ ps)" "0 < length cols" "length cols < 251" "list_all row_packet ps" "length ps \<le> mysqlMaxRows" "seq \<noteq> 0" "seq < 256"
  shows "mysqlResponses c raws (packets ((seq, lenenc (length cols)) # cols @ ps))
    = [CompleteResponse (conn_key c) ((mysql_rows_reply (length ps))\<lparr>pl_Raw := raws 0\<rparr>) 0 ''success'' None]"
proof -
  let ?l = "lenenc (length cols)"
  have l: "?l = [char_of (length cols)]" "packet_ok (seq, ?l)" using assms by (simp_all add: lenenc_def packet_ok_def)
  have "mysql_rows (length ps) False [] = (length ps, None)"
    using assms(5) by (subst mysql_rows.simps) (simp add: read_row_def readMySQLHeader_def read_full_def)
  then have "readMySQLResultSet (packets (cols @ ps)) ?l = (length ps, None)"
    using assms my_rows_counted [of ps 0 False "[]"] columns_skipped [of cols "packets ps"] lenenc_read [of "length cols" "[]"]
    by (simp add: readMySQLResultSet_def mysqlMaxColumns_def)
  then show ?thesis using assms l
    by (subst mysqlResponses_def, subst mysql_responses.simps)
      (simp add: reply_read mysqlMaxPayload_def is_greeting_def mysql_consts)
qed

theorem error_inside_rows_hidden_witness:
  "mysqlResponses some_conn (\<lambda>_. None) (packets [(1, lenenc 1), (2, ''def''), (3, ''x''),
      (4, CHR 0xFF # le_bytes 2 3024 @ ''#HY000timeout''), (1, [CHR 0x00, CHR 0x00])])
    = [CompleteResponse (conn_key some_conn) (zero_Payload\<lparr>pl_Summary := ''3 rows'', pl_RowCount := 3, pl_Raw := None\<rparr>) 0 ''success'' None]"
  using error_inside_rows_hidden [of "[(2, ''def'')]" "[(3, ''x''), (4, CHR 0xFF # le_bytes 2 3024 @ ''#HY000timeout''), (1, [CHR 0x00, CHR 0x00])]" 1
      some_conn "\<lambda>_. None"]
  by (simp add: packet_ok_def row_packet_def mysql_consts mysqlMaxRows_def mysql_rows_reply_def some_counts)

text \<open>The reply to COM\_STMT\_PREPARE: the statement id, the numbers of columns and of parameters, then the definition of the
  parameter and the packet that ends the definitions.\<close>

definition prepare_reply :: "nat \<Rightarrow> bytes \<Rightarrow> bytes \<Rightarrow> (nat \<times> bytes) list" where
  "prepare_reply sid pdef eof =
     [(1, CHR 0x00 # le_bytes 4 sid @ le_bytes 2 0 @ le_bytes 2 1 @ [CHR 0x00] @ le_bytes 2 0), (2, CHR 0x03 # ''def'' @ pdef), (3, CHR 0xFE # eof)]"

text \<open>The reply to a prepared statement with a parameter is misread: its statement id is reported as a number of affected rows,
  and the definition of its parameter as the start of a result set, which takes the replies to the next two commands for
  column definitions, so that neither is reported.\<close>

theorem prepare_reply_misread:
  assumes "0 < sid" "sid < 251" "length pdef \<le> 512" "length eof = 4" "packet_ok p" "packet_ok q"
  shows "mysqlResponses c raws (packets (prepare_reply sid pdef eof @ [p, q]))
    = [CompleteResponse (conn_key c) (zero_Payload\<lparr>pl_Summary := ''OK ('' @ itoa (int sid) @ '' rows affected)'', pl_RowCount := int sid,
         pl_Raw := raws 0\<rparr>) 0 ''success'' None,
       CompleteResponse (conn_key c) ((mysql_rows_reply 0)\<lparr>pl_Raw := raws 1\<rparr>) 0 ''success'' None]"
proof -
  let ?rest = "le_bytes 3 (sid div 256) @ le_bytes 2 0 @ le_bytes 2 1 @ [CHR 0x00] @ le_bytes 2 0"
  have "le_bytes 4 sid = char_of sid # le_bytes 3 (sid div 256)"
    using assms(2) by (simp add: le_bytes.simps(2) [of 3, simplified] )
  then have one: "prepare_reply sid pdef eof = reply_packets (OkReply 1 sid ?rest) @ [(2, CHR 0x03 # ''def'' @ pdef), (3, CHR 0xFE # eof)]"
    using assms(2) by (simp add: prepare_reply_def lenenc_def)
  have good: "good_reply (OkReply 1 sid ?rest)" using assms(2) by (simp add: good_reply_def packet_ok_def lenenc_def)
  have oks: "list_all packet_ok [(3, CHR 0xFE # eof), p, q]" "packet_ok (2, CHR 0x03 # ''def'' @ pdef)" using assms by (simp_all add: packet_ok_def)
  have "mysql_rows 0 False [] = (0, None)" by (subst mysql_rows.simps) (simp add: read_row_def readMySQLHeader_def read_full_def)
  then have rs: "readMySQLResultSet (packets [(3, CHR 0xFE # eof), p, q]) (CHR 0x03 # ''def'' @ pdef) = (0, None)"
    using columns_skipped [OF oks(1), of "[]"] by (simp add: readMySQLResultSet_def mysqlLenEncInt_def mysqlMaxColumns_def numeral_3_eq_3)
  have "mysql_responses c raws 1 False False (packets [(2, CHR 0x03 # ''def'' @ pdef), (3, CHR 0xFE # eof), p, q])
      = [CompleteResponse (conn_key c) ((mysql_rows_reply 0)\<lparr>pl_Raw := raws 1\<rparr>) 0 ''success'' None]"
    using rs oks assms(3) by (subst mysql_responses.simps) (simp add: reply_read mysqlMaxPayload_def mysql_consts)
  then show ?thesis using reply_step [OF good, of c raws 0 True] assms(1) by (simp add: mysqlResponses_def one reply_call_def)
qed

theorem prepare_reply_misread_witness:
  "mysqlResponses some_conn (\<lambda>_. None) (packets (prepare_reply 7 [] ''abcd'' @ [(1, [CHR 0x00, CHR 0x00]), (1, CHR 0xFF # le_bytes 2 1064)]))
    = [CompleteResponse (conn_key some_conn) (zero_Payload\<lparr>pl_Summary := ''OK (7 rows affected)'', pl_RowCount := 7, pl_Raw := None\<rparr>) 0 ''success'' None,
       CompleteResponse (conn_key some_conn) ((mysql_rows_reply 0)\<lparr>pl_Raw := None\<rparr>) 0 ''success'' None]"
  using prepare_reply_misread [of 7 "[]" "''abcd''" "(1, [CHR 0x00, CHR 0x00])" "(1, CHR 0xFF # le_bytes 2 1064)" some_conn "\<lambda>_. None"]
  by (simp add: packet_ok_def some_counts)
end
