(* ===== verification/Worker_Capture.thy ===== *)
theory Worker_Capture
  imports Worker_Resp Worker_Flows
begin

text \<open>
  What stands between a reassembled stream and its dissector, \<open>internal/worker/pipeline.go\<close>: the capture options, the reader that turns
  a lost segment into the end of the stream, the recording tee behind the Raw view with its memo, and the bounded, decompressed, printable
  form of a body.  The inflaters of \<open>compress/gzip\<close> and \<open>compress/flate\<close> are a parameter.
\<close>

subsection \<open>Capture options\<close>

definition DefaultBodyCaptureBytes :: int where "DefaultBodyCaptureBytes = 4096"
definition DefaultRawCaptureBytes :: int where "DefaultRawCaptureBytes = 2048"
definition DefaultHeaderHexBytes :: int where "DefaultHeaderHexBytes = 128"

record capture_opts =
  opt_CaptureBodies :: bool
  opt_RedactHeaders :: bool
  opt_RedactPGParams :: bool
  opt_BodyBytes :: int
  opt_RawBytes :: int

record capture_cfg =
  cc_captureBodies :: bool
  cc_bodyCap :: int
  cc_rawCap :: int
  cc_headerHexCap :: int
  cc_redactHeaders :: bool
  cc_redactPGParams :: bool

definition default_capture :: capture_cfg where
  "default_capture = \<lparr>cc_captureBodies = True, cc_bodyCap = DefaultBodyCaptureBytes, cc_rawCap = DefaultRawCaptureBytes,
     cc_headerHexCap = DefaultHeaderHexBytes, cc_redactHeaders = False, cc_redactPGParams = False\<rparr>"

definition applyCaptureOpts :: "capture_opts \<Rightarrow> capture_cfg \<Rightarrow> capture_cfg" where
  "applyCaptureOpts opts p =
     p\<lparr>cc_captureBodies := opt_CaptureBodies opts, cc_redactHeaders := opt_RedactHeaders opts, cc_redactPGParams := opt_RedactPGParams opts,
       cc_bodyCap := (if opt_BodyBytes opts > 0 then opt_BodyBytes opts else cc_bodyCap p),
       cc_rawCap := (if opt_RawBytes opts < 0 then -1 else if opt_RawBytes opts > 0 then opt_RawBytes opts else cc_rawCap p)\<rparr>"

subsection \<open>Lost segments\<close>

text \<open>What one call of \<open>Read\<close> returns: its bytes, and an error of which only the loss marker is told apart.\<close>

datatype rd_err = NoErr | DataLost | EOF

type_synonym rd_result = "bytes \<times> rd_err"

text \<open>The wrapped reader is the list of the results of its calls, after which it is at its end; \<open>DiscardBytesToEOF\<close> uses it up.\<close>

record lossReader =
  lr_r :: "rd_result list"
  lr_done :: bool
  lr_onLoss :: nat

definition under_read :: "rd_result list \<Rightarrow> rd_result \<times> rd_result list" where
  "under_read rs = (case rs of [] \<Rightarrow> (([], EOF), []) | x # xs \<Rightarrow> (x, xs))"

definition loss_Read :: "lossReader \<Rightarrow> rd_result \<times> lossReader" where
  "loss_Read l =
     (if lr_done l then (([], EOF), l)
      else (case under_read (lr_r l) of ((b, err), rest) \<Rightarrow>
              if err = DataLost then
                (let l1 = l\<lparr>lr_onLoss := lr_onLoss l + 1, lr_r := [], lr_done := True\<rparr>
                 in if b \<noteq> [] then ((b, NoErr), l1) else (([], EOF), l1))
              else ((b, err), l\<lparr>lr_r := rest\<rparr>)))"

text \<open>A caller that reads to the first error.\<close>

fun read_to_error :: "nat \<Rightarrow> lossReader \<Rightarrow> (bytes \<times> rd_err \<times> lossReader) option" where
  "read_to_error 0 l = None"
| "read_to_error (Suc k) l =
     (case loss_Read l of ((b, err), l1) \<Rightarrow>
        if err = NoErr then map_option (\<lambda>(b', e, l2). (b @ b', e, l2)) (read_to_error k l1) else Some (b, err, l1))"

fun drainTCPStream :: "rd_result list \<Rightarrow> rd_result list" where
  "drainTCPStream [] = []"
| "drainTCPStream ((b, err) # rs) = (if err \<noteq> NoErr \<and> err \<noteq> DataLost then rs else drainTCPStream rs)"

subsection \<open>The recording tee\<close>

record capReader =
  cr_buf :: bytes
  cr_total :: nat
  cr_max :: nat
  cr_cachedData :: bytes
  cr_cachedLen :: nat

definition newCapReader :: "nat \<Rightarrow> capReader" where
  "newCapReader mx = \<lparr>cr_buf = [], cr_total = 0, cr_max = mx, cr_cachedData = [], cr_cachedLen = 0\<rparr>"

definition cap_Read :: "bytes \<Rightarrow> capReader \<Rightarrow> capReader" where
  "cap_Read p c =
     (if p = [] then c
      else let c1 = c\<lparr>cr_total := cr_total c + length p\<rparr>; room = cr_max c - length (cr_buf c) in
           if room > 0 then c1\<lparr>cr_buf := cr_buf c @ take (min (length p) room) p\<rparr> else c1)"

definition cap_raw :: "capReader \<Rightarrow> RawView option \<times> capReader" where
  "cap_raw c =
     (if cr_buf c = [] then (None, c)
      else let c1 = (if cr_cachedLen c \<noteq> length (cr_buf c) then c\<lparr>cr_cachedData := cr_buf c, cr_cachedLen := length (cr_buf c)\<rparr> else c)
           in (Some \<lparr>rv_Data = cr_cachedData c1, rv_Hex = [], rv_Bytes = int (cr_total c1), rv_Truncated = (cr_total c1 > length (cr_buf c1))\<rparr>, c1))"

definition capture :: "capture_cfg \<Rightarrow> capReader option" where
  "capture p = (if cc_rawCap p < 0 then None else Some (newCapReader (nat (cc_rawCap p))))"

definition rawOf :: "capReader option \<Rightarrow> RawView option \<times> capReader option" where
  "rawOf cr = (case cr of None \<Rightarrow> (None, None) | Some c \<Rightarrow> (case cap_raw c of (v, c1) \<Rightarrow> (v, Some c1)))"

subsection \<open>Bodies\<close>

text \<open>A body is what its reader delivers until its end or an error; \<open>None\<close> is the nil reader.\<close>

definition drainBody :: "capture_cfg \<Rightarrow> bytes option \<Rightarrow> string \<times> bool \<times> int" where
  "drainBody p rc =
     (case rc of None \<Rightarrow> ([], False, 0)
      | Some s \<Rightarrow>
          if \<not> cc_captureBodies p \<or> cc_bodyCap p \<le> 0 then ([], False, 0)
          else (case s of [] \<Rightarrow> ([], False, 0)
                | c # rest \<Rightarrow>
                    let b = take (nat (cc_bodyCap p - 1)) rest; extra = drop (nat (cc_bodyCap p - 1)) rest
                    in (c # b, extra \<noteq> [], 1 + int (length b) + int (length extra))))"

text \<open>An inflater gives nothing when it rejects the header, else the bytes it delivers and whether it ends without an error.\<close>

record inflaters =
  gunzip :: "bytes \<Rightarrow> (bytes \<times> bool) option"
  inflate :: "bytes \<Rightarrow> bytes \<times> bool"

definition decompressBody :: "golib \<Rightarrow> inflaters \<Rightarrow> string \<Rightarrow> bool \<Rightarrow> string \<Rightarrow> int \<Rightarrow> string \<times> bool" where
  "decompressBody L Z body truncated contentEncoding limit =
     (if body = [] \<or> limit \<le> 0 then (body, truncated)
      else let enc = to_lower L (trim_space contentEncoding);
               zr = (if enc = ''gzip'' then gunzip Z body else if enc = ''deflate'' then Some (inflate Z body) else None)
           in (case zr of None \<Rightarrow> (body, truncated)
               | Some (all, clean) \<Rightarrow>
                   let out = take (nat limit + 1) all in
                   if out = [] \<and> \<not> clean then (body, truncated)
                   else if int (length out) > limit then (take (nat limit) out, True) else (out, truncated)))"

definition safeBody :: "string \<Rightarrow> string" where
  "safeBody s = (if isRedisPrintable s then s else binaryPreview s)"

subsection \<open>A lost segment ends the stream\<close>

text \<open>The bytes of the calls before the first one with an error, and that call's own.\<close>

fun until_error :: "rd_result list \<Rightarrow> bytes \<times> rd_err" where
  "until_error [] = ([], EOF)"
| "until_error ((b, err) # rs) = (if err = NoErr then (case until_error rs of (x, e) \<Rightarrow> (b @ x, e)) else (b, err))"

text \<open>Behind the loss reader a dissector sees exactly the bytes before the first lost segment and then the end of the stream, never a
  byte from behind the gap, and the loss is reported once, however often the stream is read again.\<close>

theorem loss_reader_truncates:
  assumes "\<not> lr_done l"
  shows "\<exists>l'. read_to_error (length (lr_r l) + 2) l
      = Some (fst (until_error (lr_r l)), EOF, l') \<and> lr_onLoss l' = lr_onLoss l + (if snd (until_error (lr_r l)) = DataLost then 1 else 0)
    \<and> (snd (until_error (lr_r l)) = DataLost \<longrightarrow> loss_Read l' = (([], EOF), l'))"
  using assms
proof (induction "lr_r l" arbitrary: l)
  case Nil
  then show ?case by (simp add: loss_Read_def under_read_def)
next
  case (Cons x rs)
  obtain b err where x: "x = (b, err)" by (cases x)
  let ?l = "l\<lparr>lr_r := rs\<rparr>"
  have r: "lr_r l = (b, err) # rs" using Cons x by simp
  show ?case
  proof (cases err)
    case NoErr
    have "loss_Read l = ((b, NoErr), ?l)" using Cons.prems r NoErr by (simp add: loss_Read_def under_read_def)
    then show ?thesis using Cons.hyps(1) [of ?l] Cons.prems r NoErr by (auto simp: case_prod_unfold)
  next
    case DataLost
    let ?e = "l\<lparr>lr_onLoss := lr_onLoss l + 1, lr_r := [], lr_done := True\<rparr>"
    have "loss_Read l = (if b \<noteq> [] then ((b, NoErr), ?e) else (([], EOF), ?e))" "loss_Read ?e = (([], EOF), ?e)"
      using Cons.prems r DataLost by (simp_all add: loss_Read_def under_read_def)
    then show ?thesis using r DataLost by (intro exI [of _ ?e]) simp
  next
    case EOF
    then show ?thesis using Cons.prems r by (simp add: loss_Read_def under_read_def)
  qed
qed

theorem loss_reader_truncates_witness:
  "\<exists>l'. read_to_error 6 \<lparr>lr_r = [(''ab'', NoErr), (''c'', NoErr), ([], DataLost), (''z'', NoErr)], lr_done = False, lr_onLoss = 0\<rparr>
     = Some (''abc'', EOF, l') \<and> lr_onLoss l' = 1 \<and> loss_Read l' = (([], EOF), l')"
  using loss_reader_truncates [of "\<lparr>lr_r = [(''ab'', NoErr), (''c'', NoErr), ([], DataLost), (''z'', NoErr)], lr_done = False, lr_onLoss = 0\<rparr>"]
  by (simp add: numeral_eq_Suc)

lemma drain_reaches_end: "\<forall>x \<in> set rs. snd x \<noteq> EOF \<Longrightarrow> drainTCPStream rs = []"
  by (induction rs rule: drainTCPStream.induct) (auto, metis rd_err.exhaust)

subsection \<open>The Raw view is what was read\<close>

datatype cap_op = CRead bytes | CRaw

fun cap_run :: "cap_op list \<Rightarrow> capReader \<Rightarrow> capReader" where
  "cap_run [] c = c"
| "cap_run (CRead p # ops) c = cap_run ops (cap_Read p c)"
| "cap_run (CRaw # ops) c = cap_run ops (snd (cap_raw c))"

fun bytes_read :: "cap_op list \<Rightarrow> bytes" where
  "bytes_read [] = []"
| "bytes_read (CRead p # ops) = p @ bytes_read ops"
| "bytes_read (CRaw # ops) = bytes_read ops"

definition cap_inv :: "nat \<Rightarrow> bytes \<Rightarrow> capReader \<Rightarrow> bool" where
  "cap_inv mx s c \<longleftrightarrow> cr_max c = mx \<and> cr_buf c = take mx s \<and> cr_total c = length s \<and> cr_cachedData c = take (cr_cachedLen c) s
     \<and> cr_cachedLen c \<le> length (cr_buf c)"

lemma cap_Read_inv: "cap_inv mx s c \<Longrightarrow> cap_inv mx (s @ p) (cap_Read p c)"
  by (auto simp: cap_inv_def cap_Read_def Let_def min_def)

lemma cap_raw_inv: "cap_inv mx s c \<Longrightarrow> cap_inv mx s (snd (cap_raw c))"
  by (auto simp: cap_inv_def cap_raw_def Let_def min_def)

lemma cap_run_inv: "cap_inv mx s c \<Longrightarrow> cap_inv mx (s @ bytes_read ops) (cap_run ops c)"
proof (induction ops c arbitrary: s rule: cap_run.induct)
  case (2 p ops c)
  then show ?case using cap_Read_inv [of mx s c p] by fastforce
qed (auto dest: cap_raw_inv)

text \<open>At any point of a connection the Raw view is the view of all bytes read so far, cut at the cap: the memo of the sample is never stale,
  and the byte count and the truncation mark keep growing after the sample is full.\<close>

theorem cap_reader_exact:
  assumes "0 < mx"
  shows "fst (cap_raw (cap_run ops (newCapReader mx))) = rawViewFromBytes (bytes_read ops) (int mx)"
proof -
  have "cap_inv mx [] (newCapReader mx)" by (simp add: cap_inv_def newCapReader_def)
  then have "cap_inv mx (bytes_read ops) (cap_run ops (newCapReader mx))" using cap_run_inv by fastforce
  then show ?thesis using assms by (auto simp: cap_inv_def cap_raw_def rawViewFromBytes_def Let_def min_def)
qed

theorem cap_reader_exact_witness:
  "fst (cap_raw (cap_run [CRead ''ab'', CRaw, CRead ''cd'', CRaw, CRead ''ef''] (newCapReader 3))) = rawViewFromBytes ''abcdef'' 3"
  using cap_reader_exact [of 3 "[CRead ''ab'', CRaw, CRead ''cd'', CRaw, CRead ''ef'']"] by simp

subsection \<open>Bounded bodies\<close>

text \<open>A captured body is the first \<open>bodyCap\<close> bytes of the message, marked as cut exactly when there are more, with the length of the whole;
  with body capture off nothing of it is kept.\<close>

lemma drain_body_cap:
  "drainBody p (Some s) = (if \<not> cc_captureBodies p \<or> cc_bodyCap p \<le> 0 then ([], False, 0)
     else (take (nat (cc_bodyCap p)) s, int (length s) > cc_bodyCap p, int (length s)))"
proof (cases s)
  case (Cons c rest)
  show ?thesis
  proof (cases "cc_captureBodies p \<and> cc_bodyCap p > 0")
    case True
    then obtain k where k: "cc_bodyCap p = int (Suc k)" by (metis pos_int_cases gr0_implies_Suc)
    then show ?thesis using True Cons by (auto simp: drainBody_def Let_def nat_add_distrib)
  qed (auto simp: drainBody_def)
qed (auto simp: drainBody_def)

lemma decompress_bounded:
  "fst (decompressBody L Z body tr enc limit) = body \<or> int (length (fst (decompressBody L Z body tr enc limit))) \<le> limit"
  by (auto simp: decompressBody_def Let_def split: option.splits prod.splits)

lemma decompress_keeps_mark: "tr \<Longrightarrow> snd (decompressBody L Z body tr enc limit)"
  by (auto simp: decompressBody_def Let_def split: option.splits prod.splits)

lemma chunks_after_ascii: "list_all is_ascii s \<Longrightarrow> rune_chunks (s @ t) = map (\<lambda>c. (byte c, [c])) s @ rune_chunks t"
  by (induction s) (simp_all add: rune_chunks_ascii is_ascii_def)

text \<open>A printable text whose cap falls inside a multi-byte character is not reported as text: what is left of the last character is not valid
  UTF-8, and the whole body becomes a hex preview.\<close>

theorem cut_text_becomes_hex:
  assumes "list_all (\<lambda>c. is_ascii c \<and> \<not> is_control_rune (byte c)) s" "cc_captureBodies p" "cc_bodyCap p = int (length s) + 1"
  shows "isRedisPrintable (s @ [CHR 0xC3, CHR 0xA9]) \<and>
    safeBody (fst (drainBody p (Some (s @ [CHR 0xC3, CHR 0xA9])))) = binaryPreview (s @ [CHR 0xC3])"
proof -
  have ascii: "list_all is_ascii s" using assms(1) by (simp add: list_all_iff)
  have e: "rune_chunks [CHR 0xC3, CHR 0xA9] = [(233, [CHR 0xC3, CHR 0xA9])]" by code_simp
  have cut: "rune_chunks [CHR 0xC3] = [(rune_error, [CHR 0xC3])]" by (simp add: rune_chunks.simps decode_rune_def Let_def)
  have "isRedisPrintable (s @ [CHR 0xC3, CHR 0xA9])"
  proof -
    have c: "byte c < 128" "\<not> is_control_rune (byte c)" if "c \<in> set s" for c using assms(1) that by (auto simp: list_all_iff is_ascii_def)
    then have "list_all (\<lambda>r. r \<noteq> rune_error \<and> \<not> is_control_rune r) (map byte s)" by (force simp: list_all_iff rune_error_def)
    moreover have "list_all (\<lambda>(r, b). r \<noteq> rune_error \<or> length b = 3) (map (\<lambda>c. (byte c, [c])) s)" using c by (force simp: list_all_iff rune_error_def)
    moreover have "\<not> is_control_rune 233" "(233 :: nat) \<noteq> rune_error" by (simp_all add: is_control_rune_def rune_error_def)
    ultimately show ?thesis by (simp add: isRedisPrintable_def valid_utf8_def runes_def chunks_after_ascii [OF ascii] e list_all_iff)
  qed
  moreover have "\<not> isRedisPrintable (s @ [CHR 0xC3])"
    by (simp add: isRedisPrintable_def valid_utf8_def chunks_after_ascii [OF ascii] cut)
  moreover have "fst (drainBody p (Some (s @ [CHR 0xC3, CHR 0xA9]))) = s @ [CHR 0xC3]"
    using assms(2,3) by (subst drain_body_cap) (auto simp: nat_add_distrib)
  ultimately show ?thesis by (simp add: safeBody_def)
qed

end
