(* ===== verification/Worker_Amqp.thy ===== *)
theory Worker_Amqp
  imports Worker_Postgres Worker_Capture
begin

text \<open>
  The AMQP 0-9-1 dissector, \<open>internal/worker/dissect_amqp.go\<close>: frames, the arguments of the surfaced methods, the content-header
  properties with the walk over their field tables, and the assembly of message contents, one per channel.  A direction is a function from
  the bytes of the stream to the entries it emits; what the clock, the shared entry counter and \<open>rawOf\<close> give at the \<open>n\<close>-th frame
  are parameters.
\<close>

unbundle bit_operations_syntax

datatype amqp_error = AEOF | AFrame

definition amqpFrameEnd :: nat where "amqpFrameEnd = 206"
definition amqpFrameMethod :: nat where "amqpFrameMethod = 1"
definition amqpFrameHeader :: nat where "amqpFrameHeader = 2"
definition amqpFrameBody :: nat where "amqpFrameBody = 3"
definition amqpFrameHeartbeat :: nat where "amqpFrameHeartbeat = 8"
definition amqpMaxFrame :: nat where "amqpMaxFrame = 16 * 2 ^ 20"
definition amqpMaxCapture :: nat where "amqpMaxCapture = 64 * 2 ^ 10"

definition amqpClassConnection :: nat where "amqpClassConnection = 10"
definition amqpClassChannel :: nat where "amqpClassChannel = 20"
definition amqpClassExchange :: nat where "amqpClassExchange = 40"
definition amqpClassQueue :: nat where "amqpClassQueue = 50"
definition amqpClassBasic :: nat where "amqpClassBasic = 60"

lemmas amqp_frame_types = amqpFrameMethod_def amqpFrameHeader_def amqpFrameBody_def amqpFrameHeartbeat_def
lemmas amqp_classes = amqpClassConnection_def amqpClassChannel_def amqpClassExchange_def amqpClassQueue_def amqpClassBasic_def

record amqpMethodInfo =
  mi_class :: string
  mi_method :: string
  mi_exchange :: string
  mi_routingKey :: string
  mi_queue :: string
  mi_consumerTag :: string
  mi_exchType :: string
  mi_vhost :: string
  mi_replyText :: string
  mi_deliveryTag :: nat
  mi_replyCode :: nat
  mi_content :: bool

record amqpBasicProps =
  bp_contentType :: string
  bp_correlationID :: string
  bp_replyTo :: string
  bp_messageID :: string

record amqpPending =
  ap_info :: amqpMethodInfo
  ap_bodySize :: nat
  ap_props :: amqpBasicProps
  ap_total :: nat
  ap_body :: bytes

definition no_props :: amqpBasicProps where
  "no_props = \<lparr>bp_contentType = [], bp_correlationID = [], bp_replyTo = [], bp_messageID = []\<rparr>"

subsection \<open>Frames\<close>

record amqp_frame =
  af_type :: nat
  af_channel :: nat
  af_payload :: bytes
  af_full :: nat

definition readAMQPFrame :: "bytes \<Rightarrow> amqp_error + amqp_frame \<times> bytes" where
  "readAMQPFrame br =
     (case read_full 7 br of None \<Rightarrow> Inl AEOF
      | Some (hdr, r) \<Rightarrow>
          if be32 (drop 3 hdr) > amqpMaxFrame then Inl AFrame
          else (case read_full (min (be32 (drop 3 hdr)) amqpMaxCapture) r of None \<Rightarrow> Inl AEOF
                | Some (payload, r2) \<Rightarrow>
                    (case discard_n (be32 (drop 3 hdr) - min (be32 (drop 3 hdr)) amqpMaxCapture) r2 of None \<Rightarrow> Inl AEOF
                     | Some r3 \<Rightarrow>
                         (case read_byte r3 of None \<Rightarrow> Inl AEOF
                          | Some (e, r4) \<Rightarrow>
                              if byte e \<noteq> amqpFrameEnd then Inl AFrame
                              else Inr (\<lparr>af_type = byte (hdr ! 0), af_channel = be16 (drop 1 hdr), af_payload = payload, af_full = be32 (drop 3 hdr)\<rparr>, r4)))))"

subsection \<open>Bounds-checked readers\<close>

definition amqpShort :: "bytes \<Rightarrow> nat \<Rightarrow> nat \<times> nat" where
  "amqpShort b off = (if off + 2 > length b then (0, length b) else (be16 (drop off b), off + 2))"

definition amqpLong :: "bytes \<Rightarrow> nat \<Rightarrow> nat \<times> nat" where
  "amqpLong b off = (if off + 4 > length b then (0, length b) else (be32 (drop off b), off + 4))"

definition amqpLongLong :: "bytes \<Rightarrow> nat \<Rightarrow> nat \<times> nat" where
  "amqpLongLong b off = (if off + 8 > length b then (0, length b) else (be64 (drop off b), off + 8))"

definition amqpShortStr :: "bytes \<Rightarrow> nat \<Rightarrow> string \<times> nat" where
  "amqpShortStr b off =
     (if off + 1 > length b then ([], length b)
      else let n = byte (b ! off) in
           if off + 1 + n > length b then ([], length b) else (take n (drop (off + 1) b), off + 1 + n))"

definition amqpSkipBits :: "bytes \<Rightarrow> nat \<Rightarrow> nat" where
  "amqpSkipBits b off = (if off < length b then off + 1 else off)"

subsection \<open>Methods\<close>

definition parseAMQPMethod :: "bytes \<Rightarrow> (nat \<times> nat \<times> bytes) option" where
  "parseAMQPMethod payload = (if length payload < 4 then None else Some (be16 payload, be16 (drop 2 payload), drop 4 payload))"

definition amqpMethodName :: "nat \<Rightarrow> nat \<Rightarrow> string \<times> string" where
  "amqpMethodName classID methodID =
     (if classID = amqpClassConnection then
        (if methodID = 40 then (''Connection'', ''Open'') else if methodID = 50 then (''Connection'', ''Close'') else ([], []))
      else if classID = amqpClassChannel then
        (if methodID = 10 then (''Channel'', ''Open'') else if methodID = 40 then (''Channel'', ''Close'') else ([], []))
      else if classID = amqpClassExchange then (if methodID = 10 then (''Exchange'', ''Declare'') else ([], []))
      else if classID = amqpClassQueue then
        (if methodID = 10 then (''Queue'', ''Declare'') else if methodID = 20 then (''Queue'', ''Bind'') else ([], []))
      else if classID = amqpClassBasic then
        (if methodID = 20 then (''Basic'', ''Consume'') else if methodID = 40 then (''Basic'', ''Publish'')
         else if methodID = 50 then (''Basic'', ''Return'') else if methodID = 60 then (''Basic'', ''Deliver'')
         else if methodID = 71 then (''Basic'', ''GetOk'') else if methodID = 72 then (''Basic'', ''GetEmpty'')
         else if methodID = 80 then (''Basic'', ''Ack'') else if methodID = 120 then (''Basic'', ''Nack'') else ([], []))
      else ([], []))"

definition method_info :: "string \<Rightarrow> string \<Rightarrow> amqpMethodInfo" where
  "method_info class method = \<lparr>mi_class = class, mi_method = method, mi_exchange = [], mi_routingKey = [], mi_queue = [],
     mi_consumerTag = [], mi_exchType = [], mi_vhost = [], mi_replyText = [], mi_deliveryTag = 0, mi_replyCode = 0, mi_content = False\<rparr>"

text \<open>The arguments of the basic class, and of the others.\<close>

definition basic_args :: "nat \<Rightarrow> bytes \<Rightarrow> amqpMethodInfo \<Rightarrow> amqpMethodInfo" where
  "basic_args methodID args info =
     (if methodID = 40 then
        (let (_, o1) = amqpShort args 0; (ex, o2) = amqpShortStr args o1; (rk, _) = amqpShortStr args o2
         in info\<lparr>mi_exchange := ex, mi_routingKey := rk, mi_content := True\<rparr>)
      else if methodID = 60 then
        (let (tag, o1) = amqpShortStr args 0; (dt, o2) = amqpLongLong args o1; o3 = amqpSkipBits args o2;
             (ex, o4) = amqpShortStr args o3; (rk, _) = amqpShortStr args o4
         in info\<lparr>mi_consumerTag := tag, mi_deliveryTag := dt, mi_exchange := ex, mi_routingKey := rk, mi_content := True\<rparr>)
      else if methodID = 50 then
        (let (code, o1) = amqpShort args 0; (reason, o2) = amqpShortStr args o1; (ex, o3) = amqpShortStr args o2; (rk, _) = amqpShortStr args o3
         in info\<lparr>mi_replyCode := code, mi_replyText := reason, mi_exchange := ex, mi_routingKey := rk, mi_content := True\<rparr>)
      else if methodID = 71 then
        (let (dt, o1) = amqpLongLong args 0; o2 = amqpSkipBits args o1; (ex, o3) = amqpShortStr args o2; (rk, o4) = amqpShortStr args o3;
             _ = amqpLong args o4
         in info\<lparr>mi_deliveryTag := dt, mi_exchange := ex, mi_routingKey := rk, mi_content := True\<rparr>)
      else if methodID = 80 \<or> methodID = 120 then info\<lparr>mi_deliveryTag := fst (amqpLongLong args 0)\<rparr>
      else if methodID = 20 then (let (_, o1) = amqpShort args 0 in info\<lparr>mi_queue := fst (amqpShortStr args o1)\<rparr>)
      else info)"

definition other_args :: "nat \<Rightarrow> nat \<Rightarrow> bytes \<Rightarrow> amqpMethodInfo \<Rightarrow> amqpMethodInfo" where
  "other_args classID methodID args info =
     (if classID = amqpClassQueue \<and> methodID = 10 then
        (let (_, o1) = amqpShort args 0 in info\<lparr>mi_queue := fst (amqpShortStr args o1)\<rparr>)
      else if classID = amqpClassQueue \<and> methodID = 20 then
        (let (_, o1) = amqpShort args 0; (q, o2) = amqpShortStr args o1; (ex, o3) = amqpShortStr args o2; (rk, _) = amqpShortStr args o3
         in info\<lparr>mi_queue := q, mi_exchange := ex, mi_routingKey := rk\<rparr>)
      else if classID = amqpClassExchange \<and> methodID = 10 then
        (let (_, o1) = amqpShort args 0; (ex, o2) = amqpShortStr args o1; (ty, _) = amqpShortStr args o2
         in info\<lparr>mi_exchange := ex, mi_exchType := ty\<rparr>)
      else if classID = amqpClassConnection \<and> methodID = 40 then info\<lparr>mi_vhost := fst (amqpShortStr args 0)\<rparr>
      else if (classID = amqpClassConnection \<and> methodID = 50) \<or> (classID = amqpClassChannel \<and> methodID = 40) then
        (let (code, o1) = amqpShort args 0; (reason, _) = amqpShortStr args o1 in info\<lparr>mi_replyCode := code, mi_replyText := reason\<rparr>)
      else info)"

definition parseAMQPArgs :: "nat \<Rightarrow> nat \<Rightarrow> bytes \<Rightarrow> amqpMethodInfo option" where
  "parseAMQPArgs classID methodID args =
     (case amqpMethodName classID methodID of (class, method) \<Rightarrow>
        if class = [] then None
        else Some (if classID = amqpClassBasic then basic_args methodID args (method_info class method)
                   else other_args classID methodID args (method_info class method)))"

definition amqpSummary :: "amqpMethodInfo \<Rightarrow> nat \<Rightarrow> string" where
  "amqpSummary info bodySize =
     (let name = mi_class info @ ''.'' @ mi_method info; route = mi_exchange info @ ''/'' @ mi_routingKey info;
          tag = itoa (int (mi_deliveryTag info)); code = itoa (int (mi_replyCode info))
      in if name = ''Basic.Publish'' then ''PUBLISH '' @ route @ '' ('' @ itoa (int bodySize) @ '' B)''
         else if name = ''Basic.Deliver'' then ''DELIVER '' @ route @ '' tag='' @ tag
         else if name = ''Basic.Return'' then ''RETURN '' @ code @ '' '' @ route
         else if name = ''Basic.GetOk'' then ''GET-OK '' @ route @ '' tag='' @ tag
         else if name = ''Basic.GetEmpty'' then ''GET-EMPTY''
         else if name = ''Basic.Ack'' then ''ACK tag='' @ tag
         else if name = ''Basic.Nack'' then ''NACK tag='' @ tag
         else if name = ''Basic.Consume'' then ''CONSUME '' @ mi_queue info
         else if name = ''Queue.Declare'' then ''QUEUE.DECLARE '' @ mi_queue info
         else if name = ''Queue.Bind'' then ''QUEUE.BIND '' @ mi_queue info @ '' -> '' @ route
         else if name = ''Exchange.Declare'' then ''EXCHANGE.DECLARE '' @ mi_exchange info @ '' ('' @ mi_exchType info @ '')''
         else if name = ''Connection.Open'' then ''CONNECTION.OPEN '' @ mi_vhost info
         else if name = ''Connection.Close'' then ''CONNECTION.CLOSE '' @ code @ '' '' @ mi_replyText info
         else if name = ''Channel.Open'' then ''CHANNEL.OPEN''
         else if name = ''Channel.Close'' then ''CHANNEL.CLOSE '' @ code @ '' '' @ mi_replyText info
         else name)"

definition amqpStatus :: "amqpMethodInfo \<Rightarrow> string" where
  "amqpStatus info =
     (if (mi_class info = ''Connection'' \<or> mi_class info = ''Channel'') \<and> mi_method info = ''Close'' \<and> mi_replyCode info \<ge> 300 then ''error''
      else if mi_class info = ''Basic'' \<and> mi_method info = ''Return'' \<and> mi_replyCode info \<ge> 300 then ''error''
      else if mi_class info = ''Basic'' \<and> mi_method info = ''Nack'' then ''error'' else ''success'')"


subsection \<open>Content-header properties\<close>

definition amqpMaxTableDepth :: nat where "amqpMaxTableDepth = 8"

definition amqpFlagContentType :: nat where "amqpFlagContentType = 2 ^ 15"
definition amqpFlagContentEncoding :: nat where "amqpFlagContentEncoding = 2 ^ 14"
definition amqpFlagHeaders :: nat where "amqpFlagHeaders = 2 ^ 13"
definition amqpFlagDeliveryMode :: nat where "amqpFlagDeliveryMode = 2 ^ 12"
definition amqpFlagPriority :: nat where "amqpFlagPriority = 2 ^ 11"
definition amqpFlagCorrelationID :: nat where "amqpFlagCorrelationID = 2 ^ 10"
definition amqpFlagReplyTo :: nat where "amqpFlagReplyTo = 2 ^ 9"
definition amqpFlagExpiration :: nat where "amqpFlagExpiration = 2 ^ 8"
definition amqpFlagMessageID :: nat where "amqpFlagMessageID = 2 ^ 7"
definition amqpFlagContinuation :: nat where "amqpFlagContinuation = 1"

lemmas amqp_flags = amqpFlagContentType_def amqpFlagContentEncoding_def amqpFlagHeaders_def amqpFlagDeliveryMode_def amqpFlagPriority_def
  amqpFlagCorrelationID_def amqpFlagReplyTo_def amqpFlagExpiration_def amqpFlagMessageID_def

text \<open>
  The walk over a field table.  A position in a slice of the code is the rest of the slice from there; \<open>None\<close> is \<open>ok=false\<close>.  The
  tests on lengths in the two loops hold whenever a value was walked.
\<close>

definition fixed :: "nat \<Rightarrow> bytes \<Rightarrow> bytes option" where
  "fixed n t = (if n > length t then None else Some (drop n t))"

definition long_prefixed :: "bytes \<Rightarrow> (bytes \<times> bytes) option" where
  "long_prefixed t = (if 4 > length t then None else if 4 + be32 t > length t then None
     else Some (take (be32 t) (drop 4 t), drop (be32 t) (drop 4 t)))"

lemma long_prefixed_shorter: "long_prefixed t = Some (b, r) \<Longrightarrow> length b + length r < length t"
  by (auto simp: long_prefixed_def split: if_splits)

function (sequential) amqpWalkTable :: "bytes \<Rightarrow> nat \<Rightarrow> bool"
  and walk_pairs :: "bytes \<Rightarrow> nat \<Rightarrow> bool"
  and amqpWalkValue :: "bytes \<Rightarrow> nat \<Rightarrow> bytes option"
  and walk_items :: "bytes \<Rightarrow> nat \<Rightarrow> bool" where
  "amqpWalkTable t depth = (if depth > amqpMaxTableDepth then False else walk_pairs t depth)"
| "walk_pairs [] depth = True"
| "walk_pairs (n # t) depth =
     (if byte n > length t then False
      else (case amqpWalkValue (drop (byte n) t) depth of None \<Rightarrow> False
            | Some r \<Rightarrow> if length r \<le> length t then walk_pairs r depth else False))"
| "amqpWalkValue [] depth = None"
| "amqpWalkValue (tag # t) depth =
     (if tag = CHR ''V'' then Some t
      else if tag \<in> {CHR ''t'', CHR ''b'', CHR ''B''} then fixed 1 t
      else if tag \<in> {CHR ''s'', CHR ''u'', CHR ''U''} then fixed 2 t
      else if tag \<in> {CHR ''I'', CHR ''i'', CHR ''f''} then fixed 4 t
      else if tag = CHR ''D'' then fixed 5 t
      else if tag \<in> {CHR ''l'', CHR ''L'', CHR ''d'', CHR ''T''} then fixed 8 t
      else if tag \<in> {CHR ''S'', CHR ''x''} then map_option snd (long_prefixed t)
      else if tag = CHR ''F'' then
        (case long_prefixed t of None \<Rightarrow> None | Some (b, r) \<Rightarrow> if amqpWalkTable b (depth + 1) then Some r else None)
      else if tag = CHR ''A'' then
        (case long_prefixed t of None \<Rightarrow> None | Some (b, r) \<Rightarrow> if walk_items b (depth + 1) then Some r else None)
      else None)"
| "walk_items [] depth = True"
| "walk_items t depth =
     (case amqpWalkValue t depth of None \<Rightarrow> False
      | Some r \<Rightarrow> if length r < length t then walk_items r depth else False)"
  by pat_completeness auto
termination
  by (relation "measure (\<lambda>x. case x of Inl (Inl (t, d)) \<Rightarrow> 2 * length t + 1 | Inl (Inr (t, d)) \<Rightarrow> 2 * length t
        | Inr (Inl (t, d)) \<Rightarrow> 2 * length t | Inr (Inr (t, d)) \<Rightarrow> 2 * length t + 1)")
    (auto dest: long_prefixed_shorter)

declare amqpWalkTable.simps [simp del] walk_pairs.simps [simp del] amqpWalkValue.simps [simp del] walk_items.simps [simp del]

definition amqpSkipFieldTable :: "bytes \<Rightarrow> nat \<Rightarrow> nat" where
  "amqpSkipFieldTable b off =
     (let (n, pos) = amqpLong b off; stop = pos + n in
      if stop > length b then length b
      else if \<not> amqpWalkTable (take n (drop pos b)) 0 then length b else stop)"

text \<open>The continuation words of the flags, at most eight of them.\<close>

fun skip_flag_words :: "bytes \<Rightarrow> nat \<Rightarrow> bool \<Rightarrow> nat \<Rightarrow> nat" where
  "skip_flag_words b 0 cont pos = pos"
| "skip_flag_words b (Suc k) cont pos =
     (if \<not> cont then pos else (case amqpShort b pos of (w, pos2) \<Rightarrow> skip_flag_words b k (w AND amqpFlagContinuation \<noteq> 0) pos2))"

text \<open>A property of the list: read or stepped over when its flag is set, else left empty.\<close>

definition flagged :: "nat \<Rightarrow> nat \<Rightarrow> (nat \<Rightarrow> string \<times> nat) \<Rightarrow> nat \<Rightarrow> string \<times> nat" where
  "flagged flags m rd pos = (if flags AND m \<noteq> 0 then rd pos else ([], pos))"

definition parseAMQPBasicProps :: "bytes \<Rightarrow> amqpBasicProps" where
  "parseAMQPBasicProps b =
     (let (flags, o0) = amqpShort b 0;
          o1 = skip_flag_words b 8 (flags AND amqpFlagContinuation \<noteq> 0) o0;
          (ct, o2) = flagged flags amqpFlagContentType (amqpShortStr b) o1;
          (_, o3) = flagged flags amqpFlagContentEncoding (amqpShortStr b) o2;
          (_, o4) = flagged flags amqpFlagHeaders (\<lambda>pos. ([], amqpSkipFieldTable b pos)) o3;
          (_, o5) = flagged flags amqpFlagDeliveryMode (\<lambda>pos. ([], amqpSkipBits b pos)) o4;
          (_, o6) = flagged flags amqpFlagPriority (\<lambda>pos. ([], amqpSkipBits b pos)) o5;
          (ci, o7) = flagged flags amqpFlagCorrelationID (amqpShortStr b) o6;
          (rt, o8) = flagged flags amqpFlagReplyTo (amqpShortStr b) o7;
          (_, o9) = flagged flags amqpFlagExpiration (amqpShortStr b) o8;
          (mi, _) = flagged flags amqpFlagMessageID (amqpShortStr b) o9
      in \<lparr>bp_contentType = ct, bp_correlationID = ci, bp_replyTo = rt, bp_messageID = mi\<rparr>)"

subsection \<open>Entries\<close>

text \<open>What one direction is run with.\<close>

record amqp_env =
  ae_cfg :: flow_cfg
  ae_bodyCap :: int
  ae_isClient :: bool
  ae_conn :: connID
  ae_now :: "nat \<Rightarrow> time"
  ae_seq :: "nat \<Rightarrow> nat"
  ae_raw :: "nat \<Rightarrow> RawView option"

definition amqpPayload :: "amqpMethodInfo \<Rightarrow> string \<Rightarrow> string \<Rightarrow> int \<Rightarrow> Payload" where
  "amqpPayload info summary body sz = zero_Payload\<lparr>pl_Class := mi_class info, pl_Method := mi_method info, pl_Exchange := mi_exchange info,
     pl_RoutingKey := mi_routingKey info, pl_Queue := mi_queue info, pl_DeliveryTag := word_of_nat (mi_deliveryTag info),
     pl_Summary := summary, pl_Body := body, pl_Size := sz\<rparr>"

definition emitAMQP :: "amqp_env \<Rightarrow> nat \<Rightarrow> Payload \<Rightarrow> Payload \<Rightarrow> string \<Rightarrow> Entry" where
  "emitAMQP E n req resp status =
     (case conn_endpoints (ae_conn E) of (cli, brk) \<Rightarrow>
        zero_Entry\<lparr>e_ID := cfg_node (ae_cfg E) @ ''-amqp-'' @ format_nat 36 (ae_seq E n), e_Protocol := ProtocolAMQP, e_Timestamp := ae_now E n,
          e_Node := cfg_node (ae_cfg E), e_NodeIP := cfg_nodeIP (ae_cfg E),
          e_Source := (if ae_isClient E then cli else brk), e_Destination := (if ae_isClient E then brk else cli),
          e_Request := req, e_Response := resp, e_Status := status\<rparr>)"

definition emitAMQPMethod :: "amqp_env \<Rightarrow> nat \<Rightarrow> amqpMethodInfo \<Rightarrow> Entry" where
  "emitAMQPMethod E n info =
     (let summary = amqpSummary info 0 in
      emitAMQP E n ((amqpPayload info summary [] 0)\<lparr>pl_Raw := ae_raw E n\<rparr>)
        (zero_Payload\<lparr>pl_Summary := (if mi_replyText info \<noteq> [] then mi_replyText info else summary)\<rparr>) (amqpStatus info))"

definition emitAMQPContent :: "amqp_env \<Rightarrow> nat \<Rightarrow> amqpPending \<Rightarrow> Entry" where
  "emitAMQPContent E n pend =
     (let summary = amqpSummary (ap_info pend) (ap_bodySize pend) in
      emitAMQP E n
        ((amqpPayload (ap_info pend) summary (safeBody (ap_body pend)) (signed_of 64 (ap_bodySize pend)))
           \<lparr>pl_ContentType := bp_contentType (ap_props pend), pl_CorrelationID := bp_correlationID (ap_props pend),
             pl_ReplyTo := bp_replyTo (ap_props pend), pl_MessageID := bp_messageID (ap_props pend), pl_Raw := ae_raw E n\<rparr>)
        (zero_Payload\<lparr>pl_Summary := summary\<rparr>) (amqpStatus (ap_info pend)))"

subsection \<open>One direction\<close>

type_synonym amqp_channels = "nat \<rightharpoonup> amqpPending"

definition amqp_method :: "amqp_env \<Rightarrow> nat \<Rightarrow> nat \<Rightarrow> bytes \<Rightarrow> amqp_channels \<Rightarrow> Entry option \<times> amqp_channels" where
  "amqp_method E n ch payload C =
     (case parseAMQPMethod payload of None \<Rightarrow> (None, C)
      | Some (classID, methodID, args) \<Rightarrow>
          (case parseAMQPArgs classID methodID args of None \<Rightarrow> (None, C)
           | Some info \<Rightarrow>
               if mi_content info then (None, C(ch \<mapsto> \<lparr>ap_info = info, ap_bodySize = 0, ap_props = no_props, ap_total = 0, ap_body = []\<rparr>))
               else (Some (emitAMQPMethod E n info), C)))"

definition amqp_header :: "amqp_env \<Rightarrow> nat \<Rightarrow> nat \<Rightarrow> bytes \<Rightarrow> amqp_channels \<Rightarrow> Entry option \<times> amqp_channels" where
  "amqp_header E n ch payload C =
     (case C ch of None \<Rightarrow> (None, C)
      | Some pend \<Rightarrow>
          let pend1 = (if length payload \<ge> 12 then pend\<lparr>ap_bodySize := be64 (drop 4 payload), ap_props := parseAMQPBasicProps (drop 12 payload)\<rparr> else pend)
          in if ap_bodySize pend1 = 0 then (Some (emitAMQPContent E n pend1), C(ch := None)) else (None, C(ch \<mapsto> pend1)))"

definition append_body :: "int \<Rightarrow> bytes \<Rightarrow> nat \<Rightarrow> amqpPending \<Rightarrow> amqpPending" where
  "append_body bodyCap payload full pend =
     (let room = bodyCap - int (length (ap_body pend)); pend1 = pend\<lparr>ap_total := ap_total pend + full\<rparr> in
      if room > 0 then pend1\<lparr>ap_body := ap_body pend @ take (min (length payload) (nat room)) payload\<rparr> else pend1)"

definition amqp_body :: "amqp_env \<Rightarrow> nat \<Rightarrow> nat \<Rightarrow> bytes \<Rightarrow> nat \<Rightarrow> amqp_channels \<Rightarrow> Entry option \<times> amqp_channels" where
  "amqp_body E n ch payload full C =
     (case C ch of None \<Rightarrow> (None, C)
      | Some pend \<Rightarrow>
          let pend1 = append_body (ae_bodyCap E) payload full pend
          in if ap_total pend1 \<ge> ap_bodySize pend1 then (Some (emitAMQPContent E n pend1), C(ch := None)) else (None, C(ch \<mapsto> pend1)))"

definition amqp_step :: "amqp_env \<Rightarrow> nat \<Rightarrow> amqp_frame \<Rightarrow> amqp_channels \<Rightarrow> Entry option \<times> amqp_channels" where
  "amqp_step E n f C =
     (if af_type f = amqpFrameMethod then amqp_method E n (af_channel f) (af_payload f) C
      else if af_type f = amqpFrameHeader then amqp_header E n (af_channel f) (af_payload f) C
      else if af_type f = amqpFrameBody then amqp_body E n (af_channel f) (af_payload f) (af_full f) C
      else (None, C))"

text \<open>What each frame of the stream emits.\<close>

fun amqp_run :: "amqp_env \<Rightarrow> amqp_channels \<Rightarrow> (nat \<times> amqp_frame) list \<Rightarrow> Entry option list" where
  "amqp_run E C [] = []"
| "amqp_run E C ((n, f) # fs) = (case amqp_step E n f C of (e, C1) \<Rightarrow> e # amqp_run E C1 fs)"

definition amqp_frames :: "amqp_env \<Rightarrow> bytes \<Rightarrow> Entry list" where
  "amqp_frames E br = List.map_filter (\<lambda>e. e) (amqp_run E (\<lambda>_. None) (List.enumerate 0 (fst (read_all readAMQPFrame br))))"

definition consumeAMQPID :: "amqp_env \<Rightarrow> bytes \<Rightarrow> Entry list" where
  "consumeAMQPID E br =
     (if ae_isClient E \<and> length br \<ge> 8 \<and> take 4 br = ''AMQP'' then
        (if take 4 (drop 4 br) = [CHR 0x00, CHR 0x00, CHR 0x09, CHR 0x01] then amqp_frames E (drop 8 br) else [])
      else amqp_frames E br)"

subsection \<open>Frames read back\<close>

record amqp_wire =
  aw_type :: nat
  aw_channel :: nat
  aw_payload :: bytes

definition amqp_encode :: "amqp_wire \<Rightarrow> bytes" where
  "amqp_encode w = char_of (aw_type w) # be_bytes 2 (aw_channel w) @ be_bytes 4 (length (aw_payload w)) @ aw_payload w @ [char_of amqpFrameEnd]"

definition wire_ok :: "amqp_wire \<Rightarrow> bool" where
  "wire_ok w \<longleftrightarrow> aw_type w < 256 \<and> aw_channel w < 2 ^ 16 \<and> length (aw_payload w) \<le> amqpMaxFrame"

text \<open>What the dissector keeps of a frame.\<close>

definition kept_frame :: "amqp_wire \<Rightarrow> amqp_frame" where
  "kept_frame w = \<lparr>af_type = aw_type w, af_channel = aw_channel w, af_payload = take amqpMaxCapture (aw_payload w), af_full = length (aw_payload w)\<rparr>"

lemma readAMQPFrame_frames: "frames True readAMQPFrame br"
  by (rule frames_unfold [OF readAMQPFrame_def]) (intro frames_intros; simp)

interpretation amqp_frame: framed_reader readAMQPFrame
  by (rule framed_readerI) (rule readAMQPFrame_frames)

lemma frame_read:
  assumes "wire_ok w"
  shows "readAMQPFrame (amqp_encode w @ r) = Inr (kept_frame w, r)"
proof -
  let ?p = "aw_payload w" and ?h = "char_of (aw_type w) # be_bytes 2 (aw_channel w) @ be_bytes 4 (length (aw_payload w))"
  have hdr: "read_full 7 (amqp_encode w @ r) = Some (?h, ?p @ [char_of amqpFrameEnd] @ r)"
    by (simp add: read_full_Some amqp_encode_def)
  have "drop 3 ?h = be_bytes 4 (length ?p)" by (simp add: numeral_3_eq_3)
  then have size: "be32 (drop 3 ?h) = length ?p" using assms by (simp add: wire_ok_def amqpMaxFrame_def wire_decode')
  have ch: "be16 (drop 1 ?h) = aw_channel w" using assms by (simp add: wire_ok_def wire_decode)
  have rest: "read_full (min (length ?p) amqpMaxCapture) (?p @ s) = Some (take amqpMaxCapture ?p, drop amqpMaxCapture ?p @ s)"
    "discard_n (length ?p - min (length ?p) amqpMaxCapture) (drop amqpMaxCapture ?p @ s) = Some s" for s
    by (auto simp: read_full_def discard_n_def min_def)
  have fe: "byte (char_of amqpFrameEnd) = amqpFrameEnd" by (simp add: amqpFrameEnd_def)
  show ?thesis unfolding readAMQPFrame_def hdr option.case prod.case size ch rest
    using assms rest(2) [of "[char_of amqpFrameEnd] @ r"] fe by (simp add: kept_frame_def wire_ok_def read_byte_def)
qed

lemma frames_read: "list_all wire_ok ws \<Longrightarrow> read_all readAMQPFrame (concat (map amqp_encode ws)) = (map kept_frame ws, [])"
proof (induction ws)
  case Nil
  have "readAMQPFrame [] = Inl AEOF" by (simp add: readAMQPFrame_def read_full_def)
  then show ?case by (simp add: read_all_fail)
qed (simp add: amqp_frame.read_all_more [OF frame_read])

subsection \<open>Channels are independent\<close>

lemmas amqp_steps = amqp_step_def amqp_method_def amqp_header_def amqp_body_def

lemma step_other_channel: "af_channel f \<noteq> ch \<Longrightarrow> snd (amqp_step E n f C) ch = C ch"
  by (auto simp: amqp_steps Let_def split: option.splits)

lemma step_own_channel:
  assumes "C ch = D ch" "af_channel f = ch"
  shows "fst (amqp_step E n f C) = fst (amqp_step E n f D)" "snd (amqp_step E n f C) ch = snd (amqp_step E n f D) ch"
  using assms by (auto simp: amqp_steps Let_def split: option.splits)

definition on_channel :: "nat \<Rightarrow> nat \<times> amqp_frame \<Rightarrow> bool" where
  "on_channel ch x \<longleftrightarrow> af_channel (snd x) = ch"

lemma run_channel:
  "C ch = D ch \<Longrightarrow> map snd (filter (on_channel ch \<circ> fst) (zip fs (amqp_run E C fs))) = amqp_run E D (filter (on_channel ch) fs)"
proof (induction E C fs arbitrary: D rule: amqp_run.induct)
  case (2 E C n f fs)
  obtain e C1 where st: "amqp_step E n f C = (e, C1)" by (cases "amqp_step E n f C")
  obtain e' D1 where st': "amqp_step E n f D = (e', D1)" by (cases "amqp_step E n f D")
  show ?case
  proof (cases "af_channel f = ch")
    case True
    then have "e = e'" "C1 ch = D1 ch" using step_own_channel [of C ch D f E n] 2(2) st st' by simp_all
    then show ?thesis using True 2(1) [OF st [symmetric], of D1] by (simp add: st st' on_channel_def)
  next
    case False
    then have "C1 ch = D ch" using step_other_channel [of f ch E n C] 2(2) st by simp
    then show ?thesis using False 2(1) [OF st [symmetric], of D] by (simp add: st on_channel_def)
  qed
qed simp

subsection \<open>Messages\<close>

text \<open>A message of a channel: a method alone, or a method that carries a content with its property list and the parts its body is cut into, or a frame of another type, such as a heartbeat.\<close>

datatype amqp_msg = AMethod bytes | AContent bytes bytes "bytes list" | AOther nat bytes

definition aw :: "nat \<Rightarrow> nat \<Rightarrow> bytes \<Rightarrow> amqp_wire" where
  "aw ty ch p = \<lparr>aw_type = ty, aw_channel = ch, aw_payload = p\<rparr>"

fun msg_wires :: "nat \<Rightarrow> amqp_msg \<Rightarrow> amqp_wire list" where
  "msg_wires ch (AMethod p) = [aw amqpFrameMethod ch p]"
| "msg_wires ch (AContent p props parts) =
     aw amqpFrameMethod ch p # aw amqpFrameHeader ch (be_bytes 2 amqpClassBasic @ be_bytes 2 0 @ be_bytes 8 (length (concat parts)) @ props)
       # map (aw amqpFrameBody ch) parts"
| "msg_wires ch (AOther ty p) = [aw ty ch p]"

definition method_meaning :: "bytes \<Rightarrow> amqpMethodInfo option" where
  "method_meaning p = (case parseAMQPMethod p of None \<Rightarrow> None | Some (c, m, args) \<Rightarrow> parseAMQPArgs c m args)"

definition carries_content :: "bytes \<Rightarrow> bool" where
  "carries_content p \<longleftrightarrow> (case method_meaning p of None \<Rightarrow> False | Some info \<Rightarrow> mi_content info)"

fun msg_ok :: "amqp_msg \<Rightarrow> bool" where
  "msg_ok (AMethod p) \<longleftrightarrow> length p \<le> amqpMaxCapture \<and> \<not> carries_content p"
| "msg_ok (AContent p props parts) \<longleftrightarrow> length p \<le> amqpMaxCapture \<and> carries_content p \<and> length props + 12 \<le> amqpMaxCapture
     \<and> [] \<notin> set parts \<and> length (concat parts) < 2 ^ 64"
| "msg_ok (AOther ty p) \<longleftrightarrow> ty \<notin> {amqpFrameMethod, amqpFrameHeader, amqpFrameBody}"

text \<open>The entry of a message: that of its method, or the method with the properties and the first \<open>bodyCap\<close> bytes of the body.\<close>

fun msg_entry :: "amqp_env \<Rightarrow> nat \<Rightarrow> amqp_msg \<Rightarrow> Entry option" where
  "msg_entry E n (AMethod p) = map_option (emitAMQPMethod E n) (method_meaning p)"
| "msg_entry E n (AContent p props parts) =
     map_option (\<lambda>info. emitAMQPContent E n \<lparr>ap_info = info, ap_bodySize = length (concat parts), ap_props = parseAMQPBasicProps props,
       ap_total = length (concat parts), ap_body = take (nat (ae_bodyCap E)) (concat parts)\<rparr>) (method_meaning p)"
| "msg_entry E n (AOther ty p) = None"

fun msgs_entries :: "amqp_env \<Rightarrow> nat \<Rightarrow> nat list \<Rightarrow> amqp_msg list \<Rightarrow> Entry option list" where
  "msgs_entries E ch ns [] = []"
| "msgs_entries E ch ns (m # ms) = (let k = length (msg_wires ch m) in
     replicate (k - 1) None @ msg_entry E (ns ! (k - 1)) m # msgs_entries E ch (drop k ns) ms)"

lemma append_body_take:
  assumes "bodyCap \<le> int amqpMaxCapture" "ap_body pend = take (nat bodyCap) x"
  shows "append_body bodyCap (take amqpMaxCapture p) full pend
    = pend\<lparr>ap_total := ap_total pend + full, ap_body := take (nat bodyCap) (x @ p)\<rparr>"
proof (cases "int (length x) < bodyCap")
  case True
  then have x: "ap_body pend = x" using assms(2) by simp
  let ?r = "nat bodyCap - length x"
  have "?r \<le> amqpMaxCapture" "nat (bodyCap - int (length x)) = ?r" using assms(1) True by simp_all
  then have "take (min (length (take amqpMaxCapture p)) ?r) (take amqpMaxCapture p) = take ?r p" by (auto simp: min_def)
  moreover have "take (nat bodyCap) (x @ p) = x @ take ?r p" using True by simp
  ultimately show ?thesis using True x \<open>nat (bodyCap - int (length x)) = ?r\<close> by (simp add: append_body_def Let_def)
next
  case False
  then have "\<not> bodyCap - int (length (ap_body pend)) > 0" using assms(2) by auto
  moreover have "take (nat bodyCap) (x @ p) = ap_body pend" using False assms(2) by auto
  ultimately show ?thesis by (simp add: append_body_def Let_def)
qed

lemma body_run:
  assumes "ae_bodyCap E \<le> int amqpMaxCapture" "parts \<noteq> []" "[] \<notin> set parts" "length ns = length parts"
    and "ap_bodySize pend = ap_total pend + length (concat parts)" "ap_body pend = take (nat (ae_bodyCap E)) x" "C ch = Some pend"
  shows "amqp_run E C (zip ns (map (kept_frame \<circ> aw amqpFrameBody ch) parts) @ rest) = replicate (length parts - 1) None
    @ Some (emitAMQPContent E (ns ! (length parts - 1)) (pend\<lparr>ap_total := ap_bodySize pend, ap_body := take (nat (ae_bodyCap E)) (x @ concat parts)\<rparr>))
    # amqp_run E (C(ch := None)) rest"
  using assms
proof (induction parts arbitrary: ns pend x C)
  case (Cons p parts)
  obtain n ns' where ns: "ns = n # ns'" using Cons.prems(4) by (cases ns) auto
  let ?pend = "pend\<lparr>ap_total := ap_total pend + length p, ap_body := take (nat (ae_bodyCap E)) (x @ p)\<rparr>"
  have app: "append_body (ae_bodyCap E) (take amqpMaxCapture p) (length p) pend = ?pend"
    by (rule append_body_take) (use Cons.prems in simp_all)
  show ?case
  proof (cases parts)
    case Nil
    then have "amqp_step E n (kept_frame (aw amqpFrameBody ch p)) C = (Some (emitAMQPContent E n ?pend), C(ch := None))"
      using Cons.prems app by (simp add: amqp_step_def amqp_body_def kept_frame_def aw_def amqp_frame_types Let_def)
    then show ?thesis using Nil ns Cons.prems by (simp add: fun_upd_def)
  next
    case (Cons q qs)
    have "length (concat parts) > 0" using Cons.prems(3) Cons by (cases q) auto
    then have more: "\<not> ap_bodySize ?pend \<le> ap_total ?pend" using Cons.prems(5) by simp
    have st: "amqp_step E n (kept_frame (aw amqpFrameBody ch p)) C = (None, C(ch \<mapsto> ?pend))"
      using Cons.prems(7) more unfolding amqp_step_def amqp_body_def
      by (simp add: kept_frame_def aw_def amqp_frame_types app Let_def)
    have "amqp_run E (C(ch \<mapsto> ?pend)) (zip ns' (map (kept_frame \<circ> aw amqpFrameBody ch) parts) @ rest) = replicate (length parts - 1) None
      @ Some (emitAMQPContent E (ns' ! (length parts - 1)) (?pend\<lparr>ap_total := ap_bodySize ?pend, ap_body := take (nat (ae_bodyCap E)) ((x @ p) @ concat parts)\<rparr>))
      # amqp_run E ((C(ch \<mapsto> ?pend))(ch := None)) rest"
      by (rule Cons.IH) (use Cons.prems Cons ns in simp_all)
    moreover have "replicate (length (p # parts) - 1) None = None # replicate (length parts - 1) (None :: Entry option)"
      "ns ! (length (p # parts) - 1) = ns' ! (length parts - 1)" using Cons ns by simp_all
    ultimately show ?thesis using st ns by (simp only: fun_upd_upd) (simp add: fun_upd_def comp_def)
  qed
qed simp

lemma method_step:
  assumes "length p \<le> amqpMaxCapture"
  shows "amqp_step E n (kept_frame (aw amqpFrameMethod ch p)) C = (case method_meaning p of None \<Rightarrow> (None, C)
    | Some info \<Rightarrow> if mi_content info then (None, C(ch \<mapsto> \<lparr>ap_info = info, ap_bodySize = 0, ap_props = no_props, ap_total = 0, ap_body = []\<rparr>))
                   else (Some (emitAMQPMethod E n info), C))"
  using assms by (simp add: amqp_step_def amqp_method_def method_meaning_def kept_frame_def aw_def amqp_frame_types split: option.split)

lemma header_step:
  assumes "length props + 12 \<le> amqpMaxCapture" "s < 2 ^ 64" "C ch = Some pend"
  defines "pend1 \<equiv> pend\<lparr>ap_bodySize := s, ap_props := parseAMQPBasicProps props\<rparr>"
  shows "amqp_step E n (kept_frame (aw amqpFrameHeader ch (be_bytes 2 c @ be_bytes 2 0 @ be_bytes 8 s @ props))) C
    = (if s = 0 then (Some (emitAMQPContent E n pend1), C(ch := None)) else (None, C(ch \<mapsto> pend1)))"
  using assms by (simp add: amqp_step_def amqp_header_def kept_frame_def aw_def amqp_frame_types wire_decode)

lemma msg_run:
  assumes "ae_bodyCap E \<le> int amqpMaxCapture" "msg_ok m" "C ch = None" "length ns = length (msg_wires ch m)"
  shows "amqp_run E C (zip ns (map kept_frame (msg_wires ch m)) @ rest)
    = replicate (length ns - 1) None @ msg_entry E (ns ! (length ns - 1)) m # amqp_run E C rest"
proof (cases m)
  case (AOther ty p)
  then obtain n where "ns = [n]" using assms(4) by (cases ns) auto
  then show ?thesis using assms(2) AOther by (simp add: amqp_step_def kept_frame_def aw_def)
next
  case (AMethod p)
  then obtain n where "ns = [n]" using assms(4) by (cases ns) auto
  then show ?thesis using assms(2) AMethod by (auto simp: method_step carries_content_def split: option.splits)
next
  case (AContent p props parts)
  obtain n0 n1 ns' where ns: "ns = n0 # n1 # ns'" "length ns' = length parts"
    using assms(4) AContent by (auto simp: length_Suc_conv)
  obtain info where info: "method_meaning p = Some info" "mi_content info"
    using assms(2) AContent by (auto simp: carries_content_def split: option.splits)
  let ?p0 = "\<lparr>ap_info = info, ap_bodySize = 0, ap_props = no_props, ap_total = 0, ap_body = []\<rparr>"
  let ?p1 = "?p0\<lparr>ap_bodySize := length (concat parts), ap_props := parseAMQPBasicProps props\<rparr>"
  have m: "amqp_step E n0 (kept_frame (aw amqpFrameMethod ch p)) C = (None, C(ch \<mapsto> ?p0))"
    using assms(2) AContent info by (simp add: method_step)
  have clear: "C(ch := None) = C" using assms(3) by auto
  show ?thesis
  proof (cases "parts = []")
    case True
    then show ?thesis using m ns info header_step [of props 0 "C(ch \<mapsto> ?p0)" ch ?p0 E n1 amqpClassBasic] assms(2) AContent
      by (simp add: clear)
  next
    case False
    then have "length (concat parts) \<noteq> 0" using assms(2) AContent by (cases parts; cases "hd parts") auto
    then have h: "amqp_step E n1 (kept_frame (aw amqpFrameHeader ch (be_bytes 2 amqpClassBasic @ be_bytes 2 0 @ be_bytes 8 (length (concat parts)) @ props))) (C(ch \<mapsto> ?p0))
        = (None, C(ch \<mapsto> ?p1))"
      using header_step [of props "length (concat parts)" "C(ch \<mapsto> ?p0)" ch ?p0 E n1 amqpClassBasic] assms(2) AContent by simp
    have "replicate (length parts) (None :: Entry option) = None # replicate (length parts - 1) None" using False by (cases parts) simp_all
    then show ?thesis using m h ns info False AContent assms(2)
        body_run [OF assms(1), of parts ns' ?p1 "[]" "C(ch \<mapsto> ?p1)" ch rest] by (simp add: clear)
  qed
qed

lemma msgs_run:
  "ae_bodyCap E \<le> int amqpMaxCapture \<Longrightarrow> list_all msg_ok ms \<Longrightarrow> C ch = None \<Longrightarrow> length ns = length (concat (map (msg_wires ch) ms))
     \<Longrightarrow> amqp_run E C (zip ns (map kept_frame (concat (map (msg_wires ch) ms)))) = msgs_entries E ch ns ms"
proof (induction ms arbitrary: ns)
  case (Cons m ms)
  let ?k = "length (msg_wires ch m)" and ?rest = "concat (map (msg_wires ch) ms)"
  have k: "?k > 0" "length (take ?k ns) = ?k" "length (drop ?k ns) = length ?rest" using Cons.prems(4) by (cases m; simp)+
  have ok: "msg_ok m" using Cons.prems(2) by simp
  have "zip ns (map kept_frame (concat (map (msg_wires ch) (m # ms))))
      = zip (take ?k ns) (map kept_frame (msg_wires ch m)) @ zip (drop ?k ns) (map kept_frame ?rest)"
    using zip_append [of "take ?k ns" "map kept_frame (msg_wires ch m)" "drop ?k ns" "map kept_frame ?rest"] k by simp
  then have "amqp_run E C (zip ns (map kept_frame (concat (map (msg_wires ch) (m # ms)))))
      = replicate (?k - 1) None @ msg_entry E (take ?k ns ! (?k - 1)) m # amqp_run E C (zip (drop ?k ns) (map kept_frame ?rest))"
    using msg_run [of E m C ch "take ?k ns" "zip (drop ?k ns) (map kept_frame ?rest)"] Cons.prems(1,3) k ok by (simp only: )
  moreover have "amqp_run E C (zip (drop ?k ns) (map kept_frame ?rest)) = msgs_entries E ch (drop ?k ns) ms"
    using Cons.IH [of "drop ?k ns"] Cons.prems k by simp
  ultimately show ?case using k(1) by (simp only: msgs_entries.simps Let_def nth_take diff_less zero_less_one)
qed simp

text \<open>The positions of the frames of a channel, and what these frames emit.\<close>

definition positions :: "nat \<Rightarrow> nat \<Rightarrow> amqp_wire list \<Rightarrow> nat list" where
  "positions ch n ws = map fst (filter (\<lambda>x. aw_channel (snd x) = ch) (List.enumerate n ws))"

definition channel_outs :: "nat \<Rightarrow> amqp_wire list \<Rightarrow> Entry option list \<Rightarrow> Entry option list" where
  "channel_outs ch ws outs = map snd (filter (\<lambda>x. aw_channel (fst x) = ch) (zip ws outs))"

lemma positions_length: "length (positions ch n ws) = length (filter (\<lambda>w. aw_channel w = ch) ws)"
  by (induction ws arbitrary: n) (simp_all add: positions_def)

lemma filter_enumerate:
  "filter (on_channel ch) (List.enumerate n (map kept_frame ws)) = zip (positions ch n ws) (map kept_frame (filter (\<lambda>w. aw_channel w = ch) ws))"
  by (induction ws arbitrary: n) (simp_all add: positions_def on_channel_def kept_frame_def)

lemma channel_outs_enumerate:
  "channel_outs ch ws outs = map snd (filter (on_channel ch \<circ> fst) (zip (List.enumerate n (map kept_frame ws)) outs))"
proof (induction ws arbitrary: n outs)
  case (Cons w ws)
  then show ?case by (cases outs) (auto simp: channel_outs_def on_channel_def kept_frame_def)
qed (simp add: channel_outs_def)

lemma channel_run:
  assumes "ae_bodyCap E \<le> int amqpMaxCapture" "list_all msg_ok ms" "filter (\<lambda>w. aw_channel w = ch) ws = concat (map (msg_wires ch) ms)"
  shows "channel_outs ch ws (amqp_run E (\<lambda>_. None) (List.enumerate 0 (map kept_frame ws))) = msgs_entries E ch (positions ch 0 ws) ms"
proof -
  have "channel_outs ch ws (amqp_run E (\<lambda>_. None) (List.enumerate 0 (map kept_frame ws)))
      = amqp_run E (\<lambda>_. None) (zip (positions ch 0 ws) (map kept_frame (concat (map (msg_wires ch) ms))))"
    by (simp only: channel_outs_enumerate [of ch ws _ 0] run_channel [of _ _ "\<lambda>_. None", OF refl] filter_enumerate assms(3))
  then show ?thesis using msgs_run [OF assms(1,2), of "\<lambda>_. None" ch "positions ch 0 ws"] positions_length [of ch 0 ws] assms(3) by simp
qed

definition amqp_preface :: "amqp_env \<Rightarrow> bytes" where
  "amqp_preface E = (if ae_isClient E then ''AMQP'' @ [CHR 0x00, CHR 0x00, CHR 0x09, CHR 0x01] else [])"

lemma consume_preface: "consumeAMQPID E (amqp_preface E @ s) = amqp_frames E s"
  by (simp add: consumeAMQPID_def amqp_preface_def)

text \<open>C25: the contents of the channels of a connection are put together independently: however the frames of different channels
  interleave, and however each body is cut into frames, the frames of a channel emit exactly the entries of its messages, one per message and at
  its last frame, with the method, the properties, the length of the whole body and its first \<open>bodyCap\<close> bytes.\<close>

theorem amqp_contents_assembled:
  assumes "ae_bodyCap E \<le> int amqpMaxCapture" "list_all wire_ok ws"
    and "\<forall>ch. list_all msg_ok (msgs ch) \<and> filter (\<lambda>w. aw_channel w = ch) ws = concat (map (msg_wires ch) (msgs ch))"
  shows "\<exists>outs. length outs = length ws \<and> consumeAMQPID E (amqp_preface E @ concat (map amqp_encode ws)) = List.map_filter (\<lambda>e. e) outs
    \<and> (\<forall>ch. channel_outs ch ws outs = msgs_entries E ch (positions ch 0 ws) (msgs ch))"
proof (intro exI conjI allI)
  let ?outs = "amqp_run E (\<lambda>_. None) (List.enumerate 0 (map kept_frame ws))"
  have "length (amqp_run E C fs) = length fs" for C fs
    by (induction fs arbitrary: C) (simp, case_tac a, simp add: case_prod_unfold)
  then show "length ?outs = length ws" by simp
  show "consumeAMQPID E (amqp_preface E @ concat (map amqp_encode ws)) = List.map_filter (\<lambda>e. e) ?outs"
    by (simp only: consume_preface amqp_frames_def frames_read [OF assms(2)] fst_conv)
  show "channel_outs ch ws ?outs = msgs_entries E ch (positions ch 0 ws) (msgs ch)" for ch
    using assms by (intro channel_run) auto
qed

text \<open>Two publications whose frames alternate on two channels.\<close>

definition some_publish :: bytes where
  "some_publish = [CHR 0x00, CHR 0x3C, CHR 0x00, CHR 0x28, CHR 0x00, CHR 0x00, CHR 0x01, CHR ''e'', CHR 0x01, CHR ''k'']"

definition some_messages :: "nat \<Rightarrow> amqp_msg list" where
  "some_messages ch = (if ch = 1 then [AContent some_publish [CHR 0x00, CHR 0x00] [''ab'', ''c'']]
     else if ch = 2 then [AContent some_publish [CHR 0x00, CHR 0x00] [''xy'']] else [])"

definition some_wires :: "amqp_wire list" where
  "some_wires = (case (msg_wires 1 (some_messages 1 ! 0), msg_wires 2 (some_messages 2 ! 0)) of
     ([a, b, c, d], [x, y, z]) \<Rightarrow> [a, x, b, y, c, z, d] | _ \<Rightarrow> [])"

definition some_amqp :: amqp_env where
  "some_amqp = \<lparr>ae_cfg = some_cfg, ae_bodyCap = 2, ae_isClient = True, ae_conn = some_conn, ae_now = (\<lambda>_. 0), ae_seq = id, ae_raw = (\<lambda>_. None)\<rparr>"

lemma some_publish_carries: "carries_content some_publish"
  by code_simp

lemma some_wires_eq:
  "some_wires = [aw 1 1 some_publish, aw 1 2 some_publish,
     aw 2 1 (be_bytes 2 60 @ be_bytes 2 0 @ be_bytes 8 (Suc (Suc (Suc 0))) @ [CHR 0x00, CHR 0x00]), aw 2 2 (be_bytes 2 60 @ be_bytes 2 0 @ be_bytes 8 (Suc (Suc 0)) @ [CHR 0x00, CHR 0x00]),
     aw 3 1 ''ab'', aw 3 2 ''xy'', aw 3 1 ''c'']"
  by (simp add: some_wires_def some_messages_def amqp_frame_types amqpClassBasic_def)

theorem amqp_contents_assembled_witness:
  "\<exists>outs. length outs = length some_wires \<and> consumeAMQPID some_amqp (amqp_preface some_amqp @ concat (map amqp_encode some_wires)) = List.map_filter (\<lambda>e. e) outs
    \<and> (\<forall>ch. channel_outs ch some_wires outs = msgs_entries some_amqp ch (positions ch 0 some_wires) (some_messages ch))"
proof (rule amqp_contents_assembled)
  show "ae_bodyCap some_amqp \<le> int amqpMaxCapture" by (simp add: some_amqp_def amqpMaxCapture_def)
  show "list_all wire_ok some_wires" by (simp add: some_wires_eq wire_ok_def aw_def amqpMaxFrame_def some_publish_def)
  have "length some_publish = 10" by (simp add: some_publish_def)
  then show "\<forall>ch. list_all msg_ok (some_messages ch)
      \<and> filter (\<lambda>w. aw_channel w = ch) some_wires = concat (map (msg_wires ch) (some_messages ch))"
    by (auto simp: some_wires_eq some_messages_def some_publish_carries amqpMaxCapture_def aw_def amqp_frame_types amqpClassBasic_def)
qed

subsection \<open>Field tables\<close>

text \<open>A value of a field table, by the shape of its encoding: void, a fixed number of bytes, a length-prefixed string, a table, an array.\<close>

datatype fval = FVoid | FFixed char bytes | FLong char bytes | FTable "(string \<times> fval) list" | FArray "fval list"

definition sstr :: "string \<Rightarrow> bytes" where "sstr s = char_of (length s) # s"

definition lstr :: "bytes \<Rightarrow> bytes" where "lstr b = be_bytes 4 (length b) @ b"

fun fval_bytes :: "fval \<Rightarrow> bytes" where
  "fval_bytes FVoid = ''V''"
| "fval_bytes (FFixed tag b) = tag # b"
| "fval_bytes (FLong tag b) = tag # lstr b"
| "fval_bytes (FTable kvs) = CHR ''F'' # lstr (concat (map (\<lambda>(k, v). sstr k @ fval_bytes v) kvs))"
| "fval_bytes (FArray vs) = CHR ''A'' # lstr (concat (map fval_bytes vs))"

definition table_bytes :: "(string \<times> fval) list \<Rightarrow> bytes" where
  "table_bytes kvs = concat (map (\<lambda>(k, v). sstr k @ fval_bytes v) kvs)"

definition fixed_width :: "char \<Rightarrow> nat option" where
  "fixed_width tag = (if tag \<in> set ''tbB'' then Some 1 else if tag \<in> set ''suU'' then Some 2 else if tag \<in> set ''Iif'' then Some 4
     else if tag = CHR ''D'' then Some 5 else if tag \<in> set ''lLdT'' then Some 8 else None)"

fun fval_ok :: "nat \<Rightarrow> fval \<Rightarrow> bool" where
  "fval_ok d FVoid \<longleftrightarrow> True"
| "fval_ok d (FFixed tag b) \<longleftrightarrow> fixed_width tag = Some (length b)"
| "fval_ok d (FLong tag b) \<longleftrightarrow> tag \<in> {CHR ''S'', CHR ''x''} \<and> length b < 2 ^ 32"
| "fval_ok d (FTable kvs) \<longleftrightarrow> d < amqpMaxTableDepth \<and> length (table_bytes kvs) < 2 ^ 32 \<and> (\<forall>kv \<in> set kvs. length (fst kv) < 256 \<and> fval_ok (d + 1) (snd kv))"
| "fval_ok d (FArray vs) \<longleftrightarrow> length (concat (map fval_bytes vs)) < 2 ^ 32 \<and> (\<forall>v \<in> set vs. fval_ok (d + 1) v)"

lemma long_prefixed_read: "length b < 2 ^ 32 \<Longrightarrow> long_prefixed (lstr b @ r) = Some (b, r)"
  by (simp add: long_prefixed_def lstr_def wire_decode)

lemma fval_bytes_nonempty [simp]: "fval_bytes v \<noteq> []"
  by (cases v) simp_all

lemma pairs_walked:
  "(\<And>k v. (k, v) \<in> set kvs \<Longrightarrow> length k < 256 \<and> (\<forall>r. amqpWalkValue (fval_bytes v @ r) d = Some r)) \<Longrightarrow> walk_pairs (table_bytes kvs) d"
proof (induction kvs)
  case (Cons kv kvs)
  obtain k v where kv: "kv = (k, v)" by (cases kv)
  have "amqpWalkValue (fval_bytes v @ table_bytes kvs) d = Some (table_bytes kvs)" "length k < 256" using Cons.prems [of k v] kv by auto
  moreover have "walk_pairs (table_bytes kvs) d" by (rule Cons.IH) (use Cons.prems in auto)
  moreover have "table_bytes (kv # kvs) = char_of (length k) # k @ fval_bytes v @ table_bytes kvs" by (simp add: kv table_bytes_def sstr_def)
  ultimately show ?case by (simp add: walk_pairs.simps)
qed (simp add: table_bytes_def walk_pairs.simps)

lemma items_walked: "(\<And>v. v \<in> set vs \<Longrightarrow> \<forall>r. amqpWalkValue (fval_bytes v @ r) d = Some r) \<Longrightarrow> walk_items (concat (map fval_bytes vs)) d"
proof (induction vs)
  case (Cons v vs)
  let ?t = "fval_bytes v @ concat (map fval_bytes vs)"
  have w: "amqpWalkValue ?t d = Some (concat (map fval_bytes vs))" using Cons.prems [of v] by simp
  obtain c t where t: "?t = c # t" by (cases ?t) simp_all
  have "length (concat (map fval_bytes vs)) < length ?t" by (simp del: length_concat)
  then have "walk_items ?t d = walk_items (concat (map fval_bytes vs)) d" using w unfolding t by (simp add: walk_items.simps)
  moreover have "walk_items (concat (map fval_bytes vs)) d" by (rule Cons.IH) (use Cons.prems in auto)
  ultimately show ?case by simp
qed (simp add: walk_items.simps)

lemma fixed_walked:
  assumes "fixed_width tag = Some n"
  shows "amqpWalkValue (tag # t) d = fixed n t"
proof -
  have "(n = 1 \<and> tag \<in> set ''tbB'') \<or> (n = 2 \<and> tag \<in> set ''suU'') \<or> (n = 4 \<and> tag \<in> set ''Iif'') \<or> (n = 5 \<and> tag = CHR ''D'') \<or> (n = 8 \<and> tag \<in> set ''lLdT'')"
    using assms unfolding fixed_width_def by (simp only: option.inject split: if_splits) simp_all
  then show ?thesis by (elim disjE conjE) (auto simp: amqpWalkValue.simps)
qed

lemma value_walked: "fval_ok d v \<Longrightarrow> amqpWalkValue (fval_bytes v @ r) d = Some r"
proof (induction v arbitrary: d r)
  case (FFixed tag b)
  then show ?case by (simp add: fixed_walked fixed_def)
next
  case (FTable kvs)
  have "walk_pairs (table_bytes kvs) (d + 1)"
    by (rule pairs_walked) (use FTable in fastforce)
  then show ?case using FTable.prems by (simp add: amqpWalkValue.simps amqpWalkTable.simps table_bytes_def [symmetric] long_prefixed_read)
next
  case (FArray vs)
  have "walk_items (concat (map fval_bytes vs)) (d + 1)"
    by (rule items_walked) (use FArray in auto)
  then show ?case using FArray.prems by (simp add: amqpWalkValue.simps long_prefixed_read)
next
  case (FLong tag b)
  then have "tag = CHR ''S'' \<or> tag = CHR ''x''" "length b < 2 ^ 32" by simp_all
  then show ?case by (elim disjE) (simp_all only: fval_bytes.simps append_Cons amqpWalkValue.simps long_prefixed_read, simp_all)
next
  case FVoid
  then show ?case by (simp add: amqpWalkValue.simps)
qed

subsection \<open>Property lists\<close>

record amqp_props =
  pp_contentType :: "string option"
  pp_contentEncoding :: "string option"
  pp_headers :: "(string \<times> fval) list option"
  pp_deliveryMode :: "char option"
  pp_priority :: "char option"
  pp_correlationID :: "string option"
  pp_replyTo :: "string option"
  pp_expiration :: "string option"
  pp_messageID :: "string option"
  pp_later :: "bool list"
  pp_rest :: bytes

definition opt_bytes :: "('a \<Rightarrow> bytes) \<Rightarrow> 'a option \<Rightarrow> bytes" where
  "opt_bytes enc x = (case x of None \<Rightarrow> [] | Some v \<Rightarrow> enc v)"

definition prop_flags :: "amqp_props \<Rightarrow> nat" where
  "prop_flags p = horner_sum of_bool 2 (False # pp_later p @ [pp_messageID p \<noteq> None, pp_expiration p \<noteq> None, pp_replyTo p \<noteq> None,
     pp_correlationID p \<noteq> None, pp_priority p \<noteq> None, pp_deliveryMode p \<noteq> None, pp_headers p \<noteq> None, pp_contentEncoding p \<noteq> None, pp_contentType p \<noteq> None])"

definition props_bytes :: "amqp_props \<Rightarrow> bytes" where
  "props_bytes p = be_bytes 2 (prop_flags p) @ opt_bytes sstr (pp_contentType p) @ opt_bytes sstr (pp_contentEncoding p)
     @ opt_bytes (lstr \<circ> table_bytes) (pp_headers p) @ opt_bytes (\<lambda>c. [c]) (pp_deliveryMode p) @ opt_bytes (\<lambda>c. [c]) (pp_priority p)
     @ opt_bytes sstr (pp_correlationID p) @ opt_bytes sstr (pp_replyTo p) @ opt_bytes sstr (pp_expiration p) @ opt_bytes sstr (pp_messageID p) @ pp_rest p"

definition short_ok :: "string option \<Rightarrow> bool" where
  "short_ok x \<longleftrightarrow> (case x of None \<Rightarrow> True | Some s \<Rightarrow> length s < 256)"

definition headers_ok :: "(string \<times> fval) list option \<Rightarrow> bool" where
  "headers_ok x \<longleftrightarrow> (case x of None \<Rightarrow> True
     | Some kvs \<Rightarrow> length (table_bytes kvs) < 2 ^ 32 \<and> (\<forall>kv \<in> set kvs. length (fst kv) < 256 \<and> fval_ok 0 (snd kv)))"

definition props_ok :: "amqp_props \<Rightarrow> bool" where
  "props_ok p \<longleftrightarrow> list_all short_ok [pp_contentType p, pp_contentEncoding p, pp_correlationID p, pp_replyTo p, pp_expiration p, pp_messageID p]
     \<and> headers_ok (pp_headers p) \<and> length (pp_later p) = 6"

definition text_of_opt :: "string option \<Rightarrow> string" where
  "text_of_opt x = (case x of None \<Rightarrow> [] | Some s \<Rightarrow> s)"

lemma string_at:
  "drop pos b = opt_bytes sstr x @ suf \<Longrightarrow> pos \<le> length b \<Longrightarrow> short_ok x \<Longrightarrow> (flags AND m \<noteq> 0) = (x \<noteq> None)
     \<Longrightarrow> \<exists>q. flagged flags m (amqpShortStr b) pos = (text_of_opt x, q) \<and> drop q b = suf \<and> q \<le> length b"
proof (cases x)
  case (Some s)
  assume a: "drop pos b = opt_bytes sstr x @ suf" "pos \<le> length b" "short_ok x" "(flags AND m \<noteq> 0) = (x \<noteq> None)"
  then have d: "drop pos b = char_of (length s) # s @ suf" by (simp add: Some opt_bytes_def sstr_def)
  then have len: "length b = pos + 1 + length s + length suf" using a(2) by (metis add.assoc add.commute length_Cons length_append length_drop le_add_diff_inverse Suc_eq_plus1)
  have "b ! pos = char_of (length s)" using d len by (metis nth_via_drop)
  moreover have "drop (pos + 1) b = s @ suf" using d by (metis drop_drop add.commute drop_Suc_Cons drop0 One_nat_def)
  moreover from this have "drop (pos + 1 + length s) b = suf" by (metis drop_drop add.commute append_eq_conv_conj)
  ultimately show ?thesis using a(3,4) len Some
    by (intro exI [of _ "pos + 1 + length s"]) (simp add: flagged_def amqpShortStr_def text_of_opt_def short_ok_def)
qed (simp add: flagged_def opt_bytes_def text_of_opt_def)

lemma octet_at:
  "drop pos b = opt_bytes (\<lambda>c. [c]) x @ suf \<Longrightarrow> pos \<le> length b \<Longrightarrow> (flags AND m \<noteq> 0) = (x \<noteq> None)
     \<Longrightarrow> \<exists>q. flagged flags m (\<lambda>pos. ([], amqpSkipBits b pos)) pos = ([], q) \<and> drop q b = suf \<and> q \<le> length b"
proof (cases x)
  case (Some c)
  assume a: "drop pos b = opt_bytes (\<lambda>c. [c]) x @ suf" "pos \<le> length b" "(flags AND m \<noteq> 0) = (x \<noteq> None)"
  then have d: "drop pos b = c # suf" by (simp add: Some opt_bytes_def)
  then have "pos < length b" "drop (pos + 1) b = suf" by (metis drop_all list.discI not_less, metis drop_drop add.commute drop_Suc_Cons drop0 One_nat_def)
  then show ?thesis using a(3) Some by (intro exI [of _ "pos + 1"]) (simp add: flagged_def amqpSkipBits_def)
qed (simp add: flagged_def opt_bytes_def)

lemma table_at:
  "drop pos b = opt_bytes (lstr \<circ> table_bytes) x @ suf \<Longrightarrow> pos \<le> length b \<Longrightarrow> headers_ok x \<Longrightarrow> (flags AND m \<noteq> 0) = (x \<noteq> None)
     \<Longrightarrow> \<exists>q. flagged flags m (\<lambda>pos. ([], amqpSkipFieldTable b pos)) pos = ([], q) \<and> drop q b = suf \<and> q \<le> length b"
proof (cases x)
  case (Some kvs)
  let ?t = "table_bytes kvs"
  assume a: "drop pos b = opt_bytes (lstr \<circ> table_bytes) x @ suf" "pos \<le> length b" "headers_ok x" "(flags AND m \<noteq> 0) = (x \<noteq> None)"
  then have d: "drop pos b = be_bytes 4 (length ?t) @ ?t @ suf" by (simp add: Some opt_bytes_def lstr_def)
  then have len: "length b = pos + 4 + length ?t + length suf" using a(2) by (metis add.assoc length_append length_drop le_add_diff_inverse wire_lengths(1))
  have d4: "drop (pos + 4) b = ?t @ suf" using d by (metis drop_drop add.commute append_eq_conv_conj wire_lengths(1))
  then have dq: "drop (pos + 4 + length ?t) b = suf" by (metis drop_drop add.commute append_eq_conv_conj)
  have "amqpLong b pos = (length ?t, pos + 4)" using d len a(3) Some by (simp add: amqpLong_def headers_ok_def wire_decode)
  moreover have "amqpWalkTable ?t 0"
    unfolding amqpWalkTable.simps using a(3) Some by (auto simp: headers_ok_def intro!: pairs_walked value_walked)
  ultimately have "amqpSkipFieldTable b pos = pos + 4 + length ?t" using d4 len by (simp add: amqpSkipFieldTable_def)
  then show ?thesis using a(4) Some dq len by (intro exI [of _ "pos + 4 + length ?t"]) (simp add: flagged_def)
qed (simp add: flagged_def opt_bytes_def)

lemma prop_flag_bits:
  assumes "props_ok p"
  shows "prop_flags p < 2 ^ 16" "prop_flags p AND amqpFlagContinuation = 0"
    "(prop_flags p AND amqpFlagContentType \<noteq> 0) = (pp_contentType p \<noteq> None)" "(prop_flags p AND amqpFlagContentEncoding \<noteq> 0) = (pp_contentEncoding p \<noteq> None)"
    "(prop_flags p AND amqpFlagHeaders \<noteq> 0) = (pp_headers p \<noteq> None)" "(prop_flags p AND amqpFlagDeliveryMode \<noteq> 0) = (pp_deliveryMode p \<noteq> None)"
    "(prop_flags p AND amqpFlagPriority \<noteq> 0) = (pp_priority p \<noteq> None)" "(prop_flags p AND amqpFlagCorrelationID \<noteq> 0) = (pp_correlationID p \<noteq> None)"
    "(prop_flags p AND amqpFlagReplyTo \<noteq> 0) = (pp_replyTo p \<noteq> None)" "(prop_flags p AND amqpFlagExpiration \<noteq> 0) = (pp_expiration p \<noteq> None)"
    "(prop_flags p AND amqpFlagMessageID \<noteq> 0) = (pp_messageID p \<noteq> None)"
proof -
  obtain l0 l1 l2 l3 l4 l5 where l: "pp_later p = [l0, l1, l2, l3, l4, l5]"
    using assms by (auto simp: props_ok_def numeral_eq_Suc length_Suc_conv)
  define bs where "bs = False # pp_later p @ [pp_messageID p \<noteq> None, pp_expiration p \<noteq> None, pp_replyTo p \<noteq> None,
     pp_correlationID p \<noteq> None, pp_priority p \<noteq> None, pp_deliveryMode p \<noteq> None, pp_headers p \<noteq> None, pp_contentEncoding p \<noteq> None, pp_contentType p \<noteq> None]"
  have len: "length bs = 16" by (simp add: bs_def l)
  have f: "prop_flags p = horner_sum of_bool 2 bs" by (simp add: prop_flags_def bs_def)
  show "prop_flags p < 2 ^ 16" using horner_sum_of_bool_2_less [of bs, where 'a = nat] len by (simp only: f)
  have b: "(prop_flags p AND 2 ^ n \<noteq> 0) = (n < 16 \<and> bs ! n)" for n
    by (simp only: f and_exp_eq_0_iff_not_bit bit_horner_sum_bit_iff len) simp
  show "prop_flags p AND amqpFlagContinuation = 0" using b [of 0] by (simp add: amqpFlagContinuation_def bs_def)
  note nths = b [of 15] b [of 14] b [of 13] b [of 12] b [of 11] b [of 10] b [of 9] b [of 8] b [of 7]
  show "(prop_flags p AND amqpFlagContentType \<noteq> 0) = (pp_contentType p \<noteq> None)" "(prop_flags p AND amqpFlagContentEncoding \<noteq> 0) = (pp_contentEncoding p \<noteq> None)"
    "(prop_flags p AND amqpFlagHeaders \<noteq> 0) = (pp_headers p \<noteq> None)" "(prop_flags p AND amqpFlagDeliveryMode \<noteq> 0) = (pp_deliveryMode p \<noteq> None)"
    "(prop_flags p AND amqpFlagPriority \<noteq> 0) = (pp_priority p \<noteq> None)" "(prop_flags p AND amqpFlagCorrelationID \<noteq> 0) = (pp_correlationID p \<noteq> None)"
    "(prop_flags p AND amqpFlagReplyTo \<noteq> 0) = (pp_replyTo p \<noteq> None)" "(prop_flags p AND amqpFlagExpiration \<noteq> 0) = (pp_expiration p \<noteq> None)"
    "(prop_flags p AND amqpFlagMessageID \<noteq> 0) = (pp_messageID p \<noteq> None)"
    by (simp_all only: amqp_flags nths) (simp_all add: bs_def l)
qed

text \<open>The properties of a content header are read back whatever subset of them is present and whatever its header table holds, tables
  nested up to the depth bound and arrays included: each surfaced property is found behind exactly the encoding of those before it.\<close>

theorem amqp_props_round_trip:
  assumes "props_ok p"
  shows "parseAMQPBasicProps (props_bytes p) = \<lparr>bp_contentType = text_of_opt (pp_contentType p), bp_correlationID = text_of_opt (pp_correlationID p),
     bp_replyTo = text_of_opt (pp_replyTo p), bp_messageID = text_of_opt (pp_messageID p)\<rparr>"
proof -
  let ?b = "props_bytes p" and ?f = "prop_flags p"
  let ?r8 = "opt_bytes sstr (pp_messageID p) @ pp_rest p"
  let ?r7 = "opt_bytes sstr (pp_expiration p) @ ?r8"
  let ?r6 = "opt_bytes sstr (pp_replyTo p) @ ?r7"
  let ?r5 = "opt_bytes sstr (pp_correlationID p) @ ?r6"
  let ?r4 = "opt_bytes (\<lambda>c. [c]) (pp_priority p) @ ?r5"
  let ?r3 = "opt_bytes (\<lambda>c. [c]) (pp_deliveryMode p) @ ?r4"
  let ?r2 = "opt_bytes (lstr \<circ> table_bytes) (pp_headers p) @ ?r3"
  let ?r1 = "opt_bytes sstr (pp_contentEncoding p) @ ?r2"
  note bits = prop_flag_bits [OF assms]
  have ok: "short_ok (pp_contentType p)" "short_ok (pp_contentEncoding p)" "headers_ok (pp_headers p)" "short_ok (pp_correlationID p)"
    "short_ok (pp_replyTo p)" "short_ok (pp_expiration p)" "short_ok (pp_messageID p)" using assms by (simp_all add: props_ok_def)
  have "amqpShort ?b 0 = (?f, 2)" using bits(1) by (simp add: amqpShort_def props_bytes_def wire_decode)
  moreover have d0: "drop 2 ?b = opt_bytes sstr (pp_contentType p) @ ?r1" "2 \<le> length ?b" by (simp_all add: props_bytes_def)
  moreover obtain o2 where "flagged ?f amqpFlagContentType (amqpShortStr ?b) 2 = (text_of_opt (pp_contentType p), o2)"
    and d1: "drop o2 ?b = ?r1" "o2 \<le> length ?b" using string_at [OF d0 ok(1) bits(3)] by blast
  moreover obtain o3 where "flagged ?f amqpFlagContentEncoding (amqpShortStr ?b) o2 = (text_of_opt (pp_contentEncoding p), o3)"
    and d2: "drop o3 ?b = ?r2" "o3 \<le> length ?b" using string_at [OF d1 ok(2) bits(4)] by blast
  moreover obtain o4 where "flagged ?f amqpFlagHeaders (\<lambda>pos. ([], amqpSkipFieldTable ?b pos)) o3 = ([], o4)"
    and d3: "drop o4 ?b = ?r3" "o4 \<le> length ?b" using table_at [OF d2 ok(3) bits(5)] by blast
  moreover obtain o5 where "flagged ?f amqpFlagDeliveryMode (\<lambda>pos. ([], amqpSkipBits ?b pos)) o4 = ([], o5)"
    and d4: "drop o5 ?b = ?r4" "o5 \<le> length ?b" using octet_at [OF d3 bits(6)] by blast
  moreover obtain o6 where "flagged ?f amqpFlagPriority (\<lambda>pos. ([], amqpSkipBits ?b pos)) o5 = ([], o6)"
    and d5: "drop o6 ?b = ?r5" "o6 \<le> length ?b" using octet_at [OF d4 bits(7)] by blast
  moreover obtain o7 where "flagged ?f amqpFlagCorrelationID (amqpShortStr ?b) o6 = (text_of_opt (pp_correlationID p), o7)"
    and d6: "drop o7 ?b = ?r6" "o7 \<le> length ?b" using string_at [OF d5 ok(4) bits(8)] by blast
  moreover obtain o8 where "flagged ?f amqpFlagReplyTo (amqpShortStr ?b) o7 = (text_of_opt (pp_replyTo p), o8)"
    and d7: "drop o8 ?b = ?r7" "o8 \<le> length ?b" using string_at [OF d6 ok(5) bits(9)] by blast
  moreover obtain o9 where "flagged ?f amqpFlagExpiration (amqpShortStr ?b) o8 = (text_of_opt (pp_expiration p), o9)"
    and d8: "drop o9 ?b = ?r8" "o9 \<le> length ?b" using string_at [OF d7 ok(6) bits(10)] by blast
  moreover obtain o10 where "flagged ?f amqpFlagMessageID (amqpShortStr ?b) o9 = (text_of_opt (pp_messageID p), o10)" using string_at [OF d8 ok(7) bits(11)] by blast
  ultimately show ?thesis using bits(2) by (simp add: parseAMQPBasicProps_def numeral_eq_Suc)
qed

theorem amqp_props_round_trip_witness:
  "parseAMQPBasicProps (props_bytes \<lparr>pp_contentType = Some ''text/plain'', pp_contentEncoding = None,
      pp_headers = Some [(''x'', FTable [(''y'', FArray [FVoid, FFixed (CHR ''I'') ''abcd''])])], pp_deliveryMode = Some (CHR 0x02), pp_priority = None,
      pp_correlationID = Some ''c1'', pp_replyTo = None, pp_expiration = None, pp_messageID = Some ''m1'', pp_later = replicate 6 False, pp_rest = []\<rparr>)
    = \<lparr>bp_contentType = ''text/plain'', bp_correlationID = ''c1'', bp_replyTo = [], bp_messageID = ''m1''\<rparr>"
  by (subst amqp_props_round_trip)
    (simp_all add: props_ok_def short_ok_def headers_ok_def table_bytes_def sstr_def lstr_def amqpMaxTableDepth_def fixed_width_def text_of_opt_def)

text \<open>Values nested in arrays, and in tables.\<close>

fun array_nest :: "nat \<Rightarrow> fval" where
  "array_nest 0 = FVoid"
| "array_nest (Suc k) = FArray [array_nest k]"

fun table_nest :: "nat \<Rightarrow> fval" where
  "table_nest 0 = FVoid"
| "table_nest (Suc k) = FTable [([], table_nest k)]"

lemma nest_lengths: "length (fval_bytes (array_nest k)) = 5 * k + 1" "length (fval_bytes (table_nest k)) = 6 * k + 1"
  by (induction k) (simp_all add: lstr_def sstr_def)

lemma array_nest_ok: "5 * k + 1 < 2 ^ 32 \<Longrightarrow> fval_ok d (array_nest k)"
  by (induction k arbitrary: d) (simp_all add: nest_lengths)

lemma table_nest_refused: "6 * k + 1 < 2 ^ 32 \<Longrightarrow> d + k > amqpMaxTableDepth \<Longrightarrow> k > 0 \<Longrightarrow> amqpWalkValue (fval_bytes (table_nest k)) d = None"
proof (induction k arbitrary: d)
  case (Suc k)
  let ?b = "sstr [] @ fval_bytes (table_nest k)"
  have lp: "long_prefixed (lstr ?b @ []) = Some (?b, [])" by (rule long_prefixed_read) (use Suc.prems in \<open>simp add: nest_lengths sstr_def\<close>)
  have "\<not> amqpWalkTable ?b (d + 1)"
  proof (cases "d + 1 > amqpMaxTableDepth")
    case False
    then have "k > 0" using Suc.prems(2) by (cases k) auto
    then have "amqpWalkValue (fval_bytes (table_nest k)) (d + 1) = None" using Suc.IH [of "d + 1"] Suc.prems by simp
    then show ?thesis using False by (simp add: amqpWalkTable.simps walk_pairs.simps sstr_def)
  qed (simp add: amqpWalkTable.simps)
  then show ?case using lp by (simp add: amqpWalkValue.simps)
qed simp

text \<open>The bound on the nesting of field tables does not hold for arrays: tables nested deeper than the bound are refused, while a value of
  any number of nested arrays is followed to its end, one call of the walk inside the other.\<close>

theorem array_nesting_unbounded:
  assumes "6 * k + 1 < 2 ^ 32" "amqpMaxTableDepth < k"
  shows "amqpWalkValue (fval_bytes (array_nest k)) 0 = Some [] \<and> amqpWalkValue (fval_bytes (table_nest k)) 0 = None"
  using assms value_walked [of 0 "array_nest k" "[]"] array_nest_ok [of k 0] table_nest_refused [of k 0] by simp

theorem array_nesting_unbounded_witness:
  "amqpWalkValue (fval_bytes (array_nest 1000)) 0 = Some [] \<and> amqpWalkValue (fval_bytes (table_nest 1000)) 0 = None"
  by (rule array_nesting_unbounded) (simp_all add: amqpMaxTableDepth_def)

text \<open>With a body cap above the 64 KiB kept of a frame, the body of a message sent in larger frames is reported with a hole: the bytes of the
  first frame beyond 64 KiB are missing, those of the next frame follow directly, and nothing marks the gap.\<close>

theorem large_frames_lose_bytes:
  assumes "length pub \<le> amqpMaxCapture" "method_meaning pub = Some info" "mi_content info" "length props + 12 \<le> amqpMaxCapture"
    and "amqpMaxCapture \<le> length p" "length p \<le> amqpMaxFrame" "q \<noteq> []" "length q \<le> amqpMaxCapture" "int (length p + length q) \<le> ae_bodyCap E" "ch < 2 ^ 16"
  shows "consumeAMQPID E (amqp_preface E @ concat (map amqp_encode (msg_wires ch (AContent pub props [p, q]))))
    = [emitAMQPContent E 3 \<lparr>ap_info = info, ap_bodySize = length p + length q, ap_props = parseAMQPBasicProps props,
         ap_total = length p + length q, ap_body = take amqpMaxCapture p @ q\<rparr>]"
proof -
  let ?s = "length p + length q"
  let ?p0 = "\<lparr>ap_info = info, ap_bodySize = 0, ap_props = no_props, ap_total = 0, ap_body = []\<rparr>"
  let ?p1 = "?p0\<lparr>ap_bodySize := ?s, ap_props := parseAMQPBasicProps props\<rparr>"
  let ?p2 = "?p1\<lparr>ap_total := length p, ap_body := take amqpMaxCapture p\<rparr>"
  have s: "?s < 2 ^ 64" "?s \<noteq> 0" using assms(6,7,8) by (simp_all add: amqpMaxFrame_def amqpMaxCapture_def)
  have ok: "list_all wire_ok (msg_wires ch (AContent pub props [p, q]))"
    using assms by (simp add: wire_ok_def aw_def amqp_frame_types amqpMaxFrame_def amqpMaxCapture_def)
  have m: "amqp_step E 0 (kept_frame (aw amqpFrameMethod ch pub)) (\<lambda>_. None) = (None, [ch \<mapsto> ?p0])" using assms by (simp add: method_step)
  have h: "amqp_step E 1 (kept_frame (aw amqpFrameHeader ch (be_bytes 2 amqpClassBasic @ be_bytes 2 0 @ be_bytes 8 ?s @ props))) [ch \<mapsto> ?p0] = (None, [ch \<mapsto> ?p1])"
    using header_step [of props ?s "[ch \<mapsto> ?p0]" ch ?p0 E 1 amqpClassBasic] assms(4) s by simp
  have a1: "append_body (ae_bodyCap E) (take amqpMaxCapture p) (length p) ?p1 = ?p2"
  proof -
    have "amqpMaxCapture \<le> nat (ae_bodyCap E)" "0 < ae_bodyCap E" using assms(5,7,9) by (cases q; simp)+
    then show ?thesis using assms(5) by (simp add: append_body_def Let_def min_absorb1)
  qed
  have b1: "amqp_step E 2 (kept_frame (aw amqpFrameBody ch p)) [ch \<mapsto> ?p1] = (None, [ch \<mapsto> ?p2])"
    using assms(7) a1 by (simp add: amqp_step_def amqp_body_def kept_frame_def aw_def amqp_frame_types Let_def)
  have a2: "append_body (ae_bodyCap E) (take amqpMaxCapture q) (length q) ?p2 = ?p2\<lparr>ap_total := ?s, ap_body := take amqpMaxCapture p @ q\<rparr>"
  proof -
    have "length q \<le> nat (ae_bodyCap E - int amqpMaxCapture)" "int amqpMaxCapture < ae_bodyCap E" using assms(5,7,9) by (cases q; simp)+
    then show ?thesis using assms(5,8) by (simp add: append_body_def Let_def min_absorb1)
  qed
  have b2: "fst (amqp_step E 3 (kept_frame (aw amqpFrameBody ch q)) [ch \<mapsto> ?p2])
      = Some (emitAMQPContent E 3 (?p2\<lparr>ap_total := ?s, ap_body := take amqpMaxCapture p @ q\<rparr>))"
    using a2 by (simp add: amqp_step_def amqp_body_def kept_frame_def aw_def amqp_frame_types Let_def)
  have "consumeAMQPID E (amqp_preface E @ concat (map amqp_encode (msg_wires ch (AContent pub props [p, q]))))
      = List.map_filter (\<lambda>e. e) (amqp_run E (\<lambda>_. None) (List.enumerate 0 (map kept_frame (msg_wires ch (AContent pub props [p, q])))))"
    by (simp only: consume_preface amqp_frames_def frames_read [OF ok] fst_conv)
  then show ?thesis using m h b1 b2 by (simp add: case_prod_unfold map_filter_simps numeral_2_eq_2 numeral_3_eq_3)
qed

theorem large_frames_lose_bytes_witness:
  "consumeAMQPID (some_amqp\<lparr>ae_bodyCap := 200000\<rparr>) (amqp_preface some_amqp @ concat (map amqp_encode (msg_wires 1
      (AContent some_publish [CHR 0x00, CHR 0x00] [replicate 100000 (CHR ''a''), ''b'']))))
    = [emitAMQPContent (some_amqp\<lparr>ae_bodyCap := 200000\<rparr>) 3 \<lparr>ap_info = the (method_meaning some_publish), ap_bodySize = 100001,
         ap_props = parseAMQPBasicProps [CHR 0x00, CHR 0x00], ap_total = 100001, ap_body = replicate 65536 (CHR ''a'') @ ''b''\<rparr>]"
proof -
  have pub: "length some_publish = 10" by (simp add: some_publish_def)
  obtain info where info: "method_meaning some_publish = Some info" "mi_content info"
    using some_publish_carries by (auto simp: carries_content_def split: option.splits)
  have "amqp_preface (some_amqp\<lparr>ae_bodyCap := 200000\<rparr>) = amqp_preface some_amqp" by (simp add: amqp_preface_def)
  then show ?thesis
    using large_frames_lose_bytes [of some_publish info "[CHR 0x00, CHR 0x00]" "replicate 100000 (CHR ''a'')" "''b''" "some_amqp\<lparr>ae_bodyCap := 200000\<rparr>" 1]
      pub info by (simp add: amqpMaxCapture_def amqpMaxFrame_def)
qed

subsection \<open>Body capture switched off\<close>

lemma message_alone:
  assumes "ae_bodyCap E \<le> int amqpMaxCapture" "msg_ok m" "list_all wire_ok (msg_wires ch m)"
  shows "consumeAMQPID E (amqp_preface E @ concat (map amqp_encode (msg_wires ch m)))
    = List.map_filter (\<lambda>e. e) [msg_entry E (length (msg_wires ch m) - 1) m]"
proof -
  let ?ws = "msg_wires ch m" and ?k = "length (msg_wires ch m)"
  have k: "?k > 0" by (cases m) simp_all
  have "amqp_run E (\<lambda>_. None) (List.enumerate 0 (map kept_frame ?ws)) = replicate (?k - 1) None @ [msg_entry E (?k - 1) m]"
    using msg_run [OF assms(1,2), of "\<lambda>_. None" ch "[0..<?k]" "[]"] k by (simp add: enumerate_eq_zip)
  moreover have "List.map_filter (\<lambda>e. e) (replicate n None @ xs) = List.map_filter (\<lambda>e. e) xs" for n and xs :: "Entry option list"
    by (induction n) (simp_all add: map_filter_simps)
  ultimately show ?thesis by (simp only: consume_preface amqp_frames_def frames_read [OF assms(3)] fst_conv)
qed

text \<open>Switching body capture off leaves nothing of an HTTP body, but AMQP message bodies are still captured and reported, up to the default cap.\<close>

theorem bodies_off_still_reported:
  assumes "\<not> opt_CaptureBodies opts" "opt_BodyBytes opts = 0" "msg_ok (AContent pub props [body])" "length body \<le> 4096" "ch < 2 ^ 16"
  defines "p \<equiv> applyCaptureOpts opts default_capture"
  shows "fst (drainBody p (Some body)) = [] \<and>
    map (pl_Body \<circ> e_Request) (consumeAMQPID (E\<lparr>ae_bodyCap := cc_bodyCap p\<rparr>)
      (amqp_preface E @ concat (map amqp_encode (msg_wires ch (AContent pub props [body]))))) = [safeBody body]"
proof
  show "fst (drainBody p (Some body)) = []" using assms(1) by (simp add: p_def applyCaptureOpts_def drainBody_def)
  let ?E = "E\<lparr>ae_bodyCap := cc_bodyCap p\<rparr>" and ?m = "AContent pub props [body]"
  have cap: "cc_bodyCap p = 4096" using assms(2) by (simp add: p_def applyCaptureOpts_def default_capture_def DefaultBodyCaptureBytes_def)
  obtain info where "method_meaning pub = Some info" using assms(3) by (auto simp: carries_content_def split: option.splits)
  then have e: "msg_entry ?E (length (msg_wires ch ?m) - 1) ?m = Some (emitAMQPContent ?E 2 \<lparr>ap_info = info, ap_bodySize = length body,
      ap_props = parseAMQPBasicProps props, ap_total = length body, ap_body = body\<rparr>)" using assms(4) cap by (simp add: numeral_2_eq_2)
  have "list_all wire_ok (msg_wires ch ?m)"
    using assms(3,4,5) by (simp add: wire_ok_def aw_def amqp_frame_types amqpMaxFrame_def amqpMaxCapture_def)
  then have "consumeAMQPID ?E (amqp_preface ?E @ concat (map amqp_encode (msg_wires ch ?m))) = List.map_filter (\<lambda>e. e) [msg_entry ?E (length (msg_wires ch ?m) - 1) ?m]"
    using assms(3) cap by (intro message_alone) (simp_all only: amqp_env.select_convs amqp_env.simps amqpMaxCapture_def, simp)
  moreover have "amqp_preface ?E = amqp_preface E" by (simp add: amqp_preface_def)
  ultimately show "map (pl_Body \<circ> e_Request) (consumeAMQPID ?E (amqp_preface E @ concat (map amqp_encode (msg_wires ch ?m)))) = [safeBody body]"
    unfolding e by (simp add: map_filter_simps emitAMQPContent_def emitAMQP_def amqpPayload_def Let_def case_prod_unfold)
qed

theorem bodies_off_still_reported_witness:
  "map (pl_Body \<circ> e_Request) (consumeAMQPID (some_amqp\<lparr>ae_bodyCap := cc_bodyCap (applyCaptureOpts \<lparr>opt_CaptureBodies = False, opt_RedactHeaders = True,
      opt_RedactPGParams = False, opt_BodyBytes = 0, opt_RawBytes = 0\<rparr> default_capture)\<rparr>)
    (amqp_preface some_amqp @ concat (map amqp_encode (msg_wires 1 (AContent some_publish [CHR 0x00, CHR 0x00] [''secret'']))))) = [safeBody ''secret'']"
proof -
  have "length some_publish = 10" by (simp add: some_publish_def)
  then show ?thesis
    using bodies_off_still_reported [of "\<lparr>opt_CaptureBodies = False, opt_RedactHeaders = True, opt_RedactPGParams = False, opt_BodyBytes = 0, opt_RawBytes = 0\<rparr>"
        some_publish "[CHR 0x00, CHR 0x00]" "''secret''" 1 some_amqp] by (simp add: some_publish_carries amqpMaxCapture_def)
qed
end
