(* ===== verification/Worker_Ws.thy ===== *)
theory Worker_Ws
  imports Worker_Capture Worker_Wire Worker_Pairing
begin

text \<open>
  WebSocket frames on an upgraded connection, \<open>internal/worker/pipeline.go\<close>: the frame header with its three forms of length, the mask,
  the bounded preview and the entry of each frame.  What the clock and the shared entry counter give at the \<open>n\<close>-th frame are parameters.
\<close>

unbundle bit_operations_syntax

definition wsOpcodeContinuation :: nat where "wsOpcodeContinuation = 0"
definition wsOpcodeText :: nat where "wsOpcodeText = 1"
definition wsOpcodeBinary :: nat where "wsOpcodeBinary = 2"
definition wsOpcodeClose :: nat where "wsOpcodeClose = 8"
definition wsOpcodePing :: nat where "wsOpcodePing = 9"
definition wsOpcodePong :: nat where "wsOpcodePong = 10"

definition wsMaxPayload :: nat where "wsMaxPayload = 8 * 2 ^ 20"
definition wsPreviewBytes :: nat where "wsPreviewBytes = 256"
definition wsSummaryPreview :: nat where "wsSummaryPreview = 120"

record ws_frame =
  wf_opcode :: nat
  wf_preview :: bytes
  wf_fullLen :: nat

text \<open>\<open>WCut\<close> is the end of the stream inside the part of a frame that is only skipped: the frame is reported before the direction ends.\<close>

datatype ws_error = WEOF | WDesync | WCut ws_frame

definition ws_length :: "nat \<Rightarrow> bytes \<Rightarrow> ws_error + nat \<times> bytes" where
  "ws_length l r =
     (if l = 126 then (case read_full 2 r of None \<Rightarrow> Inl WEOF | Some (ext, r1) \<Rightarrow> Inr (be16 ext, r1))
      else if l = 127 then (case read_full 8 r of None \<Rightarrow> Inl WEOF | Some (ext, r1) \<Rightarrow> Inr (be64 ext, r1))
      else Inr (l, r))"

definition unmask :: "bytes \<Rightarrow> bytes \<Rightarrow> bytes" where
  "unmask key p = map (\<lambda>i. char_of (byte (p ! i) XOR byte (key ! (i mod 4)))) [0..<length p]"

definition ws_mask_key :: "bool \<Rightarrow> bytes \<Rightarrow> ws_error + bytes \<times> bytes" where
  "ws_mask_key masked r = (if masked then (case read_full 4 r of None \<Rightarrow> Inl WEOF | Some (k, r1) \<Rightarrow> Inr (k, r1)) else Inr ([], r))"

definition ws_payload :: "nat \<Rightarrow> bool \<Rightarrow> bytes \<Rightarrow> nat \<Rightarrow> bytes \<Rightarrow> ws_error + ws_frame \<times> bytes" where
  "ws_payload opcode masked key len r =
     (case read_full (min len wsPreviewBytes) r of None \<Rightarrow> Inl WEOF
      | Some (p, r1) \<Rightarrow>
          let f = \<lparr>wf_opcode = opcode, wf_preview = (if masked then unmask key p else p), wf_fullLen = len\<rparr> in
          if len > wsPreviewBytes then (case discard_n (len - wsPreviewBytes) r1 of None \<Rightarrow> Inl (WCut f) | Some r2 \<Rightarrow> Inr (f, r2))
          else Inr (f, r1))"

definition readWSFrame :: "bytes \<Rightarrow> ws_error + ws_frame \<times> bytes" where
  "readWSFrame br =
     (case read_full 2 br of None \<Rightarrow> Inl WEOF
      | Some (hdr, r) \<Rightarrow>
          (case ws_length (byte (hdr ! 1) mod 128) r of Inl e \<Rightarrow> Inl e
           | Inr (len, r1) \<Rightarrow>
               if len > wsMaxPayload then Inl WDesync
               else (case ws_mask_key (byte (hdr ! 1) \<ge> 128) r1 of Inl e \<Rightarrow> Inl e
                     | Inr (key, r2) \<Rightarrow> ws_payload (byte (hdr ! 0) mod 16) (byte (hdr ! 1) \<ge> 128) key len r2)))"

fun until_close :: "ws_frame list \<Rightarrow> ws_frame list" where
  "until_close [] = []"
| "until_close (f # fs) = (if wf_opcode f = wsOpcodeClose then [f] else f # until_close fs)"

definition has_close :: "ws_frame list \<Rightarrow> bool" where
  "has_close fs \<longleftrightarrow> list_ex (\<lambda>f. wf_opcode f = wsOpcodeClose) fs"

text \<open>The frames of a direction that are reported: those before the first error, none behind a close frame, and a last one that is cut short.\<close>

definition ws_frames :: "bytes \<Rightarrow> ws_frame list" where
  "ws_frames br =
     (case read_all readWSFrame br of (fs, rest) \<Rightarrow>
        if has_close fs then until_close fs else fs @ (case readWSFrame rest of Inl (WCut f) \<Rightarrow> [f] | _ \<Rightarrow> []))"

definition wsCloseInfo :: "bytes \<Rightarrow> int \<times> string" where
  "wsCloseInfo payload = (if length payload < 2 then (0, []) else (int (be16 payload), if length payload > 2 then safeBody (drop 2 payload) else []))"

definition wsOpcodeName :: "nat \<Rightarrow> string" where
  "wsOpcodeName op =
     (if op = wsOpcodeContinuation then ''continuation'' else if op = wsOpcodeText then ''text'' else if op = wsOpcodeBinary then ''binary''
      else if op = wsOpcodeClose then ''close'' else if op = wsOpcodePing then ''ping'' else if op = wsOpcodePong then ''pong''
      else ''opcode-'' @ itoa (int op))"

text \<open>The summary and the body of a frame's entry.\<close>

definition ws_texts :: "nat \<Rightarrow> bytes \<Rightarrow> string \<times> string" where
  "ws_texts opcode payload =
     (let name = wsOpcodeName opcode in
      if opcode = wsOpcodeClose then
        (case wsCloseInfo payload of (code, reason) \<Rightarrow>
           if code \<noteq> 0 then
             let s = ''close '' @ itoa code @ (if reason \<noteq> [] then '' '' @ reason else []) in (s, s)
           else (''close'', []))
      else if opcode = wsOpcodePing \<or> opcode = wsOpcodePong then (name, if payload \<noteq> [] then safeBody payload else [])
      else let body = safeBody payload in (if body \<noteq> [] then name @ '' '' @ truncate_str body wsSummaryPreview else name, body))"

definition emitWSFrame :: "flow_cfg \<Rightarrow> Endpoint \<Rightarrow> Endpoint \<Rightarrow> nat \<Rightarrow> time \<Rightarrow> ws_frame \<Rightarrow> Entry" where
  "emitWSFrame cfg src dst seq now f =
     (case ws_texts (wf_opcode f) (wf_preview f) of (summary, body) \<Rightarrow>
        zero_Entry\<lparr>e_ID := cfg_node cfg @ ''-ws-'' @ format_nat 36 seq, e_Protocol := ProtocolWS, e_Timestamp := now, e_Node := cfg_node cfg,
          e_NodeIP := cfg_nodeIP cfg, e_Source := src, e_Destination := dst,
          e_Request := zero_Payload\<lparr>pl_WSOpcode := wsOpcodeName (wf_opcode f), pl_Summary := summary, pl_Body := body,
            pl_Size := int (wf_fullLen f), pl_Truncated := (wf_fullLen f > length (wf_preview f))\<rparr>,
          e_Status := ''success''\<rparr>)"

definition consumeWSFrames :: "flow_cfg \<Rightarrow> (nat \<Rightarrow> nat) \<Rightarrow> (nat \<Rightarrow> time) \<Rightarrow> Endpoint \<Rightarrow> Endpoint \<Rightarrow> bytes \<Rightarrow> Entry list" where
  "consumeWSFrames cfg seqs nows src dst br =
     map (\<lambda>(n, f). emitWSFrame cfg src dst (seqs n) (nows n) f) (List.enumerate 0 (ws_frames br))"

subsection \<open>Masking\<close>

lemma xor_byte: "a < 256 \<Longrightarrow> b < 256 \<Longrightarrow> a XOR b < (256 :: nat)"
proof -
  assume "a < 256" "b < 256"
  then have "take_bit 8 (a XOR b) = a XOR b" by (simp add: take_bit_xor take_bit_nat_eq_self)
  then show ?thesis using take_bit_nat_less_exp [of 8 "a XOR b"] by simp
qed

lemma xor_cancel: "(a XOR b) XOR b = (a :: nat)"
  by (simp add: xor.assoc)

lemma unmask_length [simp]: "length (unmask key p) = length p"
  by (simp add: unmask_def)

lemma unmask_unmask: "unmask key (unmask key p) = p"
  by (rule nth_equalityI) (simp_all add: unmask_def xor_byte xor_cancel)

lemma unmask_take: "take n (unmask key p) = unmask key (take n p)"
  by (rule nth_equalityI) (simp_all add: unmask_def)

subsection \<open>Frames read back\<close>

text \<open>Masking as it is specified: byte by byte, with the four key bytes in turn.\<close>

fun mask_bytes :: "bytes \<Rightarrow> bytes \<Rightarrow> bytes" where
  "mask_bytes key [] = []"
| "mask_bytes key (b # bs) = char_of (byte b XOR byte (hd key)) # mask_bytes (tl key @ [hd key]) bs"

lemma mask_unmask:
  assumes "length key = 4"
  shows "mask_bytes key p = unmask key p"
  using assms
proof (induction p arbitrary: key)
  case (Cons b bs)
  have k: "key \<noteq> []" using Cons.prems by auto
  have rot: "tl key @ [hd key] = rotate1 key" using k by (cases key) simp_all
  have "(tl key @ [hd key]) ! (i mod 4) = key ! (Suc i mod 4)" for i
    unfolding rot using Cons.prems by (simp add: nth_rotate1 mod_Suc_eq)
  then have "unmask key (b # bs) = char_of (byte b XOR byte (hd key)) # unmask (tl key @ [hd key]) bs"
    using k by (auto simp: unmask_def hd_conv_nth upt_conv_Cons map_Suc_upt [symmetric] comp_def simp del: upt_Suc)
  then show ?case using Cons by simp
qed (simp add: unmask_def)

datatype len_form = Len7 | Len16 | Len64

text \<open>A frame as it is sent: the four high bits of its first byte, its opcode, its masking key if it has one, the form of its length, its payload.\<close>

record ws_wire =
  ww_flags :: nat
  ww_opcode :: nat
  ww_key :: "bytes option"
  ww_form :: len_form
  ww_payload :: bytes

fun form_code :: "len_form \<Rightarrow> nat \<Rightarrow> nat" where
  "form_code Len7 n = n" | "form_code Len16 n = 126" | "form_code Len64 n = 127"

fun form_bytes :: "len_form \<Rightarrow> nat \<Rightarrow> bytes" where
  "form_bytes Len7 n = []" | "form_bytes Len16 n = be_bytes 2 n" | "form_bytes Len64 n = be_bytes 8 n"

fun form_ok :: "len_form \<Rightarrow> nat \<Rightarrow> bool" where
  "form_ok Len7 n \<longleftrightarrow> n < 126" | "form_ok Len16 n \<longleftrightarrow> n < 2 ^ 16" | "form_ok Len64 n \<longleftrightarrow> True"

definition ws_encode :: "ws_wire \<Rightarrow> bytes" where
  "ws_encode w = char_of (16 * ww_flags w + ww_opcode w)
     # char_of ((if ww_key w \<noteq> None then 128 else 0) + form_code (ww_form w) (length (ww_payload w)))
     # form_bytes (ww_form w) (length (ww_payload w))
     @ (case ww_key w of None \<Rightarrow> ww_payload w | Some k \<Rightarrow> k @ mask_bytes k (ww_payload w))"

definition ws_ok :: "ws_wire \<Rightarrow> bool" where
  "ws_ok w \<longleftrightarrow> ww_flags w < 16 \<and> ww_opcode w < 16 \<and> form_ok (ww_form w) (length (ww_payload w)) \<and> length (ww_payload w) \<le> wsMaxPayload
     \<and> (case ww_key w of None \<Rightarrow> True | Some k \<Rightarrow> length k = 4)"

definition ws_kept :: "ws_wire \<Rightarrow> ws_frame" where
  "ws_kept w = \<lparr>wf_opcode = ww_opcode w, wf_preview = take wsPreviewBytes (ww_payload w), wf_fullLen = length (ww_payload w)\<rparr>"

lemma ws_length_frames: "frames False (ws_length l) r"
  by (rule frames_unfold [OF ws_length_def]) (intro frames_intros; simp)

lemma ws_mask_key_frames: "frames False (ws_mask_key m) r"
  by (rule frames_unfold [OF ws_mask_key_def]) (intro frames_intros; simp)

lemma ws_payload_frames: "frames False (ws_payload op m k len) r"
  by (rule frames_unfold [OF ws_payload_def], unfold Let_def) (intro frames_intros; simp)

lemma readWSFrame_frames: "frames True readWSFrame br"
  apply (rule frames_unfold [OF readWSFrame_def])
  apply (rule frames_primitives(3), simp)
  apply (rule frames_seq [OF ws_length_frames])
  apply (rule frames_if)
   apply (rule frames_fail)
  apply (rule frames_seq [OF ws_mask_key_frames])
  apply (rule ws_payload_frames)
  done

interpretation ws_frame: framed_reader readWSFrame
  by (rule framed_readerI) (rule readWSFrame_frames)


lemma ws_length_read:
  "form_ok fm n \<Longrightarrow> n < 2 ^ 64 \<Longrightarrow> ws_length (form_code fm n) (form_bytes fm n @ r) = Inr (n, r)"
  by (cases fm) (simp_all add: ws_length_def read_full_def wire_decode')

lemma ws_payload_read:
  "length p \<le> wsMaxPayload \<Longrightarrow> ws_payload op (k \<noteq> None) (case k of None \<Rightarrow> [] | Some m \<Rightarrow> m) (length p) ((case k of None \<Rightarrow> p | Some m \<Rightarrow> unmask m p) @ r)
     = Inr (\<lparr>wf_opcode = op, wf_preview = take wsPreviewBytes p, wf_fullLen = length p\<rparr>, r)"
proof (cases k)
  case (Some m)
  have "unmask m (take wsPreviewBytes (unmask m p)) = take wsPreviewBytes p" by (simp add: unmask_take unmask_unmask)
  moreover have "unmask m (unmask m p) = p" by (rule unmask_unmask)
  ultimately show ?thesis using Some by (auto simp: ws_payload_def read_full_def discard_n_def min_def Let_def)
qed (auto simp: ws_payload_def read_full_def discard_n_def min_def Let_def)

lemma form_code_less: "form_ok fm n \<Longrightarrow> form_code fm n < 128"
  by (cases fm) simp_all

lemma ws_frame_read:
  assumes "ws_ok w"
  shows "readWSFrame (ws_encode w @ r) = Inr (ws_kept w, r)"
proof -
  let ?n = "length (ww_payload w)" and ?c = "form_code (ww_form w) (length (ww_payload w))" and ?m = "ww_key w \<noteq> None"
  let ?h = "[char_of (16 * ww_flags w + ww_opcode w), char_of ((if ?m then 128 else 0) + ?c)]"
  let ?p = "(case ww_key w of None \<Rightarrow> ww_payload w | Some k \<Rightarrow> k @ unmask k (ww_payload w))"
  have c: "?c < 128" and n: "?n < 2 ^ 64" "\<not> ?n > wsMaxPayload" and fm: "form_ok (ww_form w) ?n"
    using assms form_code_less by (auto simp: ws_ok_def wsMaxPayload_def)
  have "ww_key w = Some k \<Longrightarrow> mask_bytes k (ww_payload w) = unmask k (ww_payload w)" for k
    using assms by (intro mask_unmask) (simp add: ws_ok_def)
  then have hdr: "read_full 2 (ws_encode w @ r) = Some (?h, form_bytes (ww_form w) ?n @ ?p @ r)"
    by (cases "ww_key w") (simp_all add: read_full_Some ws_encode_def)
  have b: "byte (?h ! 0) mod 16 = ww_opcode w" "byte (?h ! 1) mod 128 = ?c" "(byte (?h ! 1) \<ge> 128) = ?m" using assms c by (auto simp: ws_ok_def)
  have key: "ws_mask_key ?m (?p @ r) = Inr ((case ww_key w of None \<Rightarrow> [] | Some m \<Rightarrow> m), (case ww_key w of None \<Rightarrow> ww_payload w | Some m \<Rightarrow> unmask m (ww_payload w)) @ r)"
    using assms by (auto simp: ws_mask_key_def ws_ok_def read_full_def split: option.splits)
  show ?thesis unfolding readWSFrame_def hdr option.case prod.case b ws_length_read [OF fm n(1)] sum.case key
    using n ws_payload_read [of "ww_payload w" "ww_opcode w" "ww_key w" r] by (simp add: ws_kept_def)
qed

lemma ws_frames_read:
  "list_all ws_ok ws \<Longrightarrow> read_all readWSFrame (concat (map ws_encode ws) @ r) = (map ws_kept ws @ fst (read_all readWSFrame r), snd (read_all readWSFrame r))"
  by (induction ws) (simp_all add: ws_frame.read_all_more [OF ws_frame_read])

lemma until_close_append: "has_close fs \<Longrightarrow> until_close (fs @ gs) = until_close fs"
  by (induction fs) (auto simp: has_close_def)

lemma until_close_none: "\<not> has_close fs \<Longrightarrow> until_close fs = fs"
  by (induction fs) (auto simp: has_close_def)

text \<open>The frames up to and including the first close frame, and what the entry of a frame must say.\<close>

fun upto_close :: "ws_wire list \<Rightarrow> ws_wire list" where
  "upto_close [] = []"
| "upto_close (w # ws) = (if ww_opcode w = 8 then [w] else w # upto_close ws)"

definition opcode_text :: "nat \<Rightarrow> string" where
  "opcode_text op = (if op = 0 then ''continuation'' else if op = 1 then ''text'' else if op = 2 then ''binary'' else if op = 8 then ''close''
     else if op = 9 then ''ping'' else if op = 10 then ''pong'' else ''opcode-'' @ itoa (int op))"

definition frame_reported :: "Endpoint \<Rightarrow> Endpoint \<Rightarrow> ws_wire \<Rightarrow> Entry \<Rightarrow> bool" where
  "frame_reported src dst w e \<longleftrightarrow> (let p = ww_payload w; r = e_Request e in
     e_Protocol e = ProtocolWS \<and> e_Source e = src \<and> e_Destination e = dst
     \<and> pl_WSOpcode r = opcode_text (ww_opcode w) \<and> pl_Size r = int (length p) \<and> pl_Truncated r = (256 < length p)
     \<and> (ww_opcode w \<noteq> 8 \<longrightarrow> p \<noteq> [] \<longrightarrow> pl_Body r = safeBody (take 256 p))
     \<and> (ww_opcode w = 8 \<longrightarrow> (let code = be16 p; reason = take 254 (drop 2 p) in
          pl_Summary r = (if length p < 2 \<or> code = 0 then ''close''
            else ''close '' @ itoa (int code) @ (if reason = [] \<or> safeBody reason = [] then [] else '' '' @ safeBody reason)))))"

lemma upto_until: "until_close (map ws_kept ws) = map ws_kept (upto_close ws)"
  by (induction ws) (simp_all add: ws_kept_def wsOpcodeClose_def)

lemma be16_take: "2 \<le> n \<Longrightarrow> be16 (take n p) = be16 p"
  by (simp add: be16_def min_def)

lemma emit_reports_frame: "frame_reported src dst w (emitWSFrame cfg src dst n t (ws_kept w))"
proof -
  have "drop 2 (take 256 p) = take 254 (drop 2 p)" for p :: bytes by (simp add: drop_take)
  then show ?thesis
    by (auto simp: frame_reported_def emitWSFrame_def ws_kept_def ws_texts_def wsCloseInfo_def wsOpcodeName_def opcode_text_def Let_def
      wsPreviewBytes_def wsOpcodeClose_def wsOpcodePing_def wsOpcodePong_def wsOpcodeContinuation_def wsOpcodeText_def wsOpcodeBinary_def zero_Entry_def
      zero_Payload_def be16_take)
qed

lemma frames_all2: "list_all2 (frame_reported src dst) ws (map (\<lambda>(n, f). emitWSFrame cfg src dst (seqs n) (nows n) f) (List.enumerate k (map ws_kept ws)))"
  by (induction ws arbitrary: k) (simp_all add: emit_reports_frame)

text \<open>C31: every WebSocket frame of a direction, of at most 8 MiB, is reported once and in order, up to and including the first close frame, whatever its
  masking key and whichever of the three forms its length has: with its opcode, the first 256 bytes of its payload unmasked (of a close frame
  its code and reason), the payload's whole length and whether it is longer.  What follows a close frame is not looked at.\<close>

theorem ws_frames_reported:
  assumes "list_all ws_ok ws" "tail = [] \<or> (\<exists>w \<in> set ws. ww_opcode w = 8)"
  shows "list_all2 (frame_reported src dst) (upto_close ws) (consumeWSFrames cfg seqs nows src dst (concat (map ws_encode ws) @ tail))"
proof -
  let ?fs = "map ws_kept ws"
  have cl: "has_close ?fs \<longleftrightarrow> (\<exists>w \<in> set ws. ww_opcode w = 8)" by (simp add: has_close_def list_ex_iff ws_kept_def wsOpcodeClose_def)
  have "ws_frames (concat (map ws_encode ws) @ tail) = until_close ?fs"
  proof (cases "has_close ?fs")
    case True
    then have "has_close (?fs @ gs)" for gs by (simp add: has_close_def)
    then show ?thesis using True by (simp add: ws_frames_def ws_frames_read [OF assms(1)] until_close_append)
  next
    case False
    have "readWSFrame [] = Inl WEOF" by (simp add: readWSFrame_def read_full_def)
    then show ?thesis using False assms(2) cl ws_frames_read [OF assms(1), of "[]"] by (simp add: ws_frames_def read_all_fail until_close_none)
  qed
  then show ?thesis by (simp add: consumeWSFrames_def upto_until frames_all2)
qed

theorem ws_frames_reported_witness:
  "\<exists>e1 e2. consumeWSFrames some_cfg id (\<lambda>_. 0) zero_Endpoint zero_Endpoint (concat (map ws_encode
      [\<lparr>ww_flags = 8, ww_opcode = 9, ww_key = Some ''key!'', ww_form = Len7, ww_payload = ''p''\<rparr>,
       \<lparr>ww_flags = 8, ww_opcode = 8, ww_key = None, ww_form = Len16, ww_payload = []\<rparr>]) @ ''later'') = [e1, e2]
     \<and> pl_Body (e_Request e1) = safeBody ''p'' \<and> pl_Summary (e_Request e2) = ''close''"
proof -
  let ?ws = "[\<lparr>ww_flags = 8, ww_opcode = 9, ww_key = Some ''key!'', ww_form = Len7, ww_payload = ''p''\<rparr>,
       \<lparr>ww_flags = 8, ww_opcode = 8, ww_key = None, ww_form = Len16, ww_payload = []\<rparr>]"
  have "list_all ws_ok ?ws" by (simp add: ws_ok_def wsMaxPayload_def)
  from ws_frames_reported [OF this, of "''later''" zero_Endpoint zero_Endpoint some_cfg id "\<lambda>_. 0"] show ?thesis
    by (auto simp: list_all2_Cons1 frame_reported_def Let_def simp del: concat.simps list.map)
qed

text \<open>A frame whose skipped part the stream ends in is still reported.\<close>

lemma ws_cut_frame_reported:
  assumes "ws_ok w" "ww_key w = None" "ww_form w = Len64" "wsPreviewBytes + k < length (ww_payload w)"
  shows "ws_frames (take 10 (ws_encode w) @ take (wsPreviewBytes + k) (ww_payload w)) = [ws_kept w]"
proof -
  let ?n = "length (ww_payload w)"
  let ?h = "[char_of (16 * ww_flags w + ww_opcode w), char_of (127 :: nat)]"
  let ?s = "take 10 (ws_encode w) @ take (wsPreviewBytes + k) (ww_payload w)"
  have s: "?s = ?h @ be_bytes 8 ?n @ take (wsPreviewBytes + k) (ww_payload w)" using assms(2,3) by (simp add: ws_encode_def)
  have n: "\<not> ?n > wsMaxPayload" "?n < 2 ^ 64" using assms(1) by (simp_all add: ws_ok_def wsMaxPayload_def)
  have "read_full 2 ?s = Some (?h, be_bytes 8 ?n @ take (wsPreviewBytes + k) (ww_payload w))" by (simp add: s read_full_Some)
  moreover have "ws_length 127 (be_bytes 8 ?n @ take (wsPreviewBytes + k) (ww_payload w)) = Inr (?n, take (wsPreviewBytes + k) (ww_payload w))"
    using n by (simp add: ws_length_def read_full_def wire_decode')
  moreover have "ws_payload (ww_opcode w) False [] ?n (take (wsPreviewBytes + k) (ww_payload w)) = Inl (WCut (ws_kept w))"
    using assms(4) by (simp add: ws_payload_def read_full_def discard_n_def ws_kept_def Let_def min_def)
  ultimately have "readWSFrame ?s = Inl (WCut (ws_kept w))"
    using n assms(1) by (simp add: readWSFrame_def ws_mask_key_def ws_ok_def)
  then show ?thesis by (simp add: ws_frames_def read_all_fail has_close_def)
qed
end
