(* ===== verification/Worker_Http.thy ===== *)
theory Worker_Http
  imports Worker_Url Worker_Ws
begin

text \<open>
  HTTP over TCP and the choice of a dissector, \<open>internal/worker/pipeline.go\<close>.  The parser of HTTP messages is \<open>net/http\<close>, a parameter: it gives
  a message with its body and what follows it on the stream, or nothing.  A direction is a function from the bytes of the stream to the calls on the
  pipeline; the method of the oldest pending request, the clock and \<open>rawOf\<close> at the \<open>n\<close>-th message are parameters.
\<close>

record http_request =
  hq_Method :: string
  hq_URL :: url
  hq_Host :: string
  hq_Proto :: string
  hq_Header :: url_values
  hq_Body :: "bytes option"

record http_response =
  hs_StatusCode :: int
  hs_Proto :: string
  hs_Header :: url_values
  hs_Body :: "bytes option"

record nethttp =
  read_request :: "bytes \<Rightarrow> (http_request \<times> bytes) option"
  read_response :: "string \<Rightarrow> bytes \<Rightarrow> (http_response \<times> bytes) option"
  status_text :: "int \<Rightarrow> string"

record http_env =
  he_lib :: golib
  he_net :: nethttp
  he_inflate :: inflaters
  he_cfg :: capture_cfg
  he_conn :: connID
  he_method :: "nat \<Rightarrow> string"
  he_now :: "nat \<Rightarrow> time"
  he_raw :: "nat \<Rightarrow> RawView option"

text \<open>\<open>HFrames\<close> hands what is left of the stream to \<open>consumeWSFrames\<close>.\<close>

datatype http_call = HMark string
  | HReserve string string Payload Endpoint Endpoint
  | HFill string bool int "RawView option"
  | HComplete string Payload int string time
  | HFrames Endpoint Endpoint bytes

definition classifyHTTP :: "int \<Rightarrow> string" where
  "classifyHTTP code = (if code \<ge> 500 then ''error'' else if code \<ge> 400 then ''warning'' else ''success'')"

subsection \<open>Server to client\<close>

definition http_detail :: "string \<Rightarrow> string \<Rightarrow> strmap \<Rightarrow> HTTPDetail" where
  "http_detail version ct query = \<lparr>http_Version = version, http_Query = query, http_ContentType = ct, http_TTFBMs = 0\<rparr>"

definition http_body :: "http_env \<Rightarrow> bytes option \<Rightarrow> url_values \<Rightarrow> string \<times> bool \<times> int" where
  "http_body E b h =
     (case drainBody (he_cfg E) b of (body, truncated, full) \<Rightarrow>
        (case decompressBody (he_lib E) (he_inflate E) body truncated (header_get h ''Content-Encoding'') (cc_bodyCap (he_cfg E)) of (body2, truncated2) \<Rightarrow>
           (safeBody body2, truncated2, full)))"

definition switching_payload :: "http_env \<Rightarrow> nat \<Rightarrow> http_response \<Rightarrow> Payload" where
  "switching_payload E n resp = zero_Payload\<lparr>pl_StatusCode := hs_StatusCode resp,
     pl_Headers := flattenHeaders (he_lib E) (cc_redactHeaders (he_cfg E)) (hs_Header resp), pl_Raw := he_raw E n,
     pl_HTTP := Some (http_detail (hs_Proto resp) [] []), pl_Summary := ''101 Switching Protocols''\<rparr>"

definition response_payload :: "http_env \<Rightarrow> nat \<Rightarrow> http_response \<Rightarrow> Payload" where
  "response_payload E n resp =
     (case http_body E (hs_Body resp) (hs_Header resp) of (body, truncated, full) \<Rightarrow>
        let ct = header_get (hs_Header resp) ''Content-Type'' in
        zero_Payload\<lparr>pl_StatusCode := hs_StatusCode resp, pl_Headers := flattenHeaders (he_lib E) (cc_redactHeaders (he_cfg E)) (hs_Header resp),
          pl_Body := body, pl_Truncated := truncated, pl_Size := full, pl_ContentType := ct, pl_Raw := he_raw E n,
          pl_HTTP := Some (http_detail (hs_Proto resp) ct []),
          pl_Summary := itoa (hs_StatusCode resp) @ '' '' @ status_text (he_net E) (hs_StatusCode resp)\<rparr>)"

definition response_reader :: "http_env \<Rightarrow> nat \<Rightarrow> bytes \<Rightarrow> unit + http_response \<times> bytes" where
  "response_reader E n br = (case read_response (he_net E) (he_method E n) br of None \<Rightarrow> Inl () | Some x \<Rightarrow> Inr x)"

function http_responses :: "http_env \<Rightarrow> nat \<Rightarrow> bytes \<Rightarrow> http_call list" where
  "http_responses E n br =
     (case read_one (response_reader E n) br of None \<Rightarrow> []
      | Some (resp, r) \<Rightarrow>
          let code = hs_StatusCode resp; key = conn_key (he_conn E) in
          if isInterimStatus code then http_responses E (Suc n) r
          else if code = 101 \<and> isWebSocketUpgradeResponse (he_lib E) (hs_Header resp) then
            [HComplete key (switching_payload E n resp) code (classifyHTTP code) (he_now E n),
             HFrames (fst (conn_endpoints (he_conn E))) (snd (conn_endpoints (he_conn E))) r]
          else HComplete key (response_payload E n resp) code (classifyHTTP code) (he_now E n) # http_responses E (Suc n) r)"
  by pat_completeness auto
termination
  by (relation "measure (\<lambda>(E, n, br). length br)") (auto dest: read_one_less)

declare http_responses.simps [simp del]

subsection \<open>Client to server\<close>

definition request_payload :: "http_env \<Rightarrow> http_request \<Rightarrow> Payload" where
  "request_payload E req =
     (let ct = header_get (hq_Header req) ''Content-Type''; red = cc_redactHeaders (he_cfg E); uri = redactedRequestURI (he_lib E) (hq_URL req) red in
      zero_Payload\<lparr>pl_Method := hq_Method req, pl_Path := uri, pl_Host := hq_Host req, pl_Headers := flattenHeaders (he_lib E) red (hq_Header req),
        pl_ContentType := ct,
        pl_HTTP := Some (http_detail (hq_Proto req) ct (case parseQuery (he_lib E) (Some (hq_URL req)) red of None \<Rightarrow> [] | Some q \<Rightarrow> q)),
        pl_Summary := hq_Method req @ '' '' @ uri\<rparr>)"

definition http_request_calls :: "http_env \<Rightarrow> nat \<Rightarrow> http_request \<Rightarrow> http_call list" where
  "http_request_calls E n req =
     (let key = conn_key (he_conn E) in
      [HMark key,
       HReserve key ProtocolHTTP (request_payload E req) (fst (conn_endpoints (he_conn E))) (snd (conn_endpoints (he_conn E))),
       (case http_body E (hq_Body req) (hq_Header req) of (body, truncated, full) \<Rightarrow> HFill body truncated full (he_raw E n))])"

definition request_reader :: "http_env \<Rightarrow> bytes \<Rightarrow> unit + http_request \<times> bytes" where
  "request_reader E br = (case read_request (he_net E) br of None \<Rightarrow> Inl () | Some x \<Rightarrow> Inr x)"

function http_requests :: "http_env \<Rightarrow> nat \<Rightarrow> bytes \<Rightarrow> http_call list" where
  "http_requests E n br =
     (case read_one (request_reader E) br of None \<Rightarrow> []
      | Some (req, r) \<Rightarrow>
          http_request_calls E n req @
          (if isWebSocketUpgradeRequest (he_lib E) (hq_Header req)
           then [HFrames (fst (conn_endpoints (he_conn E))) (snd (conn_endpoints (he_conn E))) r]
           else http_requests E (Suc n) r))"
  by pat_completeness auto
termination
  by (relation "measure (\<lambda>(E, n, br). length br)") (auto dest: read_one_less)

declare http_requests.simps [simp del]

definition consumeHTTPID :: "http_env \<Rightarrow> bytes \<Rightarrow> http_call list" where
  "consumeHTTPID E br =
     (if length br < 5 then [] else if take 5 br = ''HTTP/'' then http_responses E 0 br else http_requests E 0 br)"

subsection \<open>The choice of a dissector\<close>

definition redisPort :: int where "redisPort = 6379"
definition pgPort :: int where "pgPort = 5432"
definition amqpPort :: int where "amqpPort = 5672"
definition dnsPort :: int where "dnsPort = 53"
definition mysqlPort :: int where "mysqlPort = 3306"
definition mongoPort :: int where "mongoPort = 27017"
definition kafkaPort :: int where "kafkaPort = 9092"

text \<open>The dissector of a direction with its role: \<open>True\<close> is client to server.\<close>

datatype dissector = DRedis string bool | DAMQP bool | DPostgres bool | DMySQL bool | DMongo bool | DKafka bool | DDNS bool | DSniff bool

definition consumeStreamID :: "(int \<Rightarrow> string option) \<Rightarrow> (int \<Rightarrow> bool) \<Rightarrow> connID \<Rightarrow> dissector" where
  "consumeStreamID respPorts amqpPorts c =
     (let src = srcPort c; dst = dstPort c in
      case respPorts dst of Some proto \<Rightarrow> DRedis proto True
      | None \<Rightarrow> (case respPorts src of Some proto \<Rightarrow> DRedis proto False
          | None \<Rightarrow>
              if amqpPorts dst then DAMQP True
              else if amqpPorts src then DAMQP False
              else if dst = pgPort \<or> src = pgPort then DPostgres (dst = pgPort)
              else if dst = mysqlPort \<or> src = mysqlPort then DMySQL (dst = mysqlPort)
              else if dst = mongoPort \<or> src = mongoPort then DMongo (dst = mongoPort)
              else if dst = kafkaPort \<or> src = kafkaPort then DKafka (dst = kafkaPort)
              else if dst = dnsPort \<or> src = dnsPort then DDNS (dst = dnsPort)
              else DSniff (src > dst)))"

fun other_role :: "dissector \<Rightarrow> dissector" where
  "other_role (DRedis p b) = DRedis p (\<not> b)" | "other_role (DAMQP b) = DAMQP (\<not> b)" | "other_role (DPostgres b) = DPostgres (\<not> b)"
| "other_role (DMySQL b) = DMySQL (\<not> b)" | "other_role (DMongo b) = DMongo (\<not> b)" | "other_role (DKafka b) = DKafka (\<not> b)"
| "other_role (DDNS b) = DDNS (\<not> b)" | "other_role (DSniff b) = DSniff (\<not> b)"

text \<open>Both directions of a connection go to the same dissector, one as the client's and one as the server's, for every configuration of the
  RESP and AMQP ports, unless the two ports are equal or both are listed for the same protocol family.\<close>

theorem directions_dispatched_opposite:
  assumes "srcPort c \<noteq> dstPort c" "respPorts (srcPort c) = None \<or> respPorts (dstPort c) = None" "\<not> (amqpPorts (srcPort c) \<and> amqpPorts (dstPort c))"
  shows "consumeStreamID respPorts amqpPorts (reverse_conn c) = other_role (consumeStreamID respPorts amqpPorts c)"
proof -
  let ?s = "srcPort c" and ?d = "dstPort c"
  have swap: "(?s = p) = (?d \<noteq> p)" if "?d = p \<or> ?s = p" for p using that assms(1) by auto
  consider "respPorts ?d \<noteq> None" | "respPorts ?d = None" "respPorts ?s \<noteq> None" | "respPorts ?d = None" "respPorts ?s = None" by auto
  then show ?thesis
  proof cases
    case 3
    let ?known = "\<lambda>p. ?d = p \<or> ?s = p"
    show ?thesis
    proof (cases "amqpPorts ?d \<or> amqpPorts ?s")
      case True
      then show ?thesis using 3 assms(3) by (auto simp: consumeStreamID_def reverse_conn_def)
    next
      case amqp: False
      show ?thesis
        using 3 amqp swap [of pgPort] swap [of mysqlPort] swap [of mongoPort] swap [of kafkaPort] swap [of dnsPort] assms(1)
        by (cases "?known pgPort"; cases "?known mysqlPort"; cases "?known mongoPort"; cases "?known kafkaPort"; cases "?known dnsPort")
          (simp_all add: consumeStreamID_def reverse_conn_def Let_def disj_commute not_less order.order_iff_strict)
    qed
  qed (use assms(2) in \<open>auto simp: consumeStreamID_def reverse_conn_def\<close>)
qed

theorem directions_dispatched_opposite_witness:
  "consumeStreamID [redisPort \<mapsto> ''redis''] (\<lambda>p. p = amqpPort) (reverse_conn \<lparr>srcIP = ''10.0.0.1'', dstIP = ''10.0.0.2'', srcPort = 40000, dstPort = 6379\<rparr>)
    = DRedis ''redis'' False"
  by (subst directions_dispatched_opposite) (simp_all add: consumeStreamID_def redisPort_def amqpPort_def)


subsection \<open>Credentials of a request\<close>

definition same_headers :: "golib \<Rightarrow> url_values \<Rightarrow> url_values \<Rightarrow> bool" where
  "same_headers L h h' \<longleftrightarrow> list_all2 (\<lambda>x y. fst x = fst y \<and> (to_lower L (fst x) \<in> set sensitiveHeaders \<or> snd x = snd y)) h h'"

lemma same_flatten: "same_headers L h h' \<Longrightarrow> flattenHeaders L True h = flattenHeaders L True h'"
proof -
  let ?f = "\<lambda>(k, v) out. AList.update (to_lower L k) (if to_lower L k \<in> set sensitiveHeaders then redactedValue else join '', '' v) out"
  have "list_all2 (\<lambda>x y. fst x = fst y \<and> (to_lower L (fst x) \<in> set sensitiveHeaders \<or> snd x = snd y)) h h' \<Longrightarrow> fold ?f h out = fold ?f h' out" for out
  proof (induction h h' arbitrary: out rule: list_all2_induct)
    case (Cons x h y h')
    then have "?f x = ?f y" by (cases x; cases y) auto
    then show ?case using Cons.IH by simp
  qed simp
  then show "same_headers L h h' \<Longrightarrow> flattenHeaders L True h = flattenHeaders L True h'" by (simp add: same_headers_def flattenHeaders_def)
qed

lemma same_get: "same_headers L h h' \<Longrightarrow> to_lower L k \<notin> set sensitiveHeaders \<Longrightarrow> header_get h k = header_get h' k"
proof -
  assume a: "same_headers L h h'" "to_lower L k \<notin> set sensitiveHeaders"
  have "map_of h k = map_of h' k" using a unfolding same_headers_def
    by (induction h h' rule: list_all2_induct) auto
  then show ?thesis by (simp add: header_get_def)
qed

lemma content_type_plain: "to_lower L ''Content-Type'' \<notin> set sensitiveHeaders"
proof -
  have "map lower_byte ''Content-Type'' = ''content-type''" by code_simp
  then show ?thesis by (simp add: to_lower_def is_ascii_def sensitiveHeaders_def)
qed


definition some_net :: nethttp where
  "some_net = \<lparr>read_request = (\<lambda>_. None), read_response = (\<lambda>_ _. None), status_text = (\<lambda>_. [])\<rparr>"

definition some_http :: http_env where
  "some_http = \<lparr>he_lib = ascii_lib, he_net = some_net, he_inflate = \<lparr>gunzip = (\<lambda>_. None), inflate = (\<lambda>b. (b, True))\<rparr>,
     he_cfg = default_capture\<lparr>cc_redactHeaders := True\<rparr>, he_conn = some_conn, he_method = (\<lambda>_. ''GET''), he_now = (\<lambda>_. 0), he_raw = (\<lambda>_. None)\<rparr>"

definition some_request :: http_request where
  "some_request = \<lparr>hq_Method = ''GET'', hq_URL = \<lparr>url_Scheme = [], url_Opaque = [], url_EscapedPath = ''/a'', url_ForceQuery = False, url_RawQuery = []\<rparr>,
     hq_Host = ''h'', hq_Proto = ''HTTP/1.1'', hq_Header = [], hq_Body = None\<rparr>"


subsection \<open>Streams of responses\<close>

text \<open>What the code relies on of \<open>net/http\<close> for a list of responses: each is read from its wire form whatever follows, and nothing from an empty stream.\<close>

definition responses_parsed :: "http_env \<Rightarrow> (http_response \<Rightarrow> bytes) \<Rightarrow> http_response list \<Rightarrow> bool" where
  "responses_parsed E enc xs \<longleftrightarrow> (\<forall>n. read_response (he_net E) (he_method E n) [] = None)
     \<and> (\<forall>x \<in> set xs. prefix ''HTTP/'' (enc x) \<and> (\<forall>n r. read_response (he_net E) (he_method E n) (enc x @ r) = Some (x, r)))"

fun response_calls :: "http_env \<Rightarrow> nat \<times> http_response \<Rightarrow> http_call list" where
  "response_calls E (n, resp) = (if isInterimStatus (hs_StatusCode resp) then []
     else [HComplete (conn_key (he_conn E)) (response_payload E n resp) (hs_StatusCode resp) (classifyHTTP (hs_StatusCode resp)) (he_now E n)])"

definition no_upgrade :: "http_env \<Rightarrow> http_response \<Rightarrow> bool" where
  "no_upgrade E x \<longleftrightarrow> \<not> (hs_StatusCode x = 101 \<and> isWebSocketUpgradeResponse (he_lib E) (hs_Header x))"

lemma responses_run:
  "responses_parsed E enc xs \<Longrightarrow> list_all (no_upgrade E) xs \<Longrightarrow> http_responses E n (concat (map enc xs)) = concat (map (response_calls E) (List.enumerate n xs))"
proof (induction xs arbitrary: n)
  case Nil
  then show ?case by (subst http_responses.simps) (simp add: read_one_def response_reader_def responses_parsed_def)
next
  case (Cons x xs)
  have p: "read_response (he_net E) (he_method E n) (enc x @ concat (map enc xs)) = Some (x, concat (map enc xs))" "enc x \<noteq> []"
    using Cons.prems(1) by (auto simp: responses_parsed_def prefix_def)
  have "read_one (response_reader E n) (enc x @ concat (map enc xs)) = Some (x, concat (map enc xs))"
    using p by (simp add: read_one_def response_reader_def del: length_concat)
  moreover have "responses_parsed E enc xs" using Cons.prems(1) by (simp add: responses_parsed_def)
  ultimately show ?case using Cons by (subst http_responses.simps) (auto simp: no_upgrade_def Let_def)
qed

lemma final_responses:
  assumes "responses_parsed E enc xs" "list_all (no_upgrade E) xs"
  shows "consumeHTTPID E (concat (map enc xs)) = concat (map (response_calls E) (List.enumerate 0 xs))"
proof (cases xs)
  case (Cons x ys)
  then obtain r where "enc x = ''HTTP/'' @ r" using assms(1) by (auto simp: responses_parsed_def prefix_def)
  then have "take 5 (concat (map enc xs)) = ''HTTP/''" "length (concat (map enc xs)) \<ge> 5" using Cons by simp_all
  then show ?thesis using responses_run [OF assms] by (simp add: consumeHTTPID_def)
qed (simp add: consumeHTTPID_def)


text \<open>A parser that knows one response, for the instance below.\<close>

definition some_response :: "int \<Rightarrow> http_response" where
  "some_response code = \<lparr>hs_StatusCode = code, hs_Proto = ''HTTP/1.1'', hs_Header = [], hs_Body = None\<rparr>"

definition one_parser :: nethttp where
  "one_parser = some_net\<lparr>read_response := (\<lambda>_ s. if take 6 s = ''HTTP/a'' then Some (some_response 100, drop 6 s)
     else if take 6 s = ''HTTP/b'' then Some (some_response 200, drop 6 s) else None)\<rparr>"


subsection \<open>Refused upgrades\<close>

fun is_reserve :: "http_call \<Rightarrow> bool" where
  "is_reserve (HReserve k p pl s d) = True" | "is_reserve _ = False"

fun is_complete :: "http_call \<Rightarrow> bool" where
  "is_complete (HComplete k pl code st t) = True" | "is_complete _ = False"

text \<open>The client direction turns to WebSocket frames as soon as an upgrade is asked for, without waiting for the answer: when the server refuses
  and the connection goes on with HTTP, none of the client's later requests is reported, while each of their responses is still taken to answer one.\<close>

theorem refused_upgrade_hides_requests:
  assumes "read_request (he_net E) br = Some (req, r)" "length r < length br" "isWebSocketUpgradeRequest (he_lib E) (hq_Header req)"
    and "5 \<le> length br" "take 5 br \<noteq> ''HTTP/''"
    and "responses_parsed E enc xs" "list_all (\<lambda>x. hs_StatusCode x \<ge> 200) xs"
  shows "length (filter is_reserve (consumeHTTPID E br)) = 1 \<and> length (filter is_complete (consumeHTTPID E (concat (map enc xs)))) = length xs"
proof
  have "read_one (request_reader E) br = Some (req, r)" using assms(1,2) by (simp add: read_one_def request_reader_def)
  then have "http_requests E 0 br = http_request_calls E 0 req @ [HFrames (fst (conn_endpoints (he_conn E))) (snd (conn_endpoints (he_conn E))) r]"
    using assms(3) by (subst http_requests.simps) simp
  then show "length (filter is_reserve (consumeHTTPID E br)) = 1"
    using assms(4,5) by (simp add: consumeHTTPID_def http_request_calls_def Let_def case_prod_unfold)
  have "list_all (no_upgrade E) xs" using assms(7) by (auto simp: no_upgrade_def list_all_iff)
  then have "consumeHTTPID E (concat (map enc xs)) = concat (map (response_calls E) (List.enumerate 0 xs))" using assms(6) final_responses by blast
  moreover have "length (filter is_complete (concat (map (response_calls E) (List.enumerate n xs)))) = length xs" for n
    using assms(7) by (induction xs arbitrary: n) (auto simp: isInterimStatus_def)
  ultimately show "length (filter is_complete (consumeHTTPID E (concat (map enc xs)))) = length xs" by simp
qed

definition upgrade_headers :: url_values where
  "upgrade_headers = [(''Upgrade'', [''websocket'']), (''Connection'', [''keep-alive, Upgrade''])]"

lemma upgrade_asked: "isWebSocketUpgradeRequest ascii_lib upgrade_headers"
proof -
  have "header_get upgrade_headers ''Upgrade'' = ''websocket''" "split_on (CHR '','') (header_get upgrade_headers ''Connection'') = [''keep-alive'', '' Upgrade'']"
    by (simp_all add: upgrade_headers_def header_get_def)
  moreover have "trim_space ''websocket'' = ''websocket''" "trim_space '' Upgrade'' = ''Upgrade''"
    by (simp_all add: trim_space_def rune_chunks_ascii is_space_rune_def)
  moreover have "equal_fold ascii_lib s s" for s by (simp add: equal_fold_def fold_rune_eq_def list_all2_refl)
  moreover have "equal_fold ascii_lib ''Upgrade'' ''upgrade''" by (simp add: equal_fold_def runes_def rune_chunks_ascii fold_rune_eq_def lower_byte_def)
  ultimately show ?thesis by (simp add: isWebSocketUpgradeRequest_def headerHasToken_def)
qed

theorem refused_upgrade_hides_requests_witness:
  "let E = some_http\<lparr>he_net := one_parser\<lparr>read_request := (\<lambda>s. if s = [] then None else Some (some_request\<lparr>hq_Header := upgrade_headers\<rparr>, tl s))\<rparr>\<rparr>
   in length (filter is_reserve (consumeHTTPID E ''GET GET GET '')) = 1 \<and> length (filter is_complete (consumeHTTPID E ''HTTP/bHTTP/bHTTP/b'')) = 3"
proof -
  let ?E = "some_http\<lparr>he_net := one_parser\<lparr>read_request := (\<lambda>s. if s = [] then None else Some (some_request\<lparr>hq_Header := upgrade_headers\<rparr>, tl s))\<rparr>\<rparr>"
  have "responses_parsed ?E (\<lambda>_. ''HTTP/b'') (replicate 3 (some_response 200))" by (simp add: responses_parsed_def one_parser_def)
  moreover have "isWebSocketUpgradeRequest (he_lib ?E) (hq_Header (some_request\<lparr>hq_Header := upgrade_headers\<rparr>))" using upgrade_asked by (simp add: some_http_def)
  ultimately show ?thesis
    using refused_upgrade_hides_requests [of ?E "''GET GET GET ''" "some_request\<lparr>hq_Header := upgrade_headers\<rparr>" "''ET GET GET ''"
        "\<lambda>_. ''HTTP/b''" "replicate 3 (some_response 200)"]
    by (simp add: some_response_def numeral_3_eq_3 Let_def)
qed

subsection \<open>What a direction can call\<close>

text \<open>A call of one direction of a connection in its proper form: under the key of the connection, a request for HTTP between its ends, a response that is
  not interim with the status class of its code.\<close>

fun http_call_ok :: "http_env \<Rightarrow> http_call \<Rightarrow> bool" where
  "http_call_ok E (HMark k) \<longleftrightarrow> k = conn_key (he_conn E)"
| "http_call_ok E (HReserve k p pl s d) \<longleftrightarrow> k = conn_key (he_conn E) \<and> p = ProtocolHTTP \<and> (s, d) = conn_endpoints (he_conn E) \<and> pl_StatusCode pl = 0"
| "http_call_ok E (HFill b t n raw) \<longleftrightarrow> True"
| "http_call_ok E (HComplete k pl code st t) \<longleftrightarrow> k = conn_key (he_conn E) \<and> pl_StatusCode pl = code \<and> \<not> isInterimStatus code
     \<and> st = (if code \<ge> 500 then ''error'' else if code \<ge> 400 then ''warning'' else ''success'')"
| "http_call_ok E (HFrames s d r) \<longleftrightarrow> (s, d) = conn_endpoints (he_conn E)"

lemma response_code: "pl_StatusCode (response_payload E n resp) = hs_StatusCode resp" "pl_StatusCode (switching_payload E n resp) = hs_StatusCode resp"
  by (simp_all add: response_payload_def switching_payload_def Let_def case_prod_unfold)

lemma responses_ok: "list_all (http_call_ok E) (http_responses E n br)"
proof (induction E n br rule: http_responses.induct)
  case (1 E n br)
  have i: "\<not> isInterimStatus 101" by (simp add: isInterimStatus_def)
  show ?case
  proof (cases "read_one (response_reader E n) br")
    case None
    then show ?thesis by (subst http_responses.simps) simp
  next
    case (Some x)
    obtain resp r where x: "x = (resp, r)" by (cases x)
    show ?thesis using 1(1) [OF Some x [symmetric] refl refl] 1(2) [OF Some x [symmetric] refl refl] i unfolding x
      by (subst http_responses.simps) (auto simp: Some x Let_def response_code classifyHTTP_def)
  qed
qed

lemma requests_ok: "list_all (http_call_ok E) (http_requests E n br)"
proof (induction E n br rule: http_requests.induct)
  case (1 E n br)
  show ?case
  proof (cases "read_one (request_reader E) br")
    case None
    then show ?thesis by (subst http_requests.simps) simp
  next
    case (Some x)
    obtain req r where x: "x = (req, r)" by (cases x)
    have "list_all (http_call_ok E) (http_request_calls E n req)"
      by (simp add: http_request_calls_def Let_def request_payload_def zero_Payload_def case_prod_unfold)
    then show ?thesis using 1 [OF Some x [symmetric]] unfolding x
      by (subst http_requests.simps) (simp add: Some x)
  qed
qed


end
