(* ===== verification/Worker_Tls.thy ===== *)
theory Worker_Tls
  imports Worker_Http
begin

text \<open>
  Decrypted TLS streams, \<open>internal/worker/tls_pipeline.go\<close>: the byte budget, the bounded pipes between the capture and the dissectors, the
  table of streams that \<open>consumeTLSBounded\<close> owns, and the choice of a dissector by the opening bytes.

  The one writer and the many readers run concurrently.  What the writer does for one event is one step, since it holds the lock of a pipe while it
  pushes or closes; \<open>Read\<close> looks at the channel without the lock, so it is cut into steps at each of its looks, with the place it has reached
  in \<open>reader_pc\<close>.  A channel \<open>closed\<close> is closed exactly when \<open>done\<close> is set, and one field stands for both.
  \<open>reportedDrops\<close> is the counter \<open>tlsBudgetDrops\<close> of the sink, as \<open>consumeTLS\<close> sets it.
\<close>

subsection \<open>The byte budget\<close>

definition maxTLSStreams :: nat where "maxTLSStreams = 4096"
definition maxTLSQueuedBytes :: int where "maxTLSQueuedBytes = 67108864"

record tlsByteBudget =
  bg_used :: int
  bg_limit :: int
  bg_drops :: nat
  bg_reported :: nat

definition newTLSByteBudget :: "int \<Rightarrow> tlsByteBudget" where
  "newTLSByteBudget limit =
     \<lparr>bg_used = 0, bg_limit = (if limit \<le> 0 then maxTLSQueuedBytes else limit), bg_drops = 0, bg_reported = 0\<rparr>"

definition reserve :: "nat \<Rightarrow> tlsByteBudget \<Rightarrow> bool \<times> tlsByteBudget" where
  "reserve n b =
     (if bg_used b + int n > bg_limit b then (False, b\<lparr>bg_drops := bg_drops b + 1, bg_reported := bg_reported b + 1\<rparr>)
      else (True, b\<lparr>bg_used := bg_used b + int n\<rparr>))"

definition release :: "nat \<Rightarrow> tlsByteBudget \<Rightarrow> tlsByteBudget" where
  "release n b = b\<lparr>bg_used := bg_used b - int n\<rparr>"

subsection \<open>Pipes\<close>

record chanPipe =
  cp_size :: nat
  cp_ch :: "bytes list"
  cp_done :: bool
  cp_lagged :: bool
  cp_buf :: bytes
  cp_bufCharge :: nat

definition newChanPipe :: "nat \<Rightarrow> chanPipe" where
  "newChanPipe cap = \<lparr>cp_size = cap, cp_ch = [], cp_done = False, cp_lagged = False, cp_buf = [], cp_bufCharge = 0\<rparr>"

definition push :: "bytes \<Rightarrow> chanPipe \<Rightarrow> tlsByteBudget \<Rightarrow> chanPipe \<times> tlsByteBudget" where
  "push d c b =
     (if cp_done c then (c, b)
      else if cp_lagged c then (c, b)
      else (case reserve (length d) b of (ok, b1) \<Rightarrow>
        if \<not> ok then (c\<lparr>cp_lagged := True, cp_done := True\<rparr>, b1)
        else if length (cp_ch c) < cp_size c then (c\<lparr>cp_ch := cp_ch c @ [d]\<rparr>, b1)
        else (c\<lparr>cp_lagged := True, cp_done := True\<rparr>, release (length d) b1)))"

definition pipe_Close :: "chanPipe \<Rightarrow> chanPipe" where
  "pipe_Close c = c\<lparr>cp_done := True\<rparr>"

definition pipe_recv :: "chanPipe \<Rightarrow> chanPipe" where
  "pipe_recv c = c\<lparr>cp_ch := tl (cp_ch c), cp_buf := hd (cp_ch c), cp_bufCharge := length (hd (cp_ch c))\<rparr>"

definition read_buf :: "nat \<Rightarrow> chanPipe \<Rightarrow> tlsByteBudget \<Rightarrow> bytes \<times> chanPipe \<times> tlsByteBudget" where
  "read_buf n c b =
     (let m = min n (length (cp_buf c)); d = take m (cp_buf c) in
      if m = length (cp_buf c) then (d, c\<lparr>cp_buf := [], cp_bufCharge := 0\<rparr>, release (cp_bufCharge c) b)
      else (d, c\<lparr>cp_buf := drop m (cp_buf c)\<rparr>, b))"

text \<open>\<open>RIdle\<close>: at the head of the loop, or between two calls.  \<open>RPolled\<close>: the first look found the channel empty.  \<open>RWaiting\<close>: in the
  blocking select.  \<open>RClosed\<close>: it saw \<open>closed\<close>.  \<open>REof\<close>: \<open>Read\<close> returned the end of the stream.  \<open>RGone\<close>: the
  dissector returned and the pipe is discarded.\<close>

datatype reader_pc = RIdle | RPolled | RWaiting | RClosed | REof | RGone

text \<open>A step of \<open>Read\<close> into a buffer of \<open>n\<close> bytes; \<open>choice\<close> is the branch that the blocking select takes when both are ready, and no
  result means that it waits.\<close>

fun pipe_Read :: "nat \<Rightarrow> bool \<Rightarrow> reader_pc \<Rightarrow> chanPipe \<Rightarrow> tlsByteBudget \<Rightarrow> (reader_pc \<times> bytes \<times> chanPipe \<times> tlsByteBudget) option" where
  "pipe_Read n choice RIdle c b =
     (if cp_buf c \<noteq> [] then Some (RIdle, read_buf n c b)
      else if cp_ch c \<noteq> [] then Some (RIdle, [], pipe_recv c, b)
      else Some (RPolled, [], c, b))"
| "pipe_Read n choice RPolled c b = Some (if cp_lagged c then REof else RWaiting, [], c, b)"
| "pipe_Read n choice RWaiting c b =
     (if cp_ch c \<noteq> [] \<and> (choice \<or> \<not> cp_done c) then Some (RIdle, [], pipe_recv c, b)
      else if cp_done c then Some (RClosed, [], c, b)
      else None)"
| "pipe_Read n choice RClosed c b = (if cp_ch c \<noteq> [] then Some (RIdle, [], pipe_recv c, b) else Some (REof, [], c, b))"
| "pipe_Read n choice REof c b = None"
| "pipe_Read n choice RGone c b = None"

definition pipe_discard :: "chanPipe \<Rightarrow> tlsByteBudget \<Rightarrow> chanPipe \<times> tlsByteBudget" where
  "pipe_discard c b =
     (c\<lparr>cp_done := True, cp_buf := [], cp_bufCharge := 0, cp_ch := []\<rparr>,
      fold (\<lambda>d. release (length d)) (cp_ch c) (if cp_bufCharge c > 0 then release (cp_bufCharge c) b else b))"

subsection \<open>Records and streams\<close>

text \<open>A direction is a byte; any value other than the two named ones feeds neither side.\<close>

type_synonym TLSDirection = "8 word"

definition TLSDirUnknown :: TLSDirection where "TLSDirUnknown = 0"
definition TLSDirWrite :: TLSDirection where "TLSDirWrite = 1"
definition TLSDirRead :: TLSDirection where "TLSDirRead = 2"

lemma dir_distinct [simp]: "TLSDirWrite \<noteq> TLSDirRead" "TLSDirRead \<noteq> TLSDirWrite"
  by (simp_all add: TLSDirWrite_def TLSDirRead_def)

type_synonym TLSConnKey = "32 word \<times> 64 word"

record TLSRecord =
  tr_PID :: "32 word"
  tr_TID :: "32 word"
  tr_ConnID :: "64 word"
  tr_Direction :: TLSDirection
  tr_SrcIP :: string
  tr_DstIP :: string
  tr_SrcPort :: "16 word"
  tr_DstPort :: "16 word"
  tr_Data :: bytes
  tr_Lagged :: bool

definition ConnectionKey :: "TLSRecord \<Rightarrow> TLSConnKey" where
  "ConnectionKey r = (tr_PID r, tr_ConnID r)"

definition stream_conn :: "TLSRecord \<Rightarrow> connID" where
  "stream_conn r =
     (if tr_SrcIP r \<noteq> [] \<and> tr_DstIP r \<noteq> [] then
        \<lparr>srcIP = tr_SrcIP r, dstIP = tr_DstIP r, srcPort = uint (tr_SrcPort r), dstPort = uint (tr_DstPort r)\<rparr>
      else
        \<lparr>srcIP = ''pid:'' @ itoa (uint (tr_PID r)), dstIP = ''pid:'' @ itoa (uint (tr_PID r)) @ '':tls'',
         srcPort = uint (tr_TID r), dstPort = uint (tr_ConnID r) mod 65536\<rparr>)"

text \<open>A dissector goroutine with its pipe: where it is, its connection and the hint it was started with, which is set for the write side.  \<open>pr_sent\<close> and
  \<open>pr_got\<close> are history: the bytes \<open>push\<close> was called with and the bytes \<open>Read\<close> returned.\<close>

record reader_proc =
  pr_pipe :: chanPipe
  pr_pc :: reader_pc
  pr_conn :: connID
  pr_isRequest :: bool
  pr_sent :: bytes
  pr_got :: bytes

record tlsStream =
  st_write :: nat
  st_read :: nat
  st_lastSeen :: time

record tls_state =
  ts_procs :: "reader_proc list"
  ts_budget :: tlsByteBudget
  ts_streams :: "(TLSConnKey \<times> tlsStream) list"
  ts_lagDrops :: nat
  ts_running :: bool

definition new_proc :: "connID \<Rightarrow> bool \<Rightarrow> reader_proc" where
  "new_proc c isRequest = \<lparr>pr_pipe = newChanPipe 64, pr_pc = RIdle, pr_conn = c, pr_isRequest = isRequest, pr_sent = [], pr_got = []\<rparr>"

definition newTLSStream :: "TLSRecord \<Rightarrow> time \<Rightarrow> tls_state \<Rightarrow> tls_state" where
  "newTLSStream r now S =
     (let c = stream_conn r; a = length (ts_procs S) in
      S\<lparr>ts_procs := ts_procs S @ [new_proc c True, new_proc c False],
        ts_streams := AList.update (ConnectionKey r) \<lparr>st_write = a, st_read = Suc a, st_lastSeen = now\<rparr> (ts_streams S)\<rparr>)"

definition push_to :: "bytes \<Rightarrow> nat \<Rightarrow> tls_state \<Rightarrow> tls_state" where
  "push_to d a S =
     (let p = ts_procs S ! a in
      case push d (pr_pipe p) (ts_budget S) of (c, b) \<Rightarrow>
        S\<lparr>ts_procs := (ts_procs S)[a := p\<lparr>pr_pipe := c, pr_sent := pr_sent p @ d\<rparr>], ts_budget := b\<rparr>)"

definition feed :: "TLSRecord \<Rightarrow> tlsStream \<Rightarrow> tls_state \<Rightarrow> tls_state" where
  "feed r st S =
     (if tr_Data r = [] then S
      else if tr_Direction r = TLSDirWrite then push_to (tr_Data r) (st_write st) S
      else if tr_Direction r = TLSDirRead then push_to (tr_Data r) (st_read st) S
      else S)"

definition close_pipe :: "nat \<Rightarrow> tls_state \<Rightarrow> tls_state" where
  "close_pipe a S = S\<lparr>ts_procs := (ts_procs S)[a := (ts_procs S ! a)\<lparr>pr_pipe := pipe_Close (pr_pipe (ts_procs S ! a))\<rparr>]\<rparr>"

definition close_stream :: "tlsStream \<Rightarrow> tls_state \<Rightarrow> tls_state" where
  "close_stream st S = close_pipe (st_read st) (close_pipe (st_write st) S)"

subsection \<open>The events of \<open>consumeTLSBounded\<close>\<close>

definition tlsIdleTimeout :: time where "tlsIdleTimeout = 30000000000"

definition closeAll :: "tls_state \<Rightarrow> tls_state" where
  "closeAll S = (fold (close_stream \<circ> snd) (ts_streams S) S)\<lparr>ts_streams := [], ts_running := False\<rparr>"

definition tls_gc :: "time \<Rightarrow> tls_state \<Rightarrow> tls_state" where
  "tls_gc now S =
     (let cutoff = now - tlsIdleTimeout; stale = filter (\<lambda>kst. st_lastSeen (snd kst) < cutoff) (ts_streams S) in
      (fold (close_stream \<circ> snd) stale S)\<lparr>ts_streams := filter (\<lambda>kst. \<not> st_lastSeen (snd kst) < cutoff) (ts_streams S)\<rparr>)"

definition tls_lagged :: "TLSConnKey \<Rightarrow> tls_state \<Rightarrow> tls_state" where
  "tls_lagged key S =
     (case map_of (ts_streams S) key of None \<Rightarrow> S
      | Some st \<Rightarrow> (close_stream st S)\<lparr>ts_streams := AList.delete key (ts_streams S), ts_lagDrops := ts_lagDrops S + 1\<rparr>)"

definition tls_touch :: "TLSConnKey \<Rightarrow> time \<Rightarrow> tls_state \<Rightarrow> tls_state" where
  "tls_touch key now S =
     S\<lparr>ts_streams := map (\<lambda>(k, st). (k, if k = key then st\<lparr>st_lastSeen := now\<rparr> else st)) (ts_streams S)\<rparr>"

definition tls_fed :: "TLSRecord \<Rightarrow> time \<Rightarrow> tls_state \<Rightarrow> tls_state" where
  "tls_fed r now S = (case map_of (ts_streams S) (ConnectionKey r) of None \<Rightarrow> S | Some st \<Rightarrow> feed r st (tls_touch (ConnectionKey r) now S))"

definition tls_record :: "nat \<Rightarrow> bool \<Rightarrow> time \<Rightarrow> TLSRecord \<Rightarrow> tls_state \<Rightarrow> tls_state" where
  "tls_record streamLimit paused now r S =
     (let key = ConnectionKey r in
      if tr_Lagged r then tls_lagged key S
      else if paused then S
      else if map_of (ts_streams S) key = None then
        if length (ts_streams S) \<ge> streamLimit
        then S\<lparr>ts_budget := (ts_budget S)\<lparr>bg_reported := bg_reported (ts_budget S) + 1\<rparr>\<rparr>
        else tls_fed r now (newTLSStream r now S)
      else tls_fed r now S)"

definition tls_read :: "nat \<Rightarrow> nat \<Rightarrow> bool \<Rightarrow> tls_state \<Rightarrow> tls_state option" where
  "tls_read a n choice S =
     (let p = ts_procs S ! a in
      case pipe_Read n choice (pr_pc p) (pr_pipe p) (ts_budget S) of None \<Rightarrow> None
      | Some (pc, d, c, b) \<Rightarrow> Some (S\<lparr>ts_procs := (ts_procs S)[a := p\<lparr>pr_pipe := c, pr_pc := pc, pr_got := pr_got p @ d\<rparr>], ts_budget := b\<rparr>))"

definition tls_discard :: "nat \<Rightarrow> tls_state \<Rightarrow> tls_state" where
  "tls_discard a S =
     (let p = ts_procs S ! a in
      case pipe_discard (pr_pipe p) (ts_budget S) of (c, b) \<Rightarrow>
        S\<lparr>ts_procs := (ts_procs S)[a := p\<lparr>pr_pipe := c, pr_pc := RGone\<rparr>], ts_budget := b\<rparr>)"

definition tls_start :: "tlsByteBudget \<Rightarrow> tls_state" where
  "tls_start b = \<lparr>ts_procs = [], ts_budget = b, ts_streams = [], ts_lagDrops = 0, ts_running = True\<rparr>"

text \<open>A dissector may call \<open>Read\<close> again after the end of the stream, and may return between two calls.\<close>

inductive tls_step :: "nat \<Rightarrow> tls_state \<Rightarrow> tls_state \<Rightarrow> bool" for streamLimit where
  record_step: "ts_running S \<Longrightarrow> tls_step streamLimit S (tls_record streamLimit paused now r S)"
| gc_step: "ts_running S \<Longrightarrow> tls_step streamLimit S (tls_gc now S)"
| end_step: "ts_running S \<Longrightarrow> tls_step streamLimit S (closeAll S)"
| read_step: "a < length (ts_procs S) \<Longrightarrow> tls_read a n choice S = Some S' \<Longrightarrow> tls_step streamLimit S S'"
| again_step: "a < length (ts_procs S) \<Longrightarrow> pr_pc (ts_procs S ! a) = REof \<Longrightarrow>
    tls_step streamLimit S (S\<lparr>ts_procs := (ts_procs S)[a := (ts_procs S ! a)\<lparr>pr_pc := RIdle\<rparr>]\<rparr>)"
| discard_step: "a < length (ts_procs S) \<Longrightarrow> pr_pc (ts_procs S ! a) \<in> {RIdle, REof} \<Longrightarrow> tls_step streamLimit S (tls_discard a S)"

inductive consumeTLSBounded :: "nat \<Rightarrow> tlsByteBudget \<Rightarrow> tls_state \<Rightarrow> bool" for streamLimit budget where
  start: "consumeTLSBounded streamLimit budget (tls_start budget)"
| step: "consumeTLSBounded streamLimit budget S \<Longrightarrow> tls_step streamLimit S S' \<Longrightarrow> consumeTLSBounded streamLimit budget S'"

subsection \<open>What every step keeps\<close>

definition charge :: "reader_proc \<Rightarrow> int" where
  "charge p = int (cp_bufCharge (pr_pipe p)) + (\<Sum>d \<leftarrow> cp_ch (pr_pipe p). int (length d))"

definition kept :: "reader_proc \<Rightarrow> bytes" where
  "kept p = pr_got p @ cp_buf (pr_pipe p) @ concat (cp_ch (pr_pipe p))"

text \<open>A pipe that the writer may still push to was not closed by it: when it is done, it lags or its reader is gone.\<close>

definition writable :: "reader_proc \<Rightarrow> bool" where
  "writable p \<longleftrightarrow> (cp_done (pr_pipe p) \<longrightarrow> cp_lagged (pr_pipe p) \<or> pr_pc p = RGone)"

definition pc_ok :: "reader_proc \<Rightarrow> bool" where
  "pc_ok p \<longleftrightarrow> (case pr_pc p of RIdle \<Rightarrow> True
     | RPolled \<Rightarrow> cp_buf (pr_pipe p) = []
     | RWaiting \<Rightarrow> cp_buf (pr_pipe p) = []
     | RClosed \<Rightarrow> cp_buf (pr_pipe p) = [] \<and> cp_done (pr_pipe p)
     | REof \<Rightarrow> cp_buf (pr_pipe p) = [] \<and> cp_done (pr_pipe p) \<and> (cp_lagged (pr_pipe p) \<or> cp_ch (pr_pipe p) = [])
     | RGone \<Rightarrow> cp_buf (pr_pipe p) = [] \<and> cp_done (pr_pipe p) \<and> cp_ch (pr_pipe p) = [])"

definition proc_ok :: "reader_proc \<Rightarrow> bool" where
  "proc_ok p \<longleftrightarrow>
     length (cp_ch (pr_pipe p)) \<le> cp_size (pr_pipe p) \<and> (cp_lagged (pr_pipe p) \<longrightarrow> cp_done (pr_pipe p)) \<and>
     (cp_buf (pr_pipe p) = [] \<longrightarrow> cp_bufCharge (pr_pipe p) = 0) \<and> length (cp_buf (pr_pipe p)) \<le> cp_bufCharge (pr_pipe p) \<and> pc_ok p \<and>
     prefix (kept p) (pr_sent p) \<and> (\<not> cp_lagged (pr_pipe p) \<longrightarrow> pr_pc p \<noteq> RGone \<longrightarrow> kept p = pr_sent p)"

lemmas proc_defs = charge_def kept_def writable_def pc_ok_def proc_ok_def

lemma new_proc_ok: "proc_ok (new_proc c isRequest)" "charge (new_proc c isRequest) = 0" "writable (new_proc c isRequest)"
  by (simp_all add: proc_defs new_proc_def newChanPipe_def)

lemma push_ok:
  assumes "proc_ok p" "writable p" "push d (pr_pipe p) b = (c, b')" "bg_used b \<le> bg_limit b"
  defines "p' \<equiv> p\<lparr>pr_pipe := c, pr_sent := pr_sent p @ d\<rparr>"
  shows "proc_ok p' \<and> writable p' \<and> bg_used b' - bg_used b = charge p' - charge p \<and> bg_used b' \<le> bg_limit b' \<and> bg_limit b' = bg_limit b"
proof -
  have pre: "prefix (kept p) (pr_sent p @ d)" using assms(1) by (auto simp: proc_ok_def prefix_def)
  consider (shut) "cp_done (pr_pipe p)" "c = pr_pipe p" "b' = b"
    | (full) "\<not> cp_done (pr_pipe p)" "c = (pr_pipe p)\<lparr>cp_lagged := True, cp_done := True\<rparr>" "bg_used b' = bg_used b" "bg_limit b' = bg_limit b"
    | (sent) "\<not> cp_done (pr_pipe p)" "length (cp_ch (pr_pipe p)) < cp_size (pr_pipe p)" "c = (pr_pipe p)\<lparr>cp_ch := cp_ch (pr_pipe p) @ [d]\<rparr>"
        "b' = b\<lparr>bg_used := bg_used b + int (length d)\<rparr>" "bg_used b + int (length d) \<le> bg_limit b"
    using assms(1,3) by (auto simp: push_def reserve_def release_def proc_ok_def split: if_splits)
  then show ?thesis
  proof cases
    case shut
    then show ?thesis using assms(1,2,4) pre by (auto simp: p'_def proc_defs split: reader_pc.splits)
  next
    case full
    then show ?thesis using assms(1,2,4) pre by (auto simp: p'_def proc_defs split: reader_pc.splits)
  next
    case sent
    have "kept p = pr_sent p" using sent(1) assms(1) by (auto simp: proc_ok_def pc_ok_def Let_def)
    moreover have "kept p' = kept p @ d" using sent(3) by (simp add: kept_def p'_def)
    ultimately have "kept p' = pr_sent p'" by (simp add: p'_def)
    moreover have "pc_ok p'" using sent(1,3) assms(1) by (auto simp: proc_ok_def pc_ok_def p'_def Let_def split: reader_pc.splits)
    ultimately show ?thesis using assms(1) sent by (simp add: p'_def proc_ok_def writable_def charge_def)
  qed
qed

lemma recv_ok:
  assumes "proc_ok p" "cp_ch (pr_pipe p) \<noteq> []" "cp_buf (pr_pipe p) = []" "pr_pc p \<noteq> RGone"
  defines "p' \<equiv> p\<lparr>pr_pipe := pipe_recv (pr_pipe p), pr_pc := RIdle\<rparr>"
  shows "proc_ok p' \<and> charge p' = charge p"
proof -
  obtain d ds where "cp_ch (pr_pipe p) = d # ds" using assms(2) by (cases "cp_ch (pr_pipe p)") auto
  then show ?thesis using assms(1,3,4) by (auto simp: p'_def proc_defs pipe_recv_def)
qed

lemma read_buf_ok:
  assumes "proc_ok p" "pr_pc p = RIdle" "cp_buf (pr_pipe p) \<noteq> []" "read_buf n (pr_pipe p) b = (d, c, b')"
  defines "p' \<equiv> p\<lparr>pr_pipe := c, pr_pc := RIdle, pr_got := pr_got p @ d\<rparr>"
  shows "proc_ok p' \<and> bg_used b' - bg_used b = charge p' - charge p \<and> bg_used b' \<le> bg_used b \<and> bg_limit b' = bg_limit b"
proof -
  have "d @ cp_buf c = cp_buf (pr_pipe p)" "cp_ch c = cp_ch (pr_pipe p)" "cp_size c = cp_size (pr_pipe p)" "cp_done c = cp_done (pr_pipe p)"
      "cp_lagged c = cp_lagged (pr_pipe p)" "cp_buf c = [] \<longrightarrow> cp_bufCharge c = 0" "length (cp_buf c) \<le> cp_bufCharge c"
    using assms(1,4) by (auto simp: read_buf_def proc_ok_def Let_def min_def split: if_splits)
  moreover from this have "kept p' = kept p" by (simp add: kept_def p'_def)
  moreover have "bg_used b' - bg_used b = charge p' - charge p \<and> bg_used b' \<le> bg_used b \<and> bg_limit b' = bg_limit b"
    using assms(4) by (auto simp: charge_def p'_def read_buf_def release_def Let_def split: if_splits)
  ultimately show ?thesis using assms(1,2) by (simp add: p'_def proc_ok_def pc_ok_def)
qed

definition looked :: "chanPipe \<Rightarrow> reader_pc \<Rightarrow> reader_pc \<Rightarrow> bool" where
  "looked c pc pc' \<longleftrightarrow> (pc = RIdle \<and> pc' = RPolled \<and> cp_buf c = []) \<or> (pc = RPolled \<and> pc' = REof \<and> cp_lagged c) \<or> (pc = RPolled \<and> pc' = RWaiting)
     \<or> (pc = RWaiting \<and> pc' = RClosed \<and> cp_done c) \<or> (pc = RClosed \<and> pc' = REof \<and> cp_ch c = [])"

lemma pipe_Read_cases:
  assumes "pipe_Read n choice pc c b = Some (pc', d, c', b')"
  shows "(pc = RIdle \<and> cp_buf c \<noteq> [] \<and> pc' = RIdle \<and> read_buf n c b = (d, c', b'))
    \<or> (cp_ch c \<noteq> [] \<and> (cp_buf c = [] \<or> pc \<noteq> RIdle) \<and> pc' = RIdle \<and> d = [] \<and> c' = pipe_recv c \<and> b' = b \<and> pc \<noteq> RGone)
    \<or> (d = [] \<and> c' = c \<and> b' = b \<and> pc \<noteq> RGone \<and> looked c pc pc')"
  using assms by (cases pc) (simp_all add: looked_def split: if_splits)

lemma read_ok:
  assumes "proc_ok p" "pipe_Read n choice (pr_pc p) (pr_pipe p) b = Some (pc, d, c, b')"
  defines "p' \<equiv> p\<lparr>pr_pipe := c, pr_pc := pc, pr_got := pr_got p @ d\<rparr>"
  shows "proc_ok p' \<and> (writable p \<longrightarrow> writable p') \<and> bg_used b' - bg_used b = charge p' - charge p \<and> bg_used b' \<le> bg_used b \<and> bg_limit b' = bg_limit b"
proof -
  have "cp_done c = cp_done (pr_pipe p) \<and> cp_lagged c = cp_lagged (pr_pipe p) \<and> pr_pc p \<noteq> RGone"
    using assms(2) by (cases "pr_pc p") (auto simp: read_buf_def pipe_recv_def Let_def split: if_splits)
  then have w: "writable p \<longrightarrow> writable p'" by (auto simp: writable_def p'_def)
  have ok: "pc_ok p" "cp_lagged (pr_pipe p) \<longrightarrow> cp_done (pr_pipe p)" using assms(1) by (simp_all add: proc_ok_def)
  consider (buf) "pr_pc p = RIdle" "cp_buf (pr_pipe p) \<noteq> []" "pc = RIdle" "read_buf n (pr_pipe p) b = (d, c, b')"
    | (recv) "cp_ch (pr_pipe p) \<noteq> []" "cp_buf (pr_pipe p) = [] \<or> pr_pc p \<noteq> RIdle" "pc = RIdle" "d = []" "c = pipe_recv (pr_pipe p)" "b' = b" "pr_pc p \<noteq> RGone"
    | (look) "d = []" "c = pr_pipe p" "b' = b" "pr_pc p \<noteq> RGone" "looked (pr_pipe p) (pr_pc p) pc"
    using pipe_Read_cases [OF assms(2)] by blast
  then show ?thesis
  proof cases
    case buf
    then show ?thesis using read_buf_ok [OF assms(1) buf(1,2,4)] w by (simp add: p'_def)
  next
    case recv
    have "cp_buf (pr_pipe p) = []" using recv(2,7) ok by (auto simp: pc_ok_def split: reader_pc.splits)
    then show ?thesis using recv_ok [OF assms(1) recv(1) _ recv(7)] recv w by (simp add: p'_def)
  next
    case look
    then have "p' = p\<lparr>pr_pc := pc\<rparr>" by (simp add: p'_def)
    moreover have "pc_ok (p\<lparr>pr_pc := pc\<rparr>)" "pc \<noteq> RGone" using look(5) ok by (auto simp: looked_def pc_ok_def)
    ultimately show ?thesis using look assms(1) w by (simp add: proc_ok_def charge_def kept_def)
  qed
qed

lemma fold_release: "bg_used (fold (\<lambda>d. release (length d)) ds b) = bg_used b - (\<Sum>d \<leftarrow> ds. int (length d))"
    "bg_limit (fold (\<lambda>d. release (length d)) ds b) = bg_limit b"
  by (induction ds arbitrary: b) (simp_all add: release_def)

lemma discard_ok:
  assumes "proc_ok p" "pipe_discard (pr_pipe p) b = (c, b')"
  defines "p' \<equiv> p\<lparr>pr_pipe := c, pr_pc := RGone\<rparr>"
  shows "proc_ok p' \<and> writable p' \<and> bg_used b' - bg_used b = charge p' - charge p \<and> bg_used b' \<le> bg_used b \<and> bg_limit b' = bg_limit b"
proof -
  have "prefix (pr_got p) (pr_sent p)" using assms(1) by (auto simp: proc_ok_def kept_def prefix_def)
  moreover have "0 \<le> (\<Sum>d \<leftarrow> cp_ch (pr_pipe p). int (length d))" by (rule sum_list_nonneg) auto
  ultimately show ?thesis using assms(1,2)
    by (auto simp: p'_def proc_defs pipe_discard_def fold_release release_def)
qed

lemma close_ok: "proc_ok p \<Longrightarrow> proc_ok (p\<lparr>pr_pipe := pipe_Close (pr_pipe p)\<rparr>)" "charge (p\<lparr>pr_pipe := pipe_Close (pr_pipe p)\<rparr>) = charge p"
  by (auto simp: proc_defs pipe_Close_def split: reader_pc.splits)

definition addrs :: "(TLSConnKey \<times> tlsStream) list \<Rightarrow> nat list" where
  "addrs sts = concat (map (\<lambda>kst. [st_write (snd kst), st_read (snd kst)]) sts)"

definition tls_inv :: "nat \<Rightarrow> tls_state \<Rightarrow> bool" where
  "tls_inv limit S \<longleftrightarrow>
     (\<forall>p \<in> set (ts_procs S). proc_ok p) \<and>
     bg_used (ts_budget S) = (\<Sum>p \<leftarrow> ts_procs S. charge p) \<and> bg_used (ts_budget S) \<le> bg_limit (ts_budget S) \<and>
     length (ts_streams S) \<le> limit \<and> distinct (map fst (ts_streams S)) \<and> distinct (addrs (ts_streams S)) \<and>
     (\<forall>a \<in> set (addrs (ts_streams S)). a < length (ts_procs S) \<and> writable (ts_procs S ! a))"

lemma sum_list_int_update: "a < length xs \<Longrightarrow> sum_list (xs[a := x]) = sum_list xs + x - xs ! a" for x :: int
proof (induction xs arbitrary: a)
  case (Cons y ys)
  then show ?case by (cases a) simp_all
qed simp

text \<open>A step of one process, with the budget moved by what its charge moved.\<close>

lemma inv_proc_step:
  assumes "tls_inv limit S" "a < length (ts_procs S)" "proc_ok p'" "a \<in> set (addrs (ts_streams S)) \<Longrightarrow> writable p'"
    "bg_used b' - bg_used (ts_budget S) = charge p' - charge (ts_procs S ! a)" "bg_used b' \<le> bg_limit b'"
  shows "tls_inv limit (S\<lparr>ts_procs := (ts_procs S)[a := p'], ts_budget := b'\<rparr>)"
proof -
  have "(\<Sum>p \<leftarrow> (ts_procs S)[a := p']. charge p) = (\<Sum>p \<leftarrow> ts_procs S. charge p) + charge p' - charge (ts_procs S ! a)"
    using sum_list_int_update [of a "map charge (ts_procs S)" "charge p'"] assms(2) by (simp add: map_update)
  moreover have "\<forall>p \<in> set ((ts_procs S)[a := p']). proc_ok p"
    using assms(1,3) set_update_subset_insert [of "ts_procs S" a p'] by (auto simp: tls_inv_def)
  ultimately show ?thesis using assms by (auto simp: tls_inv_def nth_list_update)
qed

lemma inv_proc_only:
  assumes "tls_inv limit S" "a < length (ts_procs S)" "proc_ok p'" "a \<in> set (addrs (ts_streams S)) \<Longrightarrow> writable p'" "charge p' = charge (ts_procs S ! a)"
  shows "tls_inv limit (S\<lparr>ts_procs := (ts_procs S)[a := p']\<rparr>)"
proof -
  have "tls_inv limit (S\<lparr>ts_procs := (ts_procs S)[a := p'], ts_budget := ts_budget S\<rparr>)"
    by (rule inv_proc_step [OF assms(1-3)]) (use assms in \<open>auto simp: tls_inv_def\<close>)
  then show ?thesis by simp
qed

lemma inv_nth: "tls_inv limit S \<Longrightarrow> a < length (ts_procs S) \<Longrightarrow> proc_ok (ts_procs S ! a)"
  by (simp add: tls_inv_def)

lemma inv_push:
  assumes "tls_inv limit S" "a \<in> set (addrs (ts_streams S))"
  shows "tls_inv limit (push_to d a S)"
proof -
  have a: "a < length (ts_procs S)" "writable (ts_procs S ! a)" "bg_used (ts_budget S) \<le> bg_limit (ts_budget S)"
    using assms by (auto simp: tls_inv_def)
  obtain c b where cb: "push d (pr_pipe (ts_procs S ! a)) (ts_budget S) = (c, b)" by fastforce
  show ?thesis
    using push_ok [OF inv_nth [OF assms(1) a(1)] a(2) cb a(3)] cb inv_proc_step [OF assms(1) a(1)] by (simp add: push_to_def Let_def)
qed

text \<open>Streams can be forgotten at any time; those that are not in the table any more can be closed.\<close>

lemma addrs_filter: "set (addrs (filter P sts)) \<subseteq> set (addrs sts)" "distinct (addrs sts) \<Longrightarrow> distinct (addrs (filter P sts))"
proof -
  show s: "set (addrs (filter P sts)) \<subseteq> set (addrs sts)" for sts by (auto simp: addrs_def)
  show "distinct (addrs sts) \<Longrightarrow> distinct (addrs (filter P sts))"
  proof (induction sts)
    case (Cons kst sts)
    have c: "addrs (x # xs) = st_write (snd x) # st_read (snd x) # addrs xs" for x xs by (simp add: addrs_def)
    show ?case using Cons s [of sts] by (auto simp: c)
  qed simp
qed

lemma inv_forget:
  assumes "tls_inv limit S"
  shows "tls_inv limit (S\<lparr>ts_streams := filter P (ts_streams S)\<rparr>)"
  using assms addrs_filter(1) [of P "ts_streams S"] addrs_filter(2) [of "ts_streams S" P] order_trans [OF length_filter_le [of P "ts_streams S"]]
  by (auto simp: tls_inv_def distinct_map inj_on_def)

lemma inv_close:
  assumes "tls_inv limit S" "a < length (ts_procs S)" "a \<notin> set (addrs (ts_streams S))"
  shows "tls_inv limit (close_pipe a S)"
  unfolding close_pipe_def by (rule inv_proc_only [OF assms(1,2)]) (use assms(3) inv_nth [OF assms(1,2)] close_ok in auto)

lemma close_pipe_frame: "ts_streams (close_pipe a S) = ts_streams S" "length (ts_procs (close_pipe a S)) = length (ts_procs S)"
    "(close_pipe a S)\<lparr>ts_streams := X\<rparr> = close_pipe a (S\<lparr>ts_streams := X\<rparr>)"
  by (simp_all add: close_pipe_def)

lemma close_streams_frame: "(fold (close_stream \<circ> snd) sts S)\<lparr>ts_streams := X\<rparr> = fold (close_stream \<circ> snd) sts (S\<lparr>ts_streams := X\<rparr>)"
  by (induction sts arbitrary: S) (simp_all add: close_stream_def close_pipe_frame)

lemma inv_close_streams:
  assumes "tls_inv limit S" "set (addrs sts) \<inter> set (addrs (ts_streams S)) = {}" "\<forall>a \<in> set (addrs sts). a < length (ts_procs S)"
  shows "tls_inv limit (fold (close_stream \<circ> snd) sts S)"
  using assms
proof (induction sts arbitrary: S)
  case (Cons kst sts)
  have "tls_inv limit (close_stream (snd kst) S)" using Cons.prems by (auto simp: addrs_def close_stream_def close_pipe_frame intro!: inv_close)
  then show ?case using Cons.prems Cons.IH [of "close_stream (snd kst) S"] by (auto simp: addrs_def close_stream_def close_pipe_frame)
qed simp

lemma inv_drop_streams:
  assumes "tls_inv limit S"
  shows "tls_inv limit ((fold (close_stream \<circ> snd) (filter P (ts_streams S)) S)\<lparr>ts_streams := filter (\<lambda>x. \<not> P x) (ts_streams S)\<rparr>)"
  unfolding close_streams_frame
proof (rule inv_close_streams [OF inv_forget [OF assms]])
  have "set (addrs (filter P sts)) \<inter> set (addrs (filter (\<lambda>x. \<not> P x) sts)) = {}" if "distinct (addrs sts)" for sts
    using that
  proof (induction sts)
    case (Cons kst sts)
    have c: "addrs (x # xs) = st_write (snd x) # st_read (snd x) # addrs xs" for x xs by (simp add: addrs_def)
    show ?case using Cons addrs_filter(1) [of P sts] addrs_filter(1) [of "\<lambda>x. \<not> P x" sts] by (auto simp: c)
  qed (simp add: addrs_def)
  then show "set (addrs (filter P (ts_streams S))) \<inter> set (addrs (ts_streams (S\<lparr>ts_streams := filter (\<lambda>x. \<not> P x) (ts_streams S)\<rparr>))) = {}"
    using assms by (simp add: tls_inv_def)
qed (use assms addrs_filter(1) [of P "ts_streams S"] in \<open>auto simp: tls_inv_def\<close>)

lemma inv_new_stream:
  assumes "tls_inv limit S" "map_of (ts_streams S) (ConnectionKey r) = None" "length (ts_streams S) < limit"
  shows "tls_inv limit (newTLSStream r now S)"
proof -
  have notin: "ConnectionKey r \<notin> fst ` set (ts_streams S)" using assms(2) by (simp add: map_of_eq_None_iff)
  have upd: "AList.update k st sts = sts @ [(k, st)]" if "k \<notin> fst ` set sts" for k and st :: tlsStream and sts using that by (induction sts) auto
  show ?thesis using assms(1,3) notin
    by (auto simp: tls_inv_def newTLSStream_def Let_def upd addrs_def new_proc_ok nth_append less_Suc_eq)
qed

lemma inv_touch: "tls_inv limit S \<Longrightarrow> tls_inv limit (tls_touch k now S)"
proof -
  have "addrs (map (\<lambda>(k', st). (k', if k' = k then st\<lparr>st_lastSeen := now\<rparr> else st)) sts) = addrs sts" for sts
    by (induction sts) (auto simp: addrs_def)
  then show "tls_inv limit S \<Longrightarrow> tls_inv limit (tls_touch k now S)"
    by (simp add: tls_inv_def tls_touch_def comp_def case_prod_unfold)
qed

lemma addrs_member: "map_of sts k = Some st \<Longrightarrow> st_write st \<in> set (addrs sts) \<and> st_read st \<in> set (addrs sts)"
  by (drule map_of_SomeD) (force simp: addrs_def)

lemma touch_lookup: "map_of (ts_streams (tls_touch k now S)) k = map_option (st_lastSeen_update (\<lambda>_. now)) (map_of (ts_streams S) k)"
proof -
  have "map_of (map (\<lambda>(k', st). (k', if k' = k then st\<lparr>st_lastSeen := now\<rparr> else st)) sts) k = map_option (st_lastSeen_update (\<lambda>_. now)) (map_of sts k)" for sts
    by (induction sts) auto
  then show ?thesis by (simp add: tls_touch_def)
qed

lemma inv_fed:
  assumes "tls_inv limit S"
  shows "tls_inv limit (tls_fed r now S)"
proof (cases "map_of (ts_streams S) (ConnectionKey r)")
  case (Some st)
  let ?S = "tls_touch (ConnectionKey r) now S"
  have inv: "tls_inv limit ?S" by (rule inv_touch [OF assms])
  have "st_write st \<in> set (addrs (ts_streams ?S)) \<and> st_read st \<in> set (addrs (ts_streams ?S))"
    using addrs_member [of "ts_streams ?S" "ConnectionKey r" "st\<lparr>st_lastSeen := now\<rparr>"] Some by (simp add: touch_lookup)
  then show ?thesis using Some inv inv_push [OF inv] by (auto simp: tls_fed_def feed_def)
qed (simp add: tls_fed_def assms)

lemma inv_lagged:
  assumes "tls_inv limit S"
  shows "tls_inv limit (tls_lagged k S)"
proof (cases "map_of (ts_streams S) k")
  case (Some st)
  have only: "filter (\<lambda>x. fst x = k) sts = [(k, st)]" if "distinct (map fst sts)" "map_of sts k = Some st" for sts
    using that by (induction sts) (auto simp: filter_empty_conv image_iff split: if_splits)
  have "tls_inv limit ((fold (close_stream \<circ> snd) (filter (\<lambda>x. fst x = k) (ts_streams S)) S)\<lparr>ts_streams := filter (\<lambda>x. \<not> fst x = k) (ts_streams S)\<rparr>)"
    by (rule inv_drop_streams [OF assms])
  moreover have "distinct (map fst (ts_streams S))" using assms by (simp add: tls_inv_def)
  ultimately have "tls_inv limit ((close_stream st S)\<lparr>ts_streams := filter (\<lambda>x. fst x \<noteq> k) (ts_streams S)\<rparr>)" using only [of "ts_streams S"] Some by simp
  moreover have "AList.delete k (ts_streams S) = filter (\<lambda>x. fst x \<noteq> k) (ts_streams S)" by (auto simp: AList.delete_eq case_prod_unfold intro!: filter_cong)
  ultimately show ?thesis using Some by (simp add: tls_lagged_def tls_inv_def)
qed (simp add: tls_lagged_def assms)

lemma inv_record: "tls_inv limit S \<Longrightarrow> tls_inv limit (tls_record limit paused now r S)"
  by (auto simp: tls_record_def Let_def not_le intro!: inv_lagged inv_fed inv_new_stream) (simp add: tls_inv_def)

lemma inv_gc: "tls_inv limit S \<Longrightarrow> tls_inv limit (tls_gc now S)"
  unfolding tls_gc_def Let_def by (rule inv_drop_streams)

lemma inv_closeAll:
  assumes "tls_inv limit S"
  shows "tls_inv limit (closeAll S)"
proof -
  have "tls_inv limit ((fold (close_stream \<circ> snd) (ts_streams S) S)\<lparr>ts_streams := []\<rparr>)" using inv_drop_streams [OF assms, of "\<lambda>_. True"] by simp
  then show ?thesis by (simp add: closeAll_def tls_inv_def)
qed

lemma inv_read:
  assumes "tls_inv limit S" "a < length (ts_procs S)" "tls_read a n choice S = Some S'"
  shows "tls_inv limit S'"
proof -
  let ?p = "ts_procs S ! a"
  obtain pc d c b where rd: "pipe_Read n choice (pr_pc ?p) (pr_pipe ?p) (ts_budget S) = Some (pc, d, c, b)"
      "S' = S\<lparr>ts_procs := (ts_procs S)[a := ?p\<lparr>pr_pipe := c, pr_pc := pc, pr_got := pr_got ?p @ d\<rparr>], ts_budget := b\<rparr>"
    using assms(3) by (auto simp: tls_read_def Let_def split: option.splits)
  have w: "a \<in> set (addrs (ts_streams S)) \<Longrightarrow> writable ?p" "bg_used (ts_budget S) \<le> bg_limit (ts_budget S)" using assms(1) by (auto simp: tls_inv_def)
  show ?thesis unfolding rd(2) using read_ok [OF inv_nth [OF assms(1,2)] rd(1)] w by (intro inv_proc_step [OF assms(1,2)]) auto
qed

lemma inv_discard:
  assumes "tls_inv limit S" "a < length (ts_procs S)"
  shows "tls_inv limit (tls_discard a S)"
proof -
  obtain c b where cb: "pipe_discard (pr_pipe (ts_procs S ! a)) (ts_budget S) = (c, b)" by fastforce
  have "bg_used (ts_budget S) \<le> bg_limit (ts_budget S)" using assms(1) by (simp add: tls_inv_def)
  then have "tls_inv limit (S\<lparr>ts_procs := (ts_procs S)[a := (ts_procs S ! a)\<lparr>pr_pipe := c, pr_pc := RGone\<rparr>], ts_budget := b\<rparr>)"
    using discard_ok [OF inv_nth [OF assms] cb] by (intro inv_proc_step [OF assms]) auto
  then show ?thesis by (simp add: tls_discard_def Let_def cb)
qed

lemma inv_again:
  assumes "tls_inv limit S" "a < length (ts_procs S)" "pr_pc (ts_procs S ! a) = REof"
  shows "tls_inv limit (S\<lparr>ts_procs := (ts_procs S)[a := (ts_procs S ! a)\<lparr>pr_pc := RIdle\<rparr>]\<rparr>)"
proof (rule inv_proc_only [OF assms(1,2)])
  show "proc_ok ((ts_procs S ! a)\<lparr>pr_pc := RIdle\<rparr>)" using inv_nth [OF assms(1,2)] assms(3) by (auto simp: proc_defs)
  show "writable ((ts_procs S ! a)\<lparr>pr_pc := RIdle\<rparr>)" if "a \<in> set (addrs (ts_streams S))"
    using that assms(1,3) by (auto simp: tls_inv_def writable_def)
qed (simp add: charge_def)

lemma inv_step: "tls_step limit S S' \<Longrightarrow> tls_inv limit S \<Longrightarrow> tls_inv limit S'"
  by (induction rule: tls_step.induct) (auto intro: inv_record inv_gc inv_closeAll inv_read inv_again inv_discard)

lemma close_streams_budget: "ts_budget (fold (close_stream \<circ> snd) sts S) = ts_budget S"
  by (induction sts arbitrary: S) (simp_all add: close_stream_def close_pipe_def)

lemma fed_limit: "bg_limit (ts_budget (tls_fed r now S)) = bg_limit (ts_budget S)"
proof -
  have "bg_limit (ts_budget (push_to d a S)) = bg_limit (ts_budget S)" for d a S
    by (simp add: push_to_def push_def reserve_def release_def Let_def split: prod.split)
  then show ?thesis by (simp add: tls_fed_def feed_def tls_touch_def split: option.split)
qed

lemma record_limit: "bg_limit (ts_budget (tls_record limit paused now r S)) = bg_limit (ts_budget S)"
proof -
  have "ts_budget (tls_lagged k S) = ts_budget S" for k by (simp add: tls_lagged_def close_stream_def close_pipe_def split: option.split)
  then show ?thesis by (simp add: tls_record_def Let_def fed_limit newTLSStream_def)
qed

lemma read_limit: "tls_read a n choice S = Some S' \<Longrightarrow> bg_limit (ts_budget S') = bg_limit (ts_budget S)"
proof -
  have rb: "bg_limit (snd (snd (read_buf n c b))) = bg_limit b" for c b by (simp add: read_buf_def release_def Let_def)
  have "bg_limit b' = bg_limit b" if "pipe_Read n choice pc c b = Some (pc', d, c', b')" for pc c b pc' d c' b'
    using pipe_Read_cases [OF that] rb [of c b] by auto
  then show "tls_read a n choice S = Some S' \<Longrightarrow> bg_limit (ts_budget S') = bg_limit (ts_budget S)"
    by (auto simp: tls_read_def Let_def split: option.splits)
qed

lemma step_limit: "tls_step limit S S' \<Longrightarrow> bg_limit (ts_budget S') = bg_limit (ts_budget S)"
  by (induction rule: tls_step.induct)
    (simp_all add: record_limit read_limit tls_gc_def closeAll_def Let_def close_streams_budget tls_discard_def pipe_discard_def fold_release release_def)

lemma reachable_inv:
  assumes "consumeTLSBounded limit (newTLSByteBudget n) S"
  shows "tls_inv limit S \<and> bg_limit (ts_budget S) = bg_limit (newTLSByteBudget n)"
  using assms
proof (induction rule: consumeTLSBounded.induct)
  case start
  then show ?case by (simp add: tls_inv_def tls_start_def newTLSByteBudget_def addrs_def maxTLSQueuedBytes_def)
qed (simp add: inv_step step_limit)

text \<open>The bytes that the pipes hold.\<close>

definition held_bytes :: "tls_state \<Rightarrow> int" where
  "held_bytes S = (\<Sum>p \<leftarrow> ts_procs S. int (length (cp_buf (pr_pipe p))) + (\<Sum>d \<leftarrow> cp_ch (pr_pipe p). int (length d)))"

text \<open>C8: Whatever the interleaving of the capture with the dissectors, the pipes never hold more than the budget of bytes, the table never more
  than the limit of streams, and when every dissector has returned the whole budget is given back.\<close>

theorem tls_budget_held:
  assumes "consumeTLSBounded limit (newTLSByteBudget n) S" "0 < n"
  shows "held_bytes S \<le> bg_used (ts_budget S) \<and> bg_used (ts_budget S) \<le> n \<and> length (ts_streams S) \<le> limit
    \<and> ((\<forall>p \<in> set (ts_procs S). pr_pc p = RGone) \<longrightarrow> bg_used (ts_budget S) = 0)"
proof -
  have inv: "tls_inv limit S" "bg_limit (ts_budget S) = n" using reachable_inv [OF assms(1)] assms(2) by (simp_all add: newTLSByteBudget_def)
  have "held_bytes S \<le> (\<Sum>p \<leftarrow> ts_procs S. charge p)" unfolding held_bytes_def charge_def
    by (rule sum_list_mono) (use inv(1) in \<open>simp add: tls_inv_def proc_ok_def\<close>)
  moreover have "charge p = 0" if "p \<in> set (ts_procs S)" "pr_pc p = RGone" for p
    using that inv(1) by (auto simp: tls_inv_def proc_ok_def pc_ok_def charge_def)
  then have "(\<forall>p \<in> set (ts_procs S). pr_pc p = RGone) \<Longrightarrow> (\<Sum>p \<leftarrow> ts_procs S. charge p) = 0"
    by (metis (mono_tags, lifting) map_eq_conv sum_list_0)
  ultimately show ?thesis using inv by (auto simp: tls_inv_def)
qed

subsection \<open>What was captured\<close>

text \<open>A run with its history: the records in the order they were handled, each with whether capture was paused then, and the keys whose streams a
  sweep or the end of the capture closed; and for each dissector the connection it was started for and the place in the history of the record
  that started it.\<close>

datatype tls_event = Handled bool TLSRecord | Closed "TLSConnKey list"

definition stream_keys :: "tls_state \<Rightarrow> TLSConnKey list" where
  "stream_keys S = map fst (ts_streams S)"

definition closed_keys :: "tls_state \<Rightarrow> tls_state \<Rightarrow> tls_event" where
  "closed_keys S S' = Closed (filter (\<lambda>k. k \<notin> set (stream_keys S')) (stream_keys S))"

inductive tls_history :: "nat \<Rightarrow> tlsByteBudget \<Rightarrow> tls_state \<Rightarrow> tls_event list \<Rightarrow> (TLSConnKey \<times> nat) list \<Rightarrow> bool" for limit budget where
  start: "tls_history limit budget (tls_start budget) [] []"
| handled: "tls_history limit budget S H B \<Longrightarrow> ts_running S \<Longrightarrow> S' = tls_record limit paused now r S \<Longrightarrow>
    tls_history limit budget S' (H @ [Handled paused r]) (B @ replicate (length (ts_procs S') - length (ts_procs S)) (ConnectionKey r, length H))"
| swept: "tls_history limit budget S H B \<Longrightarrow> ts_running S \<Longrightarrow> tls_history limit budget (tls_gc now S) (H @ [closed_keys S (tls_gc now S)]) B"
| ended: "tls_history limit budget S H B \<Longrightarrow> ts_running S \<Longrightarrow> tls_history limit budget (closeAll S) (H @ [closed_keys S (closeAll S)]) B"
| read: "tls_history limit budget S H B \<Longrightarrow> a < length (ts_procs S) \<Longrightarrow> tls_read a n choice S = Some S' \<Longrightarrow> tls_history limit budget S' H B"
| again: "tls_history limit budget S H B \<Longrightarrow> a < length (ts_procs S) \<Longrightarrow> pr_pc (ts_procs S ! a) = REof \<Longrightarrow>
    tls_history limit budget (S\<lparr>ts_procs := (ts_procs S)[a := (ts_procs S ! a)\<lparr>pr_pc := RIdle\<rparr>]\<rparr>) H B"
| discard: "tls_history limit budget S H B \<Longrightarrow> a < length (ts_procs S) \<Longrightarrow> pr_pc (ts_procs S ! a) \<in> {RIdle, REof} \<Longrightarrow>
    tls_history limit budget (tls_discard a S) H B"

text \<open>These are the same runs.\<close>

lemma history_run: "tls_history limit budget S H B \<Longrightarrow> consumeTLSBounded limit budget S"
  by (induction rule: tls_history.induct) (auto intro: consumeTLSBounded.intros tls_step.intros)

lemma run_history:
  assumes "consumeTLSBounded limit budget S"
  shows "\<exists>H B. tls_history limit budget S H B"
  using assms
proof (induction rule: consumeTLSBounded.induct)
  case (step S S')
  then obtain H B where h: "tls_history limit budget S H B" by blast
  show ?case using step(2) by (cases rule: tls_step.cases) (use h in \<open>blast intro: tls_history.intros\<close>)+
qed (blast intro: tls_history.start)

text \<open>The bytes a connection sent in one direction from a place in the history on: the data of its records of that direction that were handled
  while capture was not paused, until it lost data or its stream was closed.\<close>

definition stops :: "TLSConnKey \<Rightarrow> tls_event \<Rightarrow> bool" where
  "stops k e \<longleftrightarrow> (case e of Handled paused r \<Rightarrow> ConnectionKey r = k \<and> tr_Lagged r | Closed ks \<Rightarrow> k \<in> set ks)"

definition data_of :: "TLSConnKey \<Rightarrow> TLSDirection \<Rightarrow> tls_event \<Rightarrow> bytes" where
  "data_of k d e = (case e of
       Handled paused r \<Rightarrow> if ConnectionKey r = k \<and> tr_Direction r = d \<and> \<not> paused then tr_Data r else []
     | Closed ks \<Rightarrow> [])"

definition stream_bytes :: "TLSConnKey \<Rightarrow> TLSDirection \<Rightarrow> tls_event list \<Rightarrow> bytes" where
  "stream_bytes k d H = concat (map (data_of k d) (takeWhile (\<lambda>e. \<not> stops k e) H))"

abbreviation still_open :: "TLSConnKey \<Rightarrow> tls_event list \<Rightarrow> bool" where
  "still_open k H \<equiv> \<forall>e \<in> set H. \<not> stops k e"

lemma stream_snoc: "stream_bytes k d (H @ [e]) = stream_bytes k d H @ (if still_open k H \<and> \<not> stops k e then data_of k d e else [])"
proof -
  have "takeWhile (\<lambda>e. \<not> stops k e) (H @ [e]) = takeWhile (\<lambda>e. \<not> stops k e) H @ (if still_open k H \<and> \<not> stops k e then [e] else [])"
    by (induction H) auto
  then show ?thesis by (auto simp: stream_bytes_def)
qed

definition proc_dir :: "reader_proc \<Rightarrow> TLSDirection" where
  "proc_dir p = (if pr_isRequest p then TLSDirWrite else TLSDirRead)"

definition sides :: "tls_state \<Rightarrow> TLSConnKey \<Rightarrow> (nat \<times> nat) option" where
  "sides S k = map_option (\<lambda>st. (st_write st, st_read st)) (map_of (ts_streams S) k)"

definition my_side :: "reader_proc \<Rightarrow> nat \<times> nat \<Rightarrow> nat" where
  "my_side p wr = (if pr_isRequest p then fst wr else snd wr)"

text \<open>Every dissector was pushed exactly the bytes of its direction, and its stream is in the table as long as nothing stopped it.\<close>

definition proc_hist :: "tls_state \<Rightarrow> tls_event list \<Rightarrow> TLSConnKey \<times> nat \<Rightarrow> nat \<Rightarrow> bool" where
  "proc_hist S H b a \<longleftrightarrow> snd b \<le> length H
     \<and> pr_sent (ts_procs S ! a) = stream_bytes (fst b) (proc_dir (ts_procs S ! a)) (drop (snd b) H)
     \<and> (still_open (fst b) (drop (snd b) H) \<longleftrightarrow> (\<exists>wr. sides S (fst b) = Some wr \<and> a = my_side (ts_procs S ! a) wr))"

definition hist_ok :: "tls_state \<Rightarrow> tls_event list \<Rightarrow> (TLSConnKey \<times> nat) list \<Rightarrow> bool" where
  "hist_ok S H B \<longleftrightarrow> length B = length (ts_procs S) \<and> (\<forall>a < length B. proc_hist S H (B ! a) a)
     \<and> (\<forall>k w r. sides S k = Some (w, r) \<longrightarrow> w < length B \<and> r < length B \<and> fst (B ! w) = k \<and> fst (B ! r) = k
          \<and> pr_isRequest (ts_procs S ! w) \<and> \<not> pr_isRequest (ts_procs S ! r))"

lemma hist_sides:
  "hist_ok S H B \<Longrightarrow> sides S k = Some (w, r) \<Longrightarrow> w < length B \<and> r < length B \<and> fst (B ! w) = k \<and> fst (B ! r) = k
     \<and> pr_isRequest (ts_procs S ! w) \<and> \<not> pr_isRequest (ts_procs S ! r)"
  unfolding hist_ok_def by blast

text \<open>A step that pushes nothing, with an event that says no more than which streams it stops.\<close>

lemma hist_event:
  assumes "hist_ok S H B" "length (ts_procs S') = length (ts_procs S)"
    "\<And>a. pr_sent (ts_procs S' ! a) = pr_sent (ts_procs S ! a) \<and> pr_isRequest (ts_procs S' ! a) = pr_isRequest (ts_procs S ! a)"
    "\<And>k. sides S' k = (if stops k e then None else sides S k)" "\<And>k d. d \<in> {TLSDirWrite, TLSDirRead} \<Longrightarrow> stops k e \<or> data_of k d e = [] \<or> sides S k = None"
  shows "hist_ok S' (H @ [e]) B"
proof -
  have "proc_hist S' (H @ [e]) (B ! a) a" if a: "a < length B" for a
  proof -
    let ?k = "fst (B ! a)" and ?i = "snd (B ! a)"
    have old: "?i \<le> length H" "pr_sent (ts_procs S ! a) = stream_bytes ?k (proc_dir (ts_procs S ! a)) (drop ?i H)"
      "still_open ?k (drop ?i H) \<longleftrightarrow> (\<exists>wr. sides S ?k = Some wr \<and> a = my_side (ts_procs S ! a) wr)"
      using assms(1) a by (auto simp: hist_ok_def proc_hist_def)
    have same: "proc_dir (ts_procs S' ! a) = proc_dir (ts_procs S ! a)" "my_side (ts_procs S' ! a) = my_side (ts_procs S ! a)"
      using assms(3) [of a] by (auto simp: proc_dir_def my_side_def)
    have "proc_dir (ts_procs S ! a) \<in> {TLSDirWrite, TLSDirRead}" by (simp add: proc_dir_def)
    then have "stops ?k e \<or> data_of ?k (proc_dir (ts_procs S ! a)) e = [] \<or> \<not> still_open ?k (drop ?i H)" using assms(5) [of _ ?k] old(3) by auto
    then have "stream_bytes ?k (proc_dir (ts_procs S ! a)) (drop ?i H @ [e]) = stream_bytes ?k (proc_dir (ts_procs S ! a)) (drop ?i H)"
      by (auto simp: stream_snoc)
    then show ?thesis using old assms(3) [of a] same by (auto simp: proc_hist_def assms(4))
  qed
  moreover have "\<forall>k w r. sides S' k = Some (w, r) \<longrightarrow> w < length B \<and> r < length B \<and> fst (B ! w) = k \<and> fst (B ! r) = k
      \<and> pr_isRequest (ts_procs S' ! w) \<and> \<not> pr_isRequest (ts_procs S' ! r)"
    using assms(1,3,4) by (auto simp: hist_ok_def split: if_splits)
  ultimately show ?thesis using assms(1,2) by (simp add: hist_ok_def)
qed

lemma hist_same:
  assumes "hist_ok S H B" "length (ts_procs S') = length (ts_procs S)"
    "\<And>a. pr_sent (ts_procs S' ! a) = pr_sent (ts_procs S ! a) \<and> pr_isRequest (ts_procs S' ! a) = pr_isRequest (ts_procs S ! a)"
    "\<And>k. sides S' k = sides S k"
  shows "hist_ok S' H B"
proof -
  have "proc_dir (ts_procs S' ! a) = proc_dir (ts_procs S ! a)" "my_side (ts_procs S' ! a) = my_side (ts_procs S ! a)" for a
    using assms(3) [of a] by (auto simp: proc_dir_def my_side_def)
  then show ?thesis using assms by (auto simp: hist_ok_def proc_hist_def)
qed

lemma hist_new:
  assumes "hist_ok S H B" "map_of (ts_streams S) (ConnectionKey r) = None"
  shows "hist_ok (newTLSStream r now S) H (B @ replicate 2 (ConnectionKey r, length H))"
proof -
  let ?S = "newTLSStream r now S" and ?n = "length (ts_procs S)" and ?k = "ConnectionKey r"
  have sd: "sides ?S k = (if k = ?k then Some (?n, Suc ?n) else sides S k)" for k
    by (simp add: sides_def newTLSStream_def Let_def AList.update_conv')
  have len: "length B = ?n" using assms(1) by (simp add: hist_ok_def)
  have procs: "ts_procs ?S = ts_procs S @ [new_proc (stream_conn r) True, new_proc (stream_conn r) False]" by (simp add: newTLSStream_def Let_def)
  have none: "sides S ?k = None" using assms(2) by (simp add: sides_def)
  have two: "replicate 2 x = [x, x]" for x :: "TLSConnKey \<times> nat" by (simp add: numeral_2_eq_2)
  have "proc_hist ?S H ((B @ replicate 2 (?k, length H)) ! a) a" if "a < length (B @ replicate 2 (?k, length H))" for a
  proof -
    have "a < ?n \<or> a = ?n \<or> a = Suc ?n" using that len by simp arith
    then consider "a < ?n" | "a = ?n" | "a = Suc ?n" by blast
    then show ?thesis
    proof cases
      case 1
      then have "proc_hist S H (B ! a) a" using assms(1) by (simp add: hist_ok_def)
      then show ?thesis using 1 none by (auto simp: proc_hist_def sd nth_append len procs my_side_def split: if_splits)
    qed (simp_all add: proc_hist_def sd nth_append len procs two stream_bytes_def new_proc_def my_side_def)
  qed
  moreover have "\<forall>k w r'. sides ?S k = Some (w, r') \<longrightarrow> w < length B + 2 \<and> r' < length B + 2 \<and> fst ((B @ replicate 2 (?k, length H)) ! w) = k
      \<and> fst ((B @ replicate 2 (?k, length H)) ! r') = k \<and> pr_isRequest (ts_procs ?S ! w) \<and> \<not> pr_isRequest (ts_procs ?S ! r')"
  proof (intro allI impI)
    fix k w r' assume "sides ?S k = Some (w, r')"
    then consider "k = ?k" "w = ?n" "r' = Suc ?n" | "sides S k = Some (w, r')" unfolding sd by (cases "k = ?k") simp_all
    then show "w < length B + 2 \<and> r' < length B + 2 \<and> fst ((B @ replicate 2 (?k, length H)) ! w) = k
      \<and> fst ((B @ replicate 2 (?k, length H)) ! r') = k \<and> pr_isRequest (ts_procs ?S ! w) \<and> \<not> pr_isRequest (ts_procs ?S ! r')"
    proof cases
      case 1
      then show ?thesis by (simp add: nth_append len procs two new_proc_def)
    next
      case 2
      then have "w < ?n" "r' < ?n" "fst (B ! w) = k" "fst (B ! r') = k" "pr_isRequest (ts_procs S ! w)" "\<not> pr_isRequest (ts_procs S ! r')"
        using hist_sides [OF assms(1)] len by auto
      then show ?thesis by (simp add: nth_append len procs)
    qed
  qed
  ultimately show ?thesis by (simp add: hist_ok_def len procs)
qed

lemma hist_push:
  assumes "hist_ok S H B" "\<not> tr_Lagged r" "sides S (ConnectionKey r) = Some (w, x)" "a = (if tr_Direction r = TLSDirWrite then w else x)"
    "tr_Direction r = TLSDirWrite \<or> tr_Direction r = TLSDirRead"
  shows "hist_ok (push_to (tr_Data r) a S) (H @ [Handled False r]) B"
proof -
  let ?S = "push_to (tr_Data r) a S" and ?e = "Handled False r" and ?k = "ConnectionKey r"
  obtain c b' where cb: "push (tr_Data r) (pr_pipe (ts_procs S ! a)) (ts_budget S) = (c, b')" by fastforce
  have procs: "ts_procs ?S = (ts_procs S)[a := (ts_procs S ! a)\<lparr>pr_pipe := c, pr_sent := pr_sent (ts_procs S ! a) @ tr_Data r\<rparr>]"
    and sd: "sides ?S = sides S" by (simp_all add: push_to_def Let_def cb sides_def fun_eq_iff)
  have len: "length B = length (ts_procs S)" using assms(1) by (simp add: hist_ok_def)
  have "w < length B \<and> x < length B \<and> fst (B ! w) = ?k \<and> fst (B ! x) = ?k \<and> pr_isRequest (ts_procs S ! w) \<and> \<not> pr_isRequest (ts_procs S ! x)"
    by (rule hist_sides [OF assms(1,3)])
  then have a: "a < length (ts_procs S)" "fst (B ! a) = ?k" "pr_isRequest (ts_procs S ! a) \<longleftrightarrow> tr_Direction r = TLSDirWrite"
    using assms(4) len by auto
  have req: "pr_isRequest (ts_procs ?S ! i) = pr_isRequest (ts_procs S ! i)" for i using a(1) by (cases "i = a") (simp_all add: procs)
  have nostop: "\<not> stops k ?e" for k using assms(2) by (simp add: stops_def)
  have "proc_hist ?S (H @ [?e]) (B ! i) i" if i: "i < length B" for i
  proof -
    let ?p = "ts_procs S ! i" and ?L = "drop (snd (B ! i)) H"
    have old: "proc_hist S H (B ! i) i" using assms(1) i by (simp add: hist_ok_def)
    have same: "proc_dir (ts_procs ?S ! i) = proc_dir ?p" "my_side (ts_procs ?S ! i) = my_side ?p"
      using req [of i] by (auto simp: proc_dir_def my_side_def)
    have "pr_sent (ts_procs ?S ! i) = pr_sent ?p @ (if still_open (fst (B ! i)) ?L then data_of (fst (B ! i)) (proc_dir ?p) ?e else [])"
    proof (cases "i = a")
      case True
      then have "still_open (fst (B ! i)) ?L" using old assms(3,4) a(2,3) by (auto simp: proc_hist_def my_side_def)
      moreover have "data_of (fst (B ! i)) (proc_dir ?p) ?e = tr_Data r" using True a(2,3) assms(5) by (auto simp: data_of_def proc_dir_def)
      ultimately show ?thesis using True a(1) by (simp add: procs)
    next
      case False
      have "data_of (fst (B ! i)) (proc_dir ?p) ?e = []" if "still_open (fst (B ! i)) ?L"
      proof (cases "fst (B ! i) = ?k")
        case True
        then have "i = my_side ?p (w, x)" using old that assms(3) by (auto simp: proc_hist_def)
        then have "proc_dir ?p \<noteq> tr_Direction r" using False assms(4,5) by (auto simp: my_side_def proc_dir_def split: if_splits)
        then show ?thesis by (simp add: data_of_def)
      qed (simp add: data_of_def)
      then show ?thesis using False by (simp add: procs)
    qed
    then show ?thesis using old nostop by (auto simp: proc_hist_def same sd stream_snoc)
  qed
  moreover have "\<forall>k u v. sides ?S k = Some (u, v) \<longrightarrow> u < length B \<and> v < length B \<and> fst (B ! u) = k \<and> fst (B ! v) = k
      \<and> pr_isRequest (ts_procs ?S ! u) \<and> \<not> pr_isRequest (ts_procs ?S ! v)"
    unfolding sd req using hist_sides [OF assms(1)] by blast
  ultimately show ?thesis by (simp add: hist_ok_def len procs)
qed

lemma touch_sides: "sides (tls_touch k now S) = sides S"
proof -
  have "map_option (\<lambda>st. (st_write st, st_read st)) (map_of (map (\<lambda>(k', st). (k', if k' = k then st\<lparr>st_lastSeen := now\<rparr> else st)) sts) x)
      = map_option (\<lambda>st. (st_write st, st_read st)) (map_of sts x)" for sts x
    by (induction sts) auto
  then show ?thesis by (intro ext) (simp add: sides_def tls_touch_def)
qed

lemma hist_fed:
  assumes "hist_ok S H B" "\<not> tr_Lagged r" "map_of (ts_streams S) (ConnectionKey r) = Some st"
  shows "hist_ok (tls_fed r now S) (H @ [Handled False r]) B"
proof -
  let ?S = "tls_touch (ConnectionKey r) now S"
  have procs: "ts_procs ?S = ts_procs S" by (simp add: tls_touch_def)
  have ok: "hist_ok ?S H B" by (rule hist_same [OF assms(1)]) (simp_all add: procs touch_sides)
  have sd: "sides ?S (ConnectionKey r) = Some (st_write st, st_read st)" using assms(3) by (simp add: touch_sides) (simp add: sides_def)
  have fed: "tls_fed r now S = feed r st ?S" by (simp add: tls_fed_def assms(3))
  show ?thesis
  proof (cases "tr_Data r \<noteq> [] \<and> (tr_Direction r = TLSDirWrite \<or> tr_Direction r = TLSDirRead)")
    case True
    then show ?thesis using hist_push [OF ok assms(2) sd refl] by (auto simp: fed feed_def)
  next
    case False
    then have "feed r st ?S = ?S" by (auto simp: feed_def)
    moreover have "hist_ok ?S (H @ [Handled False r]) B"
    proof (rule hist_event [OF ok])
      fix k d assume d: "d \<in> {TLSDirWrite, TLSDirRead}"
      show "stops k (Handled False r) \<or> data_of k d (Handled False r) = [] \<or> sides ?S k = None"
        using False d by (auto simp: data_of_def)
    next
      fix k
      show "sides ?S k = (if stops k (Handled False r) then None else sides ?S k)" using assms(2) by (simp add: stops_def)
    qed simp_all
    ultimately show ?thesis by (simp add: fed)
  qed
qed

lemma close_streams_same:
  "length (ts_procs (fold (close_stream \<circ> snd) sts S)) = length (ts_procs S)
   \<and> pr_sent (ts_procs (fold (close_stream \<circ> snd) sts S) ! a) = pr_sent (ts_procs S ! a)
   \<and> pr_isRequest (ts_procs (fold (close_stream \<circ> snd) sts S) ! a) = pr_isRequest (ts_procs S ! a)"
proof (induction sts arbitrary: S)
  case (Cons x sts)
  have one: "length (ts_procs (close_pipe i T)) = length (ts_procs T) \<and> pr_sent (ts_procs (close_pipe i T) ! a) = pr_sent (ts_procs T ! a)
      \<and> pr_isRequest (ts_procs (close_pipe i T) ! a) = pr_isRequest (ts_procs T ! a)" for i T
    by (cases "i < length (ts_procs T)"; cases "i = a") (simp_all add: close_pipe_def list_update_beyond)
  show ?case using Cons [of "close_stream (snd x) S"] one [of "st_write (snd x)" S] one [of "st_read (snd x)" "close_pipe (st_write (snd x)) S"]
    by (simp add: close_stream_def)
qed simp

lemma sides_filtered:
  assumes "ts_streams S' = filter P (ts_streams S)" "distinct (map fst (ts_streams S))"
  shows "sides S' k = (if stops k (closed_keys S S') then None else sides S k)"
proof -
  have "map_of (filter P sts) k = map_of sts k" if "distinct (map fst sts)" "k \<in> fst ` set (filter P sts)" for sts
  proof -
    from that(2) obtain v where v: "(k, v) \<in> set (filter P sts)" by force
    then have "map_of sts k = Some v" using that(1) by simp
    moreover have "map_of (filter P sts) k = Some v" using v by (intro map_of_is_SomeI distinct_map_filter [OF that(1)])
    ultimately show ?thesis by simp
  qed
  from this [OF assms(2)] have "k \<in> fst ` set (ts_streams S') \<Longrightarrow> map_of (ts_streams S') k = map_of (ts_streams S) k" by (simp add: assms(1))
  moreover have "k \<notin> fst ` set (ts_streams S') \<Longrightarrow> map_of (ts_streams S') k = None" by (simp add: map_of_eq_None_iff)
  moreover have "k \<notin> fst ` set (ts_streams S) \<Longrightarrow> map_of (ts_streams S) k = None" by (simp add: map_of_eq_None_iff)
  moreover have "stops k (closed_keys S S') \<longleftrightarrow> k \<in> fst ` set (ts_streams S) \<and> k \<notin> fst ` set (ts_streams S')"
    by (auto simp: closed_keys_def stops_def stream_keys_def)
  ultimately show ?thesis by (cases "k \<in> fst ` set (ts_streams S')"; cases "k \<in> fst ` set (ts_streams S)") (simp_all add: sides_def)
qed

lemma hist_sweep:
  assumes "hist_ok S H B" "distinct (map fst (ts_streams S))" "ts_streams S' = filter P (ts_streams S)"
    "ts_procs S' = ts_procs (fold (close_stream \<circ> snd) sts S)"
  shows "hist_ok S' (H @ [closed_keys S S']) B"
proof (rule hist_event [OF assms(1)])
  show "sides S' k = (if stops k (closed_keys S S') then None else sides S k)" for k by (rule sides_filtered [OF assms(3,2)])
  show "stops k (closed_keys S S') \<or> data_of k d (closed_keys S S') = [] \<or> sides S k = None" for k d by (simp add: closed_keys_def data_of_def)
qed (simp_all add: assms(4) close_streams_same)

lemma procs_fed: "length (ts_procs (tls_fed r now S)) = length (ts_procs S)"
proof -
  have "length (ts_procs (push_to d a S)) = length (ts_procs S)" for d a S by (simp add: push_to_def Let_def split: prod.split)
  then show ?thesis by (simp add: tls_fed_def feed_def tls_touch_def split: option.split)
qed

lemma hist_record:
  assumes "hist_ok S H B" "S' = tls_record limit paused now r S"
  shows "hist_ok S' (H @ [Handled paused r]) (B @ replicate (length (ts_procs S') - length (ts_procs S)) (ConnectionKey r, length H))"
proof -
  let ?k = "ConnectionKey r" and ?e = "Handled paused r"
  consider (lag) "tr_Lagged r" | (pause) "\<not> tr_Lagged r" "paused"
    | (full) "\<not> tr_Lagged r" "\<not> paused" "map_of (ts_streams S) ?k = None" "length (ts_streams S) \<ge> limit"
    | (new) "\<not> tr_Lagged r" "\<not> paused" "map_of (ts_streams S) ?k = None" "length (ts_streams S) < limit"
    | (old) st where "\<not> tr_Lagged r" "\<not> paused" "map_of (ts_streams S) ?k = Some st"
    by (cases "map_of (ts_streams S) ?k") force+
  then show ?thesis
  proof cases
    case lag
    have s: "S' = tls_lagged ?k S" using lag by (simp add: assms(2) tls_record_def Let_def)
    have "length (ts_procs S') = length (ts_procs S) \<and> pr_sent (ts_procs S' ! a) = pr_sent (ts_procs S ! a)
        \<and> pr_isRequest (ts_procs S' ! a) = pr_isRequest (ts_procs S ! a)" for a
      using close_streams_same [of "[(?k, st)]" S a for st] by (simp add: s tls_lagged_def split: option.split)
    moreover have "sides S' k = (if stops k ?e then None else sides S k)" for k
      using lag by (auto simp: s tls_lagged_def sides_def stops_def AList.delete_conv' split: option.split)
    moreover have "stops k ?e \<or> data_of k d ?e = [] \<or> sides S k = None" for k d using lag by (simp add: stops_def data_of_def)
    ultimately show ?thesis using hist_event [OF assms(1), of S' ?e] by simp
  next
    case pause
    then have s: "S' = S" by (simp add: assms(2) tls_record_def Let_def)
    have "hist_ok S (H @ [?e]) B" using pause by (intro hist_event [OF assms(1)]) (simp_all add: stops_def data_of_def)
    then show ?thesis by (simp add: s)
  next
    case full
    then have s: "ts_procs S' = ts_procs S" "ts_streams S' = ts_streams S" by (simp_all add: assms(2) tls_record_def Let_def)
    have "hist_ok S' (H @ [?e]) B"
      using full by (intro hist_event [OF assms(1)]) (auto simp: stops_def data_of_def s sides_def)
    then show ?thesis by (simp add: s)
  next
    case new
    let ?N = "newTLSStream r now S"
    have s: "S' = tls_fed r now ?N" using new by (simp add: assms(2) tls_record_def Let_def)
    have "length (ts_procs ?N) = length (ts_procs S) + 2" by (simp add: newTLSStream_def Let_def)
    moreover obtain st where "map_of (ts_streams ?N) ?k = Some st" by (simp add: newTLSStream_def Let_def AList.update_conv')
    ultimately show ?thesis using hist_fed [OF hist_new [OF assms(1) new(3)] new(1)] new(2) by (simp add: s procs_fed)
  next
    case (old st)
    then have s: "S' = tls_fed r now S" by (simp add: assms(2) tls_record_def Let_def)
    show ?thesis using hist_fed [OF assms(1) old(1,3)] old(2) by (simp add: s procs_fed)
  qed
qed

lemma history_ok:
  assumes "tls_history limit (newTLSByteBudget n) S H B"
  shows "hist_ok S H B"
  using assms
proof (induction rule: tls_history.induct)
  case start
  then show ?case by (simp add: hist_ok_def tls_start_def sides_def)
next
  case (handled S H B S' paused now r)
  then show ?case using hist_record [OF handled.IH handled(3)] by simp
next
  case (swept S H B now)
  have "distinct (map fst (ts_streams S))" using reachable_inv [OF history_run [OF swept(1)]] by (simp add: tls_inv_def)
  then show ?case by (rule hist_sweep [OF swept.IH]) (simp_all add: tls_gc_def Let_def)
next
  case (ended S H B)
  have "distinct (map fst (ts_streams S))" using reachable_inv [OF history_run [OF ended(1)]] by (simp add: tls_inv_def)
  then show ?case by (rule hist_sweep [OF ended.IH, where P = "\<lambda>_. False"]) (simp_all add: closeAll_def)
next
  case (read S H B a m choice S')
  obtain p b where "S' = S\<lparr>ts_procs := (ts_procs S)[a := p], ts_budget := b\<rparr>" "pr_sent p = pr_sent (ts_procs S ! a)"
      "pr_isRequest p = pr_isRequest (ts_procs S ! a)"
    using read(3) by (auto simp: tls_read_def Let_def split: option.splits)
  then show ?case using read(2) by (intro hist_same [OF read.IH]) (auto simp: nth_list_update sides_def)
next
  case (again S H B a)
  show ?case using again(2) by (intro hist_same [OF again.IH]) (auto simp: nth_list_update sides_def)
next
  case (discard S H B a)
  show ?case using discard(2)
    by (intro hist_same [OF discard.IH]) (auto simp: nth_list_update sides_def tls_discard_def Let_def pipe_discard_def)
qed

lemma procs_new:
  assumes "length (ts_procs (tls_record limit paused now r S)) \<noteq> length (ts_procs S)"
  shows "\<not> paused"
proof
  assume "paused"
  moreover have "length (ts_procs (tls_lagged k S)) = length (ts_procs S)" for k
    by (simp add: tls_lagged_def close_stream_def close_pipe_def split: option.split)
  ultimately show False using assms by (simp add: tls_record_def Let_def split: if_splits)
qed

lemma history_births:
  assumes "tls_history limit (newTLSByteBudget n) S H B" "(k, i) \<in> set B"
  shows "\<exists>r. i < length H \<and> H ! i = Handled False r \<and> ConnectionKey r = k"
  using assms
proof (induction rule: tls_history.induct)
  case (handled S H B S' paused now r)
  show ?case
  proof (cases "(k, i) \<in> set B")
    case True
    then show ?thesis using handled.IH by (auto simp: nth_append less_Suc_eq)
  next
    case False
    then have new: "k = ConnectionKey r" "i = length H" "length (ts_procs S') \<noteq> length (ts_procs S)" using handled.prems by auto
    then have "\<not> paused" using procs_new handled(3) by blast
    then show ?thesis using new by simp
  qed
qed (auto simp: nth_append less_Suc_eq)

text \<open>C7: Each dissector, of the write or the read side of a connection, started by a record of that connection: what it has read is always a beginning of
  the data of the connection's records of its direction, in the order they were captured, from that record on until the connection loses data or its stream is closed,
  leaving out the records handled while capture was paused; and when nothing pushed into its pipe was refused (it does not lag), it sees the end of
  the stream only after all of that.\<close>

theorem tls_streams_without_holes:
  assumes "tls_history limit (newTLSByteBudget n) S H B" "a < length (ts_procs S)" "B ! a = (k, i)"
  shows "(\<exists>r. i < length H \<and> H ! i = Handled False r \<and> ConnectionKey r = k) \<and>
   (let p = ts_procs S ! a; sent = stream_bytes k (if pr_isRequest p then TLSDirWrite else TLSDirRead) (drop i H) in
    prefix (pr_got p) sent \<and> (pr_pc p = REof \<longrightarrow> \<not> cp_lagged (pr_pipe p) \<longrightarrow> pr_got p = sent))"
proof -
  let ?p = "ts_procs S ! a"
  have "length B = length (ts_procs S)" using history_ok [OF assms(1)] by (simp add: hist_ok_def)
  then have "(k, i) \<in> set B" using assms(2,3) by (metis nth_mem)
  note birth = history_births [OF assms(1) this]
  have "proc_hist S H (B ! a) a" using history_ok [OF assms(1)] assms(2) by (simp add: hist_ok_def)
  then have sent: "pr_sent ?p = stream_bytes k (if pr_isRequest ?p then TLSDirWrite else TLSDirRead) (drop i H)"
    using assms(3) by (simp add: proc_hist_def proc_dir_def)
  have ok: "proc_ok ?p" using reachable_inv [OF history_run [OF assms(1)]] assms(2) by (simp add: tls_inv_def)
  then have "prefix (pr_got ?p) (kept ?p)" "prefix (kept ?p) (pr_sent ?p)" by (simp_all add: kept_def proc_ok_def)
  then have "prefix (pr_got ?p) (pr_sent ?p)" by (rule prefix_order.trans)
  moreover have "pr_got ?p = pr_sent ?p" if "pr_pc ?p = REof" "\<not> cp_lagged (pr_pipe ?p)"
    using ok that by (auto simp: proc_ok_def pc_ok_def kept_def)
  ultimately show ?thesis using birth unfolding Let_def sent [symmetric] by blast
qed

subsection \<open>The end of a stream\<close>

text \<open>The steps a reader makes when it calls \<open>Read\<close> with the given sizes and the select chooses as given; it stops where \<open>Read\<close> returned the
  end, or waits.\<close>

fun read_until :: "(nat \<times> bool) list \<Rightarrow> reader_pc \<Rightarrow> chanPipe \<Rightarrow> tlsByteBudget \<Rightarrow> reader_pc \<times> bytes" where
  "read_until [] pc c b = (pc, [])"
| "read_until ((n, choice) # cs) pc c b =
     (case pipe_Read n choice pc c b of None \<Rightarrow> (pc, [])
      | Some (pc1, d, c1, b1) \<Rightarrow> (case read_until cs pc1 c1 b1 of (pc2, ds) \<Rightarrow> (pc2, d @ ds)))"

fun pc_rank :: "reader_pc \<Rightarrow> nat" where
  "pc_rank RIdle = 4" | "pc_rank RPolled = 3" | "pc_rank RWaiting = 2" | "pc_rank RClosed = 1" | "pc_rank _ = 0"

definition steps_left :: "reader_pc \<Rightarrow> chanPipe \<Rightarrow> nat" where
  "steps_left pc c = pc_rank pc + length (cp_buf c) + (\<Sum>d \<leftarrow> cp_ch c. length d + 5)"

lemma read_progress:
  assumes "cp_done c" "pc \<noteq> REof" "pc \<noteq> RGone" "0 < n" "pc \<noteq> RIdle \<longrightarrow> cp_buf c = []"
  shows "\<exists>pc' d c' b'. pipe_Read n choice pc c b = Some (pc', d, c', b') \<and> steps_left pc' c' < steps_left pc c \<and> cp_done c' \<and> cp_lagged c' = cp_lagged c
    \<and> (pc' \<noteq> RIdle \<longrightarrow> cp_buf c' = []) \<and> d @ cp_buf c' @ concat (cp_ch c') = cp_buf c @ concat (cp_ch c) \<and> pc' \<noteq> RGone
    \<and> (pc' = REof \<longrightarrow> cp_lagged c' \<or> cp_ch c' = [])"
proof -
  have buf: ?thesis if "pc = RIdle" "cp_buf c \<noteq> []"
    using that assms(1,4) by (auto simp: read_buf_def Let_def min_def steps_left_def)
  have recv: "pipe_Read n choice pc c b = Some (RIdle, [], pipe_recv c, b) \<Longrightarrow> cp_ch c \<noteq> [] \<Longrightarrow> cp_buf c = [] \<Longrightarrow> ?thesis"
    using assms(1) by (cases "cp_ch c"; cases pc) (auto simp: pipe_recv_def steps_left_def split: if_splits)
  show ?thesis
  proof (cases "cp_ch c = []")
    case True
    then show ?thesis using assms buf by (cases pc; cases "cp_buf c = []") (auto simp: steps_left_def)
  next
    case False
    then show ?thesis using assms buf recv by (cases pc; cases "cp_buf c = []"; cases choice) (auto simp: steps_left_def)
  qed
qed

lemma closed_run:
  assumes "cp_done c" "pc \<noteq> RGone" "pc \<noteq> RIdle \<longrightarrow> cp_buf c = []" "pc = REof \<longrightarrow> cp_lagged c \<or> cp_ch c = []"
    "\<forall>x \<in> set cs. 0 < fst x" "steps_left pc c \<le> length cs"
  shows "fst (read_until cs pc c b) = REof \<and> (\<not> cp_lagged c \<longrightarrow> snd (read_until cs pc c b) = cp_buf c @ concat (cp_ch c))"
  using assms
proof (induction cs arbitrary: pc c b)
  case Nil
  then have "pc = REof" by (cases pc) (simp_all add: steps_left_def)
  then show ?case using Nil by auto
next
  case (Cons x cs)
  obtain n choice where x: "x = (n, choice)" by (cases x)
  show ?case
  proof (cases "pc = REof")
    case False
    obtain pc' d c' b' where st: "pipe_Read n choice pc c b = Some (pc', d, c', b')" "steps_left pc' c' < steps_left pc c" "cp_done c'"
        "cp_lagged c' = cp_lagged c" "pc' \<noteq> RIdle \<longrightarrow> cp_buf c' = []" "d @ cp_buf c' @ concat (cp_ch c') = cp_buf c @ concat (cp_ch c)" "pc' \<noteq> RGone"
        "pc' = REof \<longrightarrow> cp_lagged c' \<or> cp_ch c' = []"
      using read_progress [of c pc n choice b] Cons.prems False x by auto
    have "fst (read_until cs pc' c' b') = REof \<and> (\<not> cp_lagged c' \<longrightarrow> snd (read_until cs pc' c' b') = cp_buf c' @ concat (cp_ch c'))"
      using Cons.prems st x by (intro Cons.IH) auto
    then show ?thesis using st x by (auto split: prod.split)
  qed (use Cons.prems x in auto)
qed

text \<open>C38: Once a pipe is closed, by the end of the capture, the idle sweep, a loss or a full budget, its reader is never left waiting: at whatever point
  of \<open>Read\<close> it is, it reaches the end of the stream within a number of steps bounded by the bytes it still holds; and when nothing pushed into it was
  refused (it does not lag), it has by then returned every byte that was pushed.\<close>

theorem closed_stream_ends:
  assumes "consumeTLSBounded limit (newTLSByteBudget n) S" "p \<in> set (ts_procs S)" "cp_done (pr_pipe p)" "pr_pc p \<noteq> RGone"
    "\<forall>x \<in> set cs. 0 < fst x" "length cs \<ge> steps_left (pr_pc p) (pr_pipe p)"
  shows "fst (read_until cs (pr_pc p) (pr_pipe p) b) = REof
    \<and> (\<not> cp_lagged (pr_pipe p) \<longrightarrow> pr_got p @ snd (read_until cs (pr_pc p) (pr_pipe p) b) = pr_sent p)"
proof -
  have ok: "proc_ok p" using reachable_inv [OF assms(1)] assms(2) by (simp add: tls_inv_def)
  then have "pr_pc p \<noteq> RIdle \<longrightarrow> cp_buf (pr_pipe p) = []" "pr_pc p = REof \<longrightarrow> cp_lagged (pr_pipe p) \<or> cp_ch (pr_pipe p) = []"
    by (auto simp: proc_ok_def pc_ok_def split: reader_pc.splits)
  from closed_run [OF assms(3,4) this assms(5,6)] show ?thesis using ok assms(4) by (simp add: proc_ok_def kept_def)
qed

subsection \<open>A run\<close>

definition some_record :: "TLSDirection \<Rightarrow> bytes \<Rightarrow> TLSRecord" where
  "some_record dir d = \<lparr>tr_PID = 7, tr_TID = 7, tr_ConnID = 4096, tr_Direction = dir, tr_SrcIP = [], tr_DstIP = [], tr_SrcPort = 0, tr_DstPort = 0,
     tr_Data = d, tr_Lagged = False\<rparr>"

definition at_pc :: "reader_pc \<Rightarrow> bytes list \<Rightarrow> bool \<Rightarrow> bytes \<Rightarrow> bool \<Rightarrow> reader_proc" where
  "at_pc pc ch lagged sent isRequest =
     (new_proc (stream_conn (some_record TLSDirWrite [])) isRequest)\<lparr>pr_pc := pc, pr_sent := sent,
       pr_pipe := (newChanPipe 64)\<lparr>cp_ch := ch, cp_lagged := lagged, cp_done := lagged\<rparr>\<rparr>"

definition two_procs :: "int \<Rightarrow> int \<Rightarrow> nat \<Rightarrow> reader_proc \<Rightarrow> reader_proc \<Rightarrow> tls_state" where
  "two_procs n used drops p q = \<lparr>ts_procs = [p, q], ts_budget = \<lparr>bg_used = used, bg_limit = n, bg_drops = drops, bg_reported = drops\<rparr>,
     ts_streams = [((7, 4096), \<lparr>st_write = 0, st_read = 1, st_lastSeen = 0\<rparr>)], ts_lagDrops = 0, ts_running = True\<rparr>"

lemmas run_defs = two_procs_def at_pc_def some_record_def new_proc_def newChanPipe_def tls_record_def tls_fed_def tls_touch_def feed_def push_to_def push_def
  reserve_def ConnectionKey_def Let_def stream_conn_def tls_read_def newTLSStream_def tls_start_def newTLSByteBudget_def

lemma run_first: "1 \<le> n \<Longrightarrow> 1 \<le> limit \<Longrightarrow>
    tls_record limit False 0 (some_record TLSDirWrite ''a'') (tls_start (newTLSByteBudget n)) = two_procs n 1 0 (at_pc RIdle [''a''] False ''a'' True) (at_pc RIdle [] False [] False)"
  by (simp add: run_defs)

lemma run_poll: "tls_read 1 1 True (two_procs n u k p (at_pc RIdle [] False [] False)) = Some (two_procs n u k p (at_pc RPolled [] False [] False))"
  by (simp add: run_defs)

lemma run_push: "d \<noteq> [] \<Longrightarrow> u + int (length d) \<le> n \<Longrightarrow>
    tls_record limit False 0 (some_record TLSDirRead d) (two_procs n u k p (at_pc pc [] False [] False)) = two_procs n (u + int (length d)) k p (at_pc pc [d] False d False)"
  by (simp add: run_defs)

lemma run_refuse: "d \<noteq> [] \<Longrightarrow> u + int (length d) > n \<Longrightarrow>
    tls_record limit False 0 (some_record TLSDirRead d) (two_procs n u k p (at_pc pc ch False s False)) = two_procs n u (Suc k) p (at_pc pc ch True (s @ d) False)"
  by (simp add: run_defs)

lemma run_eof: "tls_read 1 1 True (two_procs n u k p (at_pc RPolled ch True s False)) = Some (two_procs n u k p (at_pc REof ch True s False))"
  by (simp add: run_defs)

lemma run_running: "ts_running (two_procs n u k p q)" "length (ts_procs (two_procs n u k p q)) = 2"
  by (simp_all add: two_procs_def)

lemma race_run:
  assumes "2 \<le> n" "1 \<le> limit" "int (length d) = n - 1"
  shows "consumeTLSBounded limit (newTLSByteBudget n) (two_procs n n 1 (at_pc RIdle [''a''] False ''a'' True) (at_pc REof [d] True (d @ ''b'') False))"
proof -
  let ?w = "at_pc RIdle [''a''] False ''a'' True" and ?R = "consumeTLSBounded limit (newTLSByteBudget n)"
  have "ts_running (tls_start (newTLSByteBudget n))" by (simp add: tls_start_def)
  from consumeTLSBounded.step [OF consumeTLSBounded.start record_step [OF this, of limit False 0 "some_record TLSDirWrite ''a''"]]
  have 1: "?R (two_procs n 1 0 ?w (at_pc RIdle [] False [] False))" using assms by (simp add: run_first)
  have 2: "?R (two_procs n 1 0 ?w (at_pc RPolled [] False [] False))"
    by (rule consumeTLSBounded.step [OF 1 read_step [OF _ run_poll]]) (simp add: run_running)
  have "d \<noteq> []" using assms by auto
  then have 3: "?R (two_procs n n 0 ?w (at_pc RPolled [d] False d False))"
    using consumeTLSBounded.step [OF 2 record_step [OF run_running(1), where streamLimit = limit and paused = False and now = 0 and r = "some_record TLSDirRead d"]] run_push [of d 1 n] assms(3) by simp
  have 4: "?R (two_procs n n 1 ?w (at_pc RPolled [d] True (d @ ''b'') False))"
    using consumeTLSBounded.step [OF 3 record_step [OF run_running(1), where streamLimit = limit and paused = False and now = 0 and r = "some_record TLSDirRead ''b''"]] run_refuse [of "''b''" n n] by simp
  show ?thesis by (rule consumeTLSBounded.step [OF 4 read_step [OF _ run_eof]]) (simp add: run_running)
qed

text \<open>The accepted bytes are not always delivered before the end of the stream, though the comment in \<open>Read\<close> says so: for every budget a
  run exists in which a reader finds its channel empty, the writer enqueues a chunk and has the next one refused, and the reader then sees the
  refusal and returns the end of the stream with the accepted chunk still in the channel.\<close>

theorem lag_check_races_with_push:
  assumes "2 \<le> n" "1 \<le> limit"
  shows "\<exists>S p d. consumeTLSBounded limit (newTLSByteBudget n) S \<and> p \<in> set (ts_procs S) \<and> pr_pc p = REof \<and> pr_got p = [] \<and> cp_ch (pr_pipe p) = [d] \<and> d \<noteq> []"
proof -
  let ?d = "replicate (nat (n - 1)) (CHR ''x'')"
  have "int (length ?d) = n - 1" "?d \<noteq> []" using assms(1) by auto
  with race_run [OF assms, of ?d] show ?thesis
    by (intro exI [of _ "two_procs n n 1 (at_pc RIdle [''a''] False ''a'' True) (at_pc REof [?d] True (?d @ ''b'') False)"]
        exI [of _ "at_pc REof [?d] True (?d @ ''b'') False"] exI [of _ ?d]) (simp_all add: two_procs_def at_pc_def new_proc_def)
qed

theorem lag_check_races_with_push_witness:
  "\<exists>S p d. consumeTLSBounded maxTLSStreams (newTLSByteBudget maxTLSQueuedBytes) S \<and> p \<in> set (ts_procs S) \<and> pr_pc p = REof \<and> pr_got p = []
    \<and> cp_ch (pr_pipe p) = [d] \<and> d \<noteq> []"
  by (rule lag_check_races_with_push) (simp_all add: maxTLSQueuedBytes_def maxTLSStreams_def)

lemma some_run:
  "consumeTLSBounded 4 (newTLSByteBudget 3) (two_procs 3 3 1 (at_pc RIdle [''a''] False ''a'' True) (at_pc REof [''xx''] True ''xxb'' False))"
  using race_run [of 3 4 "''xx''"] by simp

theorem tls_budget_held_witness:
  "held_bytes (two_procs 3 3 1 (at_pc RIdle [''a''] False ''a'' True) (at_pc REof [''xx''] True ''xxb'' False)) \<le> 3"
  using tls_budget_held [OF some_run] by simp

text \<open>Two chunks of a connection with one between them that is dropped because capture is paused: the stream stays open, unlike after any other loss,
  and its dissector reads the two as if they were adjacent.\<close>

definition paused_run :: tls_state where
  "paused_run = tls_record 4 False 0 (some_record TLSDirWrite ''c'') (tls_record 4 True 0 (some_record TLSDirWrite ''b'')
     (tls_record 4 False 0 (some_record TLSDirWrite ''a'') (tls_start (newTLSByteBudget 9))))"

definition paused_history :: "tls_event list" where
  "paused_history = [Handled False (some_record TLSDirWrite ''a''), Handled True (some_record TLSDirWrite ''b''), Handled False (some_record TLSDirWrite ''c'')]"

definition read_all :: tls_state where
  "read_all = the (tls_read 0 1 True (the (tls_read 0 1 True (the (tls_read 0 1 True (the (tls_read 0 1 True paused_run)))))))"

lemma paused_history_run: "tls_history 4 (newTLSByteBudget 9) read_all paused_history [((7, 4096), 0), ((7, 4096), 0)]"
proof -
  let ?S1 = "tls_record 4 False 0 (some_record TLSDirWrite ''a'') (tls_start (newTLSByteBudget 9))"
  let ?S2 = "tls_record 4 True 0 (some_record TLSDirWrite ''b'') ?S1"
  let ?H = "tls_history 4 (newTLSByteBudget 9)"
  note defs = run_defs pipe_recv_def read_buf_def release_def
  have up: "ts_running (tls_start (newTLSByteBudget 9))" "ts_running ?S1" "ts_running ?S2" by (simp_all add: defs)
  have n: "length (ts_procs (tls_start (newTLSByteBudget 9))) = 0" "length (ts_procs ?S1) = 2" "length (ts_procs ?S2) = 2" "length (ts_procs paused_run) = 2"
    by (simp_all add: defs paused_run_def)
  have k: "ConnectionKey (some_record d x) = (7, 4096)" for d x by (simp add: some_record_def ConnectionKey_def)
  have two: "replicate 2 x = [x, x]" for x :: "TLSConnKey \<times> nat" by (simp add: numeral_2_eq_2)
  have 1: "?H ?S1 [Handled False (some_record TLSDirWrite ''a'')] [((7, 4096), 0), ((7, 4096), 0)]"
    using tls_history.handled [OF tls_history.start up(1) refl, where limit = 4 and paused = False and now = 0 and r = "some_record TLSDirWrite ''a''"] by (simp add: n k two)
  have 2: "?H ?S2 [Handled False (some_record TLSDirWrite ''a''), Handled True (some_record TLSDirWrite ''b'')] [((7, 4096), 0), ((7, 4096), 0)]"
    using tls_history.handled [OF 1 up(2) refl, where paused = True and now = 0 and r = "some_record TLSDirWrite ''b''"] by (simp add: n)
  have 3: "?H paused_run paused_history [((7, 4096), 0), ((7, 4096), 0)]"
    using tls_history.handled [OF 2 up(3) refl, where paused = False and now = 0 and r = "some_record TLSDirWrite ''c''"] by (simp add: n paused_history_def paused_run_def [symmetric])
  obtain R1 where r1: "tls_read 0 1 True paused_run = Some R1" "length (ts_procs R1) = 2" by (simp add: defs paused_run_def)
  obtain R2 where r2: "tls_read 0 1 True R1 = Some R2" "length (ts_procs R2) = 2" using r1 by (auto simp: defs paused_run_def)
  obtain R3 where r3: "tls_read 0 1 True R2 = Some R3" "length (ts_procs R3) = 2" using r1 r2 by (auto simp: defs paused_run_def)
  obtain R4 where r4: "tls_read 0 1 True R3 = Some R4" using r1 r2 r3 by (auto simp: defs paused_run_def)
  have "?H R4 paused_history [((7, 4096), 0), ((7, 4096), 0)]"
    by (rule tls_history.read [OF tls_history.read [OF tls_history.read [OF tls_history.read [OF 3 _ r1(1)] _ r2(1)] _ r3(1)] _ r4]) (simp_all add: n r1 r2 r3)
  then show ?thesis by (simp only: read_all_def r1(1) r2(1) r3(1) r4 option.sel)
qed

theorem pause_leaves_a_hole:
  "\<exists>S H. tls_history 4 (newTLSByteBudget 9) S H [((7, 4096), 0), ((7, 4096), 0)] \<and> pr_got (ts_procs S ! 0) = ''ac''
     \<and> concat (map (\<lambda>e. case e of Handled p r \<Rightarrow> tr_Data r | Closed ks \<Rightarrow> []) H) = ''abc'' \<and> stream_keys S = [(7, 4096)]"
proof -
  have "pr_got (ts_procs read_all ! 0) = ''ac''" "stream_keys read_all = [(7, 4096)]"
    by (simp_all add: read_all_def paused_run_def run_defs pipe_recv_def read_buf_def release_def stream_keys_def)
  moreover have "concat (map (\<lambda>e. case e of Handled p r \<Rightarrow> tr_Data r | Closed ks \<Rightarrow> []) paused_history) = ''abc''"
    by (simp add: paused_history_def some_record_def)
  ultimately show ?thesis using paused_history_run by blast
qed

theorem tls_streams_without_holes_witness: "prefix (pr_got (ts_procs read_all ! 0)) ''ac'' \<and> pr_got (ts_procs read_all ! 0) \<noteq> []"
proof -
  have "0 < length (ts_procs read_all)" "pr_isRequest (ts_procs read_all ! 0)" "pr_got (ts_procs read_all ! 0) \<noteq> []"
    by (simp_all add: read_all_def paused_run_def run_defs pipe_recv_def read_buf_def release_def)
  moreover have "stream_bytes (7, 4096) TLSDirWrite paused_history = ''ac''"
    by (simp add: stream_bytes_def paused_history_def stops_def data_of_def some_record_def ConnectionKey_def)
  ultimately show ?thesis using tls_streams_without_holes [OF paused_history_run, of 0 "(7, 4096)" 0] by (simp add: Let_def)
qed

theorem closed_stream_ends_witness:
  "fst (read_until (replicate 20 (1, True)) RIdle ((newChanPipe 64)\<lparr>cp_ch := [''a''], cp_done := True\<rparr>) (newTLSByteBudget 3)) = REof
    \<and> snd (read_until (replicate 20 (1, True)) RIdle ((newChanPipe 64)\<lparr>cp_ch := [''a''], cp_done := True\<rparr>) (newTLSByteBudget 3)) = ''a''"
proof -
  let ?S = "two_procs 3 3 1 (at_pc RIdle [''a''] False ''a'' True) (at_pc REof [''xx''] True ''xxb'' False)"
  let ?p = "(at_pc RIdle [''a''] False ''a'' True)\<lparr>pr_pipe := (newChanPipe 64)\<lparr>cp_ch := [''a''], cp_done := True\<rparr>\<rparr>"
  have run: "consumeTLSBounded 4 (newTLSByteBudget 3) (closeAll ?S)"
    by (rule consumeTLSBounded.step [OF some_run end_step]) (simp add: two_procs_def)
  have "?p \<in> set (ts_procs (closeAll ?S))"
    by (simp add: closeAll_def close_stream_def close_pipe_def two_procs_def at_pc_def pipe_Close_def newChanPipe_def)
  from closed_stream_ends [OF run this, of "replicate 20 (1, True)" "newTLSByteBudget 3"] show ?thesis
    by (simp add: at_pc_def new_proc_def newChanPipe_def steps_left_def)
qed

subsection \<open>The choice of a dissector by content\<close>

definition isPGTypeByte :: "char \<Rightarrow> bool" where
  "isPGTypeByte b \<longleftrightarrow> b \<in> set ''QPBEDCSXRKZTIN''"

definition pgRole :: "char \<Rightarrow> bool option" where
  "pgRole b = (if b \<in> set ''QPBX'' then Some True else if b \<in> set ''RKZTIN'' then Some False else None)"

definition pg_untyped :: "bytes \<Rightarrow> bool" where
  "pg_untyped b \<longleftrightarrow> length b \<ge> 8 \<and> byte (b ! 0) = 0 \<and> be32 (drop 4 b) \<in> {196608, 80877103, 80877102}"

definition sniffTLS :: "bytes \<Rightarrow> bool \<Rightarrow> string \<times> bool" where
  "sniffTLS br dirHint =
     (if take 4 br = ''AMQP'' then (ProtocolAMQP, True)
      else let b = take 8 br in
        if pg_untyped b then (ProtocolPostgres, True)
        else if length b \<ge> 2 \<and> isPGTypeByte (b ! 0) \<and> byte (b ! 1) = 0 then
          (ProtocolPostgres, (case pgRole (b ! 0) of Some role \<Rightarrow> role | None \<Rightarrow> dirHint))
        else if length b \<ge> 2 \<and> b ! 0 = CHR ''*'' then (ProtocolRedis, True)
        else if length b \<ge> 2 \<and> b ! 0 \<in> set ''+-:'' then (ProtocolRedis, False)
        else if length b \<ge> 2 \<and> b ! 0 \<in> set ''$>~%_#,(='' then (ProtocolRedis, dirHint)
        else (ProtocolHTTP, dirHint))"

datatype sniffed = SPostgres bool | SRedis bool | SAMQP bool | SHTTP

definition consumeSniffedID :: "bytes \<Rightarrow> bool \<Rightarrow> sniffed" where
  "consumeSniffedID br isRequest =
     (case sniffTLS br isRequest of (proto, req) \<Rightarrow>
        if proto = ProtocolPostgres then SPostgres req
        else if proto = ProtocolRedis then SRedis req
        else if proto = ProtocolAMQP then SAMQP req
        else SHTTP)"

lemmas sniff_defs = consumeSniffedID_def sniffTLS_def pg_untyped_def isPGTypeByte_def pgRole_def ProtocolPostgres_def ProtocolRedis_def ProtocolAMQP_def ProtocolHTTP_def

lemma be_bytes_small: "n < 2 ^ 24 \<Longrightarrow> \<exists>c cs. be_bytes 4 n = c # cs \<and> length cs = 3 \<and> byte c = 0"
proof -
  assume "n < 2 ^ 24"
  then have "n div 256 div 256 div 256 = 0" by simp
  moreover have "be_bytes 4 n = [char_of (n div 256 div 256 div 256 mod 256), char_of (n div 256 div 256 mod 256), char_of (n div 256 mod 256), char_of (n mod 256)]"
  proof -
    have "be_bytes 4 n = be_bytes (Suc (Suc (Suc (Suc 0)))) n" by (rule arg_cong [of _ _ "\<lambda>k. be_bytes k n"]) simp
    also have "\<dots> = [char_of (n div 256 div 256 div 256 mod 256), char_of (n div 256 div 256 mod 256), char_of (n div 256 mod 256), char_of (n mod 256)]"
      by (simp only: be_bytes.simps append.simps)
    finally show ?thesis .
  qed
  ultimately show ?thesis by simp
qed

lemma sniff_startup:
  assumes "n < 2 ^ 24" "code \<in> {196608, 80877103, 80877102}"
  shows "consumeSniffedID (be_bytes 4 n @ be_bytes 4 code @ r) h = SPostgres True"
proof -
  obtain c0 cs where n: "be_bytes 4 n = c0 # cs" "length cs = 3" "byte c0 = 0" using be_bytes_small [OF assms(1)] by auto
  have code: "be32 (be_bytes 4 code @ r') = code" for r' using assms(2) by (intro wire_decode) auto
  have len: "length (be_bytes 4 code) = 4" by simp
  have t: "take 8 (be_bytes 4 n @ be_bytes 4 code @ r) = be_bytes 4 n @ be_bytes 4 code" by simp
  have d: "drop 4 (be_bytes 4 n @ be_bytes 4 code) = be_bytes 4 code" by simp
  have "take 4 (be_bytes 4 n @ be_bytes 4 code @ r) = c0 # cs" using n by simp
  moreover have "c0 \<noteq> CHR ''A''" using n(3) by auto
  moreover have "pg_untyped (be_bytes 4 n @ be_bytes 4 code)"
    using n code [of "[]"] assms(2) d by (simp add: pg_untyped_def)
  ultimately show ?thesis using n by (simp add: consumeSniffedID_def sniffTLS_def t ProtocolPostgres_def Let_def)
qed

text \<open>The opening bytes that only one side of a protocol sends choose the dissector and the role whatever the hint: a PostgreSQL startup, TLS or
  cancel request and an AMQP protocol header the client's, a PostgreSQL authentication request the server's, a RESP array the client's and a RESP
  status, error or integer the server's; and a message that starts with two letters goes to HTTP.\<close>

theorem openings_sniffed:
  assumes "n < 2 ^ 24" "code \<in> {196608, 80877103, 80877102}" "b1 \<in> set ''+-:''" "a \<in> set ''ABCDEFGHIJKLMNOPQRSTUVWXYZ''" "c \<in> set ''ABCDEFGHIJKLMNOPQRSTUVWXYZ''"
    "take 4 (a # c # r) \<noteq> ''AMQP''" "r \<noteq> []"
  shows "consumeSniffedID (be_bytes 4 n @ be_bytes 4 code @ r) h = SPostgres True \<and> consumeSniffedID (''AMQP'' @ r) h = SAMQP True
    \<and> consumeSniffedID (CHR ''R'' # be_bytes 4 n @ r) h = SPostgres False \<and> consumeSniffedID (CHR ''*'' # r) h = SRedis True
    \<and> consumeSniffedID (b1 # r) h = SRedis False \<and> consumeSniffedID (a # c # r) h = SHTTP"
proof (intro conjI)
  show "consumeSniffedID (be_bytes 4 n @ be_bytes 4 code @ r) h = SPostgres True" by (rule sniff_startup [OF assms(1,2)])
  show "consumeSniffedID (''AMQP'' @ r) h = SAMQP True" by (simp add: sniff_defs)
  obtain c0 cs where "be_bytes 4 n = c0 # cs" "byte c0 = 0" using be_bytes_small [OF assms(1)] by auto
  then show "consumeSniffedID (CHR ''R'' # be_bytes 4 n @ r) h = SPostgres False" by (simp add: sniff_defs)
  obtain r0 rs where "r = r0 # rs" using assms(7) by (cases r) auto
  then show "consumeSniffedID (CHR ''*'' # r) h = SRedis True" by (simp add: sniff_defs)
  show "consumeSniffedID (b1 # r) h = SRedis False" using assms(3) \<open>r = r0 # rs\<close> by (auto simp: sniff_defs)
  have "byte c \<noteq> 0" using assms(5) by auto
  moreover have "byte a \<noteq> 0" using assms(4) by auto
  moreover have "a \<notin> set ''*+-:$>~%_#,(=''" using assms(4) by auto
  ultimately show "consumeSniffedID (a # c # r) h = SHTTP" using assms(6) by (auto simp: sniff_defs)
qed

theorem openings_sniffed_witness:
  "consumeSniffedID (be_bytes 4 8 @ be_bytes 4 80877103 @ ''x'') False = SPostgres True \<and> consumeSniffedID ''GET / HTTP/1.1'' True = SHTTP"
  using openings_sniffed [of 8 80877103 "CHR ''+''" "CHR ''G''" "CHR ''E''" "''x''" False]
    openings_sniffed [of 8 80877103 "CHR ''+''" "CHR ''G''" "CHR ''E''" "''T / HTTP/1.1''" True] by simp

text \<open>The server of an AMQP connection opens with a method frame on channel 0, which no rule knows: its direction goes to HTTP, for either hint.\<close>

lemma amqp_server_unrecognised: "consumeSniffedID (char_of (1::nat) # be_bytes 2 0 @ be_bytes 4 n @ r) h = SHTTP"
proof -
  have "char_of (1::nat) \<notin> set ''QPBEDCSXRKZTIN*+-:$>~%_#,(=A''" by code_simp
  then show ?thesis by (simp add: sniff_defs)
qed

text \<open>A RESP array is taken for the client's side also when the server sends it, as the reply to a command that returns an array.\<close>

lemma redis_array_reply_sniffed_as_command: "consumeSniffedID (''*2'' @ r) False = SRedis True"
  by (simp add: sniff_defs)

text \<open>Two TLS connections of one thread whose SSL pointers agree in their low 16 bits have different keys in the table of streams but, until their
  addresses are resolved, one connection identity, so their requests and responses share a queue, although the comment calls the identity unique
  per SSL connection.\<close>

theorem synthetic_identity_collides:
  assumes "tr_SrcIP r = [] \<or> tr_DstIP r = []"
  shows "let r' = r\<lparr>tr_ConnID := tr_ConnID r + 65536\<rparr> in ConnectionKey r' \<noteq> ConnectionKey r \<and> conn_key (stream_conn r') = conn_key (stream_conn r)"
proof -
  have "uint (tr_ConnID r + 65536) mod 65536 = (uint (tr_ConnID r) + 65536) mod 2 ^ 64 mod 65536" by (simp add: uint_word_ariths)
  also have "\<dots> = (uint (tr_ConnID r) + 65536) mod 65536" by (rule mod_mod_cancel) simp
  also have "\<dots> = uint (tr_ConnID r) mod 65536" by simp
  finally show ?thesis using assms by (auto simp: stream_conn_def ConnectionKey_def Let_def)
qed

theorem synthetic_identity_collides_witness:
  "conn_key (stream_conn ((some_record TLSDirWrite ''a'')\<lparr>tr_ConnID := 4096 + 65536\<rparr>)) = conn_key (stream_conn (some_record TLSDirWrite ''a''))"
  using synthetic_identity_collides [of "some_record TLSDirWrite ''a''"] by (simp add: some_record_def Let_def)

end
