(* ===== verification/Worker_Ebpf.thy ===== *)
theory Worker_Ebpf
  imports Worker_Tls
begin

text \<open>
  The source of decrypted records, \<open>internal/worker/ebpf/loader.go\<close>: the layout of an event of the kernel program, the ledger of
  connections that lost a record, and the table of attached libraries.  The ring buffer, the kernel program and the probes are not modelled: events come as
  their bytes, and what attaching a library gives is a parameter.  \<open>drainLoop\<close> and the consumer of its channel run concurrently; a run is the sequence of the
  events read and of the records taken.
\<close>

subsection \<open>Events\<close>

definition eventOffPID :: nat where "eventOffPID = 0"
definition eventOffTID :: nat where "eventOffTID = 4"
definition eventOffSSLCtx :: nat where "eventOffSSLCtx = 8"
definition eventOffSAddr :: nat where "eventOffSAddr = 16"
definition eventOffDAddr :: nat where "eventOffDAddr = 32"
definition eventOffDataLen :: nat where "eventOffDataLen = 48"
definition eventOffSPort :: nat where "eventOffSPort = 52"
definition eventOffDPort :: nat where "eventOffDPort = 54"
definition eventOffFamily :: nat where "eventOffFamily = 56"
definition eventOffDirection :: nat where "eventOffDirection = 57"
definition eventOffData :: nat where "eventOffData = 58"
definition eventFlagLagged :: nat where "eventFlagLagged = 2147483648"
definition afInet :: nat where "afInet = 2"
definition afInet6 :: nat where "afInet6 = 10"

lemmas event_defs = eventOffPID_def eventOffTID_def eventOffSSLCtx_def eventOffSAddr_def eventOffDAddr_def eventOffDataLen_def eventOffSPort_def eventOffDPort_def
  eventOffFamily_def eventOffDirection_def eventOffData_def eventFlagLagged_def afInet_def afInet6_def

definition isZero :: "bytes \<Rightarrow> bool" where
  "isZero b \<longleftrightarrow> list_all (\<lambda>x. byte x = 0) b"

definition ipv4String :: "bytes \<Rightarrow> string" where
  "ipv4String b = join ''.'' (map (\<lambda>x. itoa (int (byte x))) (take 4 b))"

text \<open>The library's form of an IPv6 address: an IPv4-mapped one as dotted quad, otherwise groups in hexadecimal with the first of the longest runs of at
  least two zero groups elided.\<close>

fun groups16 :: "bytes \<Rightarrow> nat list" where
  "groups16 (x # y # b) = (256 * byte x + byte y) # groups16 b"
| "groups16 b = []"

definition zero_run :: "nat list \<Rightarrow> nat \<Rightarrow> nat" where
  "zero_run g i = length (takeWhile (\<lambda>x. x = 0) (drop i g))"

fun best_run :: "nat list \<Rightarrow> nat list \<Rightarrow> nat \<times> nat \<Rightarrow> nat \<times> nat" where
  "best_run g [] best = best"
| "best_run g (i # is) (start, len) = best_run g is (if zero_run g i \<ge> 2 \<and> zero_run g i > len then (i, zero_run g i) else (start, len))"

definition ipv6String :: "bytes \<Rightarrow> string" where
  "ipv6String b =
     (if isZero (take 10 b) \<and> take 2 (drop 10 b) = [char_of (255::nat), char_of (255::nat)] then ipv4String (drop 12 b)
      else let g = groups16 (take 16 b) in
        case best_run g [0..<8] (0, 0) of (start, len) \<Rightarrow>
          if len = 0 then join '':'' (map (format_nat 16) g)
          else join '':'' (map (format_nat 16) (take start g)) @ ''::'' @ join '':'' (map (format_nat 16) (drop (start + len) g)))"

definition event_direction :: "nat \<Rightarrow> TLSDirection" where
  "event_direction d = word_of_nat d"

definition event_ip :: "bytes \<Rightarrow> nat \<Rightarrow> string" where
  "event_ip raw off =
     (let family = byte (raw ! eventOffFamily) in
      if family = afInet then (let a = take 4 (drop off raw) in if isZero a then [] else ipv4String a)
      else if family = afInet6 then (let a = take 16 (drop off raw) in if isZero a then [] else ipv6String a)
      else [])"

definition decodeEvent :: "bytes \<Rightarrow> TLSRecord option" where
  "decodeEvent raw =
     (if length raw < eventOffData then None
      else let word = le32 (drop eventOffDataLen raw); lagged = word \<ge> eventFlagLagged; dataLen = word mod eventFlagLagged;
        ending = min (eventOffData + dataLen) (length raw) in
        Some \<lparr>tr_PID = word_of_nat (le32 (drop eventOffPID raw)), tr_TID = word_of_nat (le32 (drop eventOffTID raw)),
          tr_ConnID = word_of_nat (le64 (drop eventOffSSLCtx raw)), tr_Direction = event_direction (byte (raw ! eventOffDirection)),
          tr_SrcIP = event_ip raw eventOffSAddr, tr_DstIP = event_ip raw eventOffDAddr,
          tr_SrcPort = word_of_nat (le16 (drop eventOffSPort raw)), tr_DstPort = word_of_nat (le16 (drop eventOffDPort raw)),
          tr_Data = (if ending > eventOffData \<and> \<not> lagged then take (ending - eventOffData) (drop eventOffData raw) else []),
          tr_Lagged = lagged\<rparr>)"

subsection \<open>The loss ledger\<close>

definition maxLaggedConns :: nat where "maxLaggedConns = 4096"

text \<open>\<open>src_taken\<close> is history: the records the consumer took from the channel, in order.\<close>

record linuxSource =
  src_cap :: nat
  src_out :: "TLSRecord list"
  src_lagged :: "(TLSConnKey \<times> bool) list"
  src_stopped :: bool
  src_taken :: "TLSRecord list"

definition send_out :: "TLSRecord \<Rightarrow> linuxSource \<Rightarrow> linuxSource" where
  "send_out ev s = s\<lparr>src_out := src_out s @ [ev]\<rparr>"

definition forwardLoss :: "TLSRecord \<Rightarrow> linuxSource \<Rightarrow> linuxSource" where
  "forwardLoss ev s =
     (let key = ConnectionKey ev in
      if map_of (src_lagged s) key = Some True then s
      else let s1 = s\<lparr>src_lagged := AList.update key False (src_lagged s)\<rparr> in
        if length (src_out s1) < src_cap s1
        then (send_out (ev\<lparr>tr_Data := [], tr_Lagged := True\<rparr>) s1)\<lparr>src_lagged := AList.update key True (src_lagged s1)\<rparr>
        else s1)"

definition stopOnLedgerOverflow :: "linuxSource \<Rightarrow> linuxSource" where
  "stopOnLedgerOverflow s = s\<lparr>src_stopped := True\<rparr>"

definition drain_event :: "TLSRecord \<Rightarrow> linuxSource \<Rightarrow> linuxSource" where
  "drain_event ev s =
     (let key = ConnectionKey ev; seen = map_of (src_lagged s) key in
      if tr_Lagged ev then
        if seen = Some True then s
        else if seen = None \<and> length (src_lagged s) \<ge> maxLaggedConns then stopOnLedgerOverflow s
        else forwardLoss ev s
      else (case seen of
          Some sent \<Rightarrow> if sent then s else forwardLoss ev s
        | None \<Rightarrow>
            if length (src_out s) < src_cap s then send_out ev s
            else if length (src_lagged s) \<ge> maxLaggedConns then stopOnLedgerOverflow s
            else forwardLoss ev s))"

text \<open>What happens at the source: bytes read from the ring buffer, or a record taken from the channel by the consumer.\<close>

datatype source_event = RingRecord bytes | Taken

fun drainLoop :: "source_event list \<Rightarrow> linuxSource \<Rightarrow> linuxSource" where
  "drainLoop [] s = s"
| "drainLoop (Taken # xs) s = drainLoop xs (s\<lparr>src_out := tl (src_out s), src_taken := src_taken s @ take 1 (src_out s)\<rparr>)"
| "drainLoop (RingRecord raw # xs) s =
     drainLoop xs (if src_stopped s then s else case decodeEvent raw of None \<Rightarrow> s | Some ev \<Rightarrow> drain_event ev s)"

definition new_source :: linuxSource where
  "new_source = \<lparr>src_cap = 4096, src_out = [], src_lagged = [], src_stopped = False, src_taken = []\<rparr>"

subsection \<open>No data after a loss\<close>

text \<open>What went out: what the consumer took, and behind it what it will find in the channel.\<close>

definition handed_over :: "linuxSource \<Rightarrow> TLSRecord list" where
  "handed_over s = src_taken s @ src_out s"

lemma handed_frame [simp]: "handed_over (send_out ev s) = handed_over s @ [ev]" "handed_over (s\<lparr>src_lagged := l\<rparr>) = handed_over s"
  "handed_over (s\<lparr>src_stopped := b\<rparr>) = handed_over s"
  "handed_over (s\<lparr>src_out := tl (src_out s), src_taken := src_taken s @ take (Suc 0) (src_out s)\<rparr>) = handed_over s"
  by (simp_all add: handed_over_def send_out_def) (cases "src_out s"; simp)

lemma send_frame [simp]: "src_lagged (send_out ev s) = src_lagged s" "src_stopped (send_out ev s) = src_stopped s"
  by (simp_all add: send_out_def)

definition of_key :: "TLSConnKey \<Rightarrow> TLSRecord list \<Rightarrow> TLSRecord list" where
  "of_key k rs = filter (\<lambda>r. ConnectionKey r = k) rs"

definition intact :: "TLSRecord list \<Rightarrow> TLSRecord list \<Rightarrow> bool" where
  "intact rs evs \<longleftrightarrow> prefix rs evs \<and> (\<forall>r \<in> set rs. \<not> tr_Lagged r)"

text \<open>The state of one connection in the ledger against the records it produced.\<close>

definition ledger_ok :: "TLSConnKey \<Rightarrow> TLSRecord list \<Rightarrow> linuxSource \<Rightarrow> bool" where
  "ledger_ok k evs s \<longleftrightarrow>
     (case map_of (src_lagged s) k of
        None \<Rightarrow> intact (of_key k (handed_over s)) (of_key k evs) \<and> (\<not> src_stopped s \<longrightarrow> of_key k (handed_over s) = of_key k evs)
      | Some False \<Rightarrow> intact (of_key k (handed_over s)) (of_key k evs)
      | Some True \<Rightarrow> (\<exists>rs t. of_key k (handed_over s) = rs @ [t] \<and> intact rs (of_key k evs) \<and> tr_Lagged t \<and> tr_Data t = []))"

lemma intact_more: "intact rs evs \<Longrightarrow> intact rs (evs @ later)"
  by (auto simp: intact_def prefix_def)

lemma of_key_snoc: "of_key k (rs @ [r]) = (if ConnectionKey r = k then of_key k rs @ [r] else of_key k rs)"
  by (simp add: of_key_def)

lemma key_frame [simp]: "ConnectionKey (r\<lparr>tr_Data := d\<rparr>) = ConnectionKey r" "ConnectionKey (r\<lparr>tr_Lagged := b\<rparr>) = ConnectionKey r"
  by (simp_all add: ConnectionKey_def)

lemma ledger_update: "map_of (AList.update k v xs) = (map_of xs)(k \<mapsto> v)"
  by (simp add: AList.update_conv')

lemma forwardLoss_other: "k \<noteq> ConnectionKey ev \<Longrightarrow>
    of_key k (handed_over (forwardLoss ev s)) = of_key k (handed_over s) \<and> map_of (src_lagged (forwardLoss ev s)) k = map_of (src_lagged s) k"
  by (auto simp: forwardLoss_def Let_def of_key_snoc ledger_update)

lemma drain_other:
  assumes "k \<noteq> ConnectionKey ev" "ledger_ok k evs s" "\<not> src_stopped s"
  shows "ledger_ok k (evs @ [ev]) (drain_event ev s)"
proof -
  have "of_key k (handed_over (drain_event ev s)) = of_key k (handed_over s)" "map_of (src_lagged (drain_event ev s)) k = map_of (src_lagged s) k"
    using assms(1) forwardLoss_other [OF assms(1), of s]
    by (auto simp: drain_event_def Let_def of_key_snoc stopOnLedgerOverflow_def split: option.splits)
  then show ?thesis using assms by (auto simp: ledger_ok_def of_key_snoc split: option.splits bool.splits)
qed

lemma forwardLoss_same:
  assumes "ledger_ok (ConnectionKey ev) evs s" "\<not> src_stopped s"
  shows "ledger_ok (ConnectionKey ev) (evs @ [ev]) (forwardLoss ev s)"
proof (cases "map_of (src_lagged s) (ConnectionKey ev) = Some True")
  case True
  then show ?thesis using assms intact_more [of _ _ "[ev]"] by (auto simp: forwardLoss_def ledger_ok_def of_key_snoc)
next
  case False
  then have "intact (of_key (ConnectionKey ev) (handed_over s)) (of_key (ConnectionKey ev) evs)"
    using assms by (auto simp: ledger_ok_def split: option.splits bool.splits)
  then have "intact (of_key (ConnectionKey ev) (handed_over s)) (of_key (ConnectionKey ev) evs @ [ev])" by (rule intact_more)
  then show ?thesis using False by (auto simp: forwardLoss_def Let_def ledger_ok_def of_key_snoc ledger_update)
qed

lemma drain_same:
  assumes "ledger_ok (ConnectionKey ev) evs s" "\<not> src_stopped s"
  shows "ledger_ok (ConnectionKey ev) (evs @ [ev]) (drain_event ev s)"
proof -
  let ?k = "ConnectionKey ev"
  have keep: "ledger_ok ?k (evs @ [ev]) s" if "map_of (src_lagged s) ?k = Some True"
    using that assms intact_more [of _ _ "[ev]"] by (auto simp: ledger_ok_def of_key_snoc)
  have stop: "ledger_ok ?k (evs @ [ev]) (stopOnLedgerOverflow s)" if "map_of (src_lagged s) ?k = None"
    using that assms intact_more [of _ _ "[ev]"] by (auto simp: ledger_ok_def of_key_snoc stopOnLedgerOverflow_def)
  have send: "ledger_ok ?k (evs @ [ev]) (send_out ev s)" if "map_of (src_lagged s) ?k = None" "\<not> tr_Lagged ev"
    using that assms by (auto simp: ledger_ok_def of_key_snoc intact_def)
  have loss: "ledger_ok ?k (evs @ [ev]) (forwardLoss ev s)" by (rule forwardLoss_same [OF assms])
  show ?thesis
    by (cases "map_of (src_lagged s) ?k"; cases "tr_Lagged ev") (auto simp: drain_event_def Let_def keep stop send loss)
qed

fun ring_records :: "source_event list \<Rightarrow> TLSRecord list" where
  "ring_records [] = []"
| "ring_records (Taken # xs) = ring_records xs"
| "ring_records (RingRecord raw # xs) = (case decodeEvent raw of None \<Rightarrow> [] | Some ev \<Rightarrow> [ev]) @ ring_records xs"

lemma ledger_stopped: "src_stopped s \<Longrightarrow> ledger_ok k evs s \<Longrightarrow> ledger_ok k (evs @ later) s"
  using intact_more [of _ "of_key k evs" "of_key k later"] by (auto simp: ledger_ok_def of_key_def split: option.splits bool.splits)

lemma ledger_run: "ledger_ok k evs s \<Longrightarrow> ledger_ok k (evs @ ring_records xs) (drainLoop xs s)"
proof (induction xs s arbitrary: evs rule: drainLoop.induct)
  case (2 xs s)
  have "ledger_ok k evs (s\<lparr>src_out := tl (src_out s), src_taken := src_taken s @ take 1 (src_out s)\<rparr>)" using 2(2) by (simp add: ledger_ok_def split: option.splits bool.splits)
  then show ?case using 2(1) by simp
next
  case (3 raw xs s)
  show ?case
  proof (cases "decodeEvent raw")
    case (Some ev)
    have "ledger_ok k (evs @ [ev]) (if src_stopped s then s else drain_event ev s)"
      using 3(2) drain_other [of k ev evs s] drain_same [of ev evs s] ledger_stopped [of s k evs "[ev]"] by (cases "k = ConnectionKey ev") auto
    then show ?thesis using 3(1) [of "evs @ [ev]"] Some by (cases "src_stopped s") auto
  qed (use 3 in simp)
qed simp

lemma ledger_bounded:
  assumes "length (src_lagged s) \<le> maxLaggedConns" "length (src_out s) \<le> src_cap s"
  shows "length (src_lagged (drainLoop xs s)) \<le> maxLaggedConns \<and> length (src_out (drainLoop xs s)) \<le> src_cap (drainLoop xs s)"
  using assms
proof (induction xs s rule: drainLoop.induct)
  case (3 raw xs s)
  have upd: "length (AList.update k v xs) = (if map_of xs k = None then Suc (length xs) else length xs)" for k :: TLSConnKey and v :: bool and xs
    by (induction xs) auto
  have "length (src_lagged (drain_event ev s)) \<le> maxLaggedConns \<and> length (src_out (drain_event ev s)) \<le> src_cap (drain_event ev s)" for ev
    using 3(2,3) by (auto simp: drain_event_def forwardLoss_def Let_def send_out_def stopOnLedgerOverflow_def upd ledger_update split: option.split)
  then show ?case using 3 by (auto split: option.split)
qed auto

text \<open>C24: Whatever the kernel sends and however slowly the records are taken, what the consumer takes of a connection, together with what waits for it
  in the channel, is the beginning of the connection's records, unaltered and in order, followed by at most one data-less loss mark and then nothing;
  it is all of them unless the connection is in the ledger or the source stopped, and neither the ledger nor the channel exceeds its bound.\<close>

theorem no_data_after_loss:
  fixes xs :: "source_event list"
  defines "s \<equiv> drainLoop xs new_source" and "evs \<equiv> ring_records xs"
  shows "(\<exists>rs ts. of_key k (src_taken s @ src_out s) = rs @ ts \<and> prefix rs (of_key k evs) \<and> (\<forall>r \<in> set rs. \<not> tr_Lagged r)
      \<and> (ts = [] \<or> (\<exists>t. ts = [t] \<and> tr_Lagged t \<and> tr_Data t = [])))
    \<and> (k \<notin> fst ` set (src_lagged s) \<longrightarrow> \<not> src_stopped s \<longrightarrow> of_key k (src_taken s @ src_out s) = of_key k evs)
    \<and> length (src_lagged s) \<le> maxLaggedConns \<and> length (src_out s) \<le> src_cap s"
proof -
  have "ledger_ok k ([] @ ring_records xs) (drainLoop xs new_source)"
    by (rule ledger_run) (simp add: ledger_ok_def new_source_def of_key_def intact_def handed_over_def)
  then have ok: "ledger_ok k evs s" by (simp add: evs_def s_def)
  then have "\<exists>rs ts. of_key k (handed_over s) = rs @ ts \<and> intact rs (of_key k evs) \<and> (ts = [] \<or> (\<exists>t. ts = [t] \<and> tr_Lagged t \<and> tr_Data t = []))"
  proof (cases "map_of (src_lagged s) k = Some True")
    case True
    then obtain rs t where "of_key k (handed_over s) = rs @ [t]" "intact rs (of_key k evs)" "tr_Lagged t" "tr_Data t = []"
      using ok by (auto simp: ledger_ok_def)
    then show ?thesis by blast
  next
    case False
    then have "intact (of_key k (handed_over s)) (of_key k evs)" using ok by (auto simp: ledger_ok_def split: option.splits bool.splits)
    then show ?thesis by (intro exI [of _ "of_key k (handed_over s)"] exI [of _ "[]"]) simp
  qed
  moreover have "k \<notin> fst ` set (src_lagged s) \<longrightarrow> \<not> src_stopped s \<longrightarrow> of_key k (handed_over s) = of_key k evs"
  proof (intro impI)
    assume "k \<notin> fst ` set (src_lagged s)" "\<not> src_stopped s"
    moreover from this have "map_of (src_lagged s) k = None" by (simp add: map_of_eq_None_iff)
    ultimately show "of_key k (handed_over s) = of_key k evs" using ok by (simp add: ledger_ok_def)
  qed
  moreover have "length (src_lagged s) \<le> maxLaggedConns \<and> length (src_out s) \<le> src_cap s"
    unfolding s_def by (rule ledger_bounded) (simp_all add: new_source_def)
  ultimately show ?thesis unfolding intact_def handed_over_def by blast
qed

subsection \<open>The layout of an event\<close>

record kernel_event =
  ev_pid :: nat
  ev_tid :: nat
  ev_ctx :: nat
  ev_saddr :: bytes
  ev_daddr :: bytes
  ev_sport :: nat
  ev_dport :: nat
  ev_family :: char
  ev_dir :: char
  ev_data :: bytes

text \<open>The struct that \<open>bpf/tls.bpf.c\<close> submits, with what may follow the data in its buffer.\<close>

definition enc_event :: "kernel_event \<Rightarrow> bytes \<Rightarrow> bytes" where
  "enc_event e pad = le_bytes 4 (ev_pid e) @ le_bytes 4 (ev_tid e) @ le_bytes 8 (ev_ctx e) @ ev_saddr e @ ev_daddr e @ le_bytes 4 (length (ev_data e))
     @ le_bytes 2 (ev_sport e) @ le_bytes 2 (ev_dport e) @ [ev_family e, ev_dir e] @ ev_data e @ pad"

definition event_wf :: "kernel_event \<Rightarrow> bool" where
  "event_wf e \<longleftrightarrow> ev_pid e < 2 ^ 32 \<and> ev_tid e < 2 ^ 32 \<and> ev_ctx e < 2 ^ 64 \<and> length (ev_saddr e) = 16 \<and> length (ev_daddr e) = 16
     \<and> ev_sport e < 2 ^ 16 \<and> ev_dport e < 2 ^ 16 \<and> length (ev_data e) < 2 ^ 31"

definition ev_ip :: "char \<Rightarrow> bytes \<Rightarrow> string" where
  "ev_ip family a = (if byte family = 2 \<and> \<not> isZero (take 4 a) then ipv4String (take 4 a)
     else if byte family = 10 \<and> \<not> isZero a then ipv6String a else [])"

lemma enc_event_drops:
  assumes "event_wf e"
  shows "drop 4 (enc_event e p) = le_bytes 4 (ev_tid e) @ drop 8 (enc_event e p)"
    "drop 8 (enc_event e p) = le_bytes 8 (ev_ctx e) @ drop 16 (enc_event e p)"
    "drop 16 (enc_event e p) = ev_saddr e @ drop 32 (enc_event e p)" "drop 32 (enc_event e p) = ev_daddr e @ drop 48 (enc_event e p)"
    "drop 48 (enc_event e p) = le_bytes 4 (length (ev_data e)) @ drop 52 (enc_event e p)" "drop 52 (enc_event e p) = le_bytes 2 (ev_sport e) @ drop 54 (enc_event e p)"
    "drop 54 (enc_event e p) = le_bytes 2 (ev_dport e) @ drop 56 (enc_event e p)" "drop 56 (enc_event e p) = ev_family e # ev_dir e # ev_data e @ p"
    "drop 57 (enc_event e p) = ev_dir e # ev_data e @ p" "drop 58 (enc_event e p) = ev_data e @ p"
  using assms by (simp_all add: enc_event_def event_wf_def)

text \<open>An event as the kernel program lays it out is decoded with its process, thread, SSL pointer, ports, direction and data, and with its
  addresses as text when they are resolved.\<close>

theorem event_decoded:
  assumes "event_wf e"
  shows "decodeEvent (enc_event e pad) =
    Some \<lparr>tr_PID = word_of_nat (ev_pid e), tr_TID = word_of_nat (ev_tid e), tr_ConnID = word_of_nat (ev_ctx e), tr_Direction = event_direction (byte (ev_dir e)),
      tr_SrcIP = ev_ip (ev_family e) (ev_saddr e), tr_DstIP = ev_ip (ev_family e) (ev_daddr e), tr_SrcPort = word_of_nat (ev_sport e),
      tr_DstPort = word_of_nat (ev_dport e), tr_Data = ev_data e, tr_Lagged = False\<rparr>"
proof -
  let ?r = "enc_event e pad"
  note drops = enc_event_drops [OF assms, of pad]
  have len: "length ?r = 58 + length (ev_data e) + length pad" using assms by (simp add: enc_event_def event_wf_def)
  have start: "?r = le_bytes 4 (ev_pid e) @ drop 4 ?r" by (simp add: enc_event_def)
  have nth: "?r ! 56 = ev_family e" "?r ! 57 = ev_dir e" using hd_drop_conv_nth [of 56 ?r] hd_drop_conv_nth [of 57 ?r] len drops(8,9) by simp_all
  have "le32 ?r = le32 (le_bytes 4 (ev_pid e) @ drop 4 ?r)" by (rule arg_cong [OF start])
  then have pid: "le32 ?r = ev_pid e" using assms by (simp only: wire_decode event_wf_def)
  have ints: "le32 (drop 4 ?r) = ev_tid e" "le64 (drop 8 ?r) = ev_ctx e" "le32 (drop 48 ?r) = length (ev_data e)"
      "le16 (drop 52 ?r) = ev_sport e" "le16 (drop 54 ?r) = ev_dport e"
    using assms by (simp_all only: drops(1,2,5,6,7) wire_decode event_wf_def) (simp add: wire_decode)
  have ips: "event_ip ?r 16 = ev_ip (ev_family e) (ev_saddr e)" "event_ip ?r 32 = ev_ip (ev_family e) (ev_daddr e)"
    using assms by (auto simp: event_ip_def ev_ip_def event_defs nth drops(3,4) Let_def event_wf_def)
  show ?thesis using assms by (simp add: decodeEvent_def event_defs len pid ints ips nth drops(10) Let_def event_wf_def min_def)
qed

definition some_event :: kernel_event where
  "some_event = \<lparr>ev_pid = 7, ev_tid = 8, ev_ctx = 4096, ev_saddr = replicate 16 (char_of (0::nat)), ev_daddr = replicate 16 (char_of (1::nat)),
     ev_sport = 80, ev_dport = 443, ev_family = char_of (2::nat), ev_dir = char_of (1::nat), ev_data = ''ab''\<rparr>"

theorem event_decoded_witness: "map_option tr_Data (decodeEvent (enc_event some_event ''pad'')) = Some ''ab''"
proof -
  have "event_wf some_event" by (simp add: event_wf_def some_event_def)
  from event_decoded [OF this, of "''pad''"] show ?thesis by (simp add: some_event_def)
qed

theorem no_data_after_loss_witness:
  "map tr_Data (of_key (7, 4096) (src_taken (drainLoop [RingRecord (enc_event some_event []), Taken] new_source)
     @ src_out (drainLoop [RingRecord (enc_event some_event []), Taken] new_source))) = [''ab'']"
proof -
  let ?xs = "[RingRecord (enc_event some_event []), Taken]" and ?s = "drainLoop [RingRecord (enc_event some_event []), Taken] new_source"
  have "event_wf some_event" by (simp add: event_wf_def some_event_def)
  note dec = event_decoded [OF this, of "[]"]
  have "src_lagged ?s = [] \<and> \<not> src_stopped ?s"
    by (simp add: dec drain_event_def new_source_def Let_def send_out_def)
  then have "of_key (7, 4096) (src_taken ?s @ src_out ?s) = of_key (7, 4096) (ring_records ?xs)"
    using no_data_after_loss [of "(7, 4096)" ?xs] by simp
  also have "map tr_Data \<dots> = [''ab'']"
    by (simp only: ring_records.simps dec option.case append.simps) (simp add: of_key_def ConnectionKey_def some_event_def)
  finally show ?thesis .
qed

subsection \<open>Attached libraries\<close>

datatype sslKind = sslUnknown | sslOpenSSL | sslGnuTLS

record libTarget =
  lt_pid :: int
  lt_execPath :: string
  lt_pathname :: string
  lt_kind :: sslKind
  lt_devIno :: string

text \<open>A probe is a number; \<open>as_closed\<close> is history: the probes that were closed.\<close>

record attachment =
  at_links :: "nat list"
  at_lastSeen :: time

record attach_state =
  as_attached :: "(string \<times> attachment) list"
  as_staticLinks :: "nat list"
  as_closed :: "nat list"

definition attach_one :: "time \<Rightarrow> (libTarget \<Rightarrow> nat list option) \<Rightarrow> libTarget \<Rightarrow> attach_state \<Rightarrow> attach_state" where
  "attach_one now attach t s =
     (case map_of (as_attached s) (lt_devIno t) of
        Some a \<Rightarrow> s\<lparr>as_attached := AList.update (lt_devIno t) (a\<lparr>at_lastSeen := now\<rparr>) (as_attached s)\<rparr>
      | None \<Rightarrow> (case attach t of None \<Rightarrow> s
          | Some links \<Rightarrow> s\<lparr>as_attached := AList.update (lt_devIno t) \<lparr>at_links = links, at_lastSeen = now\<rparr> (as_attached s)\<rparr>))"

definition stale_attachment :: "time \<Rightarrow> time \<Rightarrow> attachment \<Rightarrow> bool" where
  "stale_attachment now grace a \<longleftrightarrow> \<not> now - at_lastSeen a \<le> grace"

definition drop_stale :: "time \<Rightarrow> time \<Rightarrow> attach_state \<Rightarrow> attach_state" where
  "drop_stale now grace s =
     s\<lparr>as_closed := as_closed s @ concat (map (at_links \<circ> snd) (filter (\<lambda>ka. stale_attachment now grace (snd ka)) (as_attached s))),
       as_attached := filter (\<lambda>ka. \<not> stale_attachment now grace (snd ka)) (as_attached s)\<rparr>"

definition reconcileAttachments :: "time \<Rightarrow> libTarget list \<Rightarrow> bool \<Rightarrow> time \<Rightarrow> (libTarget \<Rightarrow> nat list option) \<Rightarrow> attach_state \<Rightarrow> attach_state" where
  "reconcileAttachments grace targets complt now attach s =
     (let s1 = fold (attach_one now attach) targets s in if complt then drop_stale now grace s1 else s1)"

definition closeAttachments :: "attach_state \<Rightarrow> attach_state" where
  "closeAttachments s = s\<lparr>as_closed := as_closed s @ as_staticLinks s @ concat (map (at_links \<circ> snd) (as_attached s)), as_staticLinks := [], as_attached := []\<rparr>"

text \<open>The probes opened by a scan: one attachment for each library not yet attached, however many processes map it.\<close>

fun opened :: "(libTarget \<Rightarrow> nat list option) \<Rightarrow> libTarget list \<Rightarrow> string set \<Rightarrow> nat list" where
  "opened attach [] known = []"
| "opened attach (t # ts) known =
     (if lt_devIno t \<in> known then opened attach ts known
      else case attach t of None \<Rightarrow> opened attach ts known
        | Some links \<Rightarrow> links @ opened attach ts (insert (lt_devIno t) known))"

definition live_links :: "attach_state \<Rightarrow> nat multiset" where
  "live_links s = mset (concat (map (at_links \<circ> snd) (as_attached s)))"

lemma attach_update:
  assumes "map_of xs k = Some a" "at_links b = at_links a"
  shows "concat (map (at_links \<circ> snd) (AList.update k b xs)) = concat (map (at_links \<circ> snd) xs)"
  using assms by (induction xs) (auto split: if_splits)

lemma attach_add: "map_of xs k = None \<Longrightarrow> AList.update k b xs = xs @ [(k, b)]"
  by (induction xs) (auto split: if_splits)

lemma attach_keys: "k \<in> fst ` set xs \<Longrightarrow> fst ` set (AList.update k b xs) = fst ` set xs"
  using dom_map_of_conv_image_fst [of "AList.update k b xs"] dom_map_of_conv_image_fst [of xs] by (simp add: AList.update_conv' insert_absorb)

lemma attach_fold: "live_links (fold (attach_one now attach) ts s) = live_links s + mset (opened attach ts (fst ` set (as_attached s)))
    \<and> as_closed (fold (attach_one now attach) ts s) = as_closed s \<and> as_staticLinks (fold (attach_one now attach) ts s) = as_staticLinks s"
proof (induction ts arbitrary: s)
  case (Cons t ts)
  show ?case
  proof (cases "map_of (as_attached s) (lt_devIno t)")
    case None
    then have "lt_devIno t \<notin> fst ` set (as_attached s)" by (simp add: map_of_eq_None_iff)
    then show ?thesis using None Cons by (cases "attach t") (simp_all add: attach_one_def attach_add live_links_def)
  next
    case (Some a)
    then have k: "lt_devIno t \<in> fst ` set (as_attached s)" by (metis domI dom_map_of_conv_image_fst)
    then have "fst ` set (AList.update (lt_devIno t) (a\<lparr>at_lastSeen := now\<rparr>) (as_attached s)) = fst ` set (as_attached s)"
      by (simp add: attach_keys)
    then show ?thesis using Some k Cons by (simp add: attach_one_def live_links_def attach_update)
  qed
qed simp

text \<open>No probe leaks and none is closed twice: the probes in the table together with those closed are the ones there were with those a scan
  opened, and a scan opens each library once; closing the source closes all of them.\<close>

theorem probes_accounted:
  "live_links (reconcileAttachments grace ts complt now attach s) + mset (as_closed (reconcileAttachments grace ts complt now attach s))
      = live_links s + mset (as_closed s) + mset (opened attach ts (fst ` set (as_attached s)))
    \<and> live_links (closeAttachments s) = {#} \<and> mset (as_closed (closeAttachments s)) = live_links s + mset (as_closed s) + mset (as_staticLinks s)"
proof -
  have part: "mset (concat (map f (filter P xs))) + mset (concat (map f (filter (\<lambda>x. \<not> P x) xs))) = mset (concat (map f xs))"
    for f :: "string \<times> attachment \<Rightarrow> nat list" and P xs by (induction xs) auto
  have "live_links (drop_stale now grace s') + mset (as_closed (drop_stale now grace s')) = live_links s' + mset (as_closed s')" for s'
    using part [of "at_links \<circ> snd" "\<lambda>ka. stale_attachment now grace (snd ka)" "as_attached s'"]
    by (simp add: drop_stale_def live_links_def add.commute add.left_commute)
  then show ?thesis using attach_fold [of now attach ts s]
    by (simp add: reconcileAttachments_def closeAttachments_def live_links_def Let_def)
qed

end
