(* ===== verification/Worker_Sink.thy ===== *)
theory Worker_Sink
  imports Api_Types "HOL-Library.Multiset"
begin

text \<open>
  The sink of a worker, \<open>internal/worker/sink.go\<close>: the bounded buffer of entries, the frames it drains into, and the pause command of the hub.  The JSON of an
  entry is a parameter, which gives nothing where \<open>json.Marshal\<close> fails.  Dissectors emit while the pump writes, so a run is a sequence of events, and whether a
  write succeeds is part of the event.  Connecting and the self-report frames, which carry counters only, are not modelled.
\<close>

definition sinkBatchMaxEntries :: nat where "sinkBatchMaxEntries = 64"
definition sinkBatchMaxBytes :: nat where "sinkBatchMaxBytes = 524288"

text \<open>\<open>sk_delivered\<close> is history: the frames written, each with the entries it covers, and \<open>sk_skipped\<close> the entries that do not marshal.\<close>

record sink =
  sk_cap :: nat
  sk_ch :: "Entry list"
  sk_dropped :: nat
  sk_sent :: nat
  sk_capturePaused :: bool
  sk_pauseChanged :: bool
  sk_delivered :: "(bytes \<times> Entry list) list"
  sk_skipped :: "Entry list"
  sk_lost :: "Entry list"

definition new_sink :: sink where
  "new_sink = \<lparr>sk_cap = 1024, sk_ch = [], sk_dropped = 0, sk_sent = 0, sk_capturePaused = False, sk_pauseChanged = False,
     sk_delivered = [], sk_skipped = [], sk_lost = []\<rparr>"

definition paused :: "sink \<Rightarrow> bool" where
  "paused s = sk_capturePaused s"

text \<open>\<open>sk_lost\<close> is history too: the entries that found the buffer full.\<close>

definition emit :: "Entry \<Rightarrow> sink \<Rightarrow> sink" where
  "emit e s =
     (if length (sk_ch s) < sk_cap s then s\<lparr>sk_ch := sk_ch s @ [e]\<rparr>
      else s\<lparr>sk_dropped := sk_dropped s + 1, sk_lost := sk_lost s @ [e]\<rparr>)"

text \<open>The loop that takes what is queued: the raw entries and the entries so far, their bytes, and the channel; it also gives what it skipped.\<close>

fun drain :: "(Entry \<Rightarrow> bytes option) \<Rightarrow> bytes list \<Rightarrow> Entry list \<Rightarrow> nat \<Rightarrow> Entry list \<Rightarrow> bytes list \<times> Entry list \<times> Entry list \<times> Entry list" where
  "drain js raws es n [] = (raws, es, [], [])"
| "drain js raws es n (e # ch) =
     (if length es < sinkBatchMaxEntries \<and> n < sinkBatchMaxBytes then
        (case js e of
           None \<Rightarrow> (case drain js raws es n ch of (a, b, c, d) \<Rightarrow> (a, b, e # c, d))
         | Some b \<Rightarrow> drain js (raws @ [b]) (es @ [e]) (n + length b) ch)
      else (raws, es, [], e # ch))"

definition entry_frame :: "bytes \<Rightarrow> bytes" where
  "entry_frame raw = ''{\"type\":\"entry\",\"entry\":'' @ raw @ ''}''"

definition batch_frame :: "bytes list \<Rightarrow> bytes" where
  "batch_frame raws = ''{\"type\":\"entryBatch\",\"entries\":['' @ join '','' raws @ '']}''"

definition assembleBatch :: "(Entry \<Rightarrow> bytes option) \<Rightarrow> Entry \<Rightarrow> Entry list \<Rightarrow> (bytes \<times> Entry list) option \<times> Entry list \<times> Entry list" where
  "assembleBatch js first ch =
     (case js first of None \<Rightarrow> (None, [first], ch)
      | Some b \<Rightarrow> (case drain js [b] [first] (length b) ch of (raws, es, skipped, ch') \<Rightarrow>
          (Some (if length raws = 1 then entry_frame (hd raws) else batch_frame raws, es), skipped, ch')))"

text \<open>One turn of the pump at a queued entry; \<open>ok\<close> is whether the write succeeds, and the result is whether the connection is kept.\<close>

definition pump_entry :: "(Entry \<Rightarrow> bytes option) \<Rightarrow> bool \<Rightarrow> sink \<Rightarrow> sink" where
  "pump_entry js ok s =
     (case sk_ch s of [] \<Rightarrow> s
      | e # ch \<Rightarrow> (case assembleBatch js e ch of (frame, skipped, ch') \<Rightarrow>
          let s1 = s\<lparr>sk_ch := ch', sk_skipped := sk_skipped s @ skipped\<rparr> in
          (case frame of None \<Rightarrow> s1
           | Some (f, es) \<Rightarrow>
               if \<not> ok then fold emit es s1
               else s1\<lparr>sk_sent := sk_sent s + length es, sk_delivered := sk_delivered s @ [(f, es)]\<rparr>)))"

definition worker_command :: "bool \<Rightarrow> sink \<Rightarrow> sink" where
  "worker_command p s =
     s\<lparr>sk_capturePaused := p, sk_pauseChanged := (sk_pauseChanged s \<or> sk_capturePaused s \<noteq> p)\<rparr>"

datatype sink_event = Emit Entry | Pump bool | WorkerCommand bool | Woken

fun sink_run :: "(Entry \<Rightarrow> bytes option) \<Rightarrow> sink_event list \<Rightarrow> sink \<Rightarrow> sink" where
  "sink_run js [] s = s"
| "sink_run js (Emit e # xs) s = sink_run js xs (emit e s)"
| "sink_run js (Pump ok # xs) s = sink_run js xs (pump_entry js ok s)"
| "sink_run js (WorkerCommand p # xs) s = sink_run js xs (worker_command p s)"
| "sink_run js (Woken # xs) s = sink_run js xs (s\<lparr>sk_pauseChanged := False\<rparr>)"

subsection \<open>Every entry is accounted for\<close>

fun emitted :: "sink_event list \<Rightarrow> Entry list" where
  "emitted [] = []"
| "emitted (Emit e # xs) = e # emitted xs"
| "emitted (_ # xs) = emitted xs"

definition accounted :: "sink \<Rightarrow> Entry multiset" where
  "accounted s = mset (sk_ch s) + mset (sk_lost s) + mset (sk_skipped s) + mset (concat (map snd (sk_delivered s)))"

lemma emit_accounted: "accounted (emit e s) = add_mset e (accounted s)"
  by (simp add: emit_def accounted_def)

lemma emits_accounted: "accounted (fold emit es s) = mset es + accounted s"
  by (induction es arbitrary: s) (simp_all add: emit_accounted)

text \<open>A frame's raw entries are those of its entries, and before its last entry it is within the bound.\<close>

definition batch_ok :: "(Entry \<Rightarrow> bytes option) \<Rightarrow> bytes list \<Rightarrow> Entry list \<Rightarrow> bool" where
  "batch_ok js raws es \<longleftrightarrow> map Some raws = map js es \<and> es \<noteq> [] \<and> length es \<le> sinkBatchMaxEntries
     \<and> (length es > 1 \<longrightarrow> sum_list (map length (butlast raws)) < sinkBatchMaxBytes)"

lemma drain_ok:
  assumes "batch_ok js raws es" "n = sum_list (map length raws)"
  shows "case drain js raws es n ch of (raws', es', skipped, ch') \<Rightarrow>
    batch_ok js raws' es' \<and> (\<forall>e \<in> set skipped. js e = None) \<and> mset es + mset ch = mset es' + mset skipped + mset ch'
    \<and> (\<exists>taken. ch = taken @ ch' \<and> es' = es @ filter (\<lambda>e. js e \<noteq> None) taken)"
  using assms
proof (induction ch arbitrary: raws es n)
  case (Cons e ch)
  show ?case
  proof (cases "length es < sinkBatchMaxEntries \<and> n < sinkBatchMaxBytes")
    case room: True
    show ?thesis
    proof (cases "js e")
      case None
      obtain a b c d where r: "drain js raws es n ch = (a, b, c, d)" by (metis prod_cases4)
      have ih: "batch_ok js a b \<and> (\<forall>e \<in> set c. js e = None) \<and> mset es + mset ch = mset b + mset c + mset d
          \<and> (\<exists>taken. ch = taken @ d \<and> b = es @ filter (\<lambda>e. js e \<noteq> None) taken)" using Cons.IH [OF Cons.prems] r by simp
      then obtain taken where t: "ch = taken @ d" "b = es @ filter (\<lambda>e. js e \<noteq> None) taken" by blast
      have "e # ch = (e # taken) @ d \<and> b = es @ filter (\<lambda>e. js e \<noteq> None) (e # taken)" using t None by simp
      then have "\<exists>taken'. e # ch = taken' @ d \<and> b = es @ filter (\<lambda>e. js e \<noteq> None) taken'" by blast
      then show ?thesis using ih None room r by simp
    next
      case (Some b)
      have "batch_ok js (raws @ [b]) (es @ [e])" "n + length b = sum_list (map length (raws @ [b]))"
        using Cons.prems Some room by (auto simp: batch_ok_def)
      from Cons.IH [OF this] obtain a' b' c' d' where r: "drain js (raws @ [b]) (es @ [e]) (n + length b) ch = (a', b', c', d')"
          "batch_ok js a' b'" "\<forall>e \<in> set c'. js e = None" "mset (es @ [e]) + mset ch = mset b' + mset c' + mset d'"
          "\<exists>taken. ch = taken @ d' \<and> b' = (es @ [e]) @ filter (\<lambda>e. js e \<noteq> None) taken" by (auto split: prod.splits)
      then obtain taken where t: "ch = taken @ d'" "b' = (es @ [e]) @ filter (\<lambda>e. js e \<noteq> None) taken" by blast
      have "e # ch = (e # taken) @ d' \<and> b' = es @ filter (\<lambda>e. js e \<noteq> None) (e # taken)" using t Some by simp
      then have "\<exists>taken'. e # ch = taken' @ d' \<and> b' = es @ filter (\<lambda>e. js e \<noteq> None) taken'" by blast
      then show ?thesis using r(2-4) Some room r(1) by simp
    qed
  next
    case False
    then have "\<not> (length es < sinkBatchMaxEntries) \<or> \<not> (n < sinkBatchMaxBytes)" by auto
    then have "drain js raws es n (e # ch) = (raws, es, [], e # ch)" by auto
    then show ?thesis using Cons.prems(1) by (auto intro: exI [of _ "[]"])
  qed
qed (auto intro: exI [of _ "[]"])

lemma assemble_ok:
  "case assembleBatch js e ch of (frame, skipped, ch') \<Rightarrow>
    (case frame of None \<Rightarrow> js e = None \<and> skipped = [e] \<and> ch' = ch
     | Some (f, es) \<Rightarrow> (\<exists>raws. batch_ok js raws es \<and> f = (if length raws = 1 then entry_frame (hd raws) else batch_frame raws))
         \<and> add_mset e (mset ch) = mset es + mset skipped + mset ch'
         \<and> (\<exists>taken. ch = taken @ ch' \<and> es = e # filter (\<lambda>e. js e \<noteq> None) taken)) \<and> (\<forall>e \<in> set skipped. js e = None)"
proof (cases "js e")
  case (Some b)
  have "batch_ok js [b] [e]" using Some by (simp add: batch_ok_def sinkBatchMaxEntries_def)
  from drain_ok [OF this, of "length b" ch] obtain a b' c d where r: "drain js [b] [e] (length b) ch = (a, b', c, d)" "batch_ok js a b'" "\<forall>e \<in> set c. js e = None"
      "mset [e] + mset ch = mset b' + mset c + mset d" "\<exists>taken. ch = taken @ d \<and> b' = [e] @ filter (\<lambda>e. js e \<noteq> None) taken" by (auto split: prod.splits)
  have "\<exists>raws. batch_ok js raws b' \<and> (if length a = 1 then entry_frame (hd a) else batch_frame a) = (if length raws = 1 then entry_frame (hd raws) else batch_frame raws)"
    using r(2) by (intro exI [of _ a]) simp
  then show ?thesis using Some r by (simp add: assembleBatch_def)
qed (simp add: assembleBatch_def)

definition sink_ok :: "(Entry \<Rightarrow> bytes option) \<Rightarrow> sink \<Rightarrow> bool" where
  "sink_ok js s \<longleftrightarrow> length (sk_ch s) \<le> sk_cap s \<and> sk_dropped s = length (sk_lost s) \<and> sk_sent s = length (concat (map snd (sk_delivered s)))
     \<and> (\<forall>e \<in> set (sk_skipped s). js e = None)
     \<and> (\<forall>(f, es) \<in> set (sk_delivered s). \<exists>raws. batch_ok js raws es \<and> f = (if length raws = 1 then entry_frame (hd raws) else batch_frame raws))"

lemma emit_ok: "sink_ok js s \<Longrightarrow> sink_ok js (emit e s)"
  by (simp add: sink_ok_def emit_def)

lemma emits_ok: "sink_ok js s \<Longrightarrow> sink_ok js (fold emit es s)"
  by (induction es arbitrary: s) (simp_all add: emit_ok)

lemma pump_ok:
  assumes "sink_ok js s"
  shows "sink_ok js (pump_entry js ok s) \<and> accounted (pump_entry js ok s) = accounted s"
proof (cases "sk_ch s")
  case Nil
  then show ?thesis using assms by (simp add: pump_entry_def)
next
  case (Cons e ch)
  obtain frame skipped ch' where a: "assembleBatch js e ch = (frame, skipped, ch')" by (metis prod_cases3)
  note ok = assemble_ok [of js e ch, unfolded a prod.case]
  let ?s1 = "s\<lparr>sk_ch := ch', sk_skipped := sk_skipped s @ skipped\<rparr>"
  show ?thesis
  proof (cases frame)
    case None
    then show ?thesis using ok assms Cons a by (simp add: pump_entry_def sink_ok_def accounted_def)
  next
    case (Some fe)
    obtain f es where fe: "fe = (f, es)" by (cases fe)
    obtain taken where t: "ch = taken @ ch'" using ok Some fe by auto
    have m: "add_mset e (mset ch) = mset es + mset skipped + mset ch'" using ok Some fe by simp
    have ok1: "sink_ok js ?s1" using assms Cons t ok by (auto simp: sink_ok_def)
    have acc1: "mset es + accounted ?s1 = accounted s" using Cons m by (simp add: accounted_def)
    have fr: "\<exists>raws. batch_ok js raws es \<and> f = (if length raws = 1 then entry_frame (hd raws) else batch_frame raws)" using ok Some fe by simp
    let ?s2 = "?s1\<lparr>sk_sent := sk_sent s + length es, sk_delivered := sk_delivered s @ [(f, es)]\<rparr>"
    have "sink_ok js ?s2" using ok1 fr by (auto simp: sink_ok_def)
    moreover have "accounted ?s2 = mset es + accounted ?s1" by (simp add: accounted_def)
    ultimately show ?thesis using Cons a Some fe emits_ok [OF ok1, of es] emits_accounted [of es ?s1] acc1 by (simp add: pump_entry_def Let_def)
  qed
qed

lemma run_ok: "sink_ok js s \<Longrightarrow> sink_ok js (sink_run js xs s) \<and> accounted (sink_run js xs s) = mset (emitted xs) + accounted s"
proof (induction js xs s rule: sink_run.induct)
  case (2 js e xs s)
  then show ?case by (simp add: emit_ok emit_accounted)
next
  case (3 js ok xs s)
  then show ?case using pump_ok [of js s ok] by simp
next
  case (4 js p xs s)
  have "sink_ok js (worker_command p s)" "accounted (worker_command p s) = accounted s" using 4(2) by (simp_all add: worker_command_def sink_ok_def accounted_def)
  then show ?case using 4(1) by simp
next
  case (5 js xs s)
  have "sink_ok js (s\<lparr>sk_pauseChanged := False\<rparr>)" "accounted (s\<lparr>sk_pauseChanged := False\<rparr>) = accounted s" using 5(2) by (simp_all add: sink_ok_def accounted_def)
  then show ?case using 5(1) by simp
qed simp

lemma cap_kept: "sk_cap (sink_run js xs s) = sk_cap s"
proof -
  have e: "sk_cap (fold emit es s) = sk_cap s" for es s by (induction es arbitrary: s) (simp_all add: emit_def)
  have "sk_cap (pump_entry js ok s) = sk_cap s" for ok s
    by (auto simp: pump_entry_def Let_def e split: list.splits option.splits prod.splits)
  moreover have "sk_cap (emit e s) = sk_cap s" "sk_cap (worker_command p s) = sk_cap s" for e s p
    by (simp_all add: emit_def worker_command_def)
  ultimately show ?thesis by (induction js xs s rule: sink_run.induct) simp_all
qed

text \<open>C14: Every captured entry is accounted for: in any order of emissions, successful writes and failed writes, each is exactly once in a delivered frame, still
  queued, counted as dropped, or not marshalable; the counters are exact; and a delivered frame is the JSON of its entries, of at most 64, and below the byte bound
  before its last entry.\<close>

theorem sink_loses_nothing_silently:
  fixes xs :: "sink_event list" and js :: "Entry \<Rightarrow> bytes option"
  defines "s \<equiv> sink_run js xs new_sink"
  shows "mset (emitted xs) = mset (sk_ch s) + mset (sk_lost s) + mset (sk_skipped s) + mset (concat (map snd (sk_delivered s)))
    \<and> sk_dropped s = length (sk_lost s) \<and> sk_sent s = length (concat (map snd (sk_delivered s))) \<and> length (sk_ch s) \<le> 1024
    \<and> list_all (\<lambda>e. js e = None) (sk_skipped s)
    \<and> list_all (\<lambda>(f, es). \<exists>raws. batch_ok js raws es \<and> f = (if length raws = 1 then entry_frame (hd raws) else batch_frame raws)) (sk_delivered s)"
proof -
  have "sink_ok js new_sink" "accounted new_sink = {#}" by (simp_all add: sink_ok_def new_sink_def accounted_def)
  then have r: "sink_ok js s" "accounted s = mset (emitted xs)" using run_ok [of js new_sink xs] by (simp_all add: s_def)
  moreover have "sk_cap s = 1024" by (simp add: s_def cap_kept new_sink_def)
  ultimately show ?thesis unfolding r(2) [symmetric] by (auto simp: sink_ok_def accounted_def list_all_iff)
qed

end
