(* ===== verification/Spec2Isabelle.thy ===== *)
theory Spec2Isabelle
  imports Hub_Store Hub_Filter Hub_Pcap Hub_Summary Hub_Sort Hub_Export Hub_Auth Hub_Workers Hub_Broadcast Hub_Rest Mcp_Reports Worker_Kafka Worker_Mongo Worker_Dns Worker_Mysql Worker_Amqp Worker_Ebpf Worker_Sink
begin

text \<open>
  k8shark observes the traffic of a Kubernetes cluster.  On every node a worker captures packets, or decrypted records from probes in the TLS libraries, reassembles
  the streams, dissects the protocols, pairs requests with responses into entries and ships the entries to the hub.  The hub keeps the newest entries in a ring,
  answers filtered queries, reports and exports, and controls the workers; an MCP server turns its answers into reports for agents.

  This development translates the Go code of both sides, component by component.  A struct is a record, with a prefix of its own for the fields; a package-level
  function is a definition of the same name where Isabelle allows it; a method takes the state first or last and returns it changed; an error is \<open>None\<close> or a
  constructor; a loop is a recursive function.  Goroutines that share a lock are step relations or runs over lists of events, one event for each critical section.

  \<^item> Foundations.  \<open>K8_Prelude\<close>: bytes, runes and UTF-8, decimal numbers, the parts of the standard library that the code calls, doubles as their bit pattern.
    \<open>Go_Sort\<close>: \<open>sort.Slice\<close>, with the locale \<open>weak_order\<close> that each report interprets on its own comparison.  \<open>Api_Types\<close>: \<open>pkg/api/types.go\<close>.
  \<^item> Hub, \<open>internal/hub\<close>.  \<open>Hub_Fields\<close>, \<open>Hub_Lexer\<close>, \<open>Hub_Filter\<close>: the filter language of \<open>filter.go\<close>; a printed filter compiles to its meaning, deep or malformed
    ones are refused, compilation is total.  \<open>Hub_Facets\<close>: the value counters of \<open>facets.go\<close>.  \<open>Hub_Store\<close>: the ring of \<open>store.go\<close>; it refines a plain history
    bounded by count and bytes, also when adds overlap, and queries page that history.  \<open>Hub_Summary\<close>: summaries, timeline and service graph.  \<open>Hub_Sort\<close>: sorted
    queries with the heap of \<open>container/heap\<close>.  \<open>Hub_Pcap\<close>: what \<open>pcap.go\<close> reconstructs.  \<open>Hub_Export\<close>: the export of \<open>export.go\<close>.  \<open>Hub_Auth\<close>: tokens and origins of
    \<open>server.go\<close>.  \<open>Hub_Workers\<close>: the registry of workers and their commands in \<open>server.go\<close>.
    \<open>Hub_Broadcast\<close>: the live feed of \<open>server.go\<close>, whose shared frames are those each client would get by itself.  \<open>Hub_Rest\<close>: the handlers, whose entry
    queries are pages of the history and whose cached reports are less than a second old.
  \<^item> MCP server, \<open>internal/mcp\<close>.  \<open>Mcp_Reports\<close>: the error clusters and the cap on texts.
  \<^item> Worker, \<open>internal/worker\<close>.  \<open>Worker_Reader\<close>, \<open>Worker_Wire\<close>: the loops that read records from a stream.  \<open>Worker_Caps\<close>: retention caps.  \<open>Worker_Conn\<close>: connection identity.
    \<open>Worker_Maps\<close>, \<open>Worker_Flows\<close>: bounded maps, and the accounting of flows.  \<open>Worker_Pairing\<close>: the queues that pair requests with responses; with several
    goroutines they refine a first-in first-out queue.  \<open>Worker_Idpair\<close>: pairing by message id, a locale that the tables of Kafka, MongoDB and DNS interpret.
    \<open>Worker_Capture\<close>: bodies and loss.  \<open>Worker_Url\<close>, \<open>Worker_Http\<close>, \<open>Worker_Ws\<close>, \<open>Worker_Resp\<close>, \<open>Worker_Postgres\<close>, \<open>Worker_Mysql\<close>, \<open>Worker_Mongo\<close>, \<open>Worker_Kafka\<close>, \<open>Worker_Amqp\<close>,
    \<open>Worker_Dns\<close>: the dissectors.  \<open>Worker_Tls\<close>: the streams of decrypted records and the sniffing of \<open>tls_pipeline.go\<close>.  \<open>Worker_Ebpf\<close>: the event decoder, the ledger
    of losses and the table of probes of \<open>ebpf/loader.go\<close>.  \<open>Worker_Hexdump\<close>: \<open>hexdump.go\<close>.  \<open>Worker_Sink\<close>: the buffer towards the hub, \<open>sink.go\<close>.

  How the parts meet.  A dissector gives the list of the calls it makes on the pairing queues, with the payloads; \<open>Worker_Pairing\<close> and \<open>Worker_Idpair\<close> are the state those
  calls change, and the entries they emit are what \<open>Worker_Sink\<close> queues.  On the hub, \<open>Hub_Workers\<close> is where they arrive, \<open>Hub_Store\<close> where they are kept, \<open>Hub_Export\<close> where
  copies leave, and \<open>Hub_Filter\<close> gives the predicates of \<open>Hub_Store\<close>'s queries, whose results \<open>Hub_Summary\<close>, \<open>Hub_Sort\<close> and \<open>Hub_Pcap\<close> aggregate.

  Bounds.  A reader that loops over records takes the length of the stream as its bound; each guarded read shortens the stream, so the bound is never what stops it,
  and the equations of the loops are proved without it.  Recursion that the code bounds (filters, RESP values, AMQP tables) has the code's depth as an argument.
  Integers are unbounded where the code's stay far from their range, and \<open>word\<close> or reduced explicitly where wrap-around matters: sequence numbers, message ids, durations.

  Parameters.  What is not in the repository is an argument: Unicode tables, regular expressions, float formatting and address parsing (\<open>golib\<close>), the HTTP message
  parser of \<open>net/http\<close>, decompression, the DNS decoder, JSON marshalling of an entry, the clock, the order in which Go walks a map, and the outcome of system calls.

  Where the code does not do what it says, a theorem states what happens: \<open>Hub_Broadcast.replay_duplicates_pending\<close>, \<open>Hub_Workers.reconnect_marked_disconnected\<close>, \<open>Hub_Store.paging_skips_racing_entry\<close>,
  \<open>Worker_Http.refused_upgrade_hides_requests\<close>, \<open>Worker_Tls.lag_check_races_with_push\<close>, \<open>Worker_Flows.wrap_gap_counts_retransmits\<close> and others like them.

  Not modelled: writing the hub's answers as JSON and its metrics text; Kubernetes
  enrichment and capture sessions, which call the Kubernetes API; the JSON-RPC server of the MCP side; packet sockets, capture files and BPF filters; the kernel
  program and the attaching of probes; the demo generator; the command line, the charts and the web interface.
\<close>

end
